(* ===== verification/Prelude.thy ===== *)
theory Prelude
  imports Main "HOL-Library.Word" "HOL-Library.Code_Target_Nat"
begin

text \<open>
  Shared vocabulary of the development: names for the machine types of the Rust sources, the
  checked and saturating arithmetic of the Rust standard library, the result type of fallible
  kernel operations, and the generic lemmas on lists, options and words that the component
  theories rely on.

  Conventions. Rust's \<open>usize\<close> counts, sizes and addresses are \<^typ>\<open>nat\<close> values below
  \<open>2 ^ 64\<close>; wherever the source uses a checked operation the overflow branch is written out
  with \<open>checked_add\<close> or \<open>checked_mul\<close> below. The workspace is built with Cargo's default
  development profile (no \<^verbatim>\<open>--release\<close> in \<^verbatim>\<open>tools/xtask/src/build.rs\<close>), in which an unchecked
  \<open>+\<close>, \<open>-\<close> or \<open>*\<close> that overflows panics; where such an overflow is reachable the model returns
  \<open>Panic\<close>. \<open>i32\<close>, \<open>i64\<close> and \<open>isize\<close> are \<^typ>\<open>int\<close>; bit masks and registers are words.
\<close>

unbundle bit_operations_syntax

type_synonym u8 = "8 word"
type_synonym u16 = "16 word"
type_synonym u32 = "32 word"
type_synonym u64 = "64 word"
type_synonym usize = nat
type_synonym i32 = int
type_synonym i64 = int
type_synonym pid = int
type_synonym bytes = "u8 list"

named_theorems posix_consts \<open>the numeric values of the constants of the ABI and the kernel\<close>

subsection \<open>Results of fallible operations\<close>

text \<open>
  \<open>Ok\<close> and \<open>Err\<close> are the constructors of Rust's \<open>Result<T, i32>\<close>; \<open>Panic\<close> stands for a kernel
  panic (arithmetic overflow, index out of bounds, failed assertion), after which the CPU halts.
\<close>

datatype 'a kres = Ok 'a | Err i32 | Panic

definition kres_bind :: "'a kres \<Rightarrow> ('a \<Rightarrow> 'b kres) \<Rightarrow> 'b kres" where
  "kres_bind r f = (case r of Ok x \<Rightarrow> f x | Err e \<Rightarrow> Err e | Panic \<Rightarrow> Panic)"

lemma kres_bind_simps [simp]:
  "kres_bind (Ok x) f = f x"
  "kres_bind (Err e) f = Err e"
  "kres_bind Panic f = Panic"
  by (simp_all add: kres_bind_def)

lemma kres_bind_Ok_iff: "kres_bind r f = Ok y \<longleftrightarrow> (\<exists>x. r = Ok x \<and> f x = Ok y)"
  by (cases r) auto

definition ok_or :: "'a option \<Rightarrow> i32 \<Rightarrow> 'a kres" where
  "ok_or x e = (case x of Some v \<Rightarrow> Ok v | None \<Rightarrow> Err e)"

lemma ok_or_simps [simp]: "ok_or (Some v) e = Ok v" "ok_or None e = Err e"
  by (simp_all add: ok_or_def)

lemma ok_or_Ok_iff [simp]: "ok_or x e = Ok v \<longleftrightarrow> x = Some v"
  by (cases x) auto

subsection \<open>Checked and saturating arithmetic on \<open>usize\<close>\<close>

definition USIZE_LIMIT :: nat where
  "USIZE_LIMIT = 2 ^ 64"

definition checked_add :: "usize \<Rightarrow> usize \<Rightarrow> usize option" where
  "checked_add a b = (if a + b < USIZE_LIMIT then Some (a + b) else None)"

definition checked_sub :: "usize \<Rightarrow> usize \<Rightarrow> usize option" where
  "checked_sub a b = (if b \<le> a then Some (a - b) else None)"

definition checked_mul :: "usize \<Rightarrow> usize \<Rightarrow> usize option" where
  "checked_mul a b = (if a * b < USIZE_LIMIT then Some (a * b) else None)"

text \<open>\<open>saturating_sub\<close> on \<open>usize\<close> is subtraction on \<^typ>\<open>nat\<close>, which stops at zero.\<close>

definition saturating_sub :: "usize \<Rightarrow> usize \<Rightarrow> usize" where
  "saturating_sub a b = a - b"

definition saturating_add :: "usize \<Rightarrow> usize \<Rightarrow> usize" where
  "saturating_add a b = min (a + b) (USIZE_LIMIT - 1)"

definition saturating_mul :: "usize \<Rightarrow> usize \<Rightarrow> usize" where
  "saturating_mul a b = min (a * b) (USIZE_LIMIT - 1)"

definition div_ceil :: "usize \<Rightarrow> usize \<Rightarrow> usize" where
  "div_ceil a b = (if a mod b = 0 then a div b else a div b + 1)"

lemma checked_add_Some_iff: "checked_add a b = Some c \<longleftrightarrow> c = a + b \<and> a + b < USIZE_LIMIT"
  by (auto simp: checked_add_def)

lemma checked_mul_Some_iff: "checked_mul a b = Some c \<longleftrightarrow> c = a * b \<and> a * b < USIZE_LIMIT"
  by (auto simp: checked_mul_def)

lemma div_ceil_bounds: "0 < b \<Longrightarrow> a \<le> div_ceil a b * b \<and> div_ceil a b * b < a + b"
proof -
  assume b: "0 < b"
  obtain q r where q: "q = a div b" and r: "r = a mod b" by simp
  have a: "a = q * b + r" and "r < b" using b by (simp_all add: q r)
  then have "(if r = 0 then q else q + 1) * b < a + b \<and> a \<le> (if r = 0 then q else q + 1) * b"
    by simp
  then show ?thesis unfolding div_ceil_def q r by blast
qed

lemma div_ceil_zero_iff: "0 < b \<Longrightarrow> div_ceil a b = 0 \<longleftrightarrow> a = 0"
  using div_ceil_bounds [of b a] by (auto simp: div_ceil_def)

lemma less_div_ceil_mult: "k < a \<Longrightarrow> 0 < b \<Longrightarrow> k div b < div_ceil a b"
  using div_ceil_bounds [of b a] by (metis div_less_iff_less_mult less_le_trans)

subsection \<open>Alignment\<close>

text \<open>\<open>x & !(n - 1)\<close> for a power of two \<open>n\<close>, and its rounding-up companion.\<close>

definition align_down :: "usize \<Rightarrow> usize \<Rightarrow> usize" where
  "align_down a n = a div n * n"

definition align_up :: "usize \<Rightarrow> usize \<Rightarrow> usize" where
  "align_up a n = (a + n - 1) div n * n"

lemma align_down_le: "align_down a n \<le> a"
  by (simp add: align_down_def)

lemma align_down_dvd [simp]: "n dvd align_down a n"
  by (simp add: align_down_def)

lemma align_up_dvd [simp]: "n dvd align_up a n"
  by (simp add: align_up_def)

lemma align_down_gt: "0 < n \<Longrightarrow> a < align_down a n + n"
  unfolding align_down_def using dividend_less_div_times [of n a] by simp

lemma align_down_id: "n dvd a \<Longrightarrow> align_down a n = a"
  by (simp add: align_down_def)

lemma align_up_ge: "0 < n \<Longrightarrow> a \<le> align_up a n"
proof -
  assume n: "0 < n"
  have "a + n - 1 < (a + n - 1) div n * n + n"
    using dividend_less_div_times [OF n, of "a + n - 1"] by simp
  then show ?thesis using n by (simp add: align_up_def)
qed

lemma align_up_less: "0 < n \<Longrightarrow> align_up a n < a + n"
proof -
  assume n: "0 < n"
  have "(a + n - 1) div n * n \<le> a + n - 1" by (rule div_times_less_eq_dividend)
  then have "align_up a n \<le> a + n - 1" by (simp only: align_up_def)
  then show ?thesis using n by linarith
qed

lemma align_up_id: "0 < n \<Longrightarrow> n dvd a \<Longrightarrow> align_up a n = a"
proof -
  assume n: "0 < n" and "n dvd a"
  then obtain k where a: "a = k * n" by (auto simp: dvd_def mult.commute)
  have "(n - 1 + k * n) div n = k" using n by (simp only: div_mult_self1) simp
  moreover have "k * n + n - 1 = n - 1 + k * n" using n by simp
  ultimately show ?thesis by (simp only: align_up_def a)
qed

text \<open>On the machine word the mask \<open>x & !0xFFF\<close> is \<open>align_down\<close>.\<close>

lemma unat_mask_align_down:
  fixes w :: u64
  shows "unat (w AND NOT (mask k)) = align_down (unat w) (2 ^ k)"
proof -
  have "w AND NOT (mask k) = push_bit k (drop_bit k w)"
    by (rule bit_eqI) (auto simp: bit_simps)
  moreover have "unat (push_bit k (drop_bit k w)) = (unat w div 2 ^ k * 2 ^ k) mod 2 ^ 64"
    unfolding unsigned_push_bit_eq unat_drop_bit_eq
    by (simp add: take_bit_eq_mod push_bit_eq_mult drop_bit_eq_div)
  moreover have "unat w div 2 ^ k * 2 ^ k < 2 ^ 64"
  proof -
    have "unat w < 2 ^ 64" using unsigned_less [of w] by simp
    with div_times_less_eq_dividend show ?thesis by (rule le_less_trans)
  qed
  ultimately show ?thesis unfolding align_down_def by (simp only: mod_less)
qed

subsection \<open>Single bits of a word\<close>

text \<open>The source tests and updates bit \<open>k\<close> of a mask with \<open>1 << k\<close>.\<close>

lemma and_push_bit_1_ne_0_iff: "b AND push_bit k 1 \<noteq> 0 \<longleftrightarrow> bit b k"
  for b :: "'a::len word"
proof -
  have "bit (b AND push_bit k 1) n \<longleftrightarrow> n = k \<and> bit b n" for n
    by (auto simp: bit_simps dest: bit_imp_le_length)
  then show ?thesis by (metis bit_0_eq bot_apply bot_bool_def bit_eq_iff)
qed

lemma bit_or_push_bit_1: "k < LENGTH('a) \<Longrightarrow> bit (b OR push_bit k 1) n \<longleftrightarrow> n = k \<or> bit b n"
  for b :: "'a::len word"
  by (auto simp: bit_simps)

lemma bit_and_not_push_bit_1: "bit (b AND NOT (push_bit k 1)) n \<longleftrightarrow> n \<noteq> k \<and> bit b n"
  for b :: "'a::len word"
  by (auto simp: bit_simps dest: bit_imp_le_length)

lemma and_exp_eq_0_iff: "b AND 2 ^ k = 0 \<longleftrightarrow> \<not> bit b k" for b :: "'a::len word"
  using and_push_bit_1_ne_0_iff [of b k] by auto

lemmas mask_bit_simps =
  and_push_bit_1_ne_0_iff [unfolded push_bit_of_1]
  and_exp_eq_0_iff
  bit_or_push_bit_1 [unfolded push_bit_of_1]
  bit_and_not_push_bit_1 [unfolded push_bit_of_1]

lemma div_mod_eq_iff: "f div n = g div n \<and> f mod n = g mod n \<longleftrightarrow> f = g" for f g n :: nat
  by (metis div_mult_mod_eq)

end
