(* ===== verification/Posix_Abi.thy ===== *)
theory Posix_Abi
  imports Prelude
begin

text \<open>
  The binary interface shared by kernel and user space, \<^verbatim>\<open>libs/posix-abi/src\<close>: error numbers, flags,
  system call numbers, the structures that cross the system call boundary, and the divisor
  arithmetic of the interval timer. The constants are collected in \<open>posix_consts\<close>; constants that no
  kernel code reads are left out. The padding and reserved fields of the C structures are left out
  of the records.
\<close>

subsection \<open>Error numbers (\<^verbatim>\<open>libs/posix-abi/src/errno.rs\<close>)\<close>

definition EPERM :: i32 where [posix_consts]: "EPERM = 1"
definition ENOENT :: i32 where [posix_consts]: "ENOENT = 2"
definition ESRCH :: i32 where [posix_consts]: "ESRCH = 3"
definition EINTR :: i32 where [posix_consts]: "EINTR = 4"
definition E2BIG :: i32 where [posix_consts]: "E2BIG = 7"
definition ENOEXEC :: i32 where [posix_consts]: "ENOEXEC = 8"
definition EBADF :: i32 where [posix_consts]: "EBADF = 9"
definition ECHILD :: i32 where [posix_consts]: "ECHILD = 10"
definition EAGAIN :: i32 where [posix_consts]: "EAGAIN = 11"
definition ENOMEM :: i32 where [posix_consts]: "ENOMEM = 12"
definition EACCES :: i32 where [posix_consts]: "EACCES = 13"
definition EFAULT :: i32 where [posix_consts]: "EFAULT = 14"
definition EBUSY :: i32 where [posix_consts]: "EBUSY = 16"
definition EEXIST :: i32 where [posix_consts]: "EEXIST = 17"
definition EXDEV :: i32 where [posix_consts]: "EXDEV = 18"
definition ENODEV :: i32 where [posix_consts]: "ENODEV = 19"
definition ENOTDIR :: i32 where [posix_consts]: "ENOTDIR = 20"
definition EISDIR :: i32 where [posix_consts]: "EISDIR = 21"
definition EINVAL :: i32 where [posix_consts]: "EINVAL = 22"
definition EROFS :: i32 where [posix_consts]: "EROFS = 30"
definition EPIPE :: i32 where [posix_consts]: "EPIPE = 32"
definition ERANGE :: i32 where [posix_consts]: "ERANGE = 34"
definition ENAMETOOLONG :: i32 where [posix_consts]: "ENAMETOOLONG = 36"
definition ENOSYS :: i32 where [posix_consts]: "ENOSYS = 38"
definition ENOTEMPTY :: i32 where [posix_consts]: "ENOTEMPTY = 39"

subsection \<open>Flags, modes and signal numbers (\<^verbatim>\<open>libs/posix-abi/src/flags.rs\<close>)\<close>

definition EPOLL_CTL_ADD :: i32 where [posix_consts]: "EPOLL_CTL_ADD = 1"
definition EPOLL_CTL_DEL :: i32 where [posix_consts]: "EPOLL_CTL_DEL = 2"
definition EPOLL_CTL_MOD :: i32 where [posix_consts]: "EPOLL_CTL_MOD = 3"
definition EPOLLIN :: u32 where [posix_consts]: "EPOLLIN = 1"
definition EPOLLOUT :: u32 where [posix_consts]: "EPOLLOUT = 4"
definition EPOLLERR :: u32 where [posix_consts]: "EPOLLERR = 8"
definition EPOLLHUP :: u32 where [posix_consts]: "EPOLLHUP = 16"
definition O_RDONLY :: i32 where [posix_consts]: "O_RDONLY = 0"
definition O_WRONLY :: i32 where [posix_consts]: "O_WRONLY = 1"
definition O_RDWR :: i32 where [posix_consts]: "O_RDWR = 2"
definition O_CREAT :: i32 where [posix_consts]: "O_CREAT = 64"
definition O_EXCL :: i32 where [posix_consts]: "O_EXCL = 128"
definition O_TRUNC :: i32 where [posix_consts]: "O_TRUNC = 512"
definition O_APPEND :: i32 where [posix_consts]: "O_APPEND = 1024"
definition O_NONBLOCK :: i32 where [posix_consts]: "O_NONBLOCK = 2048"
definition SEEK_SET :: i32 where [posix_consts]: "SEEK_SET = 0"
definition SEEK_CUR :: i32 where [posix_consts]: "SEEK_CUR = 1"
definition SEEK_END :: i32 where [posix_consts]: "SEEK_END = 2"
definition PROT_READ :: i32 where [posix_consts]: "PROT_READ = 1"
definition PROT_WRITE :: i32 where [posix_consts]: "PROT_WRITE = 2"
definition PROT_EXEC :: i32 where [posix_consts]: "PROT_EXEC = 4"
definition WNOHANG :: i32 where [posix_consts]: "WNOHANG = 1"
definition SIG_MIN :: i32 where [posix_consts]: "SIG_MIN = 1"
definition SIG_MAX :: i32 where [posix_consts]: "SIG_MAX = 31"
definition SIGKILL :: i32 where [posix_consts]: "SIGKILL = 9"
definition SIGSEGV :: i32 where [posix_consts]: "SIGSEGV = 11"
definition SIGTERM :: i32 where [posix_consts]: "SIGTERM = 15"
definition SIGCHLD :: i32 where [posix_consts]: "SIGCHLD = 17"
definition SIGSTOP :: i32 where [posix_consts]: "SIGSTOP = 19"
definition SIGTSTP :: i32 where [posix_consts]: "SIGTSTP = 20"
definition SIGTTIN :: i32 where [posix_consts]: "SIGTTIN = 21"
definition SIGTTOU :: i32 where [posix_consts]: "SIGTTOU = 22"
definition SIGURG :: i32 where [posix_consts]: "SIGURG = 23"
definition SIGWINCH :: i32 where [posix_consts]: "SIGWINCH = 28"
definition SIG_DFL :: u64 where [posix_consts]: "SIG_DFL = 0"
definition SIG_IGN :: u64 where [posix_consts]: "SIG_IGN = 1"
definition SA_NODEFER :: u64 where [posix_consts]: "SA_NODEFER = 1073741824"
definition SA_RESETHAND :: u64 where [posix_consts]: "SA_RESETHAND = 2147483648"
definition SIG_BLOCK :: i32 where [posix_consts]: "SIG_BLOCK = 0"
definition SIG_UNBLOCK :: i32 where [posix_consts]: "SIG_UNBLOCK = 1"
definition SIG_SETMASK :: i32 where [posix_consts]: "SIG_SETMASK = 2"
definition S_IFREG :: u32 where [posix_consts]: "S_IFREG = 32768"
definition S_IFDIR :: u32 where [posix_consts]: "S_IFDIR = 16384"
definition S_IFCHR :: u32 where [posix_consts]: "S_IFCHR = 8192"
definition S_IFIFO :: u32 where [posix_consts]: "S_IFIFO = 4096"
definition S_ISUID :: u32 where [posix_consts]: "S_ISUID = 2048"
definition S_ISGID :: u32 where [posix_consts]: "S_ISGID = 1024"
definition S_IRUSR :: u32 where [posix_consts]: "S_IRUSR = 256"
definition S_IWUSR :: u32 where [posix_consts]: "S_IWUSR = 128"
definition S_IRGRP :: u32 where [posix_consts]: "S_IRGRP = 32"
definition S_IWGRP :: u32 where [posix_consts]: "S_IWGRP = 16"
definition S_IROTH :: u32 where [posix_consts]: "S_IROTH = 4"
definition S_IWOTH :: u32 where [posix_consts]: "S_IWOTH = 2"
definition DT_FIFO :: u8 where [posix_consts]: "DT_FIFO = 1"
definition DT_CHR :: u8 where [posix_consts]: "DT_CHR = 2"
definition DT_DIR :: u8 where [posix_consts]: "DT_DIR = 4"
definition DT_REG :: u8 where [posix_consts]: "DT_REG = 8"
definition ECHO :: u32 where [posix_consts]: "ECHO = 8"
definition ICANON :: u32 where [posix_consts]: "ICANON = 2"
definition ISIG :: u32 where [posix_consts]: "ISIG = 1"
definition AUDIT_TYPE_USER_ACTION :: u32 where [posix_consts]: "AUDIT_TYPE_USER_ACTION = 1"
definition AUDIT_TYPE_PROCESS_SPAWN :: u32 where [posix_consts]: "AUDIT_TYPE_PROCESS_SPAWN = 2"
definition AUDIT_TYPE_PROCESS_EXIT :: u32 where [posix_consts]: "AUDIT_TYPE_PROCESS_EXIT = 3"
definition AUDIT_TYPE_FILE_CREATE :: u32 where [posix_consts]: "AUDIT_TYPE_FILE_CREATE = 4"
definition AUDIT_TYPE_FILE_MODIFY :: u32 where [posix_consts]: "AUDIT_TYPE_FILE_MODIFY = 5"
definition AUDIT_TYPE_FILE_UNLINK :: u32 where [posix_consts]: "AUDIT_TYPE_FILE_UNLINK = 6"
definition AUDIT_TYPE_DIR_CREATE :: u32 where [posix_consts]: "AUDIT_TYPE_DIR_CREATE = 7"
definition AUDIT_TYPE_DIR_CHANGE :: u32 where [posix_consts]: "AUDIT_TYPE_DIR_CHANGE = 8"
definition AUDIT_TYPE_SNAPSHOT_CREATED :: u32 where [posix_consts]: "AUDIT_TYPE_SNAPSHOT_CREATED = 9"
definition AUDIT_TYPE_SECURITY_ALERT :: u32 where [posix_consts]: "AUDIT_TYPE_SECURITY_ALERT = 10"
definition AT_NULL :: u64 where [posix_consts]: "AT_NULL = 0"
definition AT_PHDR :: u64 where [posix_consts]: "AT_PHDR = 3"
definition AT_PHENT :: u64 where [posix_consts]: "AT_PHENT = 4"
definition AT_PHNUM :: u64 where [posix_consts]: "AT_PHNUM = 5"
definition AT_PAGESZ :: u64 where [posix_consts]: "AT_PAGESZ = 6"
definition AT_ENTRY :: u64 where [posix_consts]: "AT_ENTRY = 9"

subsection \<open>Structures (\<^verbatim>\<open>libs/posix-abi/src/types.rs\<close>)\<close>

record EpollEvent =
  ev_events :: u32
  ev_data :: u64

record Stat =
  st_dev :: u64
  st_ino :: u64
  st_nlink :: u64
  st_mode :: u32
  st_uid :: u32
  st_gid :: u32
  st_rdev :: u64
  st_size :: i64
  st_blksize :: i64
  st_blocks :: i64

definition Stat_default :: Stat where
  "Stat_default = \<lparr> st_dev = 0, st_ino = 0, st_nlink = 1, st_mode = 0, st_uid = 0, st_gid = 0,
     st_rdev = 0, st_size = 0, st_blksize = 4096, st_blocks = 0 \<rparr>"

record Utsname =
  sysname :: bytes
  nodename :: bytes
  release :: bytes
  version :: bytes
  machine :: bytes
  domainname :: bytes

record Sysinfo =
  si_uptime :: i64
  si_loads :: "u64 list"
  si_totalram :: u64
  si_freeram :: u64
  si_sharedram :: u64
  si_bufferram :: u64
  si_totalswap :: u64
  si_freeswap :: u64
  si_procs :: u16
  si_totalhigh :: u64
  si_freehigh :: u64
  si_mem_unit :: u32

record Dirent64 =
  d_ino :: u64
  d_off :: i64
  d_reclen :: u16
  d_type :: u8
  d_name :: bytes

definition Dirent64_default :: Dirent64 where
  "Dirent64_default = \<lparr> d_ino = 0, d_off = 0, d_reclen = 0, d_type = 0, d_name = replicate 256 0 \<rparr>"

record Termios =
  c_iflag :: u32
  c_oflag :: u32
  c_cflag :: u32
  c_lflag :: u32
  c_line :: u8
  c_cc :: bytes
  c_ispeed :: u32
  c_ospeed :: u32

type_synonym SigSet = u64

record SigAction =
  sa_handler :: u64
  sa_flags :: u64
  sa_restorer :: u64
  sa_mask :: SigSet

record SignalFrame =
  sf_restorer :: u64
  sf_signum :: u64
  sf_old_mask :: SigSet
  sf_r15 :: u64
  sf_r14 :: u64
  sf_r13 :: u64
  sf_r12 :: u64
  sf_rbp :: u64
  sf_rbx :: u64
  sf_r9 :: u64
  sf_r8 :: u64
  sf_r10 :: u64
  sf_rdx :: u64
  sf_rsi :: u64
  sf_rdi :: u64
  sf_rax :: u64
  sf_rcx :: u64
  sf_r11 :: u64
  sf_rsp :: u64

record AuditSnapshotHeader =
  sh_id :: u64
  sh_timestamp_ticks :: u64
  sh_journal_seq :: u64
  sh_total_memory_kb :: u64
  sh_used_memory_kb :: u64
  sh_heap_used_kb :: u64
  sh_process_count :: u32
  sh_label :: bytes

subsection \<open>Interval timer arithmetic (\<^verbatim>\<open>libs/posix-abi/src/timer.rs\<close>)\<close>

definition PIT_BASE_FREQUENCY_HZ :: nat where [posix_consts]: "PIT_BASE_FREQUENCY_HZ = 1193182"
definition PIT_FREQUENCY_HZ :: nat where [posix_consts]: "PIT_FREQUENCY_HZ = 100"
definition PIT_MIN_FREQUENCY_HZ :: nat where [posix_consts]: "PIT_MIN_FREQUENCY_HZ = 19"
definition PIT_MAX_FREQUENCY_HZ :: nat where
  [posix_consts]: "PIT_MAX_FREQUENCY_HZ = PIT_BASE_FREQUENCY_HZ"

definition pit_calc_divisor :: "nat \<Rightarrow> nat option" where
  "pit_calc_divisor hz =
    (if hz < PIT_MIN_FREQUENCY_HZ \<or> hz > PIT_MAX_FREQUENCY_HZ then None
     else let divisor = PIT_BASE_FREQUENCY_HZ div hz in
       if divisor = 0 \<or> divisor > 65535 then None else Some divisor)"

definition pit_effective_freq :: "nat \<Rightarrow> nat" where
  "pit_effective_freq divisor = (if divisor = 0 then 0 else PIT_BASE_FREQUENCY_HZ div divisor)"

text \<open>Inside the supported range the 16-bit range check of the divisor never fires.\<close>

lemma pit_calc_divisor_Some:
  assumes "19 \<le> hz" "hz \<le> 1193182"
  shows "pit_calc_divisor hz = Some (1193182 div hz)"
proof -
  have "1193182 div hz \<le> 1193182 div 19" using assms(1) by (rule div_le_mono2 [rotated]) simp
  then have "1193182 div hz \<le> 62799" by simp
  moreover have "1193182 div hz \<noteq> 0" using assms by (simp add: div_eq_0_iff)
  ultimately show ?thesis using assms by (simp add: pit_calc_divisor_def posix_consts Let_def)
qed

lemma pit_effective_freq_ge:
  assumes "pit_calc_divisor hz = Some d"
  shows "hz \<le> pit_effective_freq d"
proof -
  from assms have hz: "0 < hz" and d: "d = 1193182 div hz" "d \<noteq> 0"
    by (auto simp: pit_calc_divisor_def posix_consts Let_def split: if_splits)
  have "hz * d \<le> 1193182" unfolding d(1) by (rule times_div_less_eq_dividend)
  then have "hz \<le> 1193182 div d" using d(2) by (simp add: less_eq_div_iff_mult_less_eq)
  then show ?thesis using d(2) by (simp add: pit_effective_freq_def posix_consts)
qed

end
