(* ===== verification/Pmm.thy ===== *)
theory Pmm
  imports Posix_Abi
begin

text \<open>
  The physical memory manager, \<^verbatim>\<open>kernel/src/ostd/mm/pmm.rs\<close>: a bitmap with one bit per 4 KiB frame
  (1 = used), a next-fit cursor and a counter of free frames. The bitmap is the list of the bytes it
  occupies in memory. The abstract state of the allocator is the set \<open>free_set\<close> of free frame numbers;
  the lemmas show what each operation does to that set, and the locale \<open>frame_allocator\<close> is the contract
  its clients rely on.
\<close>

definition PAGE_SIZE :: usize where [posix_consts]: "PAGE_SIZE = 4096"

record PhysicalMemoryManager =
  bitmap :: "u8 list"
  total_frames :: usize
  free_frames :: usize
  last_frame :: usize

definition set_bit :: "PhysicalMemoryManager \<Rightarrow> usize \<Rightarrow> bool \<Rightarrow> PhysicalMemoryManager" where
  "set_bit m frame_idx used =
    (if frame_idx \<ge> total_frames m then m
     else let byte_idx = frame_idx div 8; bit_idx = frame_idx mod 8; b = bitmap m ! byte_idx in
       m\<lparr> bitmap := (bitmap m)[byte_idx :=
            (if used then b OR push_bit bit_idx 1 else b AND NOT (push_bit bit_idx 1))] \<rparr>)"

definition test_bit :: "PhysicalMemoryManager \<Rightarrow> usize \<Rightarrow> bool" where
  "test_bit m frame_idx =
    (if frame_idx \<ge> total_frames m then True
     else bitmap m ! (frame_idx div 8) AND push_bit (frame_idx mod 8) 1 \<noteq> 0)"

text \<open>The body shared by the two search loops of \<open>alloc_frame\<close> once a clear bit is found.\<close>

definition take_frame :: "PhysicalMemoryManager \<Rightarrow> usize \<Rightarrow> usize option \<times> PhysicalMemoryManager" where
  "take_frame m f =
    (let m1 = set_bit m f True in
     (Some (f * PAGE_SIZE),
      m1\<lparr> free_frames := saturating_sub (free_frames m1) 1, last_frame := f + 1 \<rparr>))"

definition alloc_frame :: "PhysicalMemoryManager \<Rightarrow> usize option \<times> PhysicalMemoryManager" where
  "alloc_frame m =
    (let start = last_frame m in
     case find (\<lambda>f. \<not> test_bit m f) [start..<total_frames m] of
       Some f \<Rightarrow> take_frame m f
     | None \<Rightarrow>
        (case find (\<lambda>f. \<not> test_bit m f) [1..<start] of
           Some f \<Rightarrow> take_frame m f
         | None \<Rightarrow> (None, m)))"

definition set_bits :: "PhysicalMemoryManager \<Rightarrow> usize list \<Rightarrow> bool \<Rightarrow> PhysicalMemoryManager" where
  "set_bits m fs used = fold (\<lambda>f m. set_bit m f used) fs m"

fun contiguous_scan ::
  "PhysicalMemoryManager \<Rightarrow> usize \<Rightarrow> usize list \<Rightarrow> usize \<Rightarrow> usize \<Rightarrow> usize option" where
  "contiguous_scan m count [] run_start run_len = None"
| "contiguous_scan m count (f # fs) run_start run_len =
    (if \<not> test_bit m f then
       let run_start' = (if run_len = 0 then f else run_start); run_len' = run_len + 1 in
       if run_len' = count then Some run_start'
       else contiguous_scan m count fs run_start' run_len'
     else contiguous_scan m count fs run_start 0)"

definition alloc_contiguous_frames ::
  "PhysicalMemoryManager \<Rightarrow> usize \<Rightarrow> usize option \<times> PhysicalMemoryManager" where
  "alloc_contiguous_frames m count =
    (if count = 0 then (None, m)
     else if count = 1 then alloc_frame m
     else case contiguous_scan m count [1..<total_frames m] 1 0 of
       Some run_start \<Rightarrow>
        (let m1 = set_bits m [run_start..<run_start + count] True in
         (Some (run_start * PAGE_SIZE),
          m1\<lparr> free_frames := saturating_sub (free_frames m1) count \<rparr>))
     | None \<Rightarrow> (None, m))"

definition free_frame :: "PhysicalMemoryManager \<Rightarrow> usize \<Rightarrow> PhysicalMemoryManager" where
  "free_frame m phys_addr =
    (let frame_idx = phys_addr div PAGE_SIZE in
     if frame_idx < total_frames m \<and> test_bit m frame_idx then
       let m1 = set_bit m frame_idx False;
           m2 = m1\<lparr> free_frames := free_frames m1 + 1 \<rparr> in
       if frame_idx < last_frame m2 then m2\<lparr> last_frame := frame_idx \<rparr> else m2
     else m)"

subsection \<open>Initialisation from the bootloader's memory map\<close>

text \<open>
  A Limine memory map entry (\<^verbatim>\<open>kernel/src/ostd/limine.rs\<close>). The sums of the first loop overflow, and
  panic, when a region ends beyond the address space.
\<close>

record LimineMemmapEntry =
  mm_base :: usize
  mm_length :: usize
  mm_typ :: u64

definition LIMINE_MEMMAP_USABLE :: u64 where [posix_consts]: "LIMINE_MEMMAP_USABLE = 0"

fun scan_memmap :: "LimineMemmapEntry list \<Rightarrow> usize \<Rightarrow> usize \<Rightarrow> (usize \<times> usize) option" where
  "scan_memmap [] highest_addr total_bytes = Some (highest_addr, total_bytes)"
| "scan_memmap (entry # es) highest_addr total_bytes =
    (if mm_typ entry = LIMINE_MEMMAP_USABLE then
       case (checked_add total_bytes (mm_length entry), checked_add (mm_base entry) (mm_length entry)) of
         (Some total_bytes', Some top_addr) \<Rightarrow>
           scan_memmap es (if top_addr > highest_addr then top_addr else highest_addr) total_bytes'
       | _ \<Rightarrow> None
     else scan_memmap es highest_addr total_bytes)"

definition bitmap_region :: "LimineMemmapEntry list \<Rightarrow> usize \<Rightarrow> usize" where
  "bitmap_region entries bitmap_size =
    (case find (\<lambda>e. mm_typ e = LIMINE_MEMMAP_USABLE \<and> mm_length e \<ge> bitmap_size) entries of
       Some e \<Rightarrow> mm_base e | None \<Rightarrow> 0)"

definition entry_frames :: "LimineMemmapEntry \<Rightarrow> usize list" where
  "entry_frames e = [mm_base e div PAGE_SIZE ..< mm_base e div PAGE_SIZE + mm_length e div PAGE_SIZE]"

definition release_frame :: "usize \<Rightarrow> PhysicalMemoryManager \<Rightarrow> PhysicalMemoryManager" where
  "release_frame f m = (let m1 = set_bit m f False in m1\<lparr> free_frames := free_frames m1 + 1 \<rparr>)"

definition reserve_frame :: "usize \<Rightarrow> PhysicalMemoryManager \<Rightarrow> PhysicalMemoryManager" where
  "reserve_frame f m =
    (let m1 = set_bit m f True in m1\<lparr> free_frames := saturating_sub (free_frames m1) 1 \<rparr>)"

text \<open>The initial manager, before any region is released: every bit of the bitmap is set.\<close>

definition pmm_full :: "usize \<Rightarrow> PhysicalMemoryManager" where
  "pmm_full n = \<lparr> bitmap = replicate (div_ceil n 8) 255, total_frames = n,
                 free_frames = 0, last_frame = 1 \<rparr>"

definition release_usable :: "LimineMemmapEntry list \<Rightarrow> PhysicalMemoryManager \<Rightarrow> PhysicalMemoryManager" where
  "release_usable entries m =
    fold (\<lambda>e m. if mm_typ e = LIMINE_MEMMAP_USABLE then fold release_frame (entry_frames e) m else m)
      entries m"

text \<open>For a memory map that is present; without one \<open>pmm_init\<close> returns and the global instance stays \<open>None\<close>.\<close>

definition pmm_init :: "LimineMemmapEntry list \<Rightarrow> PhysicalMemoryManager kres" where
  "pmm_init entries =
    (case scan_memmap entries 0 0 of
       None \<Rightarrow> Panic
     | Some (highest_addr, total_bytes) \<Rightarrow>
        (let total = div_ceil highest_addr PAGE_SIZE;
             bitmap_size = div_ceil total 8;
             bitmap_addr = bitmap_region entries bitmap_size;
             m = release_usable entries (pmm_full total);
             m = set_bit m 0 True;
             bitmap_start_frame = bitmap_addr div PAGE_SIZE;
             bitmap_frame_count = div_ceil bitmap_size PAGE_SIZE in
         Ok (fold reserve_frame [bitmap_start_frame..<bitmap_start_frame + bitmap_frame_count] m)))"

subsection \<open>The global instance\<close>

definition global_alloc_frame ::
  "PhysicalMemoryManager option \<Rightarrow> usize option \<times> PhysicalMemoryManager option" where
  "global_alloc_frame g =
    (case g of None \<Rightarrow> (None, None) | Some pmm \<Rightarrow> map_prod id Some (alloc_frame pmm))"

definition global_alloc_contiguous_frames ::
  "PhysicalMemoryManager option \<Rightarrow> usize \<Rightarrow> usize option \<times> PhysicalMemoryManager option" where
  "global_alloc_contiguous_frames g count =
    (case g of None \<Rightarrow> (None, None)
     | Some pmm \<Rightarrow> map_prod id Some (alloc_contiguous_frames pmm count))"

definition global_free_frame ::
  "PhysicalMemoryManager option \<Rightarrow> usize \<Rightarrow> PhysicalMemoryManager option" where
  "global_free_frame g phys_addr = map_option (\<lambda>pmm. free_frame pmm phys_addr) g"

definition get_pmm_stats :: "PhysicalMemoryManager option \<Rightarrow> usize \<times> usize" where
  "get_pmm_stats g = (case g of Some pmm \<Rightarrow> (total_frames pmm, free_frames pmm) | None \<Rightarrow> (0, 0))"

subsection \<open>Well-formedness and the abstract free set\<close>

definition pmm_wf :: "PhysicalMemoryManager \<Rightarrow> bool" where
  "pmm_wf m \<longleftrightarrow> total_frames m \<le> 8 * length (bitmap m)"

definition free_set :: "PhysicalMemoryManager \<Rightarrow> usize set" where
  "free_set m = {f. \<not> test_bit m f}"

lemma free_set_less: "f \<in> free_set m \<Longrightarrow> f < total_frames m"
  by (auto simp: free_set_def test_bit_def split: if_splits)

lemma finite_free_set [simp]: "finite (free_set m)"
  by (rule finite_subset [of _ "{..<total_frames m}"]) (auto dest: free_set_less)

lemma set_bit_sel [simp]:
  "total_frames (set_bit m f u) = total_frames m"
  "free_frames (set_bit m f u) = free_frames m"
  "last_frame (set_bit m f u) = last_frame m"
  "length (bitmap (set_bit m f u)) = length (bitmap m)"
  by (simp_all add: set_bit_def Let_def)

lemma pmm_wf_set_bit [simp]: "pmm_wf (set_bit m f u) = pmm_wf m"
  by (simp add: pmm_wf_def)

lemma test_bit_update [simp]:
  "test_bit (m\<lparr>free_frames := n\<rparr>) f = test_bit m f"
  "test_bit (m\<lparr>last_frame := n\<rparr>) f = test_bit m f"
  "free_set (m\<lparr>free_frames := n\<rparr>) = free_set m"
  "free_set (m\<lparr>last_frame := n\<rparr>) = free_set m"
  "pmm_wf (m\<lparr>free_frames := n\<rparr>) = pmm_wf m"
  "pmm_wf (m\<lparr>last_frame := n\<rparr>) = pmm_wf m"
  by (simp_all add: test_bit_def free_set_def pmm_wf_def)

lemma test_bit_set_bit:
  assumes "pmm_wf m"
  shows "test_bit (set_bit m f u) g =
    (if f < total_frames m \<and> g = f then u else test_bit m g)"
proof (cases "f < total_frames m \<and> g < total_frames m")
  case False
  then show ?thesis by (auto simp: set_bit_def test_bit_def Let_def)
next
  case True
  then have len: "f div 8 < length (bitmap m)" using assms by (auto simp: pmm_wf_def)
  have mod8: "f mod 8 < LENGTH(8)" by simp
  show ?thesis
  proof (cases "g div 8 = f div 8")
    case False
    then show ?thesis using True len by (auto simp: set_bit_def test_bit_def Let_def)
  next
    case div_eq: True
    have "g = f \<longleftrightarrow> g mod 8 = f mod 8" using div_eq by (metis div_mod_eq_iff)
    then show ?thesis using True len mod8 div_eq
      by (auto simp: set_bit_def test_bit_def Let_def mask_bit_simps)
  qed
qed

lemma free_set_set_bit_True: "pmm_wf m \<Longrightarrow> free_set (set_bit m f True) = free_set m - {f}"
  by (auto simp: free_set_def test_bit_set_bit) (simp add: test_bit_def)

lemma free_set_set_bit_False:
  "pmm_wf m \<Longrightarrow> f < total_frames m \<Longrightarrow> free_set (set_bit m f False) = insert f (free_set m)"
  by (auto simp: free_set_def test_bit_set_bit)

lemma set_bits_sel [simp]:
  "total_frames (set_bits m fs u) = total_frames m"
  "free_frames (set_bits m fs u) = free_frames m"
  "last_frame (set_bits m fs u) = last_frame m"
  "pmm_wf (set_bits m fs u) = pmm_wf m"
  unfolding set_bits_def by (induction fs arbitrary: m) simp_all

lemma free_set_set_bits:
  "pmm_wf m \<Longrightarrow> free_set (set_bits m fs True) = free_set m - set fs"
  unfolding set_bits_def
  by (induction fs arbitrary: m) (auto simp: free_set_set_bit_True)

subsection \<open>Allocation of one frame\<close>

lemma alloc_frame_cases:
  obtains (found) f where "alloc_frame m = take_frame m f" "f \<in> free_set m"
      "f \<ge> last_frame m \<or> 1 \<le> f"
    | (none) "alloc_frame m = (None, m)" "\<And>f. 1 \<le> f \<Longrightarrow> f \<notin> free_set m"
proof (cases "find (\<lambda>f. \<not> test_bit m f) [last_frame m..<total_frames m]")
  case (Some f)
  then have "f \<in> free_set m" "f \<ge> last_frame m" by (auto simp: find_Some_iff free_set_def)
  moreover have "alloc_frame m = take_frame m f" using Some by (simp add: alloc_frame_def)
  ultimately show ?thesis using found by blast
next
  case first: None
  show ?thesis
  proof (cases "find (\<lambda>f. \<not> test_bit m f) [1..<last_frame m]")
    case (Some f)
    then have "f \<in> set [1..<last_frame m]" "\<not> test_bit m f"
      by (metis find_Some_iff nth_mem)+
    moreover have "alloc_frame m = take_frame m f" using first Some by (simp add: alloc_frame_def)
    ultimately show ?thesis using found by (auto simp: free_set_def)
  next
    case None
    then have "test_bit m f" if "1 \<le> f" for f
      using that first by (cases "f < last_frame m"; cases "f < total_frames m")
        (auto simp: find_None_iff test_bit_def)
    then show ?thesis using none first None by (auto simp: alloc_frame_def free_set_def)
  qed
qed

lemma take_frame_free_set:
  assumes "pmm_wf m" "take_frame m f = (r, m')"
  shows "r = Some (f * PAGE_SIZE)" "free_set m' = free_set m - {f}" "pmm_wf m'"
    "total_frames m' = total_frames m" "last_frame m' = f + 1" "free_frames m' = free_frames m - 1"
  using assms by (auto simp: take_frame_def Let_def free_set_set_bit_True saturating_sub_def)

text \<open>Frame 0 is never handed out while the cursor and the bitmap keep it out of reach.\<close>

definition frame0_reserved :: "PhysicalMemoryManager \<Rightarrow> bool" where
  "frame0_reserved m \<longleftrightarrow> 1 \<le> last_frame m \<and> 0 \<notin> free_set m"

lemma alloc_frame_Some:
  assumes "pmm_wf m" "alloc_frame m = (Some p, m')"
  shows "\<exists>f \<in> free_set m. p = f * PAGE_SIZE \<and> free_set m' = free_set m - {f} \<and> pmm_wf m'
    \<and> total_frames m' = total_frames m \<and> last_frame m' = f + 1 \<and> free_frames m' = free_frames m - 1"
proof (cases rule: alloc_frame_cases [of m])
  case (found f)
  then show ?thesis using assms take_frame_free_set [OF assms(1), of f "Some p" m'] by auto
qed (use assms in auto)

lemma alloc_frame_None:
  assumes "frame0_reserved m" "alloc_frame m = (None, m')"
  shows "m' = m" "free_set m = {}"
proof -
  have "m' = m \<and> (\<forall>f\<ge>1. f \<notin> free_set m)"
    using assms by (cases rule: alloc_frame_cases [of m]) (auto simp: take_frame_def Let_def)
  then show "m' = m" "free_set m = {}"
    using assms(1) by (auto simp: frame0_reserved_def) (metis One_nat_def Suc_leI gr0I)
qed

subsection \<open>Allocation of a contiguous run\<close>

abbreviation run_free :: "PhysicalMemoryManager \<Rightarrow> usize \<Rightarrow> usize \<Rightarrow> bool" where
  "run_free m r count \<equiv> {r..<r + count} \<subseteq> free_set m"

lemma run_not_free: "r \<le> x \<Longrightarrow> x < r + count \<Longrightarrow> x \<notin> free_set m \<Longrightarrow> \<not> run_free m r count"
  by (auto simp: subset_iff)

definition first_run :: "PhysicalMemoryManager \<Rightarrow> usize \<Rightarrow> usize option \<Rightarrow> bool" where
  "first_run m count res = (case res of
      Some r \<Rightarrow> 1 \<le> r \<and> run_free m r count \<and> (\<forall>r'. 1 \<le> r' \<longrightarrow> r' < r \<longrightarrow> \<not> run_free m r' count)
    | None \<Rightarrow> \<forall>r\<ge>1. \<not> run_free m r count)"

text \<open>
  The scan at frame \<open>a\<close> holds a maximal run of \<open>run_len\<close> free frames ending just before \<open>a\<close>, and no
  run of the requested length starts before it.
\<close>

lemma contiguous_scan_spec:
  assumes "n = total_frames m" "n = a + k" "run_len < count" "1 + run_len \<le> a"
    and "run_len \<noteq> 0 \<Longrightarrow> run_start = a - run_len"
    and "{a - run_len..<a} \<subseteq> free_set m"
    and "\<And>r. 1 \<le> r \<Longrightarrow> r < a - run_len \<Longrightarrow> \<not> run_free m r count"
  shows "first_run m count (contiguous_scan m count [a..<n] run_start run_len)"
  using assms
proof (induction k arbitrary: a run_start run_len)
  case 0
  have "\<not> run_free m r count" if "1 \<le> r" for r
  proof (cases "r < a - run_len")
    case False
    then have "max r a \<notin> free_set m" "max r a < r + count"
      using 0(1,2,3,4) by (auto dest: free_set_less simp: max_def)
    then show ?thesis by (intro run_not_free [of r "max r a"]) auto
  qed (use that 0(7) in blast)
  then show ?case using 0(2) by (simp add: first_run_def)
next
  case (Suc k)
  from Suc.prems(2) have upt: "[a..<n] = a # [Suc a..<n]" by (simp add: upt_conv_Cons)
  show ?case
  proof (cases "test_bit m a")
    case True
    then have a: "a \<notin> free_set m" by (simp add: free_set_def)
    have "\<not> run_free m r count" if "1 \<le> r" "r < Suc a - 0" for r
    proof (cases "r < a - run_len")
      case False
      then show ?thesis using that a Suc.prems(3,4) by (intro run_not_free [of r a]) auto
    qed (use that Suc.prems(7) in blast)
    then have "first_run m count (contiguous_scan m count [Suc a..<n] run_start 0)"
      using Suc.prems(1-4) by (intro Suc.IH) auto
    then show ?thesis using True by (simp add: upt)
  next
    case False
    define s where "s = (if run_len = 0 then a else run_start)"
    have s: "s = Suc a - (run_len + 1)" using Suc.prems(4,5) by (auto simp: s_def)
    have run: "{s..<Suc a} \<subseteq> free_set m"
      using False Suc.prems(4,6) unfolding s by (auto simp: free_set_def less_Suc_eq subset_iff)
    have before: "\<And>r. 1 \<le> r \<Longrightarrow> r < Suc a - (run_len + 1) \<Longrightarrow> \<not> run_free m r count"
      using Suc.prems(7) by simp
    show ?thesis
    proof (cases "run_len + 1 = count")
      case True
      have "s + count = Suc a" using s True Suc.prems(4) by simp
      then have "first_run m count (Some s)"
        using run before s Suc.prems(4) by (simp add: first_run_def)
      then show ?thesis using False True by (simp add: upt s_def)
    next
      case more: False
      have "first_run m count (contiguous_scan m count [Suc a..<n] s (run_len + 1))"
        using Suc.prems(1-4) more run before by (intro Suc.IH) (auto simp: s)
      then show ?thesis using False more by (simp add: upt s_def)
    qed
  qed
qed

lemma contiguous_scan_result:
  assumes "1 < count"
  shows "first_run m count (contiguous_scan m count [1..<total_frames m] 1 0)"
proof (cases "1 \<le> total_frames m")
  case True
  then show ?thesis using assms
    by (intro contiguous_scan_spec [of _ _ _ "total_frames m - 1"]) auto
next
  case False
  then have "free_set m = {}" by (auto dest: free_set_less)
  then show ?thesis using False assms by (simp add: first_run_def)
qed

subsection \<open>The counter of free frames\<close>

definition frames_counted :: "PhysicalMemoryManager \<Rightarrow> bool" where
  "frames_counted m \<longleftrightarrow> free_frames m = card (free_set m)"

definition pmm_ok :: "PhysicalMemoryManager \<Rightarrow> bool" where
  "pmm_ok m \<longleftrightarrow> pmm_wf m \<and> frame0_reserved m \<and> frames_counted m"

lemma alloc_frame_ok:
  assumes "pmm_ok m" "alloc_frame m = (r, m')"
  shows "pmm_ok m'"
proof (cases r)
  case None
  then show ?thesis using assms alloc_frame_None(1) [of m m'] by (simp add: pmm_ok_def)
next
  case (Some p)
  then obtain f where "f \<in> free_set m" "free_set m' = free_set m - {f}" "pmm_wf m'"
    "last_frame m' = f + 1" "free_frames m' = free_frames m - 1"
    using assms alloc_frame_Some [of m p m'] by (auto simp: pmm_ok_def)
  then show ?thesis using assms(1) by (simp add: pmm_ok_def frame0_reserved_def frames_counted_def)
qed

lemma free_frame_free_set:
  assumes "pmm_wf m" "p div PAGE_SIZE < total_frames m"
  shows "free_set (free_frame m p) = insert (p div PAGE_SIZE) (free_set m)"
    and "pmm_wf (free_frame m p)" and "total_frames (free_frame m p) = total_frames m"
  using assms free_set_set_bit_False [OF assms]
  by (simp_all add: free_frame_def Let_def) (auto simp: free_set_def)

lemma free_frame_outside: "total_frames m \<le> p div PAGE_SIZE \<Longrightarrow> free_frame m p = m"
  by (simp add: free_frame_def)

lemma free_frame_ok:
  assumes "pmm_ok m" "PAGE_SIZE \<le> p"
  shows "pmm_ok (free_frame m p)"
proof (cases "p div PAGE_SIZE < total_frames m \<and> test_bit m (p div PAGE_SIZE)")
  case True
  have pos: "p div PAGE_SIZE \<noteq> 0" using assms(2) by (simp add: PAGE_SIZE_def)
  have wf: "pmm_wf m" and fresh: "p div PAGE_SIZE \<notin> free_set m"
    using assms(1) True by (auto simp: pmm_ok_def free_set_def)
  have "free_frames (free_frame m p) = free_frames m + 1"
    "last_frame (free_frame m p) = min (last_frame m) (p div PAGE_SIZE)"
    using True by (auto simp: free_frame_def Let_def)
  then show ?thesis using assms(1) True pos fresh
    by (simp add: pmm_ok_def frame0_reserved_def frames_counted_def free_frame_free_set [OF wf])
next
  case False
  then show ?thesis using assms by (auto simp: free_frame_def)
qed

lemma alloc_contiguous_Some:
  assumes "pmm_ok m" "1 < count" "alloc_contiguous_frames m count = (Some p, m')"
  shows "\<exists>r. p = r * PAGE_SIZE \<and> first_run m count (Some r)
    \<and> free_set m' = free_set m - {r..<r + count} \<and> pmm_ok m'"
proof -
  have wf: "pmm_wf m" using assms(1) by (simp add: pmm_ok_def)
  from assms(2,3) obtain r where scan: "contiguous_scan m count [1..<total_frames m] 1 0 = Some r"
    and p: "p = r * PAGE_SIZE"
    and m': "m' = (set_bits m [r..<r + count] True)\<lparr>free_frames := free_frames m - count\<rparr>"
    by (auto simp: alloc_contiguous_frames_def Let_def saturating_sub_def split: option.splits)
  have first: "first_run m count (Some r)" using contiguous_scan_result [OF assms(2)] scan by metis
  have fs: "free_set m' = free_set m - {r..<r + count}" using wf by (simp add: m' free_set_set_bits)
  have "card (free_set m') = card (free_set m) - count"
    using first by (simp add: fs first_run_def card_Diff_subset)
  then have "pmm_ok m'" using assms(1) fs wf
    by (simp add: pmm_ok_def frame0_reserved_def frames_counted_def m')
  then show ?thesis using p first fs by blast
qed

lemma alloc_contiguous_None:
  assumes "1 < count" "alloc_contiguous_frames m count = (None, m')"
  shows "m' = m \<and> (\<forall>r\<ge>1. \<not> run_free m r count)"
  using assms contiguous_scan_result [OF assms(1), of m]
  by (auto simp: alloc_contiguous_frames_def Let_def first_run_def split: option.splits)

subsection \<open>Initialisation\<close>

lemma scan_memmap_bounds:
  assumes "scan_memmap es h t = Some (h', t')"
  shows "h \<le> h' \<and> (\<forall>e \<in> set es. mm_typ e = LIMINE_MEMMAP_USABLE \<longrightarrow> mm_base e + mm_length e \<le> h')"
  using assms
proof (induction es arbitrary: h t)
  case (Cons e es)
  show ?case
  proof (cases "mm_typ e = LIMINE_MEMMAP_USABLE")
    case True
    then obtain b where "scan_memmap es (max h (mm_base e + mm_length e)) b = Some (h', t')"
      using Cons.prems by (auto simp: checked_add_def max_def split: if_splits)
    then show ?thesis using Cons.IH by fastforce
  qed (use Cons in auto)
qed simp

lemma entry_frames_total:
  assumes "mm_base e + mm_length e \<le> h" "f \<in> set (entry_frames e)"
  shows "f < div_ceil h PAGE_SIZE"
proof -
  have "f < (mm_base e + mm_length e) div PAGE_SIZE + 1 \<and> f * PAGE_SIZE < h"
    using assms by (auto simp: entry_frames_def PAGE_SIZE_def)
  then have "f * PAGE_SIZE < h" ..
  then show ?thesis using less_div_ceil_mult [of "f * PAGE_SIZE" h PAGE_SIZE] by (simp add: PAGE_SIZE_def)
qed

lemma bit_255_u8: "bit (255 :: u8) (f mod 8)"
proof -
  have "(255 :: u8) = mask 8" by (simp add: mask_eq_exp_minus_1)
  then show ?thesis by (simp only: bit_mask_iff) simp
qed

lemma pmm_full_free_set: "pmm_wf (pmm_full n)" "free_set (pmm_full n) = {}"
proof -
  show "pmm_wf (pmm_full n)"
    using div_ceil_bounds [of 8 n] by (simp add: pmm_wf_def pmm_full_def)
  have "f div 8 < div_ceil n 8" if "f < n" for f using that by (rule less_div_ceil_mult) simp
  then have "test_bit (pmm_full n) f" for f
    using bit_255_u8 [of f] by (simp add: test_bit_def pmm_full_def mask_bit_simps)
  then show "free_set (pmm_full n) = {}" by (simp add: free_set_def)
qed

lemma release_frames:
  assumes "pmm_wf m" "set fs \<subseteq> {..<total_frames m}"
  shows "pmm_wf (fold release_frame fs m) \<and> total_frames (fold release_frame fs m) = total_frames m
    \<and> last_frame (fold release_frame fs m) = last_frame m
    \<and> free_set (fold release_frame fs m) = free_set m \<union> set fs
    \<and> free_frames (fold release_frame fs m) = free_frames m + length fs"
  using assms
proof (induction fs arbitrary: m)
  case (Cons f fs)
  let ?m = "release_frame f m"
  have "pmm_wf ?m" "total_frames ?m = total_frames m" "last_frame ?m = last_frame m"
    "free_set ?m = insert f (free_set m)" "free_frames ?m = free_frames m + 1"
    using Cons.prems by (simp_all add: release_frame_def Let_def free_set_set_bit_False)
  then show ?case using Cons.IH [of ?m] Cons.prems by auto
qed simp

lemma reserve_frames:
  assumes "pmm_wf m"
  shows "pmm_wf (fold reserve_frame fs m) \<and> total_frames (fold reserve_frame fs m) = total_frames m
    \<and> last_frame (fold reserve_frame fs m) = last_frame m
    \<and> free_set (fold reserve_frame fs m) = free_set m - set fs
    \<and> free_frames (fold reserve_frame fs m) = free_frames m - length fs"
  using assms
proof (induction fs arbitrary: m)
  case (Cons f fs)
  let ?m = "reserve_frame f m"
  have "pmm_wf ?m" "total_frames ?m = total_frames m" "last_frame ?m = last_frame m"
    "free_set ?m = free_set m - {f}" "free_frames ?m = free_frames m - 1"
    using Cons.prems by (simp_all add: reserve_frame_def Let_def free_set_set_bit_True saturating_sub_def)
  then show ?case using Cons.IH [of ?m] by auto
qed simp

definition usable_frames :: "LimineMemmapEntry list \<Rightarrow> usize list" where
  "usable_frames entries =
    concat (map entry_frames (filter (\<lambda>e. mm_typ e = LIMINE_MEMMAP_USABLE) entries))"

lemma release_usable_eq: "release_usable entries m = fold release_frame (usable_frames entries) m"
  unfolding release_usable_def usable_frames_def by (induction entries arbitrary: m) simp_all

definition bitmap_frames :: "LimineMemmapEntry list \<Rightarrow> usize \<Rightarrow> usize list" where
  "bitmap_frames entries n =
    (let size = div_ceil n 8; start = bitmap_region entries size div PAGE_SIZE in
     [start..<start + div_ceil size PAGE_SIZE])"

lemma pmm_init_Ok:
  assumes "pmm_init entries = Ok m"
  shows "pmm_wf m \<and> last_frame m = 1
    \<and> free_set m = set (usable_frames entries) - insert 0 (set (bitmap_frames entries (total_frames m)))
    \<and> free_frames m = length (usable_frames entries) - length (bitmap_frames entries (total_frames m))"
proof -
  from assms obtain h t where scan: "scan_memmap entries 0 0 = Some (h, t)"
    and m: "m = fold reserve_frame (bitmap_frames entries (div_ceil h PAGE_SIZE))
         (set_bit (release_usable entries (pmm_full (div_ceil h PAGE_SIZE))) 0 True)"
    by (auto simp: pmm_init_def bitmap_frames_def Let_def split: option.splits)
  let ?n = "div_ceil h PAGE_SIZE" and ?r = "release_usable entries (pmm_full (div_ceil h PAGE_SIZE))"
  have "set (usable_frames entries) \<subseteq> {..<total_frames (pmm_full ?n)}"
    using scan_memmap_bounds [OF scan] entry_frames_total
    by (auto simp: usable_frames_def pmm_full_def)
  then have r: "pmm_wf ?r" "total_frames ?r = ?n" "last_frame ?r = 1"
      "free_set ?r = set (usable_frames entries)" "free_frames ?r = length (usable_frames entries)"
    using release_frames [of "pmm_full ?n" "usable_frames entries"] pmm_full_free_set [of ?n]
    by (simp_all add: release_usable_eq) (simp_all add: pmm_full_def)
  let ?s = "set_bit ?r 0 True"
  have "pmm_wf ?s" "free_set ?s = free_set ?r - {0}" using r(1) by (simp_all add: free_set_set_bit_True)
  then show ?thesis using reserve_frames [of ?s "bitmap_frames entries ?n"] r unfolding m by auto
qed

lemma bitmap_frames_usable:
  assumes "\<exists>e \<in> set entries. mm_typ e = LIMINE_MEMMAP_USABLE \<and> div_ceil n 8 \<le> mm_length e"
    and "\<forall>e \<in> set entries. mm_typ e = LIMINE_MEMMAP_USABLE \<longrightarrow> PAGE_SIZE dvd mm_length e"
  shows "set (bitmap_frames entries n) \<subseteq> set (usable_frames entries)"
proof -
  obtain e where e: "find (\<lambda>e. mm_typ e = LIMINE_MEMMAP_USABLE \<and> mm_length e \<ge> div_ceil n 8) entries = Some e"
    using assms(1) by (fastforce simp: find_None_iff2 find_None_iff)
  then have e': "e \<in> set entries" "mm_typ e = LIMINE_MEMMAP_USABLE" "div_ceil n 8 \<le> mm_length e"
    by (auto simp: find_Some_iff)
  have "div_ceil (div_ceil n 8) PAGE_SIZE * PAGE_SIZE < mm_length e + PAGE_SIZE"
    using div_ceil_bounds [of PAGE_SIZE "div_ceil n 8"] e'(3) by (simp add: PAGE_SIZE_def)
  moreover have "PAGE_SIZE * (mm_length e div PAGE_SIZE) = mm_length e"
    using assms(2) e' by simp
  ultimately have "div_ceil (div_ceil n 8) PAGE_SIZE \<le> mm_length e div PAGE_SIZE"
    by (simp add: PAGE_SIZE_def)
  then have "set (bitmap_frames entries n) \<subseteq> set (entry_frames e)"
    by (auto simp: bitmap_frames_def bitmap_region_def e entry_frames_def Let_def)
  then show ?thesis using e' by (auto simp: usable_frames_def)
qed

text \<open>
  The frame allocator starts out correct. On a memory map whose usable regions are page aligned
  in length and do not overlap, one of which can hold the bitmap, \<open>pmm_init\<close> leaves exactly the usable
  frames free, less frame 0 and the frames of the bitmap itself; its counter of free frames is exact,
  except that it is one too high when frame 0 is usable and not part of the bitmap, because reserving
  frame 0 does not decrement it.
\<close>

theorem pmm_init_correct:
  assumes "pmm_init entries = Ok m"
    and "\<forall>e \<in> set entries. mm_typ e = LIMINE_MEMMAP_USABLE \<longrightarrow> PAGE_SIZE dvd mm_length e"
    and "distinct (usable_frames entries)"
    and "\<exists>e \<in> set entries. mm_typ e = LIMINE_MEMMAP_USABLE \<and> div_ceil (total_frames m) 8 \<le> mm_length e"
  shows "pmm_wf m \<and> frame0_reserved m
    \<and> free_set m = set (usable_frames entries) - insert 0 (set (bitmap_frames entries (total_frames m)))
    \<and> free_frames m = card (free_set m) +
        (if 0 \<in> set (usable_frames entries) - set (bitmap_frames entries (total_frames m)) then 1 else 0)"
proof -
  let ?U = "set (usable_frames entries)" and ?B = "set (bitmap_frames entries (total_frames m))"
  note init = pmm_init_Ok [OF assms(1)]
  have sub: "?B \<subseteq> ?U" using assms(2,4) by (rule bitmap_frames_usable [rotated])
  have "free_frames m = card ?U - card ?B"
    using init assms(3) by (simp add: distinct_card bitmap_frames_def Let_def)
  also have "\<dots> = card (?U - ?B)" using sub by (simp add: card_Diff_subset)
  also have "\<dots> = card (?U - ?B - {0}) + (if 0 \<in> ?U - ?B then 1 else 0)"
    using card.remove [of "?U - ?B" 0] by (cases "0 \<in> ?U - ?B") simp_all
  finally have "free_frames m = card (?U - insert 0 ?B) + (if 0 \<in> ?U - ?B then 1 else 0)"
    unfolding Diff_insert [of ?U 0 ?B] .
  then show ?thesis using init by (auto simp: frame0_reserved_def)
qed

text \<open>
  A small machine for the witnesses: four usable frames, the first of which holds the bitmap.
\<close>

definition demo_memmap :: "LimineMemmapEntry list" where
  "demo_memmap = [\<lparr> mm_base = 0, mm_length = 8192, mm_typ = 1 \<rparr>,
                 \<lparr> mm_base = 8192, mm_length = 16384, mm_typ = LIMINE_MEMMAP_USABLE \<rparr>]"

definition demo_pmm :: PhysicalMemoryManager where
  "demo_pmm = \<lparr> bitmap = [199], total_frames = 6, free_frames = 3, last_frame = 1 \<rparr>"

lemma demo_release: "release_usable demo_memmap (pmm_full 6) =
    \<lparr> bitmap = [195], total_frames = 6, free_frames = 4, last_frame = 1 \<rparr>"
proof -
  have "release_usable demo_memmap (pmm_full 6) = fold release_frame [2, 3, 4, 5]
      \<lparr> bitmap = [255], total_frames = 6, free_frames = 0, last_frame = 1 \<rparr>"
    by (simp add: release_usable_def demo_memmap_def posix_consts entry_frames_def pmm_full_def div_ceil_def)
  then show ?thesis by (simp add: release_frame_def set_bit_def)
qed

lemma demo_pmm_init: "pmm_init demo_memmap = Ok demo_pmm"
proof -
  have scan: "scan_memmap demo_memmap 0 0 = Some (24576, 16384)"
    by (simp add: demo_memmap_def posix_consts checked_add_def USIZE_LIMIT_def)
  have region: "bitmap_region demo_memmap (Suc 0) = 8192"
    by (simp add: bitmap_region_def demo_memmap_def posix_consts)
  show ?thesis
    by (simp add: pmm_init_def scan region demo_release posix_consts div_ceil_def Let_def)
      (simp add: demo_pmm_def reserve_frame_def set_bit_def saturating_sub_def)
qed

theorem pmm_init_correct_witness:
  "pmm_wf demo_pmm \<and> frame0_reserved demo_pmm
    \<and> free_set demo_pmm = set (usable_frames demo_memmap) - insert 0 (set (bitmap_frames demo_memmap 6))
    \<and> free_frames demo_pmm = card (free_set demo_pmm) +
        (if 0 \<in> set (usable_frames demo_memmap) - set (bitmap_frames demo_memmap 6) then 1 else 0)"
proof -
  have "distinct (usable_frames demo_memmap)"
    by (simp add: usable_frames_def demo_memmap_def entry_frames_def posix_consts)
  moreover have "total_frames demo_pmm = 6" by (simp add: demo_pmm_def)
  moreover have "\<exists>e \<in> set demo_memmap. mm_typ e = LIMINE_MEMMAP_USABLE \<and> div_ceil 6 8 \<le> mm_length e"
    "\<forall>e \<in> set demo_memmap. mm_typ e = LIMINE_MEMMAP_USABLE \<longrightarrow> PAGE_SIZE dvd mm_length e"
    by (simp_all add: demo_memmap_def posix_consts div_ceil_def)
  ultimately show ?thesis using pmm_init_correct [OF demo_pmm_init] by simp
qed

lemma demo_free_set: "free_set demo_pmm = {3, 4, 5}"
proof -
  have "test_bit demo_pmm f \<longleftrightarrow> f \<notin> {3, 4, 5}" for f
  proof (cases "f < 6")
    case True
    then have "f \<in> {0, 1, 2, 3, 4, 5}" by auto
    then show ?thesis by (auto simp: test_bit_def demo_pmm_def)
  qed (auto simp: test_bit_def demo_pmm_def)
  then show ?thesis by (auto simp: free_set_def)
qed

lemma demo_pmm_ok: "pmm_ok demo_pmm"
  by (simp add: pmm_ok_def pmm_wf_def frame0_reserved_def frames_counted_def demo_free_set)
    (simp add: demo_pmm_def)

subsection \<open>The contract of a frame allocator\<close>

text \<open>
  \<open>avail s\<close> are the physical addresses the allocator may hand out, \<open>managed s\<close> those it accepts back.
\<close>

locale frame_allocator =
  fixes inv :: "'s \<Rightarrow> bool"
    and avail :: "'s \<Rightarrow> usize set"
    and managed :: "'s \<Rightarrow> usize set"
    and alloc :: "'s \<Rightarrow> usize option \<times> 's"
    and free :: "'s \<Rightarrow> usize \<Rightarrow> 's"
  assumes alloc_Some: "inv s \<Longrightarrow> alloc s = (Some p, s') \<Longrightarrow>
      p \<in> avail s \<and> avail s' = avail s - {p} \<and> managed s' = managed s \<and> inv s'"
    and alloc_None: "inv s \<Longrightarrow> alloc s = (None, s') \<Longrightarrow> avail s = {} \<and> s' = s"
    and free_frame: "inv s \<Longrightarrow> p \<in> managed s \<Longrightarrow>
      avail (free s p) = insert p (avail s) \<and> managed (free s p) = managed s \<and> inv (free s p)"
    and avail_managed: "inv s \<Longrightarrow> avail s \<subseteq> managed s"
    and finite_avail: "inv s \<Longrightarrow> finite (avail s)"

fun alloc_n :: "('s \<Rightarrow> usize option \<times> 's) \<Rightarrow> nat \<Rightarrow> 's \<Rightarrow> usize list \<times> 's" where
  "alloc_n alloc 0 s = ([], s)"
| "alloc_n alloc (Suc n) s =
    (case alloc s of
       (None, s1) \<Rightarrow> ([], s1)
     | (Some p, s1) \<Rightarrow> (let (ps, s2) = alloc_n alloc n s1 in (p # ps, s2)))"

context frame_allocator
begin

lemma alloc_n_spec:
  assumes "inv s" "alloc_n alloc n s = (ps, s')"
  shows "distinct ps \<and> set ps \<subseteq> avail s \<and> length ps = min n (card (avail s))
    \<and> avail s' = avail s - set ps \<and> managed s' = managed s \<and> inv s'"
  using assms
proof (induction n arbitrary: s ps)
  case (Suc n)
  show ?case
  proof (cases "alloc s")
    case (Pair r s1)
    show ?thesis
    proof (cases r)
      case None
      then show ?thesis using Suc.prems Pair alloc_None [of s s1] by auto
    next
      case (Some p)
      then obtain qs where qs: "alloc_n alloc n s1 = (qs, s')" "ps = p # qs"
        using Suc.prems(2) Pair by (auto split: prod.splits)
      have p: "p \<in> avail s" "avail s1 = avail s - {p}" "managed s1 = managed s" "inv s1"
        using alloc_Some [OF Suc.prems(1), of p s1] Pair Some by auto
      have "card (avail s) = Suc (card (avail s1))"
        using p card_Suc_Diff1 [OF finite_avail [OF Suc.prems(1)] p(1)] by simp
      then show ?thesis using Suc.IH [OF p(4) qs(1)] p qs(2) by auto
    qed
  qed
qed simp

lemma free_all_spec:
  assumes "inv s" "set ps \<subseteq> managed s"
  shows "avail (fold (\<lambda>p s. free s p) ps s) = avail s \<union> set ps
    \<and> managed (fold (\<lambda>p s. free s p) ps s) = managed s \<and> inv (fold (\<lambda>p s. free s p) ps s)"
  using assms
proof (induction ps arbitrary: s)
  case (Cons p ps)
  then show ?case using free_frame [of s p] by simp
qed simp

text \<open>Frames that are allocated and then given back leave the allocator as it was.\<close>

lemma alloc_n_free_all:
  assumes "inv s" "alloc_n alloc n s = (ps, s')"
  shows "avail (fold (\<lambda>p s. free s p) ps s') = avail s"
proof -
  note a = alloc_n_spec [OF assms]
  then have "set ps \<subseteq> managed s'" using avail_managed [OF assms(1)] by auto
  then show ?thesis using a free_all_spec [of s' ps] by auto
qed

end

definition avail_addrs :: "PhysicalMemoryManager \<Rightarrow> usize set" where
  "avail_addrs m = (\<lambda>f. f * PAGE_SIZE) ` free_set m"

definition managed_addrs :: "PhysicalMemoryManager \<Rightarrow> usize set" where
  "managed_addrs m = (\<lambda>f. f * PAGE_SIZE) ` {1..<total_frames m}"

lemma PAGE_SIZE_pos [simp]: "0 < PAGE_SIZE" "PAGE_SIZE \<noteq> 0"
  by (simp_all add: PAGE_SIZE_def)

lemma image_page_remove:
  "(\<lambda>f. f * PAGE_SIZE) ` (A - {f}) = (\<lambda>f. f * PAGE_SIZE) ` A - {f * PAGE_SIZE}"
  by (auto simp: image_iff)

lemma free_frame_managed:
  assumes "pmm_ok m" "p \<in> managed_addrs m"
  shows "avail_addrs (free_frame m p) = insert p (avail_addrs m)
    \<and> managed_addrs (free_frame m p) = managed_addrs m \<and> pmm_ok (free_frame m p)"
proof -
  obtain f where f: "p = f * PAGE_SIZE" "1 \<le> f" "f < total_frames m"
    using assms(2) by (auto simp: managed_addrs_def)
  then have "p div PAGE_SIZE = f" "PAGE_SIZE \<le> p" by simp_all
  then show ?thesis using assms(1) f free_frame_free_set [of m p] free_frame_ok [of m p]
    by (simp add: avail_addrs_def managed_addrs_def pmm_ok_def)
qed

lemma free_set_managed: "pmm_ok m \<Longrightarrow> f \<in> free_set m \<Longrightarrow> 1 \<le> f \<and> f < total_frames m"
  using free_set_less [of f m] by (cases f) (simp_all add: pmm_ok_def frame0_reserved_def)

interpretation pmm_alloc: frame_allocator pmm_ok avail_addrs managed_addrs alloc_frame free_frame
proof
  fix m p m'
  assume ok: "pmm_ok m" and a: "alloc_frame m = (Some p, m')"
  then obtain f where "f \<in> free_set m" "p = f * PAGE_SIZE" "free_set m' = free_set m - {f}"
    "total_frames m' = total_frames m"
    using alloc_frame_Some [of m p m'] by (auto simp: pmm_ok_def)
  then show "p \<in> avail_addrs m \<and> avail_addrs m' = avail_addrs m - {p}
      \<and> managed_addrs m' = managed_addrs m \<and> pmm_ok m'"
    using alloc_frame_ok [OF ok a]
    by (simp add: avail_addrs_def managed_addrs_def image_page_remove)
next
  fix m m'
  assume "pmm_ok m" "alloc_frame m = (None, m')"
  then show "avail_addrs m = {} \<and> m' = m"
    using alloc_frame_None [of m m'] by (simp add: avail_addrs_def pmm_ok_def)
next
  fix m
  assume "pmm_ok m"
  then have "free_set m \<subseteq> {1..<total_frames m}" using free_set_managed by auto
  then show "avail_addrs m \<subseteq> managed_addrs m"
    unfolding avail_addrs_def managed_addrs_def by (rule image_mono)
qed (simp_all add: free_frame_managed, simp add: avail_addrs_def)

subsection \<open>Properties of the allocator\<close>

lemma alloc_frame_result:
  assumes "pmm_ok m" "alloc_frame m = (r, m')"
  shows "pmm_ok m' \<and> (case r of
      Some p \<Rightarrow> \<exists>f \<in> free_set m. 1 \<le> f \<and> p = f * PAGE_SIZE \<and> free_set m' = free_set m - {f}
    | None \<Rightarrow> free_set m = {} \<and> m' = m)"
proof (cases r)
  case None
  then show ?thesis using assms alloc_frame_None [of m m'] by (simp add: pmm_ok_def)
next
  case (Some p)
  then obtain f where "f \<in> free_set m" "p = f * PAGE_SIZE" "free_set m' = free_set m - {f}"
    using assms alloc_frame_Some [of m p m'] by (auto simp: pmm_ok_def)
  then show ?thesis using alloc_frame_ok [OF assms] free_set_managed [OF assms(1)] Some by auto
qed

text \<open>
  \<open>alloc_frame\<close> is a correct next-fit search. In every well-formed state it hands out a frame that
  was free, is not frame 0 and is now the only frame whose state changed; it fails only when no
  frame at all is free (the wrap-around search from frame 1 misses nothing), and then changes nothing;
  bitmap, cursor and counter stay consistent in both cases.
\<close>

theorem alloc_frame_correct:
  assumes "pmm_ok m" "alloc_frame m = (r, m')"
  shows "pmm_ok m' \<and> (case r of
      Some p \<Rightarrow> \<exists>f \<in> free_set m. 1 \<le> f \<and> p = f * PAGE_SIZE \<and> free_set m' = free_set m - {f}
    | None \<Rightarrow> free_set m = {} \<and> m' = m)"
  using assms by (rule alloc_frame_result)

lemma demo_upt: "[Suc 0..<6] = [1, 2, 3, 4, 5]"
  by code_simp

lemma demo_alloc: "alloc_frame demo_pmm =
    (Some 12288, \<lparr> bitmap = [207], total_frames = 6, free_frames = 2, last_frame = 4 \<rparr>)"
  by (simp add: alloc_frame_def demo_pmm_def Let_def test_bit_def demo_upt take_frame_def set_bit_def
      saturating_sub_def PAGE_SIZE_def)

theorem alloc_frame_correct_witness:
  "pmm_ok (snd (alloc_frame demo_pmm)) \<and> (\<exists>f \<in> free_set demo_pmm. 1 \<le> f \<and> 12288 = f * PAGE_SIZE
    \<and> free_set (snd (alloc_frame demo_pmm)) = free_set demo_pmm - {f})"
  using alloc_frame_correct [OF demo_pmm_ok demo_alloc] by (simp add: demo_alloc)

text \<open>
  \<open>alloc_contiguous_frames\<close> is a correct first-fit search for runs. It hands out \<open>count\<close> adjacent
  frames that were all free, starting at the lowest possible frame above 0 when \<open>count > 1\<close>, and marks
  exactly these as used; it fails only for \<open>count = 0\<close> or when no run of that length exists.
\<close>

theorem alloc_contiguous_frames_correct:
  assumes "pmm_ok m" "alloc_contiguous_frames m count = (r, m')"
  shows "pmm_ok m' \<and> (case r of
      Some p \<Rightarrow> 0 < count \<and> (\<exists>s\<ge>1. p = s * PAGE_SIZE \<and> {s..<s + count} \<subseteq> free_set m
        \<and> free_set m' = free_set m - {s..<s + count}
        \<and> (count = 1 \<or> (\<forall>t. 1 \<le> t \<and> t < s \<longrightarrow> \<not> {t..<t + count} \<subseteq> free_set m)))
    | None \<Rightarrow> m' = m \<and> (count = 0 \<or> (\<forall>s\<ge>1. \<not> {s..<s + count} \<subseteq> free_set m)))"
proof (cases "1 < count")
  case True
  show ?thesis
  proof (cases r)
    case None
    then show ?thesis using True assms alloc_contiguous_None [of count m m'] by simp
  next
    case (Some p)
    then obtain s where "p = s * PAGE_SIZE" "first_run m count (Some s)"
      "free_set m' = free_set m - {s..<s + count}" "pmm_ok m'"
      using True assms alloc_contiguous_Some [of m count p m'] by auto
    then show ?thesis using True Some by (auto simp: first_run_def)
  qed
next
  case False
  then consider "count = 0" | "count = 1" by linarith
  then show ?thesis
  proof cases
    case 1
    then show ?thesis using assms by (auto simp: alloc_contiguous_frames_def)
  next
    case 2
    then have "alloc_frame m = (r, m')" using assms(2) by (simp add: alloc_contiguous_frames_def)
    note res = alloc_frame_result [OF assms(1) this]
    show ?thesis
    proof (cases r)
      case None
      then show ?thesis using res 2 by auto
    next
      case (Some p)
      then obtain f where "f \<in> free_set m" "1 \<le> f" "p = f * PAGE_SIZE" "free_set m' = free_set m - {f}"
        using res by auto
      moreover have "{f..<f + count} = {f}" using 2 by auto
      ultimately show ?thesis using res 2 Some by auto
    qed
  qed
qed

lemma demo_alloc2: "alloc_contiguous_frames demo_pmm 2 =
    (Some 12288, \<lparr> bitmap = [223], total_frames = 6, free_frames = 1, last_frame = 1 \<rparr>)"
proof -
  have "[3..<3 + 2] = [3, 4 :: nat]" by code_simp
  then show ?thesis
    by (simp add: alloc_contiguous_frames_def demo_pmm_def Let_def test_bit_def demo_upt set_bits_def
        set_bit_def saturating_sub_def PAGE_SIZE_def)
qed

theorem alloc_contiguous_frames_correct_witness:
  "pmm_ok (snd (alloc_contiguous_frames demo_pmm 2))
    \<and> (\<exists>s\<ge>1. 12288 = s * PAGE_SIZE \<and> {s..<s + 2} \<subseteq> free_set demo_pmm
      \<and> free_set (snd (alloc_contiguous_frames demo_pmm 2)) = free_set demo_pmm - {s..<s + 2})"
  using alloc_contiguous_frames_correct [OF demo_pmm_ok demo_alloc2] by (auto simp: demo_alloc2)

text \<open>
  \<open>free_frame\<close> returns exactly the frame that contains the address to the pool. For an address
  of a frame the allocator manages, above frame 0, that frame becomes free, every other frame keeps
  its state and the counter stays exact, so a double free changes nothing; an address beyond the
  managed memory is ignored.
\<close>

theorem free_frame_correct:
  assumes "pmm_ok m" "PAGE_SIZE \<le> p"
  shows "pmm_ok (free_frame m p)
    \<and> free_set (free_frame m p) =
        (if p div PAGE_SIZE < total_frames m then insert (p div PAGE_SIZE) (free_set m) else free_set m)
    \<and> free_frame (free_frame m p) p = free_frame m p"
proof -
  have wf: "pmm_wf m" using assms(1) by (simp add: pmm_ok_def)
  have "free_frame (free_frame m p) p = free_frame m p"
  proof (cases "p div PAGE_SIZE < total_frames m")
    case True
    then have "\<not> test_bit (free_frame m p) (p div PAGE_SIZE)"
      using free_frame_free_set(1) [OF wf True] by (auto simp: free_set_def)
    then show ?thesis by (simp add: free_frame_def [of "free_frame m p"])
  qed (simp add: free_frame_outside)
  then show ?thesis using free_frame_ok [OF assms] free_frame_free_set(1) [OF wf, of p]
    by (auto simp: free_frame_outside)
qed

theorem free_frame_correct_witness:
  "pmm_ok (free_frame demo_pmm 8192) \<and> free_set (free_frame demo_pmm 8192) = {2, 3, 4, 5}
    \<and> free_frame (free_frame demo_pmm 8192) 8192 = free_frame demo_pmm 8192"
  using free_frame_correct [OF demo_pmm_ok, of 8192]
  by (simp add: PAGE_SIZE_def demo_free_set) (simp add: demo_pmm_def)

text \<open>
  C13: No frame is handed out twice and none is withheld. \<open>n\<close> successive calls of \<open>alloc_frame\<close> return
  pairwise distinct, previously available page addresses, as many as there are free frames up to
  \<open>n\<close>; giving them all back with \<open>free_frame\<close> makes the same set of frames available again.
\<close>

theorem alloc_n_free_all_pmm:
  assumes "pmm_ok m" "alloc_n alloc_frame n m = (ps, m')"
  shows "distinct ps \<and> set ps \<subseteq> avail_addrs m \<and> length ps = min n (card (free_set m))
    \<and> avail_addrs m' = avail_addrs m - set ps
    \<and> avail_addrs (fold (\<lambda>p m. free_frame m p) ps m') = avail_addrs m"
proof -
  have "card (avail_addrs m) = card (free_set m)"
    unfolding avail_addrs_def by (rule card_image) (simp add: inj_on_def)
  then show ?thesis
    using pmm_alloc.alloc_n_spec [OF assms] pmm_alloc.alloc_n_free_all [OF assms] by simp
qed

lemma demo_alloc_n: "alloc_n alloc_frame 1 demo_pmm = ([12288], snd (alloc_frame demo_pmm))"
  by (simp add: demo_alloc)

theorem alloc_n_free_all_pmm_witness:
  "avail_addrs (fold (\<lambda>p m. free_frame m p) [12288] (snd (alloc_frame demo_pmm))) = avail_addrs demo_pmm"
  using alloc_n_free_all_pmm [OF demo_pmm_ok demo_alloc_n] by simp

end
