(* ===== verification/Mm_Core.thy ===== *)
theory Mm_Core
  imports Pmm
begin

text \<open>
  The page allocation and mapping loop of \<^verbatim>\<open>libs/mm-core/src/lib.rs\<close>. The traits \<open>FrameAllocator\<close> and
  \<open>PageMapper\<close> and the closure \<open>zero_frame\<close> are the fields of a record of operations over one shared
  state, since allocator and mapper of the kernel both act on the global physical memory. The locale
  \<open>mm_backend\<close> states what the loop relies on, and the two lemmas in it are the functional contract of
  \<open>mmap_allocate\<close>: what it has done when it succeeds, and that a failure is rolled back.
\<close>

record 's mm_ops =
  op_alloc_frame :: "'s \<Rightarrow> usize option \<times> 's"
  op_free_frame :: "'s \<Rightarrow> usize \<Rightarrow> 's"
  op_map_page :: "'s \<Rightarrow> usize \<Rightarrow> usize \<Rightarrow> u32 \<Rightarrow> bool \<times> 's"
  op_unmap_range :: "'s \<Rightarrow> usize \<Rightarrow> usize \<Rightarrow> 's"
  op_zero_frame :: "'s \<Rightarrow> usize \<Rightarrow> 's"

text \<open>
  The loop over the page indices; at index \<open>i\<close> the variable \<open>pages_mapped\<close> of the source is \<open>i\<close>. The
  result is \<open>False\<close> when the loop returned \<open>ENOMEM\<close> after unmapping the pages mapped so far.
\<close>

fun mmap_loop :: "'s mm_ops \<Rightarrow> usize \<Rightarrow> u32 \<Rightarrow> usize list \<Rightarrow> 's \<Rightarrow> bool \<times> 's" where
  "mmap_loop ops vaddr prot [] s = (True, s)"
| "mmap_loop ops vaddr prot (i # is) s =
    (case checked_mul i PAGE_SIZE of
       None \<Rightarrow> (False, op_unmap_range ops s vaddr i)
     | Some offset \<Rightarrow>
        (case checked_add vaddr offset of
           None \<Rightarrow> (False, op_unmap_range ops s vaddr i)
         | Some page_vaddr \<Rightarrow>
            (case op_alloc_frame ops s of
               (None, s1) \<Rightarrow> (False, op_unmap_range ops s1 vaddr i)
             | (Some frame, s1) \<Rightarrow>
                (case op_map_page ops s1 page_vaddr frame prot of
                   (False, s2) \<Rightarrow> (False, op_unmap_range ops (op_free_frame ops s2 frame) vaddr i)
                 | (True, s2) \<Rightarrow> mmap_loop ops vaddr prot is (op_zero_frame ops s2 frame)))))"

text \<open>
  The result, the new value of \<open>mmap_next_vaddr\<close>, and the new state. \<open>word_of_int\<close> is the cast
  \<open>prot as u32\<close>; \<open>free_hint\<close> is the parameter \<open>free_frames\<close> of the source.
\<close>

definition mmap_allocate ::
  "'s mm_ops \<Rightarrow> usize \<Rightarrow> usize \<Rightarrow> i32 \<Rightarrow> usize \<Rightarrow> usize \<Rightarrow> usize \<Rightarrow> 's \<Rightarrow> usize kres \<times> usize \<times> 's" where
  "mmap_allocate ops addr len prot user_space_end free_hint mmap_next_vaddr s =
    (if len = 0 then (Err EINVAL, mmap_next_vaddr, s)
     else if len > user_space_end then (Err ENOMEM, mmap_next_vaddr, s)
     else let pages = div_ceil len PAGE_SIZE in
     case checked_mul pages PAGE_SIZE of
       None \<Rightarrow> (Err ENOMEM, mmap_next_vaddr, s)
     | Some byte_len \<Rightarrow>
       if pages > free_hint then (Err ENOMEM, mmap_next_vaddr, s)
       else let rollback_vaddr = mmap_next_vaddr; is_anonymous_bump = (addr = 0) in
       case (if is_anonymous_bump then
               (case checked_add mmap_next_vaddr byte_len of
                  Some n \<Rightarrow> if n \<le> user_space_end then Some (mmap_next_vaddr, n) else None
                | None \<Rightarrow> None)
             else Some (align_down addr PAGE_SIZE, mmap_next_vaddr)) of
         None \<Rightarrow> (Err ENOMEM, mmap_next_vaddr, s)
       | Some (vaddr, next_vaddr) \<Rightarrow>
         let fail = (\<lambda>s. (Err ENOMEM, if is_anonymous_bump then rollback_vaddr else next_vaddr, s));
             in_range = (case checked_add vaddr byte_len of Some e \<Rightarrow> e \<le> user_space_end | None \<Rightarrow> False) in
         if \<not> in_range then fail s
         else case mmap_loop ops vaddr (word_of_int prot) [0..<pages] s of
           (True, s') \<Rightarrow> (Ok vaddr, next_vaddr, s')
         | (False, s') \<Rightarrow> fail s')"

text \<open>Where a call places the mapping, and the addresses of the pages it maps.\<close>

definition mmap_vaddr :: "usize \<Rightarrow> usize \<Rightarrow> usize" where
  "mmap_vaddr addr mmap_next_vaddr = (if addr = 0 then mmap_next_vaddr else align_down addr PAGE_SIZE)"

definition page_range :: "usize \<Rightarrow> nat \<Rightarrow> usize list" where
  "page_range vaddr n = map (\<lambda>i. vaddr + i * PAGE_SIZE) [0..<n]"

lemma page_range_simps [simp]:
  "page_range v 0 = []"
  "length (page_range v n) = n"
  "i < n \<Longrightarrow> page_range v n ! i = v + i * PAGE_SIZE"
  by (simp_all add: page_range_def)

lemma page_range_Suc: "page_range v (Suc n) = page_range v n @ [v + n * PAGE_SIZE]"
  by (simp add: page_range_def)

lemma distinct_page_range [simp]: "distinct (page_range v n)"
  by (simp add: page_range_def distinct_map inj_on_def)

lemma page_range_Cons:
  "i < n \<Longrightarrow> page_range (v + i * PAGE_SIZE) (n - i) =
    (v + i * PAGE_SIZE) # page_range (v + Suc i * PAGE_SIZE) (n - Suc i)"
  by (rule nth_equalityI) (auto simp: nth_Cons algebra_simps split: nat.splits)

lemma page_range_later: "i \<le> k \<Longrightarrow> v + k * PAGE_SIZE \<notin> set (page_range v i)"
  by (auto simp: page_range_def)

lemma page_range_subset: "i \<le> k \<Longrightarrow> set (page_range v i) \<subseteq> set (page_range v k)"
  by (auto simp: page_range_def)

subsection \<open>The contract of allocator and mapper\<close>

text \<open>
  \<open>mapped s\<close> maps the page addresses of the address space to frame and attributes, \<open>tables s\<close> are the
  frames its page tables occupy, and \<open>managed s\<close> the frames that are referenced by neither. Mapping a
  page may take frames for new page tables from the pool, also when it fails half way.
\<close>

locale mm_backend = frame_allocator inv avail managed "op_alloc_frame ops" "op_free_frame ops"
  for inv :: "'s \<Rightarrow> bool" and avail :: "'s \<Rightarrow> usize set" and managed :: "'s \<Rightarrow> usize set"
    and ops :: "'s mm_ops" +
  fixes mapped :: "'s \<Rightarrow> usize \<Rightarrow> (usize \<times> 'a) option"
    and tables :: "'s \<Rightarrow> usize set"
    and zeroed :: "'s \<Rightarrow> usize \<Rightarrow> bool"
    and attr :: "u32 \<Rightarrow> 'a"
    and page_ok :: "usize \<Rightarrow> bool"
  assumes alloc_keeps: "inv s \<Longrightarrow> op_alloc_frame ops s = (r, s') \<Longrightarrow>
      mapped s' = mapped s \<and> tables s' = tables s \<and> zeroed s' = zeroed s"
    and free_keeps: "inv s \<Longrightarrow> p \<in> managed s \<Longrightarrow> s' = op_free_frame ops s p \<Longrightarrow>
      mapped s' = mapped s \<and> tables s' = tables s \<and> zeroed s' = zeroed s"
    and zero_keeps: "inv s \<Longrightarrow> mapped s v = Some (f, a) \<Longrightarrow> s' = op_zero_frame ops s f \<Longrightarrow>
      inv s' \<and> mapped s' = mapped s \<and> tables s' = tables s \<and> avail s' = avail s \<and> managed s' = managed s
      \<and> zeroed s' f \<and> (\<forall>g. zeroed s g \<longrightarrow> zeroed s' g)"
    and map_page: "inv s \<Longrightarrow> page_ok v \<Longrightarrow> f \<in> managed s - avail s \<Longrightarrow>
      op_map_page ops s v f prot = (ok, s') \<Longrightarrow>
      \<exists>T. T \<subseteq> avail s \<and> inv s' \<and> avail s' = avail s - T \<and> tables s' = tables s \<union> T
        \<and> (if ok then mapped s' = (mapped s)(v \<mapsto> (f, attr prot)) \<and> card T \<le> 3
           else mapped s' = mapped s \<and> f \<in> managed s' \<and> avail s' = {} \<and> card T \<le> 2)
        \<and> (\<forall>g. g \<notin> T \<longrightarrow> g \<notin> tables s \<longrightarrow> zeroed s g \<longrightarrow> zeroed s' g)"
    and unmap_range: "inv s \<Longrightarrow> (\<forall>i<n. page_ok (v + i * PAGE_SIZE)) \<Longrightarrow> s' = op_unmap_range ops s v n \<Longrightarrow>
      inv s' \<and> tables s' = tables s \<and> mapped s' = mapped s |` (- set (page_range v n))
      \<and> avail s' = avail s \<union> fst ` ran (mapped s |` set (page_range v n))"
    and mapped_not_avail: "inv s \<Longrightarrow> mapped s v = Some (f, a) \<Longrightarrow> f \<notin> avail s \<and> f \<notin> tables s"
    and tables_not_avail: "inv s \<Longrightarrow> tables s \<inter> avail s = {}"

context mm_backend
begin

text \<open>What one successful iteration does.\<close>

lemma mmap_iteration:
  assumes "inv s" "page_ok w" "op_alloc_frame ops s = (Some f, s1)"
    and "op_map_page ops s1 w f prot = (True, s2)" "s3 = op_zero_frame ops s2 f"
  shows "\<exists>T. T \<subseteq> avail s - {f} \<and> f \<in> avail s \<and> inv s3 \<and> avail s3 = avail s - {f} - T
    \<and> tables s3 = tables s \<union> T \<and> mapped s3 = (mapped s)(w \<mapsto> (f, attr prot)) \<and> zeroed s3 f
    \<and> (\<forall>g. g \<notin> avail s \<longrightarrow> g \<notin> tables s \<longrightarrow> zeroed s g \<longrightarrow> zeroed s3 g)"
proof -
  have a: "f \<in> avail s" "avail s1 = avail s - {f}" "managed s1 = managed s" "inv s1"
    using alloc_Some [OF assms(1,3)] by auto
  have k: "mapped s1 = mapped s" "tables s1 = tables s" "zeroed s1 = zeroed s"
    using alloc_keeps [OF assms(1,3)] by auto
  have "f \<in> managed s1 - avail s1" using a avail_managed [OF assms(1)] by auto
  from map_page [OF a(4) assms(2) this assms(4)]
  obtain T where T: "T \<subseteq> avail s1" "inv s2" "avail s2 = avail s1 - T" "tables s2 = tables s1 \<union> T"
    "mapped s2 = (mapped s1)(w \<mapsto> (f, attr prot))"
    "\<forall>g. g \<notin> T \<longrightarrow> g \<notin> tables s1 \<longrightarrow> zeroed s1 g \<longrightarrow> zeroed s2 g" by auto
  then have "mapped s2 w = Some (f, attr prot)" by simp
  then have "inv s3 \<and> mapped s3 = mapped s2 \<and> tables s3 = tables s2 \<and> avail s3 = avail s2
      \<and> zeroed s3 f \<and> (\<forall>g. zeroed s2 g \<longrightarrow> zeroed s3 g)"
    using zero_keeps [OF T(2) _ assms(5)] by auto
  then show ?thesis using T a k by (intro exI [of _ T]) auto
qed

text \<open>A failing iteration leaves the state it started from, less frames that became page tables.\<close>

lemma mmap_iteration_fail:
  assumes "inv s" "page_ok w" "op_alloc_frame ops s = (Some f, s1)"
    and "op_map_page ops s1 w f prot = (False, s2)" "s3 = op_free_frame ops s2 f"
  shows "\<exists>T. T \<subseteq> avail s \<and> inv s3 \<and> avail s3 = avail s - T \<and> tables s3 = tables s \<union> T \<and> mapped s3 = mapped s"
proof -
  have a: "f \<in> avail s" "avail s1 = avail s - {f}" "managed s1 = managed s" "inv s1"
    using alloc_Some [OF assms(1,3)] by auto
  have k: "mapped s1 = mapped s" "tables s1 = tables s"
    using alloc_keeps [OF assms(1,3)] by auto
  have "f \<in> managed s1 - avail s1" using a avail_managed [OF assms(1)] by auto
  from map_page [OF a(4) assms(2) this assms(4)]
  obtain T where T: "T \<subseteq> avail s1" "inv s2" "avail s2 = avail s1 - T" "tables s2 = tables s1 \<union> T"
    "mapped s2 = mapped s1" "f \<in> managed s2" by auto
  then show ?thesis
    using free_frame [OF T(2,6)] free_keeps [OF T(2,6) assms(5)] assms(5) a k by (intro exI [of _ T]) auto
qed

definition loop_done where
  "loop_done v prot i n s s' \<longleftrightarrow> (\<exists>fs T. length fs = n - i \<and> distinct fs \<and> set fs \<subseteq> avail s
    \<and> T \<subseteq> avail s - set fs \<and> avail s' = avail s - set fs - T \<and> tables s' = tables s \<union> T
    \<and> mapped s' = (mapped s)(page_range (v + i * PAGE_SIZE) (n - i) [\<mapsto>] map (\<lambda>f. (f, attr prot)) fs)
    \<and> (\<forall>f \<in> set fs. zeroed s' f)
    \<and> (\<forall>g. g \<notin> avail s \<longrightarrow> g \<notin> tables s \<longrightarrow> zeroed s g \<longrightarrow> zeroed s' g))"

definition loop_failed where
  "loop_failed v i n s s' \<longleftrightarrow> (\<exists>k T. i \<le> k \<and> k < n \<and> T \<subseteq> avail s \<and> tables s' = tables s \<union> T
    \<and> mapped s' = mapped s |` (- set (page_range v k))
    \<and> avail s' = avail s - T \<union> fst ` ran (mapped s |` set (page_range v i)))"

lemma loop_done_step:
  assumes "i < n" "T \<subseteq> avail s - {f}" "f \<in> avail s" "avail s3 = avail s - {f} - T"
    and "tables s3 = tables s \<union> T" "tables s \<inter> avail s = {}"
    and "mapped s3 = (mapped s)(v + i * PAGE_SIZE \<mapsto> (f, attr prot))" "zeroed s3 f"
    and "\<forall>g. g \<notin> avail s \<longrightarrow> g \<notin> tables s \<longrightarrow> zeroed s g \<longrightarrow> zeroed s3 g"
    and "loop_done v prot (Suc i) n s3 s'"
  shows "loop_done v prot i n s s'"
proof -
  from assms(10) obtain fs T' where r: "length fs = n - Suc i" "distinct fs" "set fs \<subseteq> avail s3"
    "T' \<subseteq> avail s3 - set fs" "avail s' = avail s3 - set fs - T'" "tables s' = tables s3 \<union> T'"
    "mapped s' = (mapped s3)(page_range (v + Suc i * PAGE_SIZE) (n - Suc i) [\<mapsto>] map (\<lambda>f. (f, attr prot)) fs)"
    "\<forall>f \<in> set fs. zeroed s' f"
    "\<forall>g. g \<notin> avail s3 \<longrightarrow> g \<notin> tables s3 \<longrightarrow> zeroed s3 g \<longrightarrow> zeroed s' g"
    by (auto simp: loop_done_def)
  have "f \<notin> tables s3" using assms(2,3,5,6) by auto
  then have z: "zeroed s' f" using r(9) assms(4,8) by simp
  have keep: "\<forall>g. g \<notin> avail s \<longrightarrow> g \<notin> tables s \<longrightarrow> zeroed s g \<longrightarrow> zeroed s' g"
    using r(9) assms(2,4,5,9) by auto
  show ?thesis
    unfolding loop_done_def
  proof (intro exI [of _ "f # fs"] exI [of _ "T \<union> T'"] conjI)
    show "length (f # fs) = n - i" using assms(1) r(1) by simp
    show "distinct (f # fs)" using r(2,3) assms(4) by auto
    show "mapped s' = (mapped s)(page_range (v + i * PAGE_SIZE) (n - i) [\<mapsto>] map (\<lambda>f. (f, attr prot)) (f # fs))"
      unfolding page_range_Cons [OF assms(1)] by (simp add: r(7) assms(7))
  qed (use assms(2-5) r z keep in auto)
qed

lemma loop_failed_step:
  assumes "i < n" "T \<subseteq> avail s - {f}" "f \<in> avail s" "avail s3 = avail s - {f} - T"
    and "tables s3 = tables s \<union> T"
    and "mapped s3 = (mapped s)(v + i * PAGE_SIZE \<mapsto> (f, attr prot))"
    and "loop_failed v (Suc i) n s3 s'"
  shows "loop_failed v i n s s'"
proof -
  from assms(7) obtain k T' where r: "Suc i \<le> k" "k < n" "T' \<subseteq> avail s3" "tables s' = tables s3 \<union> T'"
    "mapped s' = mapped s3 |` (- set (page_range v k))"
    "avail s' = avail s3 - T' \<union> fst ` ran (mapped s3 |` set (page_range v (Suc i)))"
    by (auto simp: loop_failed_def)
  have "v + i * PAGE_SIZE \<in> set (page_range v k)" using r(1) by (auto simp: page_range_def)
  then have m: "mapped s' = mapped s |` (- set (page_range v k))"
    unfolding r(5) assms(6) by (auto simp: restrict_map_def)
  have "mapped s3 |` set (page_range v (Suc i)) =
      (mapped s |` set (page_range v i))(v + i * PAGE_SIZE \<mapsto> (f, attr prot))"
    unfolding assms(6) page_range_Suc by (auto simp: restrict_map_def)
  moreover have "(mapped s |` set (page_range v i)) (v + i * PAGE_SIZE) = None"
    using page_range_later [of i i v] by (simp add: restrict_map_def)
  ultimately have "fst ` ran (mapped s3 |` set (page_range v (Suc i))) =
      insert f (fst ` ran (mapped s |` set (page_range v i)))" by simp
  then have "avail s' = avail s - (T \<union> T') \<union> fst ` ran (mapped s |` set (page_range v i))"
    using r(3,6) assms(2-4) by auto
  then show ?thesis unfolding loop_failed_def using r m assms(2,4,5)
    by (intro exI [of _ k] exI [of _ "T \<union> T'"]) auto
qed

lemma loop_failed_now:
  assumes "inv s" "i < n" "\<forall>j<n. page_ok (v + j * PAGE_SIZE)"
    and "inv t" "T \<subseteq> avail s" "avail t = avail s - T" "tables t = tables s \<union> T" "mapped t = mapped s"
  shows "inv (op_unmap_range ops t v i) \<and> loop_failed v i n s (op_unmap_range ops t v i)"
proof -
  have "\<forall>j<i. page_ok (v + j * PAGE_SIZE)" using assms(2,3) by simp
  from unmap_range [OF assms(4) this refl] show ?thesis
    unfolding loop_failed_def using assms(2,5-8) by (intro conjI exI [of _ i] exI [of _ T]) auto
qed

lemma mmap_loop_spec:
  assumes "inv s" "i \<le> n" "\<forall>j<n. page_ok (v + j * PAGE_SIZE)" "v + n * PAGE_SIZE < USIZE_LIMIT"
    and "mmap_loop ops v prot [i..<n] s = (ok, s')"
  shows "inv s' \<and> (if ok then loop_done v prot i n s s' else loop_failed v i n s s')"
  using assms
proof (induction "n - i" arbitrary: i s)
  case 0
  then show ?case by (simp add: loop_done_def exI [of _ "{}"])
next
  case (Suc m)
  then have i: "i < n" and upt: "[i..<n] = i # [Suc i..<n]" by (simp_all add: upt_conv_Cons)
  have "i * PAGE_SIZE \<le> n * PAGE_SIZE" using i by (intro mult_le_mono1) simp
  then have "i * PAGE_SIZE < USIZE_LIMIT" "v + i * PAGE_SIZE < USIZE_LIMIT"
    using Suc.prems(4) by linarith+
  then have adds: "checked_mul i PAGE_SIZE = Some (i * PAGE_SIZE)"
    "checked_add v (i * PAGE_SIZE) = Some (v + i * PAGE_SIZE)"
    by (simp_all add: checked_mul_def checked_add_def)
  have ok_i: "page_ok (v + i * PAGE_SIZE)" using Suc.prems(3) i by simp
  obtain r s1 where al: "op_alloc_frame ops s = (r, s1)" by (cases "op_alloc_frame ops s")
  show ?case
  proof (cases r)
    case None
    then have "s1 = s" using alloc_None [OF Suc.prems(1)] al by simp
    then have "s' = op_unmap_range ops s v i" "\<not> ok" using Suc.prems(5) al None adds upt by auto
    then show ?thesis using loop_failed_now [OF Suc.prems(1) i Suc.prems(3,1), of "{}"] by simp
  next
    case (Some f)
    obtain b s2 where mp: "op_map_page ops s1 (v + i * PAGE_SIZE) f prot = (b, s2)"
      by (cases "op_map_page ops s1 (v + i * PAGE_SIZE) f prot")
    show ?thesis
    proof (cases b)
      case False
      let ?s3 = "op_free_frame ops s2 f"
      from mmap_iteration_fail [OF Suc.prems(1) ok_i _ _ refl, of f s1 prot s2] al Some mp False
      obtain T where "T \<subseteq> avail s" "inv ?s3" "avail ?s3 = avail s - T" "tables ?s3 = tables s \<union> T"
        "mapped ?s3 = mapped s" by auto
      moreover have "s' = op_unmap_range ops ?s3 v i" "\<not> ok"
        using Suc.prems(5) al Some mp False adds upt by auto
      ultimately show ?thesis using loop_failed_now [OF Suc.prems(1) i Suc.prems(3), of ?s3 T] by simp
    next
      case True
      let ?s3 = "op_zero_frame ops s2 f"
      from mmap_iteration [OF Suc.prems(1) ok_i _ _ refl, of f s1 prot s2] al Some mp True
      obtain T where T: "T \<subseteq> avail s - {f}" "f \<in> avail s" "avail ?s3 = avail s - {f} - T"
        "tables ?s3 = tables s \<union> T" "mapped ?s3 = (mapped s)(v + i * PAGE_SIZE \<mapsto> (f, attr prot))"
        "zeroed ?s3 f" "\<forall>g. g \<notin> avail s \<longrightarrow> g \<notin> tables s \<longrightarrow> zeroed s g \<longrightarrow> zeroed ?s3 g" "inv ?s3"
        by auto
      have "mmap_loop ops v prot [Suc i..<n] ?s3 = (ok, s')"
        using Suc.prems(5) al Some mp True adds upt by auto
      then have "inv s' \<and> (if ok then loop_done v prot (Suc i) n ?s3 s' else loop_failed v (Suc i) n ?s3 s')"
        using Suc.hyps(2) i Suc.prems(3,4) T(8) by (intro Suc.hyps(1)) auto
      then show ?thesis
        using loop_done_step [OF i T(1-4) tables_not_avail [OF Suc.prems(1)] T(5-7), of s']
          loop_failed_step [OF i T(1-5), of s'] by (auto split: if_splits)
    qed
  qed
qed

lemma mmap_page_ok:
  assumes "PAGE_SIZE dvd v" "v + n * PAGE_SIZE \<le> ue" "\<forall>w. PAGE_SIZE dvd w \<longrightarrow> w + PAGE_SIZE \<le> ue \<longrightarrow> page_ok w"
  shows "\<forall>j<n. page_ok (v + j * PAGE_SIZE)"
proof (intro allI impI)
  fix j assume "j < n"
  then have "Suc j * PAGE_SIZE \<le> n * PAGE_SIZE" by (intro mult_le_mono1) simp
  then have "v + j * PAGE_SIZE + PAGE_SIZE \<le> ue" using assms(2) by simp
  moreover have "PAGE_SIZE dvd v + j * PAGE_SIZE" using assms(1) by simp
  ultimately show "page_ok (v + j * PAGE_SIZE)" using assms(3) by blast
qed

lemma mmap_allocate_result:
  assumes "inv s" "PAGE_SIZE dvd nx" "ue < USIZE_LIMIT"
    and "\<forall>w. PAGE_SIZE dvd w \<longrightarrow> w + PAGE_SIZE \<le> ue \<longrightarrow> page_ok w"
    and "mmap_allocate ops addr len prot ue hint nx s = (r, nx', s')"
  shows "inv s' \<and> (case r of
      Ok v \<Rightarrow> v = mmap_vaddr addr nx \<and> nx' = (if addr = 0 then nx + div_ceil len PAGE_SIZE * PAGE_SIZE else nx)
        \<and> 0 < len \<and> v + div_ceil len PAGE_SIZE * PAGE_SIZE \<le> ue
        \<and> loop_done v (word_of_int prot) 0 (div_ceil len PAGE_SIZE) s s'
    | Err e \<Rightarrow> nx' = nx \<and> e = (if len = 0 then EINVAL else ENOMEM)
        \<and> (s' = s \<or> loop_failed (mmap_vaddr addr nx) 0 (div_ceil len PAGE_SIZE) s s')
    | Panic \<Rightarrow> False)"
proof -
  let ?n = "div_ceil len PAGE_SIZE" and ?v = "mmap_vaddr addr nx"
  let ?nx = "if addr = 0 then nx + ?n * PAGE_SIZE else nx"
  consider (early) "(r, nx', s') = (Err (if len = 0 then EINVAL else ENOMEM), nx, s)"
    | (run) ok where "0 < len" "?v + ?n * PAGE_SIZE \<le> ue"
        "mmap_loop ops ?v (word_of_int prot) [0..<?n] s = (ok, s')"
        "r = (if ok then Ok ?v else Err ENOMEM)" "nx' = (if ok then ?nx else nx)"
    using assms(5)
    by (auto simp: mmap_allocate_def mmap_vaddr_def Let_def checked_add_def checked_mul_def
        split: if_splits prod.splits bool.splits)
  then show ?thesis
  proof cases
    case early
    then show ?thesis using assms(1) by auto
  next
    case run
    have "PAGE_SIZE dvd ?v" using assms(2) by (simp add: mmap_vaddr_def align_down_def)
    then have ok: "\<forall>j < ?n. page_ok (?v + j * PAGE_SIZE)" using run(2) assms(4) by (intro mmap_page_ok)
    have "?v + ?n * PAGE_SIZE < USIZE_LIMIT" using run(2) assms(3) by simp
    from mmap_loop_spec [OF assms(1) _ ok this run(3)] show ?thesis
      using run by (auto split: if_splits)
  qed
qed

text \<open>If the failing call addressed pages that were not mapped before, nothing is left of it.\<close>

lemma loop_failed_unmapped:
  assumes "loop_failed v 0 n s s'" "\<forall>i<n. mapped s (v + i * PAGE_SIZE) = None"
  shows "mapped s' = mapped s \<and> (\<exists>T \<subseteq> avail s. avail s' = avail s - T \<and> tables s' = tables s \<union> T)"
proof -
  from assms(1) obtain k T where k: "k < n" "T \<subseteq> avail s" "tables s' = tables s \<union> T"
    "mapped s' = mapped s |` (- set (page_range v k))" "avail s' = avail s - T"
    by (auto simp: loop_failed_def)
  have "mapped s w = None" if "w \<in> set (page_range v k)" for w
    using that assms(2) k(1) by (auto simp: page_range_def)
  then have "mapped s' = mapped s" unfolding k(4) by (auto simp: restrict_map_def fun_eq_iff)
  then show ?thesis using k by blast
qed

text \<open>
  Four free frames per page, one for the page and three for page tables, are enough for success.
\<close>

lemma mmap_loop_progress:
  assumes "inv s" "i \<le> n" "\<forall>j<n. page_ok (v + j * PAGE_SIZE)" "v + n * PAGE_SIZE < USIZE_LIMIT"
    and "4 * (n - i) \<le> card (avail s)"
  shows "fst (mmap_loop ops v prot [i..<n] s)"
  using assms
proof (induction "n - i" arbitrary: i s)
  case (Suc m)
  then have i: "i < n" and upt: "[i..<n] = i # [Suc i..<n]" by (simp_all add: upt_conv_Cons)
  have "i * PAGE_SIZE \<le> n * PAGE_SIZE" using i by (intro mult_le_mono1) simp
  then have "i * PAGE_SIZE < USIZE_LIMIT" "v + i * PAGE_SIZE < USIZE_LIMIT"
    using Suc.prems(4) by linarith+
  then have adds: "checked_mul i PAGE_SIZE = Some (i * PAGE_SIZE)"
    "checked_add v (i * PAGE_SIZE) = Some (v + i * PAGE_SIZE)"
    by (simp_all add: checked_mul_def checked_add_def)
  have ok_i: "page_ok (v + i * PAGE_SIZE)" using Suc.prems(3) i by simp
  obtain r s1 where al: "op_alloc_frame ops s = (r, s1)" by (cases "op_alloc_frame ops s")
  have "avail s \<noteq> {}" using Suc.prems(5) i by auto
  then obtain f where f: "r = Some f" using alloc_None [OF Suc.prems(1)] al by (cases r) auto
  have a: "f \<in> avail s" "avail s1 = avail s - {f}" "managed s1 = managed s" "inv s1"
    using alloc_Some [OF Suc.prems(1)] al f by auto
  have c1: "card (avail s1) = card (avail s) - 1" using a by simp
  obtain b s2 where mp: "op_map_page ops s1 (v + i * PAGE_SIZE) f prot = (b, s2)"
    by (cases "op_map_page ops s1 (v + i * PAGE_SIZE) f prot")
  have "f \<in> managed s1 - avail s1" using a avail_managed [OF Suc.prems(1)] by auto
  from map_page [OF a(4) ok_i this mp] obtain T where T: "T \<subseteq> avail s1" "inv s2" "avail s2 = avail s1 - T"
    "if b then mapped s2 = (mapped s1)(v + i * PAGE_SIZE \<mapsto> (f, attr prot)) \<and> card T \<le> 3
     else mapped s2 = mapped s1 \<and> f \<in> managed s2 \<and> avail s2 = {} \<and> card T \<le> 2" by blast
  have fin: "finite (avail s1)" using finite_avail [OF a(4)] .
  then have c2: "card (avail s2) = card (avail s1) - card T" using T(1,3) by (simp add: card_Diff_subset finite_subset)
  have b: b
  proof (rule ccontr)
    assume "\<not> b"
    then have "avail s2 = {}" "card T \<le> 2" using T(4) by simp_all
    then have "card (avail s1) \<le> 2" using c2 card_mono [OF fin T(1)] by simp
    then show False using c1 Suc.prems(5) i by simp
  qed
  then have "mapped s2 (v + i * PAGE_SIZE) = Some (f, attr prot)" using T(4) by simp
  from zero_keeps [OF T(2) this refl] have z: "inv (op_zero_frame ops s2 f)" "avail (op_zero_frame ops s2 f) = avail s2"
    by auto
  have "4 * (n - Suc i) \<le> card (avail (op_zero_frame ops s2 f))"
  proof -
    have "card T \<le> 3" using T(4) b by simp
    then show ?thesis unfolding z(2) using c1 c2 Suc.prems(5) i by linarith
  qed
  then have "fst (mmap_loop ops v prot [Suc i..<n] (op_zero_frame ops s2 f))"
    using Suc.hyps(2) i Suc.prems(3,4) z(1) by (intro Suc.hyps(1)) auto
  then show ?case unfolding upt by (simp add: adds al f mp b)
qed simp

lemma mmap_allocate_succeeds:
  assumes "inv s" "PAGE_SIZE dvd nx" "ue < USIZE_LIMIT"
    and "\<forall>w. PAGE_SIZE dvd w \<longrightarrow> w + PAGE_SIZE \<le> ue \<longrightarrow> page_ok w"
    and "0 < len" "mmap_vaddr addr nx + div_ceil len PAGE_SIZE * PAGE_SIZE \<le> ue"
    and "div_ceil len PAGE_SIZE \<le> hint" "4 * div_ceil len PAGE_SIZE \<le> card (avail s)"
  shows "fst (mmap_allocate ops addr len prot ue hint nx s) = Ok (mmap_vaddr addr nx)"
proof -
  let ?n = "div_ceil len PAGE_SIZE" and ?v = "mmap_vaddr addr nx"
  have len: "len \<le> ?n * PAGE_SIZE" using div_ceil_bounds [of PAGE_SIZE len] by simp
  have lim: "?n * PAGE_SIZE < USIZE_LIMIT" "?v + ?n * PAGE_SIZE < USIZE_LIMIT" using assms(3,6) by simp_all
  have "PAGE_SIZE dvd ?v" using assms(2) by (simp add: mmap_vaddr_def align_down_def)
  then have "\<forall>j < ?n. page_ok (?v + j * PAGE_SIZE)" using assms(4,6) by (intro mmap_page_ok)
  then have "fst (mmap_loop ops ?v (word_of_int prot) [0..<?n] s)"
    using assms(1,8) lim(2) by (intro mmap_loop_progress) auto
  then obtain s' where "mmap_loop ops ?v (word_of_int prot) [0..<?n] s = (True, s')"
    by (cases "mmap_loop ops ?v (word_of_int prot) [0..<?n] s") auto
  then show ?thesis using assms(5-7) len lim
    by (auto simp: mmap_allocate_def mmap_vaddr_def Let_def checked_mul_def checked_add_def split: if_splits)
qed

end

end
