(* ===== verification/Paging.thy ===== *)
theory Paging
  imports Mm_Core "HOL-Library.Sublist"
begin

text \<open>
  The four level page tables of \<^verbatim>\<open>kernel/src/ostd/arch/x86_64/paging.rs\<close> and the page attributes of
  \<^verbatim>\<open>kernel/src/ostd/mm/flags.rs\<close>, over an explicit physical memory. Physical memory is a function from
  64-bit word indices to words: entry \<open>i\<close> of the table at physical address \<open>t\<close> is word \<open>t div 8 + i\<close>. The
  higher-half direct map is the identity on this memory, so \<open>phys_to_virt\<close> does not appear; the TLB is
  not modelled, so \<open>tlb_flush\<close> and CR3 writes have no effect on the state.

  The proofs view the tables as a forest: \<open>node_at\<close> follows a path of table indices from a root. The
  invariant \<open>pt_inv\<close> says that no two paths of the given address spaces meet in one frame and that no
  frame reached by a path is in the free pool. Every operation then changes the entry of one path only.
\<close>

subsection \<open>Page attributes\<close>

record PageFlags =
  pf_present :: bool
  pf_writable :: bool
  pf_user :: bool
  pf_no_exec :: bool

definition PageFlags_empty :: PageFlags where
  "PageFlags_empty = \<lparr> pf_present = False, pf_writable = False, pf_user = False, pf_no_exec = False \<rparr>"

definition user_code :: PageFlags where
  "user_code = \<lparr> pf_present = True, pf_writable = False, pf_user = True, pf_no_exec = False \<rparr>"

definition user_data :: PageFlags where
  "user_data = \<lparr> pf_present = True, pf_writable = True, pf_user = True, pf_no_exec = True \<rparr>"

definition user_rodata :: PageFlags where
  "user_rodata = \<lparr> pf_present = True, pf_writable = False, pf_user = True, pf_no_exec = True \<rparr>"

definition kernel_data :: PageFlags where
  "kernel_data = \<lparr> pf_present = True, pf_writable = True, pf_user = False, pf_no_exec = True \<rparr>"

definition kernel_code :: PageFlags where
  "kernel_code = \<lparr> pf_present = True, pf_writable = False, pf_user = False, pf_no_exec = False \<rparr>"

definition from_prot :: "u32 \<Rightarrow> PageFlags" where
  "from_prot prot = \<lparr> pf_present = True,
     pf_writable = (prot AND word_of_int PROT_WRITE \<noteq> 0), pf_user = True,
     pf_no_exec = (prot AND word_of_int PROT_EXEC = 0) \<rparr>"

subsection \<open>Page table entries\<close>

definition PAGE_PRESENT :: u64 where "PAGE_PRESENT = push_bit 0 1"
definition PAGE_WRITABLE :: u64 where "PAGE_WRITABLE = push_bit 1 1"
definition PAGE_USER :: u64 where "PAGE_USER = push_bit 2 1"
definition PAGE_PS :: u64 where "PAGE_PS = push_bit 7 1"
definition PAGE_NX :: u64 where "PAGE_NX = push_bit 63 1"
definition PT_ADDR_MASK :: u64 where "PT_ADDR_MASK = 0x000FFFFFFFFFF000"
definition PT_INDEX_MASK :: usize where "PT_INDEX_MASK = 0x1FF"

definition pt_indices :: "usize \<Rightarrow> usize \<times> usize \<times> usize \<times> usize" where
  "pt_indices virt_addr =
    (drop_bit 39 virt_addr AND PT_INDEX_MASK, drop_bit 30 virt_addr AND PT_INDEX_MASK,
     drop_bit 21 virt_addr AND PT_INDEX_MASK, drop_bit 12 virt_addr AND PT_INDEX_MASK)"

definition pte_phys :: "u64 \<Rightarrow> usize" where
  "pte_phys entry = unat (entry AND PT_ADDR_MASK)"

definition page_flags_to_arch :: "PageFlags \<Rightarrow> u64" where
  "page_flags_to_arch flags =
    (let bits = 0;
         bits = (if pf_present flags then bits OR PAGE_PRESENT else bits);
         bits = (if pf_writable flags then bits OR PAGE_WRITABLE else bits);
         bits = (if pf_user flags then bits OR PAGE_USER else bits);
         bits = (if pf_no_exec flags then bits OR PAGE_NX else bits)
     in bits)"

definition page_flags_from_arch :: "u64 \<Rightarrow> PageFlags" where
  "page_flags_from_arch bits = \<lparr> pf_present = (bits AND PAGE_PRESENT \<noteq> 0),
     pf_writable = (bits AND PAGE_WRITABLE \<noteq> 0), pf_user = (bits AND PAGE_USER \<noteq> 0),
     pf_no_exec = (bits AND PAGE_NX \<noteq> 0) \<rparr>"

subsection \<open>Physical memory and table walks\<close>

record mmu =
  pmm :: PhysicalMemoryManager
  mem :: "usize \<Rightarrow> u64"

definition read_entry :: "(usize \<Rightarrow> u64) \<Rightarrow> usize \<Rightarrow> usize \<Rightarrow> u64" where
  "read_entry m table idx = m (table div 8 + idx)"

definition write_entry :: "usize \<Rightarrow> usize \<Rightarrow> u64 \<Rightarrow> mmu \<Rightarrow> mmu" where
  "write_entry table idx e s = s\<lparr> mem := (mem s)(table div 8 + idx := e) \<rparr>"

definition zero_phys_frame :: "usize \<Rightarrow> mmu \<Rightarrow> mmu" where
  "zero_phys_frame phys s = s\<lparr> mem := (\<lambda>a. if phys div 8 \<le> a \<and> a < phys div 8 + 512 then 0 else mem s a) \<rparr>"

definition get_or_create_table :: "mmu \<Rightarrow> usize \<Rightarrow> usize \<Rightarrow> u64 \<Rightarrow> usize option \<times> mmu" where
  "get_or_create_table s table idx flags =
    (if read_entry (mem s) table idx AND PAGE_PRESENT = 0 then
       case alloc_frame (pmm s) of
         (None, p) \<Rightarrow> (None, s\<lparr> pmm := p \<rparr>)
       | (Some frame, p) \<Rightarrow>
          let s = zero_phys_frame frame (s\<lparr> pmm := p \<rparr>);
              s = write_entry table idx
                    (of_nat frame OR PAGE_PRESENT OR PAGE_WRITABLE OR (flags AND PAGE_USER)) s
          in (Some (pte_phys (read_entry (mem s) table idx)), s)
     else (Some (pte_phys (read_entry (mem s) table idx)), s))"

definition get_table :: "(usize \<Rightarrow> u64) \<Rightarrow> usize \<Rightarrow> usize \<Rightarrow> usize option" where
  "get_table m table idx =
    (if read_entry m table idx AND PAGE_PRESENT = 0 then None
     else Some (pte_phys (read_entry m table idx)))"

definition map_page :: "usize \<Rightarrow> usize \<Rightarrow> usize \<Rightarrow> PageFlags \<Rightarrow> mmu \<Rightarrow> bool \<times> mmu" where
  "map_page root_phys virt_addr phys_addr flags s =
    (case pt_indices virt_addr of (pml4_idx, pdpt_idx, pd_idx, pt_idx) \<Rightarrow>
     let arch_flags = page_flags_to_arch flags OR PAGE_PRESENT in
     case get_or_create_table s root_phys pml4_idx arch_flags of
       (None, s) \<Rightarrow> (False, s)
     | (Some pdpt, s) \<Rightarrow>
      (case get_or_create_table s pdpt pdpt_idx arch_flags of
         (None, s) \<Rightarrow> (False, s)
       | (Some pd, s) \<Rightarrow>
        (case get_or_create_table s pd pd_idx arch_flags of
           (None, s) \<Rightarrow> (False, s)
         | (Some pt, s) \<Rightarrow> (True, write_entry pt pt_idx (of_nat phys_addr OR arch_flags) s))))"

text \<open>The descent to the last level shared by \<open>unmap_page\<close>, \<open>set_page_flags\<close> and \<open>translate\<close>.\<close>

definition walk_to_pt :: "(usize \<Rightarrow> u64) \<Rightarrow> usize \<Rightarrow> usize \<Rightarrow> usize option" where
  "walk_to_pt m root_phys virt_addr =
    (case pt_indices virt_addr of (pml4_idx, pdpt_idx, pd_idx, pt_idx) \<Rightarrow>
     case get_table m root_phys pml4_idx of
       None \<Rightarrow> None
     | Some pdpt \<Rightarrow>
      (case get_table m pdpt pdpt_idx of
         None \<Rightarrow> None
       | Some pd \<Rightarrow> get_table m pd pd_idx))"

definition pt_idx_of :: "usize \<Rightarrow> usize" where
  "pt_idx_of virt_addr = (case pt_indices virt_addr of (_, _, _, pt_idx) \<Rightarrow> pt_idx)"

definition unmap_page :: "usize \<Rightarrow> usize \<Rightarrow> mmu \<Rightarrow> usize option \<times> mmu" where
  "unmap_page root_phys virt_addr s =
    (case walk_to_pt (mem s) root_phys virt_addr of
       None \<Rightarrow> (None, s)
     | Some pt \<Rightarrow>
        (let entry = read_entry (mem s) pt (pt_idx_of virt_addr) in
         if entry AND PAGE_PRESENT \<noteq> 0 then
           (Some (pte_phys entry), write_entry pt (pt_idx_of virt_addr) 0 s)
         else (None, s)))"

definition set_page_flags :: "usize \<Rightarrow> usize \<Rightarrow> PageFlags \<Rightarrow> mmu \<Rightarrow> mmu" where
  "set_page_flags root_phys virt_addr flags s =
    (case walk_to_pt (mem s) root_phys virt_addr of
       None \<Rightarrow> s
     | Some pt \<Rightarrow>
        (let entry = read_entry (mem s) pt (pt_idx_of virt_addr) in
         if entry AND PAGE_PRESENT \<noteq> 0 then
           write_entry pt (pt_idx_of virt_addr)
             (of_nat (pte_phys entry) OR (page_flags_to_arch flags OR PAGE_PRESENT)) s
         else s))"

definition translate :: "(usize \<Rightarrow> u64) \<Rightarrow> usize \<Rightarrow> usize \<Rightarrow> usize option" where
  "translate m root_phys virt_addr =
    (case walk_to_pt m root_phys virt_addr of
       None \<Rightarrow> None
     | Some pt \<Rightarrow>
        (let entry = read_entry m pt (pt_idx_of virt_addr) in
         if entry AND PAGE_PRESENT = 0 then None
         else Some (pte_phys entry + (virt_addr AND 0xFFF))))"

datatype UserAccessError =
  NullPointer | OutOfUserRange | Overflow | NotMapped | NotWritable | TooLong

text \<open>The loop of \<open>validate_user_page\<close> over the levels 4, 3, 2, 1; \<open>fuel\<close> is the level.\<close>

fun validate_levels :: "(usize \<Rightarrow> u64) \<Rightarrow> nat \<Rightarrow> usize \<Rightarrow> usize \<Rightarrow> bool \<Rightarrow> UserAccessError + unit" where
  "validate_levels m 0 table_phys vaddr need_write = Inr ()"
| "validate_levels m (Suc l) table_phys vaddr need_write =
    (let shift = 12 + l * 9;
         index = drop_bit shift vaddr AND PT_INDEX_MASK;
         entry = read_entry m table_phys index in
     if entry AND PAGE_PRESENT = 0 \<or> entry AND PAGE_USER = 0 then Inl NotMapped
     else if need_write \<and> entry AND PAGE_WRITABLE = 0 then Inl NotWritable
     else if Suc l = 1 \<or> (Suc l \<le> 3 \<and> entry AND PAGE_PS \<noteq> 0) then Inr ()
     else validate_levels m l (unat (entry AND PT_ADDR_MASK)) vaddr need_write)"

definition validate_user_page :: "(usize \<Rightarrow> u64) \<Rightarrow> usize \<Rightarrow> usize \<Rightarrow> bool \<Rightarrow> UserAccessError + unit" where
  "validate_user_page m root_phys vaddr need_write = validate_levels m 4 root_phys vaddr need_write"

definition copy_kernel_mappings :: "usize \<Rightarrow> usize \<Rightarrow> mmu \<Rightarrow> mmu" where
  "copy_kernel_mappings dest_root_phys src_root_phys s =
    fold (\<lambda>i s. write_entry dest_root_phys i (read_entry (mem s) src_root_phys i) s) [256..<512] s"

definition pool_free :: "usize \<Rightarrow> mmu \<Rightarrow> mmu" where
  "pool_free phys s = s\<lparr> pmm := free_frame (pmm s) phys \<rparr>"

text \<open>
  \<open>free_page_table_hierarchy\<close> is four nested loops over tables of one shape: for every present entry,
  free what is below it, then the frame it points to. \<open>free_below\<close> at level 0 frees a data page.
\<close>

fun free_below :: "nat \<Rightarrow> usize \<Rightarrow> usize list \<Rightarrow> mmu \<Rightarrow> mmu" where
  "free_below 0 table idxs s = s"
| "free_below (Suc l) table idxs s =
    fold (\<lambda>i s. if read_entry (mem s) table i AND PAGE_PRESENT \<noteq> 0 then
                  let phys = pte_phys (read_entry (mem s) table i) in
                  pool_free phys (free_below l phys [0..<512] s)
                else s) idxs s"

definition free_page_table_hierarchy :: "usize \<Rightarrow> mmu \<Rightarrow> mmu" where
  "free_page_table_hierarchy root_phys s = pool_free root_phys (free_below 4 root_phys [0..<256] s)"

subsection \<open>Entries as bit sets\<close>

lemma pte_bit_iff:
  "e AND PAGE_PRESENT = 0 \<longleftrightarrow> \<not> bit e 0"
  "e AND PAGE_WRITABLE = 0 \<longleftrightarrow> \<not> bit e 1"
  "e AND PAGE_USER = 0 \<longleftrightarrow> \<not> bit e 2"
  "e AND PAGE_PS = 0 \<longleftrightarrow> \<not> bit e 7"
  "e AND PAGE_NX = 0 \<longleftrightarrow> \<not> bit e 63"
  unfolding PAGE_PRESENT_def PAGE_WRITABLE_def PAGE_USER_def PAGE_PS_def PAGE_NX_def
  using and_push_bit_1_ne_0_iff [of e] by blast+

lemma bit_PT_ADDR_MASK: "bit PT_ADDR_MASK n \<longleftrightarrow> 12 \<le> n \<and> n < 52"
proof -
  have eq: "PT_ADDR_MASK = push_bit 12 (mask 40)"
    by (simp add: PT_ADDR_MASK_def mask_eq_exp_minus_1 push_bit_eq_mult)
  show ?thesis unfolding eq bit_push_bit_iff bit_mask_iff by auto
qed

lemma bit_flag: "k < 64 \<Longrightarrow> bit (push_bit k 1 :: u64) i \<longleftrightarrow> i = k"
  by (auto simp: bit_simps)

lemma bit_flags:
  "bit PAGE_PRESENT i \<longleftrightarrow> i = 0" "bit PAGE_WRITABLE i \<longleftrightarrow> i = 1" "bit PAGE_USER i \<longleftrightarrow> i = 2"
  "bit PAGE_PS i \<longleftrightarrow> i = 7" "bit PAGE_NX i \<longleftrightarrow> i = 63"
  unfolding PAGE_PRESENT_def PAGE_WRITABLE_def PAGE_USER_def PAGE_PS_def PAGE_NX_def
  by (rule bit_flag, simp)+

lemma bit_of_nat_u64: "bit (of_nat n :: u64) i \<longleftrightarrow> i < 64 \<and> bit n i"
  by (simp add: bit_of_nat_iff)

lemma bit_page_aligned:
  assumes "PAGE_SIZE dvd f" "f < 2 ^ 52" "bit f i"
  shows "12 \<le> i \<and> i < 52"
proof -
  from assms(1) obtain k where k: "f = 2 ^ 12 * k" by (auto simp: PAGE_SIZE_def dvd_def)
  have "12 \<le> i"
  proof (rule ccontr)
    assume "\<not> 12 \<le> i"
    then have "bit (push_bit 12 k) i = False" by (simp add: bit_push_bit_iff)
    then show False using assms(3) k by (simp add: push_bit_eq_mult mult.commute)
  qed
  moreover have "i < 52"
  proof (rule ccontr)
    assume "\<not> i < 52"
    then have "(2 :: nat) ^ 52 \<le> 2 ^ i" by (intro power_increasing) simp_all
    then have "f div 2 ^ i = 0" using assms(2) by simp
    then show False using assms(3) by (simp add: bit_iff_odd)
  qed
  ultimately show ?thesis ..
qed

lemma bit_page_flags_to_arch:
  "bit (page_flags_to_arch fl) i \<longleftrightarrow>
    (i = 0 \<and> pf_present fl) \<or> (i = 1 \<and> pf_writable fl) \<or> (i = 2 \<and> pf_user fl) \<or> (i = 63 \<and> pf_no_exec fl)"
  by (auto simp: page_flags_to_arch_def Let_def bit_or_iff bit_flags)

text \<open>Frame numbers survive the round trip through an entry whose attribute bits avoid the address field.\<close>

lemma pte_phys_entry:
  assumes "PAGE_SIZE dvd f" "f < 2 ^ 52" "\<And>i. bit x i \<Longrightarrow> i < 12 \<or> 52 \<le> i"
  shows "pte_phys (of_nat f OR x) = f"
proof -
  have "(of_nat f OR x) AND PT_ADDR_MASK = (of_nat f :: u64)"
  proof (rule bit_eqI)
    fix i assume "possible_bit TYPE(u64) i"
    then have "i < 64" by simp
    then show "bit ((of_nat f OR x) AND PT_ADDR_MASK) i = bit (of_nat f :: u64) i"
      using assms(3) [of i] bit_page_aligned [OF assms(1,2), of i]
      by (auto simp: bit_and_iff bit_or_iff bit_PT_ADDR_MASK bit_of_nat_u64)
  qed
  moreover have "unat (of_nat f :: u64) = f" using assms(2) by (simp add: unat_of_nat)
  ultimately show ?thesis by (simp add: pte_phys_def)
qed

lemma bit_entry_attr:
  assumes "PAGE_SIZE dvd f" "f < 2 ^ 52" "i < 12 \<or> 52 \<le> i"
  shows "bit (of_nat f OR x :: u64) i = bit x i"
  using bit_page_aligned [OF assms(1,2), of i] assms(3) by (auto simp: bit_or_iff bit_of_nat_u64)

lemma pte_phys_aligned: "PAGE_SIZE dvd pte_phys e"
proof -
  have "\<not> bit (pte_phys e) i" if "i < 12" for i
    using that by (auto simp: pte_phys_def bit_unsigned_iff bit_and_iff bit_PT_ADDR_MASK)
  then have "take_bit 12 (pte_phys e) = 0" by (intro bit_eqI) (auto simp: bit_take_bit_iff)
  then show ?thesis by (simp add: take_bit_eq_mod PAGE_SIZE_def mod_eq_0_iff_dvd)
qed

lemma page_flags_roundtrip:
  assumes "PAGE_SIZE dvd f" "f < 2 ^ 52"
  shows "page_flags_from_arch (of_nat f OR (page_flags_to_arch fl OR PAGE_PRESENT)) = fl\<lparr> pf_present := True \<rparr>"
proof -
  have "bit (of_nat f OR (page_flags_to_arch fl OR PAGE_PRESENT)) i \<longleftrightarrow> bit (page_flags_to_arch fl) i \<or> i = 0"
    if "i < 12 \<or> 52 \<le> i" for i
    using bit_entry_attr [OF assms that] by (auto simp: bit_or_iff bit_flags)
  then show ?thesis
    by (simp add: page_flags_from_arch_def pte_bit_iff bit_page_flags_to_arch)
qed

subsection \<open>The forest of page tables\<close>

text \<open>
  \<open>node_at m r q\<close> is the frame reached from the table at \<open>r\<close> along the indices \<open>q\<close>, and \<open>pte_at m r q\<close> the
  entry that the last step of \<open>q\<close> reads. Paths of up to three indices lead to page tables and paths of
  four to the mapped data frames; a user path starts in the lower half of the top level table.
\<close>

fun node_at :: "(usize \<Rightarrow> u64) \<Rightarrow> usize \<Rightarrow> usize list \<Rightarrow> usize option" where
  "node_at m t [] = Some t"
| "node_at m t (i # is) = (case get_table m t i of None \<Rightarrow> None | Some t' \<Rightarrow> node_at m t' is)"

definition pte_at :: "(usize \<Rightarrow> u64) \<Rightarrow> usize \<Rightarrow> usize list \<Rightarrow> u64" where
  "pte_at m r q = (case node_at m r (butlast q) of None \<Rightarrow> 0 | Some t \<Rightarrow> read_entry m t (last q))"

definition user_path :: "usize list \<Rightarrow> bool" where
  "user_path q \<longleftrightarrow> length q \<le> 4 \<and> (\<forall>i \<in> set q. i < 512) \<and> (q \<noteq> [] \<longrightarrow> hd q < 256)"

lemma get_table_bit: "get_table m t i = (if bit (read_entry m t i) 0 then Some (pte_phys (read_entry m t i)) else None)"
  by (simp add: get_table_def pte_bit_iff)

lemma node_at_append: "node_at m r (p @ q) = (case node_at m r p of None \<Rightarrow> None | Some t \<Rightarrow> node_at m t q)"
  by (induction p arbitrary: r) (auto split: option.splits)

lemma node_at_snoc:
  "node_at m r (p @ [i]) = (if bit (pte_at m r (p @ [i])) 0 then Some (pte_phys (pte_at m r (p @ [i]))) else None)"
  by (simp add: node_at_append pte_at_def get_table_bit split: option.splits)

lemma pte_at_snoc: "node_at m r p = Some t \<Longrightarrow> pte_at m r (p @ [i]) = read_entry m t i"
  by (simp add: pte_at_def)

lemma user_path_Nil [simp]: "user_path []"
  by (simp add: user_path_def)

lemma user_path_snocD: "user_path (p @ [i]) \<Longrightarrow> user_path p \<and> length p \<le> 3 \<and> i < 512"
  by (cases p) (auto simp: user_path_def)

definition frames :: "usize set \<Rightarrow> mmu \<Rightarrow> usize set" where
  "frames R s = {t. \<exists>r \<in> R. \<exists>q. user_path q \<and> node_at (mem s) r q = Some t}"

definition pt_inv :: "usize set \<Rightarrow> mmu \<Rightarrow> bool" where
  "pt_inv R s \<longleftrightarrow> pmm_ok (pmm s) \<and> total_frames (pmm s) * PAGE_SIZE \<le> 2 ^ 52
    \<and> frames R s \<subseteq> managed_addrs (pmm s) - avail_addrs (pmm s)
    \<and> (\<forall>r \<in> R. \<forall>r' \<in> R. \<forall>q q' t. user_path q \<longrightarrow> user_path q' \<longrightarrow> node_at (mem s) r q = Some t \<longrightarrow>
        node_at (mem s) r' q' = Some t \<longrightarrow> r = r' \<and> q = q')"

lemma framesI: "r \<in> R \<Longrightarrow> user_path q \<Longrightarrow> node_at (mem s) r q = Some t \<Longrightarrow> t \<in> frames R s"
  by (auto simp: frames_def)

lemma pt_inv_inj:
  "pt_inv R s \<Longrightarrow> r \<in> R \<Longrightarrow> r' \<in> R \<Longrightarrow> user_path q \<Longrightarrow> user_path q' \<Longrightarrow>
    node_at (mem s) r q = Some t \<Longrightarrow> node_at (mem s) r' q' = Some t \<Longrightarrow> r = r' \<and> q = q'"
  by (auto simp: pt_inv_def)

lemma managed_addrs_page:
  assumes "pt_inv R s" "t \<in> managed_addrs (pmm s)"
  shows "PAGE_SIZE dvd t \<and> t < 2 ^ 52"
proof -
  obtain f where f: "t = f * PAGE_SIZE" "f < total_frames (pmm s)" using assms(2) by (auto simp: managed_addrs_def)
  then have "t < total_frames (pmm s) * PAGE_SIZE" by simp
  moreover have "total_frames (pmm s) * PAGE_SIZE \<le> 2 ^ 52" using assms(1) by (simp add: pt_inv_def)
  ultimately have "t < 2 ^ 52" by (rule less_le_trans)
  then show ?thesis using f(1) by simp
qed

lemma avail_subset_managed: "pt_inv R s \<Longrightarrow> avail_addrs (pmm s) \<subseteq> managed_addrs (pmm s)"
  by (simp add: pt_inv_def pmm_alloc.avail_managed)

lemma frames_page: "pt_inv R s \<Longrightarrow> t \<in> frames R s \<Longrightarrow> PAGE_SIZE dvd t \<and> t < 2 ^ 52"
  by (rule managed_addrs_page) (auto simp: pt_inv_def)

definition tables :: "usize set \<Rightarrow> mmu \<Rightarrow> usize set" where
  "tables R s = {t. \<exists>r \<in> R. \<exists>q. user_path q \<and> length q \<le> 3 \<and> node_at (mem s) r q = Some t}"

lemma tablesI: "r \<in> R \<Longrightarrow> user_path q \<Longrightarrow> length q \<le> 3 \<Longrightarrow> node_at (mem s) r q = Some t \<Longrightarrow> t \<in> tables R s"
  by (auto simp: tables_def)

lemma tablesE:
  assumes "t \<in> tables R s"
  obtains r q where "r \<in> R" "user_path q" "length q \<le> 3" "node_at (mem s) r q = Some t"
  using assms by (auto simp: tables_def)

lemma tables_frames: "tables R s \<subseteq> frames R s"
  by (auto simp: tables_def frames_def)

subsection \<open>Memory updates seen through the forest\<close>

lemma read_write_entry:
  assumes "PAGE_SIZE dvd t" "PAGE_SIZE dvd u" "i < 512" "j < 512"
  shows "read_entry (mem (write_entry t i e s)) u j = (if u = t \<and> j = i then e else read_entry (mem s) u j)"
proof -
  obtain a b where "t = 8 * (512 * a)" "u = 8 * (512 * b)"
    using assms(1,2) by (auto simp: PAGE_SIZE_def dvd_def)
  moreover have "(512 * b + j) div 512 = b" "(512 * a + i) div 512 = a" using assms(3,4) by simp_all
  then have "512 * b + j = 512 * a + i \<longleftrightarrow> b = a \<and> j = i" by (metis add_left_cancel)
  ultimately show ?thesis by (auto simp: read_entry_def write_entry_def)
qed

lemma read_zero_frame:
  assumes "PAGE_SIZE dvd f" "PAGE_SIZE dvd u" "j < 512"
  shows "read_entry (mem (zero_phys_frame f s)) u j = (if u = f then 0 else read_entry (mem s) u j)"
proof -
  obtain a b where "f = 8 * (512 * a)" "u = 8 * (512 * b)"
    using assms(1,2) by (auto simp: PAGE_SIZE_def dvd_def)
  then show ?thesis using assms(3) by (auto simp: read_entry_def zero_phys_frame_def)
qed

lemma read_zero_table:
  assumes "pt_inv R s" "f \<notin> tables R s" "PAGE_SIZE dvd f" "r \<in> R" "user_path q" "length q \<le> 3"
    and "node_at (mem s) r q = Some u" "j < 512"
  shows "read_entry (mem (zero_phys_frame f s)) u j = read_entry (mem s) u j"
  using read_zero_frame [OF assms(3) _ assms(8), of u s] tablesI [OF assms(4-7)] assms(2)
    frames_page [OF assms(1) framesI [OF assms(4,5,7)]] by auto

lemma node_at_zero_frame:
  assumes "pt_inv R s" "f \<notin> tables R s" "PAGE_SIZE dvd f" "r \<in> R" "user_path q"
  shows "node_at (mem (zero_phys_frame f s)) r q = node_at (mem s) r q"
  using assms(5)
proof (induction q rule: rev_induct)
  case (snoc j q)
  then have q: "user_path q" "length q \<le> 3" "j < 512" by (auto dest: user_path_snocD)
  then show ?case using snoc.IH read_zero_table [OF assms(1-4) q(1,2) _ q(3)]
    by (cases "node_at (mem s) r q") (simp_all add: node_at_append get_table_bit)
qed simp

lemma pte_at_zero_frame:
  assumes "pt_inv R s" "f \<notin> tables R s" "PAGE_SIZE dvd f" "r \<in> R" "user_path q" "q \<noteq> []"
  shows "pte_at (mem (zero_phys_frame f s)) r q = pte_at (mem s) r q"
proof -
  obtain p j where q: "q = p @ [j]" using assms(6) by (metis rev_exhaust)
  then have p: "user_path p" "length p \<le> 3" "j < 512" using assms(5) by (auto dest: user_path_snocD)
  show ?thesis unfolding q
    using node_at_zero_frame [OF assms(1-4) p(1)] read_zero_table [OF assms(1-4) p(1,2) _ p(3)]
    by (cases "node_at (mem s) r p") (simp_all add: pte_at_def)
qed

lemma node_at_write_entry:
  assumes "pt_inv R s" "r \<in> R" "user_path (p @ [i])" "node_at (mem s) r p = Some t"
    and "r' \<in> R" "user_path q" "\<not> (r' = r \<and> prefix (p @ [i]) q)"
  shows "node_at (mem (write_entry t i e s)) r' q = node_at (mem s) r' q"
  using assms(6,7)
proof (induction q rule: rev_induct)
  case (snoc j q)
  have p: "user_path p" "i < 512" using user_path_snocD [OF assms(3)] by auto
  have q: "user_path q" "j < 512" "\<not> (r' = r \<and> prefix (p @ [i]) q)"
    using snoc.prems by (auto dest: user_path_snocD simp: prefix_def)
  show ?case
  proof (cases "node_at (mem s) r' q")
    case (Some u)
    have "u = t \<Longrightarrow> j = i \<Longrightarrow> False"
      using pt_inv_inj [OF assms(1,2,5) p(1) q(1) assms(4)] Some snoc.prems(2) by auto
    moreover have "PAGE_SIZE dvd u" "PAGE_SIZE dvd t"
      using frames_page [OF assms(1)] framesI [OF assms(5) q(1) Some] framesI [OF assms(2) p(1) assms(4)] by auto
    ultimately have "read_entry (mem (write_entry t i e s)) u j = read_entry (mem s) u j"
      using read_write_entry [of t u i j e s] p q by auto
    then show ?thesis using Some snoc.IH q by (simp add: node_at_append get_table_bit)
  qed (use snoc.IH q in \<open>simp add: node_at_append\<close>)
qed simp

text \<open>\<open>s'\<close> differs from \<open>s\<close>, as far as the address spaces \<open>R\<close> can see, in the entry at path \<open>q\<close> of \<open>r\<close> only.\<close>

definition pte_updated :: "usize set \<Rightarrow> usize \<Rightarrow> usize list \<Rightarrow> u64 \<Rightarrow> mmu \<Rightarrow> mmu \<Rightarrow> bool" where
  "pte_updated R r q e s s' \<longleftrightarrow> (\<forall>r' \<in> R. \<forall>q'. user_path q' \<longrightarrow> q' \<noteq> [] \<longrightarrow>
     pte_at (mem s') r' q' = (if r' = r \<and> q' = q then e else pte_at (mem s) r' q'))"

lemma node_at_pte:
  "q \<noteq> [] \<Longrightarrow> node_at m r q = (if bit (pte_at m r q) 0 then Some (pte_phys (pte_at m r q)) else None)"
  using node_at_snoc [of m r "butlast q" "last q"] by simp

lemma pte_updated_node:
  assumes "pte_updated R r q e s s'" "r' \<in> R" "user_path q'" "q \<noteq> []"
  shows "node_at (mem s') r' q' =
    (if r' = r \<and> q' = q then (if bit e 0 then Some (pte_phys e) else None) else node_at (mem s) r' q')"
  using assms by (cases "q' = []") (auto simp: pte_updated_def node_at_pte)

lemma pte_at_write_entry:
  assumes "pt_inv R s" "r \<in> R" "user_path (p @ [i])" "node_at (mem s) r p = Some t"
    and "r' \<in> R" "user_path (q @ [j])" "\<not> (r' = r \<and> prefix (p @ [i]) q)"
  shows "pte_at (mem (write_entry t i e s)) r' (q @ [j]) =
    (if r' = r \<and> q @ [j] = p @ [i] then e else pte_at (mem s) r' (q @ [j]))"
proof -
  have p: "user_path p" "i < 512" and q: "user_path q" "j < 512"
    using assms(3,6) by (auto dest: user_path_snocD)
  have n: "node_at (mem (write_entry t i e s)) r' q = node_at (mem s) r' q"
    using assms q by (intro node_at_write_entry)
  show ?thesis
  proof (cases "node_at (mem s) r' q")
    case None
    then have "\<not> (r' = r \<and> q = p)" using assms(4) by auto
    then show ?thesis using n None by (auto simp: pte_at_def)
  next
    case (Some u)
    have "u = t \<longleftrightarrow> r' = r \<and> q = p"
      using pt_inv_inj [OF assms(1,2,5) p(1) q(1) assms(4)] Some assms(4) by auto
    moreover have "PAGE_SIZE dvd u" "PAGE_SIZE dvd t"
      using frames_page [OF assms(1)] framesI [OF assms(5) q(1) Some] framesI [OF assms(2) p(1) assms(4)] by auto
    ultimately show ?thesis
      using read_write_entry [of t u i j e s] p q n Some by (auto simp: pte_at_def)
  qed
qed

lemma write_leaf_updated:
  assumes "pt_inv R s" "r \<in> R" "user_path (p @ [i])" "length p = 3" "node_at (mem s) r p = Some t"
  shows "pte_updated R r (p @ [i]) e s (write_entry t i e s)"
  unfolding pte_updated_def
proof (intro ballI allI impI)
  fix r' q' assume q': "r' \<in> R" "user_path q'" "q' \<noteq> []"
  then have "\<not> prefix (p @ [i]) (butlast q')"
    using assms(4) by (auto dest!: prefix_length_le simp: user_path_def)
  then show "pte_at (mem (write_entry t i e s)) r' q' = (if r' = r \<and> q' = p @ [i] then e else pte_at (mem s) r' q')"
    using pte_at_write_entry [OF assms(1-3,5) q'(1), of "butlast q'" "last q'" e] q' by simp
qed

lemma write_table_updated:
  assumes "pt_inv R s" "r \<in> R" "user_path (p @ [i])" "node_at (mem s) r p = Some t"
    and "\<not> bit (pte_at (mem s) r (p @ [i])) 0" "f \<notin> frames R s" "PAGE_SIZE dvd f"
    and "bit e 0" "pte_phys e = f" "pt_inv R (zero_phys_frame f s)"
  shows "pte_updated R r (p @ [i]) e s (write_entry t i e (zero_phys_frame f s))"
  unfolding pte_updated_def
proof (intro ballI allI impI)
  let ?z = "zero_phys_frame f s"
  let ?s' = "write_entry t i e ?z"
  have p: "user_path p" "i < 512" using user_path_snocD [OF assms(3)] by auto
  have nt: "f \<notin> tables R s" using assms(6) tables_frames by auto
  have t: "PAGE_SIZE dvd t" "t \<noteq> f" "node_at (mem ?z) r p = Some t"
    using frames_page [OF assms(1)] framesI [OF assms(2) p(1) assms(4)] assms(4,6)
      node_at_zero_frame [OF assms(1) nt assms(7,2) p(1)] by auto
  fix r' q' assume q': "r' \<in> R" "user_path q'" "q' \<noteq> []"
  then obtain q j where qj: "q' = q @ [j]" by (metis rev_exhaust)
  then have q: "user_path q" "j < 512" using user_path_snocD q'(2) by auto
  have zero: "pte_at (mem ?z) r' q' = pte_at (mem s) r' q'"
    using q' by (intro pte_at_zero_frame [OF assms(1) nt assms(7)])
  show "pte_at (mem ?s') r' q' = (if r' = r \<and> q' = p @ [i] then e else pte_at (mem s) r' q')"
  proof (cases "r' = r \<and> prefix (p @ [i]) q")
    case False
    then show ?thesis
      using pte_at_write_entry [OF assms(10,2,3) t(3) q'(1), of q j e] q'(2) zero qj by simp
  next
    case True
    then obtain z where z: "q = (p @ [i]) @ z" by (auto simp: prefix_def)
    have "\<not> prefix (p @ [i]) p" by (auto dest: prefix_length_le)
    then have "node_at (mem ?s') r p = Some t"
      using node_at_write_entry [OF assms(10,2,3) t(3) assms(2) p(1)] t(3) by auto
    moreover have entries: "read_entry (mem ?s') t i = e" "k < 512 \<Longrightarrow> read_entry (mem ?s') f k = 0" for k
      using read_write_entry [OF t(1) t(1) p(2) p(2)] read_write_entry [OF t(1) assms(7) p(2), of k e ?z] t(2)
        read_zero_frame [OF assms(7) assms(7), of k s] by auto
    ultimately have n: "node_at (mem ?s') r (p @ [i]) = Some f"
      using assms(8,9) by (simp add: node_at_append get_table_bit)
    have "pte_at (mem ?s') r q' = 0"
    proof (cases z)
      case Nil
      then have "node_at (mem ?s') r q = Some f" using n z by simp
      then show ?thesis unfolding qj using entries(2) [OF q(2)] by (simp only: pte_at_snoc)
    next
      case (Cons k z')
      have "k < 512" using q'(2) qj z Cons by (auto simp: user_path_def)
      then have "node_at (mem ?s') r q = None"
        unfolding z node_at_append [of _ _ "p @ [i]"] n using Cons entries(2) [of k] by (simp add: get_table_bit)
      then show ?thesis using qj by (simp add: pte_at_def)
    qed
    moreover have "node_at (mem s) r (p @ [i]) = None" using assms(5) by (simp add: node_at_snoc)
    then have "node_at (mem s) r q = None" unfolding z node_at_append [of _ _ "p @ [i]"] by simp
    then have "pte_at (mem s) r q' = 0" using qj by (simp add: pte_at_def)
    moreover have "q' \<noteq> p @ [i]" using qj z by simp
    ultimately show ?thesis using True by simp
  qed
qed

subsection \<open>Preservation of the invariant\<close>

lemma frames_pmm [simp]: "frames R (s\<lparr>pmm := x\<rparr>) = frames R s"
  by (simp add: frames_def)

lemma pt_inv_pmm:
  assumes "pt_inv R s" "pmm_ok x" "total_frames x = total_frames (pmm s)" "frames R s \<inter> avail_addrs x = {}"
  shows "pt_inv R (s\<lparr>pmm := x\<rparr>)"
proof -
  have "managed_addrs x = managed_addrs (pmm s)" using assms(3) by (simp add: managed_addrs_def)
  then show ?thesis using assms unfolding pt_inv_def by auto
qed

lemma pt_inv_zero:
  assumes "pt_inv R s" "f \<notin> tables R s" "PAGE_SIZE dvd f"
  shows "pt_inv R (zero_phys_frame f s) \<and> frames R (zero_phys_frame f s) = frames R s
    \<and> tables R (zero_phys_frame f s) = tables R s"
proof -
  have n: "r \<in> R \<Longrightarrow> user_path q \<Longrightarrow> node_at (mem (zero_phys_frame f s)) r q = node_at (mem s) r q" for r q
    by (rule node_at_zero_frame [OF assms])
  then have "frames R (zero_phys_frame f s) = frames R s"
    unfolding frames_def by (intro Collect_cong bex_cong refl ex_cong1 conj_cong) simp_all
  moreover have "tables R (zero_phys_frame f s) = tables R s"
    unfolding tables_def using n by (intro Collect_cong bex_cong refl ex_cong1 conj_cong) simp_all
  ultimately show ?thesis using assms(1) n by (simp add: pt_inv_def) (simp add: zero_phys_frame_def)
qed

lemma frames_pte_updated:
  assumes "pt_inv R s" "pte_updated R r q e s s'" "r \<in> R" "user_path q" "q \<noteq> []"
  shows "frames R s' = frames R s - set_option (node_at (mem s) r q) \<union> (if bit e 0 then {pte_phys e} else {})"
proof (intro set_eqI iffI)
  fix t assume "t \<in> frames R s'"
  then obtain r' q' where n: "r' \<in> R" "user_path q'" "node_at (mem s') r' q' = Some t"
    by (auto simp: frames_def)
  show "t \<in> frames R s - set_option (node_at (mem s) r q) \<union> (if bit e 0 then {pte_phys e} else {})"
  proof (cases "r' = r \<and> q' = q")
    case True
    then show ?thesis using n pte_updated_node [OF assms(2) n(1,2) assms(5)] by (auto split: if_splits)
  next
    case False
    then have m: "node_at (mem s) r' q' = Some t" using n pte_updated_node [OF assms(2) n(1,2) assms(5)] by auto
    then have "node_at (mem s) r q \<noteq> Some t" using False pt_inv_inj [OF assms(1) n(1) assms(3) n(2) assms(4) m] by blast
    then show ?thesis using framesI [OF n(1,2) m] by auto
  qed
next
  fix t assume "t \<in> frames R s - set_option (node_at (mem s) r q) \<union> (if bit e 0 then {pte_phys e} else {})"
  then consider "t \<in> frames R s" "node_at (mem s) r q \<noteq> Some t" | "bit e 0" "t = pte_phys e"
    by (auto split: if_splits)
  then show "t \<in> frames R s'"
  proof cases
    case 1
    then obtain r' q' where "r' \<in> R" "user_path q'" "node_at (mem s) r' q' = Some t" "\<not> (r' = r \<and> q' = q)"
      by (auto simp: frames_def)
    then show ?thesis using pte_updated_node [OF assms(2) _ _ assms(5), of r' q'] by (auto intro!: framesI)
  next
    case 2
    then show ?thesis using pte_updated_node [OF assms(2,3,4,5)] assms(3,4) by (auto intro!: framesI)
  qed
qed

lemma pt_inv_pte_updated:
  assumes inv: "pt_inv R s" and upd: "pte_updated R r q e s s'" and r: "r \<in> R" and q: "user_path q" "q \<noteq> []"
    and pmm: "pmm_ok (pmm s')" "total_frames (pmm s') = total_frames (pmm s)"
    and old: "(frames R s - set_option (node_at (mem s) r q)) \<inter> avail_addrs (pmm s') = {}"
    and new: "bit e 0 \<Longrightarrow> pte_phys e \<in> managed_addrs (pmm s) - avail_addrs (pmm s')"
      "bit e 0 \<Longrightarrow> pte_phys e \<notin> frames R s - set_option (node_at (mem s) r q)"
  shows "pt_inv R s'"
  unfolding pt_inv_def
proof (intro conjI ballI allI impI)
  have mg: "managed_addrs (pmm s') = managed_addrs (pmm s)" using pmm(2) by (simp add: managed_addrs_def)
  show "frames R s' \<subseteq> managed_addrs (pmm s') - avail_addrs (pmm s')"
    using frames_pte_updated [OF inv upd r q] old new(1) inv mg by (auto simp: pt_inv_def split: if_splits)
  show "total_frames (pmm s') * PAGE_SIZE \<le> 2 ^ 52" using inv pmm(2) by (simp add: pt_inv_def)
  have node: "node_at (mem s') r' q' =
      (if r' = r \<and> q' = q then (if bit e 0 then Some (pte_phys e) else None) else node_at (mem s) r' q')"
    if "r' \<in> R" "user_path q'" for r' q' using pte_updated_node [OF upd that q(2)] .
  have fresh: "(r' = r \<and> q' = q)" if "r' \<in> R" "user_path q'" "bit e 0" "node_at (mem s) r' q' = Some (pte_phys e)" for r' q'
    using that new(2) [OF that(3)] framesI [OF that(1,2,4)] pt_inv_inj [OF inv that(1) r that(2) q(1) that(4)] by auto
  fix r1 r2 q1 q2 t
  assume a: "r1 \<in> R" "r2 \<in> R" "user_path q1" "user_path q2" "node_at (mem s') r1 q1 = Some t" "node_at (mem s') r2 q2 = Some t"
  have "r1 = r2 \<and> q1 = q2"
  proof (cases "(r1 = r \<and> q1 = q) \<or> (r2 = r \<and> q2 = q)")
    case True
    then have "bit e 0 \<and> t = pte_phys e"
      using node [OF a(1,3)] node [OF a(2,4)] a(5,6) by (metis option.distinct(1) option.inject)
    then have "r1 = r \<and> q1 = q" "r2 = r \<and> q2 = q"
      using node [OF a(1,3)] node [OF a(2,4)] a(5,6) fresh [OF a(1,3)] fresh [OF a(2,4)] by presburger+
    then show ?thesis by simp
  next
    case False
    then show ?thesis using node [OF a(1,3)] node [OF a(2,4)] a(5,6) pt_inv_inj [OF inv a(1-4), of t] by metis
  qed
  then show "r1 = r2" "q1 = q2" by simp_all
qed (use pmm in simp)

subsection \<open>Paths of virtual addresses\<close>

definition USER_SPACE_END :: usize where [posix_consts]: "USER_SPACE_END = 0x0000800000000000"

definition vpath :: "usize \<Rightarrow> usize list" where
  "vpath v = (case pt_indices v of (i4, i3, i2, i1) \<Rightarrow> [i4, i3, i2, i1])"

definition user_page :: "usize \<Rightarrow> bool" where
  "user_page v \<longleftrightarrow> PAGE_SIZE dvd v \<and> v < USER_SPACE_END"

lemma index_mask: "drop_bit k v AND PT_INDEX_MASK = v div 2 ^ k mod 512" for v :: nat
proof -
  have eq: "PT_INDEX_MASK = mask 9" by (simp add: PT_INDEX_MASK_def mask_eq_exp_minus_1)
  show ?thesis unfolding eq by (simp add: drop_bit_eq_div take_bit_eq_mask [symmetric] take_bit_eq_mod)
qed

lemma vpath_eq: "vpath v = [v div 2 ^ 39 mod 512, v div 2 ^ 30 mod 512, v div 2 ^ 21 mod 512, v div 2 ^ 12 mod 512]"
  unfolding vpath_def pt_indices_def index_mask by simp

lemma length_vpath [simp]: "length (vpath v) = 4" "vpath v \<noteq> []"
  by (simp_all add: vpath_eq)

lemma user_path_vpath: "v < USER_SPACE_END \<Longrightarrow> user_path (vpath v)"
  by (auto simp: user_path_def vpath_eq USER_SPACE_END_def)

lemma vpath_inj:
  assumes "user_page v" "user_page w" "vpath v = vpath w"
  shows "v = w"
proof -
  have digits: "n = ((n div 2 ^ 27 mod 512 * 512 + n div 2 ^ 18 mod 512) * 512 + n div 2 ^ 9 mod 512) * 512 + n mod 512"
    if "n < 2 ^ 36" for n :: nat
  proof -
    have "n = n div 512 * 512 + n mod 512" "n div 512 = n div 512 div 512 * 512 + n div 512 mod 512"
      "n div 512 div 512 = n div 512 div 512 div 512 * 512 + n div 512 div 512 mod 512"
      by simp_all
    moreover have "n div 512 div 512 div 512 < 512" using that by (simp add: div_mult2_eq [symmetric] less_mult_imp_div_less)
    ultimately show ?thesis by (simp add: div_mult2_eq [symmetric])
  qed
  have "v = v div 2 ^ 12 * 2 ^ 12" "w = w div 2 ^ 12 * 2 ^ 12"
    using assms(1,2) by (auto simp: user_page_def PAGE_SIZE_def)
  moreover have "v div 2 ^ 12 < 2 ^ 36" "w div 2 ^ 12 < 2 ^ 36"
    using assms(1,2) by (auto simp: user_page_def USER_SPACE_END_def)
  moreover have "v div 2 ^ 12 div 2 ^ 27 mod 512 = w div 2 ^ 12 div 2 ^ 27 mod 512"
    "v div 2 ^ 12 div 2 ^ 18 mod 512 = w div 2 ^ 12 div 2 ^ 18 mod 512"
    "v div 2 ^ 12 div 2 ^ 9 mod 512 = w div 2 ^ 12 div 2 ^ 9 mod 512"
    "v div 2 ^ 12 mod 512 = w div 2 ^ 12 mod 512"
    using assms(3) unfolding vpath_eq by (simp_all add: div_mult2_eq [symmetric])
  ultimately show ?thesis using digits by metis
qed

subsection \<open>Growing the tables\<close>

lemma tables_pte_updated:
  assumes "pte_updated R r q e s s'" "r \<in> R" "user_path q" "q \<noteq> []" "length q \<le> 3" "node_at (mem s) r q = None"
    and "bit e 0"
  shows "tables R s' = insert (pte_phys e) (tables R s)"
proof (intro set_eqI iffI)
  note node = pte_updated_node [OF assms(1) _ _ assms(4)]
  fix t
  {
    assume "t \<in> tables R s'"
    then show "t \<in> insert (pte_phys e) (tables R s)"
      by (rule tablesE) (use node assms(7) in \<open>auto split: if_splits intro: tablesI\<close>)
  }
  assume "t \<in> insert (pte_phys e) (tables R s)"
  then consider "t = pte_phys e" | "t \<in> tables R s" by auto
  then show "t \<in> tables R s'"
  proof cases
    case 1
    then show ?thesis using node [OF assms(2,3)] assms by (auto intro: tablesI)
  next
    case 2
    then obtain r' q' where n: "r' \<in> R" "user_path q'" "length q' \<le> 3" "node_at (mem s) r' q' = Some t" by (rule tablesE)
    then have "node_at (mem s') r' q' = Some t" using node [OF n(1,2)] assms(6) by auto
    then show ?thesis using n by (auto intro: tablesI)
  qed
qed

definition table_entry :: "u64 \<Rightarrow> u64 \<Rightarrow> bool" where
  "table_entry flags e \<longleftrightarrow> bit e 0 \<and> bit e 1 \<and> bit e 2 = bit flags 2 \<and> \<not> bit e 7"

text \<open>\<open>s'\<close> has the frames \<open>T\<close> as additional page tables below \<open>r\<close>, and is unchanged otherwise.\<close>

definition grown :: "usize set \<Rightarrow> usize \<Rightarrow> u64 \<Rightarrow> usize set \<Rightarrow> mmu \<Rightarrow> mmu \<Rightarrow> bool" where
  "grown R r flags T s s' \<longleftrightarrow> pt_inv R s' \<and> T \<subseteq> avail_addrs (pmm s)
    \<and> avail_addrs (pmm s') = avail_addrs (pmm s) - T \<and> total_frames (pmm s') = total_frames (pmm s)
    \<and> frames R s' = frames R s \<union> T \<and> tables R s' = tables R s \<union> T
    \<and> (\<forall>r' \<in> R. \<forall>q. user_path q \<longrightarrow> q \<noteq> [] \<longrightarrow> pte_at (mem s') r' q = pte_at (mem s) r' q \<or>
        (r' = r \<and> length q \<le> 3 \<and> \<not> bit (pte_at (mem s) r' q) 0 \<and> table_entry flags (pte_at (mem s') r' q)))
    \<and> (\<forall>g. PAGE_SIZE dvd g \<longrightarrow> g \<notin> tables R s \<longrightarrow> g \<notin> T \<longrightarrow> (\<forall>j<512. read_entry (mem s') g j = read_entry (mem s) g j))"

lemma grown_refl: "pt_inv R s \<Longrightarrow> grown R r flags {} s s"
  by (simp add: grown_def)

lemma grown_trans:
  assumes "grown R r flags T s s1" "grown R r flags T' s1 s2"
  shows "grown R r flags (T \<union> T') s s2"
proof -
  have "pte_at (mem s2) r' q = pte_at (mem s) r' q \<or>
      (r' = r \<and> length q \<le> 3 \<and> \<not> bit (pte_at (mem s) r' q) 0 \<and> table_entry flags (pte_at (mem s2) r' q))"
    if "r' \<in> R" "user_path q" "q \<noteq> []" for r' q
    using assms that unfolding grown_def by (metis table_entry_def)
  moreover have "read_entry (mem s2) g j = read_entry (mem s) g j"
    if "PAGE_SIZE dvd g" "g \<notin> tables R s" "g \<notin> T \<union> T'" "j < 512" for g j
    using assms that unfolding grown_def by auto
  ultimately show ?thesis using assms unfolding grown_def by auto
qed

definition new_table_entry :: "usize \<Rightarrow> u64 \<Rightarrow> u64" where
  "new_table_entry f flags = (of_nat f OR PAGE_PRESENT OR PAGE_WRITABLE OR (flags AND PAGE_USER))"

lemma new_table_entry:
  assumes "PAGE_SIZE dvd f" "f < 2 ^ 52"
  shows "bit (new_table_entry f flags) 0" "pte_phys (new_table_entry f flags) = f"
    "table_entry flags (new_table_entry f flags)"
proof -
  have eq: "new_table_entry f flags = of_nat f OR (PAGE_PRESENT OR PAGE_WRITABLE OR (flags AND PAGE_USER))"
    by (simp add: new_table_entry_def or.assoc)
  have low: "bit (PAGE_PRESENT OR PAGE_WRITABLE OR (flags AND PAGE_USER)) k \<longleftrightarrow>
      k = 0 \<or> k = 1 \<or> k = 2 \<and> bit flags 2" for k
    by (auto simp: bit_or_iff bit_and_iff bit_flags)
  show "pte_phys (new_table_entry f flags) = f"
    unfolding eq using assms by (rule pte_phys_entry) (auto simp: low)
  show "bit (new_table_entry f flags) 0" "table_entry flags (new_table_entry f flags)"
    unfolding eq table_entry_def by (simp_all add: bit_entry_attr [OF assms] low)
qed

text \<open>What the pool guarantees about a frame it hands out.\<close>

lemma alloc_fresh:
  assumes "pt_inv R s" "alloc_frame (pmm s) = (Some f, x)"
  shows "f \<in> avail_addrs (pmm s)" "avail_addrs x = avail_addrs (pmm s) - {f}" "pmm_ok x"
    "total_frames x = total_frames (pmm s)" "f \<in> managed_addrs (pmm s)" "PAGE_SIZE dvd f" "f < 2 ^ 52"
    "f \<notin> frames R s" "pt_inv R (s\<lparr>pmm := x\<rparr>)"
proof -
  have ok: "pmm_ok (pmm s)" using assms(1) by (simp add: pt_inv_def)
  show a: "f \<in> avail_addrs (pmm s)" and av: "avail_addrs x = avail_addrs (pmm s) - {f}" and x: "pmm_ok x"
    using pmm_alloc.alloc_Some [OF ok assms(2)] by auto
  show tot: "total_frames x = total_frames (pmm s)"
    using alloc_frame_Some [of "pmm s" f x] assms(2) ok by (auto simp: pmm_ok_def)
  show "f \<in> managed_addrs (pmm s)" using a avail_subset_managed [OF assms(1)] by auto
  then show "PAGE_SIZE dvd f" "f < 2 ^ 52" using managed_addrs_page [OF assms(1)] by auto
  show "f \<notin> frames R s" using assms(1) a by (auto simp: pt_inv_def)
  show "pt_inv R (s\<lparr>pmm := x\<rparr>)" using assms(1) x tot av by (intro pt_inv_pmm) (auto simp: pt_inv_def)
qed

lemma create_table_grown:
  assumes inv: "pt_inv R s" and r: "r \<in> R" and q: "user_path (p @ [i])" "length p \<le> 2"
    and t: "node_at (mem s) r p = Some t" and absent: "\<not> bit (read_entry (mem s) t i) 0"
    and al: "alloc_frame (pmm s) = (Some f, x)"
    and s': "s' = write_entry t i (new_table_entry f flags) (zero_phys_frame f (s\<lparr>pmm := x\<rparr>))"
  shows "grown R r flags {f} s s' \<and> node_at (mem s') r (p @ [i]) = Some f"
proof -
  let ?e = "new_table_entry f flags" and ?z = "zero_phys_frame f (s\<lparr>pmm := x\<rparr>)"
  note f = alloc_fresh [OF inv al]
  note e = new_table_entry [OF f(6,7), of flags]
  have invz: "pt_inv R ?z" using pt_inv_zero [OF f(9) _ f(6)] f(8) tables_frames [of R s] by (auto simp: tables_def)
  have p: "user_path p" "i < 512" using user_path_snocD [OF q(1)] by auto
  have old: "\<not> bit (pte_at (mem s) r (p @ [i])) 0" using absent t by (simp add: pte_at_snoc)
  then have none: "node_at (mem s) r (p @ [i]) = None" by (simp add: node_at_snoc)
  have upd: "pte_updated R r (p @ [i]) ?e s s'"
    using write_table_updated [OF f(9) r q(1), of t f ?e] t old f(6,8) e invz by (simp add: s' pte_updated_def)
  have pmm': "pmm s' = x" by (simp add: s' write_entry_def zero_phys_frame_def)
  have inv': "pt_inv R s'"
    using f e(1,2) none inv by (intro pt_inv_pte_updated [OF inv upd r q(1)]) (auto simp: pmm' pt_inv_def)
  have node: "node_at (mem s') r' q' = (if r' = r \<and> q' = p @ [i] then Some f else node_at (mem s) r' q')"
    if "r' \<in> R" "user_path q'" for r' q'
    using pte_updated_node [OF upd that] e by simp
  have td: "PAGE_SIZE dvd t" "t \<in> tables R s"
    using frames_page [OF inv framesI [OF r p(1) t]] tablesI [OF r p(1) _ t] q(2) by auto
  have "frames R s' = insert f (frames R s)" using frames_pte_updated [OF inv upd r q(1)] none e by simp
  moreover have "tables R s' = insert f (tables R s)"
    using tables_pte_updated [OF upd r q(1) _ _ none] e q(2) by simp
  moreover have "read_entry (mem s') g j = read_entry (mem s) g j"
    if "PAGE_SIZE dvd g" "g \<notin> tables R s" "g \<noteq> f" "j < 512" for g j
    using that td read_write_entry [OF td(1) that(1) p(2) that(4), of ?e ?z]
      read_zero_frame [OF f(6) that(1,4), of "s\<lparr>pmm := x\<rparr>"] by (auto simp: s')
  ultimately have "grown R r flags {f} s s'"
    unfolding grown_def using inv' f pmm' upd old e(3) q(2) by (auto simp: pte_updated_def)
  then show ?thesis using node [OF r q(1)] by simp
qed

lemma get_or_create_table_spec:
  assumes inv: "pt_inv R s" and r: "r \<in> R" and q: "user_path (p @ [i])" "length p \<le> 2"
    and t: "node_at (mem s) r p = Some t"
    and call: "get_or_create_table s t i flags = (res, s')"
  shows "\<exists>T. grown R r flags T s s' \<and> (case res of None \<Rightarrow> T = {} \<and> avail_addrs (pmm s') = {}
      | Some t' \<Rightarrow> card T \<le> 1 \<and> node_at (mem s') r (p @ [i]) = Some t')"
proof (cases "bit (read_entry (mem s) t i) 0")
  case True
  then have s': "s' = s" and res: "res = Some (pte_phys (read_entry (mem s) t i))"
    using call by (auto simp: get_or_create_table_def pte_bit_iff)
  have "node_at (mem s) r (p @ [i]) = Some (pte_phys (read_entry (mem s) t i))"
    using t True by (simp add: node_at_append get_table_bit)
  then show ?thesis unfolding s' res using grown_refl [OF inv] by (intro exI [of _ "{}"]) simp
next
  case absent: False
  obtain a x where al: "alloc_frame (pmm s) = (a, x)" by (cases "alloc_frame (pmm s)")
  show ?thesis
  proof (cases a)
    case None
    have "pmm_ok (pmm s)" using inv by (simp add: pt_inv_def)
    then have "x = pmm s" "avail_addrs (pmm s) = {}" using pmm_alloc.alloc_None [of "pmm s" x] al None by auto
    moreover from this have "s' = s" "res = None"
      using call al absent None by (auto simp: get_or_create_table_def pte_bit_iff)
    ultimately show ?thesis using grown_refl [OF inv] by auto
  next
    case (Some f)
    let ?z = "zero_phys_frame f (s\<lparr>pmm := x\<rparr>)"
    have f: "alloc_frame (pmm s) = (Some f, x)" using al Some by simp
    have s': "s' = write_entry t i (new_table_entry f flags) ?z"
      and res: "res = Some (pte_phys (read_entry (mem s') t i))"
      using call f absent by (auto simp: get_or_create_table_def pte_bit_iff Let_def new_table_entry_def)
    have "user_path p" "i < 512" using user_path_snocD [OF q(1)] by auto
    then have "read_entry (mem s') t i = new_table_entry f flags"
      using read_write_entry [of t t i i "new_table_entry f flags" ?z] frames_page [OF inv framesI [OF r _ t]] s' by simp
    then have "res = Some f" using res new_table_entry(2) [of f flags] alloc_fresh(6,7) [OF inv f] by simp
    then show ?thesis using create_table_grown [OF inv r q t absent f s'] by auto
  qed
qed

subsection \<open>Mapping a page\<close>

lemma grown_node:
  assumes "grown R r flags T s s'" "r' \<in> R" "user_path q" "node_at (mem s) r' q = Some t"
  shows "node_at (mem s') r' q = Some t"
proof (cases "q = []")
  case False
  then have "bit (pte_at (mem s) r' q) 0" using assms(4) by (simp add: node_at_pte split: if_splits)
  then have "pte_at (mem s') r' q = pte_at (mem s) r' q" using assms(1-3) False unfolding grown_def by blast
  then show ?thesis using assms(4) False by (auto simp: node_at_pte split: if_splits)
qed (use assms(4) in simp)

lemma map_page_grown:
  assumes inv: "pt_inv R s" and r: "r \<in> R" and v: "v < USER_SPACE_END"
    and call: "map_page r v f fl s = (ok, s')"
  shows "\<exists>T s1. grown R r (page_flags_to_arch fl OR PAGE_PRESENT) T s s1 \<and> card T \<le> (if ok then 3 else 2)
    \<and> (if ok then \<exists>t. node_at (mem s1) r (butlast (vpath v)) = Some t
         \<and> s' = write_entry t (last (vpath v)) (of_nat f OR (page_flags_to_arch fl OR PAGE_PRESENT)) s1
       else s' = s1 \<and> avail_addrs (pmm s1) = {})"
proof -
  let ?fl = "page_flags_to_arch fl OR PAGE_PRESENT"
  obtain i4 i3 i2 i1 where ix: "pt_indices v = (i4, i3, i2, i1)" by (cases "pt_indices v")
  then have vp: "vpath v = [i4, i3, i2, i1]" by (simp add: vpath_def)
  have up: "user_path ([] @ [i4])" "user_path ([i4] @ [i3])" "user_path ([i4, i3] @ [i2])"
    using user_path_vpath [OF v] by (auto simp: vp user_path_def)
  obtain a s1 where c1: "get_or_create_table s r i4 ?fl = (a, s1)" by fastforce
  obtain T1 where g1: "grown R r ?fl T1 s s1" and n1: "\<And>t. a = Some t \<Longrightarrow> node_at (mem s1) r [i4] = Some t"
      and e1: "a = None \<Longrightarrow> avail_addrs (pmm s1) = {}"
      and k1: "card T1 \<le> (if a = None then 0 else 1)"
    using get_or_create_table_spec [OF inv r up(1) _ _ c1] by (auto split: option.splits)
  show ?thesis
  proof (cases a)
    case None
    then show ?thesis using call ix c1 g1 e1 k1 by (auto simp: map_page_def Let_def)
  next
    case (Some pdpt)
    have inv1: "pt_inv R s1" using g1 by (simp add: grown_def)
    obtain b s2 where c2: "get_or_create_table s1 pdpt i3 ?fl = (b, s2)" by fastforce
    obtain T2 where g2: "grown R r ?fl T2 s1 s2" and n2: "\<And>t. b = Some t \<Longrightarrow> node_at (mem s2) r [i4, i3] = Some t"
      and e2: "b = None \<Longrightarrow> avail_addrs (pmm s2) = {}"
      and k2: "card T2 \<le> (if b = None then 0 else 1)"
      using get_or_create_table_spec [OF inv1 r up(2) _ _ c2] n1 [OF Some] by (auto split: option.splits)
    note g12 = grown_trans [OF g1 g2]
    have k12: "card (T1 \<union> T2) \<le> (if b = None then 1 else 2)"
      using card_Un_le [of T1 T2] k1 k2 Some by (auto split: if_splits)
    show ?thesis
    proof (cases b)
      case None
      then show ?thesis using call ix c1 Some c2 g12 e2 k12 by (auto simp: map_page_def Let_def)
    next
      case Some': (Some pd)
      have inv2: "pt_inv R s2" using g2 by (simp add: grown_def)
      obtain c s3 where c3: "get_or_create_table s2 pd i2 ?fl = (c, s3)" by fastforce
      obtain T3 where g3: "grown R r ?fl T3 s2 s3" and n3: "\<And>t. c = Some t \<Longrightarrow> node_at (mem s3) r [i4, i3, i2] = Some t"
      and e3: "c = None \<Longrightarrow> avail_addrs (pmm s3) = {}"
      and k3: "card T3 \<le> (if c = None then 0 else 1)"
        using get_or_create_table_spec [OF inv2 r up(3) _ _ c3] n2 [OF Some'] by (auto split: option.splits)
      note g123 = grown_trans [OF g12 g3]
      have "card (T1 \<union> T2 \<union> T3) \<le> (if c = None then 2 else 3)"
        using card_Un_le [of "T1 \<union> T2" T3] k12 k3 Some' by (auto split: if_splits)
      then show ?thesis
        using call ix c1 Some c2 Some' c3 g123 n3 e3
        by (intro exI [of _ "T1 \<union> T2 \<union> T3"] exI [of _ s3])
          (auto simp: map_page_def Let_def vp split: option.splits)
    qed
  qed
qed

text \<open>The entry that \<open>map_page\<close> writes.\<close>

definition leaf_entry :: "usize \<Rightarrow> PageFlags \<Rightarrow> u64" where
  "leaf_entry f fl = of_nat f OR (page_flags_to_arch fl OR PAGE_PRESENT)"

lemma leaf_entry:
  assumes "PAGE_SIZE dvd f" "f < 2 ^ 52"
  shows "bit (leaf_entry f fl) 0" "pte_phys (leaf_entry f fl) = f"
    "page_flags_from_arch (leaf_entry f fl) = fl\<lparr>pf_present := True\<rparr>"
    "bit (leaf_entry f fl) 1 = pf_writable fl" "bit (leaf_entry f fl) 2 = pf_user fl"
proof -
  have low: "bit (page_flags_to_arch fl OR PAGE_PRESENT) k \<longleftrightarrow> k = 0 \<or> bit (page_flags_to_arch fl) k" for k
    by (auto simp: bit_or_iff bit_flags)
  show "pte_phys (leaf_entry f fl) = f"
    unfolding leaf_entry_def using assms by (rule pte_phys_entry) (auto simp: low bit_page_flags_to_arch)
  show "page_flags_from_arch (leaf_entry f fl) = fl\<lparr>pf_present := True\<rparr>"
    unfolding leaf_entry_def using assms by (rule page_flags_roundtrip)
  show "bit (leaf_entry f fl) 0" "bit (leaf_entry f fl) 1 = pf_writable fl" "bit (leaf_entry f fl) 2 = pf_user fl"
    unfolding leaf_entry_def by (simp_all add: bit_entry_attr [OF assms] low bit_page_flags_to_arch)
qed

lemma map_page_spec:
  assumes inv: "pt_inv R s" and r: "r \<in> R" and v: "v < USER_SPACE_END"
    and f: "f \<in> managed_addrs (pmm s) - avail_addrs (pmm s)" "f \<notin> frames R s"
    and call: "map_page r v f fl s = (ok, s')"
  shows "\<exists>T s1. grown R r (page_flags_to_arch fl OR PAGE_PRESENT) T s s1 \<and> pt_inv R s' \<and> pmm s' = pmm s1
    \<and> card T \<le> (if ok then 3 else 2)
    \<and> (if ok then pte_updated R r (vpath v) (leaf_entry f fl) s1 s'
         \<and> (\<forall>g. PAGE_SIZE dvd g \<longrightarrow> g \<notin> tables R s1 \<longrightarrow> (\<forall>j<512. read_entry (mem s') g j = read_entry (mem s1) g j))
       else s' = s1 \<and> avail_addrs (pmm s1) = {})"
proof -
  obtain T s1 where g: "grown R r (page_flags_to_arch fl OR PAGE_PRESENT) T s s1"
    and cT: "card T \<le> (if ok then 3 else 2)"
    and res: "if ok then \<exists>t. node_at (mem s1) r (butlast (vpath v)) = Some t
         \<and> s' = write_entry t (last (vpath v)) (leaf_entry f fl) s1 else s' = s1 \<and> avail_addrs (pmm s1) = {}"
    using map_page_grown [OF inv r v call] unfolding leaf_entry_def by blast
  have inv1: "pt_inv R s1" using g by (simp add: grown_def)
  show ?thesis
  proof (cases ok)
    case False
    then show ?thesis using g cT res inv1 by auto
  next
    case True
    then obtain t where t: "node_at (mem s1) r (butlast (vpath v)) = Some t"
      and s': "s' = write_entry t (last (vpath v)) (leaf_entry f fl) s1" using res by auto
    let ?p = "butlast (vpath v)" and ?i = "last (vpath v)"
    have vp: "?p @ [?i] = vpath v" by simp
    have up: "user_path (?p @ [?i])" using vp user_path_vpath [OF v] by simp
    then have p: "user_path ?p" "?i < 512" using user_path_snocD by blast+
    have upd: "pte_updated R r (vpath v) (leaf_entry f fl) s1 s'"
      using write_leaf_updated [OF inv1 r up _ t, of "leaf_entry f fl"] vp s' by simp
    have pm: "pmm s' = pmm s1" by (simp add: s' write_entry_def)
    have f1: "f \<in> managed_addrs (pmm s1) - avail_addrs (pmm s1)" "f \<notin> frames R s1"
      using f g by (auto simp: grown_def managed_addrs_def)
    note le = leaf_entry [OF conjunct1 conjunct2, OF managed_addrs_page managed_addrs_page, OF inv1 _ inv1, of f fl]
    have "pt_inv R s'"
      using inv1 f1 le(1,2) user_path_vpath [OF v]
      by (intro pt_inv_pte_updated [OF inv1 upd r]) (auto simp: pm pt_inv_def)
    moreover have "read_entry (mem s') g j = read_entry (mem s1) g j"
      if "PAGE_SIZE dvd g" "g \<notin> tables R s1" "j < 512" for g j
      using that read_write_entry [of t g ?i j "leaf_entry f fl" s1] p tablesI [OF r p(1) _ t]
        frames_page [OF inv1 framesI [OF r p(1) t]] by (auto simp: s')
    ultimately show ?thesis using g cT True upd pm by auto
  qed
qed

subsection \<open>Walks, unmapping and protection\<close>

lemma walk_to_pt_node: "walk_to_pt m r v = node_at m r (butlast (vpath v))"
  by (auto simp: walk_to_pt_def vpath_def split: prod.splits option.splits)

lemma pt_idx_of_last: "pt_idx_of v = last (vpath v)"
  by (simp add: pt_idx_of_def vpath_def split: prod.splits)

lemma vpath_snoc: "butlast (vpath v) @ [last (vpath v)] = vpath v"
  by simp

lemma pte_at_vpath: "walk_to_pt m r v = Some t \<Longrightarrow> pte_at m r (vpath v) = read_entry m t (pt_idx_of v)"
  by (simp add: pte_at_def walk_to_pt_node pt_idx_of_last)

lemma pte_at_vpath_None: "walk_to_pt m r v = None \<Longrightarrow> pte_at m r (vpath v) = 0"
  by (simp add: pte_at_def walk_to_pt_node)

lemma and_0xFFF: "v AND 0xFFF = v mod PAGE_SIZE" for v :: nat
proof -
  have eq: "(0xFFF :: nat) = mask 12" by (simp add: mask_eq_exp_minus_1)
  show ?thesis unfolding eq by (simp add: PAGE_SIZE_def take_bit_eq_mask [symmetric] take_bit_eq_mod)
qed

lemma translate_pte:
  "translate m r v = (let e = pte_at m r (vpath v) in
     if bit e 0 then Some (pte_phys e + v mod PAGE_SIZE) else None)"
  by (cases "walk_to_pt m r v")
    (auto simp: translate_def pte_at_vpath pte_at_vpath_None pte_bit_iff and_0xFFF [symmetric] Let_def)

lemma write_leaf_walk:
  assumes "pt_inv R s" "r \<in> R" "v < USER_SPACE_END" "walk_to_pt (mem s) r v = Some t"
  shows "pte_updated R r (vpath v) e s (write_entry t (pt_idx_of v) e s)"
    "PAGE_SIZE dvd g \<Longrightarrow> g \<notin> tables R s \<Longrightarrow> j < 512 \<Longrightarrow>
      read_entry (mem (write_entry t (pt_idx_of v) e s)) g j = read_entry (mem s) g j"
proof -
  have t: "node_at (mem s) r (butlast (vpath v)) = Some t" using assms(4) by (simp add: walk_to_pt_node)
  have up: "user_path (butlast (vpath v) @ [last (vpath v)])"
    unfolding vpath_snoc using assms(3) by (rule user_path_vpath)
  then have p: "user_path (butlast (vpath v))" "last (vpath v) < 512" using user_path_snocD by blast+
  show "pte_updated R r (vpath v) e s (write_entry t (pt_idx_of v) e s)"
    using write_leaf_updated [OF assms(1,2) up _ t, of e] by (simp add: pt_idx_of_last)
  show "PAGE_SIZE dvd g \<Longrightarrow> g \<notin> tables R s \<Longrightarrow> j < 512 \<Longrightarrow>
      read_entry (mem (write_entry t (pt_idx_of v) e s)) g j = read_entry (mem s) g j"
    using read_write_entry [of t g "pt_idx_of v" j e s] p tablesI [OF assms(2) p(1) _ t]
      frames_page [OF assms(1) framesI [OF assms(2) p(1) t]] by (auto simp: pt_idx_of_last)
qed

text \<open>The method \<open>VmSpace::unmap_page\<close> of \<^verbatim>\<open>mm/vmm.rs\<close>: clear the entry and free its frame.\<close>

definition unmap_and_free :: "usize \<Rightarrow> usize \<Rightarrow> mmu \<Rightarrow> mmu" where
  "unmap_and_free root_phys virt_addr s =
    (case unmap_page root_phys virt_addr s of
       (Some phys, s1) \<Rightarrow> pool_free phys s1
     | (None, s1) \<Rightarrow> s1)"

lemma unmap_and_free_spec:
  assumes inv: "pt_inv R s" and r: "r \<in> R" and v: "v < USER_SPACE_END" and s': "s' = unmap_and_free r v s"
  shows "pt_inv R s' \<and> pte_updated R r (vpath v) (if bit (pte_at (mem s) r (vpath v)) 0 then 0 else pte_at (mem s) r (vpath v)) s s'
    \<and> avail_addrs (pmm s') = avail_addrs (pmm s) \<union> set_option (node_at (mem s) r (vpath v))
    \<and> total_frames (pmm s') = total_frames (pmm s)"
proof (cases "bit (pte_at (mem s) r (vpath v)) 0")
  case False
  then have "s' = s" by (cases "walk_to_pt (mem s) r v")
      (auto simp: s' unmap_and_free_def unmap_page_def pte_at_vpath pte_bit_iff Let_def)
  then show ?thesis using inv False by (simp add: pte_updated_def node_at_pte)
next
  case True
  let ?e = "pte_at (mem s) r (vpath v)"
  obtain t where t: "walk_to_pt (mem s) r v = Some t"
    using True pte_at_vpath_None [of "mem s" r v] by (cases "walk_to_pt (mem s) r v") auto
  let ?s1 = "write_entry t (pt_idx_of v) 0 s"
  have s'_eq: "s' = pool_free (pte_phys ?e) ?s1"
    using True t by (simp add: s' unmap_and_free_def unmap_page_def pte_at_vpath pte_bit_iff Let_def)
  have node: "node_at (mem s) r (vpath v) = Some (pte_phys ?e)" using True by (simp add: node_at_pte)
  have upd: "pte_updated R r (vpath v) 0 s s'"
    using write_leaf_walk(1) [OF inv r v t, of 0] by (simp add: s'_eq pool_free_def pte_updated_def)
  have fr: "pte_phys ?e \<in> frames R s" using framesI [OF r user_path_vpath [OF v] node] .
  then have mg: "pmm_ok (pmm s)" "pte_phys ?e \<in> managed_addrs (pmm s)" using inv by (auto simp: pt_inv_def)
  have pm: "pmm s' = free_frame (pmm s) (pte_phys ?e)" by (simp add: s'_eq pool_free_def write_entry_def)
  have free: "pmm_ok (pmm s')" "avail_addrs (pmm s') = insert (pte_phys ?e) (avail_addrs (pmm s))"
    using free_frame_managed [OF mg] by (auto simp: pm)
  have tot: "total_frames (pmm s') = total_frames (pmm s)" by (simp add: pm free_frame_def Let_def)
  have "pt_inv R s'"
    using inv free tot node user_path_vpath [OF v]
    by (intro pt_inv_pte_updated [OF inv upd r]) (auto simp: pt_inv_def)
  then show ?thesis using True upd free tot node by simp
qed

subsection \<open>The mapping of an address space\<close>

definition mapped :: "usize \<Rightarrow> mmu \<Rightarrow> usize \<Rightarrow> (usize \<times> PageFlags) option" where
  "mapped r s w = (if user_page w \<and> bit (pte_at (mem s) r (vpath w)) 0
     then Some (pte_phys (pte_at (mem s) r (vpath w)), page_flags_from_arch (pte_at (mem s) r (vpath w)))
     else None)"

text \<open>All page table entries on the way to a user page allow user mode access and writing.\<close>

definition pt_user :: "usize set \<Rightarrow> mmu \<Rightarrow> bool" where
  "pt_user R s \<longleftrightarrow> (\<forall>r \<in> R. \<forall>q. user_path q \<longrightarrow> q \<noteq> [] \<longrightarrow> length q \<le> 3 \<longrightarrow> bit (pte_at (mem s) r q) 0 \<longrightarrow>
     bit (pte_at (mem s) r q) 1 \<and> bit (pte_at (mem s) r q) 2 \<and> \<not> bit (pte_at (mem s) r q) 7)"

definition vm_inv :: "usize set \<Rightarrow> usize \<Rightarrow> mmu \<Rightarrow> bool" where
  "vm_inv R r s \<longleftrightarrow> r \<in> R \<and> pt_inv R s \<and> pt_user R s"

lemma user_page_path: "user_page w \<Longrightarrow> user_path (vpath w)"
  by (rule user_path_vpath) (simp add: user_page_def)

lemma mapped_pte_updated:
  assumes "pte_updated R r (vpath v) e s s'" "r \<in> R" "user_page v"
  shows "mapped r s' = (mapped r s)(v := if bit e 0 then Some (pte_phys e, page_flags_from_arch e) else None)"
proof
  fix w
  show "mapped r s' w = ((mapped r s)(v := if bit e 0 then Some (pte_phys e, page_flags_from_arch e) else None)) w"
  proof (cases "user_page w")
    case True
    then have "pte_at (mem s') r (vpath w) = (if w = v then e else pte_at (mem s) r (vpath w))"
      using assms vpath_inj [of w v] user_page_path [OF True] by (auto simp: pte_updated_def)
    then show ?thesis using True by (cases "w = v") (simp_all add: mapped_def)
  qed (use assms(3) in \<open>auto simp: mapped_def\<close>)
qed

lemma mapped_other_space:
  assumes "pte_updated R r q e s s'" "r' \<in> R" "r' \<noteq> r"
  shows "mapped r' s' = mapped r' s"
proof
  fix w
  have "pte_at (mem s') r' (vpath w) = pte_at (mem s) r' (vpath w)" if "user_page w"
    using assms user_page_path [OF that] by (simp add: pte_updated_def)
  then show "mapped r' s' w = mapped r' s w" by (cases "user_page w") (simp_all add: mapped_def)
qed

lemma tables_leaf_updated:
  assumes "pte_updated R r q e s s'" "length q = 4"
  shows "tables R s' = tables R s"
proof -
  have "q \<noteq> []" using assms(2) by auto
  then have "r' \<in> R \<Longrightarrow> user_path q' \<Longrightarrow> length q' \<le> 3 \<Longrightarrow> node_at (mem s') r' q' = node_at (mem s) r' q'" for r' q'
    using pte_updated_node [OF assms(1), of r' q'] assms(2) by auto
  then show ?thesis unfolding tables_def by (intro Collect_cong bex_cong refl ex_cong1 conj_cong) simp_all
qed

lemma pt_user_leaf_updated: "pte_updated R r q e s s' \<Longrightarrow> length q = 4 \<Longrightarrow> pt_user R s \<Longrightarrow> pt_user R s'"
  by (auto simp: pt_user_def pte_updated_def)

lemma pt_user_grown: "grown R r flags T s s' \<Longrightarrow> bit flags 2 \<Longrightarrow> pt_user R s \<Longrightarrow> pt_user R s'"
  unfolding pt_user_def grown_def table_entry_def by metis

lemma mapped_grown:
  assumes "grown R r flags T s s'" "r' \<in> R"
  shows "mapped r' s' = mapped r' s"
proof
  fix w
  have "pte_at (mem s') r' (vpath w) = pte_at (mem s) r' (vpath w)" if "user_page w"
    using assms user_page_path [OF that] unfolding grown_def by force
  then show "mapped r' s' w = mapped r' s w" by (cases "user_page w") (simp_all add: mapped_def)
qed

lemma mapped_frames:
  assumes "r \<in> R" "mapped r s w = Some (f, a)"
  shows "node_at (mem s) r (vpath w) = Some f" "f \<in> frames R s"
proof -
  have "user_page w" "bit (pte_at (mem s) r (vpath w)) 0" "pte_phys (pte_at (mem s) r (vpath w)) = f"
    using assms(2) by (auto simp: mapped_def split: if_splits)
  then show "node_at (mem s) r (vpath w) = Some f" by (simp add: node_at_pte)
  then show "f \<in> frames R s" using assms(1) user_page_path [OF \<open>user_page w\<close>] by (rule framesI [rotated 2])
qed

lemma mapped_not_table:
  assumes "pt_inv R s" "r \<in> R" "mapped r s w = Some (f, a)"
  shows "f \<notin> tables R s"
proof
  assume "f \<in> tables R s"
  then obtain r' q where q: "r' \<in> R" "user_path q" "length q \<le> 3" "node_at (mem s) r' q = Some f" by (rule tablesE)
  have "user_path (vpath w)" using assms(3) by (auto simp: mapped_def user_page_path split: if_splits)
  then have "q = vpath w"
    using pt_inv_inj [OF assms(1) q(1) assms(2) q(2) _ q(4)] mapped_frames(1) [OF assms(2,3)] by blast
  then show False using q(3) by simp
qed

lemma node_mapped: "user_page w \<Longrightarrow> node_at (mem s) r (vpath w) = map_option fst (mapped r s w)"
  by (simp add: mapped_def node_at_pte)

definition zeroed :: "mmu \<Rightarrow> usize \<Rightarrow> bool" where
  "zeroed s g \<longleftrightarrow> PAGE_SIZE dvd g \<and> (\<forall>j<512. read_entry (mem s) g j = 0)"

subsection \<open>Unmapping a range\<close>

definition unmap_range :: "usize \<Rightarrow> usize \<Rightarrow> usize \<Rightarrow> mmu \<Rightarrow> mmu" where
  "unmap_range root_phys start_virt count s =
    (let aligned_start = align_down start_virt PAGE_SIZE in
     fold (\<lambda>i s. case Option.bind (checked_mul i PAGE_SIZE) (checked_add aligned_start) of
                   Some page_vaddr \<Rightarrow> unmap_and_free root_phys page_vaddr s
                 | None \<Rightarrow> s) [0..<count] s)"

lemma unmap_one:
  assumes "vm_inv R r s" "user_page v" "s' = unmap_and_free r v s"
  shows "vm_inv R r s' \<and> tables R s' = tables R s \<and> mapped r s' = (mapped r s)(v := None)
    \<and> avail_addrs (pmm s') = avail_addrs (pmm s) \<union> fst ` set_option (mapped r s v)
    \<and> (\<forall>r' \<in> R. r' \<noteq> r \<longrightarrow> mapped r' s' = mapped r' s)"
proof -
  have v: "v < USER_SPACE_END" and r: "r \<in> R" using assms(1,2) by (auto simp: user_page_def vm_inv_def)
  let ?e = "if bit (pte_at (mem s) r (vpath v)) 0 then 0 else pte_at (mem s) r (vpath v)"
  have "pt_inv R s" using assms(1) by (simp add: vm_inv_def)
  note spec = unmap_and_free_spec [OF this r v assms(3)]
  then have upd: "pte_updated R r (vpath v) ?e s s'" by blast
  have "vm_inv R r s'" using spec assms(1) pt_user_leaf_updated [OF upd] by (simp add: vm_inv_def)
  moreover have "mapped r s' = (mapped r s)(v := None)" using mapped_pte_updated [OF upd r assms(2)] by auto
  moreover have "set_option (node_at (mem s) r (vpath v)) = fst ` set_option (mapped r s v)"
    using node_mapped [OF assms(2)] by (simp add: option.set_map)
  ultimately show ?thesis using spec tables_leaf_updated [OF upd] mapped_other_space [OF upd] by simp
qed

lemma fst_ran_restrict: "fst ` ran (m |` A) = {f. \<exists>w \<in> A. \<exists>a. m w = Some (f, a)}"
proof (intro set_eqI iffI)
  fix f
  show "f \<in> fst ` ran (m |` A) \<Longrightarrow> f \<in> {f. \<exists>w \<in> A. \<exists>a. m w = Some (f, a)}"
    by (auto simp: ran_def restrict_map_def split: if_splits) blast
  assume "f \<in> {f. \<exists>w \<in> A. \<exists>a. m w = Some (f, a)}"
  then obtain w a where "w \<in> A" "m w = Some (f, a)" by auto
  then have "(f, a) \<in> ran (m |` A)" by (auto simp: ran_def restrict_map_def)
  then show "f \<in> fst ` ran (m |` A)" by force
qed

lemma user_page_bound: "user_page v \<Longrightarrow> v < USIZE_LIMIT"
  by (simp add: user_page_def USER_SPACE_END_def USIZE_LIMIT_def)

lemma unmap_range_spec:
  assumes "vm_inv R r s" "\<forall>i<n. user_page (v + i * PAGE_SIZE)" "s' = unmap_range r v n s"
  shows "vm_inv R r s' \<and> tables R s' = tables R s \<and> mapped r s' = mapped r s |` (- set (page_range v n))
    \<and> avail_addrs (pmm s') = avail_addrs (pmm s) \<union> fst ` ran (mapped r s |` set (page_range v n))
    \<and> (\<forall>r' \<in> R. r' \<noteq> r \<longrightarrow> mapped r' s' = mapped r' s)"
  using assms(2,3)
proof (induction n arbitrary: s')
  case 0
  then show ?case using assms(1) by (simp add: unmap_range_def ran_def)
next
  case (Suc n)
  have up: "user_page v" "user_page (v + n * PAGE_SIZE)" using Suc.prems(1) by (force, blast)
  have al: "align_down v PAGE_SIZE = v" using up(1) by (simp add: user_page_def align_down_def)
  have "v + n * PAGE_SIZE < USIZE_LIMIT" using user_page_bound [OF up(2)] .
  then have ok: "Option.bind (checked_mul n PAGE_SIZE) (checked_add v) = Some (v + n * PAGE_SIZE)"
    by (simp add: checked_mul_def checked_add_def)
  let ?s1 = "unmap_range r v n s"
  have IH: "vm_inv R r ?s1" "tables R ?s1 = tables R s" "mapped r ?s1 = mapped r s |` (- set (page_range v n))"
    "avail_addrs (pmm ?s1) = avail_addrs (pmm s) \<union> fst ` ran (mapped r s |` set (page_range v n))"
    "\<forall>r' \<in> R. r' \<noteq> r \<longrightarrow> mapped r' ?s1 = mapped r' s"
    using Suc.IH [OF _ refl] Suc.prems(1) by auto
  have s': "s' = unmap_and_free r (v + n * PAGE_SIZE) ?s1"
    using Suc.prems(2) ok by (simp add: unmap_range_def al)
  note one = unmap_one [OF IH(1) up(2) s']
  have last: "mapped r ?s1 (v + n * PAGE_SIZE) = mapped r s (v + n * PAGE_SIZE)"
    using IH(3) page_range_later [of n n v] by (simp add: restrict_map_def)
  have "mapped r s' = mapped r s |` (- set (page_range v (Suc n)))"
    using one IH(3) by (auto simp: page_range_Suc restrict_map_def fun_eq_iff)
  moreover have "avail_addrs (pmm s') = avail_addrs (pmm s) \<union> fst ` ran (mapped r s |` set (page_range v (Suc n)))"
    using one IH(4) last unfolding fst_ran_restrict page_range_Suc by (auto simp: image_iff)
  ultimately show ?case using one IH by auto
qed

subsection \<open>The kernel's allocator and mapper\<close>

text \<open>
  The adapters \<open>KernelPmmAllocator\<close> and \<open>VmSpaceMapper\<close> of \<^verbatim>\<open>kernel/src/services/posix/mem.rs\<close>, for the
  address space with root \<open>r\<close>.
\<close>

definition kernel_alloc_frame :: "mmu \<Rightarrow> usize option \<times> mmu" where
  "kernel_alloc_frame s = (case alloc_frame (pmm s) of (a, x) \<Rightarrow> (a, s\<lparr>pmm := x\<rparr>))"

definition vm_ops :: "usize \<Rightarrow> mmu mm_ops" where
  "vm_ops r = \<lparr>
     op_alloc_frame = kernel_alloc_frame,
     op_free_frame = (\<lambda>s frame. pool_free frame s),
     op_map_page = (\<lambda>s vaddr frame prot. map_page r vaddr frame (from_prot prot) s),
     op_unmap_range = (\<lambda>s start_vaddr count. unmap_range r start_vaddr count s),
     op_zero_frame = (\<lambda>s frame. zero_phys_frame frame s) \<rparr>"

lemma vm_ops_simps [simp]:
  "op_alloc_frame (vm_ops r) = kernel_alloc_frame"
  "op_free_frame (vm_ops r) s f = pool_free f s"
  "op_map_page (vm_ops r) s v f p = map_page r v f (from_prot p) s"
  "op_unmap_range (vm_ops r) s v n = unmap_range r v n s"
  "op_zero_frame (vm_ops r) s f = zero_phys_frame f s"
  by (simp_all add: vm_ops_def)

abbreviation pool :: "mmu \<Rightarrow> usize set" where
  "pool s \<equiv> avail_addrs (pmm s)"

abbreviation unreferenced :: "usize set \<Rightarrow> mmu \<Rightarrow> usize set" where
  "unreferenced R s \<equiv> managed_addrs (pmm s) - frames R s"

lemma mem_only [simp]:
  "mapped r (s\<lparr>pmm := x\<rparr>) = mapped r s" "tables R (s\<lparr>pmm := x\<rparr>) = tables R s"
  "zeroed (s\<lparr>pmm := x\<rparr>) = zeroed s" "pt_user R (s\<lparr>pmm := x\<rparr>) = pt_user R s"
  by (simp_all add: mapped_def tables_def zeroed_def pt_user_def fun_eq_iff)

lemma kernel_alloc_Some:
  assumes "vm_inv R r s" "kernel_alloc_frame s = (Some p, s')"
  shows "p \<in> pool s \<and> pool s' = pool s - {p} \<and> unreferenced R s' = unreferenced R s \<and> vm_inv R r s'"
proof -
  obtain x where x: "alloc_frame (pmm s) = (Some p, x)" "s' = s\<lparr>pmm := x\<rparr>"
    using assms(2) by (auto simp: kernel_alloc_frame_def split: prod.splits)
  note f = alloc_fresh [OF _ x(1), of R]
  show ?thesis using f assms(1) x(2) by (auto simp: vm_inv_def managed_addrs_def)
qed

lemma pool_free_spec:
  assumes "vm_inv R r s" "p \<in> unreferenced R s"
  shows "pool (pool_free p s) = insert p (pool s) \<and> unreferenced R (pool_free p s) = unreferenced R s
    \<and> vm_inv R r (pool_free p s)"
proof -
  have inv: "pt_inv R s" "pmm_ok (pmm s)" using assms(1) by (auto simp: vm_inv_def pt_inv_def)
  note f = free_frame_managed [OF inv(2), of p]
  have "total_frames (free_frame (pmm s) p) = total_frames (pmm s)" by (simp add: free_frame_def Let_def)
  moreover have "frames R s \<inter> avail_addrs (free_frame (pmm s) p) = {}"
    using f assms(2) inv(1) by (auto simp: pt_inv_def)
  ultimately have "pt_inv R (pool_free p s)"
    using f assms(2) inv(1) unfolding pool_free_def by (intro pt_inv_pmm) auto
  then show ?thesis using f assms by (simp add: pool_free_def vm_inv_def)
qed

lemma zero_mapped_frame:
  assumes "vm_inv R r s" "mapped r s v = Some (f, a)" "s' = zero_phys_frame f s"
  shows "vm_inv R r s' \<and> mapped r s' = mapped r s \<and> tables R s' = tables R s \<and> pmm s' = pmm s
    \<and> frames R s' = frames R s \<and> zeroed s' f \<and> (\<forall>g. zeroed s g \<longrightarrow> zeroed s' g)"
proof -
  have inv: "pt_inv R s" "r \<in> R" using assms(1) by (auto simp: vm_inv_def)
  have f: "PAGE_SIZE dvd f" "f \<notin> tables R s"
    using frames_page [OF inv(1) mapped_frames(2) [OF inv(2) assms(2)]] mapped_not_table [OF inv assms(2)] by auto
  note zero = pt_inv_zero [OF inv(1) f(2,1)]
  have pte: "pte_at (mem s') r' q = pte_at (mem s) r' q" if "r' \<in> R" "user_path q" "q \<noteq> []" for r' q
    using pte_at_zero_frame [OF inv(1) f(2,1) that] by (simp add: assms(3))
  have "mapped r s' = mapped r s"
    using pte [OF inv(2) user_page_path] by (intro ext) (simp add: mapped_def cong: conj_cong if_cong)
  moreover have "pt_user R s'" using assms(1) pte by (simp add: vm_inv_def pt_user_def)
  moreover have "zeroed s' f \<and> (\<forall>g. zeroed s g \<longrightarrow> zeroed s' g)"
    using f(1) read_zero_frame [OF f(1)] by (simp add: zeroed_def assms(3))
  moreover have "pmm s' = pmm s" by (simp add: assms(3) zero_phys_frame_def)
  ultimately show ?thesis using zero inv(2) assms(3) by (simp add: vm_inv_def)
qed

lemma vm_map_page:
  assumes "vm_inv R r s" "user_page v" "f \<in> unreferenced R s - pool s" "pf_user fl"
    and "map_page r v f fl s = (ok, s')"
  shows "\<exists>T. T \<subseteq> pool s \<and> vm_inv R r s' \<and> pool s' = pool s - T \<and> tables R s' = tables R s \<union> T
    \<and> (if ok then mapped r s' = (mapped r s)(v \<mapsto> (f, fl\<lparr>pf_present := True\<rparr>)) \<and> card T \<le> 3
       else mapped r s' = mapped r s \<and> f \<in> unreferenced R s' \<and> pool s' = {} \<and> card T \<le> 2)
    \<and> (\<forall>g. g \<notin> T \<longrightarrow> g \<notin> tables R s \<longrightarrow> zeroed s g \<longrightarrow> zeroed s' g)
    \<and> (\<forall>r' \<in> R. r' \<noteq> r \<longrightarrow> mapped r' s' = mapped r' s)"
proof -
  have inv: "pt_inv R s" "r \<in> R" "pt_user R s" using assms(1) by (auto simp: vm_inv_def)
  have v: "v < USER_SPACE_END" using assms(2) by (simp add: user_page_def)
  let ?fl = "page_flags_to_arch fl OR PAGE_PRESENT"
  from map_page_spec [OF inv(1,2) v _ _ assms(5)] assms(3)
  obtain T s1 where g: "grown R r ?fl T s s1" and inv': "pt_inv R s'" "pmm s' = pmm s1"
    and cT: "card T \<le> (if ok then 3 else 2)"
    and res: "if ok then pte_updated R r (vpath v) (leaf_entry f fl) s1 s'
         \<and> (\<forall>g. PAGE_SIZE dvd g \<longrightarrow> g \<notin> tables R s1 \<longrightarrow> (\<forall>j<512. read_entry (mem s') g j = read_entry (mem s1) g j))
       else s' = s1 \<and> pool s1 = {}" by auto
  have "bit ?fl 2" using assms(4) by (simp add: bit_or_iff bit_page_flags_to_arch)
  then have user1: "pt_user R s1" using pt_user_grown [OF g] inv(3) by simp
  have g': "T \<subseteq> pool s" "pool s1 = pool s - T" "tables R s1 = tables R s \<union> T" "frames R s1 = frames R s \<union> T"
    "managed_addrs (pmm s1) = managed_addrs (pmm s)"
    "\<And>g. PAGE_SIZE dvd g \<Longrightarrow> g \<notin> tables R s \<Longrightarrow> g \<notin> T \<Longrightarrow> \<forall>j<512. read_entry (mem s1) g j = read_entry (mem s) g j"
    using g by (auto simp: grown_def managed_addrs_def)
  show ?thesis
  proof (cases ok)
    case False
    then have "s' = s1" "pool s1 = {}" using res by simp_all
    then show ?thesis using False cT g' inv' user1 inv(2) mapped_grown [OF g] assms(3)
      by (intro exI [of _ T]) (auto simp: vm_inv_def zeroed_def)
  next
    case True
    then have upd: "pte_updated R r (vpath v) (leaf_entry f fl) s1 s'"
      and keep: "\<And>g. PAGE_SIZE dvd g \<Longrightarrow> g \<notin> tables R s1 \<Longrightarrow> \<forall>j<512. read_entry (mem s') g j = read_entry (mem s1) g j"
      using res by auto
    have f: "PAGE_SIZE dvd f" "f < 2 ^ 52" using managed_addrs_page [OF inv(1), of f] assms(3) by auto
    have "mapped r s' = (mapped r s)(v \<mapsto> (f, fl\<lparr>pf_present := True\<rparr>))"
      using mapped_pte_updated [OF upd inv(2) assms(2)] mapped_grown [OF g inv(2)] leaf_entry [OF f, of fl] by simp
    moreover have "vm_inv R r s'"
      using inv'(1) inv(2) pt_user_leaf_updated [OF upd] user1 by (simp add: vm_inv_def)
    moreover have "\<forall>r' \<in> R. r' \<noteq> r \<longrightarrow> mapped r' s' = mapped r' s"
      using mapped_other_space [OF upd] mapped_grown [OF g] by simp
    moreover have "tables R s' = tables R s1" using tables_leaf_updated [OF upd] by simp
    moreover have "zeroed s' g" if "g \<notin> T" "g \<notin> tables R s" "zeroed s g" for g
      using that keep [of g] g'(3) g'(6) [of g] by (simp add: zeroed_def)
    ultimately show ?thesis using True cT g' inv'(2) by (intro exI [of _ T]) auto
  qed
qed

lemma vm_mapper:
  assumes "vm_inv R r s" "user_page v" "f \<in> unreferenced R s - pool s"
    and "map_page r v f (from_prot prot) s = (ok, s')"
  shows "\<exists>T. T \<subseteq> pool s \<and> vm_inv R r s' \<and> pool s' = pool s - T \<and> tables R s' = tables R s \<union> T
    \<and> (if ok then mapped r s' = (mapped r s)(v \<mapsto> (f, from_prot prot)) \<and> card T \<le> 3
       else mapped r s' = mapped r s \<and> f \<in> unreferenced R s' \<and> pool s' = {} \<and> card T \<le> 2)
    \<and> (\<forall>g. g \<notin> T \<longrightarrow> g \<notin> tables R s \<longrightarrow> zeroed s g \<longrightarrow> zeroed s' g)"
proof -
  have "pf_user (from_prot prot)" "(from_prot prot)\<lparr>pf_present := True\<rparr> = from_prot prot"
    by (simp_all add: from_prot_def)
  then show ?thesis using vm_map_page [OF assms(1-3) _ assms(4)] by metis
qed

lemma pool_disjoint:
  assumes "vm_inv R r s"
  shows "pool s \<subseteq> unreferenced R s" "finite (pool s)" "tables R s \<inter> pool s = {}"
proof -
  have "pt_inv R s" "frames R s \<subseteq> managed_addrs (pmm s) - pool s" using assms by (auto simp: vm_inv_def pt_inv_def)
  then show "pool s \<subseteq> unreferenced R s" "finite (pool s)" "tables R s \<inter> pool s = {}"
    using avail_subset_managed [of R s] tables_frames [of R s] by (auto simp: avail_addrs_def)
qed

interpretation vm: mm_backend "vm_inv R r" pool "unreferenced R" "vm_ops r" "mapped r" "tables R" zeroed
    from_prot user_page for R r
proof (unfold_locales, goal_cases)
  case (1 s p s')
  then show ?case by (simp add: kernel_alloc_Some)
next
  case (2 s s')
  then show ?case using pmm_alloc.alloc_None [of "pmm s"]
    by (auto simp: kernel_alloc_frame_def vm_inv_def pt_inv_def split: prod.splits)
next
  case (3 s p)
  then show ?case by (simp add: pool_free_spec)
next
  case (4 s)
  then show ?case by (rule pool_disjoint)
next
  case (5 s)
  then show ?case by (rule pool_disjoint)
next
  case (6 s a s')
  then show ?case by (auto simp: kernel_alloc_frame_def split: prod.splits)
next
  case (7 s p s')
  then show ?case by (simp add: pool_free_def)
next
  case (8 s v f a s')
  have "s' = zero_phys_frame f s" using 8(3) by simp
  from zero_mapped_frame [OF 8(1,2) this] show ?case by (elim conjE, intro conjI) (assumption | simp only:)+
next
  case (9 s v f prot ok s')
  then have "map_page r v f (from_prot prot) s = (ok, s')" by simp
  with 9(1-3) show ?case by (rule vm_mapper)
next
  case (10 s n v s')
  then have "s' = unmap_range r v n s" by simp
  from unmap_range_spec [OF 10(1,2) this] show ?case by blast
next
  case (11 s v f a)
  then show ?case
    using mapped_frames(2) [OF _ 11(2), of R] mapped_not_table [OF _ _ 11(2), of R] by (auto simp: vm_inv_def pt_inv_def)
next
  case (12 s)
  then show ?case by (rule pool_disjoint)
qed

subsection \<open>Tearing down an address space\<close>

definition below :: "(usize \<Rightarrow> u64) \<Rightarrow> nat \<Rightarrow> usize \<Rightarrow> usize list \<Rightarrow> usize set" where
  "below m level table idxs =
    {t. \<exists>i \<in> set idxs. \<exists>q. length q < level \<and> (\<forall>j \<in> set q. j < 512) \<and> node_at m table (i # q) = Some t}"

lemma below_0 [simp]: "below m 0 table idxs = {}" "below m level table [] = {}"
  by (simp_all add: below_def)

lemma below_Cons: "below m level table (i # is) = below m level table [i] \<union> below m level table is"
  by (auto simp: below_def)

lemma below_single:
  "below m (Suc l) table [i] = (case get_table m table i of None \<Rightarrow> {} | Some t \<Rightarrow> insert t (below m l t [0..<512]))"
proof (cases "get_table m table i")
  case (Some t)
  have "x \<in> below m (Suc l) table [i] \<longleftrightarrow> x = t \<or> x \<in> below m l t [0..<512]" for x
  proof
    assume "x \<in> below m (Suc l) table [i]"
    then obtain q where q: "length q < Suc l" "\<forall>j \<in> set q. j < 512" "node_at m t q = Some x"
      using Some by (auto simp: below_def)
    then show "x = t \<or> x \<in> below m l t [0..<512]"
    proof (cases q)
      case (Cons k q')
      then have "k \<in> set [0..<512] \<and> length q' < l \<and> (\<forall>j \<in> set q'. j < 512) \<and> node_at m t (k # q') = Some x"
        using q by simp
      then show ?thesis unfolding below_def by blast
    qed simp
  next
    assume "x = t \<or> x \<in> below m l t [0..<512]"
    then consider "x = t" | k q where "k < 512" "length q < l" "\<forall>j \<in> set q. j < 512" "node_at m t (k # q) = Some x"
      by (auto simp: below_def)
    then have "\<exists>q. length q < Suc l \<and> (\<forall>j \<in> set q. j < 512) \<and> node_at m t q = Some x"
    proof cases
      case 1
      then show ?thesis by (intro exI [of _ "[]"]) simp
    next
      case (2 k q)
      then show ?thesis by (intro exI [of _ "k # q"]) simp
    qed
    then show "x \<in> below m (Suc l) table [i]" using Some by (simp add: below_def)
  qed
  then show ?thesis using Some by auto
qed (simp add: below_def)

definition released :: "mmu \<Rightarrow> usize set \<Rightarrow> mmu \<Rightarrow> bool" where
  "released s F s' \<longleftrightarrow> mem s' = mem s \<and> pmm_ok (pmm s') \<and> total_frames (pmm s') = total_frames (pmm s)
    \<and> avail_addrs (pmm s') = avail_addrs (pmm s) \<union> F"

lemma released_trans: "released s F s1 \<Longrightarrow> released s1 G s2 \<Longrightarrow> released s (F \<union> G) s2"
  by (auto simp: released_def)

lemma released_managed: "released s F s' \<Longrightarrow> managed_addrs (pmm s') = managed_addrs (pmm s)"
  by (simp add: released_def managed_addrs_def)

lemma released_pool_free:
  assumes "pmm_ok (pmm s)" "t \<in> managed_addrs (pmm s)"
  shows "released s {t} (pool_free t s)"
  using free_frame_managed [OF assms] by (simp add: released_def pool_free_def free_frame_def Let_def)

lemma free_below_spec:
  assumes "pmm_ok (pmm s)" "below (mem s) level table idxs \<subseteq> managed_addrs (pmm s)"
  shows "released s (below (mem s) level table idxs) (free_below level table idxs s)"
  using assms
proof (induction level arbitrary: table idxs s)
  case 0
  then show ?case by (simp add: released_def)
next
  case (Suc l)
  show ?case
    using Suc.prems
  proof (induction idxs arbitrary: s)
    case Nil
    then show ?case by (simp add: released_def)
  next
    case (Cons i idxs)
    let ?B = "below (mem s) (Suc l) table [i]" and ?s1 = "free_below (Suc l) table [i] s"
    have sub: "?B \<subseteq> managed_addrs (pmm s)" "below (mem s) (Suc l) table idxs \<subseteq> managed_addrs (pmm s)"
      using Cons.prems(2) by (simp_all add: below_Cons [of _ _ _ i idxs])
    have one: "released s ?B ?s1"
    proof (cases "get_table (mem s) table i")
      case None
      then show ?thesis using Cons.prems(1) by (simp add: below_single get_table_def released_def split: if_splits)
    next
      case (Some t)
      then have B: "?B = insert t (below (mem s) l t [0..<512])" by (simp add: below_single)
      then have "released s (below (mem s) l t [0..<512]) (free_below l t [0..<512] s)"
        using sub(1) Cons.prems(1) by (intro Suc.IH) auto
      moreover from this have "released (free_below l t [0..<512] s) {t} (pool_free t (free_below l t [0..<512] s))"
        using sub(1) B released_managed by (intro released_pool_free) (auto simp: released_def)
      moreover have "?s1 = pool_free t (free_below l t [0..<512] s)"
        using Some by (auto simp: get_table_def Let_def split: if_splits)
      ultimately show ?thesis using B released_trans by fastforce
    qed
    have m1: "mem ?s1 = mem s" "pmm_ok (pmm ?s1)" using one by (simp_all add: released_def)
    have "released ?s1 (below (mem ?s1) (Suc l) table idxs) (free_below (Suc l) table idxs ?s1)"
      using m1 sub(2) released_managed [OF one] by (intro Cons.IH) auto
    then have "released s (?B \<union> below (mem s) (Suc l) table idxs) (free_below (Suc l) table idxs ?s1)"
      using released_trans [OF one] m1(1) by simp
    moreover have "free_below (Suc l) table (i # idxs) s = free_below (Suc l) table idxs ?s1" by simp
    ultimately show ?case by (simp add: below_Cons [of _ _ _ i idxs])
  qed
qed

lemma frames_root: "frames {r} s = insert r (below (mem s) 4 r [0..<256])"
proof (intro set_eqI iffI)
  fix t assume "t \<in> frames {r} s"
  then obtain q where q: "user_path q" "node_at (mem s) r q = Some t" by (auto simp: frames_def)
  then show "t \<in> insert r (below (mem s) 4 r [0..<256])"
  proof (cases q)
    case (Cons i q')
    then have "i \<in> set [0..<256] \<and> length q' < 4 \<and> (\<forall>j \<in> set q'. j < 512) \<and> node_at (mem s) r (i # q') = Some t"
      using q by (auto simp: user_path_def)
    then show ?thesis unfolding below_def by blast
  qed simp
next
  fix t assume "t \<in> insert r (below (mem s) 4 r [0..<256])"
  then consider "t = r" | i q where "i < 256" "length q < 4" "\<forall>j \<in> set q. j < 512" "node_at (mem s) r (i # q) = Some t"
    by (auto simp: below_def)
  then show "t \<in> frames {r} s"
  proof cases
    case 1
    then show ?thesis by (auto intro: framesI [of r _ "[]"])
  next
    case (2 i q)
    then have "user_path (i # q)" by (auto simp: user_path_def)
    then show ?thesis using 2(4) by (auto intro: framesI)
  qed
qed

lemma free_page_table_hierarchy_spec:
  assumes "pt_inv R s" "r \<in> R"
  shows "released s (frames {r} s) (free_page_table_hierarchy r s)"
proof -
  have ok: "pmm_ok (pmm s)" using assms(1) by (simp add: pt_inv_def)
  have "frames {r} s \<subseteq> frames R s" using assms(2) by (auto simp: frames_def)
  then have mg: "frames {r} s \<subseteq> managed_addrs (pmm s)" using assms(1) by (auto simp: pt_inv_def)
  let ?s1 = "free_below 4 r [0..<256] s"
  have one: "released s (below (mem s) 4 r [0..<256]) ?s1"
    using ok mg frames_root by (intro free_below_spec) auto
  then have "released ?s1 {r} (pool_free r ?s1)"
    using mg frames_root released_managed [OF one] by (intro released_pool_free) (auto simp: released_def)
  from released_trans [OF one this] show ?thesis
    by (simp add: frames_root free_page_table_hierarchy_def)
qed

subsection \<open>Changing the protection of a page\<close>

lemma set_page_flags_spec:
  assumes "vm_inv R r s" "user_page v" "s' = set_page_flags r v fl s"
  shows "vm_inv R r s' \<and> pool s' = pool s \<and> tables R s' = tables R s
    \<and> mapped r s' = (mapped r s)(v := map_option (\<lambda>(f, _). (f, fl\<lparr>pf_present := True\<rparr>)) (mapped r s v))
    \<and> (\<forall>r' \<in> R. r' \<noteq> r \<longrightarrow> mapped r' s' = mapped r' s)"
proof (cases "bit (pte_at (mem s) r (vpath v)) 0")
  case False
  then have "s' = s"
    by (cases "walk_to_pt (mem s) r v")
      (auto simp: assms(3) set_page_flags_def pte_at_vpath pte_bit_iff Let_def)
  moreover have "mapped r s v = None" using False by (simp add: mapped_def)
  ultimately show ?thesis using assms(1) by (simp add: fun_upd_idem)
next
  case True
  have inv: "pt_inv R s" "r \<in> R" "pt_user R s" using assms(1) by (auto simp: vm_inv_def)
  have v: "v < USER_SPACE_END" using assms(2) by (simp add: user_page_def)
  let ?e = "pte_at (mem s) r (vpath v)"
  let ?f = "pte_phys ?e"
  obtain t where t: "walk_to_pt (mem s) r v = Some t"
    using True pte_at_vpath_None [of "mem s" r v] by (cases "walk_to_pt (mem s) r v") auto
  have s': "s' = write_entry t (pt_idx_of v) (leaf_entry ?f fl) s"
    using True t by (simp add: assms(3) set_page_flags_def pte_at_vpath pte_bit_iff Let_def leaf_entry_def)
  have node: "node_at (mem s) r (vpath v) = Some ?f" using True by (simp add: node_at_pte)
  have fr: "?f \<in> frames R s" using framesI [OF inv(2) user_page_path [OF assms(2)] node] .
  have f: "PAGE_SIZE dvd ?f" "?f < 2 ^ 52" using frames_page [OF inv(1) fr] by auto
  have upd: "pte_updated R r (vpath v) (leaf_entry ?f fl) s s'"
    unfolding s' by (rule write_leaf_walk(1) [OF inv(1,2) v t])
  have pm: "pmm s' = pmm s" by (simp add: s' write_entry_def)
  have "pt_inv R s'"
    using inv(1) fr leaf_entry(2) [OF f, of fl] node user_page_path [OF assms(2)]
    by (intro pt_inv_pte_updated [OF inv(1) upd inv(2)]) (auto simp: pm pt_inv_def)
  then have "vm_inv R r s'" using inv pt_user_leaf_updated [OF upd] by (simp add: vm_inv_def)
  moreover have "mapped r s v = Some (?f, page_flags_from_arch ?e)" using True assms(2) by (simp add: mapped_def)
  then have "mapped r s' = (mapped r s)(v := map_option (\<lambda>(f, _). (f, fl\<lparr>pf_present := True\<rparr>)) (mapped r s v))"
    using mapped_pte_updated [OF upd inv(2) assms(2)] leaf_entry [OF f, of fl] by simp
  ultimately show ?thesis using pm tables_leaf_updated [OF upd] mapped_other_space [OF upd] by simp
qed

subsection \<open>Validation of user accesses\<close>

definition entry_check :: "u64 \<Rightarrow> bool \<Rightarrow> UserAccessError + unit \<Rightarrow> UserAccessError + unit" where
  "entry_check e need_write k =
    (if \<not> bit e 0 \<or> \<not> bit e 2 then Inl NotMapped
     else if need_write \<and> \<not> bit e 1 then Inl NotWritable else k)"

lemma validate_levels_Suc:
  "validate_levels m (Suc l) t v w =
    (let e = read_entry m t (v div 2 ^ (12 + l * 9) mod 512) in
     entry_check e w (if l = 0 \<or> l \<le> 2 \<and> bit e 7 then Inr () else validate_levels m l (pte_phys e) v w))"
  unfolding validate_levels.simps(2) index_mask pte_bit_iff pte_phys_def [symmetric] entry_check_def Let_def
  by (cases l) simp_all

text \<open>The outcome that the mapping of the page alone would give.\<close>

definition access_check :: "(usize \<times> PageFlags) option \<Rightarrow> bool \<Rightarrow> UserAccessError + unit" where
  "access_check entry need_write = (case entry of
     None \<Rightarrow> Inl NotMapped
   | Some (f, a) \<Rightarrow> if \<not> pf_user a then Inl NotMapped
                   else if need_write \<and> \<not> pf_writable a then Inl NotWritable else Inr ())"

lemma vpath_page: "vpath (align_down v PAGE_SIZE) = vpath v"
proof -
  have "align_down v PAGE_SIZE = v div 2 ^ 12 * 2 ^ 12" by (simp add: align_down_def PAGE_SIZE_def)
  then have "align_down v PAGE_SIZE div 2 ^ (12 + k) = v div 2 ^ (12 + k)" for k
    by (simp add: power_add div_mult2_eq)
  from this [of 0] this [of 9] this [of 18] this [of 27] show ?thesis unfolding vpath_eq by simp
qed

lemma user_page_align_down: "v < USER_SPACE_END \<Longrightarrow> user_page (align_down v PAGE_SIZE)"
  using align_down_le [of v PAGE_SIZE] by (simp add: user_page_def)

lemma validate_user_page_mapped:
  assumes "vm_inv R r s" "v < USER_SPACE_END"
  shows "validate_user_page (mem s) r v w = access_check (mapped r s (align_down v PAGE_SIZE)) w"
proof -
  let ?m = "mem s"
  obtain i4 i3 i2 i1 where ix: "i4 = v div 2 ^ 39 mod 512" "i3 = v div 2 ^ 30 mod 512"
    "i2 = v div 2 ^ 21 mod 512" "i1 = v div 2 ^ 12 mod 512" by simp
  have vp: "vpath v = [i4, i3, i2, i1]" by (simp add: vpath_eq ix)
  have up: "user_path [i4]" "user_path [i4, i3]" "user_path [i4, i3, i2]"
    using user_path_vpath [OF assms(2)] by (auto simp: vp user_path_def)
  have user: "bit (pte_at ?m r q) 0 \<Longrightarrow> bit (pte_at ?m r q) 1 \<and> bit (pte_at ?m r q) 2 \<and> \<not> bit (pte_at ?m r q) 7"
    if "user_path q" "q \<noteq> []" "length q \<le> 3" for q using assms(1) that by (auto simp: vm_inv_def pt_user_def)
  have m: "mapped r s (align_down v PAGE_SIZE) = (if bit (pte_at ?m r (vpath v)) 0
      then Some (pte_phys (pte_at ?m r (vpath v)), page_flags_from_arch (pte_at ?m r (vpath v))) else None)"
    using user_page_align_down [OF assms(2)] by (simp add: mapped_def vpath_page)
  let ?e4 = "read_entry ?m r i4"
  let ?e3 = "read_entry ?m (pte_phys ?e4) i3"
  let ?e2 = "read_entry ?m (pte_phys ?e3) i2"
  let ?e1 = "read_entry ?m (pte_phys ?e2) i1"
  have "validate_user_page ?m r v w = validate_levels ?m (Suc (Suc (Suc (Suc 0)))) r v w"
    by (simp add: validate_user_page_def eval_nat_numeral)
  also have "\<dots> = entry_check ?e4 w (entry_check ?e3 w (if bit ?e3 7 then Inr () else
      entry_check ?e2 w (if bit ?e2 7 then Inr () else entry_check ?e1 w (Inr ()))))"
    unfolding validate_levels_Suc Let_def ix by simp
  finally have val: "validate_user_page ?m r v w = \<dots>" .
  have p4: "pte_at ?m r [i4] = ?e4" by (simp add: pte_at_def)
  have p3: "bit ?e4 0 \<Longrightarrow> pte_at ?m r [i4, i3] = ?e3" by (simp add: pte_at_def get_table_bit)
  have p2: "bit ?e4 0 \<Longrightarrow> bit ?e3 0 \<Longrightarrow> pte_at ?m r [i4, i3, i2] = ?e2" by (simp add: pte_at_def get_table_bit)
  have p1: "pte_at ?m r (vpath v) = (if bit ?e4 0 \<and> bit ?e3 0 \<and> bit ?e2 0 then ?e1 else 0)"
    by (simp add: vp pte_at_def get_table_bit)
  have u4: "bit ?e4 0 \<Longrightarrow> bit ?e4 1 \<and> bit ?e4 2 \<and> \<not> bit ?e4 7" using user [OF up(1)] p4 by simp
  have u3: "bit ?e4 0 \<Longrightarrow> bit ?e3 0 \<Longrightarrow> bit ?e3 1 \<and> bit ?e3 2 \<and> \<not> bit ?e3 7" using user [OF up(2)] p3 by simp
  have u2: "bit ?e4 0 \<Longrightarrow> bit ?e3 0 \<Longrightarrow> bit ?e2 0 \<Longrightarrow> bit ?e2 1 \<and> bit ?e2 2 \<and> \<not> bit ?e2 7" using user [OF up(3)] p2 by simp
  have chk: "bit e 1 \<Longrightarrow> bit e 2 \<Longrightarrow> entry_check e w k = (if bit e 0 then k else Inl NotMapped)" for e k
    by (simp add: entry_check_def)
  consider "\<not> bit ?e4 0" | "bit ?e4 0" "\<not> bit ?e3 0" | "bit ?e4 0" "bit ?e3 0" "\<not> bit ?e2 0"
    | "bit ?e4 0" "bit ?e3 0" "bit ?e2 0" by blast
  then show ?thesis
  proof cases
    case 4
    then have "validate_user_page ?m r v w = entry_check ?e1 w (Inr ())"
      unfolding val using u4 u3 u2 by (simp add: chk)
    moreover have "pte_at ?m r (vpath v) = ?e1" using 4 p1 by simp
    ultimately show ?thesis unfolding m
      by (simp add: access_check_def entry_check_def page_flags_from_arch_def pte_bit_iff)
  qed (use u4 u3 in \<open>simp_all add: val m p1 access_check_def entry_check_def\<close>)
qed


subsection \<open>Properties of the page tables\<close>

lemma translate_mapped:
  assumes "v < USER_SPACE_END"
  shows "translate (mem s) r v = map_option (\<lambda>(f, _). f + v mod PAGE_SIZE) (mapped r s (align_down v PAGE_SIZE))"
  using user_page_align_down [OF assms] by (simp add: translate_pte mapped_def vpath_page Let_def)

lemma page_split:
  assumes "user_page w" "off < PAGE_SIZE"
  shows "align_down (w + off) PAGE_SIZE = w" "(w + off) mod PAGE_SIZE = off" "w + off < USER_SPACE_END"
proof -
  obtain k where k: "w = k * PAGE_SIZE" using assms(1) by (auto simp: user_page_def)
  then show "align_down (w + off) PAGE_SIZE = w" "(w + off) mod PAGE_SIZE = off"
    using assms(2) by (simp_all add: align_down_def)
  have "k * PAGE_SIZE < 2 ^ 35 * PAGE_SIZE" using assms(1) k by (simp add: user_page_def USER_SPACE_END_def PAGE_SIZE_def)
  then have "Suc k * PAGE_SIZE \<le> 2 ^ 35 * PAGE_SIZE" by simp
  then show "w + off < USER_SPACE_END" using k assms(2) by (simp add: USER_SPACE_END_def PAGE_SIZE_def)
qed

lemma translate_page:
  "user_page w \<Longrightarrow> off < PAGE_SIZE \<Longrightarrow>
    translate (mem s) r (w + off) = map_option (\<lambda>(f, _). f + off) (mapped r s w)"
  using translate_mapped [of "w + off" s r] page_split [of w off] by simp

text \<open>
  C2: \<open>map_page\<close> installs exactly one translation. In a state whose address spaces share no frame, mapping
  the user page \<open>v\<close> of address space \<open>r\<close> to an unused frame \<open>f\<close> either succeeds, and then every byte of the
  page translates to the corresponding byte of \<open>f\<close>, or fails with the frame pool exhausted; in both
  cases every other page of \<open>r\<close> and every page of every other address space keeps its translation,
  whatever page tables were created on the way, and the address spaces still share no frame.
\<close>

theorem map_page_correct:
  assumes "vm_inv R r s" "user_page v" "pf_user fl"
    and "f \<in> managed_addrs (pmm s)" "f \<notin> frames R s" "f \<notin> avail_addrs (pmm s)"
  shows "case map_page r v f fl s of (ok, s') \<Rightarrow> vm_inv R r s'
    \<and> (\<forall>w off. user_page w \<and> off < PAGE_SIZE \<longrightarrow> translate (mem s') r (w + off) =
        (if ok \<and> w = v then Some (f + off) else translate (mem s) r (w + off)))
    \<and> (\<forall>r' \<in> R. \<forall>x < USER_SPACE_END. r' \<noteq> r \<longrightarrow> translate (mem s') r' x = translate (mem s) r' x)
    \<and> (ok \<or> avail_addrs (pmm s') = {})"
proof -
  obtain ok s' where call: "map_page r v f fl s = (ok, s')" by fastforce
  from vm_map_page [OF assms(1,2) _ assms(3) call] assms(4-6)
  have res: "vm_inv R r s'" "mapped r s' = (if ok then (mapped r s)(v \<mapsto> (f, fl\<lparr>pf_present := True\<rparr>)) else mapped r s)"
    "ok \<or> pool s' = {}" "\<forall>r' \<in> R. r' \<noteq> r \<longrightarrow> mapped r' s' = mapped r' s"
    by (auto split: if_splits)
  have "translate (mem s') r (w + off) = (if ok \<and> w = v then Some (f + off) else translate (mem s) r (w + off))"
    if "user_page w" "off < PAGE_SIZE" for w off
    using translate_page [OF that] res(2) by simp
  moreover have "translate (mem s') r' x = translate (mem s) r' x" if "r' \<in> R" "r' \<noteq> r" "x < USER_SPACE_END" for r' x
    using translate_mapped [OF that(3)] res(4) that by simp
  ultimately show ?thesis using call res by auto
qed

text \<open>A machine of sixteen frames with one empty address space, rooted in frame 2, for the witnesses.\<close>

definition demo_mmu :: mmu where
  "demo_mmu = \<lparr> pmm = \<lparr> bitmap = [7, 0], total_frames = 16, free_frames = 13, last_frame = 1 \<rparr>,
               mem = (\<lambda>_. 0) \<rparr>"

lemma demo_mmu_free: "free_set (pmm demo_mmu) = {3..<16}"
proof -
  have low: "\<forall>f<16. test_bit (pmm demo_mmu) f \<longleftrightarrow> f < 3" by code_simp
  have *: "(\<not> test_bit (pmm demo_mmu) f) = (f \<in> {3..<16})" for f
    using low by (cases "f < 16") (auto simp: test_bit_def demo_mmu_def)
  show ?thesis unfolding free_set_def * by (rule Collect_mem_eq)
qed

lemma demo_node: "node_at (\<lambda>_. 0) r q = (if q = [] then Some r else None)"
  by (cases q) (simp_all add: get_table_bit read_entry_def)

lemma demo_pte: "pte_at (\<lambda>_. 0) r q = 0"
  by (simp add: pte_at_def read_entry_def split: option.splits)

lemma demo_frames: "frames {8192} demo_mmu = {8192}"
  by (simp add: frames_root below_def demo_mmu_def demo_node)

lemma demo_avail: "8192 \<notin> avail_addrs (pmm demo_mmu)" "4096 \<notin> avail_addrs (pmm demo_mmu)"
  by (auto simp: avail_addrs_def demo_mmu_free PAGE_SIZE_def)

lemma demo_managed: "8192 \<in> managed_addrs (pmm demo_mmu)" "4096 \<in> managed_addrs (pmm demo_mmu)"
proof -
  have "2 * PAGE_SIZE \<in> managed_addrs (pmm demo_mmu)" "1 * PAGE_SIZE \<in> managed_addrs (pmm demo_mmu)"
    unfolding managed_addrs_def by (rule imageI, simp add: demo_mmu_def)+
  then show "8192 \<in> managed_addrs (pmm demo_mmu)" "4096 \<in> managed_addrs (pmm demo_mmu)"
    by (simp_all add: PAGE_SIZE_def)
qed

lemma empty_vm_inv:
  assumes "pmm_ok p" "total_frames p * PAGE_SIZE \<le> 2 ^ 52" "r \<in> managed_addrs p" "r \<notin> avail_addrs p"
  shows "vm_inv {r} r \<lparr> pmm = p, mem = (\<lambda>_. 0) \<rparr>"
  using assms by (simp add: vm_inv_def pt_inv_def pt_user_def frames_root below_def demo_node demo_pte)

lemma demo_vm_inv: "vm_inv {8192} 8192 demo_mmu"
proof -
  have "pmm_ok (pmm demo_mmu)"
    by (simp add: pmm_ok_def pmm_wf_def frame0_reserved_def frames_counted_def demo_mmu_free)
      (simp add: demo_mmu_def)
  moreover have "total_frames (pmm demo_mmu) * PAGE_SIZE \<le> 2 ^ 52" by (simp add: demo_mmu_def PAGE_SIZE_def)
  moreover have "demo_mmu = \<lparr> pmm = pmm demo_mmu, mem = (\<lambda>_. 0) \<rparr>" by (simp add: demo_mmu_def)
  ultimately show ?thesis using demo_avail(1) demo_managed(1) empty_vm_inv by metis
qed

lemma demo_user_page: "user_page 0x400000"
  by (simp add: user_page_def PAGE_SIZE_def USER_SPACE_END_def)

theorem map_page_correct_witness:
  "case map_page 8192 0x400000 4096 user_data demo_mmu of (ok, s') \<Rightarrow>
    translate (mem s') 8192 (0x400000 + 5) =
      (if ok then Some (4096 + 5) else translate (mem demo_mmu) 8192 (0x400000 + 5))
    \<and> (ok \<or> avail_addrs (pmm s') = {})"
proof -
  have "pf_user user_data" "4096 \<notin> frames {8192} demo_mmu" by (simp_all add: user_data_def demo_frames)
  note res = map_page_correct [OF demo_vm_inv demo_user_page this(1) demo_managed(2) this(2) demo_avail(2)]
  obtain ok s' where call: "map_page 8192 0x400000 4096 user_data demo_mmu = (ok, s')" by fastforce
  have "user_page 0x400000 \<and> 5 < PAGE_SIZE" using demo_user_page by (simp add: PAGE_SIZE_def)
  then have "translate (mem s') 8192 (0x400000 + 5) =
      (if ok then Some (4096 + 5) else translate (mem demo_mmu) 8192 (0x400000 + 5))"
    using res unfolding call prod.case by presburger
  then show ?thesis using res unfolding call prod.case by blast
qed

text \<open>
  C11: \<open>unmap_range\<close> removes exactly the requested translations and returns the frames. After unmapping
  \<open>n\<close> user pages from \<open>v\<close> on, none of their bytes translates, every other page of the address space and
  every other address space keeps its translations, and the pool has gained precisely the frames
  that were mapped in the range.
\<close>

theorem unmap_range_correct:
  assumes "vm_inv R r s" "\<forall>i<n. user_page (v + i * PAGE_SIZE)"
  shows "vm_inv R r (unmap_range r v n s)
    \<and> (\<forall>w off. user_page w \<and> off < PAGE_SIZE \<longrightarrow> translate (mem (unmap_range r v n s)) r (w + off) =
        (if w \<in> set (page_range v n) then None else translate (mem s) r (w + off)))
    \<and> (\<forall>r' \<in> R. \<forall>x < USER_SPACE_END. r' \<noteq> r \<longrightarrow>
        translate (mem (unmap_range r v n s)) r' x = translate (mem s) r' x)
    \<and> avail_addrs (pmm (unmap_range r v n s)) = avail_addrs (pmm s) \<union>
        {f. \<exists>w \<in> set (page_range v n). translate (mem s) r w = Some f}"
proof -
  let ?s' = "unmap_range r v n s"
  note spec = unmap_range_spec [OF assms refl]
  have "translate (mem ?s') r (w + off) = (if w \<in> set (page_range v n) then None else translate (mem s) r (w + off))"
    if "user_page w" "off < PAGE_SIZE" for w off
    using translate_page [OF that] spec by (simp add: restrict_map_def)
  moreover have "translate (mem ?s') r' x = translate (mem s) r' x" if "r' \<in> R" "r' \<noteq> r" "x < USER_SPACE_END" for r' x
    using translate_mapped [OF that(3)] spec that by simp
  moreover have "fst ` ran (mapped r s |` set (page_range v n)) = {f. \<exists>w \<in> set (page_range v n). translate (mem s) r w = Some f}"
  proof -
    have "user_page w" if "w \<in> set (page_range v n)" for w using that assms(2) by (auto simp: page_range_def)
    then have "translate (mem s) r w = map_option fst (mapped r s w)" if "w \<in> set (page_range v n)" for w
      using translate_page [of w 0] that by (simp add: case_prod_unfold)
    then show ?thesis unfolding fst_ran_restrict by auto
  qed
  ultimately show ?thesis using spec by auto
qed

theorem unmap_range_correct_witness:
  "vm_inv {8192} 8192 (unmap_range 8192 0x400000 1 demo_mmu)
    \<and> translate (mem (unmap_range 8192 0x400000 1 demo_mmu)) 8192 (0x400000 + 5) = None"
proof -
  have "\<forall>i<1. user_page (0x400000 + i * PAGE_SIZE)" using demo_user_page by simp
  note res = unmap_range_correct [OF demo_vm_inv this]
  have "user_page 0x400000 \<and> 5 < PAGE_SIZE" "0x400000 \<in> set (page_range 0x400000 1)"
    using demo_user_page by (simp_all add: page_range_def PAGE_SIZE_def)
  then have "translate (mem (unmap_range 8192 0x400000 1 demo_mmu)) 8192 (0x400000 + 5) = None"
    using res by presburger
  then show ?thesis using res by blast
qed

text \<open>
  The access check of the kernel agrees with the mappings. For every user address,
  \<open>validate_user_page\<close> accepts exactly the pages that are mapped with user permission (and, for writes,
  with write permission), and reports \<open>NotMapped\<close> and \<open>NotWritable\<close> accordingly: the page tables above
  the last level never change the answer.
\<close>

theorem validate_user_page_correct:
  assumes "vm_inv R r s" "v < USER_SPACE_END"
  shows "validate_user_page (mem s) r v need_write =
    (case mapped r s (align_down v PAGE_SIZE) of
       None \<Rightarrow> Inl NotMapped
     | Some (f, a) \<Rightarrow> if \<not> pf_user a then Inl NotMapped
                     else if need_write \<and> \<not> pf_writable a then Inl NotWritable else Inr ())"
  using validate_user_page_mapped [OF assms] by (simp add: access_check_def)

theorem validate_user_page_correct_witness:
  "validate_user_page (mem demo_mmu) 8192 0x400123 True = Inl NotMapped"
proof -
  have "mapped 8192 demo_mmu w = None" for w by (simp add: mapped_def demo_mmu_def demo_pte)
  then show ?thesis
    using validate_user_page_correct [where v = "0x400123" and need_write = True, OF demo_vm_inv] by (simp add: USER_SPACE_END_def)
qed

lemma free_page_table_hierarchy_rest:
  assumes "pt_inv R s" "r \<in> R"
  shows "avail_addrs (pmm (free_page_table_hierarchy r s)) = avail_addrs (pmm s) \<union> frames {r} s
    \<and> pt_inv (R - {r}) (free_page_table_hierarchy r s)
    \<and> (\<forall>r'. translate (mem (free_page_table_hierarchy r s)) r' = translate (mem s) r')"
proof -
  let ?s' = "free_page_table_hierarchy r s"
  note rel = free_page_table_hierarchy_spec [OF assms]
  have m: "mem ?s' = mem s" and fr: "frames (R - {r}) ?s' = frames (R - {r}) s"
    using rel by (simp_all add: released_def frames_def)
  have disj: "frames (R - {r}) s \<inter> frames {r} s = {}"
    using pt_inv_inj [OF assms(1)] assms(2) by (fastforce simp: frames_def)
  have sub: "frames (R - {r}) s \<subseteq> frames R s" by (auto simp: frames_def)
  have "frames (R - {r}) ?s' \<subseteq> managed_addrs (pmm ?s') - avail_addrs (pmm ?s')"
    using fr disj sub assms(1) rel released_managed [OF rel] by (auto simp: pt_inv_def released_def)
  then have "pt_inv (R - {r}) ?s'"
    using rel assms(1) unfolding pt_inv_def released_def by (auto simp: m)
  then show ?thesis using rel m by (simp add: released_def)
qed

text \<open>
  C12: Destroying an address space leaks nothing and takes nothing from the others.
  \<open>free_page_table_hierarchy\<close> returns every frame of the address space to the pool (data pages, page
  tables of all levels and the root), and the remaining address spaces keep all their translations
  and still satisfy the invariant.
\<close>

theorem free_page_table_hierarchy_correct:
  assumes "pt_inv R s" "r \<in> R"
  shows "avail_addrs (pmm (free_page_table_hierarchy r s)) = avail_addrs (pmm s) \<union> frames {r} s
    \<and> pt_inv (R - {r}) (free_page_table_hierarchy r s)
    \<and> (\<forall>r'. translate (mem (free_page_table_hierarchy r s)) r' = translate (mem s) r')"
  using assms by (rule free_page_table_hierarchy_rest)

theorem free_page_table_hierarchy_correct_witness:
  "avail_addrs (pmm (free_page_table_hierarchy 8192 demo_mmu)) = insert 8192 (avail_addrs (pmm demo_mmu))"
  using free_page_table_hierarchy_correct [of "{8192}" demo_mmu 8192] demo_vm_inv demo_frames
  by (simp add: vm_inv_def)

lemma user_space_pages:
  "USER_SPACE_END < USIZE_LIMIT"
  "\<forall>w. PAGE_SIZE dvd w \<longrightarrow> w + PAGE_SIZE \<le> USER_SPACE_END \<longrightarrow> user_page w"
  by (simp_all add: user_page_def PAGE_SIZE_def USER_SPACE_END_def USIZE_LIMIT_def)

lemma mmap_success_spec:
  assumes "vm_inv R r s" "PAGE_SIZE dvd nx"
    and "mmap_allocate (vm_ops r) addr len prot USER_SPACE_END hint nx s = (Ok v, nx', s')"
  shows "vm_inv R r s' \<and> 0 < len \<and> v = mmap_vaddr addr nx
    \<and> v + div_ceil len PAGE_SIZE * PAGE_SIZE \<le> USER_SPACE_END
    \<and> nx' = (if addr = 0 then nx + div_ceil len PAGE_SIZE * PAGE_SIZE else nx)
    \<and> (\<exists>fs. length fs = div_ceil len PAGE_SIZE \<and> distinct fs \<and> set fs \<subseteq> avail_addrs (pmm s)
        \<and> set fs \<inter> avail_addrs (pmm s') = {} \<and> (\<forall>f \<in> set fs. zeroed s' f)
        \<and> mapped r s' = (mapped r s)(page_range v (div_ceil len PAGE_SIZE) [\<mapsto>]
            map (\<lambda>f. (f, from_prot (word_of_int prot))) fs))"
proof -
  note res = vm.mmap_allocate_result [OF assms(1,2) user_space_pages assms(3), simplified]
  then obtain fs T where "length fs = div_ceil len PAGE_SIZE" "distinct fs" "set fs \<subseteq> pool s"
    "pool s' = pool s - set fs - T" "\<forall>f \<in> set fs. zeroed s' f"
    "mapped r s' = (mapped r s)(page_range v (div_ceil len PAGE_SIZE) [\<mapsto>] map (\<lambda>f. (f, from_prot (word_of_int prot))) fs)"
    by (auto simp: vm.loop_done_def)
  then show ?thesis using res by blast
qed

text \<open>
  A successful \<open>mmap\<close> delivers fresh, zeroed, private memory. When \<open>mmap_allocate\<close>, run on the
  kernel's frame allocator and page tables, returns \<open>Ok\<close>, the requested pages lie in user space at the
  requested or next free address, each is mapped with the requested protection to its own frame that
  was free before and now holds only zeros, and all other pages keep their mapping.
\<close>

theorem mmap_allocate_success:
  assumes "vm_inv R r s" "PAGE_SIZE dvd nx"
    and "mmap_allocate (vm_ops r) addr len prot USER_SPACE_END hint nx s = (Ok v, nx', s')"
  shows "vm_inv R r s' \<and> 0 < len \<and> v = mmap_vaddr addr nx
    \<and> v + div_ceil len PAGE_SIZE * PAGE_SIZE \<le> USER_SPACE_END
    \<and> nx' = (if addr = 0 then nx + div_ceil len PAGE_SIZE * PAGE_SIZE else nx)
    \<and> (\<exists>fs. length fs = div_ceil len PAGE_SIZE \<and> distinct fs \<and> set fs \<subseteq> avail_addrs (pmm s)
        \<and> set fs \<inter> avail_addrs (pmm s') = {} \<and> (\<forall>f \<in> set fs. zeroed s' f)
        \<and> mapped r s' = (mapped r s)(page_range v (div_ceil len PAGE_SIZE) [\<mapsto>]
            map (\<lambda>f. (f, from_prot (word_of_int prot))) fs))"
  using mmap_success_spec [OF assms] .

text \<open>
  \<open>mmap\<close> does not fail spuriously. A request for at least one byte whose pages fit below the end of
  user space succeeds whenever the frame count handed to it covers the pages and the pool holds four
  frames per page, one for the page itself and three for the page tables it may need.
\<close>

theorem mmap_allocate_progress:
  assumes "vm_inv R r s" "PAGE_SIZE dvd nx" "0 < len"
    and "mmap_vaddr addr nx + div_ceil len PAGE_SIZE * PAGE_SIZE \<le> USER_SPACE_END"
    and "div_ceil len PAGE_SIZE \<le> hint" "4 * div_ceil len PAGE_SIZE \<le> card (avail_addrs (pmm s))"
  shows "fst (mmap_allocate (vm_ops r) addr len prot USER_SPACE_END hint nx s) = Ok (mmap_vaddr addr nx)"
  using assms by (intro vm.mmap_allocate_succeeds) (simp_all add: user_space_pages)

lemma demo_pool_card: "card (avail_addrs (pmm demo_mmu)) = 13"
proof -
  have "card (avail_addrs (pmm demo_mmu)) = card (free_set (pmm demo_mmu))"
    unfolding avail_addrs_def by (rule card_image) (simp add: inj_on_def)
  then show ?thesis by (simp add: demo_mmu_free)
qed

theorem mmap_allocate_progress_witness:
  "fst (mmap_allocate (vm_ops 8192) 0 12288 3 USER_SPACE_END 13 0x60000000 demo_mmu) = Ok 0x60000000"
proof -
  have "div_ceil 12288 PAGE_SIZE = 3" "mmap_vaddr 0 0x60000000 = 0x60000000" "PAGE_SIZE dvd 0x60000000"
    by (simp_all add: div_ceil_def PAGE_SIZE_def mmap_vaddr_def)
  then show ?thesis
    using mmap_allocate_progress [OF demo_vm_inv, where nx = "0x60000000" and len = 12288 and addr = 0 and hint = 13]
      demo_pool_card by (simp add: PAGE_SIZE_def USER_SPACE_END_def)
qed

theorem mmap_allocate_success_witness:
  "\<exists>nx' s'. mmap_allocate (vm_ops 8192) 0 4096 3 USER_SPACE_END 13 0x60000000 demo_mmu = (Ok 0x60000000, nx', s')
    \<and> vm_inv {8192} 8192 s' \<and> nx' = 0x60001000
    \<and> (\<exists>f \<in> avail_addrs (pmm demo_mmu). zeroed s' f \<and> mapped 8192 s' 0x60000000 = Some (f, from_prot 3))"
proof -
  have n: "div_ceil 4096 PAGE_SIZE = 1" "mmap_vaddr 0 0x60000000 = 0x60000000" "PAGE_SIZE dvd 0x60000000"
    by (simp_all add: div_ceil_def PAGE_SIZE_def mmap_vaddr_def)
  then have "fst (mmap_allocate (vm_ops 8192) 0 4096 3 USER_SPACE_END 13 0x60000000 demo_mmu) = Ok (mmap_vaddr 0 0x60000000)"
    using demo_pool_card demo_vm_inv
    by (intro vm.mmap_allocate_succeeds [where R = "{8192}"]) (simp_all add: user_space_pages, simp add: PAGE_SIZE_def USER_SPACE_END_def)
  then obtain nx' s' where call: "mmap_allocate (vm_ops 8192) 0 4096 3 USER_SPACE_END 13 0x60000000 demo_mmu = (Ok 0x60000000, nx', s')"
    using n by (cases "mmap_allocate (vm_ops 8192) 0 4096 3 USER_SPACE_END 13 0x60000000 demo_mmu") auto
  note res = mmap_allocate_success [OF demo_vm_inv n(3) call]
  then obtain fs where fs: "length fs = 1" "set fs \<subseteq> avail_addrs (pmm demo_mmu)" "\<forall>f \<in> set fs. zeroed s' f"
    "mapped 8192 s' = (mapped 8192 demo_mmu)(page_range 0x60000000 1 [\<mapsto>] map (\<lambda>f. (f, from_prot 3)) fs)"
    using n by auto
  then obtain f where "fs = [f]" by (cases fs) auto
  then have "f \<in> avail_addrs (pmm demo_mmu) \<and> zeroed s' f \<and> mapped 8192 s' 0x60000000 = Some (f, from_prot 3)"
    using fs by (simp add: page_range_def)
  moreover have "nx' = 0x60001000" using res n by (simp add: PAGE_SIZE_def)
  ultimately show ?thesis using call res by blast
qed

lemma mmap_rollback_spec:
  assumes "vm_inv R r s" "PAGE_SIZE dvd nx"
    and "\<forall>i < div_ceil len PAGE_SIZE. mapped r s (mmap_vaddr addr nx + i * PAGE_SIZE) = None"
    and "mmap_allocate (vm_ops r) addr len prot USER_SPACE_END hint nx s = (res, nx', s')"
    and "\<forall>v. res \<noteq> Ok v"
  shows "res = Err (if len = 0 then EINVAL else ENOMEM) \<and> nx' = nx \<and> vm_inv R r s' \<and> mapped r s' = mapped r s
    \<and> (\<exists>T. T \<subseteq> avail_addrs (pmm s) \<and> avail_addrs (pmm s') = avail_addrs (pmm s) - T
        \<and> tables R s' = tables R s \<union> T)"
proof -
  note r = vm.mmap_allocate_result [OF assms(1,2) user_space_pages assms(4)]
  then obtain e where e: "res = Err e" using assms(5) by (cases res) auto
  then have "s' = s \<or> vm.loop_failed r R (mmap_vaddr addr nx) 0 (div_ceil len PAGE_SIZE) s s'" using r by simp
  then have "mapped r s' = mapped r s \<and> (\<exists>T \<subseteq> pool s. pool s' = pool s - T \<and> tables R s' = tables R s \<union> T)"
    using vm.loop_failed_unmapped [OF _ assms(3)] by (auto intro: exI [of _ "{}"])
  then show ?thesis using r e by auto
qed

text \<open>
  A failing \<open>mmap\<close> is rolled back. When \<open>mmap_allocate\<close> returns an error the error number is \<open>EINVAL\<close>
  for an empty request and \<open>ENOMEM\<close> otherwise, the bump pointer is unchanged, and, if the target range
  was not mapped before, the mappings are exactly as before and the pool has lost no frame except
  those that now serve as page tables of the address space. It never panics.
\<close>

theorem mmap_allocate_rollback:
  assumes "vm_inv R r s" "PAGE_SIZE dvd nx"
    and "\<forall>i < div_ceil len PAGE_SIZE. mapped r s (mmap_vaddr addr nx + i * PAGE_SIZE) = None"
    and "mmap_allocate (vm_ops r) addr len prot USER_SPACE_END hint nx s = (res, nx', s')"
    and "\<forall>v. res \<noteq> Ok v"
  shows "res = Err (if len = 0 then EINVAL else ENOMEM) \<and> nx' = nx \<and> vm_inv R r s' \<and> mapped r s' = mapped r s
    \<and> (\<exists>T. T \<subseteq> avail_addrs (pmm s) \<and> avail_addrs (pmm s') = avail_addrs (pmm s) - T
        \<and> tables R s' = tables R s \<union> T)"
  using mmap_rollback_spec [OF assms] .

text \<open>A machine with a single free frame, on which mapping a page fails for want of page tables.\<close>

definition demo_full :: mmu where
  "demo_full = \<lparr> pmm = \<lparr> bitmap = [7], total_frames = 4, free_frames = 1, last_frame = 1 \<rparr>, mem = (\<lambda>_. 0) \<rparr>"

lemma demo_full_inv: "vm_inv {8192} 8192 demo_full"
proof -
  let ?p = "\<lparr> bitmap = [7], total_frames = 4, free_frames = 1, last_frame = 1 \<rparr> :: PhysicalMemoryManager"
  have low: "\<forall>f<4. test_bit ?p f \<longleftrightarrow> f < 3" by code_simp
  have "(\<not> test_bit ?p f) = (f \<in> {3})" for f
    using low by (cases "f < 4") (auto simp: test_bit_def)
  then have fs: "free_set ?p = {3}" unfolding free_set_def by simp
  then have "pmm_ok ?p"
    by (simp add: pmm_ok_def pmm_wf_def frame0_reserved_def frames_counted_def)
  moreover have "2 * PAGE_SIZE \<in> managed_addrs ?p" unfolding managed_addrs_def by (rule imageI) simp
  ultimately show ?thesis unfolding demo_full_def using fs
    by (intro empty_vm_inv) (simp_all add: avail_addrs_def PAGE_SIZE_def)
qed

theorem mmap_allocate_rollback_witness:
  "\<exists>s'. mmap_allocate (vm_ops 8192) 0 4096 3 USER_SPACE_END 5 0x60000000 demo_full = (Err ENOMEM, 0x60000000, s')
    \<and> vm_inv {8192} 8192 s' \<and> mapped 8192 s' = mapped 8192 demo_full"
proof -
  obtain res nx' s' where call: "mmap_allocate (vm_ops 8192) 0 4096 3 USER_SPACE_END 5 0x60000000 demo_full = (res, nx', s')"
    by (cases "mmap_allocate (vm_ops 8192) 0 4096 3 USER_SPACE_END 5 0x60000000 demo_full")
  have "fst (mmap_allocate (vm_ops 8192) 0 4096 3 USER_SPACE_END 5 0x60000000 demo_full) = Err ENOMEM" by code_simp
  then have res: "res = Err ENOMEM" using call by simp
  have none: "mapped 8192 demo_full w = None" for w by (simp add: mapped_def demo_full_def demo_pte)
  have "PAGE_SIZE dvd 0x60000000" by (simp add: PAGE_SIZE_def)
  from mmap_allocate_rollback [OF demo_full_inv this _ call] show ?thesis using call res none by auto
qed

end
