(* ===== verification/Vma.thy ===== *)
theory Vma
  imports Posix_Abi
begin

text \<open>
  The list of virtual memory areas of an address space, from \<^verbatim>\<open>kernel/src/ostd/mm/vmm.rs\<close>: insertion with
  splitting and merging, lookup, coverage, and the list part of removal and protection changes. The
  abstract meaning of a list is the function \<open>vlook\<close> from addresses to protection and flags; \<open>between\<close>
  says that a list is sorted, disjoint and made of non-empty areas.
\<close>

record Vma =
  vma_start :: usize
  vma_end :: usize
  vma_prot :: u32
  vma_flags :: u32

abbreviation mk_vma :: "usize \<Rightarrow> usize \<Rightarrow> u32 \<Rightarrow> u32 \<Rightarrow> Vma" where
  "mk_vma s e p f \<equiv> \<lparr> vma_start = s, vma_end = e, vma_prot = p, vma_flags = f \<rparr>"

text \<open>The loop of \<open>insert_vma\<close> over the old areas, with the variables \<open>new_vmas\<close>, \<open>inserted\<close>, \<open>cur_start\<close>, \<open>cur_end\<close>.\<close>

fun insert_loop ::
  "u32 \<Rightarrow> u32 \<Rightarrow> Vma list \<Rightarrow> bool \<Rightarrow> usize \<Rightarrow> usize \<Rightarrow> Vma list \<Rightarrow> Vma list \<times> bool \<times> usize \<times> usize" where
  "insert_loop prot flags new_vmas inserted cur_start cur_end [] = (new_vmas, inserted, cur_start, cur_end)"
| "insert_loop prot flags new_vmas inserted cur_start cur_end (vma # vmas) =
    (if vma_end vma \<le> cur_start then
       insert_loop prot flags (new_vmas @ [vma]) inserted cur_start cur_end vmas
     else if vma_start vma \<ge> cur_end then
       insert_loop prot flags
         (new_vmas @ (if \<not> inserted then [mk_vma cur_start cur_end prot flags] else []) @ [vma])
         True cur_start cur_end vmas
     else if vma_prot vma = prot \<and> vma_flags vma = flags then
       insert_loop prot flags new_vmas inserted
         (min cur_start (vma_start vma)) (max cur_end (vma_end vma)) vmas
     else
       insert_loop prot flags
         (new_vmas
          @ (if vma_start vma < cur_start
             then [mk_vma (vma_start vma) cur_start (vma_prot vma) (vma_flags vma)] else [])
          @ (if \<not> inserted then [mk_vma cur_start cur_end prot flags] else [])
          @ (if vma_end vma > cur_end
             then [mk_vma cur_end (vma_end vma) (vma_prot vma) (vma_flags vma)] else []))
         True cur_start cur_end vmas)"

definition merge_step :: "Vma \<Rightarrow> Vma list \<Rightarrow> Vma list" where
  "merge_step vma merged =
    (if merged \<noteq> [] \<and> vma_end (last merged) = vma_start vma \<and> vma_prot (last merged) = vma_prot vma
        \<and> vma_flags (last merged) = vma_flags vma
     then butlast merged @ [(last merged)\<lparr> vma_end := vma_end vma \<rparr>]
     else merged @ [vma])"

definition insert_vma :: "Vma list \<Rightarrow> usize \<Rightarrow> usize \<Rightarrow> u32 \<Rightarrow> u32 \<Rightarrow> Vma list" where
  "insert_vma vmas start end' prot flags =
    (if start \<ge> end' then vmas
     else
       let (new_vmas, inserted, cur_start, cur_end) = insert_loop prot flags [] False start end' vmas;
           new_vmas = (if \<not> inserted then new_vmas @ [mk_vma cur_start cur_end prot flags] else new_vmas)
       in fold merge_step new_vmas [])"

definition find_vma :: "Vma list \<Rightarrow> usize \<Rightarrow> Vma option" where
  "find_vma vmas addr = find (\<lambda>v. vma_start v \<le> addr \<and> addr < vma_end v) vmas"

fun contains_loop :: "usize \<Rightarrow> usize \<Rightarrow> Vma list \<Rightarrow> bool" where
  "contains_loop cur end' [] = False"
| "contains_loop cur end' (vma # vmas) =
    (if vma_start vma \<le> cur \<and> vma_end vma > cur then
       (if vma_end vma \<ge> end' then True else contains_loop (vma_end vma) end' vmas)
     else contains_loop cur end' vmas)"

definition contains_range :: "Vma list \<Rightarrow> usize \<Rightarrow> usize \<Rightarrow> bool" where
  "contains_range vmas start end' = (if start \<ge> end' then False else contains_loop start end' vmas)"

text \<open>The list part of \<open>remove_vma_range\<close>.\<close>

definition cut_vma :: "usize \<Rightarrow> usize \<Rightarrow> Vma \<Rightarrow> Vma list" where
  "cut_vma start end' vma =
    (if vma_end vma \<le> start \<or> vma_start vma \<ge> end' then [vma]
     else (if vma_start vma < start then [mk_vma (vma_start vma) start (vma_prot vma) (vma_flags vma)] else [])
        @ (if vma_end vma > end' then [mk_vma end' (vma_end vma) (vma_prot vma) (vma_flags vma)] else []))"

definition remove_vmas :: "Vma list \<Rightarrow> usize \<Rightarrow> usize \<Rightarrow> Vma list" where
  "remove_vmas vmas start end' = concat (map (cut_vma start end') vmas)"

text \<open>The list part of \<open>mprotect_range\<close>: the covered segments keep their flags and get the new protection.\<close>

definition segments :: "Vma list \<Rightarrow> usize \<Rightarrow> usize \<Rightarrow> (usize \<times> usize \<times> u32) list" where
  "segments vmas start end' =
    filter (\<lambda>(s, e, f). s < e)
      (map (\<lambda>vma. (max (vma_start vma) start, min (vma_end vma) end', vma_flags vma)) vmas)"

definition protect_vmas :: "Vma list \<Rightarrow> usize \<Rightarrow> usize \<Rightarrow> u32 \<Rightarrow> Vma list" where
  "protect_vmas vmas start end' new_prot =
    fold (\<lambda>(s, e, f) vmas. insert_vma vmas s e new_prot f) (segments vmas start end') vmas"

subsection \<open>Sorted lists and their meaning\<close>

fun between :: "usize \<Rightarrow> usize \<Rightarrow> Vma list \<Rightarrow> bool" where
  "between lo hi [] \<longleftrightarrow> lo \<le> hi"
| "between lo hi (v # vs) \<longleftrightarrow> lo \<le> vma_start v \<and> vma_start v < vma_end v \<and> between (vma_end v) hi vs"

definition vlook :: "Vma list \<Rightarrow> usize \<Rightarrow> (u32 \<times> u32) option" where
  "vlook vmas a = map_option (\<lambda>v. (vma_prot v, vma_flags v)) (find_vma vmas a)"

lemma vlook_simps [simp]:
  "vlook [] a = None"
  "vlook (v # vs) a = (if vma_start v \<le> a \<and> a < vma_end v then Some (vma_prot v, vma_flags v) else vlook vs a)"
  by (simp_all add: vlook_def find_vma_def)

lemma vlook_append: "vlook (xs @ ys) a = (case vlook xs a of None \<Rightarrow> vlook ys a | Some x \<Rightarrow> Some x)"
  by (induction xs) auto

lemma between_le: "between lo hi vs \<Longrightarrow> lo \<le> hi"
  by (induction vs arbitrary: lo) force+

lemma between_mono: "between lo hi vs \<Longrightarrow> lo' \<le> lo \<Longrightarrow> hi \<le> hi' \<Longrightarrow> between lo' hi' vs"
  by (induction vs arbitrary: lo lo') auto

lemma between_append: "between lo hi (xs @ ys) \<longleftrightarrow> (\<exists>m. between lo m xs \<and> between m hi ys)"
  by (induction xs arbitrary: lo) (auto intro: between_mono dest: between_le)

lemma vlook_outside: "between lo hi vs \<Longrightarrow> a < lo \<or> hi \<le> a \<Longrightarrow> vlook vs a = None"
proof (induction vs arbitrary: lo)
  case (Cons v vs)
  then show ?case using between_le [of "vma_end v" hi vs] by fastforce
qed simp

lemma between_snoc: "between lo m xs \<Longrightarrow> m \<le> vma_start v \<Longrightarrow> vma_start v < vma_end v \<Longrightarrow> vma_end v \<le> hi \<Longrightarrow> between lo hi (xs @ [v])"
  by (auto simp: between_append)

lemma between_member:
  "between lo hi vs \<Longrightarrow> w \<in> set vs \<Longrightarrow> lo \<le> vma_start w \<and> vma_start w < vma_end w \<and> vma_end w \<le> hi"
proof (induction vs arbitrary: lo)
  case (Cons v vs)
  then show ?case using between_le [of "vma_end v" hi vs] Cons.IH [of "vma_end v"] by fastforce
qed simp

lemma vlook_member:
  assumes "between lo hi vs" "w \<in> set vs" "vma_start w \<le> a" "a < vma_end w"
  shows "vlook vs a = Some (vma_prot w, vma_flags w)"
  using assms
proof (induction vs arbitrary: lo)
  case (Cons v vs)
  have v: "between (vma_end v) hi vs" using Cons.prems(1) by simp
  show ?case
  proof (cases "w = v")
    case False
    then have w: "w \<in> set vs" using Cons.prems(2) by simp
    then have "vma_end v \<le> vma_start w" using between_member [OF v] by auto
    then show ?thesis using Cons.IH [OF v w Cons.prems(3,4)] Cons.prems(3) by simp
  qed (use Cons.prems(3,4) in simp)
qed simp

lemma between_post:
  "between lo ce xs \<Longrightarrow> between lo (max ce e) (xs @ (if e > ce then [mk_vma ce e p f] else []))"
  by (auto intro: between_mono between_snoc)

subsection \<open>Insertion\<close>

definition finish :: "u32 \<Rightarrow> u32 \<Rightarrow> Vma list \<times> bool \<times> usize \<times> usize \<Rightarrow> Vma list" where
  "finish prot flags r = (case r of (new_vmas, inserted, cur_start, cur_end) \<Rightarrow>
     if \<not> inserted then new_vmas @ [mk_vma cur_start cur_end prot flags] else new_vmas)"

abbreviation same_attr :: "u32 \<Rightarrow> u32 \<Rightarrow> Vma \<Rightarrow> bool" where
  "same_attr prot flags v \<equiv> vma_prot v = prot \<and> vma_flags v = flags"

text \<open>
  \<open>insert_loop\<close> drops the part beyond \<open>ce\<close> of an area that has the attributes of the new one if an
  area with other attributes was split before it. This says that there is no such area.
\<close>

definition tail_kept :: "u32 \<Rightarrow> u32 \<Rightarrow> usize \<Rightarrow> usize \<Rightarrow> Vma list \<Rightarrow> bool" where
  "tail_kept prot flags cs ce vmas \<longleftrightarrow>
    (\<forall>w \<in> set vmas. same_attr prot flags w \<longrightarrow> vma_start w < ce \<longrightarrow> ce < vma_end w \<longrightarrow>
      (\<forall>u \<in> set vmas. cs < vma_end u \<longrightarrow> vma_start u < vma_start w \<longrightarrow> same_attr prot flags u))"

lemma tail_kept_Cons: "tail_kept prot flags cs ce (v # vs) \<Longrightarrow> tail_kept prot flags cs ce vs"
  unfolding tail_kept_def by (meson list.set_intros(2))

lemma tail_keptD:
  "tail_kept prot flags cs ce vs \<Longrightarrow> w \<in> set vs \<Longrightarrow> same_attr prot flags w \<Longrightarrow> vma_start w < ce \<Longrightarrow>
    ce < vma_end w \<Longrightarrow> u \<in> set vs \<Longrightarrow> cs < vma_end u \<Longrightarrow> vma_start u < vma_start w \<Longrightarrow> same_attr prot flags u"
  unfolding tail_kept_def by blast

text \<open>After the new area is in place, the rest of the list is only trimmed.\<close>

lemma insert_loop_inserted:
  assumes "between 0 (max ce m) acc" "between m hi rest" "cs \<le> m" "ce \<le> hi"
  shows "between 0 hi (finish prot flags (insert_loop prot flags acc True cs ce rest))
    \<and> (\<forall>a. (\<forall>w \<in> set rest. same_attr prot flags w \<longrightarrow> vma_start w < ce \<longrightarrow> vma_end w \<le> ce) \<longrightarrow>
        vlook (finish prot flags (insert_loop prot flags acc True cs ce rest)) a =
          (case vlook acc a of Some x \<Rightarrow> Some x | None \<Rightarrow> if ce \<le> a then vlook rest a else None))"
  using assms
proof (induction rest arbitrary: acc m cs ce)
  case Nil
  then have "between 0 hi acc" by (auto intro: between_mono)
  then show ?case by (simp add: finish_def split: option.split)
next
  case (Cons v rest)
  have v: "m \<le> vma_start v" "vma_start v < vma_end v" "between (vma_end v) hi rest"
    using Cons.prems(2) by auto
  have le: "vma_end v \<le> hi" using between_le [OF v(3)] .
  have gt: "cs < vma_end v" using v Cons.prems(3) by linarith
  consider (after) "ce \<le> vma_start v" | (same) "vma_start v < ce" "same_attr prot flags v"
    | (diff) "vma_start v < ce" "\<not> same_attr prot flags v" by linarith
  then show ?case
  proof cases
    case after
    have "between 0 (max ce (vma_end v)) (acc @ [v])"
      using after v by (intro between_snoc [OF Cons.prems(1)]) auto
    from Cons.IH [OF this v(3)] show ?thesis
      using after v gt Cons.prems(3,4) by (auto simp: vlook_append split: option.split)
  next
    case same
    have "between 0 (max (max ce (vma_end v)) (vma_end v)) acc"
      using v by (intro between_mono [OF Cons.prems(1)]) auto
    note IH = Cons.IH [OF this v(3), of "min cs (vma_start v)"]
    show ?thesis
    proof (cases "vma_end v \<le> ce")
      case True
      then show ?thesis using IH same gt v Cons.prems(3,4)
        by (auto simp: max_absorb1 split: option.split)
    next
      case False
      then show ?thesis using IH same gt v Cons.prems(3,4) le by (auto simp: max_def)
    qed
  next
    case diff
    let ?post = "if vma_end v > ce then [mk_vma ce (vma_end v) (vma_prot v) (vma_flags v)] else []"
    have "between 0 ce acc" using v diff by (intro between_mono [OF Cons.prems(1)]) auto
    then have acc': "between 0 (max ce (vma_end v)) (acc @ ?post)"
      by (auto intro: between_mono between_snoc)
    have look: "vlook (acc @ ?post) a = (case vlook acc a of Some x \<Rightarrow> Some x
        | None \<Rightarrow> if ce \<le> a \<and> a < vma_end v then Some (vma_prot v, vma_flags v) else None)" for a
      by (auto simp: vlook_append split: option.split)
    note IH = Cons.IH [OF acc' v(3), of cs]
    have "\<not> vma_start v < cs" using v Cons.prems(3) by simp
    then have step: "insert_loop prot flags acc True cs ce (v # rest) =
        insert_loop prot flags (acc @ ?post) True cs ce rest" using diff gt by auto
    show ?thesis unfolding step
      using IH v diff gt Cons.prems(3,4) unfolding look by (auto split: option.split)
  qed
qed

text \<open>Before that, the areas seen so far end before the new one, or have been absorbed by it.\<close>

lemma insert_loop_pending:
  assumes "between 0 (min cs m) acc" "between m hi rest" "cs < ce" "ce \<le> hi"
  shows "between 0 hi (finish prot flags (insert_loop prot flags acc False cs ce rest))
    \<and> (\<forall>a. tail_kept prot flags cs ce rest \<longrightarrow>
        vlook (finish prot flags (insert_loop prot flags acc False cs ce rest)) a =
          (if cs \<le> a \<and> a < ce then Some (prot, flags)
           else case vlook acc a of Some x \<Rightarrow> Some x | None \<Rightarrow> vlook rest a))"
  using assms
proof (induction rest arbitrary: acc m cs ce)
  case Nil
  then have "between 0 hi (acc @ [mk_vma cs ce prot flags])"
    by (intro between_snoc [OF Nil.prems(1)]) auto
  moreover have "vlook acc a = None" if "cs \<le> a" for a
    using vlook_outside [OF Nil.prems(1), of a] that by simp
  ultimately show ?case by (auto simp: finish_def vlook_append split: option.split)
next
  case (Cons v rest)
  have v: "m \<le> vma_start v" "vma_start v < vma_end v" "between (vma_end v) hi rest"
    using Cons.prems(2) by auto
  have le: "vma_end v \<le> hi" using between_le [OF v(3)] .
  have acc_none: "vlook acc a = None" if "min cs m \<le> a" for a
    using vlook_outside [OF Cons.prems(1), of a] that by simp
  have rest_none: "vlook rest a = None" if "a < vma_end v" for a
    using vlook_outside [OF v(3), of a] that by simp
  have later: "vma_end v \<le> vma_start w" if "w \<in> set rest" for w
    using between_member [OF v(3) that] by simp
  have nonempty: "vma_start w < vma_end w" if "w \<in> set rest" for w
    using between_member [OF v(3) that] by simp
  consider (before) "vma_end v \<le> cs" | (after) "cs < vma_end v" "ce \<le> vma_start v"
    | (same) "cs < vma_end v" "vma_start v < ce" "same_attr prot flags v"
    | (diff) "cs < vma_end v" "vma_start v < ce" "\<not> same_attr prot flags v" by linarith
  then show ?case
  proof cases
    case before
    have "between 0 (min cs (vma_end v)) (acc @ [v])"
      using before v by (intro between_snoc [OF Cons.prems(1)]) auto
    note IH = Cons.IH [OF this v(3) Cons.prems(3,4)]
    have look: "(if cs \<le> a \<and> a < ce then Some (prot, flags)
          else case vlook (acc @ [v]) a of Some x \<Rightarrow> Some x | None \<Rightarrow> vlook rest a) =
        (if cs \<le> a \<and> a < ce then Some (prot, flags)
          else case vlook acc a of Some x \<Rightarrow> Some x | None \<Rightarrow> vlook (v # rest) a)" for a
      by (simp add: vlook_append split: option.split)
    have step: "insert_loop prot flags acc False cs ce (v # rest) = insert_loop prot flags (acc @ [v]) False cs ce rest"
      using before by simp
    show ?thesis unfolding step
    proof (intro conjI allI impI)
      fix a assume "tail_kept prot flags cs ce (v # rest)"
      from trans [OF IH [THEN conjunct2, THEN spec, THEN mp, OF tail_kept_Cons [OF this]] look [of a]]
      show "vlook (finish prot flags (insert_loop prot flags (acc @ [v]) False cs ce rest)) a =
          (if cs \<le> a \<and> a < ce then Some (prot, flags)
           else case vlook acc a of Some x \<Rightarrow> Some x | None \<Rightarrow> vlook (v # rest) a)" .
    qed (use IH in blast)
  next
    case after
    let ?acc = "acc @ [mk_vma cs ce prot flags, v]"
    have new: "between 0 ce (acc @ [mk_vma cs ce prot flags])"
      using Cons.prems(3) by (intro between_snoc [OF Cons.prems(1)]) auto
    have "between 0 (max ce (vma_end v)) ((acc @ [mk_vma cs ce prot flags]) @ [v])"
      using after v by (intro between_snoc [OF new]) auto
    then have acc': "between 0 (max ce (vma_end v)) ?acc" by simp
    have "\<forall>w \<in> set rest. same_attr prot flags w \<longrightarrow> vma_start w < ce \<longrightarrow> vma_end w \<le> ce"
    proof (intro ballI impI)
      fix w assume "w \<in> set rest" "vma_start w < ce"
      then show "vma_end w \<le> ce" using later [of w] after v by linarith
    qed
    then show ?thesis using insert_loop_inserted [OF acc' v(3), of cs prot flags] after v acc_none rest_none Cons.prems(3,4)
      by (auto simp: vlook_append split: option.split)
  next
    case same
    let ?cs = "min cs (vma_start v)" and ?ce = "max ce (vma_end v)"
    have acc': "between 0 (min ?cs (vma_end v)) acc"
      using v same by (intro between_mono [OF Cons.prems(1)]) auto
    note IH = Cons.IH [OF acc' v(3), of ?ce]
    have nocross: "tail_kept prot flags ?cs ?ce rest" if "tail_kept prot flags cs ce (v # rest)"
      unfolding tail_kept_def
    proof (intro ballI impI)
      fix w u
      assume w: "w \<in> set rest" "same_attr prot flags w" "vma_start w < ?ce" "?ce < vma_end w"
        and u: "u \<in> set rest" "?cs < vma_end u" "vma_start u < vma_start w"
      have x: "vma_start w < ce" "ce < vma_end w" using later [OF w(1)] w(3,4) by (auto simp: max_def split: if_splits)
      have y: "cs < vma_end u" using later [OF u(1)] nonempty [OF u(1)] same by linarith
      show "same_attr prot flags u"
        by (rule tail_keptD [OF that list.set_intros(2) [OF w(1)] w(2) x list.set_intros(2) [OF u(1)] y u(3)])
    qed
    have look: "(if ?cs \<le> a \<and> a < ?ce then Some (prot, flags)
          else case vlook acc a of Some x \<Rightarrow> Some x | None \<Rightarrow> vlook rest a) =
        (if cs \<le> a \<and> a < ce then Some (prot, flags)
          else case vlook acc a of Some x \<Rightarrow> Some x | None \<Rightarrow> vlook (v # rest) a)" for a
    proof (cases "vma_start v \<le> a \<and> a < vma_end v")
      case True
      then show ?thesis using acc_none [of a] v same by auto
    next
      case False
      then show ?thesis using same v by (auto split: option.split)
    qed
    have step: "insert_loop prot flags acc False cs ce (v # rest) = insert_loop prot flags acc False ?cs ?ce rest"
      using same by simp
    have "?cs < ?ce" "?ce \<le> hi" using Cons.prems(3,4) le by auto
    note IH' = IH [OF this]
    show ?thesis unfolding step
    proof (intro conjI allI impI)
      fix a
      assume "tail_kept prot flags cs ce (v # rest)"
      from trans [OF IH' [THEN conjunct2, THEN spec, THEN mp, OF nocross [OF this]] look [of a]]
      show "vlook (finish prot flags (insert_loop prot flags acc False ?cs ?ce rest)) a =
          (if cs \<le> a \<and> a < ce then Some (prot, flags)
           else case vlook acc a of Some x \<Rightarrow> Some x | None \<Rightarrow> vlook (v # rest) a)" .
    qed (use IH' in blast)
  next
    case diff
    let ?pre = "if vma_start v < cs then [mk_vma (vma_start v) cs (vma_prot v) (vma_flags v)] else []"
    let ?new = "mk_vma cs ce prot flags"
    let ?post = "if vma_end v > ce then [mk_vma ce (vma_end v) (vma_prot v) (vma_flags v)] else []"
    have "between 0 cs (acc @ ?pre)"
      using v by (auto intro!: between_snoc [OF Cons.prems(1)] between_mono [OF Cons.prems(1)])
    then have "between 0 ce ((acc @ ?pre) @ [?new])" using Cons.prems(3) by (intro between_snoc) auto
    then have acc': "between 0 (max ce (vma_end v)) (((acc @ ?pre) @ [?new]) @ ?post)"
      by (rule between_post)
    have step: "insert_loop prot flags acc False cs ce (v # rest) =
        insert_loop prot flags (((acc @ ?pre) @ [?new]) @ ?post) True cs ce rest"
      using diff by auto
    have nocross: "\<forall>w \<in> set rest. same_attr prot flags w \<longrightarrow> vma_start w < ce \<longrightarrow> vma_end w \<le> ce"
      if "tail_kept prot flags cs ce (v # rest)"
    proof (intro ballI impI)
      fix w assume w: "w \<in> set rest" "same_attr prot flags w" "vma_start w < ce"
      have lt: "vma_start v < vma_start w" using later [OF w(1)] v(2) by simp
      show "vma_end w \<le> ce"
      proof (rule ccontr)
        assume "\<not> vma_end w \<le> ce"
        then have "ce < vma_end w" by simp
        from tail_keptD [OF that list.set_intros(2) [OF w(1)] w(2,3) this list.set_intros(1) diff(1) lt]
        show False using diff(3) by blast
      qed
    qed
    have look: "(case vlook (((acc @ ?pre) @ [?new]) @ ?post) a of Some x \<Rightarrow> Some x | None \<Rightarrow> if ce \<le> a then vlook rest a else None) =
        (if cs \<le> a \<and> a < ce then Some (prot, flags)
          else case vlook acc a of Some x \<Rightarrow> Some x | None \<Rightarrow> vlook (v # rest) a)" for a
      using acc_none [of a] rest_none [of a] v diff Cons.prems(3) by (auto simp: vlook_append split: option.split)
    have "cs \<le> vma_end v" using diff by simp
    note ins = insert_loop_inserted [OF acc' v(3) this Cons.prems(4), of prot flags]
    show ?thesis unfolding step
    proof (intro conjI allI impI)
      fix a
      assume "tail_kept prot flags cs ce (v # rest)"
      from trans [OF ins [THEN conjunct2, THEN spec, THEN mp, OF nocross [OF this]] look [of a]]
      show "vlook (finish prot flags (insert_loop prot flags (((acc @ ?pre) @ [?new]) @ ?post) True cs ce rest)) a =
          (if cs \<le> a \<and> a < ce then Some (prot, flags)
           else case vlook acc a of Some x \<Rightarrow> Some x | None \<Rightarrow> vlook (v # rest) a)" .
    qed (use ins in blast)
  qed
qed

subsection \<open>Merging neighbours\<close>

lemma merge_step_spec:
  assumes "between lo hi (merged @ v # vs)"
  shows "between lo hi (merge_step v merged @ vs) \<and> vlook (merge_step v merged @ vs) a = vlook (merged @ v # vs) a"
proof (cases "merged \<noteq> [] \<and> vma_end (last merged) = vma_start v \<and> same_attr (vma_prot v) (vma_flags v) (last merged)")
  case True
  then obtain xs l where m: "merged = xs @ [l]" by (metis append_butlast_last_id)
  then have l: "vma_end l = vma_start v" "vma_prot l = vma_prot v" "vma_flags l = vma_flags v" using True by auto
  have step: "merge_step v merged = xs @ [l\<lparr>vma_end := vma_end v\<rparr>]"
    using True m by (simp add: merge_step_def)
  have "between lo hi (xs @ [l\<lparr>vma_end := vma_end v\<rparr>] @ vs)"
    using assms m l by (auto simp: between_append)
  moreover have "vma_start l < vma_end l" "vma_start v < vma_end v" using assms m by (auto simp: between_append)
  then have "vlook (xs @ [l\<lparr>vma_end := vma_end v\<rparr>] @ vs) a = vlook (xs @ [l] @ v # vs) a"
    using l by (auto simp: vlook_append split: option.split)
  ultimately show ?thesis using step m by simp
next
  case False
  then have "merge_step v merged = merged @ [v]" by (auto simp: merge_step_def)
  then show ?thesis using assms by simp
qed

lemma fold_merge_spec:
  assumes "between lo hi (merged @ vs)"
  shows "between lo hi (fold merge_step vs merged) \<and> (\<forall>a. vlook (fold merge_step vs merged) a = vlook (merged @ vs) a)"
  using assms
proof (induction vs arbitrary: merged)
  case (Cons v vs)
  then show ?case using Cons.IH [of "merge_step v merged"] merge_step_spec [OF Cons.prems] by auto
qed simp

lemma insert_vma_finish:
  "start < end' \<Longrightarrow> insert_vma vmas start end' prot flags =
    fold merge_step (finish prot flags (insert_loop prot flags [] False start end' vmas)) []"
  by (auto simp: insert_vma_def finish_def Let_def split: prod.splits)

lemma insert_vma_between:
  assumes "between 0 hi vmas" "end' \<le> hi"
  shows "between 0 hi (insert_vma vmas start end' prot flags)"
proof (cases "start < end'")
  case True
  have "between 0 hi (finish prot flags (insert_loop prot flags [] False start end' vmas))"
    using insert_loop_pending [of start 0 "[]" hi vmas end' prot flags] assms True by simp
  then show ?thesis using fold_merge_spec [of 0 hi "[]"] by (simp add: insert_vma_finish [OF True])
qed (use assms in \<open>simp add: insert_vma_def\<close>)

lemma insert_vma_look:
  assumes "between 0 hi vmas" "start < end'" "end' \<le> hi" "tail_kept prot flags start end' vmas"
  shows "vlook (insert_vma vmas start end' prot flags) a =
    (if start \<le> a \<and> a < end' then Some (prot, flags) else vlook vmas a)"
proof -
  let ?l = "finish prot flags (insert_loop prot flags [] False start end' vmas)"
  have "between 0 hi ?l" "vlook ?l a = (if start \<le> a \<and> a < end' then Some (prot, flags) else vlook vmas a)"
    using insert_loop_pending [of start 0 "[]" hi vmas end' prot flags] assms by auto
  then show ?thesis using fold_merge_spec [of 0 hi "[]" ?l] by (simp add: insert_vma_finish [OF assms(2)])
qed

subsection \<open>Coverage, removal and protection\<close>

lemma contains_loop_iff:
  assumes "between lo hi vmas" "cur < end'"
  shows "contains_loop cur end' vmas \<longleftrightarrow> (\<forall>a. cur \<le> a \<and> a < end' \<longrightarrow> vlook vmas a \<noteq> None)"
  using assms
proof (induction vmas arbitrary: lo cur)
  case Nil
  then show ?case by auto
next
  case (Cons v vmas)
  have v: "lo \<le> vma_start v" "vma_start v < vma_end v" "between (vma_end v) hi vmas" using Cons.prems by auto
  have rest: "vlook vmas a = None" if "a < vma_end v" for a using vlook_outside [OF v(3), of a] that by simp
  consider (skip) "vma_end v \<le> cur" | (gap) "cur < vma_start v" | (last) "vma_start v \<le> cur" "cur < vma_end v" "end' \<le> vma_end v"
    | (more) "vma_start v \<le> cur" "cur < vma_end v" "vma_end v < end'" by linarith
  then show ?case
  proof cases
    case skip
    then show ?thesis using Cons.IH [OF v(3) Cons.prems(2)] by auto
  next
    case gap
    then have "vlook (v # vmas) cur = None" using rest v by simp
    then have no: "\<not> (\<forall>a. cur \<le> a \<and> a < end' \<longrightarrow> vlook (v # vmas) a \<noteq> None)" using Cons.prems(2) by blast
    have "vlook vmas cur = None" using rest gap v by simp
    then have "\<not> contains_loop cur end' vmas" using Cons.IH [OF v(3) Cons.prems(2)] Cons.prems(2) by blast
    then show ?thesis using no gap by (simp del: vlook_simps)
  next
    case last
    then show ?thesis by auto
  next
    case more
    have "contains_loop (vma_end v) end' vmas \<longleftrightarrow> (\<forall>a. vma_end v \<le> a \<and> a < end' \<longrightarrow> vlook vmas a \<noteq> None)"
      using Cons.IH [OF v(3)] more by simp
    then show ?thesis using more by auto
  qed
qed

lemma cut_vma_spec:
  assumes "vma_start v < vma_end v" "start < end'"
  shows "between (vma_start v) (vma_end v) (cut_vma start end' v)"
    "vlook (cut_vma start end' v) a = (if start \<le> a \<and> a < end' then None else vlook [v] a)"
  using assms by (auto simp: cut_vma_def)

lemma remove_vmas_spec:
  assumes "between lo hi vmas" "start < end'"
  shows "between lo hi (remove_vmas vmas start end')
    \<and> (\<forall>a. vlook (remove_vmas vmas start end') a = (if start \<le> a \<and> a < end' then None else vlook vmas a))"
  using assms(1)
proof (induction vmas arbitrary: lo)
  case (Cons v vmas)
  have v: "lo \<le> vma_start v" "vma_start v < vma_end v" "between (vma_end v) hi vmas" using Cons.prems by auto
  have "between lo hi (cut_vma start end' v @ remove_vmas vmas start end')"
    using between_mono [OF cut_vma_spec(1) [OF v(2) assms(2)] v(1)] Cons.IH [OF v(3)] by (auto simp: between_append)
  moreover have "vlook (cut_vma start end' v @ remove_vmas vmas start end') a =
      (if start \<le> a \<and> a < end' then None else vlook (v # vmas) a)" for a
    using cut_vma_spec(2) [OF v(2) assms(2), of a] Cons.IH [OF v(3)] by (auto simp: vlook_append split: if_splits)
  ultimately show ?case by (simp add: remove_vmas_def)
qed (simp add: remove_vmas_def)

lemma tail_kept_const:
  assumes "between lo hi vs" "s < e" and const: "\<And>a. s \<le> a \<Longrightarrow> a < e \<Longrightarrow> vlook vs a = Some (p, f)"
  shows "tail_kept prot flags s e vs"
  unfolding tail_kept_def
proof (intro ballI impI)
  fix w u
  assume w: "w \<in> set vs" "same_attr prot flags w" "vma_start w < e" "e < vma_end w"
    and u: "u \<in> set vs" "s < vma_end u" "vma_start u < vma_start w"
  have "vlook vs (e - 1) = Some (prot, flags)" using vlook_member [OF assms(1) w(1), of "e - 1"] w by auto
  then have pf: "(p, f) = (prot, flags)" using const [of "e - 1"] assms(2) by auto
  have "vlook vs (max s (vma_start u)) = Some (vma_prot u, vma_flags u)"
    using between_member [OF assms(1) u(1)] u by (intro vlook_member [OF assms(1) u(1)]) auto
  then show "same_attr prot flags u" using const [of "max s (vma_start u)"] pf u w assms(2) by auto
qed

lemma segments_Cons:
  "segments (v # vs) start end' =
    (if max (vma_start v) start < min (vma_end v) end'
     then [(max (vma_start v) start, min (vma_end v) end', vma_flags v)] else []) @ segments vs start end'"
  by (simp add: segments_def)

lemma protect_fold_spec:
  assumes "between m hi rest" "between 0 hi cur" "\<And>a. m \<le> a \<Longrightarrow> vlook cur a = vlook rest a"
  shows "between 0 hi (fold (\<lambda>(s, e, f) vmas. insert_vma vmas s e new_prot f) (segments rest start end') cur)
    \<and> (\<forall>a. vlook (fold (\<lambda>(s, e, f) vmas. insert_vma vmas s e new_prot f) (segments rest start end') cur) a =
        (if m \<le> a \<and> start \<le> a \<and> a < end' then map_option (\<lambda>(p, f). (new_prot, f)) (vlook rest a) else vlook cur a))"
  using assms
proof (induction rest arbitrary: m cur)
  case Nil
  then show ?case by (auto simp: segments_def)
next
  case (Cons v rest)
  have v: "m \<le> vma_start v" "vma_start v < vma_end v" "between (vma_end v) hi rest" using Cons.prems(1) by auto
  have rest: "vlook rest a = None" if "a < vma_end v" for a using vlook_outside [OF v(3), of a] that by simp
  let ?s = "max (vma_start v) start" and ?e = "min (vma_end v) end'"
  let ?cur = "if ?s < ?e then insert_vma cur ?s ?e new_prot (vma_flags v) else cur"
  have e: "?e \<le> hi" using between_le [OF v(3)] by simp
  have look: "vlook ?cur a = (if ?s \<le> a \<and> a < ?e then Some (new_prot, vma_flags v) else vlook cur a)" for a
  proof (cases "?s < ?e")
    case True
    have "vlook cur b = Some (vma_prot v, vma_flags v)" if "?s \<le> b" "b < ?e" for b
      using Cons.prems(3) [of b] that v by simp
    from insert_vma_look [OF Cons.prems(2) True e tail_kept_const [OF Cons.prems(2) True this]] True
    show ?thesis by simp
  qed auto
  have btw: "between 0 hi ?cur" using insert_vma_between [OF Cons.prems(2) e] Cons.prems(2) by simp
  have "vlook ?cur a = vlook rest a" if "vma_end v \<le> a" for a
    using look [of a] Cons.prems(3) [of a] that v by simp
  note IH = Cons.IH [OF v(3) btw this]
  have step: "fold (\<lambda>(s, e, f) vmas. insert_vma vmas s e new_prot f) (segments (v # rest) start end') cur =
      fold (\<lambda>(s, e, f) vmas. insert_vma vmas s e new_prot f) (segments rest start end') ?cur"
    by (simp add: segments_Cons)
  show ?case unfolding step
  proof (intro conjI allI)
    fix a
    have "(if vma_end v \<le> a \<and> start \<le> a \<and> a < end' then map_option (\<lambda>(p, f). (new_prot, f)) (vlook rest a) else vlook ?cur a)
        = (if m \<le> a \<and> start \<le> a \<and> a < end' then map_option (\<lambda>(p, f). (new_prot, f)) (vlook (v # rest) a) else vlook cur a)"
      unfolding look using Cons.prems(3) [of a] rest [of a] v by auto
    then show "vlook (fold (\<lambda>(s, e, f) vmas. insert_vma vmas s e new_prot f) (segments rest start end') ?cur) a
        = (if m \<le> a \<and> start \<le> a \<and> a < end' then map_option (\<lambda>(p, f). (new_prot, f)) (vlook (v # rest) a) else vlook cur a)"
      using IH by simp
  qed (use IH in blast)
qed

subsection \<open>Neighbours that could be merged\<close>

definition mergeable :: "Vma \<Rightarrow> Vma \<Rightarrow> bool" where
  "mergeable v w \<longleftrightarrow> vma_end v = vma_start w \<and> vma_prot v = vma_prot w \<and> vma_flags v = vma_flags w"

lemma coalesced_snoc:
  "successively (\<lambda>v w. \<not> mergeable v w) (xs @ [l]) \<longleftrightarrow>
    successively (\<lambda>v w. \<not> mergeable v w) xs \<and> (xs = [] \<or> \<not> mergeable (last xs) l)"
  by (auto simp: successively_append_iff)

lemma coalesced_snoc2:
  "successively (\<lambda>v w. \<not> mergeable v w) (xs @ [l, v]) \<longleftrightarrow>
    successively (\<lambda>v w. \<not> mergeable v w) (xs @ [l]) \<and> \<not> mergeable l v"
  using coalesced_snoc [of "xs @ [l]" v] by simp

lemma fold_merge_coalesced:
  "successively (\<lambda>v w. \<not> mergeable v w) merged \<Longrightarrow> successively (\<lambda>v w. \<not> mergeable v w) (fold merge_step vs merged)"
proof (induction vs arbitrary: merged)
  case (Cons v vs)
  have "successively (\<lambda>v w. \<not> mergeable v w) (merge_step v merged)"
  proof (cases merged rule: rev_cases)
    case (snoc xs l)
    have "mergeable (last xs) (l\<lparr>vma_end := e\<rparr>) = mergeable (last xs) l" for e by (simp add: mergeable_def)
    then show ?thesis using Cons.prems snoc
      by (cases "mergeable l v") (auto simp: merge_step_def coalesced_snoc coalesced_snoc2 mergeable_def [of l])
  qed (simp add: merge_step_def)
  then show ?case using Cons.IH by simp
qed simp

subsection \<open>Endpoints\<close>

abbreviation ends_in :: "usize set \<Rightarrow> Vma list \<Rightarrow> bool" where
  "ends_in E vs \<equiv> \<forall>v \<in> set vs. vma_start v \<in> E \<and> vma_end v \<in> E"

lemma insert_loop_ends:
  "ends_in E acc \<Longrightarrow> cs \<in> E \<Longrightarrow> ce \<in> E \<Longrightarrow> ends_in E vs \<Longrightarrow>
    ends_in E (finish prot flags (insert_loop prot flags acc ins cs ce vs))"
proof (induction vs arbitrary: acc ins cs ce)
  case (Cons v vs)
  have m: "min cs (vma_start v) \<in> E" "max ce (vma_end v) \<in> E" using Cons.prems by (auto simp: min_def max_def)
  have vs: "ends_in E vs" using Cons.prems(4) by simp
  let ?new = "if \<not> ins then [mk_vma cs ce prot flags] else []"
  let ?split = "acc @ (if vma_start v < cs then [mk_vma (vma_start v) cs (vma_prot v) (vma_flags v)] else [])
      @ ?new @ (if vma_end v > ce then [mk_vma ce (vma_end v) (vma_prot v) (vma_flags v)] else [])"
  have acc: "ends_in E (acc @ [v])" "ends_in E (acc @ ?new @ [v])" "ends_in E ?split" using Cons.prems by auto
  consider "vma_end v \<le> cs" | "\<not> vma_end v \<le> cs" "vma_start v \<ge> ce"
    | "\<not> vma_end v \<le> cs" "\<not> vma_start v \<ge> ce" "same_attr prot flags v"
    | "\<not> vma_end v \<le> cs" "\<not> vma_start v \<ge> ce" "\<not> same_attr prot flags v" by blast
  then show ?case
  proof cases
    case 1
    then have "insert_loop prot flags acc ins cs ce (v # vs) = insert_loop prot flags (acc @ [v]) ins cs ce vs" by simp
    then show ?thesis using Cons.IH [OF acc(1) Cons.prems(2,3) vs, of ins] by argo
  next
    case 2
    then have "insert_loop prot flags acc ins cs ce (v # vs) = insert_loop prot flags (acc @ ?new @ [v]) True cs ce vs" by simp
    then show ?thesis using Cons.IH [OF acc(2) Cons.prems(2,3) vs, of True] by argo
  next
    case 3
    then have "insert_loop prot flags acc ins cs ce (v # vs) = insert_loop prot flags acc ins (min cs (vma_start v)) (max ce (vma_end v)) vs" by simp
    then show ?thesis using Cons.IH [OF Cons.prems(1) m vs, of ins] by argo
  next
    case 4
    then have "insert_loop prot flags acc ins cs ce (v # vs) = insert_loop prot flags ?split True cs ce vs"
      unfolding insert_loop.simps by argo
    then show ?thesis using Cons.IH [OF acc(3) Cons.prems(2,3) vs, of True] by argo
  qed
qed (auto simp: finish_def)

lemma fold_merge_ends: "ends_in E merged \<Longrightarrow> ends_in E vs \<Longrightarrow> ends_in E (fold merge_step vs merged)"
proof (induction vs arbitrary: merged)
  case (Cons v vs)
  have "ends_in E (merge_step v merged)"
    using Cons.prems by (cases merged rule: rev_cases) (auto simp: merge_step_def)
  moreover have "ends_in E vs" using Cons.prems(2) by simp
  ultimately show ?case using Cons.IH [of "merge_step v merged"] unfolding fold_simps by blast
qed simp

lemma insert_vma_ends: "start \<in> E \<Longrightarrow> end' \<in> E \<Longrightarrow> ends_in E vs \<Longrightarrow> ends_in E (insert_vma vs start end' prot flags)"
proof (cases "start < end'")
  case True
  assume "start \<in> E" "end' \<in> E" "ends_in E vs"
  then show ?thesis unfolding insert_vma_finish [OF True]
    by (intro fold_merge_ends insert_loop_ends) simp_all
qed (simp add: insert_vma_def)

lemma fold_insert_ends:
  "\<forall>(s, e, f) \<in> set segs. s \<in> E \<and> e \<in> E \<Longrightarrow> ends_in E cur \<Longrightarrow>
    ends_in E (fold (\<lambda>(s, e, f) vmas. insert_vma vmas s e new_prot f) segs cur)"
proof (induction segs arbitrary: cur)
  case (Cons x segs)
  obtain s e f where x: "x = (s, e, f)" by (cases x)
  then have "ends_in E (insert_vma cur s e new_prot f)" using Cons.prems by (intro insert_vma_ends) auto
  from Cons.IH [OF _ this] Cons.prems(1) show ?case by (simp add: x)
qed simp

lemma protect_vmas_ends:
  assumes "start \<in> E" "end' \<in> E" "ends_in E vs"
  shows "ends_in E (protect_vmas vs start end' new_prot)"
proof -
  have "max (vma_start v) start \<in> E" "min (vma_end v) end' \<in> E" if "v \<in> set vs" for v
    using assms that by (simp_all add: max_def min_def)
  then have "\<forall>(s, e, f) \<in> set (segments vs start end'). s \<in> E \<and> e \<in> E" by (auto simp: segments_def)
  from fold_insert_ends [OF this assms(3)] show ?thesis unfolding protect_vmas_def .
qed

subsection \<open>The operations as updates of the address map\<close>

text \<open>
  Recording a mapping keeps the area list sorted, disjoint and made of non-empty areas, leaves no two
  neighbours that could be one area, and changes the recorded attributes exactly inside the new range,
  provided no area with the new attributes reaches across the end of the range behind an area with
  other attributes.
\<close>

theorem insert_vma_correct:
  assumes "between 0 hi vmas" "start < end'" "end' \<le> hi" "tail_kept prot flags start end' vmas"
  shows "between 0 hi (insert_vma vmas start end' prot flags)
    \<and> successively (\<lambda>v w. \<not> mergeable v w) (insert_vma vmas start end' prot flags)
    \<and> vlook (insert_vma vmas start end' prot flags) =
      (\<lambda>a. if start \<le> a \<and> a < end' then Some (prot, flags) else vlook vmas a)"
proof (intro conjI)
  show "successively (\<lambda>v w. \<not> mergeable v w) (insert_vma vmas start end' prot flags)"
    by (simp add: insert_vma_finish [OF assms(2)] fold_merge_coalesced)
qed (use insert_vma_between [OF assms(1,3)] insert_vma_look [OF assms] in auto)

theorem insert_vma_correct_witness:
  "between 0 40 (insert_vma [mk_vma 0 10 1 2, mk_vma 20 30 3 2] 5 20 3 2)
   \<and> vlook (insert_vma [mk_vma 0 10 1 2, mk_vma 20 30 3 2] 5 20 3 2) 12 = Some (3, 2)
   \<and> insert_vma [mk_vma 0 10 1 2, mk_vma 20 30 3 2] 5 20 3 2 = [mk_vma 0 5 1 2, mk_vma 5 30 3 2]"
proof -
  have h: "between 0 40 [mk_vma 0 10 1 2, mk_vma 20 30 3 2]" "5 < (20 :: nat)" "20 \<le> (40 :: nat)"
    "tail_kept 3 2 5 20 [mk_vma 0 10 1 2, mk_vma 20 30 3 2]"
    by (simp_all add: tail_kept_def)
  show ?thesis using insert_vma_correct [OF h]
    by (simp add: insert_vma_def merge_step_def)
qed

text \<open>
  The proviso of insertion is needed: with an area of protection 1 below one of protection 3, recording
  a range of protection 3 that straddles their border forgets the part of the second area beyond the range.
\<close>

theorem insert_vma_tail_loss:
  "vlook [mk_vma 0 10 1 2, mk_vma 10 20 3 2] 17 = Some (3, 2)
   \<and> insert_vma [mk_vma 0 10 1 2, mk_vma 10 20 3 2] 5 15 3 2 = [mk_vma 0 5 1 2, mk_vma 5 15 3 2]
   \<and> vlook (insert_vma [mk_vma 0 10 1 2, mk_vma 10 20 3 2] 5 15 3 2) 17 = None"
  by (simp add: insert_vma_def merge_step_def)

text \<open>
  The coverage test accepts a range exactly when it is non-empty and every address of it lies in a
  recorded area.
\<close>

theorem contains_range_iff:
  assumes "between 0 hi vmas"
  shows "contains_range vmas start end' \<longleftrightarrow>
    start < end' \<and> (\<forall>a. start \<le> a \<and> a < end' \<longrightarrow> find_vma vmas a \<noteq> None)"
proof -
  have "vlook vmas a = None \<longleftrightarrow> find_vma vmas a = None" for a by (simp add: vlook_def)
  then show ?thesis using contains_loop_iff [OF assms, of start end'] by (auto simp: contains_range_def)
qed

theorem contains_range_iff_witness:
  "contains_range [mk_vma 0 10 1 2, mk_vma 10 20 3 2] 5 15
   \<and> find_vma [mk_vma 0 10 1 2, mk_vma 10 20 3 2] 12 \<noteq> None
   \<and> \<not> contains_range [mk_vma 0 10 1 2, mk_vma 12 20 3 2] 5 15"
proof -
  have c: "contains_range [mk_vma 0 10 1 2, mk_vma 10 20 3 2] 5 15" by (simp add: contains_range_def)
  have b: "between 0 20 [mk_vma 0 10 1 2, mk_vma 10 20 3 2]" by simp
  have "find_vma [mk_vma 0 10 1 2, mk_vma 10 20 3 2] 12 \<noteq> None"
    using contains_range_iff [OF b, of 5 15] c by simp
  then show ?thesis using c by (simp add: contains_range_def)
qed

text \<open>
  Removing a range from the area list keeps it sorted and disjoint, and forgets exactly the
  addresses of the range.
\<close>

theorem remove_vmas_correct:
  assumes "between 0 hi vmas" "start < end'"
  shows "between 0 hi (remove_vmas vmas start end')
    \<and> vlook (remove_vmas vmas start end') = (\<lambda>a. if start \<le> a \<and> a < end' then None else vlook vmas a)"
  using remove_vmas_spec [OF assms] by auto

theorem remove_vmas_correct_witness:
  "vlook (remove_vmas [mk_vma 0 10 1 2, mk_vma 10 20 3 2] 5 15) 4 = Some (1, 2)
   \<and> vlook (remove_vmas [mk_vma 0 10 1 2, mk_vma 10 20 3 2] 5 15) 7 = None
   \<and> vlook (remove_vmas [mk_vma 0 10 1 2, mk_vma 10 20 3 2] 5 15) 15 = Some (3, 2)"
  using remove_vmas_correct [of 20 "[mk_vma 0 10 1 2, mk_vma 10 20 3 2]" 5 15] by simp

text \<open>
  A protection change keeps the area list sorted and disjoint, and sets the protection of exactly the
  recorded addresses of the range, each keeping its flags; no other address is affected.
\<close>

theorem protect_vmas_correct:
  assumes "between 0 hi vmas"
  shows "between 0 hi (protect_vmas vmas start end' new_prot)
    \<and> vlook (protect_vmas vmas start end' new_prot) =
      (\<lambda>a. if start \<le> a \<and> a < end' then map_option (\<lambda>(p, f). (new_prot, f)) (vlook vmas a) else vlook vmas a)"
  using protect_fold_spec [OF assms assms, of new_prot start end'] by (auto simp: protect_vmas_def)

theorem protect_vmas_correct_witness:
  "vlook (protect_vmas [mk_vma 0 10 1 2, mk_vma 10 20 3 4] 5 15 7) 4 = Some (1, 2)
   \<and> vlook (protect_vmas [mk_vma 0 10 1 2, mk_vma 10 20 3 4] 5 15 7) 5 = Some (7, 2)
   \<and> vlook (protect_vmas [mk_vma 0 10 1 2, mk_vma 10 20 3 4] 5 15 7) 14 = Some (7, 4)
   \<and> vlook (protect_vmas [mk_vma 0 10 1 2, mk_vma 10 20 3 4] 5 15 7) 15 = Some (3, 4)"
  using protect_vmas_correct [of 20 "[mk_vma 0 10 1 2, mk_vma 10 20 3 4]" 5 15 7] by simp

end
