(* ===== verification/Vmm.thy ===== *)
theory Vmm
  imports Paging Vma
begin

text \<open>
  User address spaces, from \<^verbatim>\<open>kernel/src/ostd/mm/vmm.rs\<close>: a root table and a list of areas, with
  creation, removal and protection of ranges, population with fresh frames, writing of kernel data,
  cloning for \<open>fork\<close>, and tear-down.
\<close>

record VmSpace =
  address_space :: usize
  vmas :: "Vma list"

text \<open>\<open>Result<(), &'static str>\<close>, with a panic as third case.\<close>

datatype vm_result = VmOk | VmErr string | VmPanic

subsection \<open>Bytes of physical memory\<close>

text \<open>Physical memory is kept as 64-bit words; the bytes of a word are in little-endian order.\<close>

definition get_byte :: "(usize \<Rightarrow> u64) \<Rightarrow> usize \<Rightarrow> u8" where
  "get_byte m a = ucast (drop_bit (8 * (a mod 8)) (m (a div 8)))"

definition put_byte :: "usize \<Rightarrow> u8 \<Rightarrow> (usize \<Rightarrow> u64) \<Rightarrow> usize \<Rightarrow> u64" where
  "put_byte a b m = m(a div 8 :=
     (m (a div 8) AND NOT (push_bit (8 * (a mod 8)) 0xFF)) OR push_bit (8 * (a mod 8)) (ucast b))"

fun copy_bytes :: "usize \<Rightarrow> bytes \<Rightarrow> (usize \<Rightarrow> u64) \<Rightarrow> usize \<Rightarrow> u64" where
  "copy_bytes a [] m = m"
| "copy_bytes a (b # bs) m = copy_bytes (a + 1) bs (put_byte a b m)"

subsection \<open>Operations\<close>

text \<open>\<open>active_root\<close> is the root table loaded in the MMU.\<close>

definition VmSpace_new :: "usize \<Rightarrow> mmu \<Rightarrow> VmSpace option \<times> mmu" where
  "VmSpace_new active_root s =
    (case kernel_alloc_frame s of
       (None, s) \<Rightarrow> (None, s)
     | (Some root_phys, s) \<Rightarrow>
        let s = zero_phys_frame root_phys s;
            s = copy_kernel_mappings root_phys active_root s
        in (Some \<lparr> address_space = root_phys, vmas = [] \<rparr>, s))"

definition remove_vma_range :: "VmSpace \<Rightarrow> usize \<Rightarrow> usize \<Rightarrow> mmu \<Rightarrow> vm_result \<times> VmSpace \<times> mmu" where
  "remove_vma_range vm start end' s =
    (if start \<ge> end' then (VmOk, vm, s)
     else if end' + PAGE_SIZE \<ge> USIZE_LIMIT then (VmPanic, vm, s)
     else
       let aligned_start = align_down start PAGE_SIZE;
           aligned_end = align_down (end' + PAGE_SIZE - 1) PAGE_SIZE;
           page_count = (aligned_end - aligned_start) div PAGE_SIZE;
           s = unmap_range (address_space vm) aligned_start page_count s
       in (VmOk, vm\<lparr> vmas := remove_vmas (vmas vm) start end' \<rparr>, s))"

text \<open>The loop of \<open>mprotect_range\<close> over the pages, by the number of pages left.\<close>

fun protect_pages :: "usize \<Rightarrow> PageFlags \<Rightarrow> usize \<Rightarrow> nat \<Rightarrow> mmu \<Rightarrow> mmu" where
  "protect_pages root flags page_vaddr 0 s = s"
| "protect_pages root flags page_vaddr (Suc n) s =
    protect_pages root flags (page_vaddr + PAGE_SIZE) n (set_page_flags root page_vaddr flags s)"

definition mprotect_range :: "VmSpace \<Rightarrow> usize \<Rightarrow> usize \<Rightarrow> u32 \<Rightarrow> mmu \<Rightarrow> vm_result \<times> VmSpace \<times> mmu" where
  "mprotect_range vm start end' new_prot s =
    (if start \<ge> end' \<or> \<not> contains_range (vmas vm) start end' then (VmErr ''Unmapped gap in range'', vm, s)
     else if end' + PAGE_SIZE \<ge> USIZE_LIMIT then (VmPanic, vm, s)
     else
       let aligned_start = align_down start PAGE_SIZE;
           aligned_end = align_down (end' + PAGE_SIZE - 1) PAGE_SIZE;
           s = protect_pages (address_space vm) (from_prot new_prot) aligned_start
                 ((aligned_end - aligned_start) div PAGE_SIZE) s
       in (VmOk, vm\<lparr> vmas := protect_vmas (vmas vm) start end' new_prot \<rparr>, s))"

text \<open>
  The loop of \<open>alloc_and_map_range\<close>, over the page numbers \<open>i\<close>, \<dots>, \<open>i + n - 1\<close>; \<open>i\<close> is also the number of
  pages mapped so far.
\<close>

fun map_fresh_pages :: "usize \<Rightarrow> usize \<Rightarrow> PageFlags \<Rightarrow> nat \<Rightarrow> nat \<Rightarrow> mmu \<Rightarrow> vm_result \<times> mmu" where
  "map_fresh_pages root aligned_start flags i 0 s = (VmOk, s)"
| "map_fresh_pages root aligned_start flags i (Suc n) s =
    (case checked_mul i PAGE_SIZE of
       None \<Rightarrow> (VmErr ''Virtual address overflow'', unmap_range root aligned_start i s)
     | Some offset \<Rightarrow>
    (case checked_add aligned_start offset of
       None \<Rightarrow> (VmErr ''Virtual address overflow'', unmap_range root aligned_start i s)
     | Some virt \<Rightarrow>
    (case kernel_alloc_frame s of
       (None, s) \<Rightarrow> (VmErr ''Out of physical frames'', unmap_range root aligned_start i s)
     | (Some phys, s) \<Rightarrow>
    (case map_page root virt phys flags (zero_phys_frame phys s) of
       (False, s) \<Rightarrow> (VmErr ''Out of physical frames for page table'', unmap_range root aligned_start i (pool_free phys s))
     | (True, s) \<Rightarrow> map_fresh_pages root aligned_start flags (i + 1) n s))))"

definition alloc_and_map_range ::
  "VmSpace \<Rightarrow> usize \<Rightarrow> usize \<Rightarrow> PageFlags \<Rightarrow> mmu \<Rightarrow> vm_result \<times> VmSpace \<times> mmu" where
  "alloc_and_map_range vm start_virt size' flags s =
    (if start_virt + size' + PAGE_SIZE \<ge> USIZE_LIMIT then (VmPanic, vm, s)
     else
       let aligned_start = align_down start_virt PAGE_SIZE;
           aligned_end = align_down (start_virt + size' + PAGE_SIZE - 1) PAGE_SIZE;
           page_count = (aligned_end - aligned_start) div PAGE_SIZE
       in if page_count > snd (get_pmm_stats (Some (pmm s))) then (VmErr ''Out of physical frames'', vm, s)
          else case map_fresh_pages (address_space vm) aligned_start flags 0 page_count s of
              (VmOk, s) \<Rightarrow>
                let prot = word_of_int PROT_READ;
                    prot = (if pf_writable flags then prot OR word_of_int PROT_WRITE else prot);
                    prot = (if \<not> pf_no_exec flags then prot OR word_of_int PROT_EXEC else prot)
                in (VmOk, vm\<lparr> vmas := insert_vma (vmas vm) aligned_start aligned_end prot 0 \<rparr>, s)
            | (e, s) \<Rightarrow> (e, vm, s))"

text \<open>The loop of \<open>write_bytes_to_space\<close>; every round writes up to the end of a page, hence at least one byte.\<close>

function write_bytes_loop :: "usize \<Rightarrow> usize \<Rightarrow> bytes \<Rightarrow> usize \<Rightarrow> mmu \<Rightarrow> vm_result \<times> mmu" where
  "write_bytes_loop root target_virt data written s =
    (if written < length data then
       let curr_virt = target_virt + written in
       if curr_virt \<ge> USIZE_LIMIT then (VmPanic, s)
       else
         let offset_in_page = curr_virt mod PAGE_SIZE;
             available_in_page = PAGE_SIZE - offset_in_page;
             to_write = min (length data - written) available_in_page
         in case translate (mem s) root curr_virt of
              None \<Rightarrow> (VmErr ''Unmapped virtual address during write'', s)
            | Some phys \<Rightarrow>
                write_bytes_loop root target_virt data (written + to_write)
                  (s\<lparr> mem := copy_bytes phys (take to_write (drop written data)) (mem s) \<rparr>)
     else (VmOk, s))"
  by pat_completeness auto
termination
  by (relation "measure (\<lambda>(root, target_virt, data, written, s). length data - written)")
    (auto simp: PAGE_SIZE_def)

declare write_bytes_loop.simps [simp del]

definition write_bytes_to_space :: "VmSpace \<Rightarrow> usize \<Rightarrow> bytes \<Rightarrow> mmu \<Rightarrow> vm_result \<times> mmu" where
  "write_bytes_to_space vm target_virt data s = write_bytes_loop (address_space vm) target_virt data 0 s"

text \<open>
  The two loops of \<open>clone_from\<close>: over the areas, and over the pages of one area. \<open>None\<close> is the early
  return when no frame is left; the result of \<open>map_page\<close> is ignored, as in the code.
\<close>

definition copy_frame :: "usize \<Rightarrow> usize \<Rightarrow> mmu \<Rightarrow> mmu" where
  "copy_frame parent_src child_dst s = s\<lparr> mem := (\<lambda>a.
     if child_dst div 8 \<le> a \<and> a < child_dst div 8 + 512
     then mem s (parent_src div 8 + (a - child_dst div 8)) else mem s a) \<rparr>"

fun clone_pages :: "usize \<Rightarrow> usize \<Rightarrow> PageFlags \<Rightarrow> usize \<Rightarrow> nat \<Rightarrow> mmu \<Rightarrow> bool \<times> mmu" where
  "clone_pages parent child flags vaddr 0 s = (True, s)"
| "clone_pages parent child flags vaddr (Suc n) s =
    (case translate (mem s) parent vaddr of
       None \<Rightarrow> clone_pages parent child flags (vaddr + PAGE_SIZE) n s
     | Some parent_phys \<Rightarrow>
    (case kernel_alloc_frame s of
       (None, s) \<Rightarrow> (False, s)
     | (Some child_phys, s) \<Rightarrow>
        let s = copy_frame (align_down parent_phys PAGE_SIZE) child_phys s;
            (_, s) = map_page child vaddr child_phys flags s
        in clone_pages parent child flags (vaddr + PAGE_SIZE) n s))"

fun clone_areas :: "usize \<Rightarrow> usize \<Rightarrow> Vma list \<Rightarrow> mmu \<Rightarrow> bool kres \<times> mmu" where
  "clone_areas parent child [] s = (Ok True, s)"
| "clone_areas parent child (vma # areas) s =
    (if vma_end vma + PAGE_SIZE \<ge> USIZE_LIMIT then (Panic, s)
     else
       let vaddr = align_down (vma_start vma) PAGE_SIZE;
           end_vaddr = align_down (vma_end vma + PAGE_SIZE - 1) PAGE_SIZE in
       case clone_pages parent child (from_prot (vma_prot vma)) vaddr ((end_vaddr - vaddr) div PAGE_SIZE) s of
         (False, s) \<Rightarrow> (Ok False, s)
       | (True, s) \<Rightarrow> clone_areas parent child areas s)"

text \<open>
  \<open>Drop\<close>: in a development build the assertion that the address space is not the active one is checked
  first. The area list is cleared with the value itself.
\<close>

definition VmSpace_drop :: "usize \<Rightarrow> VmSpace \<Rightarrow> mmu \<Rightarrow> vm_result \<times> mmu" where
  "VmSpace_drop active_root vm s =
    (if active_root = address_space vm then (VmPanic, s)
     else (VmOk, free_page_table_hierarchy (address_space vm) s))"

definition clone_from :: "usize \<Rightarrow> VmSpace \<Rightarrow> mmu \<Rightarrow> VmSpace option kres \<times> mmu" where
  "clone_from active_root vm s =
    (case VmSpace_new active_root s of
       (None, s) \<Rightarrow> (Ok None, s)
     | (Some new_vm, s) \<Rightarrow>
        let new_vm = new_vm\<lparr> vmas := vmas vm \<rparr> in
        case clone_areas (address_space vm) (address_space new_vm) (vmas vm) s of
          (Ok True, s) \<Rightarrow> (Ok (Some new_vm), s)
        | (Ok False, s) \<Rightarrow>
            (case VmSpace_drop active_root new_vm s of
               (VmOk, s) \<Rightarrow> (Ok None, s)
             | (_, s) \<Rightarrow> (Panic, s))
        | (_, s) \<Rightarrow> (Panic, s))"


subsection \<open>Consistency of page tables and areas\<close>

definition areas_aligned :: "Vma list \<Rightarrow> bool" where
  "areas_aligned vs \<longleftrightarrow> (\<forall>v \<in> set vs. PAGE_SIZE dvd vma_start v \<and> PAGE_SIZE dvd vma_end v)"

text \<open>Every mapped user page lies in an area and has the access rights of that area.\<close>

definition coherent :: "VmSpace \<Rightarrow> mmu \<Rightarrow> bool" where
  "coherent vm s \<longleftrightarrow> (\<forall>w f a. mapped (address_space vm) s w = Some (f, a) \<longrightarrow>
     (\<exists>p fl. vlook (vmas vm) w = Some (p, fl) \<and> a = from_prot p))"

definition vm_ok :: "usize set \<Rightarrow> VmSpace \<Rightarrow> mmu \<Rightarrow> bool" where
  "vm_ok R vm s \<longleftrightarrow> vm_inv R (address_space vm) s \<and> between 0 USER_SPACE_END (vmas vm)
     \<and> areas_aligned (vmas vm) \<and> coherent vm s"

lemma page_range_between:
  assumes "PAGE_SIZE dvd start" "PAGE_SIZE dvd end'"
  shows "set (page_range start ((end' - start) div PAGE_SIZE)) = {w. PAGE_SIZE dvd w \<and> start \<le> w \<and> w < end'}"
proof (intro set_eqI iffI)
  fix w
  assume "w \<in> set (page_range start ((end' - start) div PAGE_SIZE))"
  then obtain i where i: "w = start + i * PAGE_SIZE" "i < (end' - start) div PAGE_SIZE"
    by (auto simp: page_range_def)
  then have "Suc i * PAGE_SIZE \<le> end' - start" by (simp add: less_eq_div_iff_mult_less_eq PAGE_SIZE_def Suc_le_eq)
  then show "w \<in> {w. PAGE_SIZE dvd w \<and> start \<le> w \<and> w < end'}" using i(1) assms(1) by (auto simp: PAGE_SIZE_def)
next
  fix w
  assume "w \<in> {w. PAGE_SIZE dvd w \<and> start \<le> w \<and> w < end'}"
  then have w: "PAGE_SIZE dvd w" "start \<le> w" "w < end'" by auto
  obtain a b c where abc: "start = PAGE_SIZE * a" "end' = PAGE_SIZE * b" "w = PAGE_SIZE * c" using assms w(1) by (elim dvdE) blast
  have P: "0 < PAGE_SIZE" by (simp add: PAGE_SIZE_def)
  have "a \<le> c" "c < b" using w(2,3) P by (auto simp: abc)
  then have "PAGE_SIZE * c = PAGE_SIZE * a + PAGE_SIZE * (c - a)" by (metis add_mult_distrib2 le_add_diff_inverse)
  then have "w = start + (c - a) * PAGE_SIZE" by (simp add: abc mult.commute)
  moreover have "(end' - start) div PAGE_SIZE = b - a" using P by (simp add: abc flip: diff_mult_distrib2)
  ultimately show "w \<in> set (page_range start ((end' - start) div PAGE_SIZE))"
    using \<open>a \<le> c\<close> \<open>c < b\<close> by (auto simp: page_range_def)
qed

lemma align_down_page_end: "PAGE_SIZE dvd e \<Longrightarrow> align_down (e + PAGE_SIZE - 1) PAGE_SIZE = e"
  by (auto simp: align_down_def PAGE_SIZE_def)

lemma areas_aligned_remove:
  "areas_aligned vs \<Longrightarrow> PAGE_SIZE dvd start \<Longrightarrow> PAGE_SIZE dvd end' \<Longrightarrow> areas_aligned (remove_vmas vs start end')"
  by (auto simp: areas_aligned_def remove_vmas_def cut_vma_def)

lemma protect_pages_spec:
  assumes "vm_inv R r s" "\<forall>i<n. user_page (v + i * PAGE_SIZE)" "s' = protect_pages r fl v n s"
  shows "vm_inv R r s' \<and> pool s' = pool s \<and> tables R s' = tables R s
    \<and> mapped r s' = (\<lambda>w. if w \<in> set (page_range v n)
        then map_option (\<lambda>(f, _). (f, fl\<lparr>pf_present := True\<rparr>)) (mapped r s w) else mapped r s w)
    \<and> (\<forall>r' \<in> R. r' \<noteq> r \<longrightarrow> mapped r' s' = mapped r' s)"
  using assms
proof (induction n arbitrary: v s)
  case 0
  then show ?case by (simp add: page_range_def)
next
  case (Suc n)
  let ?s = "set_page_flags r v fl s"
  have v: "user_page v" using Suc.prems(2) by force
  note one = set_page_flags_spec [OF Suc.prems(1) v refl, of fl]
  have "\<forall>i<n. user_page (v + PAGE_SIZE + i * PAGE_SIZE)"
  proof (intro allI impI)
    fix i assume "i < n"
    then have "user_page (v + Suc i * PAGE_SIZE)" using Suc.prems(2) by (metis Suc_less_eq)
    then show "user_page (v + PAGE_SIZE + i * PAGE_SIZE)" by (simp add: add.assoc)
  qed
  moreover have "s' = protect_pages r fl (v + PAGE_SIZE) n ?s" using Suc.prems(3) by simp
  ultimately have IH: "vm_inv R r s' \<and> pool s' = pool ?s \<and> tables R s' = tables R ?s
    \<and> mapped r s' = (\<lambda>w. if w \<in> set (page_range (v + PAGE_SIZE) n)
        then map_option (\<lambda>(f, _). (f, fl\<lparr>pf_present := True\<rparr>)) (mapped r ?s w) else mapped r ?s w)
    \<and> (\<forall>r' \<in> R. r' \<noteq> r \<longrightarrow> mapped r' s' = mapped r' ?s)"
    using one by (intro Suc.IH) simp_all
  have range: "set (page_range v (Suc n)) = insert v (set (page_range (v + PAGE_SIZE) n))"
    by (simp add: page_range_def upt_conv_Cons image_image add.assoc map_Suc_upt [symmetric] del: upt_Suc)
  have "v \<notin> set (page_range (v + PAGE_SIZE) n)" by (auto simp: page_range_def PAGE_SIZE_def)
  then have "mapped r s' = (\<lambda>w. if w \<in> set (page_range v (Suc n))
        then map_option (\<lambda>(f, _). (f, fl\<lparr>pf_present := True\<rparr>)) (mapped r s w) else mapped r s w)"
    using IH one unfolding range by (auto simp: fun_eq_iff)
  then show ?case using IH one by simp
qed

lemma areas_aligned_ends: "areas_aligned vs \<longleftrightarrow> ends_in {a. PAGE_SIZE dvd a} vs"
  by (simp add: areas_aligned_def)

lemma areas_aligned_protect:
  "areas_aligned vs \<Longrightarrow> PAGE_SIZE dvd start \<Longrightarrow> PAGE_SIZE dvd end' \<Longrightarrow> areas_aligned (protect_vmas vs start end' p)"
  unfolding areas_aligned_ends by (rule protect_vmas_ends) simp_all

lemma areas_aligned_insert:
  "areas_aligned vs \<Longrightarrow> PAGE_SIZE dvd start \<Longrightarrow> PAGE_SIZE dvd end' \<Longrightarrow> areas_aligned (insert_vma vs start end' p f)"
  unfolding areas_aligned_ends by (rule insert_vma_ends) simp_all

text \<open>Page ranges as the operations compute them from an aligned byte range.\<close>

lemma aligned_range:
  assumes "PAGE_SIZE dvd start" "PAGE_SIZE dvd end'" "end' \<le> USER_SPACE_END"
  shows "\<not> USIZE_LIMIT \<le> end' + PAGE_SIZE" "align_down start PAGE_SIZE = start"
    "align_down (end' + PAGE_SIZE - 1) PAGE_SIZE = end'"
    "\<forall>i<(end' - start) div PAGE_SIZE. user_page (start + i * PAGE_SIZE)"
proof -
  show "\<not> USIZE_LIMIT \<le> end' + PAGE_SIZE" using assms(3) by (simp add: USIZE_LIMIT_def USER_SPACE_END_def PAGE_SIZE_def)
  show "align_down start PAGE_SIZE = start" using assms(1) by (simp add: align_down_def)
  show "align_down (end' + PAGE_SIZE - 1) PAGE_SIZE = end'" using assms(2) by (rule align_down_page_end)
  have "user_page w" if "w \<in> set (page_range start ((end' - start) div PAGE_SIZE))" for w
    using that assms(3) unfolding page_range_between [OF assms(1,2)] user_page_def by auto
  then show "\<forall>i<(end' - start) div PAGE_SIZE. user_page (start + i * PAGE_SIZE)"
    by (auto simp: page_range_def)
qed

lemma mapped_aligned: "mapped r s w = Some x \<Longrightarrow> PAGE_SIZE dvd w"
  by (auto simp: mapped_def user_page_def split: if_splits)

lemma mapped_restrict_cong:
  assumes "\<And>w. PAGE_SIZE dvd w \<Longrightarrow> w \<in> A \<longleftrightarrow> w \<in> B"
  shows "mapped r s |` A = mapped r s |` B"
proof
  fix w
  show "(mapped r s |` A) w = (mapped r s |` B) w"
  proof (cases "PAGE_SIZE dvd w")
    case True
    then show ?thesis using assms [OF True] by (simp add: restrict_map_def)
  next
    case False
    then have "mapped r s w = None" using mapped_aligned [of r s w] by (cases "mapped r s w") auto
    then show ?thesis by (simp add: restrict_map_def)
  qed
qed

subsection \<open>Removal and protection of ranges\<close>

lemma remove_vma_range_spec:
  assumes "vm_ok R vm s" "PAGE_SIZE dvd start" "PAGE_SIZE dvd end'" "start < end'" "end' \<le> USER_SPACE_END"
    and "remove_vma_range vm start end' s = (res, vm', s')"
  shows "res = VmOk \<and> vm_ok R vm' s' \<and> address_space vm' = address_space vm
    \<and> mapped (address_space vm) s' = mapped (address_space vm) s |` {w. w < start \<or> end' \<le> w}
    \<and> pool s' = pool s \<union> fst ` ran (mapped (address_space vm) s |` {start..<end'})
    \<and> vlook (vmas vm') = vlook (vmas vm) |` {a. a < start \<or> end' \<le> a}
    \<and> (\<forall>r' \<in> R. r' \<noteq> address_space vm \<longrightarrow> mapped r' s' = mapped r' s)"
proof -
  let ?r = "address_space vm" and ?n = "(end' - start) div PAGE_SIZE"
  note ar = aligned_range [OF assms(2,3,5)]
  have ok: "vm_inv R ?r s" "between 0 USER_SPACE_END (vmas vm)" "areas_aligned (vmas vm)" "coherent vm s"
    using assms(1) by (auto simp: vm_ok_def)
  have res: "res = VmOk" "vm' = vm\<lparr>vmas := remove_vmas (vmas vm) start end'\<rparr>" "s' = unmap_range ?r start ?n s"
    using assms(4,6) ar(1-3) by (auto simp: remove_vma_range_def)
  note un = unmap_range_spec [OF ok(1) ar(4) res(3)]
  have range: "set (page_range start ?n) = {w. PAGE_SIZE dvd w \<and> start \<le> w \<and> w < end'}"
    using assms(2,3) by (rule page_range_between)
  have "mapped ?r s |` (- set (page_range start ?n)) = mapped ?r s |` {w. w < start \<or> end' \<le> w}"
    unfolding range by (rule mapped_restrict_cong) auto
  then have m: "mapped ?r s' = mapped ?r s |` {w. w < start \<or> end' \<le> w}" using un by simp
  have "mapped ?r s |` set (page_range start ?n) = mapped ?r s |` {start..<end'}"
    unfolding range by (rule mapped_restrict_cong) auto
  then have p: "pool s' = pool s \<union> fst ` ran (mapped ?r s |` {start..<end'})" using un by simp
  have v: "between 0 USER_SPACE_END (remove_vmas (vmas vm) start end')"
    "vlook (remove_vmas (vmas vm) start end') = vlook (vmas vm) |` {a. a < start \<or> end' \<le> a}"
    using remove_vmas_spec [OF ok(2) assms(4)] by (auto simp: restrict_map_def fun_eq_iff)
  have "coherent vm' s'"
    using ok(4) m v(2) by (simp add: coherent_def res(2) restrict_map_def)
  then have "vm_ok R vm' s'" using un v(1) areas_aligned_remove [OF ok(3) assms(2,3)] by (simp add: vm_ok_def res(2))
  then show ?thesis using res m p v(2) un by simp
qed

text \<open>
  C14: Removing an aligned range of an address space succeeds, keeps page tables and areas consistent, unmaps
  exactly the pages of the range, returns exactly their frames to the allocator, forgets exactly the
  range in the area list, and touches no other address space.
\<close>

theorem remove_vma_range_correct:
  assumes "vm_ok R vm s" "PAGE_SIZE dvd start" "PAGE_SIZE dvd end'" "start < end'" "end' \<le> USER_SPACE_END"
    and "remove_vma_range vm start end' s = (res, vm', s')"
  shows "res = VmOk \<and> vm_ok R vm' s' \<and> address_space vm' = address_space vm
    \<and> mapped (address_space vm) s' = mapped (address_space vm) s |` {w. w < start \<or> end' \<le> w}
    \<and> pool s' = pool s \<union> fst ` ran (mapped (address_space vm) s |` {start..<end'})
    \<and> vlook (vmas vm') = vlook (vmas vm) |` {a. a < start \<or> end' \<le> a}
    \<and> (\<forall>r' \<in> R. r' \<noteq> address_space vm \<longrightarrow> mapped r' s' = mapped r' s)"
  using remove_vma_range_spec [OF assms] .

lemma from_prot_present [simp]: "(from_prot p)\<lparr>pf_present := True\<rparr> = from_prot p" "pf_user (from_prot p)"
  by (simp_all add: from_prot_def)

lemma mprotect_range_spec:
  assumes "vm_ok R vm s" "PAGE_SIZE dvd start" "PAGE_SIZE dvd end'" "end' \<le> USER_SPACE_END"
    and "mprotect_range vm start end' new_prot s = (res, vm', s')"
  shows "if start < end' \<and> {start..<end'} \<subseteq> dom (vlook (vmas vm)) then
      res = VmOk \<and> vm_ok R vm' s' \<and> address_space vm' = address_space vm \<and> pool s' = pool s
      \<and> mapped (address_space vm) s' = (\<lambda>w. if start \<le> w \<and> w < end'
          then map_option (\<lambda>(f, _). (f, from_prot new_prot)) (mapped (address_space vm) s w)
          else mapped (address_space vm) s w)
      \<and> vlook (vmas vm') = (\<lambda>a. if start \<le> a \<and> a < end'
          then map_option (\<lambda>(p, f). (new_prot, f)) (vlook (vmas vm) a) else vlook (vmas vm) a)
      \<and> (\<forall>r' \<in> R. r' \<noteq> address_space vm \<longrightarrow> mapped r' s' = mapped r' s)
    else res = VmErr ''Unmapped gap in range'' \<and> vm' = vm \<and> s' = s"
proof -
  let ?r = "address_space vm" and ?n = "(end' - start) div PAGE_SIZE"
  have ok: "vm_inv R ?r s" "between 0 USER_SPACE_END (vmas vm)" "areas_aligned (vmas vm)" "coherent vm s"
    using assms(1) by (auto simp: vm_ok_def)
  have cov: "contains_range (vmas vm) start end' \<longleftrightarrow> start < end' \<and> {start..<end'} \<subseteq> dom (vlook (vmas vm))"
    using contains_loop_iff [OF ok(2), of start end'] by (auto simp: contains_range_def dom_def)
  show ?thesis
  proof (cases "start < end' \<and> {start..<end'} \<subseteq> dom (vlook (vmas vm))")
    case False
    then show ?thesis using assms(5) cov by (auto simp: mprotect_range_def)
  next
    case True
    note ar = aligned_range [OF assms(2-4)]
    have res: "res = VmOk" "vm' = vm\<lparr>vmas := protect_vmas (vmas vm) start end' new_prot\<rparr>"
      "s' = protect_pages ?r (from_prot new_prot) start ?n s"
      using assms(5) True cov ar(1-3) by (auto simp: mprotect_range_def)
    note pr = protect_pages_spec [OF ok(1) ar(4) res(3)]
    have m: "mapped ?r s' = (\<lambda>w. if start \<le> w \<and> w < end'
          then map_option (\<lambda>(f, _). (f, from_prot new_prot)) (mapped ?r s w) else mapped ?r s w)"
    proof
      fix w
      have "PAGE_SIZE dvd w \<or> mapped ?r s w = None" using mapped_aligned [of ?r s w] by (cases "mapped ?r s w") auto
      then show "mapped ?r s' w = (if start \<le> w \<and> w < end'
          then map_option (\<lambda>(f, _). (f, from_prot new_prot)) (mapped ?r s w) else mapped ?r s w)"
        using pr unfolding page_range_between [OF assms(2,3)] by auto
    qed
    have v: "between 0 USER_SPACE_END (vmas vm')"
      "vlook (vmas vm') = (\<lambda>a. if start \<le> a \<and> a < end'
          then map_option (\<lambda>(p, f). (new_prot, f)) (vlook (vmas vm) a) else vlook (vmas vm) a)"
      using protect_fold_spec [OF ok(2) ok(2), of new_prot start end'] by (auto simp: res(2) protect_vmas_def)
    have "coherent vm' s'"
      unfolding coherent_def
    proof (intro allI impI)
      fix w f a
      assume "mapped (address_space vm') s' w = Some (f, a)"
      then have x: "(if start \<le> w \<and> w < end' then map_option (\<lambda>(f, _). (f, from_prot new_prot)) (mapped ?r s w)
          else mapped ?r s w) = Some (f, a)" using m by (simp add: res(2))
      then obtain a' where a': "mapped ?r s w = Some (f, a')" by (auto split: if_splits)
      then obtain p fl where "vlook (vmas vm) w = Some (p, fl)" "a' = from_prot p"
        using ok(4) unfolding coherent_def by blast
      then show "\<exists>p fl. vlook (vmas vm') w = Some (p, fl) \<and> a = from_prot p"
        using x a' by (auto simp: v(2) split: if_splits)
    qed
    then have "vm_ok R vm' s'"
      using pr v(1) areas_aligned_protect [OF ok(3) assms(2,3)] by (simp add: vm_ok_def res(2))
    then show ?thesis using True res(1) m v(2) pr by (simp add: res(2))
  qed
qed

text \<open>
  C15: A protection change of an aligned range is refused, without any effect, exactly when some address of the
  range lies in no area. Otherwise it keeps page tables and areas consistent, gives every mapped page of
  the range the new access rights and every area of the range the new protection, keeps frames and area
  flags, and changes nothing outside the range or in another address space.
\<close>

theorem mprotect_range_correct:
  assumes "vm_ok R vm s" "PAGE_SIZE dvd start" "PAGE_SIZE dvd end'" "end' \<le> USER_SPACE_END"
    and "mprotect_range vm start end' new_prot s = (res, vm', s')"
  shows "if start < end' \<and> {start..<end'} \<subseteq> dom (vlook (vmas vm)) then
      res = VmOk \<and> vm_ok R vm' s' \<and> address_space vm' = address_space vm \<and> pool s' = pool s
      \<and> mapped (address_space vm) s' = (\<lambda>w. if start \<le> w \<and> w < end'
          then map_option (\<lambda>(f, _). (f, from_prot new_prot)) (mapped (address_space vm) s w)
          else mapped (address_space vm) s w)
      \<and> vlook (vmas vm') = (\<lambda>a. if start \<le> a \<and> a < end'
          then map_option (\<lambda>(p, f). (new_prot, f)) (vlook (vmas vm) a) else vlook (vmas vm) a)
      \<and> (\<forall>r' \<in> R. r' \<noteq> address_space vm \<longrightarrow> mapped r' s' = mapped r' s)
    else res = VmErr ''Unmapped gap in range'' \<and> vm' = vm \<and> s' = s"
  using mprotect_range_spec [OF assms] .

subsection \<open>Memory writes outside the page tables\<close>

lemma data_write_node:
  assumes "\<forall>t \<in> tables R s. \<forall>j<512. read_entry (mem s') t j = read_entry (mem s) t j" "r \<in> R" "user_path q"
  shows "node_at (mem s') r q = node_at (mem s) r q"
  using assms(3)
proof (induction q rule: rev_induct)
  case (snoc j q)
  then have q: "user_path q" "length q \<le> 3" "j < 512" by (auto dest: user_path_snocD)
  have "read_entry (mem s') t j = read_entry (mem s) t j" if "node_at (mem s) r q = Some t" for t
    using assms(1) tablesI [OF assms(2) q(1,2) that] q(3) by simp
  then show ?case using snoc.IH [OF q(1)] by (cases "node_at (mem s) r q") (simp_all add: node_at_append get_table_bit)
qed simp

lemma data_write_pte:
  assumes "\<forall>t \<in> tables R s. \<forall>j<512. read_entry (mem s') t j = read_entry (mem s) t j" "r \<in> R" "user_path q" "q \<noteq> []"
  shows "pte_at (mem s') r q = pte_at (mem s) r q"
proof -
  obtain p j where q: "q = p @ [j]" using assms(4) by (metis rev_exhaust)
  then have p: "user_path p" "length p \<le> 3" "j < 512" using assms(3) by (auto dest: user_path_snocD)
  have "read_entry (mem s') t j = read_entry (mem s) t j" if "node_at (mem s) r p = Some t" for t
    using assms(1) tablesI [OF assms(2) p(1,2) that] p(3) by simp
  then show ?thesis unfolding q using data_write_node [OF assms(1,2) p(1)]
    by (cases "node_at (mem s) r p") (simp_all add: pte_at_def)
qed

lemma data_write:
  assumes "\<forall>t \<in> tables R s. \<forall>j<512. read_entry (mem s') t j = read_entry (mem s) t j" "pmm s' = pmm s"
  shows "frames R s' = frames R s" "tables R s' = tables R s" "pt_inv R s \<Longrightarrow> pt_inv R s'"
    "pt_user R s \<Longrightarrow> pt_user R s'" "vm_inv R r s \<Longrightarrow> vm_inv R r s'" "r \<in> R \<Longrightarrow> mapped r s' = mapped r s"
proof -
  note node = data_write_node [OF assms(1)] and pte = data_write_pte [OF assms(1)]
  show fr: "frames R s' = frames R s" unfolding frames_def
    by (intro Collect_cong bex_cong refl ex_cong1 conj_cong) (simp_all add: node)
  show "tables R s' = tables R s" unfolding tables_def
    by (intro Collect_cong bex_cong refl ex_cong1 conj_cong) (simp_all add: node)
  show inv: "pt_inv R s \<Longrightarrow> pt_inv R s'"
    unfolding pt_inv_def fr assms(2) by (intro conjI ballI allI impI) (auto simp: node)
  show user: "pt_user R s \<Longrightarrow> pt_user R s'" unfolding pt_user_def by (simp add: pte)
  show "vm_inv R r s \<Longrightarrow> vm_inv R r s'" unfolding vm_inv_def using inv user by blast
  have "user_page w \<Longrightarrow> r \<in> R \<Longrightarrow> pte_at (mem s') r (vpath w) = pte_at (mem s) r (vpath w)" for w
    using pte [OF _ user_page_path] by simp
  then show "r \<in> R \<Longrightarrow> mapped r s' = mapped r s" by (auto simp: mapped_def fun_eq_iff)
qed

subsection \<open>A new address space\<close>

lemma node_empty_root:
  assumes "\<forall>j<256. read_entry m r j = 0" "user_path q"
  shows "node_at m r q = (if q = [] then Some r else None)"
  using assms by (cases q) (auto simp: user_path_def get_table_bit)

lemma insert_root:
  assumes "pt_inv R s" "pt_user R s" "r \<in> managed_addrs (pmm s)" "r \<notin> pool s" "r \<notin> frames R s"
    and "\<forall>j<256. read_entry (mem s) r j = 0"
  shows "vm_inv (insert r R) r s" "mapped r s = Map.empty" "frames (insert r R) s = insert r (frames R s)"
proof -
  note node = node_empty_root [OF assms(6)]
  show fr: "frames (insert r R) s = insert r (frames R s)"
    by (auto simp: frames_def node split: if_splits intro: exI [of _ "[]"])
  have root: "r' \<in> R \<Longrightarrow> user_path q \<Longrightarrow> node_at (mem s) r' q \<noteq> Some r" for r' q
    using assms(5) framesI by blast
  have "pt_inv (insert r R) s" unfolding pt_inv_def fr
  proof (intro conjI ballI allI impI)
    fix r1 r2 q1 q2 t
    assume h: "r1 \<in> insert r R" "r2 \<in> insert r R" "user_path q1" "user_path q2"
      "node_at (mem s) r1 q1 = Some t" "node_at (mem s) r2 q2 = Some t"
    have "r1 = r2 \<and> q1 = q2"
    proof (cases "t = r")
      case True
      then have "r1 = r" "r2 = r" using h root by auto
      then show ?thesis using h node by (auto split: if_splits)
    next
      case False
      then have "r1 \<noteq> r" "r2 \<noteq> r" using h node by (auto split: if_splits)
      then show ?thesis using pt_inv_inj [OF assms(1) _ _ h(3-6)] h(1,2) by simp
    qed
    then show "r1 = r2" "q1 = q2" by auto
  qed (use assms(1,3,4) in \<open>auto simp: pt_inv_def\<close>)
  moreover have pte: "\<not> bit (pte_at (mem s) r q) 0" if "user_path q" "q \<noteq> []" for q
    using node [OF that(1)] node_at_pte [OF that(2), of "mem s" r] that(2) by (auto split: if_splits)
  then have "pt_user (insert r R) s" using assms(2) unfolding pt_user_def by blast
  ultimately show "vm_inv (insert r R) r s" by (simp add: vm_inv_def)
  show "mapped r s = Map.empty"
    using pte [OF user_page_path] by (auto simp: mapped_def fun_eq_iff)
qed

lemma copy_entries:
  assumes "PAGE_SIZE dvd d" "PAGE_SIZE dvd a" "d \<noteq> a" "\<forall>i \<in> set idxs. i < 512" "PAGE_SIZE dvd u" "j < 512"
    and "s' = fold (\<lambda>i s. write_entry d i (read_entry (mem s) a i) s) idxs s"
  shows "pmm s' = pmm s \<and> read_entry (mem s') u j = (if u = d \<and> j \<in> set idxs then read_entry (mem s) a j else read_entry (mem s) u j)"
  using assms(4,7)
proof (induction idxs arbitrary: s)
  case (Cons i idxs)
  let ?s = "write_entry d i (read_entry (mem s) a i) s"
  have i: "i < 512" using Cons.prems(1) by simp
  have "pmm s' = pmm ?s \<and> read_entry (mem s') u j = (if u = d \<and> j \<in> set idxs then read_entry (mem ?s) a j else read_entry (mem ?s) u j)"
    using Cons.prems by (intro Cons.IH) simp_all
  moreover have "read_entry (mem ?s) a j = read_entry (mem s) a j" "pmm ?s = pmm s"
    using read_write_entry [OF assms(1,2) i assms(6)] assms(3) by (simp_all add: write_entry_def)
  ultimately show ?case using read_write_entry [OF assms(1,5) i assms(6)] by auto
qed simp

lemma zero_pmm [simp]: "pmm (zero_phys_frame f s) = pmm s"
  by (simp add: zero_phys_frame_def)

lemma copy_kernel_read:
  assumes "PAGE_SIZE dvd d" "PAGE_SIZE dvd a" "d \<noteq> a" "PAGE_SIZE dvd u" "j < 512"
    and "s' = copy_kernel_mappings d a s"
  shows "pmm s' = pmm s \<and> read_entry (mem s') u j = (if u = d \<and> 256 \<le> j then read_entry (mem s) a j else read_entry (mem s) u j)"
proof -
  have "\<forall>i \<in> set [256..<512]. i < (512 :: nat)" "j \<in> set [256..<512] \<longleftrightarrow> 256 \<le> j"
    using assms(5) unfolding set_upt by auto
  then show ?thesis using copy_entries [OF assms(1-3) _ assms(4,5) assms(6) [unfolded copy_kernel_mappings_def]] by argo
qed

lemma VmSpace_new_spec:
  assumes "pt_inv R s" "pt_user R s" "PAGE_SIZE dvd active" "active \<notin> pool s" "VmSpace_new active s = (Some vm, s')"
  shows "address_space vm \<in> pool s \<and> address_space vm \<notin> frames R s \<and> vmas vm = []
    \<and> vm_inv (insert (address_space vm) R) (address_space vm) s' \<and> mapped (address_space vm) s' = Map.empty
    \<and> pool s' = pool s - {address_space vm} \<and> managed_addrs (pmm s') = managed_addrs (pmm s)
    \<and> (\<forall>r \<in> R. mapped r s' = mapped r s)
    \<and> (\<forall>u j. PAGE_SIZE dvd u \<longrightarrow> j < 512 \<longrightarrow> read_entry (mem s') u j =
        (if u \<noteq> address_space vm then read_entry (mem s) u j else if j < 256 then 0 else read_entry (mem s) active j))"
proof -
  obtain r x where al: "alloc_frame (pmm s) = (Some r, x)" and vm: "vm = \<lparr>address_space = r, vmas = []\<rparr>"
    and s': "s' = copy_kernel_mappings r active (zero_phys_frame r (s\<lparr>pmm := x\<rparr>))"
    using assms(5) by (auto simp: VmSpace_new_def kernel_alloc_frame_def Let_def split: prod.splits option.splits)
  note fresh = alloc_fresh [OF assms(1) al]
  let ?s1 = "s\<lparr>pmm := x\<rparr>"
  have ne: "r \<noteq> active" using fresh(1) assms(4) by auto
  have read: "pmm s' = x \<and> read_entry (mem s') u j =
        (if u \<noteq> r then read_entry (mem s) u j else if j < 256 then 0 else read_entry (mem s) active j)"
    if "PAGE_SIZE dvd u" "j < 512" for u j
    using copy_kernel_read [OF fresh(6) assms(3) ne that s']
      read_zero_frame [OF fresh(6) _ that(2), of u ?s1] read_zero_frame [OF fresh(6) _ that(2), of active ?s1]
      that ne assms(3) zero_pmm [of r ?s1] by auto
  then have x: "pmm s' = x" by (metis dvd_refl zero_less_numeral)
  have keep: "\<forall>t \<in> tables R ?s1. \<forall>j<512. read_entry (mem s') t j = read_entry (mem ?s1) t j"
    using read frames_page [OF assms(1)] tables_frames [of R s] fresh(8) by (auto simp: subset_iff)
  note dw = data_write [OF keep] 
  have "pt_inv R s'" "pt_user R s'" "frames R s' = frames R s"
    using dw(3) [OF _ fresh(9)] dw(4) dw(1) assms(2) x by (simp_all add: frames_def)
  from insert_root [OF this(1,2), of r] this(3) fresh(2,5,8) read [OF fresh(6)]
  have "vm_inv (insert r R) r s'" "mapped r s' = Map.empty"
    by (simp_all add: x managed_addrs_def fresh(4))
  then show ?thesis using fresh(1,2,4,8) dw(6) read x by (simp add: vm managed_addrs_def)
qed

subsection \<open>Populating a range\<close>

lemma zero_unreferenced:
  assumes "vm_inv R r s" "f \<in> unreferenced R s"
  shows "vm_inv R r (zero_phys_frame f s)" "tables R (zero_phys_frame f s) = tables R s"
    "frames R (zero_phys_frame f s) = frames R s" "r' \<in> R \<Longrightarrow> mapped r' (zero_phys_frame f s) = mapped r' s"
    "zeroed (zero_phys_frame f s) f" "zeroed s g \<Longrightarrow> zeroed (zero_phys_frame f s) g"
proof -
  have inv: "pt_inv R s" using assms(1) by (simp add: vm_inv_def)
  have f: "PAGE_SIZE dvd f" "f \<notin> tables R s"
    using managed_addrs_page [OF inv] assms(2) tables_frames [of R s] by auto
  have "\<forall>t \<in> tables R s. \<forall>j<512. read_entry (mem (zero_phys_frame f s)) t j = read_entry (mem s) t j"
    using read_zero_frame [OF f(1)] f(2) frames_page [OF inv] tables_frames [of R s] by (auto simp: subset_iff)
  note dw = data_write [OF this]
  show "vm_inv R r (zero_phys_frame f s)" "tables R (zero_phys_frame f s) = tables R s"
    "frames R (zero_phys_frame f s) = frames R s" "r' \<in> R \<Longrightarrow> mapped r' (zero_phys_frame f s) = mapped r' s"
    using dw assms(1) by simp_all
  show "zeroed (zero_phys_frame f s) f" "zeroed s g \<Longrightarrow> zeroed (zero_phys_frame f s) g"
    using read_zero_frame [OF f(1)] f(1) by (simp_all add: zeroed_def)
qed

lemma fresh_page_step:
  assumes "vm_inv R r s" "user_page v" "pf_user fl" "kernel_alloc_frame s = (Some f, s1)"
    and "map_page r v f fl (zero_phys_frame f s1) = (ok, s2)"
  shows "\<exists>T. f \<in> pool s \<and> T \<subseteq> pool s - {f} \<and> vm_inv R r s2 \<and> pool s2 = pool s - {f} - T \<and> tables R s2 = tables R s \<union> T
    \<and> (if ok then mapped r s2 = (mapped r s)(v \<mapsto> (f, fl\<lparr>pf_present := True\<rparr>)) \<and> zeroed s2 f
       else mapped r s2 = mapped r s \<and> f \<in> unreferenced R s2 \<and> pool s2 = {})
    \<and> (\<forall>g. g \<notin> pool s \<longrightarrow> g \<notin> tables R s \<longrightarrow> zeroed s g \<longrightarrow> zeroed s2 g)
    \<and> (\<forall>r' \<in> R. r' \<noteq> r \<longrightarrow> mapped r' s2 = mapped r' s)"
proof -
  note al = kernel_alloc_Some [OF assms(1,4)]
  obtain x where "s1 = s\<lparr>pmm := x\<rparr>" using assms(4) by (auto simp: kernel_alloc_frame_def split: prod.splits)
  then have same: "tables R s1 = tables R s" "mapped r' s1 = mapped r' s" "zeroed s1 g = zeroed s g" for r' g by simp_all
  have f: "f \<in> unreferenced R s1" using al pool_disjoint [OF assms(1)] by auto
  let ?z = "zero_phys_frame f s1"
  note z = zero_unreferenced [OF conjunct2 [OF conjunct2 [OF conjunct2 [OF al]]] f]
  have pz: "pool ?z = pool s - {f}" "f \<in> unreferenced R ?z - pool ?z" using al f z(3) by auto
  have tab: "f \<notin> tables R s" using pool_disjoint(3) [OF assms(1)] al by auto
  obtain T where T: "T \<subseteq> pool ?z" "vm_inv R r s2" "pool s2 = pool ?z - T" "tables R s2 = tables R ?z \<union> T"
    "if ok then mapped r s2 = (mapped r ?z)(v \<mapsto> (f, fl\<lparr>pf_present := True\<rparr>)) \<and> card T \<le> 3
       else mapped r s2 = mapped r ?z \<and> f \<in> unreferenced R s2 \<and> pool s2 = {} \<and> card T \<le> 2"
    "\<forall>g. g \<notin> T \<longrightarrow> g \<notin> tables R ?z \<longrightarrow> zeroed ?z g \<longrightarrow> zeroed s2 g"
    "\<forall>r' \<in> R. r' \<noteq> r \<longrightarrow> mapped r' s2 = mapped r' ?z"
    using vm_map_page [OF z(1) assms(2) pz(2) assms(3,5)] by blast
  have "r \<in> R" using assms(1) by (simp add: vm_inv_def)
  then have m: "mapped r ?z = mapped r s" "tables R ?z = tables R s" using z(2,4) same by simp_all
  have "zeroed s2 g" if "g \<notin> pool s" "g \<notin> tables R s" "zeroed s g" for g
    using T(1,6) that m(2) z(6) same(3) pz(1) by auto
  moreover have "zeroed s2 f" using T(1,6) z(5) tab m(2) pz(1) by auto
  moreover have "\<forall>r' \<in> R. r' \<noteq> r \<longrightarrow> mapped r' s2 = mapped r' s" using T(7) z(4) same(2) by simp
  ultimately show ?thesis using T(1-5) al m pz(1) by (intro exI [of _ T]) (cases ok; simp)
qed

lemma fst_ran_insert:
  assumes "v \<notin> A"
  shows "fst ` ran ((m(v \<mapsto> (f, a))) |` insert v A) = insert f (fst ` ran (m |` A))"
    "m v = None \<Longrightarrow> (m(v \<mapsto> x)) |` (- insert v A) = m |` (- A)"
proof -
  show "fst ` ran ((m(v \<mapsto> (f, a))) |` insert v A) = insert f (fst ` ran (m |` A))"
    unfolding fst_ran_restrict using assms by auto
  assume "m v = None"
  then show "(m(v \<mapsto> x)) |` (- insert v A) = m |` (- A)" by (auto simp: restrict_map_def fun_eq_iff)
qed

lemma page_range_head: "set (page_range v (Suc n)) = insert v (set (page_range (v + PAGE_SIZE) n))"
  by (simp add: page_range_def upt_conv_Cons image_image add.assoc map_Suc_upt [symmetric] del: upt_Suc)

text \<open>Giving back the pages mapped so far, after a failure.\<close>

lemma rollback_fresh:
  assumes "vm_inv R r s" "\<forall>k<i. user_page (v + k * PAGE_SIZE)" "s' = unmap_range r v i s" "pool s = {}"
  shows "vm_inv R r s' \<and> tables R s' = tables R s \<and> mapped r s' = mapped r s |` (- set (page_range v i))
    \<and> pool s' = fst ` ran (mapped r s |` set (page_range v i)) \<and> (\<forall>r' \<in> R. r' \<noteq> r \<longrightarrow> mapped r' s' = mapped r' s)"
  using unmap_range_spec [OF assms(1-3)] assms(4) by simp

definition fresh_result where
  "fresh_result R r v fl i n s res s' \<longleftrightarrow> vm_inv R r s' \<and> tables R s \<subseteq> tables R s'
    \<and> (\<forall>r' \<in> R. r' \<noteq> r \<longrightarrow> mapped r' s' = mapped r' s)
    \<and> (if res = VmOk then (\<forall>w. w \<notin> set (page_range (v + i * PAGE_SIZE) n) \<longrightarrow> mapped r s' w = mapped r s w)
         \<and> (\<forall>w \<in> set (page_range (v + i * PAGE_SIZE) n). \<exists>f. mapped r s' w = Some (f, fl\<lparr>pf_present := True\<rparr>) \<and> f \<in> pool s \<and> zeroed s' f)
         \<and> (\<forall>g. g \<notin> pool s \<longrightarrow> g \<notin> tables R s \<longrightarrow> zeroed s g \<longrightarrow> zeroed s' g) \<and> pool s' \<subseteq> pool s
       else (\<exists>e. res = VmErr e) \<and> mapped r s' = mapped r s |` (- set (page_range v i))
         \<and> pool s' \<union> (tables R s' - tables R s) = pool s \<union> fst ` ran (mapped r s |` set (page_range v i)))"

lemma fresh_result_step:
  assumes IH: "fresh_result R r v fl (Suc i) n s2 res s'" and f: "f \<in> pool s" and T: "T \<subseteq> pool s - {f}"
    and p2: "pool s2 = pool s - {f} - T" and t2: "tables R s2 = tables R s \<union> T"
    and z2: "\<forall>g. g \<notin> pool s \<longrightarrow> g \<notin> tables R s \<longrightarrow> zeroed s g \<longrightarrow> zeroed s2 g"
    and o2: "\<forall>r' \<in> R. r' \<noteq> r \<longrightarrow> mapped r' s2 = mapped r' s" and Tt: "T \<inter> tables R s = {}"
    and m: "mapped r s2 = (mapped r s)(v + i * PAGE_SIZE \<mapsto> (f, fl\<lparr>pf_present := True\<rparr>))" and zf: "zeroed s2 f"
    and D: "set (page_range (v + i * PAGE_SIZE) (Suc n)) =
      insert (v + i * PAGE_SIZE) (set (page_range (v + Suc i * PAGE_SIZE) n))"
    and vD: "v + i * PAGE_SIZE \<notin> set (page_range (v + Suc i * PAGE_SIZE) n)"
    and roll: "mapped r s2 |` (- set (page_range v (Suc i))) = mapped r s |` (- set (page_range v i))"
      "fst ` ran (mapped r s2 |` set (page_range v (Suc i))) = insert f (fst ` ran (mapped r s |` set (page_range v i)))"
    and ft: "f \<notin> tables R s"
  shows "fresh_result R r v fl i (Suc n) s res s'"
proof -
  have base: "vm_inv R r s'" "tables R s \<subseteq> tables R s'" "\<forall>r' \<in> R. r' \<noteq> r \<longrightarrow> mapped r' s' = mapped r' s"
    using IH t2 o2 by (auto simp: fresh_result_def)
  show ?thesis
  proof (cases "res = VmOk")
    case True
    have ok: "w \<notin> set (page_range (v + Suc i * PAGE_SIZE) n) \<Longrightarrow> mapped r s' w = mapped r s2 w"
      "w \<in> set (page_range (v + Suc i * PAGE_SIZE) n) \<Longrightarrow>
        \<exists>f. mapped r s' w = Some (f, fl\<lparr>pf_present := True\<rparr>) \<and> f \<in> pool s2 \<and> zeroed s' f"
      "g \<notin> pool s2 \<Longrightarrow> g \<notin> tables R s2 \<Longrightarrow> zeroed s2 g \<Longrightarrow> zeroed s' g" "pool s' \<subseteq> pool s2" for w g
      using IH True unfolding fresh_result_def by auto
    have "zeroed s' f" using ok(3) [of f] p2 t2 T zf ft by auto
    moreover have "zeroed s' g" if "g \<notin> pool s" "g \<notin> tables R s" "zeroed s g" for g
      using ok(3) [of g] that z2 p2 t2 T by auto
    moreover have "\<exists>f. mapped r s' w = Some (f, fl\<lparr>pf_present := True\<rparr>) \<and> f \<in> pool s \<and> zeroed s' f"
      if "w \<in> set (page_range (v + Suc i * PAGE_SIZE) n)" for w using ok(2) [OF that] p2 by auto
    ultimately show ?thesis using base ok(1,4) True f p2 vD unfolding fresh_result_def D m by auto
  next
    case False
    then have err: "\<exists>e. res = VmErr e" "mapped r s' = mapped r s |` (- set (page_range v i))"
      "pool s' \<union> (tables R s' - tables R s2) = pool s2 \<union> insert f (fst ` ran (mapped r s |` set (page_range v i)))"
      using IH roll by (auto simp: fresh_result_def)
    have "tables R s2 \<subseteq> tables R s'" using IH by (simp add: fresh_result_def)
    then have "tables R s' - tables R s = (tables R s' - tables R s2) \<union> T" using t2 Tt by auto
    then have "pool s' \<union> (tables R s' - tables R s) = pool s \<union> fst ` ran (mapped r s |` set (page_range v i))"
      using err(3) p2 T f by auto
    then show ?thesis using base err(1,2) False by (simp add: fresh_result_def)
  qed
qed

lemma map_fresh_pages_spec:
  assumes "vm_inv R r s" "\<forall>k<i + n. user_page (v + k * PAGE_SIZE)" "pf_user fl"
    and "\<forall>w \<in> set (page_range (v + i * PAGE_SIZE) n). mapped r s w = None"
    and "map_fresh_pages r v fl i n s = (res, s')"
  shows "fresh_result R r v fl i n s res s'"
  using assms(1,2,4,5)
proof (induction n arbitrary: i s)
  case 0
  then show ?case by (simp add: fresh_result_def)
next
  case (Suc n)
  let ?v = "v + i * PAGE_SIZE" and ?A = "set (page_range v i)"
  have up: "user_page ?v" "\<forall>k<i. user_page (v + k * PAGE_SIZE)" using Suc.prems(2) by auto
  have chk: "checked_mul i PAGE_SIZE = Some (i * PAGE_SIZE)" "checked_add v (i * PAGE_SIZE) = Some ?v"
    using user_page_bound [OF up(1)] by (auto simp: checked_mul_def checked_add_def)
  have vA: "?v \<notin> ?A" by (rule page_range_later) simp
  have Suc_A: "set (page_range v (Suc i)) = insert ?v ?A" by (simp add: page_range_Suc)
  show ?case
  proof (cases "kernel_alloc_frame s")
    case (Pair a s1)
    show ?thesis
    proof (cases a)
      case None
      then have "pool s = {}" "s1 = s" using Pair Suc.prems(1) pmm_alloc.alloc_None [of "pmm s"] 
        by (auto simp: kernel_alloc_frame_def vm_inv_def pt_inv_def split: prod.splits)
      moreover from this have "res = VmErr ''Out of physical frames''" "s' = unmap_range r v i s"
        using Suc.prems(4) chk Pair None by auto
      ultimately show ?thesis using rollback_fresh [OF Suc.prems(1) up(2)] by (simp add: fresh_result_def)
    next
      case (Some f)
      obtain ok s2 where mp: "map_page r ?v f fl (zero_phys_frame f s1) = (ok, s2)" by fastforce
      obtain T where T: "f \<in> pool s" "T \<subseteq> pool s - {f}" "vm_inv R r s2" "pool s2 = pool s - {f} - T"
        "tables R s2 = tables R s \<union> T"
        "if ok then mapped r s2 = (mapped r s)(?v \<mapsto> (f, fl\<lparr>pf_present := True\<rparr>)) \<and> zeroed s2 f
         else mapped r s2 = mapped r s \<and> f \<in> unreferenced R s2 \<and> pool s2 = {}"
        "\<forall>g. g \<notin> pool s \<longrightarrow> g \<notin> tables R s \<longrightarrow> zeroed s g \<longrightarrow> zeroed s2 g"
        "\<forall>r' \<in> R. r' \<noteq> r \<longrightarrow> mapped r' s2 = mapped r' s"
        using fresh_page_step [OF Suc.prems(1) up(1) assms(3) Pair [unfolded Some] mp] by blast
      have Tt: "T \<inter> tables R s = {}" and ft: "f \<notin> tables R s"
        using T(1,2) pool_disjoint(3) [OF Suc.prems(1)] by auto
      show ?thesis
      proof (cases ok)
        case False
        let ?p = "pool_free f s2"
        have res: "res = VmErr ''Out of physical frames for page table''" "s' = unmap_range r v i ?p"
          using Suc.prems(4) chk Pair Some mp False by auto
        have pf: "pool ?p = {f}" "vm_inv R r ?p" using pool_free_spec [OF T(3), of f] T(6) False by auto
        have pm: "tables R ?p = tables R s2" "mapped r' ?p = mapped r' s2" for r' by (simp_all add: pool_free_def)
        note un = unmap_range_spec [OF pf(2) up(2) res(2)]
        have "pool s = insert f T" using T(1,2,4,6) False by auto
        moreover have "pool s' = insert f (fst ` ran (mapped r s |` ?A))" using un pf(1) pm T(6) False by simp
        moreover have "tables R s' - tables R s = T" using un pm T(5) Tt by auto
        ultimately show ?thesis using un pm T(5,6,8) False res(1) by (auto simp: fresh_result_def)
      next
        case True
        then have m: "mapped r s2 = (mapped r s)(?v \<mapsto> (f, fl\<lparr>pf_present := True\<rparr>))" and zf: "zeroed s2 f" using T(6) by auto
        have run: "map_fresh_pages r v fl (Suc i) n s2 = (res, s')" using Suc.prems(4) chk Pair Some mp True by simp
        have D: "set (page_range ?v (Suc n)) = insert ?v (set (page_range (v + Suc i * PAGE_SIZE) n))"
          by (simp add: page_range_head algebra_simps)
        have vD: "?v \<notin> set (page_range (v + Suc i * PAGE_SIZE) n)" by (auto simp: page_range_def PAGE_SIZE_def)
        have "\<forall>w \<in> set (page_range (v + Suc i * PAGE_SIZE) n). mapped r s2 w = None"
          using Suc.prems(3) vD unfolding D m by auto
        then have IH: "fresh_result R r v fl (Suc i) n s2 res s'"
          using Suc.prems(2) by (intro Suc.IH [OF T(3) _ _ run]) simp_all
        have "mapped r s ?v = None" using Suc.prems(3) D by blast
        with Suc_A have roll: "mapped r s2 |` (- set (page_range v (Suc i))) = mapped r s |` (- ?A)"
          "fst ` ran (mapped r s2 |` set (page_range v (Suc i))) = insert f (fst ` ran (mapped r s |` ?A))"
          unfolding m using fst_ran_insert [OF vA] by simp_all
        show ?thesis
          by (rule fresh_result_step [OF IH T(1,2,4,5,7,8) Tt m zf D vD roll ft])
      qed
    qed
  qed
qed

lemma prot_of_flags:
  assumes "pf_user fl" "p = (let prot = word_of_int PROT_READ;
      prot = (if pf_writable fl then prot OR word_of_int PROT_WRITE else prot);
      prot = (if \<not> pf_no_exec fl then prot OR word_of_int PROT_EXEC else prot) in prot)"
  shows "from_prot p = fl\<lparr>pf_present := True\<rparr>"
  using assms by (cases fl; cases "pf_writable fl"; cases "pf_no_exec fl") (simp_all add: from_prot_def posix_consts)

lemma tail_kept_free:
  assumes "between lo hi vs" "s < e" "{s..<e} \<inter> dom (vlook vs) = {}"
  shows "tail_kept prot flags s e vs"
  unfolding tail_kept_def
proof (intro ballI impI)
  fix w u
  assume w: "w \<in> set vs" "vma_start w < e" "e < vma_end w"
  have "vlook vs (e - 1) \<noteq> None" using vlook_member [OF assms(1) w(1), of "e - 1"] w by auto
  moreover have "e - 1 \<in> {s..<e}" using assms(2) by auto
  ultimately have False using assms(3) by (auto simp: dom_def)
  then show "same_attr prot flags u" ..
qed

lemma align_down_bound: "a \<le> USER_SPACE_END \<Longrightarrow> align_down (a + PAGE_SIZE - 1) PAGE_SIZE \<le> USER_SPACE_END"
proof -
  assume "a \<le> USER_SPACE_END"
  then have "(a + PAGE_SIZE - 1) div PAGE_SIZE \<le> (USER_SPACE_END + PAGE_SIZE - 1) div PAGE_SIZE" by (intro div_le_mono) simp
  then show ?thesis by (simp add: align_down_def USER_SPACE_END_def PAGE_SIZE_def)
qed

lemma coherent_mapped:
  assumes "coherent vm s" "address_space vm' = address_space vm"
    and out: "\<And>w. \<not> (lo \<le> w \<and> w < hi) \<Longrightarrow> mapped (address_space vm) s' w = mapped (address_space vm) s w"
    and ins: "\<And>w. PAGE_SIZE dvd w \<Longrightarrow> lo \<le> w \<Longrightarrow> w < hi \<Longrightarrow>
      \<exists>f. mapped (address_space vm) s' w = Some (f, fl) \<and> Q f"
    and look: "vlook (vmas vm') = (\<lambda>a. if lo \<le> a \<and> a < hi then Some (p, x) else vlook (vmas vm) a)"
    and p: "from_prot p = fl"
  shows "coherent vm' s'"
  unfolding coherent_def
proof (intro allI impI)
  fix w f a
  assume "mapped (address_space vm') s' w = Some (f, a)"
  then have m: "mapped (address_space vm) s' w = Some (f, a)" by (simp add: assms(2))
  show "\<exists>p fl. vlook (vmas vm') w = Some (p, fl) \<and> a = from_prot p"
  proof (cases "lo \<le> w \<and> w < hi")
    case True
    then show ?thesis using ins [OF mapped_aligned [OF m]] m p look by auto
  next
    case False
    then have "mapped (address_space vm) s w = Some (f, a)" using m out by simp
    then show ?thesis using False assms(1) look by (auto simp: coherent_def)
  qed
qed

lemma alloc_and_map_run:
  assumes "start_virt + size' \<le> USER_SPACE_END" "pf_user flags" "lo = align_down start_virt PAGE_SIZE"
    and "hi = align_down (start_virt + size' + PAGE_SIZE - 1) PAGE_SIZE"
    and "alloc_and_map_range vm start_virt size' flags s = (res, vm', s')"
  obtains (full) e where "res = VmErr e" "vm' = vm" "s' = s"
  | (failed) "map_fresh_pages (address_space vm) lo flags 0 ((hi - lo) div PAGE_SIZE) s = (res, s')" "res \<noteq> VmOk" "vm' = vm"
  | (success) p where "map_fresh_pages (address_space vm) lo flags 0 ((hi - lo) div PAGE_SIZE) s = (VmOk, s')" "res = VmOk"
      "vm' = vm\<lparr>vmas := insert_vma (vmas vm) lo hi p 0\<rparr>" "from_prot p = flags\<lparr>pf_present := True\<rparr>"
proof -
  have nopanic: "\<not> USIZE_LIMIT \<le> start_virt + size' + PAGE_SIZE"
    using assms(1) by (simp add: USIZE_LIMIT_def USER_SPACE_END_def PAGE_SIZE_def)
  note u = assms(5) [unfolded alloc_and_map_range_def Let_def, folded assms(3,4)]
  obtain r0 s0 where run: "map_fresh_pages (address_space vm) lo flags 0 ((hi - lo) div PAGE_SIZE) s = (r0, s0)"
    by fastforce
  show ?thesis
  proof (cases "(hi - lo) div PAGE_SIZE > snd (get_pmm_stats (Some (pmm s)))")
    case True
    then show ?thesis using full u nopanic by auto
  next
    case False
    show ?thesis
    proof (cases "r0 = VmOk")
      case True
      let ?p = "let prot = word_of_int PROT_READ;
          prot = (if pf_writable flags then prot OR word_of_int PROT_WRITE else prot);
          prot = (if \<not> pf_no_exec flags then prot OR word_of_int PROT_EXEC else prot) in prot"
      have "res = VmOk \<and> s' = s0 \<and> vm' = vm\<lparr>vmas := insert_vma (vmas vm) lo hi ?p 0\<rparr>"
        using u nopanic False run True by (auto simp: Let_def)
      then show ?thesis using success run True prot_of_flags [OF assms(2) refl] by blast
    next
      case err: False
      then show ?thesis using failed run u nopanic False by (cases r0) auto
    qed
  qed
qed

lemma alloc_and_map_range_spec:
  assumes "vm_ok R vm s" "start_virt + size' \<le> USER_SPACE_END" "0 < size'" "pf_user flags"
    and lo: "lo = align_down start_virt PAGE_SIZE" and hi: "hi = align_down (start_virt + size' + PAGE_SIZE - 1) PAGE_SIZE"
    and free: "{lo..<hi} \<inter> dom (vlook (vmas vm)) = {}"
    and run: "alloc_and_map_range vm start_virt size' flags s = (res, vm', s')"
  shows "vm_ok R vm' s' \<and> address_space vm' = address_space vm \<and> (\<forall>r' \<in> R. r' \<noteq> address_space vm \<longrightarrow> mapped r' s' = mapped r' s)
    \<and> (if res = VmOk then
        (\<forall>w. mapped (address_space vm) s' w \<noteq> mapped (address_space vm) s w \<longrightarrow> lo \<le> w \<and> w < hi)
        \<and> (\<forall>w. PAGE_SIZE dvd w \<longrightarrow> lo \<le> w \<longrightarrow> w < hi \<longrightarrow>
             (\<exists>f. mapped (address_space vm) s' w = Some (f, flags\<lparr>pf_present := True\<rparr>) \<and> f \<in> pool s \<and> zeroed s' f))
        \<and> (\<exists>p. from_prot p = flags\<lparr>pf_present := True\<rparr> \<and>
             vlook (vmas vm') = (\<lambda>a. if lo \<le> a \<and> a < hi then Some (p, 0) else vlook (vmas vm) a))
      else (\<exists>e. res = VmErr e) \<and> vm' = vm \<and> mapped (address_space vm) s' = mapped (address_space vm) s
        \<and> pool s' \<union> (tables R s' - tables R s) = pool s)"
proof -
  let ?r = "address_space vm" and ?n = "(hi - lo) div PAGE_SIZE"
  have ok: "vm_inv R ?r s" "between 0 USER_SPACE_END (vmas vm)" "areas_aligned (vmas vm)" "coherent vm s"
    using assms(1) by (auto simp: vm_ok_def)
  have al: "PAGE_SIZE dvd lo" "PAGE_SIZE dvd hi" "hi \<le> USER_SPACE_END"
    using align_down_bound [OF assms(2)] by (simp_all add: lo hi)
  note ar = aligned_range [OF al] and rg = page_range_between [OF al(1,2)]
  have "lo \<le> start_virt" by (simp add: lo align_down_le)
  moreover have "start_virt + size' \<le> hi"
    using align_up_ge [of PAGE_SIZE "start_virt + size'"] by (simp add: hi align_down_def align_up_def PAGE_SIZE_def)
  ultimately have lt: "lo < hi" using assms(3) by linarith
  have nopanic: "\<not> USIZE_LIMIT \<le> start_virt + size' + PAGE_SIZE"
    using assms(2) by (simp add: USIZE_LIMIT_def USER_SPACE_END_def PAGE_SIZE_def)
  have unm: "\<forall>w \<in> set (page_range (lo + 0 * PAGE_SIZE) ?n). mapped ?r s w = None"
  proof
    fix w assume w: "w \<in> set (page_range (lo + 0 * PAGE_SIZE) ?n)"
    show "mapped ?r s w = None"
    proof (rule ccontr)
      assume "mapped ?r s w \<noteq> None"
      then have "w \<in> dom (vlook (vmas vm))" using ok(4) unfolding coherent_def by fast
      then show False using w free rg by auto
    qed
  qed
  have up: "\<forall>k<0 + ?n. user_page (lo + k * PAGE_SIZE)" using ar(4) by simp
  note spec = map_fresh_pages_spec [OF ok(1) up assms(4) unm]
  from assms(2,4) lo hi run show ?thesis
  proof (cases rule: alloc_and_map_run)
    case (full e)
    then show ?thesis using assms(1) by simp
  next
    case failed
    then have fr: "fresh_result R ?r lo flags 0 ?n s res s'" using spec by blast
    then have m: "mapped ?r s' = mapped ?r s" using failed by (simp add: fresh_result_def restrict_map_def)
    then have "vm_ok R vm s'" using fr assms(1) by (simp add: vm_ok_def coherent_def fresh_result_def)
    then show ?thesis using fr failed m by (simp add: fresh_result_def)
  next
    case (success p)
    then have fr: "fresh_result R ?r lo flags 0 ?n s VmOk s'" using spec by blast
    have v: "between 0 USER_SPACE_END (vmas vm')" "areas_aligned (vmas vm')"
      "vlook (vmas vm') = (\<lambda>a. if lo \<le> a \<and> a < hi then Some (p, 0) else vlook (vmas vm) a)"
      using insert_vma_between [OF ok(2) al(3)] areas_aligned_insert [OF ok(3) al(1,2)]
        insert_vma_look [OF ok(2) lt al(3) tail_kept_free [OF ok(2) lt free]] by (auto simp: success(3))
    have out: "mapped ?r s' w = mapped ?r s w" if "\<not> (lo \<le> w \<and> w < hi)" for w
      using fr that rg by (auto simp: fresh_result_def)
    have ins: "\<exists>f. mapped ?r s' w = Some (f, flags\<lparr>pf_present := True\<rparr>) \<and> f \<in> pool s \<and> zeroed s' f"
      if "PAGE_SIZE dvd w" "lo \<le> w" "w < hi" for w
      using fr that rg by (auto simp: fresh_result_def)
    have "coherent vm' s'" by (rule coherent_mapped [OF ok(4) _ out ins v(3) success(4)]) (simp_all add: success(3))
    then have "vm_ok R vm' s'" using fr v by (simp add: vm_ok_def fresh_result_def success(3))
    then show ?thesis using fr success out ins v(3) by (auto simp: fresh_result_def)
  qed
qed

text \<open>
  C16: Populating a range of an address space that no area covers either fails, restoring all mappings and
  losing frames to new page tables only, or maps every page of the range to a zeroed frame that was free,
  with the requested access rights, and records the range; page tables and areas stay consistent.
\<close>

theorem alloc_and_map_range_correct:
  assumes "vm_ok R vm s" "start_virt + size' \<le> USER_SPACE_END" "0 < size'" "pf_user flags"
    and lo: "lo = align_down start_virt PAGE_SIZE" and hi: "hi = align_down (start_virt + size' + PAGE_SIZE - 1) PAGE_SIZE"
    and free: "{lo..<hi} \<inter> dom (vlook (vmas vm)) = {}"
    and run: "alloc_and_map_range vm start_virt size' flags s = (res, vm', s')"
  shows "vm_ok R vm' s' \<and> address_space vm' = address_space vm \<and> (\<forall>r' \<in> R. r' \<noteq> address_space vm \<longrightarrow> mapped r' s' = mapped r' s)
    \<and> (if res = VmOk then
        (\<forall>w. mapped (address_space vm) s' w \<noteq> mapped (address_space vm) s w \<longrightarrow> lo \<le> w \<and> w < hi)
        \<and> (\<forall>w. PAGE_SIZE dvd w \<longrightarrow> lo \<le> w \<longrightarrow> w < hi \<longrightarrow>
             (\<exists>f. mapped (address_space vm) s' w = Some (f, flags\<lparr>pf_present := True\<rparr>) \<and> f \<in> pool s \<and> zeroed s' f))
        \<and> (\<exists>p. from_prot p = flags\<lparr>pf_present := True\<rparr> \<and>
             vlook (vmas vm') = (\<lambda>a. if lo \<le> a \<and> a < hi then Some (p, 0) else vlook (vmas vm) a))
      else (\<exists>e. res = VmErr e) \<and> vm' = vm \<and> mapped (address_space vm) s' = mapped (address_space vm) s
        \<and> pool s' \<union> (tables R s' - tables R s) = pool s)"
  using alloc_and_map_range_spec [OF assms] .

subsection \<open>Creation\<close>

text \<open>
  A new address space takes one free frame as its root, maps no user page, has no area, shares the kernel
  half of the active root table entry by entry, and leaves all existing address spaces as they were;
  creation fails only when no frame is free.
\<close>

theorem VmSpace_new_correct:
  assumes "pt_inv R s" "pt_user R s" "PAGE_SIZE dvd active" "active \<notin> pool s" "VmSpace_new active s = (res, s')"
  shows "case res of
      None \<Rightarrow> pool s = {} \<and> s' = s
    | Some vm \<Rightarrow> address_space vm \<in> pool s \<and> pool s' = pool s - {address_space vm}
        \<and> vm_ok (insert (address_space vm) R) vm s' \<and> mapped (address_space vm) s' = Map.empty \<and> vmas vm = []
        \<and> (\<forall>r \<in> R. mapped r s' = mapped r s)
        \<and> (\<forall>j<512. read_entry (mem s') (address_space vm) j = (if j < 256 then 0 else read_entry (mem s) active j))"
proof (cases res)
  case None
  then show ?thesis using assms(1,5) pmm_alloc.alloc_None [of "pmm s"]
    by (auto simp: VmSpace_new_def kernel_alloc_frame_def Let_def pt_inv_def split: prod.splits option.splits)
next
  case (Some vm)
  note spec = VmSpace_new_spec [OF assms(1-4) assms(5) [unfolded Some]]
  then have "PAGE_SIZE dvd address_space vm" using managed_addrs_page [OF assms(1)] avail_subset_managed [OF assms(1)] by blast
  then have "\<forall>j<512. read_entry (mem s') (address_space vm) j = (if j < 256 then 0 else read_entry (mem s) active j)"
    using spec by simp
  moreover have "vm_ok (insert (address_space vm) R) vm s'"
    using spec by (simp add: vm_ok_def coherent_def areas_aligned_def)
  ultimately show ?thesis using spec unfolding Some option.case by blast
qed

subsection \<open>Concrete runs\<close>

definition demo_vm :: VmSpace where
  "demo_vm = \<lparr> address_space = 8192, vmas = [mk_vma 0x400000 0x402000 3 0x22] \<rparr>"

lemma demo_unmapped: "mapped 8192 demo_mmu = Map.empty"
  by (simp add: mapped_def demo_mmu_def demo_pte fun_eq_iff)

lemma demo_vm_ok: "vm_ok {8192} demo_vm demo_mmu"
  using demo_vm_inv demo_unmapped
  by (simp add: vm_ok_def demo_vm_def areas_aligned_def coherent_def PAGE_SIZE_def USER_SPACE_END_def)

theorem remove_vma_range_correct_witness:
  "case remove_vma_range demo_vm 0x401000 0x402000 demo_mmu of (res, vm', s') \<Rightarrow>
    res = VmOk \<and> vm_ok {8192} vm' s' \<and> vlook (vmas vm') 0x400000 = Some (3, 0x22) \<and> vlook (vmas vm') 0x401000 = None"
proof -
  obtain res vm' s' where run: "remove_vma_range demo_vm 0x401000 0x402000 demo_mmu = (res, vm', s')"
    by (metis prod_cases3)
  have "PAGE_SIZE dvd 0x401000" "PAGE_SIZE dvd 0x402000" "0x402000 \<le> USER_SPACE_END"
    by (simp_all add: PAGE_SIZE_def USER_SPACE_END_def)
  from remove_vma_range_correct [OF demo_vm_ok this(1,2) _ this(3) run]
  show ?thesis unfolding run by (simp add: demo_vm_def)
qed

theorem mprotect_range_correct_witness:
  "(case mprotect_range demo_vm 0x401000 0x402000 1 demo_mmu of (res, vm', s') \<Rightarrow>
     res = VmOk \<and> vm_ok {8192} vm' s' \<and> vlook (vmas vm') 0x401000 = Some (1, 0x22))
   \<and> (case mprotect_range demo_vm 0x401000 0x403000 1 demo_mmu of (res, vm', s') \<Rightarrow> res \<noteq> VmOk \<and> vm' = demo_vm)"
proof -
  obtain res vm' s' where run: "mprotect_range demo_vm 0x401000 0x402000 1 demo_mmu = (res, vm', s')" by (metis prod_cases3)
  obtain res2 vm2 s2 where run2: "mprotect_range demo_vm 0x401000 0x403000 1 demo_mmu = (res2, vm2, s2)" by (metis prod_cases3)
  have al: "PAGE_SIZE dvd 0x401000" "PAGE_SIZE dvd 0x402000" "PAGE_SIZE dvd 0x403000"
    "0x402000 \<le> USER_SPACE_END" "0x403000 \<le> USER_SPACE_END"
    by (simp_all add: PAGE_SIZE_def USER_SPACE_END_def)
  have "{0x401000..<0x402000} \<subseteq> dom (vlook (vmas demo_vm))" "0x402000 \<notin> dom (vlook (vmas demo_vm))"
    by (auto simp: demo_vm_def dom_def)
  moreover from this(2) have "\<not> {0x401000..<0x403000} \<subseteq> dom (vlook (vmas demo_vm))"
  proof -
    have "(0x402000 :: nat) \<in> {0x401000..<0x403000}" by simp
    then show ?thesis using \<open>0x402000 \<notin> dom (vlook (vmas demo_vm))\<close> by blast
  qed
  ultimately show ?thesis
    using mprotect_range_correct [OF demo_vm_ok al(1,2,4) run] mprotect_range_correct [OF demo_vm_ok al(1,3,5) run2]
    unfolding run run2 by (simp add: demo_vm_def)
qed

theorem alloc_and_map_range_correct_witness:
  "case alloc_and_map_range demo_vm 0x500010 100 user_data demo_mmu of (res, vm', s') \<Rightarrow>
    vm_ok {8192} vm' s' \<and> (res = VmOk \<or> vm' = demo_vm)"
proof -
  obtain res vm' s' where run: "alloc_and_map_range demo_vm 0x500010 100 user_data demo_mmu = (res, vm', s')"
    by (metis prod_cases3)
  have ad: "0x500010 + 100 \<le> USER_SPACE_END" "pf_user user_data"
    "0x500000 = align_down 0x500010 PAGE_SIZE" "0x501000 = align_down (0x500010 + 100 + PAGE_SIZE - 1) PAGE_SIZE"
    by (simp_all add: USER_SPACE_END_def user_data_def align_down_def PAGE_SIZE_def)
  have "{0x500000..<0x501000} \<inter> dom (vlook (vmas demo_vm)) = {}" by (auto simp: demo_vm_def)
  from alloc_and_map_range_correct [OF demo_vm_ok ad(1) zero_less_numeral ad(2-4) this run]
  show ?thesis unfolding run prod.case by argo
qed

theorem VmSpace_new_correct_witness:
  "case VmSpace_new 8192 demo_mmu of (res, s') \<Rightarrow>
    (case res of None \<Rightarrow> pool demo_mmu = {} | Some vm \<Rightarrow> address_space vm \<in> pool demo_mmu \<and> mapped (address_space vm) s' = Map.empty)"
proof -
  obtain res s' where run: "VmSpace_new 8192 demo_mmu = (res, s')" by fastforce
  have "pt_inv {8192} demo_mmu" "pt_user {8192} demo_mmu" using demo_vm_inv by (simp_all add: vm_inv_def)
  moreover have "PAGE_SIZE dvd 8192" by (simp add: PAGE_SIZE_def)
  ultimately show ?thesis using VmSpace_new_correct [OF _ _ _ demo_avail(1) run, of "{8192}"] unfolding run
    by (cases res) simp_all
qed

end
