(* ===== verification/User_Mem.thy ===== *)
theory User_Mem
  imports Vmm
begin

text \<open>
  User memory: the bytes a process sees through its page tables, kernel writes into an address space
  (\<^verbatim>\<open>kernel/src/ostd/mm/vmm.rs\<close>), and the validated accesses of \<^verbatim>\<open>kernel/src/ostd/mm/user.rs\<close> and
  \<^verbatim>\<open>kernel/src/services/posix/user_access.rs\<close>.
\<close>

subsection \<open>The processor's view of user memory\<close>

text \<open>
  A user byte is the byte of physical memory its address translates to. \<open>None\<close> is a page fault.
\<close>

definition user_get :: "usize \<Rightarrow> mmu \<Rightarrow> usize \<Rightarrow> u8 option" where
  "user_get root s v = map_option (get_byte (mem s)) (translate (mem s) root v)"

definition user_put :: "usize \<Rightarrow> usize \<Rightarrow> u8 \<Rightarrow> mmu \<Rightarrow> mmu option" where
  "user_put root v b s = map_option (\<lambda>p. s\<lparr> mem := put_byte p b (mem s) \<rparr>) (translate (mem s) root v)"

fun user_load :: "usize \<Rightarrow> mmu \<Rightarrow> usize \<Rightarrow> nat \<Rightarrow> bytes option" where
  "user_load root s v 0 = Some []"
| "user_load root s v (Suc n) =
    (case user_get root s v of
       None \<Rightarrow> None
     | Some b \<Rightarrow> map_option (Cons b) (user_load root s (v + 1) n))"

fun user_store :: "usize \<Rightarrow> usize \<Rightarrow> bytes \<Rightarrow> mmu \<Rightarrow> mmu option" where
  "user_store root v [] s = Some s"
| "user_store root v (b # bs) s = Option.bind (user_put root v b s) (user_store root (v + 1) bs)"

subsection \<open>Validated accesses\<close>

text \<open>
  The functions below run in the address space \<open>root\<close> that is loaded in the MMU
  (\<open>AddressSpace::current\<close>). The outer option of a copying function is \<open>None\<close> if the access itself faults.
\<close>

definition USER_STR_MAX :: usize where [posix_consts]: "USER_STR_MAX = 4096"
definition PAGE_MASK :: usize where [posix_consts]: "PAGE_MASK = 0xFFF"

function validate_pages :: "(usize \<Rightarrow> u64) \<Rightarrow> usize \<Rightarrow> usize \<Rightarrow> usize \<Rightarrow> bool \<Rightarrow> UserAccessError + unit" where
  "validate_pages m root page end' need_write =
    (if page < end' then
       case validate_user_page m root page need_write of
         Inl e \<Rightarrow> Inl e
       | Inr _ \<Rightarrow>
          (case checked_add page (PAGE_MASK + 1) of
             None \<Rightarrow> Inl Overflow
           | Some page \<Rightarrow> validate_pages m root page end' need_write)
     else Inr ())"
  by pat_completeness auto
termination
  by (relation "measure (\<lambda>(m, root, page, end', need_write). end' - page)")
    (auto simp: checked_add_def PAGE_MASK_def split: if_splits)

declare validate_pages.simps [simp del]

definition validate_user_range :: "(usize \<Rightarrow> u64) \<Rightarrow> usize \<Rightarrow> usize \<Rightarrow> usize \<Rightarrow> bool \<Rightarrow> UserAccessError + unit" where
  "validate_user_range m root addr len need_write =
    (if len = 0 then Inr ()
     else case checked_add addr len of
       None \<Rightarrow> Inl Overflow
     | Some end' \<Rightarrow>
         if end' > USER_SPACE_END then Inl OutOfUserRange
         else validate_pages m root (align_down addr (PAGE_MASK + 1)) end' need_write)"

text \<open>\<open>UserPtr<T>\<close> with the size of \<open>T\<close>; a value of type \<open>T\<close> is its bytes.\<close>

record UserPtr =
  up_addr :: usize
  up_size :: usize

definition UserPtr_from_raw :: "usize \<Rightarrow> usize \<Rightarrow> UserAccessError + UserPtr" where
  "UserPtr_from_raw size_of_T addr =
    (if addr = 0 then Inl NullPointer
     else case checked_add addr size_of_T of
       None \<Rightarrow> Inl Overflow
     | Some end' \<Rightarrow>
         if end' > USER_SPACE_END then Inl OutOfUserRange
         else Inr \<lparr> up_addr = addr, up_size = size_of_T \<rparr>)"

definition UserPtr_validate :: "(usize \<Rightarrow> u64) \<Rightarrow> usize \<Rightarrow> UserPtr \<Rightarrow> bool \<Rightarrow> UserAccessError + unit" where
  "UserPtr_validate m root p need_write = validate_user_range m root (up_addr p) (up_size p) need_write"

definition UserPtr_read :: "usize \<Rightarrow> UserPtr \<Rightarrow> mmu \<Rightarrow> (UserAccessError + bytes) option" where
  "UserPtr_read root p s =
    (case validate_user_range (mem s) root (up_addr p) (up_size p) False of
       Inl e \<Rightarrow> Some (Inl e)
     | Inr _ \<Rightarrow> map_option Inr (user_load root s (up_addr p) (up_size p)))"

definition UserPtr_write :: "usize \<Rightarrow> UserPtr \<Rightarrow> bytes \<Rightarrow> mmu \<Rightarrow> ((UserAccessError + unit) \<times> mmu) option" where
  "UserPtr_write root p value s =
    (case validate_user_range (mem s) root (up_addr p) (up_size p) True of
       Inl e \<Rightarrow> Some (Inl e, s)
     | Inr _ \<Rightarrow> map_option (Pair (Inr ())) (user_store root (up_addr p) value s))"

record UserSlice =
  us_addr :: usize
  us_len :: usize

definition UserSlice_from_raw :: "usize \<Rightarrow> usize \<Rightarrow> UserAccessError + UserSlice" where
  "UserSlice_from_raw addr len =
    (if len > 0 \<and> addr = 0 then Inl NullPointer
     else if len > 0 then
       (case checked_add addr len of
          None \<Rightarrow> Inl Overflow
        | Some end' \<Rightarrow>
            if end' > USER_SPACE_END then Inl OutOfUserRange
            else Inr \<lparr> us_addr = addr, us_len = len \<rparr>)
     else Inr \<lparr> us_addr = addr, us_len = len \<rparr>)"

definition UserSlice_validate :: "(usize \<Rightarrow> u64) \<Rightarrow> usize \<Rightarrow> UserSlice \<Rightarrow> bool \<Rightarrow> UserAccessError + unit" where
  "UserSlice_validate m root u need_write = validate_user_range m root (us_addr u) (us_len u) need_write"

text \<open>The bytes written to the front of \<open>dst\<close>, whose length is \<open>dst_len\<close>.\<close>

definition copy_from_user :: "usize \<Rightarrow> UserSlice \<Rightarrow> usize \<Rightarrow> mmu \<Rightarrow> (UserAccessError + bytes) option" where
  "copy_from_user root u dst_len s =
    (if dst_len < us_len u then Some (Inl Overflow)
     else case validate_user_range (mem s) root (us_addr u) (us_len u) False of
       Inl e \<Rightarrow> Some (Inl e)
     | Inr _ \<Rightarrow> map_option Inr (user_load root s (us_addr u) (us_len u)))"

definition copy_to_user :: "usize \<Rightarrow> UserSlice \<Rightarrow> bytes \<Rightarrow> mmu \<Rightarrow> ((UserAccessError + usize) \<times> mmu) option" where
  "copy_to_user root u src s =
    (if length src < us_len u then Some (Inl Overflow, s)
     else case validate_user_range (mem s) root (us_addr u) (us_len u) True of
       Inl e \<Rightarrow> Some (Inl e, s)
     | Inr _ \<Rightarrow> map_option (Pair (Inr (us_len u))) (user_store root (us_addr u) (take (us_len u) src) s))"

text \<open>The loop of \<open>copy_cstr_from_user\<close>; \<open>buf\<close> holds the bytes copied so far and \<open>left\<close> the room behind them.\<close>

fun cstr_loop :: "usize \<Rightarrow> usize \<Rightarrow> bytes \<Rightarrow> nat \<Rightarrow> mmu \<Rightarrow> (UserAccessError + bytes) option" where
  "cstr_loop root addr buf 0 s = Some (Inl TooLong)"
| "cstr_loop root addr buf (Suc left) s =
    (case checked_add addr (length buf) of
       None \<Rightarrow> Some (Inl Overflow)
     | Some cur \<Rightarrow>
    if cur \<ge> USER_SPACE_END then Some (Inl OutOfUserRange)
    else
      (case (if length buf = 0 \<or> cur AND PAGE_MASK = 0 then validate_user_page (mem s) root cur False else Inr ()) of
         Inl e \<Rightarrow> Some (Inl e)
       | Inr _ \<Rightarrow>
        (case user_get root s cur of
           None \<Rightarrow> None
         | Some byte \<Rightarrow> if byte = 0 then Some (Inr buf) else cstr_loop root addr (buf @ [byte]) left s)))"

definition copy_cstr_from_user :: "usize \<Rightarrow> usize \<Rightarrow> usize \<Rightarrow> mmu \<Rightarrow> (UserAccessError + bytes) option" where
  "copy_cstr_from_user root addr buf_len s =
    (if addr = 0 then Some (Inl NullPointer)
     else if addr \<ge> USER_SPACE_END then Some (Inl OutOfUserRange)
     else cstr_loop root addr [] buf_len s)"

text \<open>\<open>core::str::from_utf8\<close> accepts the well-formed sequences of the Unicode standard.\<close>

definition cont :: "u8 \<Rightarrow> bool" where
  "cont b \<longleftrightarrow> 0x80 \<le> b \<and> b \<le> 0xBF"

fun from_utf8_ok :: "bytes \<Rightarrow> bool" where
  "from_utf8_ok [] = True"
| "from_utf8_ok (a # bs) =
    (if a \<le> 0x7F then from_utf8_ok bs
     else case bs of
       [] \<Rightarrow> False
     | b # bs1 \<Rightarrow>
        if 0xC2 \<le> a \<and> a \<le> 0xDF then cont b \<and> from_utf8_ok bs1
        else case bs1 of
          [] \<Rightarrow> False
        | c # bs2 \<Rightarrow>
           if 0xE0 \<le> a \<and> a \<le> 0xEF then
             (if a = 0xE0 then 0xA0 \<le> b \<and> b \<le> 0xBF
              else if a = 0xED then 0x80 \<le> b \<and> b \<le> 0x9F else cont b) \<and> cont c \<and> from_utf8_ok bs2
           else case bs2 of
             [] \<Rightarrow> False
           | d # bs3 \<Rightarrow>
              0xF0 \<le> a \<and> a \<le> 0xF4
              \<and> (if a = 0xF0 then 0x90 \<le> b \<and> b \<le> 0xBF
                 else if a = 0xF4 then 0x80 \<le> b \<and> b \<le> 0x8F else cont b)
              \<and> cont c \<and> cont d \<and> from_utf8_ok bs3)"

text \<open>A Rust string is kept as the list of its bytes, each a character.\<close>

definition str_of :: "bytes \<Rightarrow> string" where
  "str_of bs = map (\<lambda>b. char_of (unat b)) bs"

definition map_user_error :: "UserAccessError \<Rightarrow> i32" where
  "map_user_error err = (case err of TooLong \<Rightarrow> ENAMETOOLONG | _ \<Rightarrow> EFAULT)"

text \<open>\<open>Panic\<close> stands for a page fault in the kernel.\<close>

definition copy_user_path :: "usize \<Rightarrow> usize \<Rightarrow> mmu \<Rightarrow> string kres" where
  "copy_user_path root path_ptr s =
    (case copy_cstr_from_user root path_ptr USER_STR_MAX s of
       None \<Rightarrow> Panic
     | Some (Inl e) \<Rightarrow> Err (map_user_error e)
     | Some (Inr bs) \<Rightarrow> if from_utf8_ok bs then Ok (str_of bs) else Err EINVAL)"

definition copy_optional_user_str :: "usize \<Rightarrow> usize \<Rightarrow> mmu \<Rightarrow> string kres" where
  "copy_optional_user_str root ptr s = (if ptr = 0 then Ok [] else copy_user_path root ptr s)"

definition usize_of_bytes :: "bytes \<Rightarrow> usize" where
  "usize_of_bytes bs = foldr (\<lambda>b n. unat b + 256 * n) bs 0"

fun str_array_loop :: "usize \<Rightarrow> nat \<Rightarrow> usize \<Rightarrow> string list \<Rightarrow> mmu \<Rightarrow> string list kres" where
  "str_array_loop root 0 curr_ptr result s = Err E2BIG"
| "str_array_loop root (Suc n) curr_ptr result s =
    (case UserPtr_from_raw 8 curr_ptr of
       Inl e \<Rightarrow> Err (map_user_error e)
     | Inr uptr \<Rightarrow>
    (case UserPtr_read root uptr s of
       None \<Rightarrow> Panic
     | Some (Inl e) \<Rightarrow> Err (map_user_error e)
     | Some (Inr w) \<Rightarrow>
        if usize_of_bytes w = 0 then Ok result
        else kres_bind (copy_user_path root (usize_of_bytes w) s) (\<lambda>str.
          case checked_add curr_ptr 8 of
            None \<Rightarrow> Err EFAULT
          | Some curr_ptr \<Rightarrow> str_array_loop root n curr_ptr (result @ [str]) s)))"

definition copy_user_str_array :: "usize \<Rightarrow> usize \<Rightarrow> nat \<Rightarrow> mmu \<Rightarrow> string list kres" where
  "copy_user_str_array root arr_ptr max_count s =
    (if arr_ptr = 0 then Ok [] else str_array_loop root max_count arr_ptr [] s)"

subsection \<open>Single bytes\<close>

lemma bit_byte_mask: "bit (0xFF :: u64) n \<longleftrightarrow> n < 8" "bit (0xFF :: int) n \<longleftrightarrow> n < 8"
proof -
  have "(0xFF :: u64) = mask 8" "(0xFF :: int) = mask 8" by (simp_all add: mask_eq_exp_minus_1)
  then show "bit (0xFF :: u64) n \<longleftrightarrow> n < 8" "bit (0xFF :: int) n \<longleftrightarrow> n < 8" by (simp_all only: bit_mask_iff) auto
qed

lemma bit_get_byte: "n < 8 \<Longrightarrow> bit (get_byte m a) n \<longleftrightarrow> bit (m (a div 8)) (8 * (a mod 8) + n)"
  by (simp add: get_byte_def bit_simps)

lemma bit_put_byte:
  assumes "k < 64"
  shows "bit (put_byte a b m (a div 8)) k \<longleftrightarrow>
    (if 8 * (a mod 8) \<le> k \<and> k < 8 * (a mod 8) + 8 then bit b (k - 8 * (a mod 8)) else bit (m (a div 8)) k)"
proof -
  have b: "bit b n \<Longrightarrow> n < 8" for n using bit_imp_le_length [of b n] by simp
  show ?thesis using assms b [of "k - 8 * (a mod 8)"] by (auto simp: put_byte_def bit_simps bit_byte_mask)
qed

lemma get_put_byte: "get_byte (put_byte a b m) x = (if x = a then b else get_byte m x)"
proof (cases "x div 8 = a div 8")
  case True
  show ?thesis
  proof (rule bit_word_eqI)
    fix n assume "n < LENGTH(8)"
    then have n: "n < 8" by simp
    have eq: "x mod 8 = a mod 8 \<longleftrightarrow> x = a" using True by (metis div_mult_mod_eq)
    have "8 * (x mod 8) + n < 64" using n mod_less_divisor [of 8 x] by linarith
    note put = bit_put_byte [OF this, of a b m]
    show "bit (get_byte (put_byte a b m) x) n = bit (if x = a then b else get_byte m x) n"
    proof (cases "x = a")
      case False
      then have "\<not> (8 * (a mod 8) \<le> 8 * (x mod 8) + n \<and> 8 * (x mod 8) + n < 8 * (a mod 8) + 8)"
        using eq n by linarith
      then show ?thesis using False put True by (simp only: bit_get_byte [OF n] if_False)
    qed (use put n in \<open>simp add: bit_get_byte [OF n]\<close>)
  qed
next
  case False
  then show ?thesis by (auto simp: get_byte_def put_byte_def)
qed

lemma put_byte_other: "w \<noteq> a div 8 \<Longrightarrow> put_byte a b m w = m w"
  by (simp add: put_byte_def)

subsection \<open>Translations do not alias\<close>

lemma translate_Some:
  assumes "vm_inv R r s" "r' \<in> R" "v < USER_SPACE_END" "translate (mem s) r' v = Some p"
  obtains f a where "mapped r' s (align_down v PAGE_SIZE) = Some (f, a)" "p = f + v mod PAGE_SIZE"
    "PAGE_SIZE dvd f" "f \<notin> tables R s"
proof -
  have inv: "pt_inv R s" using assms(1) by (simp add: vm_inv_def)
  obtain f a where m: "mapped r' s (align_down v PAGE_SIZE) = Some (f, a)" "p = f + v mod PAGE_SIZE"
    using assms(4) translate_mapped [OF assms(3), of s r'] by auto
  moreover have "PAGE_SIZE dvd f" using frames_page [OF inv mapped_frames(2) [OF assms(2) m(1)]] by simp
  moreover have "f \<notin> tables R s" using mapped_not_table [OF inv assms(2) m(1)] .
  ultimately show ?thesis using that by blast
qed

lemma page_split_eq:
  assumes "PAGE_SIZE dvd f" "PAGE_SIZE dvd g" "f + i = g + j" "i < PAGE_SIZE" "j < PAGE_SIZE"
  shows "f = g \<and> i = j"
proof -
  have "(f + i) div PAGE_SIZE = f div PAGE_SIZE" "(g + j) div PAGE_SIZE = g div PAGE_SIZE"
    using div_plus_div_distrib_dvd_left [OF assms(1), of i] div_plus_div_distrib_dvd_left [OF assms(2), of j] assms(4,5)
    by (simp_all del: div_add)
  then have "f div PAGE_SIZE = g div PAGE_SIZE" using assms(3) by simp
  then have "f = g" using assms(1,2) by (metis dvd_mult_div_cancel)
  then show ?thesis using assms(3) by simp
qed

lemma frame_words:
  assumes "PAGE_SIZE dvd t" "PAGE_SIZE dvd f" "j < 512" "i < 512" "t div 8 + j = f div 8 + i"
  shows "t = f \<and> j = i"
proof -
  obtain a b where ab: "t = 8 * (512 * a)" "f = 8 * (512 * b)" using assms(1,2) by (auto simp: PAGE_SIZE_def dvd_def)
  have "(512 * a + j) div 512 = a" "(512 * b + i) div 512 = b" using assms(3,4) by simp_all
  then have "a = b" using assms(5) ab by simp
  then show ?thesis using assms(5) ab by simp
qed

lemma frame_byte_word:
  assumes "PAGE_SIZE dvd f" "off < PAGE_SIZE"
  shows "(f + off) div 8 = f div 8 + off div 8" "off div 8 < 512"
proof -
  have "8 dvd f" using assms(1) by (rule dvd_trans [rotated]) (simp add: PAGE_SIZE_def)
  then show "(f + off) div 8 = f div 8 + off div 8" by (rule div_plus_div_distrib_dvd_left)
  show "off div 8 < 512" using assms(2) by (simp add: PAGE_SIZE_def less_mult_imp_div_less)
qed

lemma page_mod_less [simp]: "v mod PAGE_SIZE < PAGE_SIZE"
  by (simp add: PAGE_SIZE_def)

lemma align_down_mod: "align_down v PAGE_SIZE + v mod PAGE_SIZE = v"
  by (simp add: align_down_def)

lemma translate_inj:
  assumes "vm_inv R r s" "r1 \<in> R" "r2 \<in> R" "v1 < USER_SPACE_END" "v2 < USER_SPACE_END"
    and "translate (mem s) r1 v1 = Some p" "translate (mem s) r2 v2 = Some p"
  shows "r1 = r2 \<and> v1 = v2"
proof -
  have inv: "pt_inv R s" using assms(1) by (simp add: vm_inv_def)
  obtain f1 a1 where 1: "mapped r1 s (align_down v1 PAGE_SIZE) = Some (f1, a1)" "p = f1 + v1 mod PAGE_SIZE" "PAGE_SIZE dvd f1"
    using translate_Some [OF assms(1,2,4,6)] by metis
  obtain f2 a2 where 2: "mapped r2 s (align_down v2 PAGE_SIZE) = Some (f2, a2)" "p = f2 + v2 mod PAGE_SIZE" "PAGE_SIZE dvd f2"
    using translate_Some [OF assms(1,3,5,7)] by metis
  have eq: "f1 = f2" "v1 mod PAGE_SIZE = v2 mod PAGE_SIZE"
    using page_split_eq [OF 1(3) 2(3), of "v1 mod PAGE_SIZE" "v2 mod PAGE_SIZE"] 1(2) 2(2) by auto
  have up: "user_page (align_down v1 PAGE_SIZE)" "user_page (align_down v2 PAGE_SIZE)"
    using 1(1) 2(1) by (auto simp: mapped_def split: if_splits)
  have "r1 = r2 \<and> vpath (align_down v1 PAGE_SIZE) = vpath (align_down v2 PAGE_SIZE)"
    using pt_inv_inj [OF inv assms(2,3) user_page_path [OF up(1)] user_page_path [OF up(2)]
        mapped_frames(1) [OF assms(2) 1(1)]] mapped_frames(1) [OF assms(3) 2(1)] eq(1) by blast
  then have "r1 = r2" "align_down v1 PAGE_SIZE = align_down v2 PAGE_SIZE"
    using vpath_inj [OF up] by auto
  then show ?thesis using eq(2) align_down_mod by metis
qed

lemma user_put_spec:
  assumes "vm_inv R r s" "v < USER_SPACE_END" "translate (mem s) r v \<noteq> None"
  obtains s' where "user_put r v b s = Some s'" "vm_inv R r s'" "pmm s' = pmm s" "tables R s' = tables R s"
    "\<And>r'. r' \<in> R \<Longrightarrow> mapped r' s' = mapped r' s"
    "\<And>r' x. r' \<in> R \<Longrightarrow> x < USER_SPACE_END \<Longrightarrow> user_get r' s' x = (if r' = r \<and> x = v then Some b else user_get r' s x)"
proof -
  obtain p where p: "translate (mem s) r v = Some p" using assms(3) by auto
  have r: "r \<in> R" and inv: "pt_inv R s" using assms(1) by (auto simp: vm_inv_def)
  let ?s = "s\<lparr>mem := put_byte p b (mem s)\<rparr>"
  obtain f a where f: "p = f + v mod PAGE_SIZE" "PAGE_SIZE dvd f" "f \<notin> tables R s"
    using translate_Some [OF assms(1) r assms(2) p] by metis
  have keep: "\<forall>t \<in> tables R s. \<forall>j<512. read_entry (mem ?s) t j = read_entry (mem s) t j"
  proof (intro ballI allI impI)
    fix t j assume t: "t \<in> tables R s" and j: "j < (512 :: nat)"
    then have "PAGE_SIZE dvd t" using frames_page [OF inv] tables_frames by blast
    then have "t div 8 + j \<noteq> f div 8 + v mod PAGE_SIZE div 8"
      using frame_words [OF _ f(2) j frame_byte_word(2) [OF f(2) page_mod_less]] f(3) t by metis
    then have "t div 8 + j \<noteq> p div 8" unfolding f(1) frame_byte_word(1) [OF f(2) page_mod_less] .
    then show "read_entry (mem ?s) t j = read_entry (mem s) t j" by (simp add: read_entry_def put_byte_other)
  qed
  note dw = data_write [OF keep]
  have m: "mapped r' ?s = mapped r' s" if "r' \<in> R" for r' using dw(6) [OF _ that] by simp
  have tr: "translate (mem ?s) r' x = translate (mem s) r' x" if "r' \<in> R" "x < USER_SPACE_END" for r' x
    using translate_mapped [OF that(2)] m [OF that(1)] by metis
  have g: "user_get r' ?s x = (if r' = r \<and> x = v then Some b else user_get r' s x)" if "r' \<in> R" "x < USER_SPACE_END" for r' x
  proof (cases "translate (mem s) r' x")
    case None
    then show ?thesis using tr [OF that] p by (auto simp: user_get_def)
  next
    case (Some q)
    then have "q = p \<longleftrightarrow> r' = r \<and> x = v" using translate_inj [OF assms(1) that(1) r that(2) assms(2)] p by auto
    then show ?thesis using tr [OF that] Some by (auto simp: user_get_def get_put_byte)
  qed
  show ?thesis by (rule that [of ?s]) (use p dw assms(1) m g in \<open>simp_all add: user_put_def\<close>)
qed

subsection \<open>Stores and loads of byte sequences\<close>

text \<open>\<open>s'\<close> is \<open>s\<close> with the bytes \<open>bs\<close> at the addresses from \<open>v\<close> of the address space \<open>r\<close>, and nothing else changed.\<close>

definition stored :: "usize set \<Rightarrow> usize \<Rightarrow> usize \<Rightarrow> bytes \<Rightarrow> mmu \<Rightarrow> mmu \<Rightarrow> bool" where
  "stored R r v bs s s' \<longleftrightarrow> vm_inv R r s' \<and> pmm s' = pmm s \<and> tables R s' = tables R s
    \<and> (\<forall>r' \<in> R. mapped r' s' = mapped r' s)
    \<and> (\<forall>r' \<in> R. \<forall>x<USER_SPACE_END. user_get r' s' x =
        (if r' = r \<and> v \<le> x \<and> x < v + length bs then Some (bs ! (x - v)) else user_get r' s x))"

lemma stored_translate:
  "stored R r v bs s s' \<Longrightarrow> r' \<in> R \<Longrightarrow> x < USER_SPACE_END \<Longrightarrow> translate (mem s') r' x = translate (mem s) r' x"
  by (simp add: stored_def translate_mapped)

lemma stored_Nil: "vm_inv R r s \<Longrightarrow> stored R r v [] s s"
  by (auto simp: stored_def)

lemma user_put_stored:
  assumes "vm_inv R r s" "v < USER_SPACE_END" "translate (mem s) r v \<noteq> None"
  shows "\<exists>s'. user_put r v b s = Some s' \<and> stored R r v [b] s s'"
proof -
  have iff: "r' = r \<and> v \<le> x \<and> x < v + length [b] \<longleftrightarrow> r' = r \<and> x = v" for r' x by auto
  from assms show ?thesis
  proof (rule user_put_spec [of R r s v b])
    fix s'
    assume "user_put r v b s = Some s'" "vm_inv R r s'" "pmm s' = pmm s" "tables R s' = tables R s"
      "\<And>r'. r' \<in> R \<Longrightarrow> mapped r' s' = mapped r' s"
      "\<And>r' x. r' \<in> R \<Longrightarrow> x < USER_SPACE_END \<Longrightarrow> user_get r' s' x = (if r' = r \<and> x = v then Some b else user_get r' s x)"
    then show ?thesis unfolding stored_def iff by (intro exI [of _ s'] conjI ballI allI impI) auto
  qed
qed

lemma stored_append:
  assumes "stored R r v bs s s1" "stored R r (v + length bs) cs s1 s2"
  shows "stored R r v (bs @ cs) s s2"
  using assms unfolding stored_def by (auto simp: nth_append diff_diff_left)

lemma user_store_spec:
  assumes "vm_inv R r s" "v + length bs \<le> USER_SPACE_END" "\<forall>i<length bs. translate (mem s) r (v + i) \<noteq> None"
  shows "\<exists>s'. user_store r v bs s = Some s' \<and> stored R r v bs s s'"
  using assms
proof (induction bs arbitrary: v s)
  case Nil
  then show ?case by (simp add: stored_Nil)
next
  case (Cons b bs)
  have r: "r \<in> R" using Cons.prems(1) by (simp add: vm_inv_def)
  have v: "v < USER_SPACE_END" "translate (mem s) r v \<noteq> None" using Cons.prems(2,3) by auto
  obtain s1 where s1: "user_put r v b s = Some s1" "stored R r v [b] s s1"
    using user_put_stored [OF Cons.prems(1) v] by blast
  have "\<forall>i<length bs. translate (mem s1) r (v + 1 + i) \<noteq> None"
  proof (intro allI impI)
    fix i assume "i < length bs"
    then have "translate (mem s) r (v + Suc i) \<noteq> None" "v + Suc i < USER_SPACE_END" using Cons.prems(2,3) by auto
    then show "translate (mem s1) r (v + 1 + i) \<noteq> None" using stored_translate [OF s1(2) r] by simp
  qed
  moreover have "vm_inv R r s1" using s1(2) by (simp add: stored_def)
  ultimately obtain s2 where "user_store r (v + 1) bs s1 = Some s2" "stored R r (v + 1) bs s1 s2"
    using Cons.IH [of s1 "v + 1"] Cons.prems(2) by auto
  then show ?case using s1(1) stored_append [OF s1(2), of bs s2] by simp
qed

lemma user_load_spec:
  "user_load r s v n = (if \<forall>i<n. user_get r s (v + i) \<noteq> None then Some (map (\<lambda>i. the (user_get r s (v + i))) [0..<n]) else None)"
proof (induction n arbitrary: v)
  case (Suc n)
  have all: "(\<forall>i<Suc n. user_get r s (v + i) \<noteq> None) \<longleftrightarrow> user_get r s v \<noteq> None \<and> (\<forall>i<n. user_get r s (v + 1 + i) \<noteq> None)"
    by (auto simp: less_Suc_eq_0_disj)
  have "map (\<lambda>i. the (user_get r s (v + i))) [0..<Suc n] = the (user_get r s v) # map (\<lambda>i. the (user_get r s (v + 1 + i))) [0..<n]"
    by (simp add: upt_conv_Cons map_Suc_upt [symmetric] del: upt_Suc)
  then show ?case unfolding all using Suc.IH [of "v + 1"] by (auto split: option.split)
qed simp

lemma user_get_None [simp]: "user_get r s v = None \<longleftrightarrow> translate (mem s) r v = None"
  by (simp add: user_get_def)

subsection \<open>Kernel writes into an address space\<close>

lemma same_page:
  assumes "v < USER_SPACE_END" "v mod PAGE_SIZE + i < PAGE_SIZE"
  shows "align_down (v + i) PAGE_SIZE = align_down v PAGE_SIZE" "(v + i) mod PAGE_SIZE = v mod PAGE_SIZE + i"
    "v + i < USER_SPACE_END"
  using page_split [OF user_page_align_down [OF assms(1)] assms(2)] align_down_mod [of v]
  by (simp_all add: add.assoc [symmetric])

lemma translate_same_page:
  fixes s :: mmu
  assumes "v < USER_SPACE_END" "v mod PAGE_SIZE + i < PAGE_SIZE"
  shows "translate (mem s) r (v + i) = map_option (\<lambda>p. p + i) (translate (mem s) r v)"
  using same_page [OF assms] translate_mapped [OF assms(1), of s r] translate_mapped [OF same_page(3) [OF assms], of s r]
  by (cases "mapped r s (align_down v PAGE_SIZE)") auto

lemma copy_bytes_store:
  assumes "vm_inv R r s" "v < USER_SPACE_END" "v mod PAGE_SIZE + length bs \<le> PAGE_SIZE" "translate (mem s) r v = Some p"
  shows "user_store r v bs s = Some (s\<lparr>mem := copy_bytes p bs (mem s)\<rparr>)"
  using assms
proof (induction bs arbitrary: v p s)
  case (Cons b bs)
  let ?s = "s\<lparr>mem := put_byte p b (mem s)\<rparr>"
  have r: "r \<in> R" using Cons.prems(1) by (simp add: vm_inv_def)
  have put: "user_put r v b s = Some ?s" using Cons.prems(4) by (simp add: user_put_def)
  then have st: "stored R r v [b] s ?s" using user_put_stored [OF Cons.prems(1,2), of b] Cons.prems(4) by auto
  show ?case
  proof (cases bs)
    case (Cons c cs)
    then have lt: "v mod PAGE_SIZE + 1 < PAGE_SIZE" using Cons.prems(3) by simp
    note sp = same_page [OF Cons.prems(2) lt]
    have "translate (mem s) r (v + 1) = Some (p + 1)" using translate_same_page [OF Cons.prems(2) lt, of s r] Cons.prems(4) by simp
    then have "translate (mem ?s) r (v + 1) = Some (p + 1)" using stored_translate [OF st r sp(3)] by simp
    moreover have "vm_inv R r ?s" using st by (simp add: stored_def)
    ultimately have "user_store r (v + 1) bs ?s = Some (?s\<lparr>mem := copy_bytes (p + 1) bs (mem ?s)\<rparr>)"
      using Cons.prems(3) sp by (intro Cons.IH) simp_all
    then show ?thesis using put by simp
  qed (use put in simp)
qed simp

definition write_spec where
  "write_spec R r v data s res s' \<longleftrightarrow>
    (if \<forall>i<length data. translate (mem s) r (v + i) \<noteq> None then res = VmOk \<and> stored R r v data s s'
     else res = VmErr ''Unmapped virtual address during write'' \<and> (\<exists>n<length data. stored R r v (take n data) s s'))"

lemma write_spec_chunk:
  assumes "stored R r v (take k data) s s1" "write_spec R r (v + k) (drop k data) s1 res s'" "k \<le> length data" "r \<in> R"
    and "\<forall>i<k. translate (mem s) r (v + i) \<noteq> None" "v + length data \<le> USER_SPACE_END"
  shows "write_spec R r v data s res s'"
proof -
  have len: "length (take k data) = k" using assms(3) by simp
  have tr: "translate (mem s1) r (v + k + i) = translate (mem s) r (v + (k + i))" if "k + i < length data" for i
    using stored_translate [OF assms(1,4), of "v + k + i"] that assms(6) by (simp add: add.assoc)
  have all: "(\<forall>i<length data. translate (mem s) r (v + i) \<noteq> None) \<longleftrightarrow>
      (\<forall>i<length (drop k data). translate (mem s1) r (v + k + i) \<noteq> None)"
  proof
    assume "\<forall>i<length data. translate (mem s) r (v + i) \<noteq> None"
    then show "\<forall>i<length (drop k data). translate (mem s1) r (v + k + i) \<noteq> None" using tr by simp
  next
    assume h: "\<forall>i<length (drop k data). translate (mem s1) r (v + k + i) \<noteq> None"
    show "\<forall>i<length data. translate (mem s) r (v + i) \<noteq> None"
    proof (intro allI impI)
      fix i assume i: "i < length data"
      show "translate (mem s) r (v + i) \<noteq> None"
      proof (cases "i < k")
        case False
        then have "k + (i - k) = i" "i - k < length (drop k data)" using i by auto
        then show ?thesis using h [rule_format, of "i - k"] tr [of "i - k"] i by simp
      qed (use assms(5) in blast)
    qed
  qed
  show ?thesis
  proof (cases "\<forall>i<length data. translate (mem s) r (v + i) \<noteq> None")
    case True
    then have "res = VmOk" "stored R r (v + k) (drop k data) s1 s'" using assms(2) all by (auto simp: write_spec_def)
    then have "stored R r v (take k data @ drop k data) s s'" by (intro stored_append [OF assms(1)]) (simp only: len)
    then show ?thesis using True \<open>res = VmOk\<close> by (simp add: write_spec_def)
  next
    case False
    then obtain n where n: "n < length (drop k data)" "stored R r (v + k) (take n (drop k data)) s1 s'"
      and res: "res = VmErr ''Unmapped virtual address during write''"
      using assms(2) all unfolding write_spec_def by (smt (verit))
    have "stored R r v (take (k + n) data) s s'"
      using stored_append [OF assms(1)] n(2) len by (simp add: take_add)
    moreover have "k + n < length data" using n(1) by simp
    ultimately show ?thesis using False res unfolding write_spec_def by (simp only: if_False) blast
  qed
qed

lemma write_bytes_loop_spec:
  assumes "vm_inv R r s" "target + length data \<le> USER_SPACE_END" "written \<le> length data"
    and "write_bytes_loop r target data written s = (res, s')"
  shows "write_spec R r (target + written) (drop written data) s res s'"
  using assms
proof (induction r target data written s rule: write_bytes_loop.induct)
  case (1 r target data written s)
  have r: "r \<in> R" using 1(2) by (simp add: vm_inv_def)
  show ?case
  proof (cases "written < length data")
    case False
    then show ?thesis using 1(2,5) by (auto simp: write_spec_def stored_Nil write_bytes_loop.simps [of r])
  next
    case True
    let ?v = "target + written"
    let ?k = "min (length data - written) (PAGE_SIZE - ?v mod PAGE_SIZE)"
    have v: "?v < USER_SPACE_END" "\<not> USIZE_LIMIT \<le> ?v"
      using 1(3) True by (auto simp: USER_SPACE_END_def USIZE_LIMIT_def)
    have k: "?v mod PAGE_SIZE + i < PAGE_SIZE" if "i < ?k" for i using that by linarith
    show ?thesis
    proof (cases "translate (mem s) r ?v")
      case None
      then have "res = VmErr ''Unmapped virtual address during write''" "s' = s"
        using 1(5) True v(2) by (auto simp: Let_def write_bytes_loop.simps [of r target data written])
      moreover have "\<not> (\<forall>i<length (drop written data). translate (mem s) r (?v + i) \<noteq> None)"
        using None True by (auto intro!: exI [of _ 0])
      moreover have "stored R r ?v (take 0 (drop written data)) s s" using 1(2) by (simp add: stored_Nil)
      ultimately show ?thesis unfolding write_spec_def using True by (simp only: if_False) (auto intro!: exI [of _ 0])
    next
      case (Some p)
      let ?bs = "take ?k (drop written data)"
      let ?s = "s\<lparr>mem := copy_bytes p ?bs (mem s)\<rparr>"
      have len: "length ?bs = ?k" by simp
      have tr: "\<forall>i<?k. translate (mem s) r (?v + i) \<noteq> None"
        using translate_same_page [OF v(1) k, of _ s r] Some by simp
      have "?v mod PAGE_SIZE + length ?bs \<le> PAGE_SIZE" using len page_mod_less [of ?v] by linarith
      note cp = copy_bytes_store [OF 1(2) v(1) this Some]
      have "?v + length ?bs \<le> USER_SPACE_END" using 1(3) True len by linarith
      from user_store_spec [OF 1(2) this] tr have st: "stored R r ?v ?bs s ?s" unfolding len cp by blast
      have "write_bytes_loop r target data (written + ?k) ?s = (res, s')"
        using 1(5) True v(2) Some by (simp add: Let_def write_bytes_loop.simps [of r target data written])
      moreover have "vm_inv R r ?s" using st by (simp add: stored_def)
      ultimately have "write_spec R r (target + (written + ?k)) (drop (written + ?k) data) ?s res s'"
        using 1(1) [OF True refl v(2) refl refl refl Some _ 1(3)] True by simp
      then have "write_spec R r (?v + ?k) (drop ?k (drop written data)) ?s res s'"
        by (simp add: add.assoc add.commute)
      then show ?thesis using write_spec_chunk [OF st _ _ r tr] 1(3) True by simp
    qed
  qed
qed

subsection \<open>Validation of ranges\<close>

text \<open>The process may read (or, with \<open>w\<close>, write) the byte at \<open>x\<close>.\<close>

definition user_ok :: "usize \<Rightarrow> mmu \<Rightarrow> bool \<Rightarrow> usize \<Rightarrow> bool" where
  "user_ok r s w x \<longleftrightarrow> access_check (mapped r s (align_down x PAGE_SIZE)) w = Inr ()"

lemma user_ok_translate: "user_ok r s w x \<Longrightarrow> x < USER_SPACE_END \<Longrightarrow> translate (mem s) r x \<noteq> None"
  by (auto simp: user_ok_def access_check_def translate_mapped split: option.splits)

lemma PAGE_MASK_Suc: "PAGE_MASK + 1 = PAGE_SIZE"
  by (simp add: PAGE_MASK_def PAGE_SIZE_def)

lemma validate_pages_spec:
  assumes "vm_inv R r s" "end' \<le> USER_SPACE_END" "PAGE_SIZE dvd page"
  shows "validate_pages (mem s) r page end' w = Inr () \<longleftrightarrow> (\<forall>x. page \<le> x \<and> x < end' \<longrightarrow> user_ok r s w x)"
  using assms(3)
proof (induction "end' - page" arbitrary: page rule: less_induct)
  case less
  show ?case
  proof (cases "page < end'")
    case False
    then show ?thesis by (auto simp: validate_pages.simps [of _ _ page])
  next
    case True
    then have p: "page < USER_SPACE_END" using assms(2) by simp
    have add: "checked_add page (PAGE_MASK + 1) = Some (page + PAGE_SIZE)"
      using p by (simp add: PAGE_MASK_def checked_add_def USIZE_LIMIT_def USER_SPACE_END_def PAGE_SIZE_def)
    have here: "validate_user_page (mem s) r page w = access_check (mapped r s page) w"
      using validate_user_page_mapped [OF assms(1) p] align_down_id [OF less.prems] by simp
    have same: "user_ok r s w x \<longleftrightarrow> access_check (mapped r s page) w = Inr ()" if "page \<le> x" "x < page + PAGE_SIZE" for x
    proof -
      have "align_down x PAGE_SIZE = page"
        using page_split(1) [of page "x - page"] that p less.prems by (simp add: user_page_def)
      then show ?thesis by (simp add: user_ok_def)
    qed
    have "0 < PAGE_SIZE" by (simp add: PAGE_SIZE_def)
    then have IH: "validate_pages (mem s) r (page + PAGE_SIZE) end' w = Inr () \<longleftrightarrow> (\<forall>x. page + PAGE_SIZE \<le> x \<and> x < end' \<longrightarrow> user_ok r s w x)"
      using True less.prems by (intro less.hyps) (simp_all add: PAGE_SIZE_def)
    have split: "(\<forall>x. page \<le> x \<and> x < end' \<longrightarrow> user_ok r s w x) \<longleftrightarrow>
        access_check (mapped r s page) w = Inr () \<and> (\<forall>x. page + PAGE_SIZE \<le> x \<and> x < end' \<longrightarrow> user_ok r s w x)"
      using same [OF order_refl] same True \<open>0 < PAGE_SIZE\<close> by (meson add_leE leI less_add_same_cancel1 order_refl)
    show ?thesis unfolding split using True IH
      by (simp add: validate_pages.simps [of _ _ page] here add [simplified] split: sum.split)
  qed
qed

definition range_ok :: "usize \<Rightarrow> mmu \<Rightarrow> bool \<Rightarrow> usize \<Rightarrow> usize \<Rightarrow> bool" where
  "range_ok r s w addr len \<longleftrightarrow> len = 0 \<or> (addr + len \<le> USER_SPACE_END \<and> (\<forall>x. addr \<le> x \<and> x < addr + len \<longrightarrow> user_ok r s w x))"

lemma user_ok_page: "user_ok r s w (align_down x PAGE_SIZE + i) \<longleftrightarrow> user_ok r s w x" if "i < PAGE_SIZE" "x < USER_SPACE_END"
  using page_split(1) [OF user_page_align_down [OF that(2)] that(1)] by (simp add: user_ok_def)

lemma validate_user_range_iff:
  assumes "vm_inv R r s"
  shows "validate_user_range (mem s) r addr len w = Inr () \<longleftrightarrow> range_ok r s w addr len"
proof (cases "len = 0 \<or> USER_SPACE_END < addr + len")
  case True
  then show ?thesis by (auto simp: validate_user_range_def range_ok_def checked_add_def)
next
  case False
  then have le: "addr + len \<le> USER_SPACE_END" "0 < len" by auto
  then have "addr + len < USIZE_LIMIT" by (simp add: USER_SPACE_END_def USIZE_LIMIT_def)
  then have "validate_user_range (mem s) r addr len w = validate_pages (mem s) r (align_down addr PAGE_SIZE) (addr + len) w"
    using le False by (simp add: validate_user_range_def checked_add_def PAGE_MASK_Suc [simplified])
  then have "validate_user_range (mem s) r addr len w = Inr () \<longleftrightarrow>
      (\<forall>x. align_down addr PAGE_SIZE \<le> x \<and> x < addr + len \<longrightarrow> user_ok r s w x)"
    using validate_pages_spec [OF assms le(1), of "align_down addr PAGE_SIZE"] by simp
  also have "\<dots> \<longleftrightarrow> (\<forall>x. addr \<le> x \<and> x < addr + len \<longrightarrow> user_ok r s w x)"
  proof (intro iffI allI impI)
    fix x
    assume h: "\<forall>x. addr \<le> x \<and> x < addr + len \<longrightarrow> user_ok r s w x" and x: "align_down addr PAGE_SIZE \<le> x \<and> x < addr + len"
    show "user_ok r s w x"
    proof (cases "addr \<le> x")
      case False
      then have "x - align_down addr PAGE_SIZE < PAGE_SIZE"
        using x align_down_mod [of addr] page_mod_less [of addr] by linarith
      then have "user_ok r s w x \<longleftrightarrow> user_ok r s w addr"
        using user_ok_page [of "x - align_down addr PAGE_SIZE" addr r s w] x le by simp
      then show ?thesis using h le by simp
    qed (use h x in blast)
  qed (use align_down_le [of addr PAGE_SIZE] le_trans in blast)
  finally show ?thesis using le by (simp add: range_ok_def)
qed

subsection \<open>Properties\<close>

text \<open>For the witnesses: one page of user data at \<open>0x400000\<close>.\<close>

definition demo_mapped :: mmu where
  "demo_mapped = snd (map_page 8192 0x400000 4096 user_data demo_mmu)"

lemma demo_mapped:
  "vm_inv {8192} 8192 demo_mapped" "mapped 8192 demo_mapped = [0x400000 \<mapsto> (4096, user_data)]"
proof -
  obtain ok where run: "map_page 8192 0x400000 4096 user_data demo_mmu = (ok, demo_mapped)"
    unfolding demo_mapped_def by (metis prod.collapse)
  have f: "4096 \<in> unreferenced {8192} demo_mmu - pool demo_mmu" "pf_user user_data"
    using demo_managed(2) demo_avail(2) by (simp_all add: demo_frames user_data_def)
  obtain T where T: "vm_inv {8192} 8192 demo_mapped" "pool demo_mapped = pool demo_mmu - T" "T \<subseteq> pool demo_mmu"
    "if ok then mapped 8192 demo_mapped = (mapped 8192 demo_mmu)(0x400000 \<mapsto> (4096, user_data\<lparr>pf_present := True\<rparr>)) \<and> card T \<le> 3
     else mapped 8192 demo_mapped = mapped 8192 demo_mmu \<and> 4096 \<in> unreferenced {8192} demo_mapped \<and> pool demo_mapped = {} \<and> card T \<le> 2"
    using vm_map_page [OF demo_vm_inv demo_user_page f run] by blast
  have "card (pool demo_mmu) = 13"
    unfolding avail_addrs_def demo_mmu_free by (subst card_image) (simp_all add: inj_on_def PAGE_SIZE_def)
  moreover have "\<not> ok \<Longrightarrow> pool demo_mmu = T" using T(2-4) by auto
  ultimately have ok using T(4) by (cases ok) auto
  then show "mapped 8192 demo_mapped = [0x400000 \<mapsto> (4096, user_data)]"
    using T(4) by (simp add: demo_unmapped user_data_def)
  show "vm_inv {8192} 8192 demo_mapped" by (rule T(1))
qed

lemma demo_mapped_ok:
  assumes "0x400000 \<le> x" "x < 0x401000"
  shows "user_ok 8192 demo_mapped w x" "translate (mem demo_mapped) 8192 x \<noteq> None"
proof -
  have "x div 4096 = 1024" using assms by (intro div_nat_eqI) simp_all
  then have "align_down x PAGE_SIZE = 0x400000" by (simp add: align_down_def PAGE_SIZE_def)
  then show ok: "user_ok 8192 demo_mapped w x" by (simp add: user_ok_def demo_mapped(2) access_check_def user_data_def)
  show "translate (mem demo_mapped) 8192 x \<noteq> None"
    by (rule user_ok_translate [OF ok]) (use assms in \<open>simp add: USER_SPACE_END_def\<close>)
qed

text \<open>
  A kernel write into an address space stores all of the data when every target address is mapped, and
  otherwise reports the unmapped address after storing a proper prefix. In both cases exactly the bytes
  written change, in this address space only, and no mapping and no frame is affected.
\<close>

theorem write_bytes_to_space_correct:
  assumes "vm_inv R (address_space vm) s" "target + length data \<le> USER_SPACE_END"
    and "write_bytes_to_space vm target data s = (res, s')"
  shows "if \<forall>i<length data. translate (mem s) (address_space vm) (target + i) \<noteq> None
    then res = VmOk \<and> stored R (address_space vm) target data s s'
    else res = VmErr ''Unmapped virtual address during write''
      \<and> (\<exists>n<length data. stored R (address_space vm) target (take n data) s s')"
  using write_bytes_loop_spec [OF assms(1,2), of 0 res s'] assms(3)
  by (simp add: write_bytes_to_space_def write_spec_def)

theorem write_bytes_to_space_correct_witness:
  "\<exists>s'. write_bytes_to_space \<lparr> address_space = 8192, vmas = [] \<rparr> 0x400010 [1, 2] demo_mapped = (VmOk, s')
    \<and> user_get 8192 s' 0x400011 = Some 2"
proof -
  let ?vm = "\<lparr> address_space = 8192, vmas = [] \<rparr>"
  obtain res s' where run: "write_bytes_to_space ?vm 0x400010 [1, 2] demo_mapped = (res, s')" by fastforce
  have "\<forall>i<length ([1, 2] :: bytes). translate (mem demo_mapped) (address_space ?vm) (0x400010 + i) \<noteq> None"
    using demo_mapped_ok(2) by simp
  moreover have "vm_inv {8192} (address_space ?vm) demo_mapped" "0x400010 + length ([1, 2] :: bytes) \<le> USER_SPACE_END"
    using demo_mapped(1) by (simp_all add: USER_SPACE_END_def)
  ultimately have "res = VmOk \<and> stored {8192} 8192 0x400010 [1, 2] demo_mapped s'"
    using write_bytes_to_space_correct [OF _ _ run, of "{8192}"] by (simp only: if_True VmSpace.simps simp_thms)
  then show ?thesis using run by (simp add: stored_def USER_SPACE_END_def)
qed

lemma copy_to_user_spec:
  assumes "vm_inv R r s"
  shows "\<exists>res s'. copy_to_user r u src s = Some (res, s')
    \<and> (if us_len u \<le> length src \<and> range_ok r s True (us_addr u) (us_len u)
       then res = Inr (us_len u) \<and> stored R r (us_addr u) (take (us_len u) src) s s'
       else (\<exists>e. res = Inl e) \<and> s' = s)"
proof -
  note val = validate_user_range_iff [OF assms, of "us_addr u" "us_len u" True]
  show ?thesis
  proof (cases "us_len u \<le> length src \<and> range_ok r s True (us_addr u) (us_len u)")
    case True
    have "\<exists>s'. user_store r (us_addr u) (take (us_len u) src) s = Some s' \<and> stored R r (us_addr u) (take (us_len u) src) s s'"
    proof (cases "us_len u = 0")
      case False
      then have "us_addr u + us_len u \<le> USER_SPACE_END" "\<forall>i<us_len u. translate (mem s) r (us_addr u + i) \<noteq> None"
        using True user_ok_translate [of r s True] by (auto simp: range_ok_def)
      then show ?thesis using user_store_spec [OF assms, of "us_addr u" "take (us_len u) src"] True by simp
    qed (simp add: stored_Nil assms)
    then show ?thesis using True val by (auto simp: copy_to_user_def)
  next
    case False
    then show ?thesis using val by (auto simp: copy_to_user_def split: sum.split)
  qed
qed

text \<open>
  C10: \<open>copy_to_user\<close> never faults. It succeeds exactly when the source is long enough and every byte of the
  buffer lies in user space on a page the process may write; then it stores exactly the buffer's bytes,
  and otherwise it changes nothing.
\<close>

theorem copy_to_user_correct:
  assumes "vm_inv R r s"
  shows "\<exists>res s'. copy_to_user r u src s = Some (res, s')
    \<and> (if us_len u \<le> length src \<and> range_ok r s True (us_addr u) (us_len u)
       then res = Inr (us_len u) \<and> stored R r (us_addr u) (take (us_len u) src) s s'
       else (\<exists>e. res = Inl e) \<and> s' = s)"
  using assms by (rule copy_to_user_spec)

lemma demo_range: "range_ok 8192 demo_mapped w 0x400010 2"
  using demo_mapped_ok(1) by (simp add: range_ok_def USER_SPACE_END_def)

theorem copy_to_user_correct_witness:
  "\<exists>s'. copy_to_user 8192 \<lparr> us_addr = 0x400010, us_len = 2 \<rparr> [1, 2] demo_mapped = Some (Inr 2, s')
    \<and> user_get 8192 s' 0x400011 = Some 2"
  using copy_to_user_correct [OF demo_mapped(1), of "\<lparr> us_addr = 0x400010, us_len = 2 \<rparr>" "[1, 2]"] demo_range
  by (auto simp: stored_def USER_SPACE_END_def)

text \<open>
  What \<open>copy_to_user\<close> has stored in a user buffer, \<open>copy_from_user\<close> reads back from it.
\<close>

theorem copy_user_roundtrip:
  assumes "vm_inv R r s" "copy_to_user r u src s = Some (Inr n, s')" "us_len u \<le> dst_len"
  shows "n = us_len u \<and> copy_from_user r u dst_len s' = Some (Inr (take (us_len u) src))"
proof -
  have r: "r \<in> R" using assms(1) by (simp add: vm_inv_def)
  have ok: "n = us_len u" "us_len u \<le> length src" "range_ok r s True (us_addr u) (us_len u)"
    "stored R r (us_addr u) (take (us_len u) src) s s'"
    using copy_to_user_spec [OF assms(1), of u src] assms(2) by (auto split: if_splits)
  have inv: "vm_inv R r s'" and m: "mapped r s' = mapped r s" using ok(4) r by (auto simp: stored_def)
  have "range_ok r s' False (us_addr u) (us_len u)"
    using ok(3) unfolding range_ok_def user_ok_def m access_check_def by (auto split: option.splits if_splits)
  then have "validate_user_range (mem s') r (us_addr u) (us_len u) False = Inr ()"
    using validate_user_range_iff [OF inv] by simp
  moreover have "user_get r s' (us_addr u + i) = Some (src ! i)" if "i < us_len u" for i
    using ok(2-4) r that by (auto simp: stored_def range_ok_def)
  then have "user_load r s' (us_addr u) (us_len u) = Some (take (us_len u) src)"
    using ok(2) by (auto simp: user_load_spec intro: nth_equalityI)
  ultimately show ?thesis using ok(1) assms(3) by (simp add: copy_from_user_def)
qed

subsection \<open>Strings from user space\<close>

definition cstr_at :: "usize \<Rightarrow> mmu \<Rightarrow> usize \<Rightarrow> bytes \<Rightarrow> bool" where
  "cstr_at r s addr bs \<longleftrightarrow> addr + length bs < USER_SPACE_END \<and> 0 \<notin> set bs
    \<and> (\<forall>i\<le>length bs. user_ok r s False (addr + i) \<and> user_get r s (addr + i) = Some ((bs @ [0]) ! i))"

lemma and_PAGE_MASK: "v AND PAGE_MASK = v mod PAGE_SIZE"
  using and_0xFFF [of v] by (simp add: PAGE_MASK_def)

lemma user_ok_next:
  assumes "user_ok r s w x" "(x + 1) mod PAGE_SIZE \<noteq> 0"
  shows "user_ok r s w (x + 1)"
proof -
  have "(x + 1) div PAGE_SIZE = x div PAGE_SIZE" using assms(2) by (simp add: div_Suc)
  then show ?thesis using assms(1) by (simp add: user_ok_def align_down_def)
qed

lemma cstr_at_prefix:
  assumes "cstr_at r s addr bs" "take (length buf) bs = buf"
  shows "length buf \<le> length bs" "addr + length buf < USER_SPACE_END" "user_ok r s False (addr + length buf)"
    "user_get r s (addr + length buf) = Some (if length bs = length buf then 0 else bs ! length buf)"
    "length bs = length buf \<Longrightarrow> bs = buf" "bs \<noteq> buf \<Longrightarrow> bs ! length buf \<noteq> 0"
proof -
  show le: "length buf \<le> length bs" using assms(2) by (metis length_take min.cobounded1)
  then show "addr + length buf < USER_SPACE_END" "user_ok r s False (addr + length buf)"
    "user_get r s (addr + length buf) = Some (if length bs = length buf then 0 else bs ! length buf)"
    using assms(1) by (auto simp: cstr_at_def nth_append)
  show eq: "length bs = length buf \<Longrightarrow> bs = buf" using assms(2) by simp
  show "bs \<noteq> buf \<Longrightarrow> bs ! length buf \<noteq> 0"
    using assms(1) le eq nth_mem [of "length buf" bs] by (fastforce simp: cstr_at_def)
qed

lemma conj_cong_left: "(R \<Longrightarrow> P \<longleftrightarrow> Q) \<Longrightarrow> P \<and> R \<longleftrightarrow> Q \<and> R"
  by blast

lemma cstr_loop_spec:
  assumes "vm_inv R r s" "addr < USER_SPACE_END" "\<forall>i<length buf. user_ok r s False (addr + i) \<and> user_get r s (addr + i) = Some (buf ! i)"
    and "0 \<notin> set buf"
  shows "\<exists>res. cstr_loop r addr buf left s = Some res
    \<and> (\<forall>bs. res = Inr bs \<longleftrightarrow> length bs < length buf + left \<and> take (length buf) bs = buf \<and> cstr_at r s addr bs)"
  using assms(3,4)
proof (induction left arbitrary: buf)
  case 0
  have "\<not> (length bs < length buf \<and> take (length buf) bs = buf)" for bs :: bytes by auto
  then show ?case by auto
next
  case (Suc left)
  let ?n = "length buf" and ?cur = "addr + length buf"
  show ?case
  proof (cases "?cur < USER_SPACE_END")
    case False
    then have "\<exists>e. cstr_loop r addr buf (Suc left) s = Some (Inl e)" by (simp add: checked_add_def)
    moreover have "\<not> (take ?n bs = buf \<and> cstr_at r s addr bs)" for bs using False cstr_at_prefix(2) by blast
    ultimately show ?thesis by fastforce
  next
    case True
    then have add: "checked_add addr ?n = Some ?cur" by (simp add: checked_add_def USER_SPACE_END_def USIZE_LIMIT_def)
    let ?chk = "if ?n = 0 \<or> ?cur AND PAGE_MASK = 0 then validate_user_page (mem s) r ?cur False else Inr ()"
    have chk: "?chk = Inr () \<longleftrightarrow> user_ok r s False ?cur"
    proof (cases "?n = 0 \<or> ?cur mod PAGE_SIZE = 0")
      case False
      then have "Suc (?n - 1) = ?n" "user_ok r s False (addr + (?n - 1))" using Suc.prems(1) by auto
      then have "user_ok r s False ?cur" using False user_ok_next [of r s False "addr + (?n - 1)"] by simp
      then show ?thesis using False by (simp add: and_PAGE_MASK)
    qed (simp add: and_PAGE_MASK validate_user_page_mapped [OF assms(1) True] user_ok_def)
    show ?thesis
    proof (cases "user_ok r s False ?cur")
      case False
      then obtain e where "?chk = Inl e" using chk by (cases ?chk) auto
      then have "cstr_loop r addr buf (Suc left) s = Some (Inl e)" using add True by simp
      moreover have "\<not> (take ?n bs = buf \<and> cstr_at r s addr bs)" for bs using False cstr_at_prefix(3) by blast
      ultimately show ?thesis by fastforce
    next
      case ok: True
      then obtain byte where byte: "user_get r s ?cur = Some byte" using user_ok_translate [OF ok True] by (metis user_get_None option.exhaust)
      show ?thesis
      proof (cases "byte = 0")
        case zero: True
        have "cstr_loop r addr buf (Suc left) s = Some (Inr buf)" using add True chk ok byte zero by simp
        moreover have "cstr_at r s addr buf"
          using Suc.prems ok byte zero True by (auto simp: cstr_at_def nth_append le_less)
        moreover have "bs = buf" if "take ?n bs = buf" "cstr_at r s addr bs" for bs
          using cstr_at_prefix(4-6) [OF that(2,1)] byte zero by (auto split: if_splits)
        ultimately show ?thesis by fastforce
      next
        case nz: False
        have loop: "cstr_loop r addr buf (Suc left) s = cstr_loop r addr (buf @ [byte]) left s"
          using add True chk ok byte nz by simp
        have "take ?n bs = buf \<and> cstr_at r s addr bs \<longleftrightarrow> take (length (buf @ [byte])) bs = buf @ [byte] \<and> cstr_at r s addr bs" for bs
        proof (rule conj_cong_left)
          assume c: "cstr_at r s addr bs"
          show "take ?n bs = buf \<longleftrightarrow> take (length (buf @ [byte])) bs = buf @ [byte]"
          proof
            assume t: "take ?n bs = buf"
            then have "length bs \<noteq> ?n" "bs ! ?n = byte" "?n \<le> length bs"
              using cstr_at_prefix(1,4) [OF c t] byte nz by (auto split: if_splits)
            then show "take (length (buf @ [byte])) bs = buf @ [byte]" using t by (simp add: take_Suc_conv_app_nth)
          next
            assume "take (length (buf @ [byte])) bs = buf @ [byte]"
            from arg_cong [OF this, of "take ?n"] show "take ?n bs = buf" by (simp add: take_take)
          qed
        qed
        moreover have "\<exists>res. cstr_loop r addr (buf @ [byte]) left s = Some res \<and>
            (\<forall>bs. res = Inr bs \<longleftrightarrow> length bs < length (buf @ [byte]) + left \<and> take (length (buf @ [byte])) bs = buf @ [byte] \<and> cstr_at r s addr bs)"
          using Suc.prems ok byte nz by (intro Suc.IH) (auto simp: nth_append less_Suc_eq)
        ultimately show ?thesis unfolding loop by simp
      qed
    qed
  qed
qed

lemma copy_cstr_spec:
  assumes "vm_inv R r s"
  shows "\<exists>res. copy_cstr_from_user r addr buf_len s = Some res
    \<and> (\<forall>bs. res = Inr bs \<longleftrightarrow> addr \<noteq> 0 \<and> length bs < buf_len \<and> cstr_at r s addr bs)"
proof (cases "addr = 0 \<or> addr \<ge> USER_SPACE_END")
  case True
  then show ?thesis by (auto simp: copy_cstr_from_user_def cstr_at_def)
next
  case False
  then show ?thesis using cstr_loop_spec [OF assms, of addr "[]" buf_len] by (simp add: copy_cstr_from_user_def)
qed

text \<open>
  C33: Reading a string from user space never faults, and delivers exactly the bytes up to the first NUL, provided
  that all of them and the NUL lie on readable user pages and fit the buffer; any other case is an error.
\<close>

theorem copy_cstr_from_user_correct:
  assumes "vm_inv R r s"
  shows "\<exists>res. copy_cstr_from_user r addr buf_len s = Some res
    \<and> (\<forall>bs. res = Inr bs \<longleftrightarrow> addr \<noteq> 0 \<and> length bs < buf_len \<and> cstr_at r s addr bs)"
  using copy_cstr_spec [OF assms] .

theorem copy_cstr_from_user_correct_witness:
  "\<exists>e. copy_cstr_from_user 8192 0x500000 16 demo_mapped = Some (Inl e)"
proof -
  have "align_down 0x500000 PAGE_SIZE = 0x500000" by (simp add: align_down_def PAGE_SIZE_def)
  then have "\<not> user_ok 8192 demo_mapped False 0x500000" by (simp add: user_ok_def demo_mapped(2) access_check_def)
  then have "\<not> cstr_at 8192 demo_mapped 0x500000 bs" for bs unfolding cstr_at_def by (metis add_0_right le0)
  then show ?thesis using copy_cstr_from_user_correct [OF demo_mapped(1), where addr = "0x500000" and buf_len = 16]
    by (metis sum.exhaust)
qed

theorem copy_user_roundtrip_witness:
  "\<exists>s'. copy_to_user 8192 \<lparr> us_addr = 0x400010, us_len = 2 \<rparr> [1, 2] demo_mapped = Some (Inr 2, s')
    \<and> copy_from_user 8192 \<lparr> us_addr = 0x400010, us_len = 2 \<rparr> 5 s' = Some (Inr [1, 2])"
proof -
  let ?u = "\<lparr> us_addr = 0x400010, us_len = 2 \<rparr>"
  obtain s' where s': "copy_to_user 8192 ?u [1, 2] demo_mapped = Some (Inr 2, s')"
    using copy_to_user_spec [OF demo_mapped(1), of ?u "[1, 2]"] demo_range by auto
  then show ?thesis using copy_user_roundtrip [OF demo_mapped(1) s', of 5] by auto
qed

end
