(* ===== verification/Vm_Clone.thy ===== *)
theory Vm_Clone
  imports User_Mem
begin

text \<open>
  Cloning of address spaces for \<open>fork\<close> (\<open>VmSpace::clone_from\<close> in \<^verbatim>\<open>kernel/src/ostd/mm/vmm.rs\<close>): the child gets its
  own copy of every page, and no other address space notices.
\<close>

subsection \<open>Frame contents\<close>

lemma map_page_content:
  assumes "vm_inv R r s" "user_page v" "f \<in> unreferenced R s - pool s" "map_page r v f fl s = (ok, s')"
    and "PAGE_SIZE dvd g" "g \<notin> tables R s" "g \<notin> pool s" "j < 512"
  shows "read_entry (mem s') g j = read_entry (mem s) g j"
proof -
  have inv: "pt_inv R s" "r \<in> R" "v < USER_SPACE_END" using assms(1,2) by (auto simp: vm_inv_def user_page_def)
  obtain T s1 where g: "grown R r (page_flags_to_arch fl OR PAGE_PRESENT) T s s1"
    and res: "if ok then pte_updated R r (vpath v) (leaf_entry f fl) s1 s'
         \<and> (\<forall>g. PAGE_SIZE dvd g \<longrightarrow> g \<notin> tables R s1 \<longrightarrow> (\<forall>j<512. read_entry (mem s') g j = read_entry (mem s1) g j))
       else s' = s1 \<and> avail_addrs (pmm s1) = {}"
    using map_page_spec [OF inv _ _ assms(4)] assms(3) by auto
  then have "T \<subseteq> pool s" "tables R s1 = tables R s \<union> T" by (auto simp: grown_def)
  then have "read_entry (mem s1) g j = read_entry (mem s) g j" "g \<notin> tables R s1"
    using g assms(5-8) unfolding grown_def by auto
  then show ?thesis using res assms(5,8) by (cases ok) auto
qed

lemma get_byte_frame:
  assumes "PAGE_SIZE dvd f" "PAGE_SIZE dvd g" "off < PAGE_SIZE" "\<forall>j<512. read_entry m' f j = read_entry m g j"
  shows "get_byte m' (f + off) = get_byte m (g + off)"
proof -
  have "8 dvd f" "8 dvd g" using assms(1,2) by (auto intro: dvd_trans [rotated] simp: PAGE_SIZE_def)
  then have "(f + off) mod 8 = (g + off) mod 8" by (metis mod_add_left_eq mod_eq_0_iff_dvd)
  moreover have "m' ((f + off) div 8) = m ((g + off) div 8)"
    using assms(4) frame_byte_word [OF assms(1,3)] frame_byte_word [OF assms(2,3)] by (simp add: read_entry_def)
  ultimately show ?thesis by (simp add: get_byte_def)
qed

lemma user_get_frame:
  "x < USER_SPACE_END \<Longrightarrow> user_get r s x =
    (case mapped r s (align_down x PAGE_SIZE) of None \<Rightarrow> None | Some (f, _) \<Rightarrow> Some (get_byte (mem s) (f + x mod PAGE_SIZE)))"
  by (auto simp: user_get_def translate_mapped split: option.split)

lemma read_copy_frame:
  assumes "PAGE_SIZE dvd src" "PAGE_SIZE dvd f" "PAGE_SIZE dvd u" "j < 512"
  shows "read_entry (mem (copy_frame src f s)) u j = (if u = f then read_entry (mem s) src j else read_entry (mem s) u j)"
proof -
  have "f div 8 \<le> u div 8 + j \<and> u div 8 + j < f div 8 + 512 \<longleftrightarrow> u = f"
  proof
    assume h: "f div 8 \<le> u div 8 + j \<and> u div 8 + j < f div 8 + 512"
    then have "u div 8 + j = f div 8 + (u div 8 + j - f div 8)" "u div 8 + j - f div 8 < 512" by auto
    then show "u = f" using frame_words [OF assms(3,2,4)] by blast
  qed (use assms(4) in auto)
  then show ?thesis by (auto simp: copy_frame_def read_entry_def)
qed

lemma copy_frame_pmm [simp]: "pmm (copy_frame src f s) = pmm s"
  by (simp add: copy_frame_def)

subsection \<open>One page\<close>

text \<open>The address spaces \<open>R\<close> look the same in \<open>s\<close> and \<open>s'\<close>: same mappings, same bytes.\<close>

definition kept :: "usize set \<Rightarrow> mmu \<Rightarrow> mmu \<Rightarrow> bool" where
  "kept R s s' \<longleftrightarrow> (\<forall>r \<in> R. mapped r s' = mapped r s) \<and> (\<forall>r \<in> R. \<forall>x<USER_SPACE_END. user_get r s' x = user_get r s x)"

lemma kept_trans: "kept R s s1 \<Longrightarrow> kept R s1 s2 \<Longrightarrow> kept R s s2"
  by (simp add: kept_def)

lemma kept_refl [simp]: "kept R s s"
  by (simp add: kept_def)

lemma same_content:
  assumes "vm_inv R r s" "r' \<in> R" "x < USER_SPACE_END" "mapped r' s' (align_down x PAGE_SIZE) = mapped r' s (align_down x PAGE_SIZE)"
    and "\<And>g. PAGE_SIZE dvd g \<Longrightarrow> g \<notin> tables R s \<Longrightarrow> g \<notin> pool s \<Longrightarrow> \<forall>j<512. read_entry (mem s') g j = read_entry (mem s) g j"
  shows "user_get r' s' x = user_get r' s x"
proof (cases "mapped r' s (align_down x PAGE_SIZE)")
  case None
  then show ?thesis using assms(3,4) by (simp add: user_get_frame)
next
  case (Some fa)
  then obtain f a where m: "mapped r' s (align_down x PAGE_SIZE) = Some (f, a)" by (cases fa) auto
  have inv: "pt_inv R s" using assms(1) by (simp add: vm_inv_def)
  note fr = mapped_frames(2) [OF assms(2) m]
  have f: "PAGE_SIZE dvd f" using frames_page [OF inv fr] by simp
  moreover have "f \<notin> pool s" using fr inv by (auto simp: pt_inv_def)
  ultimately have "\<forall>j<512. read_entry (mem s') f j = read_entry (mem s) f j"
    using assms(5) mapped_not_table [OF inv assms(2) m] by blast
  from get_byte_frame [OF f f page_mod_less this] show ?thesis using m assms(3,4) by (simp add: user_get_frame)
qed

text \<open>The part of the state outside the page \<open>v\<close> of the address space \<open>c\<close>.\<close>

definition kept_but :: "usize set \<Rightarrow> usize \<Rightarrow> usize set \<Rightarrow> mmu \<Rightarrow> mmu \<Rightarrow> bool" where
  "kept_but Q c V s s' \<longleftrightarrow> kept (Q - {c}) s s' \<and> (\<forall>w. w \<notin> V \<longrightarrow> mapped c s' w = mapped c s w)
    \<and> (\<forall>x<USER_SPACE_END. align_down x PAGE_SIZE \<notin> V \<longrightarrow> user_get c s' x = user_get c s x)"

lemma kept_but_trans: "kept_but Q c V s s1 \<Longrightarrow> kept_but Q c W s1 s2 \<Longrightarrow> kept_but Q c (V \<union> W) s s2"
  by (auto simp: kept_but_def intro: kept_trans)

lemma kept_but_mono: "kept_but Q c V s s' \<Longrightarrow> V \<subseteq> W \<Longrightarrow> kept_but Q c W s s'"
  by (auto simp: kept_but_def)

text \<open>The page \<open>v\<close> of \<open>c\<close> in \<open>s'\<close> is a private copy of the page \<open>v\<close> of \<open>p\<close> in \<open>s\<close>.\<close>

definition copied :: "usize \<Rightarrow> usize \<Rightarrow> PageFlags \<Rightarrow> mmu \<Rightarrow> mmu \<Rightarrow> usize \<Rightarrow> bool" where
  "copied p c fl s s' v \<longleftrightarrow> (\<exists>f \<in> pool s. mapped c s' v = Some (f, fl))
    \<and> (\<forall>x<USER_SPACE_END. align_down x PAGE_SIZE = v \<longrightarrow> user_get c s' x = user_get p s x)"

lemma clone_page_step:
  assumes inv: "vm_inv Q c s" and p: "p \<in> Q" "p \<noteq> c" and v: "user_page v" and fl: "pf_user fl"
    and src: "mapped p s v = Some (src, a)" and free: "mapped c s v = None"
    and al: "kernel_alloc_frame s = (Some f, s1)" and mp: "map_page c v f fl (copy_frame src f s1) = (ok, s3)"
  shows "vm_inv Q c s3 \<and> pool s3 \<subseteq> pool s - {f} \<and> kept_but Q c {v} s s3
    \<and> (if ok then copied p c (fl\<lparr>pf_present := True\<rparr>) s s3 v else mapped c s3 v = None \<and> pool s3 = {})"
proof -
  let ?s2 = "copy_frame src f s1"
  note A = kernel_alloc_Some [OF inv al]
  obtain x where s1: "s1 = s\<lparr>pmm := x\<rparr>" using al by (auto simp: kernel_alloc_frame_def split: prod.splits)
  have ptinv: "pt_inv Q s" and c: "c \<in> Q" using inv by (auto simp: vm_inv_def)
  have fpage: "PAGE_SIZE dvd f" using managed_addrs_page [OF ptinv] A avail_subset_managed [OF ptinv] by blast
  have ft: "f \<notin> tables Q s" using pool_disjoint(3) [OF inv] A by auto
  have spage: "PAGE_SIZE dvd src" using frames_page [OF ptinv mapped_frames(2) [OF p(1) src]] by simp
  have srcf: "src \<noteq> f" "src \<notin> pool s" "src \<notin> tables Q s"
    using A mapped_frames(2) [OF p(1) src] mapped_not_table [OF ptinv p(1) src] ptinv by (auto simp: pt_inv_def)
  note rd = read_copy_frame [OF spage fpage]
  have "\<forall>t \<in> tables Q s1. \<forall>j<512. read_entry (mem ?s2) t j = read_entry (mem s1) t j"
    using rd ft frames_page [OF ptinv] tables_frames [of Q s] by (auto simp: s1 subset_iff)
  note dw = data_write [OF this]
  have inv2: "vm_inv Q c ?s2" and tab2: "tables Q ?s2 = tables Q s" and fr2: "frames Q ?s2 = frames Q s"
    and m2: "r \<in> Q \<Longrightarrow> mapped r ?s2 = mapped r s" for r
    using dw A by (simp_all add: s1 frames_def)
  have pool2: "pool ?s2 = pool s - {f}" using A by simp
  have "f \<notin> frames Q s" using A ptinv by (auto simp: pt_inv_def)
  then have f2: "f \<in> unreferenced Q ?s2 - pool ?s2" using A fr2 pool2 pool_disjoint(1) [OF inv] by (auto simp: s1 managed_addrs_def)
  obtain T where T: "vm_inv Q c s3" "pool s3 = pool ?s2 - T"
    "if ok then mapped c s3 = (mapped c ?s2)(v \<mapsto> (f, fl\<lparr>pf_present := True\<rparr>)) \<and> card T \<le> 3
       else mapped c s3 = mapped c ?s2 \<and> f \<in> unreferenced Q s3 \<and> pool s3 = {} \<and> card T \<le> 2"
    "\<forall>r' \<in> Q. r' \<noteq> c \<longrightarrow> mapped r' s3 = mapped r' ?s2"
    using vm_map_page [OF inv2 v f2 fl mp] by blast
  have content: "read_entry (mem s3) g j = (if g = f then read_entry (mem s) src j else read_entry (mem s) g j)"
    if "PAGE_SIZE dvd g" "g \<notin> tables Q s" "g \<notin> pool s - {f}" "j < 512" for g j
    using map_page_content [OF inv2 v f2 mp that(1)] that rd tab2 pool2 by (simp add: s1)
  have same: "\<forall>j<512. read_entry (mem s3) g j = read_entry (mem s) g j"
    if "PAGE_SIZE dvd g" "g \<notin> tables Q s" "g \<notin> pool s" for g
    using content that A by auto
  have mc: "mapped c s3 w = mapped c s w" if "w \<noteq> v" for w using T(3) m2 [OF c] that by (cases ok) auto
  have kept: "kept_but Q c {v} s s3"
    using T(4) m2 mc c same_content [OF inv _ _ _ same] by (auto simp: kept_but_def kept_def)
  show ?thesis
  proof (cases ok)
    case True
    have mv: "mapped c s3 v = Some (f, fl\<lparr>pf_present := True\<rparr>)" using T(3) True by simp
    have "user_get c s3 y = user_get p s y" if "y < USER_SPACE_END" "align_down y PAGE_SIZE = v" for y
      using get_byte_frame [OF fpage spage page_mod_less, of "mem s3" "mem s" y] content [OF fpage ft] mv src that
      by (simp add: user_get_frame)
    then have "copied p c (fl\<lparr>pf_present := True\<rparr>) s s3 v" using mv A by (auto simp: copied_def)
    then show ?thesis using T(1,2) kept pool2 True by auto
  next
    case False
    then have "mapped c s3 v = None" "pool s3 = {}" using T(3) m2 [OF c] free by auto
    then show ?thesis using T(1) kept False by simp
  qed
qed

subsection \<open>The two loops\<close>

definition clone_result where
  "clone_result Q p c F V s ok s' \<longleftrightarrow> vm_inv Q c s' \<and> pool s' \<subseteq> pool s \<and> kept_but Q c V s s'
    \<and> (\<not> ok \<longrightarrow> pool s' = {})
    \<and> (ok \<longrightarrow> pool s' \<noteq> {} \<longrightarrow>
        (\<forall>w \<in> V. if mapped p s w = None then mapped c s' w = None else copied p c (F w) s s' w))"

lemma copied_earlier:
  assumes "copied p c fl s1 s2 w" "pool s1 \<subseteq> pool s" "kept_but Q c V s s1" "p \<in> Q" "p \<noteq> c"
  shows "copied p c fl s s2 w"
  using assms by (auto simp: copied_def kept_but_def kept_def)

lemma copied_later:
  assumes "copied p c fl s s1 w" "kept_but Q c W s1 s2" "w \<notin> W"
  shows "copied p c fl s s2 w"
  using assms by (auto simp: copied_def kept_but_def)

lemma clone_result_trans:
  assumes "clone_result Q p c F V s True s1" "clone_result Q p c F W s1 ok s2" "V \<inter> W = {}" "p \<in> Q" "p \<noteq> c"
  shows "clone_result Q p c F (V \<union> W) s ok s2"
proof -
  have 1: "pool s1 \<subseteq> pool s" "kept_but Q c V s s1"
    and 2: "vm_inv Q c s2" "pool s2 \<subseteq> pool s1" "kept_but Q c W s1 s2" "\<not> ok \<longrightarrow> pool s2 = {}"
    using assms(1,2) unfolding clone_result_def by blast+
  have pm: "mapped p s1 = mapped p s" using 1(2) assms(4,5) by (simp add: kept_but_def kept_def)
  have "if mapped p s w = None then mapped c s2 w = None else copied p c (F w) s s2 w"
    if "ok" "pool s2 \<noteq> {}" "w \<in> V \<union> W" for w
  proof (cases "w \<in> V")
    case True
    then have w: "w \<notin> W" using assms(3) by blast
    have "if mapped p s w = None then mapped c s1 w = None else copied p c (F w) s s1 w"
      using assms(1) True that(2) 2(2) unfolding clone_result_def by blast
    then show ?thesis using copied_later [OF _ 2(3) w] 2(3) w by (auto simp: kept_but_def split: if_splits)
  next
    case False
    then have "w \<in> W" using that(3) by blast
    then have "if mapped p s1 w = None then mapped c s2 w = None else copied p c (F w) s1 s2 w"
      using assms(2) that(1,2) unfolding clone_result_def by blast
    then show ?thesis using copied_earlier [OF _ 1 assms(4,5)] pm by (simp split: if_splits)
  qed
  then show ?thesis using 1 2 kept_but_trans [OF 1(2) 2(3)] unfolding clone_result_def by blast
qed

lemma clone_result_Nil: "vm_inv Q c s \<Longrightarrow> clone_result Q p c F {} s True s"
  by (simp add: clone_result_def kept_but_def)

lemma clone_result_skip:
  "vm_inv Q c s \<Longrightarrow> mapped p s v = None \<Longrightarrow> mapped c s v = None \<Longrightarrow> clone_result Q p c F {v} s True s"
  by (simp add: clone_result_def kept_but_def)

lemma translate_page_start: "user_page v \<Longrightarrow> translate (mem s) r v = map_option fst (mapped r s v)"
  using translate_page [of v 0 s r] by (simp add: PAGE_SIZE_def map_option_case case_prod_beta split: option.split)

lemma kernel_alloc_None:
  assumes "vm_inv Q c s" "kernel_alloc_frame s = (None, s')"
  shows "pool s = {}" "s' = s"
  using assms pmm_alloc.alloc_None [of "pmm s"]
  by (auto simp: kernel_alloc_frame_def vm_inv_def pt_inv_def split: prod.splits)

lemma clone_pages_spec:
  assumes "vm_inv Q c s" "p \<in> Q" "p \<noteq> c" "\<forall>k<n. user_page (v + k * PAGE_SIZE)"
    and "\<forall>w \<in> set (page_range v n). mapped c s w = None \<and> F w = from_prot prot"
    and "clone_pages p c (from_prot prot) v n s = (ok, s')"
  shows "clone_result Q p c F (set (page_range v n)) s ok s'"
  using assms(1,4,5,6)
proof (induction n arbitrary: v s)
  case 0
  then show ?case by (simp add: clone_result_Nil)
next
  case (Suc n)
  have v: "user_page v" using Suc.prems(2) by force
  let ?W = "set (page_range (v + PAGE_SIZE) n)"
  have V: "set (page_range v (Suc n)) = {v} \<union> ?W" by (simp add: page_range_head)
  have dis: "{v} \<inter> ?W = {}" by (auto simp: page_range_def PAGE_SIZE_def)
  have up: "\<forall>k<n. user_page (v + PAGE_SIZE + k * PAGE_SIZE)"
  proof (intro allI impI)
    fix k assume "k < n"
    then have "user_page (v + Suc k * PAGE_SIZE)" using Suc.prems(2) by (metis Suc_less_eq)
    then show "user_page (v + PAGE_SIZE + k * PAGE_SIZE)" by (simp add: add.assoc)
  qed
  have free: "mapped c s v = None" "F v = from_prot prot" using Suc.prems(3) unfolding V by auto
  have rest: "clone_result Q p c F ({v} \<union> ?W) s ok s'"
    if one: "clone_result Q p c F {v} s True s1" and run: "clone_pages p c (from_prot prot) (v + PAGE_SIZE) n s1 = (ok, s')" for s1
  proof -
    have "vm_inv Q c s1" "kept_but Q c {v} s s1" using one by (auto simp: clone_result_def)
    then have "\<forall>w \<in> ?W. mapped c s1 w = None \<and> F w = from_prot prot"
      using Suc.prems(3) dis unfolding V by (auto simp: kept_but_def)
    from clone_result_trans [OF one Suc.IH [OF \<open>vm_inv Q c s1\<close> up this run] dis assms(2,3)] show ?thesis .
  qed
  show ?case unfolding V
  proof (cases "mapped p s v")
    case None
    then show "clone_result Q p c F ({v} \<union> ?W) s ok s'"
      using rest [OF clone_result_skip [OF Suc.prems(1) None free(1)]] Suc.prems(4)
      by (simp add: translate_page_start [OF v])
  next
    case (Some fa)
    then obtain src a where src: "mapped p s v = Some (src, a)" by (cases fa) auto
    have spage: "PAGE_SIZE dvd src"
      using frames_page [OF _ mapped_frames(2) [OF assms(2) src]] Suc.prems(1) by (auto simp: vm_inv_def)
    have tr: "translate (mem s) p v = Some src" using translate_page_start [OF v, of s p] src by simp
    show "clone_result Q p c F ({v} \<union> ?W) s ok s'"
    proof (cases "kernel_alloc_frame s")
      case (Pair o1 s1)
      show ?thesis
      proof (cases o1)
        case None
        then have "ok = False" "s' = s" "pool s = {}"
          using Suc.prems(4) tr Pair kernel_alloc_None [OF Suc.prems(1)] by auto
        then show ?thesis using Suc.prems(1) by (simp add: clone_result_def kept_but_def)
      next
        case (Some f)
        obtain ok1 s3 where mp: "map_page c v f (from_prot prot) (copy_frame src f s1) = (ok1, s3)" by fastforce
        note st = clone_page_step [OF Suc.prems(1) assms(2,3) v from_prot_present(2) src free(1) Pair [unfolded Some] mp]
        have "clone_result Q p c F {v} s True s3"
          using st free(2) src by (cases ok1) (auto simp: clone_result_def)
        moreover have "clone_pages p c (from_prot prot) (v + PAGE_SIZE) n s3 = (ok, s')"
          using Suc.prems(4) tr Pair Some mp align_down_id [OF spage] by simp
        ultimately show ?thesis by (rule rest)
      qed
    qed
  qed
qed

definition area_pages :: "Vma list \<Rightarrow> usize set" where
  "area_pages vs = {w. PAGE_SIZE dvd w \<and> vlook vs w \<noteq> None}"

definition area_flags :: "Vma list \<Rightarrow> usize \<Rightarrow> PageFlags" where
  "area_flags vs w = (case vlook vs w of Some (prot, _) \<Rightarrow> from_prot prot | None \<Rightarrow> PageFlags_empty)"

lemma area_pages_Cons:
  assumes "between lo hi (v # vs)" "areas_aligned (v # vs)"
  shows "area_pages (v # vs) = set (page_range (vma_start v) ((vma_end v - vma_start v) div PAGE_SIZE)) \<union> area_pages vs"
    "set (page_range (vma_start v) ((vma_end v - vma_start v) div PAGE_SIZE)) \<inter> area_pages vs = {}"
    "w \<in> set (page_range (vma_start v) ((vma_end v - vma_start v) div PAGE_SIZE)) \<Longrightarrow> area_flags (v # vs) w = from_prot (vma_prot v)"
    "w \<in> area_pages vs \<Longrightarrow> area_flags (v # vs) w = area_flags vs w"
proof -
  have b: "between (vma_end v) hi vs" using assms(1) by simp
  have al: "PAGE_SIZE dvd vma_start v" "PAGE_SIZE dvd vma_end v" using assms(2) by (auto simp: areas_aligned_def)
  note rg = page_range_between [OF al]
  show "area_pages (v # vs) = set (page_range (vma_start v) ((vma_end v - vma_start v) div PAGE_SIZE)) \<union> area_pages vs"
    unfolding rg area_pages_def by (auto split: if_splits)
  have out: "w < vma_end v \<Longrightarrow> vlook vs w = None" for w using vlook_outside [OF b, of w] by simp
  then show "set (page_range (vma_start v) ((vma_end v - vma_start v) div PAGE_SIZE)) \<inter> area_pages vs = {}"
    unfolding rg area_pages_def by auto
  show "w \<in> set (page_range (vma_start v) ((vma_end v - vma_start v) div PAGE_SIZE)) \<Longrightarrow> area_flags (v # vs) w = from_prot (vma_prot v)"
    unfolding rg by (simp add: area_flags_def)
  show "w \<in> area_pages vs \<Longrightarrow> area_flags (v # vs) w = area_flags vs w"
    using out [of w] by (auto simp: area_pages_def area_flags_def)
qed

lemma clone_result_flags_cong:
  "clone_result Q p c F V s ok s' \<Longrightarrow> (\<And>w. w \<in> V \<Longrightarrow> F w = G w) \<Longrightarrow> clone_result Q p c G V s ok s'"
proof -
  assume r: "clone_result Q p c F V s ok s'" and FG: "\<And>w. w \<in> V \<Longrightarrow> F w = G w"
  have "copied p c (G w) s s' w" if "w \<in> V" "copied p c (F w) s s' w" for w using that FG by simp
  then show ?thesis using r unfolding clone_result_def by (metis (full_types))
qed

lemma clone_areas_spec:
  assumes "vm_inv Q c s" "p \<in> Q" "p \<noteq> c" "between lo USER_SPACE_END vs" "areas_aligned vs"
    and "\<forall>w \<in> area_pages vs. mapped c s w = None" "clone_areas p c vs s = (res, s')"
  shows "\<exists>ok. res = Ok ok \<and> clone_result Q p c (area_flags vs) (area_pages vs) s ok s'"
  using assms(1,4-7)
proof (induction vs arbitrary: lo s)
  case Nil
  then have "res = Ok True" "s' = s" by simp_all
  moreover have "area_pages [] = {}" by (simp add: area_pages_def)
  ultimately show ?case using clone_result_Nil [OF Nil.prems(1)] by metis
next
  case (Cons v vs)
  let ?n = "(vma_end v - vma_start v) div PAGE_SIZE"
  let ?V = "set (page_range (vma_start v) ?n)"
  note V = area_pages_Cons [OF Cons.prems(2,3)]
  have b: "between (vma_end v) USER_SPACE_END vs" using Cons.prems(2) by simp
  have le: "vma_end v \<le> USER_SPACE_END" using between_le [OF b] .
  have al: "PAGE_SIZE dvd vma_start v" "PAGE_SIZE dvd vma_end v" "areas_aligned vs"
    using Cons.prems(3) by (simp_all add: areas_aligned_def)
  note ar = aligned_range [OF al(1,2) le]
  obtain ok1 s1 where run1: "clone_pages p c (from_prot (vma_prot v)) (vma_start v) ?n s = (ok1, s1)" by (meson surj_pair)
  have free: "mapped c s w = None" if "w \<in> area_pages (v # vs)" for w using Cons.prems(4) that by blast
  have "\<forall>w \<in> ?V. mapped c s w = None \<and> area_flags (v # vs) w = from_prot (vma_prot v)"
  proof
    fix w assume w: "w \<in> ?V"
    then have "w \<in> area_pages (v # vs)" unfolding V(1) by blast
    from free [OF this] V(3) [OF w] show "mapped c s w = None \<and> area_flags (v # vs) w = from_prot (vma_prot v)" by blast
  qed
  from clone_pages_spec [OF Cons.prems(1) assms(2,3) ar(4) this run1]
  have one: "clone_result Q p c (area_flags (v # vs)) ?V s ok1 s1" .
  have run: "(if ok1 then clone_areas p c vs s1 else (Ok False, s1)) = (res, s')"
    using Cons.prems(5) ar(1-3) run1 by (cases ok1) (simp_all add: Let_def)
  note R = one [unfolded clone_result_def]
  show ?case
  proof (cases ok1)
    case False
    have "kept_but Q c (area_pages (v # vs)) s s1" using kept_but_mono [of Q c ?V s s1] R V(1) by blast
    then have "clone_result Q p c (area_flags (v # vs)) (area_pages (v # vs)) s False s1"
      using R False unfolding clone_result_def by blast
    moreover have "res = Ok False" "s' = s1" using run False by simp_all
    ultimately show ?thesis by blast
  next
    case True
    have "mapped c s1 w = None" if "w \<in> area_pages vs" for w
    proof -
      have "w \<notin> ?V" "w \<in> area_pages (v # vs)" using V(1,2) that by blast+
      then show ?thesis using R free [of w] unfolding kept_but_def by metis
    qed
    moreover have "vm_inv Q c s1" using R by blast
    moreover have "clone_areas p c vs s1 = (res, s')" using run True by simp
    ultimately obtain ok where ok: "res = Ok ok" "clone_result Q p c (area_flags vs) (area_pages vs) s1 ok s'"
      using Cons.IH [OF _ b al(3)] by blast
    have "clone_result Q p c (area_flags (v # vs)) (area_pages vs) s1 ok s'"
      by (rule clone_result_flags_cong [OF ok(2)]) (rule V(4) [symmetric])
    moreover have "clone_result Q p c (area_flags (v # vs)) ?V s True s1" using one True by simp
    ultimately have "clone_result Q p c (area_flags (v # vs)) (?V \<union> area_pages vs) s ok s'"
      using clone_result_trans V(2) assms(2,3) by blast
    then show ?thesis
      unfolding V(1) [symmetric] using ok(1) by blast
  qed
qed

subsection \<open>The clone\<close>

lemma VmSpace_new_kept:
  assumes "pt_inv R s" "pt_user R s" "PAGE_SIZE dvd active" "active \<notin> pool s" "VmSpace_new active s = (Some vm, s1)"
  shows "kept R s s1"
proof -
  note new = VmSpace_new_spec [OF assms]
  have "user_get r s1 x = user_get r s x" if "r \<in> R" "x < USER_SPACE_END" for r x
  proof (rule same_content)
    show "vm_inv R r s" using assms(1,2) that(1) by (simp add: vm_inv_def)
    show "\<forall>j<512. read_entry (mem s1) g j = read_entry (mem s) g j"
      if "PAGE_SIZE dvd g" "g \<notin> tables R s" "g \<notin> pool s" for g
      using new that by auto
    show "mapped r s1 (align_down x PAGE_SIZE) = mapped r s (align_down x PAGE_SIZE)" using new that(1) by simp
  qed (use that in auto)
  then show ?thesis using new by (simp add: kept_def)
qed

lemma pt_inv_subset: "pt_inv Q s \<Longrightarrow> R \<subseteq> Q \<Longrightarrow> pt_inv R s"
  unfolding pt_inv_def frames_def by (intro conjI) blast+

lemma clone_dropped:
  assumes "vm_inv (insert c R) c s" "c \<notin> R" "s' = free_page_table_hierarchy c s"
  shows "pt_inv R s'" "kept R s s'"
proof -
  have "pt_inv (insert c R) s" using assms(1) by (simp add: vm_inv_def)
  note rest = free_page_table_hierarchy_rest [OF this insertI1] and rel = free_page_table_hierarchy_spec [OF this insertI1]
  have "insert c R - {c} = R" using assms(2) by auto
  then show "pt_inv R s'" using rest assms(3) by simp
  have "mem s' = mem s" using rel assms(3) by (simp add: released_def)
  moreover from this have "mapped r s' = mapped r s" for r by (intro ext) (simp add: mapped_def)
  ultimately show "kept R s s'" by (simp add: kept_def user_get_def)
qed

lemma clone_coherent:
  assumes c: "clone_result Q p c (area_flags vs) (area_pages vs) s1 True s2" and ne: "pool s2 \<noteq> {}"
    and m: "mapped c s1 = Map.empty"
  shows "coherent \<lparr>address_space = c, vmas = vs\<rparr> s2"
  unfolding coherent_def
proof (intro allI impI)
  fix w f a
  assume "mapped (address_space \<lparr>address_space = c, vmas = vs\<rparr>) s2 w = Some (f, a)"
  then have w: "mapped c s2 w = Some (f, a)" by simp
  note R = c [unfolded clone_result_def kept_but_def]
  have mem: "w \<in> area_pages vs"
  proof (rule ccontr)
    assume "w \<notin> area_pages vs"
    then have "mapped c s2 w = mapped c s1 w" using R by blast
    then show False using w m by simp
  qed
  then have "if mapped p s1 w = None then mapped c s2 w = None else copied p c (area_flags vs w) s1 s2 w" using R ne by blast
  then have "a = area_flags vs w" using w by (auto simp: copied_def split: if_splits)
  moreover obtain pr fl where "vlook vs w = Some (pr, fl)" using mem by (auto simp: area_pages_def)
  ultimately show "\<exists>p fl. vlook (vmas \<lparr>address_space = c, vmas = vs\<rparr>) w = Some (p, fl) \<and> a = from_prot p"
    by (simp add: area_flags_def)
qed

lemma root_frame: "R \<subseteq> frames R s"
  using framesI [of _ R "[]"] by auto

lemma clone_from_spec:
  assumes "vm_ok R vm s" "PAGE_SIZE dvd active" "active \<notin> pool s" "clone_from active vm s = (res, s')"
  shows "\<exists>child. res = Ok child \<and> kept R s s' \<and> pt_inv R s'
    \<and> (case child of None \<Rightarrow> True | Some ch \<Rightarrow>
        address_space ch \<in> pool s \<and> vmas ch = vmas vm \<and> vm_inv (insert (address_space ch) R) (address_space ch) s'
        \<and> (pool s' \<noteq> {} \<longrightarrow> vm_ok (insert (address_space ch) R) ch s'
            \<and> (\<forall>w \<in> area_pages (vmas vm). if mapped (address_space vm) s w = None
                then mapped (address_space ch) s' w = None
                else copied (address_space vm) (address_space ch) (area_flags (vmas vm) w) s s' w)))"
proof -
  let ?p = "address_space vm"
  have ok: "vm_inv R ?p s" "between 0 USER_SPACE_END (vmas vm)" "areas_aligned (vmas vm)" using assms(1) by (auto simp: vm_ok_def)
  have inv: "pt_inv R s" "pt_user R s" "?p \<in> R" using ok(1) by (auto simp: vm_inv_def)
  obtain o1 s1 where new: "VmSpace_new active s = (o1, s1)" by (meson surj_pair)
  show ?thesis
  proof (cases o1)
    case None
    then have "s1 = s" using new kernel_alloc_None(2) [OF ok(1)]
      by (auto simp: VmSpace_new_def Let_def split: prod.splits option.splits)
    then have "res = Ok None" "s' = s" using assms(4) new None by (simp_all add: clone_from_def)
    then show ?thesis using inv(1) by simp
  next
    case (Some nv)
    note N = VmSpace_new_spec [OF inv(1,2) assms(2,3) new [unfolded Some]]
    let ?c = "address_space nv" and ?ch = "nv\<lparr>vmas := vmas vm\<rparr>"
    have cR: "?c \<notin> R" "?p \<noteq> ?c" using N inv(3) root_frame [of R s] by auto
    have k1: "kept R s s1" using VmSpace_new_kept [OF inv(1,2) assms(2,3) new [unfolded Some]] .
    obtain r2 s2 where run: "clone_areas ?p ?c (vmas vm) s1 = (r2, s2)" by (meson surj_pair)
    obtain k where k: "r2 = Ok k" "clone_result (insert ?c R) ?p ?c (area_flags (vmas vm)) (area_pages (vmas vm)) s1 k s2"
      using clone_areas_spec [OF conjunct1 [OF conjunct2 [OF conjunct2 [OF conjunct2 [OF N]]]] _ cR(2) ok(2,3) _ run] N inv(3) by auto
    note C = k(2) [unfolded clone_result_def]
    have eqR: "insert ?c R - {?c} = R" using cR(1) by auto
    then have k2: "kept R s s2" using C kept_trans [OF k1] by (simp add: kept_but_def)
    show ?thesis
    proof (cases k)
      case False
      let ?f = "free_page_table_hierarchy ?c s2"
      have "active \<noteq> ?c" using N assms(3) by auto
      then have res: "res = Ok None" "s' = ?f"
        using assms(4) new Some run k(1) False by (auto simp: clone_from_def VmSpace_drop_def)
      have "pt_inv R s'" "kept R s2 s'" using clone_dropped [OF _ cR(1) res(2)] C by blast+
      then show ?thesis using res(1) kept_trans [OF k2] by simp
    next
      case True
      have res: "res = Ok (Some ?ch)" "s' = s2" using assms(4) new Some run k(1) True by (auto simp: clone_from_def)
      have pt: "pt_inv R s2" using C pt_inv_subset [of "insert ?c R" s2 R] by (auto simp: vm_inv_def)
      have "kept_but (insert ?c R) ?c UNIV s s1" using k1 eqR by (simp add: kept_but_def)
      note early = copied_earlier [OF _ _ this, of ?p] 
      have pages: "if mapped ?p s w = None then mapped ?c s2 w = None else copied ?p ?c (area_flags (vmas vm) w) s s2 w"
        if "pool s2 \<noteq> {}" "w \<in> area_pages (vmas vm)" for w
      proof -
        have "mapped ?p s1 w = mapped ?p s w" using k1 inv(3) by (simp add: kept_def)
        moreover have "if mapped ?p s1 w = None then mapped ?c s2 w = None else copied ?p ?c (area_flags (vmas vm) w) s1 s2 w"
          using C True that by blast
        ultimately show ?thesis using early [of _ s2 w] N inv(3) cR(2) by (auto split: if_splits)
      qed
      have kT: "clone_result (insert ?c R) ?p ?c (area_flags (vmas vm)) (area_pages (vmas vm)) s1 True s2"
        using k(2) True by simp
      have ch: "?ch = \<lparr>address_space = ?c, vmas = vmas vm\<rparr>" by (cases nv) simp
      have "vm_ok (insert ?c R) ?ch s2" if "pool s2 \<noteq> {}"
        unfolding ch using clone_coherent [OF kT] that N C ok(2,3) by (simp add: vm_ok_def)
      then show ?thesis using res k2 pt N C pages by simp
    qed
  qed
qed

definition demo_mapped_vm :: VmSpace where
  "demo_mapped_vm = \<lparr> address_space = 8192, vmas = [mk_vma 0x400000 0x401000 3 0x22] \<rparr>"

lemma demo_mapped_vm: "vm_ok {8192} demo_mapped_vm demo_mapped" "PAGE_SIZE dvd 8192" "8192 \<notin> pool demo_mapped"
proof -
  have "from_prot 3 = user_data" by (simp add: from_prot_def user_data_def posix_consts)
  then show "vm_ok {8192} demo_mapped_vm demo_mapped"
    using demo_mapped by (simp add: demo_mapped_vm_def vm_ok_def coherent_def areas_aligned_def PAGE_SIZE_def USER_SPACE_END_def)
  show "PAGE_SIZE dvd 8192" by (simp add: PAGE_SIZE_def)
  show "8192 \<notin> pool demo_mapped"
    using demo_mapped(1) root_frame [of "{8192}" demo_mapped] by (auto simp: vm_inv_def pt_inv_def)
qed

text \<open>
  C7: Cloning an address space does not disturb any existing one, in mappings or contents, and never panics.
  If a clone is returned and a frame is left over, the clone is a faithful and private copy: it has the
  same areas, every mapped page of the parent's areas is mapped in the child to a frame that was free
  before, with the rights of its area, and every byte of those pages is equal.
\<close>

theorem clone_from_correct:
  assumes "vm_ok R vm s" "PAGE_SIZE dvd active" "active \<notin> pool s" "clone_from active vm s = (res, s')"
  shows "\<exists>child. res = Ok child \<and> kept R s s' \<and> pt_inv R s'
    \<and> (case child of None \<Rightarrow> True | Some ch \<Rightarrow>
        address_space ch \<in> pool s \<and> vmas ch = vmas vm \<and> vm_inv (insert (address_space ch) R) (address_space ch) s'
        \<and> (pool s' \<noteq> {} \<longrightarrow> vm_ok (insert (address_space ch) R) ch s'
            \<and> (\<forall>w \<in> area_pages (vmas vm). if mapped (address_space vm) s w = None
                then mapped (address_space ch) s' w = None
                else copied (address_space vm) (address_space ch) (area_flags (vmas vm) w) s s' w)))"
  using assms by (rule clone_from_spec)

theorem clone_from_correct_witness:
  "case clone_from 8192 demo_mapped_vm demo_mapped of
    (res, s') \<Rightarrow> res \<noteq> Panic \<and> mapped 8192 s' 0x400000 = Some (4096, user_data)"
proof -
  obtain res s' where run: "clone_from 8192 demo_mapped_vm demo_mapped = (res, s')" by (meson surj_pair)
  show ?thesis using clone_from_correct [OF demo_mapped_vm run] demo_mapped(2) unfolding run
    by (auto simp: kept_def)
qed

end
