(* ===== verification/Vm_Fresh.thy ===== *)
theory Vm_Fresh
  imports Vm_Clone
begin

text \<open>
  The contents of the pages that \<open>alloc_and_map_range\<close> adds to an address space (\<^verbatim>\<open>kernel/src/ostd/mm/vmm.rs\<close>): they
  read as zeros, no other byte of any address space changes, and with enough free frames it succeeds.
\<close>

lemma fresh_page_content:
  assumes "vm_inv R r s" "user_page v" "kernel_alloc_frame s = (Some f, s1)"
    and "map_page r v f fl (zero_phys_frame f s1) = (ok, s2)"
    and g: "PAGE_SIZE dvd g" "g \<notin> tables R s" "g \<notin> pool s" "j < 512"
  shows "read_entry (mem s2) g j = read_entry (mem s) g j"
proof -
  note al = kernel_alloc_Some [OF assms(1,3)]
  obtain x where s1: "s1 = s\<lparr>pmm := x\<rparr>" using assms(3) by (auto simp: kernel_alloc_frame_def split: prod.splits)
  have f: "f \<in> unreferenced R s1" using al pool_disjoint [OF assms(1)] by auto
  let ?z = "zero_phys_frame f s1"
  note z = zero_unreferenced [OF conjunct2 [OF conjunct2 [OF conjunct2 [OF al]]] f]
  have "f \<in> unreferenced R ?z - pool ?z" using al f z(3) by auto
  moreover have "g \<notin> tables R ?z" using g(2) z(2) s1 by simp
  moreover have "g \<notin> pool ?z" using g(3) al by simp
  ultimately have "read_entry (mem s2) g j = read_entry (mem ?z) g j"
    using map_page_content [OF z(1) assms(2) _ assms(4) g(1) _ _ g(4)] by blast
  also have "\<dots> = read_entry (mem s) g j"
  proof -
    have "f \<noteq> g" using g(3) al by auto
    moreover have "PAGE_SIZE dvd f" using f conjunct2 [OF conjunct2 [OF conjunct2 [OF al]]] by (auto simp: managed_addrs_def)
    ultimately show ?thesis using read_zero_frame [of f g j s1] g(1,4) s1 by simp
  qed
  finally show ?thesis .
qed

lemma map_fresh_pages_content:
  assumes "vm_inv R r s" "\<forall>k<i + n. user_page (v + k * PAGE_SIZE)" "pf_user fl" "map_fresh_pages r v fl i n s = (VmOk, s')"
    and "PAGE_SIZE dvd g" "g \<notin> tables R s" "g \<notin> pool s" "j < 512"
  shows "read_entry (mem s') g j = read_entry (mem s) g j"
  using assms(1,2,4,6,7)
proof (induction n arbitrary: i s)
  case (Suc n)
  have up: "user_page (v + i * PAGE_SIZE)" using Suc.prems(2) by auto
  have chk: "checked_mul i PAGE_SIZE = Some (i * PAGE_SIZE)" "checked_add v (i * PAGE_SIZE) = Some (v + i * PAGE_SIZE)"
    using user_page_bound [OF up] by (auto simp: checked_mul_def checked_add_def)
  obtain f s1 s2 where al: "kernel_alloc_frame s = (Some f, s1)"
    and mp: "map_page r (v + i * PAGE_SIZE) f fl (zero_phys_frame f s1) = (True, s2)"
    and rest: "map_fresh_pages r v fl (i + 1) n s2 = (VmOk, s')"
    using Suc.prems(3) chk by (auto split: prod.splits option.splits bool.splits)
  obtain T where T: "f \<in> pool s" "T \<subseteq> pool s - {f}" "vm_inv R r s2" "pool s2 = pool s - {f} - T" "tables R s2 = tables R s \<union> T"
    using fresh_page_step [OF Suc.prems(1) up assms(3) al mp] by blast
  have "read_entry (mem s') g j = read_entry (mem s2) g j"
    using Suc.IH [OF T(3), of "i + 1"] Suc.prems(2,4,5) rest T(2,4,5) by auto
  then show ?case using fresh_page_content [OF Suc.prems(1) up al mp assms(5) Suc.prems(4,5) assms(8)] by simp
qed simp

text \<open>Every page takes one frame and at most three tables.\<close>

lemma map_fresh_pages_succeeds:
  assumes "vm_inv R r s" "\<forall>k<i + n. user_page (v + k * PAGE_SIZE)" "pf_user fl" "4 * n \<le> card (pool s)"
  shows "\<exists>s'. map_fresh_pages r v fl i n s = (VmOk, s') \<and> card (pool s) \<le> card (pool s') + 4 * n"
  using assms(1,2,4)
proof (induction n arbitrary: i s)
  case (Suc n)
  have up: "user_page (v + i * PAGE_SIZE)" using Suc.prems(2) by auto
  have chk: "checked_mul i PAGE_SIZE = Some (i * PAGE_SIZE)" "checked_add v (i * PAGE_SIZE) = Some (v + i * PAGE_SIZE)"
    using user_page_bound [OF up] by (auto simp: checked_mul_def checked_add_def)
  have fin: "finite (pool s)" by (rule pool_disjoint(2) [OF Suc.prems(1)])
  obtain f s1 where al: "kernel_alloc_frame s = (Some f, s1)"
    using kernel_alloc_None [OF Suc.prems(1)] Suc.prems(3) by (cases "kernel_alloc_frame s"; cases "fst (kernel_alloc_frame s)") auto
  note a = kernel_alloc_Some [OF Suc.prems(1) al]
  have f: "f \<in> unreferenced R s1" using a pool_disjoint [OF Suc.prems(1)] by auto
  let ?z = "zero_phys_frame f s1"
  note z = zero_unreferenced [OF conjunct2 [OF conjunct2 [OF conjunct2 [OF a]]] f]
  have pz: "pool ?z = pool s - {f}" "f \<in> unreferenced R ?z - pool ?z" using a f z(3) by auto
  obtain ok s2 where mp: "map_page r (v + i * PAGE_SIZE) f fl ?z = (ok, s2)" by fastforce
  obtain T where T: "T \<subseteq> pool ?z" "vm_inv R r s2" "pool s2 = pool ?z - T" "if ok then card T \<le> 3 else pool s2 = {} \<and> card T \<le> 2"
    using vm_map_page [OF z(1) up pz(2) assms(3) mp] by (cases ok) auto
  have "card (pool ?z) = card (pool s) - 1" using pz(1) a fin by simp
  moreover have "card (pool s2) = card (pool ?z) - card T"
    using T(1,3) fin pz(1) by (metis card_Diff_subset finite_Diff finite_subset)
  moreover have "ok"
  proof (rule ccontr)
    assume "\<not> ok"
    then have "pool ?z \<subseteq> T" "card T \<le> 2" using T(3,4) by auto
    then have "card (pool ?z) \<le> 2" using T(1) by (metis subset_antisym)
    moreover have "4 \<le> card (pool s)" using Suc.prems(3) by simp
    ultimately show False using \<open>card (pool ?z) = card (pool s) - 1\<close> by simp
  qed
  ultimately have c: "card (pool s) \<le> card (pool s2) + 4" "4 * n \<le> card (pool s2)" using T(4) Suc.prems(3) by auto
  then obtain s' where "map_fresh_pages r v fl (i + 1) n s2 = (VmOk, s')" "card (pool s2) \<le> card (pool s') + 4 * n"
    using Suc.IH [OF T(2), of "i + 1"] Suc.prems(2) by auto
  then show ?case using chk al mp \<open>ok\<close> c by auto
qed simp

lemma zeroed_byte: "zeroed s f \<Longrightarrow> PAGE_SIZE dvd f \<Longrightarrow> off < PAGE_SIZE \<Longrightarrow> get_byte (mem s) (f + off) = 0"
  using frame_byte_word [of f off] by (simp add: get_byte_def zeroed_def read_entry_def)

lemma page_inside: "PAGE_SIZE dvd lo \<Longrightarrow> PAGE_SIZE dvd hi \<Longrightarrow> lo \<le> align_down x PAGE_SIZE \<and> align_down x PAGE_SIZE < hi \<longleftrightarrow> lo \<le> x \<and> x < hi"
proof -
  assume "PAGE_SIZE dvd lo" "PAGE_SIZE dvd hi"
  then obtain a b where "lo = a * PAGE_SIZE" "hi = b * PAGE_SIZE" by (metis dvdE mult.commute)
  moreover have "0 < PAGE_SIZE" by (simp add: PAGE_SIZE_def)
  ultimately show ?thesis
    by (simp add: align_down_def less_eq_div_iff_mult_less_eq div_less_iff_less_mult)
qed

lemma alloc_and_map_range_content:
  assumes "vm_ok R vm s" "start_virt + size' \<le> USER_SPACE_END" "0 < size'" "pf_user flags"
    and lo: "lo = align_down start_virt PAGE_SIZE" and hi: "hi = align_down (start_virt + size' + PAGE_SIZE - 1) PAGE_SIZE"
    and free: "{lo..<hi} \<inter> dom (vlook (vmas vm)) = {}"
    and run: "alloc_and_map_range vm start_virt size' flags s = (VmOk, vm', s')"
    and x: "r' \<in> R" "x < USER_SPACE_END"
  shows "user_get r' s' x = (if r' = address_space vm \<and> lo \<le> x \<and> x < hi then Some 0 else user_get r' s x)"
proof -
  let ?r = "address_space vm" and ?p = "align_down x PAGE_SIZE"
  have inv: "vm_inv R ?r s" using assms(1) by (simp add: vm_ok_def)
  have al: "PAGE_SIZE dvd lo" "PAGE_SIZE dvd hi" "hi \<le> USER_SPACE_END"
    using align_down_bound [OF assms(2)] by (simp_all add: lo hi)
  note spec = alloc_and_map_range_spec [OF assms(1-8), simplified]
  have pages: "map_fresh_pages ?r lo flags 0 ((hi - lo) div PAGE_SIZE) s = (VmOk, s')"
    using run by (auto simp: alloc_and_map_range_def lo hi Let_def split: if_splits prod.splits vm_result.splits)
  have up: "\<forall>k<0 + (hi - lo) div PAGE_SIZE. user_page (lo + k * PAGE_SIZE)" using aligned_range [OF al] by simp
  show ?thesis
  proof (cases "r' = ?r \<and> lo \<le> x \<and> x < hi")
    case True
    then obtain f where f: "mapped ?r s' ?p = Some (f, flags\<lparr>pf_present := True\<rparr>)" "zeroed s' f" "f \<in> pool s"
      using spec page_inside [OF al(1,2), of x] by (metis align_down_dvd)
    have "PAGE_SIZE dvd f" using f(3) pool_disjoint [OF inv] by (auto simp: managed_addrs_def)
    then show ?thesis using True f x(2) zeroed_byte [OF f(2)] by (simp add: user_get_frame)
  next
    case False
    have "\<forall>q \<in> R. q \<noteq> ?r \<longrightarrow> mapped q s' = mapped q s" "\<forall>w. mapped ?r s' w \<noteq> mapped ?r s w \<longrightarrow> lo \<le> w \<and> w < hi"
      using spec by simp_all
    then have "mapped r' s' ?p = mapped r' s ?p" using False page_inside [OF al(1,2), of x] x(1) by (cases "r' = ?r") auto
    then have "user_get r' s' x = user_get r' s x"
      by (rule same_content [OF inv x]) (use map_fresh_pages_content [OF inv up assms(4) pages] in blast)
    then show ?thesis using False by (simp only: if_False)
  qed
qed

lemma alloc_and_map_range_succeeds:
  assumes "vm_inv R (address_space vm) s" "start_virt + size' \<le> USER_SPACE_END" "pf_user flags"
    and n: "n = (align_down (start_virt + size' + PAGE_SIZE - 1) PAGE_SIZE - align_down start_virt PAGE_SIZE) div PAGE_SIZE"
    and "4 * n \<le> card (pool s)"
  obtains vm' s' where "alloc_and_map_range vm start_virt size' flags s = (VmOk, vm', s')" "card (pool s) \<le> card (pool s') + 4 * n"
proof -
  let ?lo = "align_down start_virt PAGE_SIZE" and ?hi = "align_down (start_virt + size' + PAGE_SIZE - 1) PAGE_SIZE"
  have al: "PAGE_SIZE dvd ?lo" "PAGE_SIZE dvd ?hi" "?hi \<le> USER_SPACE_END"
    using align_down_bound [OF assms(2)] by simp_all
  have nopanic: "\<not> USIZE_LIMIT \<le> start_virt + size' + PAGE_SIZE"
    using assms(2) by (simp add: USIZE_LIMIT_def USER_SPACE_END_def PAGE_SIZE_def)
  have up: "\<forall>k<0 + n. user_page (?lo + k * PAGE_SIZE)" using aligned_range [OF al] n by simp
  obtain s' where s': "map_fresh_pages (address_space vm) ?lo flags 0 n s = (VmOk, s')" "card (pool s) \<le> card (pool s') + 4 * n"
    using map_fresh_pages_succeeds [OF assms(1) up assms(3,5)] by blast
  have "card (pool s) = free_frames (pmm s)"
    using assms(1) unfolding avail_addrs_def
    by (subst card_image) (auto simp: inj_on_def PAGE_SIZE_def vm_inv_def pt_inv_def pmm_ok_def frames_counted_def)
  then have "\<not> n > snd (get_pmm_stats (Some (pmm s)))" using assms(5) by (simp add: get_pmm_stats_def)
  then have "\<exists>vm'. alloc_and_map_range vm start_virt size' flags s = (VmOk, vm', s')"
    using nopanic s'(1) n by (simp add: alloc_and_map_range_def Let_def)
  then show ?thesis using that s'(2) by blast
qed

end
