(* ===== verification/Vm_Account.thy ===== *)
theory Vm_Account
  imports Vm_Fresh
begin

text \<open>
  Accounting of frames over the address spaces of \<^verbatim>\<open>kernel/src/ostd/mm/vmm.rs\<close>: every frame is free, or a page table or a page of
  one address space. Populating a free range moves frames from the pool to the address space and loses none.
\<close>

lemma vpath_surj:
  assumes "user_path q" "length q = 4"
  obtains w where "user_page w" "vpath w = q"
proof -
  obtain a b c d where q: "q = [a, b, c, d]" using assms(2) by (auto simp: numeral_eq_Suc length_Suc_conv)
  have lim: "a < 256" "b < 512" "c < 512" "d < 512" using assms(1) by (auto simp: user_path_def q)
  let ?w = "(((a * 512 + b) * 512 + c) * 512 + d) * 4096"
  have d: "(x * 512 + y) div 512 = x" "(x * 512 + y) mod 512 = y" if "y < 512" for x y :: nat using that by simp_all
  have "?w div 2 ^ 12 = ((a * 512 + b) * 512 + c) * 512 + d" by simp
  moreover from this have "?w div 2 ^ 21 = (a * 512 + b) * 512 + c"
    using div_mult2_eq [of ?w "2 ^ 12" 512] d(1) [OF lim(4)] by simp
  moreover from this have "?w div 2 ^ 30 = a * 512 + b" using div_mult2_eq [of ?w "2 ^ 21" 512] d(1) [OF lim(3)] by simp
  moreover from this have "?w div 2 ^ 39 = a" using div_mult2_eq [of ?w "2 ^ 30" 512] d(1) [OF lim(2)] by simp
  ultimately have "vpath ?w = q" using lim d(2) by (simp only: vpath_eq q) simp
  moreover have "user_page ?w" using lim by (simp add: user_page_def PAGE_SIZE_def USER_SPACE_END_def)
  ultimately show ?thesis using that by blast
qed

lemma frames_split: "frames R s = tables R s \<union> {f. \<exists>r \<in> R. \<exists>w a. mapped r s w = Some (f, a)}"
proof (intro set_eqI iffI)
  fix t assume "t \<in> frames R s"
  then obtain r q where q: "r \<in> R" "user_path q" "node_at (mem s) r q = Some t" by (auto simp: frames_def)
  show "t \<in> tables R s \<union> {f. \<exists>r \<in> R. \<exists>w a. mapped r s w = Some (f, a)}"
  proof (cases "length q \<le> 3")
    case False
    then have "length q = 4" using q(2) by (auto simp: user_path_def)
    then obtain w where w: "user_page w" "vpath w = q" using vpath_surj [OF q(2)] by blast
    then have "map_option fst (mapped r s w) = Some t" using node_mapped [OF w(1), of s r] q(3) by simp
    then show ?thesis using q(1) by fastforce
  qed (use q in \<open>auto simp: tables_def\<close>)
next
  fix t assume "t \<in> tables R s \<union> {f. \<exists>r \<in> R. \<exists>w a. mapped r s w = Some (f, a)}"
  then show "t \<in> frames R s" by (auto dest: subsetD [OF tables_frames] mapped_frames(2))
qed

text \<open>No frame is lost or duplicated: the frames that are free or in use by an address space stay the same.\<close>

definition conserved :: "usize set \<Rightarrow> mmu \<Rightarrow> mmu \<Rightarrow> bool" where
  "conserved R s s' \<longleftrightarrow> pool s' \<union> frames R s' = pool s \<union> frames R s"

lemma conserved_refl [simp]: "conserved R s s"
  by (simp add: conserved_def)

lemma conserved_trans: "conserved R s s1 \<Longrightarrow> conserved R s1 s2 \<Longrightarrow> conserved R s s2"
  by (simp add: conserved_def)

lemma conserved_same:
  assumes "pmm s' = pmm s" "tables R s' = tables R s" "\<forall>r \<in> R. mapped r s' = mapped r s"
  shows "conserved R s s'"
  using assms by (simp add: conserved_def frames_split)

lemma fresh_page_conserved:
  assumes "vm_inv R r s" "user_page v" "pf_user fl" "kernel_alloc_frame s = (Some f, s1)"
    and "map_page r v f fl (zero_phys_frame f s1) = (True, s2)" and none: "mapped r s v = None"
  shows "conserved R s s2"
proof -
  obtain T where T: "f \<in> pool s" "T \<subseteq> pool s - {f}" "pool s2 = pool s - {f} - T" "tables R s2 = tables R s \<union> T"
    "mapped r s2 = (mapped r s)(v \<mapsto> (f, fl\<lparr>pf_present := True\<rparr>))" "\<forall>r' \<in> R. r' \<noteq> r \<longrightarrow> mapped r' s2 = mapped r' s"
    using fresh_page_step [OF assms(1-5)] by auto
  have r: "r \<in> R" using assms(1) by (simp add: vm_inv_def)
  have "{f. \<exists>r \<in> R. \<exists>w a. mapped r s2 w = Some (f, a)} = insert f {f. \<exists>r \<in> R. \<exists>w a. mapped r s w = Some (f, a)}" (is "?M2 = insert f ?M")
  proof (intro set_eqI iffI)
    fix t assume "t \<in> ?M2"
    then obtain r' w a where m: "r' \<in> R" "mapped r' s2 w = Some (t, a)" by blast
    show "t \<in> insert f ?M"
    proof (cases "r' = r \<and> w = v")
      case False
      then have "mapped r' s w = Some (t, a)" using m T(5,6) by (cases "r' = r") auto
      then show ?thesis using m(1) by blast
    qed (use m T(5) in simp)
  next
    fix t assume t: "t \<in> insert f ?M"
    show "t \<in> ?M2"
    proof (cases "t = f")
      case True
      have "mapped r s2 v = Some (t, fl\<lparr>pf_present := True\<rparr>)" using T(5) True by simp
      then show ?thesis using r by blast
    next
      case False
      then obtain r' w a where m: "r' \<in> R" "mapped r' s w = Some (t, a)" using t by blast
      then have "mapped r' s2 w = Some (t, a)" using none T(5,6) by (cases "r' = r") auto
      then show ?thesis using m(1) by blast
    qed
  qed
  then show ?thesis unfolding conserved_def frames_split using T(1-4) by auto
qed

lemma map_fresh_pages_conserved:
  assumes "vm_inv R r s" "\<forall>k<i + n. user_page (v + k * PAGE_SIZE)" "pf_user fl" "map_fresh_pages r v fl i n s = (VmOk, s')"
    and "\<forall>k. i \<le> k \<and> k < i + n \<longrightarrow> mapped r s (v + k * PAGE_SIZE) = None"
  shows "conserved R s s'"
  using assms(1,2,4,5)
proof (induction n arbitrary: i s)
  case (Suc n)
  have up: "user_page (v + i * PAGE_SIZE)" using Suc.prems(2) by auto
  have chk: "checked_mul i PAGE_SIZE = Some (i * PAGE_SIZE)" "checked_add v (i * PAGE_SIZE) = Some (v + i * PAGE_SIZE)"
    using user_page_bound [OF up] by (auto simp: checked_mul_def checked_add_def)
  obtain f s1 s2 where al: "kernel_alloc_frame s = (Some f, s1)"
    and mp: "map_page r (v + i * PAGE_SIZE) f fl (zero_phys_frame f s1) = (True, s2)"
    and rest: "map_fresh_pages r v fl (i + 1) n s2 = (VmOk, s')"
    using Suc.prems(3) chk by (auto split: prod.splits option.splits bool.splits)
  have T: "vm_inv R r s2" "mapped r s2 = (mapped r s)(v + i * PAGE_SIZE \<mapsto> (f, fl\<lparr>pf_present := True\<rparr>))"
    using fresh_page_step [OF Suc.prems(1) up assms(3) al mp] by auto
  have "mapped r s2 (v + k * PAGE_SIZE) = None" if "i + 1 \<le> k" "k < i + 1 + n" for k
    using that Suc.prems(4) T(2) by (auto simp: PAGE_SIZE_def)
  then have "conserved R s2 s'" using Suc.IH [OF T(1), of "i + 1"] Suc.prems(2) rest by auto
  moreover have "conserved R s s2" using fresh_page_conserved [OF Suc.prems(1) up assms(3) al mp] Suc.prems(4) by simp
  ultimately show ?case by (metis conserved_trans)
qed simp

lemma alloc_and_map_range_conserved:
  assumes "vm_ok R vm s" "start_virt + size' \<le> USER_SPACE_END" "pf_user flags"
    and lo: "lo = align_down start_virt PAGE_SIZE" and hi: "hi = align_down (start_virt + size' + PAGE_SIZE - 1) PAGE_SIZE"
    and free: "{lo..<hi} \<inter> dom (vlook (vmas vm)) = {}"
    and run: "alloc_and_map_range vm start_virt size' flags s = (VmOk, vm', s')"
  shows "conserved R s s'"
proof -
  let ?r = "address_space vm"
  have inv: "vm_inv R ?r s" using assms(1) by (simp add: vm_ok_def)
  have al: "PAGE_SIZE dvd lo" "PAGE_SIZE dvd hi" "hi \<le> USER_SPACE_END"
    using align_down_bound [OF assms(2)] by (simp_all add: lo hi)
  have pages: "map_fresh_pages ?r lo flags 0 ((hi - lo) div PAGE_SIZE) s = (VmOk, s')"
    using run by (auto simp: alloc_and_map_range_def lo hi Let_def split: if_splits prod.splits vm_result.splits)
  have up: "\<forall>k<0 + (hi - lo) div PAGE_SIZE. user_page (lo + k * PAGE_SIZE)" using aligned_range [OF al] by simp
  have "mapped ?r s (lo + k * PAGE_SIZE) = None" if "k < (hi - lo) div PAGE_SIZE" for k
  proof (rule ccontr)
    assume "mapped ?r s (lo + k * PAGE_SIZE) \<noteq> None"
    then have "lo + k * PAGE_SIZE \<in> dom (vlook (vmas vm))" using assms(1) unfolding vm_ok_def coherent_def by fast
    moreover have "k * PAGE_SIZE < hi - lo"
      using mult_le_mono1 [of "k + 1" "(hi - lo) div PAGE_SIZE" PAGE_SIZE] that div_times_less_eq_dividend [of "hi - lo" PAGE_SIZE]
      by (simp add: PAGE_SIZE_def)
    ultimately have "lo + k * PAGE_SIZE \<in> {lo..<hi} \<inter> dom (vlook (vmas vm))" by simp
    then show False using free by simp
  qed
  then show ?thesis using map_fresh_pages_conserved [OF inv up assms(3) pages] by simp
qed

lemma VmSpace_new_frames:
  assumes "pt_inv R s" "pt_user R s" "PAGE_SIZE dvd active" "active \<notin> pool s" "VmSpace_new active s = (Some vm, s')"
  shows "pool s' \<union> frames (insert (address_space vm) R) s' = pool s \<union> frames R s"
proof -
  let ?r = "address_space vm"
  note N = VmSpace_new_spec [OF assms]
  have read: "read_entry (mem s') u j = (if u \<noteq> ?r then read_entry (mem s) u j else if j < 256 then 0 else read_entry (mem s) active j)"
    if "PAGE_SIZE dvd u" "j < 512" for u j using N that by blast
  have "t \<noteq> ?r" "PAGE_SIZE dvd t" if "t \<in> tables R s" for t
    using N that tables_frames [of R s] frames_page [OF assms(1)] by auto
  then have "\<forall>t \<in> tables R (s\<lparr>pmm := pmm s'\<rparr>). \<forall>j<512. read_entry (mem s') t j = read_entry (mem (s\<lparr>pmm := pmm s'\<rparr>)) t j"
    using read by simp
  from data_write(1) [OF this] have R: "frames R s' = frames R s" by simp
  have "PAGE_SIZE dvd ?r" using N assms(1) avail_subset_managed [of R s] by (auto simp: managed_addrs_def)
  then have "\<forall>j<256. read_entry (mem s') ?r j = 0" using read [of ?r] by simp
  note node = node_empty_root [OF this]
  have "frames (insert ?r R) s' = insert ?r (frames R s')"
    by (auto simp: frames_def node split: if_splits intro: exI [of _ "[]"])
  then show ?thesis using N R by auto
qed

lemma frames_Un: "frames (Q \<union> R) s = frames Q s \<union> frames R s"
  by (auto simp: frames_def)

lemma frames_disjoint:
  assumes "pt_inv R s" "r \<in> R"
  shows "frames (R - {r}) s \<inter> frames {r} s = {}" "frames R s = frames (R - {r}) s \<union> frames {r} s" "frames R s \<inter> pool s = {}"
proof -
  show "frames (R - {r}) s \<inter> frames {r} s = {}"
    using pt_inv_inj [OF assms(1)] assms(2) by (auto simp: frames_def)
  show "frames R s = frames (R - {r}) s \<union> frames {r} s"
    using frames_Un [of "R - {r}" "{r}" s] assms(2) by (simp add: insert_absorb)
  show "frames R s \<inter> pool s = {}" using assms(1) by (auto simp: pt_inv_def)
qed

text \<open>An operation that conserves the frames with and without an address space leaves the frames of that address space alone.\<close>

lemma frames_kept:
  assumes "pt_inv R s" "pt_inv (insert n R) s'" "r \<in> R" "n \<noteq> r"
    and "pool s' \<union> frames (insert n R) s' = pool s \<union> frames R s"
    and "pool s' \<union> frames (insert n (R - {r})) s' = pool s \<union> frames (R - {r}) s"
  shows "frames {r} s' = frames {r} s"
proof -
  have eq: "insert n R - {r} = insert n (R - {r})" using assms(4) by auto
  note A = frames_disjoint [OF assms(1,3)] and B = frames_disjoint [OF assms(2), of r, unfolded eq]
  show ?thesis using A B assms(3,5,6) by blast
qed

end
