(* ===== verification/Layout.thy ===== *)
theory Layout
  imports User_Mem
begin

text \<open>
  Memory layout of the structures that cross the user boundary or live on a kernel stack: integers in
  little-endian order, and \<open>#[repr(C)]\<close> structures as the concatenation of their fields.
\<close>

subsection \<open>Integers\<close>

fun le_bytes :: "nat \<Rightarrow> nat \<Rightarrow> bytes" where
  "le_bytes 0 x = []"
| "le_bytes (Suc n) x = of_nat x # le_bytes n (x div 256)"

fun of_le :: "bytes \<Rightarrow> nat" where
  "of_le [] = 0"
| "of_le (b # bs) = unat b + 256 * of_le bs"

lemma length_le_bytes [simp]: "length (le_bytes n x) = n"
  by (induction n arbitrary: x) auto

lemma unat_byte: "unat (of_nat x :: u8) = x mod 256"
  by (simp add: unat_of_nat)

lemma of_le_le_bytes [simp]: "of_le (le_bytes n x) = x mod 256 ^ n"
proof (induction n arbitrary: x)
  case (Suc n)
  have "x mod (256 * 256 ^ n) = 256 * (x div 256 mod 256 ^ n) + x mod 256"
    by (rule mod_mult2_eq)
  then show ?case using Suc by (simp add: unat_byte)
qed simp

lemma of_le_less: "of_le bs < 256 ^ length bs"
proof (induction bs)
  case (Cons b bs)
  have "unat b < 256" using unsigned_less [of b] by simp
  then have "unat b + 256 * of_le bs < 256 + 256 * of_le bs" by simp
  also have "\<dots> \<le> 256 * 256 ^ length bs" using Cons by (simp add: Suc_le_eq flip: mult_Suc_right)
  finally show ?case by simp
qed simp

definition u64_bytes :: "u64 \<Rightarrow> bytes" where
  "u64_bytes w = le_bytes 8 (unat w)"

definition u32_bytes :: "u32 \<Rightarrow> bytes" where
  "u32_bytes w = le_bytes 4 (unat w)"

definition i32_bytes :: "i32 \<Rightarrow> bytes" where
  "i32_bytes i = u32_bytes (word_of_int i)"

text \<open>\<open>as_bytes\<close> of a string.\<close>

definition str_bytes :: "string \<Rightarrow> bytes" where
  "str_bytes s = map of_char s"

definition u64_of_bytes :: "bytes \<Rightarrow> u64" where
  "u64_of_bytes bs = of_nat (of_le bs)"

definition i32_of_bytes :: "bytes \<Rightarrow> i32" where
  "i32_of_bytes bs = sint (of_nat (of_le bs) :: u32)"

lemma length_int_bytes [simp]:
  "length (u64_bytes w) = 8" "length (u32_bytes x) = 4" "length (i32_bytes i) = 4"
  by (simp_all add: u64_bytes_def u32_bytes_def i32_bytes_def)

lemma u64_of_bytes_u64_bytes [simp]: "u64_of_bytes (u64_bytes w) = w"
proof -
  have "unat w < 256 ^ 8" using unsigned_less [of w] by simp
  then show ?thesis by (simp only: u64_of_bytes_def u64_bytes_def of_le_le_bytes mod_less) simp
qed

lemma i32_of_bytes_i32_bytes: "- (2 ^ 31) \<le> i \<Longrightarrow> i < 2 ^ 31 \<Longrightarrow> i32_of_bytes (i32_bytes i) = i"
proof -
  assume i: "- (2 ^ 31) \<le> i" "i < 2 ^ 31"
  have "unat (word_of_int i :: u32) < 256 ^ 4" using unsigned_less [of "word_of_int i :: u32"] by simp
  then have "i32_of_bytes (i32_bytes i) = sint (word_of_int i :: u32)"
    by (simp only: i32_of_bytes_def i32_bytes_def u32_bytes_def of_le_le_bytes mod_less) simp
  also have "\<dots> = i" using i by (simp add: signed_of_int signed_take_bit_int_eq_self)
  finally show ?thesis .
qed

subsection \<open>Structures of 64-bit fields\<close>

definition words_bytes :: "u64 list \<Rightarrow> bytes" where
  "words_bytes ws = concat (map u64_bytes ws)"

fun words_of :: "nat \<Rightarrow> bytes \<Rightarrow> u64 list" where
  "words_of 0 bs = []"
| "words_of (Suc n) bs = u64_of_bytes (take 8 bs) # words_of n (drop 8 bs)"

lemma length_words_bytes [simp]: "length (words_bytes ws) = 8 * length ws"
  unfolding words_bytes_def by (induction ws) auto

lemma length_words_of [simp]: "length (words_of n bs) = n"
  by (induction n arbitrary: bs) auto

lemma words_of_words_bytes: "length ws = n \<Longrightarrow> words_of n (words_bytes ws) = ws"
  unfolding words_bytes_def by (induction ws arbitrary: n) auto

definition SignalFrame_words :: "SignalFrame \<Rightarrow> u64 list" where
  "SignalFrame_words f =
    [sf_restorer f, sf_signum f, sf_old_mask f, sf_r15 f, sf_r14 f, sf_r13 f, sf_r12 f, sf_rbp f,
     sf_rbx f, sf_r9 f, sf_r8 f, sf_r10 f, sf_rdx f, sf_rsi f, sf_rdi f, sf_rax f, sf_rcx f, sf_r11 f, sf_rsp f]"

definition SignalFrame_bytes :: "SignalFrame \<Rightarrow> bytes" where
  "SignalFrame_bytes f = words_bytes (SignalFrame_words f)"

definition SignalFrame_of :: "bytes \<Rightarrow> SignalFrame" where
  "SignalFrame_of bs = (let w = words_of 19 bs in
    \<lparr> sf_restorer = w ! 0, sf_signum = w ! 1, sf_old_mask = w ! 2, sf_r15 = w ! 3, sf_r14 = w ! 4,
      sf_r13 = w ! 5, sf_r12 = w ! 6, sf_rbp = w ! 7, sf_rbx = w ! 8, sf_r9 = w ! 9, sf_r8 = w ! 10,
      sf_r10 = w ! 11, sf_rdx = w ! 12, sf_rsi = w ! 13, sf_rdi = w ! 14, sf_rax = w ! 15,
      sf_rcx = w ! 16, sf_r11 = w ! 17, sf_rsp = w ! 18 \<rparr>)"

lemma length_SignalFrame_bytes [simp]: "length (SignalFrame_bytes f) = 152"
  by (simp add: SignalFrame_bytes_def SignalFrame_words_def)

lemma SignalFrame_roundtrip [simp]: "SignalFrame_of (SignalFrame_bytes f) = f"
proof -
  have "words_of 19 (SignalFrame_bytes f) = SignalFrame_words f"
    unfolding SignalFrame_bytes_def by (rule words_of_words_bytes) (simp add: SignalFrame_words_def)
  then show ?thesis by (simp add: SignalFrame_of_def Let_def SignalFrame_words_def numeral_nat)
qed

definition SigAction_bytes :: "SigAction \<Rightarrow> bytes" where
  "SigAction_bytes a = words_bytes [sa_handler a, sa_flags a, sa_restorer a, sa_mask a]"

definition SigAction_of :: "bytes \<Rightarrow> SigAction" where
  "SigAction_of bs = (let w = words_of 4 bs in
    \<lparr> sa_handler = w ! 0, sa_flags = w ! 1, sa_restorer = w ! 2, sa_mask = w ! 3 \<rparr>)"

definition SigAction_default :: SigAction where
  "SigAction_default = \<lparr> sa_handler = 0, sa_flags = 0, sa_restorer = 0, sa_mask = 0 \<rparr>"

lemma length_SigAction_bytes [simp]: "length (SigAction_bytes a) = 32"
  by (simp add: SigAction_bytes_def)

lemma SigAction_roundtrip [simp]: "SigAction_of (SigAction_bytes a) = a"
proof -
  have "words_of 4 (SigAction_bytes a) = [sa_handler a, sa_flags a, sa_restorer a, sa_mask a]"
    unfolding SigAction_bytes_def by (rule words_of_words_bytes) simp
  then show ?thesis by (simp add: SigAction_of_def Let_def numeral_nat)
qed

end
