(* ===== verification/Ordered_Map.thy ===== *)
theory Ordered_Map
  imports Prelude "HOL-Library.List_Lexorder" "HOL-Library.Char_ord"
begin

text \<open>
  \<open>alloc::collections::BTreeMap\<close> as an association list in increasing order of the keys, so that
  iteration visits the entries in the order the source does. Strings are compared byte by byte.
\<close>

fun bt_insert :: "'k::linorder \<Rightarrow> 'v \<Rightarrow> ('k \<times> 'v) list \<Rightarrow> ('k \<times> 'v) list" where
  "bt_insert k v [] = [(k, v)]"
| "bt_insert k v ((k', v') # m) =
    (if k < k' then (k, v) # (k', v') # m
     else if k = k' then (k, v) # m
     else (k', v') # bt_insert k v m)"

definition bt_remove :: "'k \<Rightarrow> ('k \<times> 'v) list \<Rightarrow> ('k \<times> 'v) list" where
  "bt_remove k m = filter (\<lambda>e. fst e \<noteq> k) m"

definition bt_get :: "('k \<times> 'v) list \<Rightarrow> 'k \<Rightarrow> 'v option" where
  "bt_get m k = map_of m k"

definition bt_get_or :: "'v \<Rightarrow> ('k \<times> 'v) list \<Rightarrow> 'k \<Rightarrow> 'v" where
  "bt_get_or d m k = (case bt_get m k of Some v \<Rightarrow> v | None \<Rightarrow> d)"

definition bt_ok :: "('k::linorder \<times> 'v) list \<Rightarrow> bool" where
  "bt_ok m \<longleftrightarrow> sorted_wrt (<) (map fst m)"

lemma bt_get_Nil [simp]: "bt_get [] k = None"
  by (simp add: bt_get_def)

lemma bt_get_insert [simp]: "bt_get (bt_insert k v m) k' = (if k' = k then Some v else bt_get m k')"
  unfolding bt_get_def by (induction m) auto

lemma bt_get_remove [simp]: "bt_get (bt_remove k m) k' = (if k' = k then None else bt_get m k')"
  unfolding bt_get_def bt_remove_def by (induction m) auto

lemma bt_get_or_insert [simp]: "bt_get_or d (bt_insert k v m) k' = (if k' = k then v else bt_get_or d m k')"
  by (simp add: bt_get_or_def)

lemma bt_get_or_remove [simp]: "bt_get_or d (bt_remove k m) k' = (if k' = k then d else bt_get_or d m k')"
  by (simp add: bt_get_or_def)

lemma set_bt_insert: "fst ` set (bt_insert k v m) = insert k (fst ` set m)"
  by (induction k v m rule: bt_insert.induct) (simp_all add: insert_commute)

lemma bt_ok_Nil [simp]: "bt_ok []"
  by (simp add: bt_ok_def)

lemma bt_ok_insert [simp]: "bt_ok m \<Longrightarrow> bt_ok (bt_insert k v m)"
proof (induction m)
  case Nil
  then show ?case by (simp add: bt_ok_def)
next
  case (Cons e m)
  obtain k' v' where e: "e = (k', v')" by (cases e)
  have m: "bt_ok m" and lt: "\<forall>x \<in> fst ` set m. k' < x" using Cons.prems by (auto simp: bt_ok_def e)
  show ?case
    using Cons.IH [OF m] m lt set_bt_insert [of k v m] by (auto simp: bt_ok_def e)
qed

lemma bt_ok_remove [simp]: "bt_ok m \<Longrightarrow> bt_ok (bt_remove k m)"
  unfolding bt_ok_def bt_remove_def by (induction m) auto

lemma bt_ok_distinct: "bt_ok m \<Longrightarrow> distinct (map fst m)"
  unfolding bt_ok_def by (simp add: strict_sorted_iff)

lemma length_bt_insert:
  "length (bt_insert k v m) = (if bt_get m k = None then Suc (length m) else length m)" if "bt_ok m"
  using that
proof (induction m)
  case (Cons e m)
  obtain k' v' where e: "e = (k', v')" by (cases e)
  have "k < k' \<Longrightarrow> map_of m k = None"
    using Cons.prems by (fastforce simp: bt_ok_def e map_of_eq_None_iff)
  then show ?case using Cons by (auto simp: bt_ok_def bt_get_def e)
qed simp

lemma length_bt_remove:
  "length (bt_remove k m) = (if bt_get m k = None then length m else length m - 1)" if "bt_ok m"
  using bt_ok_distinct [OF that]
proof (induction m)
  case (Cons e m)
  have "fst e = k \<Longrightarrow> filter (\<lambda>e. fst e \<noteq> k) m = m"
    using Cons.prems by (auto simp: filter_id_conv image_iff)
  moreover have "map_of m k \<noteq> None \<Longrightarrow> 0 < length m" by (cases m) auto
  ultimately show ?case using Cons by (cases e) (auto simp: bt_remove_def bt_get_def)
qed (simp add: bt_remove_def)

lemma bt_get_in_set: "bt_get m k = Some v \<Longrightarrow> (k, v) \<in> set m"
  unfolding bt_get_def by (rule map_of_SomeD)

lemma bt_get_eq_Some_iff: "bt_ok m \<Longrightarrow> bt_get m k = Some v \<longleftrightarrow> (k, v) \<in> set m"
  unfolding bt_get_def using bt_ok_distinct by (rule map_of_eq_Some_iff)

lemma bt_get_None_iff: "bt_get m k = None \<longleftrightarrow> k \<notin> fst ` set m"
  unfolding bt_get_def by (rule map_of_eq_None_iff)

text \<open>How often a value occurs.\<close>

lemma count_bt_insert:
  "bt_ok m \<Longrightarrow> count_list (map snd (bt_insert k v m)) x + of_bool (bt_get m k = Some x)
    = count_list (map snd m) x + of_bool (v = x)"
proof (induction m)
  case (Cons e m)
  obtain k' v' where e: "e = (k', v')" by (cases e)
  have m: "bt_ok m" and "\<forall>y \<in> fst ` set m. k' < y" using Cons.prems by (auto simp: bt_ok_def e)
  then have "k \<le> k' \<Longrightarrow> bt_get m k = None" by (auto simp: bt_get_None_iff)
  then show ?case using Cons.IH [OF m] by (auto simp: e bt_get_def)
qed (simp add: bt_get_def)

lemma count_bt_remove:
  "bt_ok m \<Longrightarrow> count_list (map snd (bt_remove k m)) x + of_bool (bt_get m k = Some x) = count_list (map snd m) x"
proof (induction m)
  case (Cons e m)
  obtain k' v' where e: "e = (k', v')" by (cases e)
  have m: "bt_ok m" and "\<forall>y \<in> fst ` set m. k' < y" using Cons.prems by (auto simp: bt_ok_def e)
  then have "k = k' \<Longrightarrow> bt_get m k = None" by (auto simp: bt_get_None_iff)
  then show ?case using Cons.IH [OF m] by (auto simp: e bt_get_def bt_remove_def)
qed (simp add: bt_get_def bt_remove_def)

lemma set_bt_insert_subset: "set (bt_insert k v m) \<subseteq> insert (k, v) (set m)"
  by (induction k v m rule: bt_insert.induct) auto

lemma set_bt_remove_subset: "set (bt_remove k m) \<subseteq> set m"
  by (auto simp: bt_remove_def)

text \<open>
  What the clients of a map rely on: lookups after an update, and the number of entries, which the
  directories of the file system keep in a counter of their own.
\<close>

locale name_map =
  fixes ok :: "'m \<Rightarrow> bool" and get :: "'m \<Rightarrow> 'k \<Rightarrow> 'v option" and put :: "'k \<Rightarrow> 'v \<Rightarrow> 'm \<Rightarrow> 'm"
    and del :: "'k \<Rightarrow> 'm \<Rightarrow> 'm" and len :: "'m \<Rightarrow> nat"
  assumes get_put: "get (put a v m) b = (if b = a then Some v else get m b)"
    and get_del: "get (del a m) b = (if b = a then None else get m b)"
    and ok_put: "ok m \<Longrightarrow> ok (put a v m)"
    and ok_del: "ok m \<Longrightarrow> ok (del a m)"
    and len_put: "ok m \<Longrightarrow> len (put a v m) = (if get m a = None then Suc (len m) else len m)"
    and len_del: "ok m \<Longrightarrow> len (del a m) = (if get m a = None then len m else len m - 1)"
    and len_pos: "ok m \<Longrightarrow> get m a = Some v \<Longrightarrow> 0 < len m"
begin

text \<open>Replacing and renaming an entry.\<close>

lemma replace_ok: "ok m \<Longrightarrow> ok (put a v (del a m))"
  by (simp add: ok_put ok_del)

lemma len_replace: "ok m \<Longrightarrow> len (put a v (del a m)) = (if get m a = None then Suc (len m) else len m)"
  using len_pos by (auto simp: len_put len_del ok_del get_del)

lemma rename_ok: "ok m \<Longrightarrow> ok (put b v (del b (del a m)))"
  by (simp add: ok_put ok_del)

lemma get_rename: "get (put b v (del b (del a m))) c = (if c = b then Some v else if c = a then None else get m c)"
  by (simp add: get_put get_del)

lemma len_rename:
  assumes "ok m" "get m a = Some v" "a \<noteq> b"
  shows "len (put b w (del b (del a m))) = (if get m b = None then len m else len m - 1)"
  using assms len_pos [OF assms(1,2)] len_replace [OF ok_del [OF assms(1)], of b w a] by (auto simp: len_del get_del)

end

interpretation bt: name_map bt_ok bt_get bt_insert bt_remove length
proof
  show "bt_ok m \<Longrightarrow> bt_get m a = Some v \<Longrightarrow> 0 < length m" for m :: "('k::linorder \<times> 'v) list" and a v
    by (cases m) simp_all
qed (simp_all add: length_bt_insert length_bt_remove)

end
