(* ===== verification/Process.thy ===== *)
theory Process
  imports Layout Ordered_Map
begin

text \<open>
  Process control blocks and their kernel stacks: \<^verbatim>\<open>kernel/src/services/process/mod.rs\<close>, the frame
  set-up of \<^verbatim>\<open>kernel/src/ostd/arch/x86_64/task.rs\<close>, and the register frames of \<^verbatim>\<open>idt.rs\<close> and
  \<^verbatim>\<open>syscall.rs\<close>. File descriptors hold references to open file descriptions; the descriptions
  themselves belong to the kernel state.
\<close>

subsection \<open>Register frames\<close>

record TrapFrame =
  tf_r15 :: u64
  tf_r14 :: u64
  tf_r13 :: u64
  tf_r12 :: u64
  tf_r11 :: u64
  tf_r10 :: u64
  tf_r9 :: u64
  tf_r8 :: u64
  tf_rbp :: u64
  tf_rdi :: u64
  tf_rsi :: u64
  tf_rdx :: u64
  tf_rcx :: u64
  tf_rbx :: u64
  tf_rax :: u64
  tf_rip :: u64
  tf_cs :: u64
  tf_rflags :: u64
  tf_rsp :: u64
  tf_ss :: u64

record SyscallRegisters =
  sr_r15 :: u64
  sr_r14 :: u64
  sr_r13 :: u64
  sr_r12 :: u64
  sr_rbp :: u64
  sr_rbx :: u64
  sr_r9 :: u64
  sr_r8 :: u64
  sr_r10 :: u64
  sr_rdx :: u64
  sr_rsi :: u64
  sr_rdi :: u64
  sr_rax :: u64
  sr_rcx :: u64
  sr_r11 :: u64
  sr_rsp :: u64

definition TRAP_FRAME_SIZE :: usize where [posix_consts]: "TRAP_FRAME_SIZE = 160"
definition KERNEL_STACK_SIZE :: usize where [posix_consts]: "KERNEL_STACK_SIZE = 16 * 1024"
definition KERNEL_CODE_SEL :: u64 where [posix_consts]: "KERNEL_CODE_SEL = 0x08"
definition KERNEL_DATA_SEL :: u64 where [posix_consts]: "KERNEL_DATA_SEL = 0x10"
definition USER_DATA_SEL :: u64 where [posix_consts]: "USER_DATA_SEL = 0x1B"
definition USER_CODE_SEL :: u64 where [posix_consts]: "USER_CODE_SEL = 0x23"

definition TrapFrame_words :: "TrapFrame \<Rightarrow> u64 list" where
  "TrapFrame_words f =
    [tf_r15 f, tf_r14 f, tf_r13 f, tf_r12 f, tf_r11 f, tf_r10 f, tf_r9 f, tf_r8 f, tf_rbp f, tf_rdi f,
     tf_rsi f, tf_rdx f, tf_rcx f, tf_rbx f, tf_rax f, tf_rip f, tf_cs f, tf_rflags f, tf_rsp f, tf_ss f]"

definition TrapFrame_bytes :: "TrapFrame \<Rightarrow> bytes" where
  "TrapFrame_bytes f = words_bytes (TrapFrame_words f)"

definition TrapFrame_of :: "bytes \<Rightarrow> TrapFrame" where
  "TrapFrame_of bs = (let w = words_of 20 bs in
    \<lparr> tf_r15 = w ! 0, tf_r14 = w ! 1, tf_r13 = w ! 2, tf_r12 = w ! 3, tf_r11 = w ! 4, tf_r10 = w ! 5,
      tf_r9 = w ! 6, tf_r8 = w ! 7, tf_rbp = w ! 8, tf_rdi = w ! 9, tf_rsi = w ! 10, tf_rdx = w ! 11,
      tf_rcx = w ! 12, tf_rbx = w ! 13, tf_rax = w ! 14, tf_rip = w ! 15, tf_cs = w ! 16,
      tf_rflags = w ! 17, tf_rsp = w ! 18, tf_ss = w ! 19 \<rparr>)"

definition is_user_mode :: "TrapFrame \<Rightarrow> bool" where
  "is_user_mode f \<longleftrightarrow> tf_cs f AND 3 = 3 \<or> (ucast (tf_cs f) :: u16) = ucast USER_CODE_SEL"

subsection \<open>Kernel stacks\<close>

text \<open>
  A \<open>Vec<u8>\<close> is its address and its bytes. The three initialisers assert that the stack holds a frame
  (the \<open>None\<close> result is the panic of the assertion), write the frame to the top of the stack and
  return its address.
\<close>

record KernelStack =
  ks_ptr :: usize
  ks_bytes :: bytes

definition put_frame :: "KernelStack \<Rightarrow> TrapFrame \<Rightarrow> (KernelStack \<times> usize) option" where
  "put_frame st f =
    (if length (ks_bytes st) < TRAP_FRAME_SIZE then None
     else let offset = length (ks_bytes st) - TRAP_FRAME_SIZE in
       Some (st\<lparr> ks_bytes := take offset (ks_bytes st) @ TrapFrame_bytes f \<rparr>, ks_ptr st + offset))"

definition zero_frame :: TrapFrame where
  "zero_frame = \<lparr> tf_r15 = 0, tf_r14 = 0, tf_r13 = 0, tf_r12 = 0, tf_r11 = 0, tf_r10 = 0, tf_r9 = 0,
     tf_r8 = 0, tf_rbp = 0, tf_rdi = 0, tf_rsi = 0, tf_rdx = 0, tf_rcx = 0, tf_rbx = 0, tf_rax = 0,
     tf_rip = 0, tf_cs = 0, tf_rflags = 0, tf_rsp = 0, tf_ss = 0 \<rparr>"

definition init_user_kernel_stack :: "KernelStack \<Rightarrow> usize \<Rightarrow> usize \<Rightarrow> (KernelStack \<times> usize) option" where
  "init_user_kernel_stack st entry_point user_stack_top =
    put_frame st (zero_frame\<lparr> tf_rip := of_nat entry_point, tf_cs := USER_CODE_SEL, tf_rflags := 0x202,
      tf_rsp := of_nat user_stack_top, tf_ss := USER_DATA_SEL \<rparr>)"

definition fork_frame :: "SyscallRegisters \<Rightarrow> TrapFrame" where
  "fork_frame r = \<lparr> tf_r15 = sr_r15 r, tf_r14 = sr_r14 r, tf_r13 = sr_r13 r, tf_r12 = sr_r12 r,
     tf_r11 = 0, tf_r10 = sr_r10 r, tf_r9 = sr_r9 r, tf_r8 = sr_r8 r, tf_rbp = sr_rbp r,
     tf_rdi = sr_rdi r, tf_rsi = sr_rsi r, tf_rdx = sr_rdx r, tf_rcx = 0, tf_rbx = sr_rbx r,
     tf_rax = 0, tf_rip = sr_rcx r, tf_cs = USER_CODE_SEL, tf_rflags = sr_r11 r, tf_rsp = sr_rsp r,
     tf_ss = USER_DATA_SEL \<rparr>"

definition init_fork_child_stack :: "KernelStack \<Rightarrow> SyscallRegisters \<Rightarrow> (KernelStack \<times> usize) option" where
  "init_fork_child_stack st parent_regs = put_frame st (fork_frame parent_regs)"

definition init_kernel_task_stack :: "KernelStack \<Rightarrow> usize \<Rightarrow> (KernelStack \<times> usize) option" where
  "init_kernel_task_stack st entry_point =
    put_frame st (zero_frame\<lparr> tf_rip := of_nat entry_point, tf_cs := KERNEL_CODE_SEL, tf_rflags := 0x202,
      tf_rsp := of_nat (ks_ptr st + length (ks_bytes st)), tf_ss := KERNEL_DATA_SEL \<rparr>)"

text \<open>The frame that \<open>iretq\<close> restores from a saved stack pointer into the stack.\<close>

definition frame_at :: "KernelStack \<Rightarrow> usize \<Rightarrow> TrapFrame" where
  "frame_at st rsp = TrapFrame_of (take TRAP_FRAME_SIZE (drop (rsp - ks_ptr st) (ks_bytes st)))"

subsection \<open>Process control blocks\<close>

datatype ProcessState = Ready | Running | Blocked | Zombie

record Process =
  p_pid :: i32
  p_ppid :: i32
  p_uid :: u32
  p_gid :: u32
  p_euid :: u32
  p_egid :: u32
  p_suid :: u32
  p_sgid :: u32
  p_umask :: u32
  p_state :: ProcessState
  p_cwd :: string
  p_fds :: "nat option list"
  p_exit_code :: i32
  p_killed_by_sig :: "i32 option"
  p_vm_space :: "VmSpace option"
  p_entry_point :: usize
  p_user_stack_top :: usize
  p_mmap_next_vaddr :: usize
  p_kernel_stack :: KernelStack
  p_saved_kernel_rsp :: usize
  p_has_started :: bool

definition DEFAULT_MMAP_BASE :: usize where [posix_consts]: "DEFAULT_MMAP_BASE = 0x60000000"

text \<open>\<open>stack_ptr\<close> is the address at which the heap placed the zeroed kernel stack.\<close>

definition Process_new :: "usize \<Rightarrow> i32 \<Rightarrow> i32 \<Rightarrow> string \<Rightarrow> Process" where
  "Process_new stack_ptr pid ppid cwd =
    \<lparr> p_pid = pid, p_ppid = ppid, p_uid = 0, p_gid = 0, p_euid = 0, p_egid = 0, p_suid = 0, p_sgid = 0,
      p_umask = 18, p_state = Ready, p_cwd = cwd, p_fds = [], p_exit_code = 0, p_killed_by_sig = None,
      p_vm_space = None, p_entry_point = 0, p_user_stack_top = 0, p_mmap_next_vaddr = DEFAULT_MMAP_BASE,
      p_kernel_stack = \<lparr> ks_ptr = stack_ptr, ks_bytes = replicate KERNEL_STACK_SIZE 0 \<rparr>,
      p_saved_kernel_rsp = stack_ptr + KERNEL_STACK_SIZE, p_has_started = False \<rparr>"

definition kernel_stack_top :: "Process \<Rightarrow> usize" where
  "kernel_stack_top p = ks_ptr (p_kernel_stack p) + length (ks_bytes (p_kernel_stack p))"

text \<open>The loop of \<open>alloc_fd\<close> over the slots, from slot \<open>i\<close> on.\<close>

fun first_free :: "nat \<Rightarrow> nat option list \<Rightarrow> nat" where
  "first_free i [] = i"
| "first_free i (slot # slots) = (if slot = None then i else first_free (Suc i) slots)"

definition alloc_fd :: "Process \<Rightarrow> nat \<Rightarrow> i32 \<times> Process" where
  "alloc_fd p handle =
    (let i = first_free 0 (p_fds p) in
     (int i, p\<lparr> p_fds := if i < length (p_fds p) then (p_fds p)[i := Some handle]
                         else p_fds p @ [Some handle] \<rparr>))"

definition get_fd :: "Process \<Rightarrow> i32 \<Rightarrow> nat option" where
  "get_fd p fd =
    (if fd < 0 then None
     else if nat fd < length (p_fds p) then p_fds p ! nat fd else None)"

text \<open>\<open>close_fd\<close> also yields the reference taken out of the slot, which the caller drops.\<close>

definition close_fd :: "Process \<Rightarrow> i32 \<Rightarrow> (i32 + nat) \<times> Process" where
  "close_fd p fd =
    (if fd < 0 \<or> nat fd \<ge> length (p_fds p) then (Inl EBADF, p)
     else case p_fds p ! nat fd of
       Some h \<Rightarrow> (Inr h, p\<lparr> p_fds := (p_fds p)[nat fd := None] \<rparr>)
     | None \<Rightarrow> (Inl EBADF, p))"

record LoadedElf =
  le_entry_point :: usize
  le_user_stack_top :: usize

text \<open>
  \<open>apply_exec\<close>: besides the process, the result carries the address space that was replaced; the new
  one is activated before the old one is dropped, which the caller does.
\<close>

definition apply_exec ::
  "Process \<Rightarrow> LoadedElf \<Rightarrow> VmSpace \<Rightarrow> u32 \<Rightarrow> u32 \<Rightarrow> u32 \<Rightarrow> (Process \<times> VmSpace option) option" where
  "apply_exec p loaded new_vm mode uid gid =
    (let p = (if mode AND S_ISUID \<noteq> 0 then p\<lparr> p_euid := uid \<rparr> else p);
         p = (if mode AND S_ISGID \<noteq> 0 then p\<lparr> p_egid := gid \<rparr> else p);
         p = p\<lparr> p_suid := p_euid p, p_sgid := p_egid p \<rparr>;
         old_vm = p_vm_space p;
         p = p\<lparr> p_vm_space := Some new_vm, p_entry_point := le_entry_point loaded,
                p_user_stack_top := le_user_stack_top loaded, p_mmap_next_vaddr := DEFAULT_MMAP_BASE \<rparr>
     in case init_user_kernel_stack (p_kernel_stack p) (p_entry_point p) (p_user_stack_top p) of
          None \<Rightarrow> None
        | Some (st, initial_rsp) \<Rightarrow>
            Some (p\<lparr> p_kernel_stack := st, p_saved_kernel_rsp := initial_rsp, p_has_started := True \<rparr>, old_vm))"

subsection \<open>Frames on the kernel stack\<close>

lemma length_TrapFrame_bytes [simp]: "length (TrapFrame_bytes f) = TRAP_FRAME_SIZE"
  by (simp add: TrapFrame_bytes_def TrapFrame_words_def TRAP_FRAME_SIZE_def)

lemma TrapFrame_roundtrip [simp]: "TrapFrame_of (TrapFrame_bytes f) = f"
proof -
  have "words_of 20 (TrapFrame_bytes f) = TrapFrame_words f"
    unfolding TrapFrame_bytes_def by (rule words_of_words_bytes) (simp add: TrapFrame_words_def)
  then show ?thesis by (simp add: TrapFrame_of_def Let_def TrapFrame_words_def numeral_nat)
qed

lemma put_frame_spec:
  assumes "TRAP_FRAME_SIZE \<le> length (ks_bytes st)"
  obtains st' rsp where "put_frame st f = Some (st', rsp)" "frame_at st' rsp = f"
    "ks_ptr st' = ks_ptr st" "length (ks_bytes st') = length (ks_bytes st)"
    "rsp + TRAP_FRAME_SIZE = ks_ptr st + length (ks_bytes st)"
proof -
  let ?o = "length (ks_bytes st) - TRAP_FRAME_SIZE"
  let ?st = "st\<lparr> ks_bytes := take ?o (ks_bytes st) @ TrapFrame_bytes f \<rparr>"
  have "put_frame st f = Some (?st, ks_ptr st + ?o)"
    using assms by (simp add: put_frame_def Let_def)
  moreover have "frame_at ?st (ks_ptr st + ?o) = f" by (simp add: frame_at_def)
  ultimately show ?thesis using assms that by simp
qed

lemma frame_kinds:
  "is_user_mode (zero_frame\<lparr> tf_rip := e, tf_cs := USER_CODE_SEL, tf_rflags := 0x202, tf_rsp := s, tf_ss := USER_DATA_SEL \<rparr>)"
  "is_user_mode (fork_frame r)"
  "\<not> is_user_mode (zero_frame\<lparr> tf_rip := e, tf_cs := KERNEL_CODE_SEL, tf_rflags := 0x202, tf_rsp := s, tf_ss := KERNEL_DATA_SEL \<rparr>)"
  by (simp_all add: is_user_mode_def fork_frame_def zero_frame_def posix_consts)

subsection \<open>The descriptor table\<close>

lemma first_free_ge: "i \<le> first_free i slots"
  by (induction slots arbitrary: i) (auto intro: Suc_leD)

lemma first_free_spec:
  "first_free i slots - i \<le> length slots
   \<and> (\<forall>j < first_free i slots - i. slots ! j \<noteq> None)
   \<and> (first_free i slots - i < length slots \<longrightarrow> slots ! (first_free i slots - i) = None)"
proof (induction slots arbitrary: i)
  case (Cons slot slots)
  show ?case
  proof (cases "slot = None")
    case False
    have "first_free i (slot # slots) - i = Suc (first_free (Suc i) slots - Suc i)"
      using False first_free_ge [of "Suc i" slots] by simp
    then show ?thesis using Cons [of "Suc i"] False by (auto simp: nth_Cons split: nat.split)
  qed simp
qed simp

end
