(* ===== verification/Kernel.thy ===== *)
theory Kernel
  imports Process
begin

text \<open>
  The state of the kernel: the objects of the file system, the signal manager, the audit trail, and
  one record with the statics of all services. Reference-counted objects (\<open>Arc\<close>) live in stores
  indexed by references; processes and open file descriptions carry their strong count, because
  dropping the last reference has effects (page tables are freed, pipe ends are closed).
\<close>

subsection \<open>File system objects\<close>

record FileHandle =
  fh_inode :: nat
  fh_offset :: usize
  fh_flags :: i32

text \<open>\<^verbatim>\<open>vfs/ramfs.rs\<close>\<close>

record RamFsDir =
  rd_entries :: "(string \<times> nat) list"
  rd_subdirs :: "(string \<times> nat) list"
  rd_entry_count :: usize
  rd_mode :: u16
  rd_uid :: u32
  rd_gid :: u32

record RamFsFile =
  rf_data :: bytes
  rf_mode :: u16
  rf_uid :: u32
  rf_gid :: u32

text \<open>\<^verbatim>\<open>vfs/wait_queue.rs\<close> and \<^verbatim>\<open>vfs/pipe.rs\<close>: a wait queue is the list of waiting process identifiers.\<close>

type_synonym WaitQueue = "i32 list"

definition PIPE_BUFFER_SIZE :: usize where [posix_consts]: "PIPE_BUFFER_SIZE = 4096"

record PipeBuffer =
  pb_data :: bytes
  pb_read_pos :: usize
  pb_write_pos :: usize
  pb_len :: usize
  pb_readers_open :: usize
  pb_writers_open :: usize
  pb_read_waiters :: WaitQueue
  pb_write_waiters :: WaitQueue

text \<open>\<^verbatim>\<open>tty/mod.rs\<close> and \<^verbatim>\<open>vfs/procfs.rs\<close>\<close>

record LineDiscipline =
  ld_input_buffer :: bytes
  ld_canonical_queue :: bytes
  ld_termios :: Termios

datatype ProcKind = Meminfo | StatKind | Uptime | Processes | AuditJournalKind | AuditSnapshots

text \<open>The implementors of the trait \<open>Inode\<close>; pipe ends refer to their shared buffer.\<close>

datatype Inode =
    RamDir RamFsDir
  | RamFile RamFsFile
  | DevNull
  | DevZero
  | DevConsole
  | PipeReadEnd nat
  | PipeWriteEnd nat
  | ProcDynamicFile ProcKind
  | EpollInstance "(i32 \<times> EpollEvent) list"
  | TtyDevice LineDiscipline

subsection \<open>Signals, audit trail and monitor\<close>

record SignalManager =
  pending_signals :: "(i32 \<times> u64) list"
  blocked_masks :: "(i32 \<times> SigSet) list"
  signal_actions :: "(i32 \<times> SigAction list) list"

record AuditEvent =
  ae_seq :: u64
  ae_timestamp_ticks :: u64
  ae_pid :: i32
  ae_uid :: u32
  ae_event_type :: u32
  ae_status :: i32
  ae_target :: string
  ae_details :: string

record AuditJournal =
  aj_entries :: "AuditEvent list"
  aj_total_logged :: u64

record ProcessSnapshotInfo =
  psi_pid :: i32
  psi_ppid :: i32
  psi_uid :: u32
  psi_gid :: u32
  psi_state :: string
  psi_open_fds :: usize
  psi_cwd :: string

record AuditSnapshot =
  as_id :: u64
  as_label :: string
  as_timestamp_ticks :: u64
  as_journal_seq :: u64
  as_total_memory_kb :: u64
  as_used_memory_kb :: u64
  as_heap_used_kb :: u64
  as_process_count :: u32
  as_processes :: "ProcessSnapshotInfo list"

record ProcessMetric =
  pm_pid :: i32
  pm_ppid :: i32
  pm_state :: string
  pm_open_fds :: usize
  pm_cwd :: string

record SystemMetricsSnapshot =
  sm_sample_tick :: u64
  sm_total_memory_bytes :: usize
  sm_free_memory_bytes :: usize
  sm_used_memory_bytes :: usize
  sm_total_heap_bytes :: usize
  sm_used_heap_bytes :: usize
  sm_total_processes :: usize
  sm_running_processes :: usize
  sm_processes :: "ProcessMetric list"

text \<open>
  \<^verbatim>\<open>drivers/serial.rs\<close>: the software receive ring, the bytes waiting in the hardware FIFO, and the
  bytes transmitted so far.
\<close>

record SerialPort =
  sp_rx_buf :: bytes
  sp_rx_head :: usize
  sp_rx_tail :: usize
  sp_hw_fifo :: bytes
  sp_transmitted :: bytes

subsection \<open>The statics of the services\<close>

record kernel =
  k_mm :: mmu
  k_cr3 :: usize
  k_stack :: usize
  k_procs :: "nat \<Rightarrow> Process"
  k_proc_rc :: "nat \<Rightarrow> nat"
  k_nprocs :: nat
  k_table :: "(i32 \<times> nat) list"
  k_next_pid :: i32
  k_current_pid :: i32
  k_queue :: "nat list"
  k_current :: "nat option"
  k_idle :: "nat option"
  k_signals :: SignalManager
  k_pipes :: "nat \<Rightarrow> PipeBuffer"
  k_npipes :: nat
  k_inodes :: "nat \<Rightarrow> Inode"
  k_ninodes :: nat
  k_handles :: "nat \<Rightarrow> FileHandle"
  k_handle_rc :: "nat \<Rightarrow> nat"
  k_nhandles :: nat
  k_root :: "nat option"
  k_journal :: AuditJournal
  k_event_seq :: u64
  k_snapshot_id :: u64
  k_snapshots :: "AuditSnapshot list"
  k_monitor :: SystemMetricsSnapshot
  k_heap_stats :: "usize \<times> usize"
  k_serial :: SerialPort

text \<open>\<open>proc.lock()\<close> followed by an assignment to a field.\<close>

definition upd_proc :: "nat \<Rightarrow> (Process \<Rightarrow> Process) \<Rightarrow> kernel \<Rightarrow> kernel" where
  "upd_proc r f k = k\<lparr> k_procs := (k_procs k)(r := f (k_procs k r)) \<rparr>"

definition set_state :: "nat \<Rightarrow> ProcessState \<Rightarrow> kernel \<Rightarrow> kernel" where
  "set_state r st = upd_proc r (p_state_update (\<lambda>_. st))"

abbreviation proc_state :: "kernel \<Rightarrow> nat \<Rightarrow> ProcessState" where
  "proc_state k r \<equiv> p_state (k_procs k r)"

text \<open>\<open>Arc::clone\<close> and \<open>Arc::new\<close> for processes and open file descriptions.\<close>

definition proc_clone :: "nat \<Rightarrow> kernel \<Rightarrow> kernel" where
  "proc_clone r k = k\<lparr> k_proc_rc := (k_proc_rc k)(r := Suc (k_proc_rc k r)) \<rparr>"

definition proc_alloc :: "Process \<Rightarrow> kernel \<Rightarrow> nat \<times> kernel" where
  "proc_alloc p k = (k_nprocs k, k\<lparr> k_procs := (k_procs k)(k_nprocs k := p),
     k_proc_rc := (k_proc_rc k)(k_nprocs k := 1), k_nprocs := Suc (k_nprocs k) \<rparr>)"

definition handle_clone :: "nat \<Rightarrow> kernel \<Rightarrow> kernel" where
  "handle_clone h k = k\<lparr> k_handle_rc := (k_handle_rc k)(h := Suc (k_handle_rc k h)) \<rparr>"

definition handle_alloc :: "FileHandle \<Rightarrow> kernel \<Rightarrow> nat \<times> kernel" where
  "handle_alloc h k = (k_nhandles k, k\<lparr> k_handles := (k_handles k)(k_nhandles k := h),
     k_handle_rc := (k_handle_rc k)(k_nhandles k := 1), k_nhandles := Suc (k_nhandles k) \<rparr>)"

definition inode_alloc :: "Inode \<Rightarrow> kernel \<Rightarrow> nat \<times> kernel" where
  "inode_alloc i k = (k_ninodes k, k\<lparr> k_inodes := (k_inodes k)(k_ninodes k := i), k_ninodes := Suc (k_ninodes k) \<rparr>)"

definition FileHandle_new :: "nat \<Rightarrow> i32 \<Rightarrow> FileHandle" where
  "FileHandle_new inode flags = \<lparr> fh_inode = inode, fh_offset = 0, fh_flags = flags \<rparr>"

subsection \<open>Process identifiers (\<^verbatim>\<open>process/mod.rs\<close>)\<close>

text \<open>\<open>AtomicI32::fetch_add\<close> wraps around.\<close>

definition wrap_i32 :: "int \<Rightarrow> i32" where
  "wrap_i32 i = sint (word_of_int i :: u32)"

definition alloc_pid :: "kernel \<Rightarrow> i32 \<times> kernel" where
  "alloc_pid k =
    (let pid = k_next_pid k; k = k\<lparr> k_next_pid := wrap_i32 (pid + 1) \<rparr> in
     if pid \<le> 0 then (2, k\<lparr> k_next_pid := 2 \<rparr>) else (pid, k))"

definition get_current_process :: "kernel \<Rightarrow> nat option" where
  "get_current_process k = k_current k"

definition get_current_proc :: "kernel \<Rightarrow> Process option" where
  "get_current_proc k = map_option (k_procs k) (get_current_process k)"

lemma wrap_i32_id [simp]: "- (2 ^ 31) \<le> i \<Longrightarrow> i < 2 ^ 31 \<Longrightarrow> wrap_i32 i = i"
  by (simp add: wrap_i32_def signed_of_int signed_take_bit_int_eq_self)

lemma wrap_i32_max: "wrap_i32 (2 ^ 31) = - (2 ^ 31)"
  by (simp add: wrap_i32_def)

lemma upd_proc_simps [simp]:
  "k_procs (upd_proc r f k) = (k_procs k)(r := f (k_procs k r))"
  "k_proc_rc (upd_proc r f k) = k_proc_rc k" "k_nprocs (upd_proc r f k) = k_nprocs k"
  "k_table (upd_proc r f k) = k_table k" "k_next_pid (upd_proc r f k) = k_next_pid k"
  "k_current_pid (upd_proc r f k) = k_current_pid k" "k_queue (upd_proc r f k) = k_queue k"
  "k_current (upd_proc r f k) = k_current k" "k_idle (upd_proc r f k) = k_idle k"
  "k_signals (upd_proc r f k) = k_signals k" "k_mm (upd_proc r f k) = k_mm k"
  "k_cr3 (upd_proc r f k) = k_cr3 k" "k_stack (upd_proc r f k) = k_stack k"
  "k_pipes (upd_proc r f k) = k_pipes k" "k_handles (upd_proc r f k) = k_handles k"
  "k_handle_rc (upd_proc r f k) = k_handle_rc k" "k_inodes (upd_proc r f k) = k_inodes k"
  by (simp_all add: upd_proc_def)

lemma proc_clone_simps [simp]:
  "k_procs (proc_clone r k) = k_procs k"
  "k_proc_rc (proc_clone r k) = (k_proc_rc k)(r := Suc (k_proc_rc k r))"
  "k_nprocs (proc_clone r k) = k_nprocs k"
  "k_table (proc_clone r k) = k_table k" "k_next_pid (proc_clone r k) = k_next_pid k"
  "k_current_pid (proc_clone r k) = k_current_pid k" "k_queue (proc_clone r k) = k_queue k"
  "k_current (proc_clone r k) = k_current k" "k_idle (proc_clone r k) = k_idle k"
  "k_signals (proc_clone r k) = k_signals k" "k_mm (proc_clone r k) = k_mm k"
  "k_cr3 (proc_clone r k) = k_cr3 k" "k_stack (proc_clone r k) = k_stack k"
  "k_pipes (proc_clone r k) = k_pipes k" "k_handles (proc_clone r k) = k_handles k"
  "k_handle_rc (proc_clone r k) = k_handle_rc k" "k_inodes (proc_clone r k) = k_inodes k"
  by (simp_all add: proc_clone_def)

subsection \<open>The descriptor table\<close>

lemma alloc_fd_spec:
  assumes "alloc_fd p h = (fd, p')"
  shows "0 \<le> fd \<and> get_fd p fd = None \<and> get_fd p' fd = Some h
    \<and> (\<forall>d. 0 \<le> d \<longrightarrow> d < fd \<longrightarrow> get_fd p d \<noteq> None)
    \<and> (\<forall>d. d \<noteq> fd \<longrightarrow> get_fd p' d = get_fd p d)
    \<and> (\<exists>p''. close_fd p' fd = (Inr h, p'') \<and> (\<forall>d. get_fd p'' d = get_fd p d))"
proof -
  let ?i = "first_free 0 (p_fds p)"
  let ?n = "length (p_fds p)"
  define slots where "slots = (if ?i < ?n then (p_fds p)[?i := Some h] else p_fds p @ [Some h])"
  have fd: "fd = int ?i" and p': "p' = p\<lparr> p_fds := slots \<rparr>"
    using assms by (simp_all add: alloc_fd_def Let_def slots_def)
  have i: "?i \<le> ?n" "\<forall>j < ?i. p_fds p ! j \<noteq> None" "?i < ?n \<longrightarrow> p_fds p ! ?i = None"
    using first_free_spec [of 0 "p_fds p"] by simp_all
  have len: "length slots = max ?n (Suc ?i)" using i(1) by (auto simp: slots_def)
  have nth: "j < length slots \<Longrightarrow> slots ! j = (if j = ?i then Some h else p_fds p ! j)" for j
    using i(1) unfolding len by (auto simp: slots_def nth_append)
  have new: "get_fd p' d = (if d = fd then Some h else get_fd p d)" for d
    using i(1) nth [of "nat d"] by (auto simp: get_fd_def p' fd len max_def)
  have old: "get_fd p fd = None" using i(3) by (auto simp: get_fd_def fd)
  have "close_fd p' fd = (Inr h, p\<lparr> p_fds := slots[?i := None] \<rparr>)"
    using nth [of ?i] by (simp add: close_fd_def p' fd len)
  moreover have "get_fd (p\<lparr> p_fds := slots[?i := None] \<rparr>) d = get_fd p d" for d
    using i(1,3) nth [of "nat d"] by (auto simp: get_fd_def len max_def nth_list_update)
  moreover have "0 \<le> d \<longrightarrow> d < fd \<longrightarrow> get_fd p d \<noteq> None" for d
    using i(1,2) by (auto simp: get_fd_def fd nat_less_iff)
  ultimately show ?thesis using new old by (simp add: fd)
qed

text \<open>
  \<open>Process::alloc_fd\<close> returns the lowest unused descriptor, which then refers to the given file
  description; every other descriptor keeps its meaning, and \<open>close_fd\<close> on the new descriptor gives the
  reference back and restores the original table contents.
\<close>

theorem alloc_fd_correct:
  assumes "alloc_fd p h = (fd, p')"
  shows "0 \<le> fd \<and> get_fd p fd = None \<and> get_fd p' fd = Some h
    \<and> (\<forall>d. 0 \<le> d \<longrightarrow> d < fd \<longrightarrow> get_fd p d \<noteq> None)
    \<and> (\<forall>d. d \<noteq> fd \<longrightarrow> get_fd p' d = get_fd p d)
    \<and> (\<exists>p''. close_fd p' fd = (Inr h, p'') \<and> (\<forall>d. get_fd p'' d = get_fd p d))"
  using alloc_fd_spec [OF assms] .

theorem alloc_fd_correct_witness:
  "get_fd (snd (alloc_fd ((Process_new 0 1 0 ''/'')\<lparr> p_fds := [Some 7, None, Some 9] \<rparr>) 5)) 1 = Some 5"
proof -
  have "alloc_fd ((Process_new 0 1 0 ''/'')\<lparr> p_fds := [Some 7, None, Some 9] \<rparr>) 5
    = (1, snd (alloc_fd ((Process_new 0 1 0 ''/'')\<lparr> p_fds := [Some 7, None, Some 9] \<rparr>) 5))"
    by (simp add: alloc_fd_def Let_def)
  from alloc_fd_correct [OF this] show ?thesis by blast
qed

end
