(* ===== verification/Scheduler.thy ===== *)
theory Scheduler
  imports Kernel
begin

text \<open>
  Blocking, waking and context switching: wait queues (\<^verbatim>\<open>vfs/wait_queue.rs\<close>), the round-robin scheduler
  (\<^verbatim>\<open>services/scheduler/mod.rs\<close>), and what dropping the last reference to a pipe end, an open file
  description or a process does. A scheduler function runs under the scheduler lock with interrupts
  masked, so it is one step of the model; a context switch ends the step and hands the CPU over.
\<close>

subsection \<open>Wait queues\<close>

definition add_waiter :: "i32 \<Rightarrow> WaitQueue \<Rightarrow> WaitQueue" where
  "add_waiter pid q = (if pid \<in> set q then q else q @ [pid])"

definition remove_waiter :: "i32 \<Rightarrow> WaitQueue \<Rightarrow> WaitQueue" where
  "remove_waiter pid q = filter (\<lambda>p. p \<noteq> pid) q"

definition drain_one :: "WaitQueue \<Rightarrow> i32 option \<times> WaitQueue" where
  "drain_one q = (case q of [] \<Rightarrow> (None, []) | p # q \<Rightarrow> (Some p, q))"

definition drain_all :: "WaitQueue \<Rightarrow> i32 list \<times> WaitQueue" where
  "drain_all q = (q, [])"

subsection \<open>The ready queue\<close>

definition add_task :: "nat \<Rightarrow> kernel \<Rightarrow> kernel" where
  "add_task r k = k\<lparr> k_queue := k_queue k @ [r] \<rparr>"

definition pick_next :: "kernel \<Rightarrow> nat option \<times> kernel" where
  "pick_next k = (case k_queue k of [] \<Rightarrow> (None, k) | r # q \<Rightarrow> (Some r, k\<lparr> k_queue := q \<rparr>))"

definition mark_current_blocked :: "kernel \<Rightarrow> kernel" where
  "mark_current_blocked k =
    (case k_current k of
       Some r \<Rightarrow> if proc_state k r = Running then set_state r Blocked k else k
     | None \<Rightarrow> k)"

definition mark_current_running :: "kernel \<Rightarrow> kernel" where
  "mark_current_running k =
    (case k_current k of
       Some r \<Rightarrow> if proc_state k r = Blocked then set_state r Running k else k
     | None \<Rightarrow> k)"

text \<open>One iteration of the loop of \<open>wake_tasks\<close>.\<close>

definition wake_one :: "i32 \<Rightarrow> kernel \<Rightarrow> kernel" where
  "wake_one pid k =
    (case bt_get (k_table k) pid of
       Some r \<Rightarrow> if proc_state k r = Blocked then add_task r (proc_clone r (set_state r Ready k)) else k
     | None \<Rightarrow> k)"

definition wake_tasks :: "i32 list \<Rightarrow> kernel \<Rightarrow> kernel" where
  "wake_tasks pids k = fold wake_one pids k"

subsection \<open>Dropping references\<close>

definition PipeReadEnd_drop :: "nat \<Rightarrow> kernel \<Rightarrow> kernel" where
  "PipeReadEnd_drop b k =
    (let pipe = k_pipes k b;
         pipe = pipe\<lparr> pb_readers_open := saturating_sub (pb_readers_open pipe) 1 \<rparr>;
         (to_wake, pipe) = (if pb_readers_open pipe = 0
           then (let (w, q) = drain_all (pb_write_waiters pipe) in (w, pipe\<lparr> pb_write_waiters := q \<rparr>))
           else ([], pipe))
     in wake_tasks to_wake (k\<lparr> k_pipes := (k_pipes k)(b := pipe) \<rparr>))"

definition PipeWriteEnd_drop :: "nat \<Rightarrow> kernel \<Rightarrow> kernel" where
  "PipeWriteEnd_drop b k =
    (let pipe = k_pipes k b;
         pipe = pipe\<lparr> pb_writers_open := saturating_sub (pb_writers_open pipe) 1 \<rparr>;
         (to_wake, pipe) = (if pb_writers_open pipe = 0
           then (let (w, q) = drain_all (pb_read_waiters pipe) in (w, pipe\<lparr> pb_read_waiters := q \<rparr>))
           else ([], pipe))
     in wake_tasks to_wake (k\<lparr> k_pipes := (k_pipes k)(b := pipe) \<rparr>))"

text \<open>
  Dropping an \<open>Arc<FileHandle>\<close>. A pipe end is referenced by the one description that \<open>sys_pipe\<close> made for
  it, so the end is dropped with the description; other inodes have no \<open>Drop\<close>.
\<close>

definition handle_drop :: "nat \<Rightarrow> kernel \<Rightarrow> kernel" where
  "handle_drop h k =
    (let k = k\<lparr> k_handle_rc := (k_handle_rc k)(h := k_handle_rc k h - 1) \<rparr> in
     if k_handle_rc k h = 0 then
       (case k_inodes k (fh_inode (k_handles k h)) of
          PipeReadEnd b \<Rightarrow> PipeReadEnd_drop b k
        | PipeWriteEnd b \<Rightarrow> PipeWriteEnd_drop b k
        | _ \<Rightarrow> k)
     else k)"

text \<open>
  Dropping an \<open>Arc<SpinLock<Process>>\<close>: with the last reference the descriptors are dropped, then the
  address space; \<open>None\<close> is the panic of \<open>VmSpace::drop\<close> on the active address space.
\<close>

definition vm_drop :: "VmSpace \<Rightarrow> kernel \<Rightarrow> kernel option" where
  "vm_drop vm k =
    (case VmSpace_drop (k_cr3 k) vm (k_mm k) of
       (VmOk, s) \<Rightarrow> Some (k\<lparr> k_mm := s \<rparr>)
     | _ \<Rightarrow> None)"

definition proc_drop :: "nat \<Rightarrow> kernel \<Rightarrow> kernel option" where
  "proc_drop r k =
    (let k = k\<lparr> k_proc_rc := (k_proc_rc k)(r := k_proc_rc k r - 1) \<rparr> in
     if k_proc_rc k r = 0 then
       (let p = k_procs k r;
            k = fold handle_drop (map the (filter (\<lambda>s. s \<noteq> None) (p_fds p))) k
        in case p_vm_space p of None \<Rightarrow> Some k | Some vm \<Rightarrow> vm_drop vm k)
     else Some k)"

text \<open>\<open>PROCESS_TABLE\<close>: an insertion drops the reference it replaces, a removal hands out the one it removes.\<close>

definition table_insert :: "i32 \<Rightarrow> nat \<Rightarrow> kernel \<Rightarrow> kernel option" where
  "table_insert pid r k =
    (let k' = k\<lparr> k_table := bt_insert pid r (k_table k) \<rparr> in
     case bt_get (k_table k) pid of None \<Rightarrow> Some k' | Some old \<Rightarrow> proc_drop old k')"

definition table_remove :: "i32 \<Rightarrow> kernel \<Rightarrow> nat option \<times> kernel" where
  "table_remove pid k = (bt_get (k_table k) pid, k\<lparr> k_table := bt_remove pid (k_table k) \<rparr>)"

subsection \<open>Context switches\<close>

definition set_current_process :: "nat \<Rightarrow> kernel \<Rightarrow> kernel option" where
  "set_current_process r k =
    (let k' = k\<lparr> k_current := Some r \<rparr> in
     case k_current k of None \<Rightarrow> Some k' | Some old \<Rightarrow> proc_drop old k')"

definition set_idle_task :: "nat \<Rightarrow> kernel \<Rightarrow> kernel option" where
  "set_idle_task r k =
    (let k' = k\<lparr> k_idle := Some r \<rparr> in
     case k_idle k of None \<Rightarrow> Some k' | Some old \<Rightarrow> proc_drop old k')"

text \<open>\<open>VmSpace::activate\<close> loads the root table.\<close>

definition activate :: "VmSpace \<Rightarrow> kernel \<Rightarrow> kernel" where
  "activate vm k = k\<lparr> k_cr3 := address_space vm \<rparr>"

text \<open>
  The block that the three switching functions share: the next task is marked running, its kernel
  stack and address space become the active ones.
\<close>

definition dispatch_to :: "nat \<Rightarrow> kernel \<Rightarrow> kernel" where
  "dispatch_to r k =
    (let k = set_state r Running k;
         k = k\<lparr> k_stack := kernel_stack_top (k_procs k r) \<rparr>;
         k = (case p_vm_space (k_procs k r) of Some vm \<Rightarrow> activate vm k | None \<Rightarrow> k)
     in k\<lparr> k_current_pid := p_pid (k_procs k r) \<rparr>)"

text \<open>
  \<open>switch_tasks\<close> pushes a frame of 20 words below \<open>rsp\<close>, the stack pointer at the call, and stores
  the resulting stack pointer in the outgoing control block. The first component of the result is the
  stack pointer the CPU continues from: \<open>None\<close> if the function returns without a switch.
\<close>

definition switch_tasks :: "nat \<Rightarrow> usize \<Rightarrow> kernel \<Rightarrow> kernel" where
  "switch_tasks prev rsp k = upd_proc prev (p_saved_kernel_rsp_update (\<lambda>_. rsp - TRAP_FRAME_SIZE)) k"

definition next_or_idle :: "kernel \<Rightarrow> (nat \<times> kernel) option" where
  "next_or_idle k =
    (case k_queue k of
       r # q \<Rightarrow> Some (r, k\<lparr> k_queue := q \<rparr>)
     | [] \<Rightarrow> (case k_idle k of Some i \<Rightarrow> Some (i, proc_clone i k) | None \<Rightarrow> None))"

definition switch_out_current :: "usize \<Rightarrow> kernel \<Rightarrow> usize option \<times> kernel" where
  "switch_out_current rsp k =
    (case k_current k of
       None \<Rightarrow> (None, k)
     | Some prev \<Rightarrow>
        (case next_or_idle k of
           None \<Rightarrow> (None, if proc_state k prev = Blocked then set_state prev Running k else k)
         | Some (nxt, k) \<Rightarrow>
            let k = dispatch_to nxt k;
                next_saved_rsp = p_saved_kernel_rsp (k_procs k nxt);
                k = k\<lparr> k_current := Some nxt \<rparr>
            in (Some next_saved_rsp, switch_tasks prev rsp k)))"

definition block_current :: "usize \<Rightarrow> kernel \<Rightarrow> usize option \<times> kernel" where
  "block_current rsp k = switch_out_current rsp (mark_current_blocked k)"

definition preempt :: "nat \<Rightarrow> kernel \<Rightarrow> kernel" where
  "preempt prev k =
    (if proc_state k prev = Running then add_task prev (proc_clone prev (set_state prev Ready k)) else k)"

definition schedule_yield :: "usize \<Rightarrow> kernel \<Rightarrow> usize option \<times> kernel" where
  "schedule_yield rsp k =
    (case k_current k of
       None \<Rightarrow> (None, k)
     | Some prev \<Rightarrow>
        (case k_queue k of
           [] \<Rightarrow> (None, k)
         | nxt # q \<Rightarrow>
            let k = preempt prev (k\<lparr> k_queue := q \<rparr>);
                k = dispatch_to nxt k;
                next_saved_rsp = p_saved_kernel_rsp (k_procs k nxt);
                k = k\<lparr> k_current := Some nxt \<rparr>
            in (Some next_saved_rsp, switch_tasks prev rsp k)))"

definition timer_tick_schedule :: "usize \<Rightarrow> kernel \<Rightarrow> (usize \<times> kernel) option" where
  "timer_tick_schedule current_rsp k =
    (case k_queue k of
       [] \<Rightarrow> Some (current_rsp, k)
     | nxt # q \<Rightarrow>
        let prev_opt = k_current k;
            k = k\<lparr> k_queue := q \<rparr>;
            k = (case prev_opt of
                   Some prev \<Rightarrow> preempt prev (upd_proc prev (p_saved_kernel_rsp_update (\<lambda>_. current_rsp)) k)
                 | None \<Rightarrow> k);
            k = dispatch_to nxt k;
            next_rsp = p_saved_kernel_rsp (k_procs k nxt);
            k = k\<lparr> k_current := Some nxt \<rparr>
        in map_option (Pair next_rsp) (case prev_opt of Some prev \<Rightarrow> proc_drop prev k | None \<Rightarrow> Some k))"

subsection \<open>What the scheduler changes\<close>

text \<open>The part of the state that scheduling decisions depend on.\<close>

definition sched_view where
  "sched_view k = (\<lambda>r. (proc_state k r, p_pid (k_procs k r)), k_proc_rc k, k_nprocs k, k_table k, k_queue k,
     k_current k, k_idle k, k_current_pid k)"

lemma set_state_simps [simp]:
  "k_procs (set_state r st k) = (k_procs k)(r := (k_procs k r)\<lparr> p_state := st \<rparr>)"
  "k_proc_rc (set_state r st k) = k_proc_rc k" "k_nprocs (set_state r st k) = k_nprocs k"
  "k_table (set_state r st k) = k_table k" "k_queue (set_state r st k) = k_queue k"
  "k_current (set_state r st k) = k_current k" "k_idle (set_state r st k) = k_idle k"
  "k_current_pid (set_state r st k) = k_current_pid k"
  by (simp_all add: set_state_def)

lemma add_task_simps [simp]:
  "k_procs (add_task r k) = k_procs k" "k_proc_rc (add_task r k) = k_proc_rc k"
  "k_nprocs (add_task r k) = k_nprocs k" "k_table (add_task r k) = k_table k"
  "k_queue (add_task r k) = k_queue k @ [r]" "k_current (add_task r k) = k_current k"
  "k_idle (add_task r k) = k_idle k" "k_current_pid (add_task r k) = k_current_pid k"
  by (simp_all add: add_task_def)

lemma dispatch_to_simps [simp]:
  "k_procs (dispatch_to r k) = (k_procs k)(r := (k_procs k r)\<lparr> p_state := Running \<rparr>)"
  "k_proc_rc (dispatch_to r k) = k_proc_rc k" "k_nprocs (dispatch_to r k) = k_nprocs k"
  "k_table (dispatch_to r k) = k_table k" "k_queue (dispatch_to r k) = k_queue k"
  "k_current (dispatch_to r k) = k_current k" "k_idle (dispatch_to r k) = k_idle k"
  "k_current_pid (dispatch_to r k) = p_pid (k_procs k r)"
  by (auto simp: dispatch_to_def Let_def activate_def split: option.split)

lemma switch_tasks_simps [simp]:
  "k_proc_rc (switch_tasks r rsp k) = k_proc_rc k" "k_nprocs (switch_tasks r rsp k) = k_nprocs k"
  "k_table (switch_tasks r rsp k) = k_table k" "k_queue (switch_tasks r rsp k) = k_queue k"
  "k_current (switch_tasks r rsp k) = k_current k" "k_idle (switch_tasks r rsp k) = k_idle k"
  "k_current_pid (switch_tasks r rsp k) = k_current_pid k"
  "proc_state (switch_tasks r rsp k) x = proc_state k x"
  "p_pid (k_procs (switch_tasks r rsp k) x) = p_pid (k_procs k x)"
  by (simp_all add: switch_tasks_def)

lemma wake_one_simps [simp]:
  "k_nprocs (wake_one pid k) = k_nprocs k" "k_table (wake_one pid k) = k_table k"
  "k_current (wake_one pid k) = k_current k" "k_idle (wake_one pid k) = k_idle k"
  "k_current_pid (wake_one pid k) = k_current_pid k"
  "p_pid (k_procs (wake_one pid k) r) = p_pid (k_procs k r)"
  by (simp_all add: wake_one_def split: option.split)

subsection \<open>Round robin, abstractly\<close>

text \<open>
  What the scheduler promises, on the states of the processes, the queue, and the two distinguished
  tasks: one process runs; the queue holds every ready process except possibly the idle task, each
  once and nothing else.
\<close>

record rr =
  rr_n :: nat
  rr_st :: "nat \<Rightarrow> ProcessState"
  rr_q :: "nat list"
  rr_cur :: nat
  rr_idle :: nat

definition rr_ok :: "rr \<Rightarrow> bool" where
  "rr_ok s \<longleftrightarrow> rr_cur s < rr_n s \<and> rr_idle s < rr_n s \<and> rr_st s (rr_cur s) = Running
     \<and> (\<forall>r < rr_n s. rr_st s r = Running \<longrightarrow> r = rr_cur s)
     \<and> distinct (rr_q s) \<and> (\<forall>r \<in> set (rr_q s). r < rr_n s \<and> rr_st s r = Ready)
     \<and> (\<forall>r < rr_n s. rr_st s r = Ready \<longrightarrow> r \<in> set (rr_q s) \<or> r = rr_idle s)
     \<and> (rr_st s (rr_idle s) = Ready \<or> rr_idle s = rr_cur s)"

text \<open>
  A step lists the tasks it takes from the queue. \<open>rotate\<close> preempts the running task, \<open>leave\<close> takes
  it off the CPU as blocked or zombie, \<open>rest\<close> falls back to the idle task.
\<close>

inductive rr_step :: "rr \<Rightarrow> nat list \<Rightarrow> rr \<Rightarrow> bool" where
  stay: "rr_step s [] s"
| wake: "rr_st s r = Blocked \<Longrightarrow> r < rr_n s \<Longrightarrow>
    rr_step s [] (s\<lparr> rr_st := (rr_st s)(r := Ready), rr_q := rr_q s @ [r] \<rparr>)"
| spawn: "rr_step s [] (s\<lparr> rr_n := Suc (rr_n s), rr_st := (rr_st s)(rr_n s := Ready), rr_q := rr_q s @ [rr_n s] \<rparr>)"
| rotate: "rr_q s = r # q \<Longrightarrow>
    rr_step s [r] (s\<lparr> rr_st := (rr_st s)(rr_cur s := Ready, r := Running), rr_q := q @ [rr_cur s], rr_cur := r \<rparr>)"
| leave: "rr_q s = r # q \<Longrightarrow> rr_cur s \<noteq> rr_idle s \<Longrightarrow> st = Blocked \<or> st = Zombie \<Longrightarrow>
    rr_step s [r] (s\<lparr> rr_st := (rr_st s)(rr_cur s := st, r := Running), rr_q := q, rr_cur := r \<rparr>)"
| rest: "rr_q s = [] \<Longrightarrow> rr_cur s \<noteq> rr_idle s \<Longrightarrow> st = Blocked \<or> st = Zombie \<Longrightarrow>
    rr_step s [] (s\<lparr> rr_st := (rr_st s)(rr_cur s := st, rr_idle s := Running), rr_cur := rr_idle s \<rparr>)"

inductive rr_run :: "rr \<Rightarrow> nat list \<Rightarrow> rr \<Rightarrow> bool" where
  start: "rr_run s [] s"
| step: "rr_run s ds s' \<Longrightarrow> rr_step s' es s'' \<Longrightarrow> rr_run s (ds @ es) s''"

lemma rr_okI:
  assumes "rr_cur s < rr_n s" "rr_idle s < rr_n s" "rr_st s (rr_cur s) = Running"
    "\<And>r. r < rr_n s \<Longrightarrow> r \<noteq> rr_cur s \<Longrightarrow> rr_st s r \<noteq> Running" "distinct (rr_q s)"
    "\<And>r. r \<in> set (rr_q s) \<Longrightarrow> r < rr_n s" "\<And>r. r \<in> set (rr_q s) \<Longrightarrow> rr_st s r = Ready"
    "\<And>r. r < rr_n s \<Longrightarrow> rr_st s r = Ready \<Longrightarrow> r \<noteq> rr_idle s \<Longrightarrow> r \<in> set (rr_q s)"
    "rr_idle s \<noteq> rr_cur s \<Longrightarrow> rr_st s (rr_idle s) = Ready"
  shows "rr_ok s"
  unfolding rr_ok_def using assms by blast

lemma rr_okD:
  assumes "rr_ok s"
  shows "rr_cur s < rr_n s" "rr_idle s < rr_n s" "rr_st s (rr_cur s) = Running"
    "\<And>r. r < rr_n s \<Longrightarrow> r \<noteq> rr_cur s \<Longrightarrow> rr_st s r \<noteq> Running" "distinct (rr_q s)"
    "\<And>r. r \<in> set (rr_q s) \<Longrightarrow> r < rr_n s" "\<And>r. r \<in> set (rr_q s) \<Longrightarrow> rr_st s r = Ready"
    "\<And>r. r < rr_n s \<Longrightarrow> rr_st s r = Ready \<Longrightarrow> r \<noteq> rr_idle s \<Longrightarrow> r \<in> set (rr_q s)"
    "rr_idle s \<noteq> rr_cur s \<Longrightarrow> rr_st s (rr_idle s) = Ready"
  using assms unfolding rr_ok_def by blast+

lemma rr_ok_cur: "rr_ok s \<Longrightarrow> rr_cur s \<notin> set (rr_q s)"
  using rr_okD(3,7) by fastforce

lemma rr_ok_wake:
  assumes ok: "rr_ok s" and r: "rr_st s r = Blocked" "r < rr_n s"
  shows "rr_ok (s\<lparr> rr_st := (rr_st s)(r := Ready), rr_q := rr_q s @ [r] \<rparr>)"
proof -
  have "r \<notin> set (rr_q s)" "r \<noteq> rr_cur s" using rr_okD(3,7) [OF ok] r(1) by fastforce+
  then show ?thesis using rr_okD(1,2,3,5,9) [OF ok] r
    by (intro rr_okI) (auto split: if_splits dest: rr_okD(6,7) [OF ok] rr_okD(4) [OF ok] intro: rr_okD(8) [OF ok])
qed

lemma rr_ok_spawn:
  assumes ok: "rr_ok s"
  shows "rr_ok (s\<lparr> rr_n := Suc (rr_n s), rr_st := (rr_st s)(rr_n s := Ready), rr_q := rr_q s @ [rr_n s] \<rparr>)"
proof -
  have "rr_n s \<notin> set (rr_q s)" "rr_n s \<noteq> rr_cur s" "rr_n s \<noteq> rr_idle s" using rr_okD(1,2,6) [OF ok] by auto
  then show ?thesis using rr_okD(1,2,3,5,9) [OF ok]
    by (intro rr_okI) (auto simp: less_Suc_eq split: if_splits dest: rr_okD(6,7) [OF ok] rr_okD(4) [OF ok] intro: rr_okD(8) [OF ok])
qed

lemma rr_ok_rotate:
  assumes ok: "rr_ok s" and q: "rr_q s = r # q"
  shows "rr_ok (s\<lparr> rr_st := (rr_st s)(rr_cur s := Ready, r := Running), rr_q := q @ [rr_cur s], rr_cur := r \<rparr>)"
proof -
  have "r \<noteq> rr_cur s" "rr_cur s \<notin> set q" "r \<notin> set q" using rr_ok_cur [OF ok] rr_okD(5) [OF ok] q by auto
  then show ?thesis using rr_okD(1,2,3,5,9) [OF ok]
    by (intro rr_okI) (auto simp: q split: if_splits dest: rr_okD(4) [OF ok] rr_okD(8) [OF ok, unfolded q] intro: rr_okD(6,7) [OF ok, unfolded q])
qed

lemma rr_ok_leave:
  assumes ok: "rr_ok s" and q: "rr_q s = r # q" and c: "rr_cur s \<noteq> rr_idle s" "st = Blocked \<or> st = Zombie"
  shows "rr_ok (s\<lparr> rr_st := (rr_st s)(rr_cur s := st, r := Running), rr_q := q, rr_cur := r \<rparr>)"
proof -
  have "r \<noteq> rr_cur s" "rr_cur s \<notin> set q" "r \<notin> set q" using rr_ok_cur [OF ok] rr_okD(5) [OF ok] q by auto
  moreover have "st \<noteq> Ready" "st \<noteq> Running" using c(2) by auto
  ultimately show ?thesis using rr_okD(1,2,3,5,9) [OF ok] c(1)
    by (intro rr_okI) (auto simp: q split: if_splits dest: rr_okD(4) [OF ok] rr_okD(8) [OF ok, unfolded q] intro: rr_okD(6,7) [OF ok, unfolded q])
qed

lemma rr_ok_rest:
  assumes ok: "rr_ok s" and q: "rr_q s = []" and c: "rr_cur s \<noteq> rr_idle s" "st = Blocked \<or> st = Zombie"
  shows "rr_ok (s\<lparr> rr_st := (rr_st s)(rr_cur s := st, rr_idle s := Running), rr_cur := rr_idle s \<rparr>)"
proof -
  have "st \<noteq> Ready" "st \<noteq> Running" using c(2) by auto
  then show ?thesis using rr_okD(1,2,3,5,9) [OF ok] c(1)
    by (intro rr_okI) (auto simp: q split: if_splits dest: rr_okD(4) [OF ok] rr_okD(8) [OF ok, unfolded q] intro: rr_okD(6,7) [OF ok, unfolded q])
qed

lemma rr_ok_step: "rr_step s ds s' \<Longrightarrow> rr_ok s \<Longrightarrow> rr_ok s'"
proof (induction rule: rr_step.induct)
  case (leave s r q st)
  show ?case by (rule rr_ok_leave [OF leave(4) leave(1,2,3)])
next
  case (rest s st)
  show ?case by (rule rr_ok_rest [OF rest(4) rest(1,2,3)])
qed (simp_all only: rr_ok_wake rr_ok_spawn rr_ok_rotate)

lemma rr_ok_run: "rr_run s ds s' \<Longrightarrow> rr_ok s \<Longrightarrow> rr_ok s'"
  by (induction rule: rr_run.induct) (auto intro: rr_ok_step)

text \<open>First in, first out: what was dispatched, then what is queued, starts with what was queued before.\<close>

lemma rr_step_fifo: "rr_step s ds s' \<Longrightarrow> \<exists>new. ds @ rr_q s' = rr_q s @ new"
  by (induction rule: rr_step.induct) auto

lemma rr_run_fifo: "rr_run s ds s' \<Longrightarrow> \<exists>new. ds @ rr_q s' = rr_q s @ new"
proof (induction rule: rr_run.induct)
  case (step s ds s' es s'')
  then obtain new new' where "ds @ rr_q s' = rr_q s @ new" "es @ rr_q s'' = rr_q s' @ new'"
    using rr_step_fifo by blast
  then have "(ds @ es) @ rr_q s'' = rr_q s @ (new @ new')" by (metis append.assoc)
  then show ?case by blast
qed simp

lemma rr_run_trans: "rr_run s' es s'' \<Longrightarrow> rr_run s ds s' \<Longrightarrow> rr_run s (ds @ es) s''"
proof (induction rule: rr_run.induct)
  case (step s' es t fs u)
  then show ?case using rr_run.step [of s "ds @ es" t fs u] by simp
qed simp

lemma rr_run_single: "rr_step s ds s' \<Longrightarrow> rr_run s ds s'"
  using rr_run.step [OF rr_run.start] by simp

subsection \<open>The scheduler implements round robin\<close>

definition rr_of :: "kernel \<Rightarrow> rr" where
  "rr_of k = \<lparr> rr_n = k_nprocs k, rr_st = proc_state k, rr_q = k_queue k,
     rr_cur = the (k_current k), rr_idle = the (k_idle k) \<rparr>"

text \<open>References to a process from the table, the queue and the two registers, and their count.\<close>

definition refs :: "kernel \<Rightarrow> nat \<Rightarrow> nat" where
  "refs k r = count_list (map snd (k_table k)) r + count_list (k_queue k) r
     + of_bool (k_current k = Some r) + of_bool (k_idle k = Some r)"

definition arc_ok :: "kernel \<Rightarrow> bool" where
  "arc_ok k \<longleftrightarrow> bt_ok (k_table k) \<and> (\<forall>e \<in> set (k_table k). snd e < k_nprocs k) \<and> (\<forall>r. refs k r \<le> k_proc_rc k r)"

text \<open>The invariant: a well-formed round-robin state, and reference counts that cover the references.\<close>

definition sched_inv :: "kernel \<Rightarrow> bool" where
  "sched_inv k \<longleftrightarrow> k_current k \<noteq> None \<and> k_idle k \<noteq> None \<and> rr_ok (rr_of k) \<and> arc_ok k
     \<and> k_current_pid k = p_pid (k_procs k (the (k_current k)))"

lemma rr_of_simps [simp]:
  "rr_n (rr_of k) = k_nprocs k" "rr_st (rr_of k) = proc_state k" "rr_q (rr_of k) = k_queue k"
  "rr_cur (rr_of k) = the (k_current k)" "rr_idle (rr_of k) = the (k_idle k)"
  by (simp_all add: rr_of_def)

lemma rr_eqI: "rr_n s = rr_n t \<Longrightarrow> rr_st s = rr_st t \<Longrightarrow> rr_q s = rr_q t \<Longrightarrow> rr_cur s = rr_cur t \<Longrightarrow>
    rr_idle s = rr_idle t \<Longrightarrow> s = (t :: rr)"
  by simp

text \<open>
  \<open>refines k ds k'\<close> says that the step from \<open>k\<close> to \<open>k'\<close> keeps the
  invariant and is a round-robin run dispatching \<open>ds\<close>.
\<close>

definition refines :: "kernel \<Rightarrow> nat list \<Rightarrow> kernel \<Rightarrow> bool" where
  "refines k ds k' \<longleftrightarrow> rr_run (rr_of k) ds (rr_of k') \<and> sched_inv k' \<and> k_idle k' = k_idle k"

lemma refinesI:
  assumes inv: "sched_inv k" and st: "rr_step (rr_of k) ds (rr_of k')" and arc: "arc_ok k'"
    and "k_current k' \<noteq> None" "k_idle k' = k_idle k" "k_current_pid k' = p_pid (k_procs k' (the (k_current k')))"
  shows "refines k ds k'"
  using assms rr_run_single [OF st] rr_ok_step [OF st] by (auto simp: refines_def sched_inv_def)

lemma refines_refl: "sched_inv k \<Longrightarrow> refines k [] k"
  by (simp add: refines_def rr_run.start)

lemma refines_trans: "refines k ds k' \<Longrightarrow> refines k' es k'' \<Longrightarrow> refines k (ds @ es) k''"
  unfolding refines_def using rr_run_trans by metis

lemma refines_inv: "refines k ds k' \<Longrightarrow> sched_inv k'"
  by (simp add: refines_def)

lemma sched_invD:
  assumes "sched_inv k"
  obtains c i where "k_current k = Some c" "k_idle k = Some i" "c < k_nprocs k" "i < k_nprocs k"
    "proc_state k c = Running" "c \<notin> set (k_queue k)" "arc_ok k" "rr_ok (rr_of k)"
proof -
  from assms have c: "k_current k \<noteq> None" "k_idle k \<noteq> None" "rr_ok (rr_of k)" "arc_ok k" by (simp_all add: sched_inv_def)
  then show ?thesis using rr_okD(1,2,3) [OF c(3)] rr_ok_cur [OF c(3)] that by auto
qed

lemma arc_ok_same:
  assumes "arc_ok k" "k_table k' = k_table k" "k_nprocs k' = k_nprocs k"
    "\<And>r. refs k' r \<le> k_proc_rc k' r"
  shows "arc_ok k'"
  using assms by (simp add: arc_ok_def)

lemma refs_le: "arc_ok k \<Longrightarrow> refs k r \<le> k_proc_rc k r"
  by (simp add: arc_ok_def)

lemma wake_one_refines: assumes inv: "sched_inv k" shows "refines k [] (wake_one pid k)"
proof (cases "\<exists>r. bt_get (k_table k) pid = Some r \<and> proc_state k r = Blocked")
  case True
  then obtain r where r: "bt_get (k_table k) pid = Some r" "proc_state k r = Blocked" by blast
  let ?k = "wake_one pid k"
  have w: "?k = add_task r (proc_clone r (set_state r Ready k))" using r by (simp add: wake_one_def)
  obtain c i where ci: "k_current k = Some c" "proc_state k c = Running" "arc_ok k" using sched_invD [OF inv] .
  have "snd (pid, r) < k_nprocs k" using bt_get_in_set [OF r(1)] ci(3) unfolding arc_ok_def by blast
  then have "rr_step (rr_of k) [] ((rr_of k)\<lparr> rr_st := (rr_st (rr_of k))(r := Ready), rr_q := rr_q (rr_of k) @ [r] \<rparr>)"
    using r(2) by (intro rr_step.wake) simp_all
  also have "((rr_of k)\<lparr> rr_st := (rr_st (rr_of k))(r := Ready), rr_q := rr_q (rr_of k) @ [r] \<rparr>) = rr_of ?k"
    by (rule rr_eqI) (simp_all add: w fun_eq_iff)
  finally have st: "rr_step (rr_of k) [] (rr_of ?k)" .
  have "refs ?k x \<le> k_proc_rc ?k x" for x using refs_le [OF ci(3), of x] by (auto simp: refs_def w)
  then have "arc_ok ?k" by (intro arc_ok_same [OF ci(3)]) simp_all
  then show ?thesis using inv st ci by (intro refinesI) (auto simp: sched_inv_def)
next
  case False
  then have "wake_one pid k = k" by (auto simp: wake_one_def split: option.split)
  then show ?thesis using refines_refl [OF inv] by simp
qed

lemma wake_tasks_refines: "sched_inv k \<Longrightarrow> refines k [] (wake_tasks pids k)"
proof (induction pids arbitrary: k)
  case (Cons pid pids)
  have "refines k [] (wake_one pid k)" using Cons.prems by (rule wake_one_refines)
  from refines_trans [OF this Cons.IH [OF refines_inv [OF this]]] show ?case by (simp add: wake_tasks_def)
qed (simp add: wake_tasks_def refines_refl)

lemma proc_drop_shared:
  "1 < k_proc_rc k r \<Longrightarrow> proc_drop r k = Some (k\<lparr> k_proc_rc := (k_proc_rc k)(r := k_proc_rc k r - 1) \<rparr>)"
  by (simp add: proc_drop_def Let_def)

text \<open>Preemption: the outgoing task goes to the back of the queue.\<close>

lemma rotate_refines:
  assumes inv: "sched_inv k" and q: "k_queue k = r # q" and c: "k_current k = Some c"
    and k': "proc_state k' = (proc_state k)(c := Ready, r := Running)" "k_queue k' = q @ [c]" "k_current k' = Some r"
      "k_nprocs k' = k_nprocs k" "k_table k' = k_table k" "k_idle k' = k_idle k"
      "k_current_pid k' = p_pid (k_procs k' r)" "\<And>x. k_proc_rc k x + of_bool (x = r) \<le> k_proc_rc k' x + of_bool (x = r)"
  shows "refines k [r] k'"
proof -
  obtain i where ci: "arc_ok k" "k_idle k = Some i" using sched_invD [OF inv] .
  have "rr_step (rr_of k) [r] ((rr_of k)\<lparr> rr_st := (rr_st (rr_of k))(rr_cur (rr_of k) := Ready, r := Running),
      rr_q := q @ [rr_cur (rr_of k)], rr_cur := r \<rparr>)"
    using q by (intro rr_step.rotate) simp
  also have "((rr_of k)\<lparr> rr_st := (rr_st (rr_of k))(rr_cur (rr_of k) := Ready, r := Running),
      rr_q := q @ [rr_cur (rr_of k)], rr_cur := r \<rparr>) = rr_of k'"
    by (rule rr_eqI) (simp_all add: k' c)
  finally have st: "rr_step (rr_of k) [r] (rr_of k')" .
  have "refs k' x \<le> k_proc_rc k' x" for x
    using refs_le [OF ci(1), of x] k'(8) [of x] by (auto simp: refs_def k' q c split: if_splits)
  then have "arc_ok k'" using k' by (intro arc_ok_same [OF ci(1)]) simp_all
  then show ?thesis using inv st k' by (intro refinesI) auto
qed

lemma timer_tick_refines:
  assumes inv: "sched_inv k"
  shows "\<exists>rsp' k'. timer_tick_schedule rsp k = Some (rsp', k') \<and> refines k (take 1 (k_queue k)) k'"
proof (cases "k_queue k")
  case Nil
  then show ?thesis using refines_refl [OF inv] by (simp add: timer_tick_schedule_def)
next
  case (Cons r q)
  obtain c i where ci: "k_current k = Some c" "proc_state k c = Running" "c \<notin> set (k_queue k)" "arc_ok k"
    using sched_invD [OF inv] by metis
  have rc: "0 < k_proc_rc k c" using refs_le [OF ci(4), of c] by (simp add: refs_def ci(1))
  let ?k1 = "preempt c (upd_proc c (p_saved_kernel_rsp_update (\<lambda>_. rsp)) (k\<lparr> k_queue := q \<rparr>))"
  let ?k2 = "(dispatch_to r ?k1)\<lparr> k_current := Some r \<rparr>"
  let ?k3 = "?k2\<lparr> k_proc_rc := (k_proc_rc ?k2)(c := k_proc_rc ?k2 c - 1) \<rparr>"
  have k1: "?k1 = add_task c (proc_clone c (set_state c Ready (upd_proc c (p_saved_kernel_rsp_update (\<lambda>_. rsp)) (k\<lparr> k_queue := q \<rparr>))))"
    using ci by (simp add: preempt_def)
  have "1 < k_proc_rc ?k2 c" using rc by (simp add: k1)
  then have "timer_tick_schedule rsp k = Some (p_saved_kernel_rsp (k_procs (dispatch_to r ?k1) r), ?k3)"
    using Cons ci proc_drop_shared [of ?k2 c] by (simp add: timer_tick_schedule_def Let_def)
  moreover have "refines k [r] ?k3"
    by (rule rotate_refines [OF inv Cons ci(1)]) (auto simp: k1 fun_eq_iff)
  ultimately show ?thesis using Cons by simp
qed

lemma schedule_yield_refines:
  assumes inv: "sched_inv k"
  shows "refines k (take 1 (k_queue k)) (snd (schedule_yield rsp k))"
proof (cases "k_queue k")
  case Nil
  then show ?thesis using refines_refl [OF inv] by (simp add: schedule_yield_def split: option.split)
next
  case (Cons r q)
  obtain c i where ci: "k_current k = Some c" "proc_state k c = Running" using sched_invD [OF inv] by metis
  let ?k1 = "preempt c (k\<lparr> k_queue := q \<rparr>)"
  have k1: "?k1 = add_task c (proc_clone c (set_state c Ready (k\<lparr> k_queue := q \<rparr>)))"
    using ci by (simp add: preempt_def)
  have "snd (schedule_yield rsp k) = switch_tasks c rsp ((dispatch_to r ?k1)\<lparr> k_current := Some r \<rparr>)"
    using Cons ci by (simp add: schedule_yield_def Let_def)
  moreover have "refines k [r] (switch_tasks c rsp ((dispatch_to r ?k1)\<lparr> k_current := Some r \<rparr>))"
    by (rule rotate_refines [OF inv Cons ci(1)]) (auto simp: k1 fun_eq_iff)
  ultimately show ?thesis using Cons by simp
qed

text \<open>Leaving the CPU: the outgoing task is blocked or a zombie, the next one or the idle task runs.\<close>

lemma switch_out_refines:
  assumes inv: "sched_inv k" and c: "k_current k = Some c" "k_idle k \<noteq> Some c"
    and f: "p_state (f (k_procs k c)) = st" "st = Blocked \<or> st = Zombie"
  shows "refines k (take 1 (k_queue k)) (snd (switch_out_current rsp (upd_proc c f k)))"
proof -
  obtain i where i: "k_idle k = Some i" "i < k_nprocs k" "c \<notin> set (k_queue k)" "arc_ok k"
    using sched_invD [OF inv] c(1) by (metis option.inject)
  have ic: "i \<noteq> c" using c(2) i(1) by simp
  have step: "refines k ds k'"
    if st: "rr_step (rr_of k) ds (rr_of k')" and k': "k_current k' = Some x" "k_idle k' = k_idle k"
      "k_current_pid k' = p_pid (k_procs k' x)" "k_table k' = k_table k" "k_nprocs k' = k_nprocs k"
      "\<And>y. refs k' y \<le> k_proc_rc k' y" for ds k' x
  proof -
    have "arc_ok k'" by (rule arc_ok_same [OF i(4) k'(4,5,6)])
    then show ?thesis using refinesI [OF inv st] k' by simp
  qed
  show ?thesis
  proof (cases "k_queue k")
    case Nil
    let ?k = "switch_tasks c rsp ((dispatch_to i (proc_clone i (upd_proc c f k)))\<lparr> k_current := Some i \<rparr>)"
    have out: "snd (switch_out_current rsp (upd_proc c f k)) = ?k"
      using Nil c i by (simp add: switch_out_current_def next_or_idle_def Let_def)
    have "rr_step (rr_of k) [] ((rr_of k)\<lparr> rr_st := (rr_st (rr_of k))(rr_cur (rr_of k) := st, rr_idle (rr_of k) := Running),
        rr_cur := rr_idle (rr_of k) \<rparr>)"
      using Nil f(2) ic by (intro rr_step.rest) (simp_all add: c i)
    also have "((rr_of k)\<lparr> rr_st := (rr_st (rr_of k))(rr_cur (rr_of k) := st, rr_idle (rr_of k) := Running),
        rr_cur := rr_idle (rr_of k) \<rparr>) = rr_of ?k"
      using ic f(1) by (intro rr_eqI) (auto simp: c i fun_eq_iff)
    finally have "refines k [] ?k"
    proof (rule step [where x = i])
      show "refs ?k y \<le> k_proc_rc ?k y" for y
        using refs_le [OF i(4), of y] ic by (auto simp: refs_def c i Nil)
    qed (simp_all add: ic)
    then show ?thesis using Nil out by simp
  next
    case (Cons r q)
    let ?k = "switch_tasks c rsp ((dispatch_to r ((upd_proc c f k)\<lparr> k_queue := q \<rparr>))\<lparr> k_current := Some r \<rparr>)"
    have out: "snd (switch_out_current rsp (upd_proc c f k)) = ?k"
      using Cons c i by (simp add: switch_out_current_def next_or_idle_def Let_def)
    have rc: "r \<noteq> c" using i(3) Cons by auto
    have "rr_step (rr_of k) [r] ((rr_of k)\<lparr> rr_st := (rr_st (rr_of k))(rr_cur (rr_of k) := st, r := Running),
        rr_q := q, rr_cur := r \<rparr>)"
      using Cons f(2) ic by (intro rr_step.leave) (simp_all add: c i)
    also have "((rr_of k)\<lparr> rr_st := (rr_st (rr_of k))(rr_cur (rr_of k) := st, r := Running), rr_q := q, rr_cur := r \<rparr>) = rr_of ?k"
      using f(1) by (intro rr_eqI) (auto simp: c i fun_eq_iff)
    finally have "refines k [r] ?k"
    proof (rule step [where x = r])
      show "refs ?k y \<le> k_proc_rc ?k y" for y
        using refs_le [OF i(4), of y] by (auto simp: refs_def c i Cons)
    qed simp_all
    then show ?thesis using Cons out by simp
  qed
qed

lemma block_current_refines:
  assumes inv: "sched_inv k" and c: "k_current k \<noteq> k_idle k"
  shows "refines k (take 1 (k_queue k)) (snd (block_current rsp k))"
proof -
  obtain c where c': "k_current k = Some c" "proc_state k c = Running" using sched_invD [OF inv] by metis
  have "block_current rsp k = switch_out_current rsp (upd_proc c (p_state_update (\<lambda>_. Blocked)) k)"
    using c' by (simp add: block_current_def mark_current_blocked_def set_state_def)
  then show ?thesis using switch_out_refines [OF inv c'(1), of "p_state_update (\<lambda>_. Blocked)" Blocked rsp] c c' by simp
qed

text \<open>Waking does not interfere with an update of a process that is not blocked.\<close>

lemma wake_one_upd_proc:
  assumes "proc_state k c \<noteq> Blocked" "p_state (f (k_procs k c)) \<noteq> Blocked"
  shows "wake_one pid (upd_proc c f k) = upd_proc c f (wake_one pid k)"
  using assms
  by (auto simp: wake_one_def set_state_def add_task_def proc_clone_def upd_proc_def fun_upd_twist split: option.split)

lemma wake_one_proc: "proc_state k c \<noteq> Blocked \<Longrightarrow> k_procs (wake_one pid k) c = k_procs k c"
  by (auto simp: wake_one_def split: option.split)

lemma wake_tasks_upd_proc:
  assumes "proc_state k c \<noteq> Blocked" "p_state (f (k_procs k c)) \<noteq> Blocked"
  shows "wake_tasks pids (upd_proc c f k) = upd_proc c f (wake_tasks pids k)"
  using assms
proof (induction pids arbitrary: k)
  case (Cons pid pids)
  have "k_procs (wake_one pid k) c = k_procs k c" using Cons.prems(1) by (rule wake_one_proc)
  then show ?case using Cons by (simp add: wake_tasks_def wake_one_upd_proc)
qed (simp add: wake_tasks_def)

lemma wake_tasks_proc: "proc_state k c \<noteq> Blocked \<Longrightarrow> k_procs (wake_tasks pids k) c = k_procs k c"
  unfolding wake_tasks_def by (induction pids arbitrary: k) (simp_all add: wake_one_proc)

lemma wake_rc: "proc_state k c \<noteq> Blocked \<Longrightarrow> k_proc_rc (wake_tasks pids k) c = k_proc_rc k c"
proof (induction pids arbitrary: k)
  case (Cons pid pids)
  have "k_proc_rc (wake_one pid k) c = k_proc_rc k c" using Cons.prems by (auto simp: wake_one_def split: option.split)
  moreover have "proc_state (wake_one pid k) c \<noteq> Blocked" using Cons.prems wake_one_proc [of k c pid] by simp
  ultimately show ?case using Cons.IH [of "wake_one pid k"] by (simp add: wake_tasks_def)
qed (simp add: wake_tasks_def)

lemma wake_tasks_simps [simp]:
  "k_nprocs (wake_tasks pids k) = k_nprocs k" "k_table (wake_tasks pids k) = k_table k"
  "k_current (wake_tasks pids k) = k_current k" "k_idle (wake_tasks pids k) = k_idle k"
  "k_current_pid (wake_tasks pids k) = k_current_pid k"
  unfolding wake_tasks_def by (induction pids arbitrary: k) simp_all

text \<open>Operations that leave the scheduler's view alone.\<close>

lemma rr_of_view: "sched_view k = sched_view k' \<Longrightarrow> rr_of k = rr_of k'"
  by (auto simp: sched_view_def rr_of_def fun_eq_iff)

lemma refines_view: "sched_inv k \<Longrightarrow> sched_view k = sched_view k' \<Longrightarrow> refines k [] k'"
proof -
  assume inv: "sched_inv k" and v: "sched_view k = sched_view k'"
  have "refs k r = refs k' r" for r using v by (simp add: refs_def sched_view_def)
  then have "sched_inv k' = sched_inv k"
    using v by (auto simp: sched_inv_def rr_of_view [OF v] arc_ok_def sched_view_def fun_eq_iff)
  then show ?thesis
    using inv rr_run.start [of "rr_of k"] v by (simp add: refines_def rr_of_view [OF v] sched_view_def)
qed

lemma wake_tasks_after_view:
  "sched_inv k \<Longrightarrow> sched_view k = sched_view k' \<Longrightarrow> refines k [] (wake_tasks pids k')"
  using refines_trans [OF refines_view wake_tasks_refines [OF refines_inv [OF refines_view]], of k k'] by simp

lemma handle_drop_wakes: "\<exists>k' pids. handle_drop h k = wake_tasks pids k' \<and> sched_view k = sched_view k'"
  by (auto simp: handle_drop_def Let_def PipeReadEnd_drop_def PipeWriteEnd_drop_def drain_all_def sched_view_def
      split: Inode.split) (auto intro!: exI [of _ "[]"] simp: wake_tasks_def)

lemma handle_drop_refines: assumes inv: "sched_inv k" shows "refines k [] (handle_drop h k)"
  using handle_drop_wakes [of h k] wake_tasks_after_view [OF inv] by auto

lemma handles_drop_refines: "sched_inv k \<Longrightarrow> refines k [] (fold handle_drop hs k)"
proof (induction hs arbitrary: k)
  case (Cons h hs)
  have h: "refines k [] (handle_drop h k)" using Cons.prems by (rule handle_drop_refines)
  from refines_trans [OF h Cons.IH [OF refines_inv [OF h]]] show ?case by simp
qed (simp add: refines_refl)

lemma vm_drop_view: "vm_drop vm k = Some k' \<Longrightarrow> sched_view k = sched_view k'"
  by (auto simp: vm_drop_def sched_view_def split: prod.splits vm_result.splits)

text \<open>Dropping a reference that is not one of the counted ones.\<close>

lemma proc_drop_last:
  "k_proc_rc k r \<le> 1 \<Longrightarrow> proc_drop r k =
    (let k2 = fold handle_drop (map the (filter (\<lambda>s. s \<noteq> None) (p_fds (k_procs k r))))
       (k\<lparr> k_proc_rc := (k_proc_rc k)(r := k_proc_rc k r - 1) \<rparr>)
     in case p_vm_space (k_procs k r) of None \<Rightarrow> Some k2 | Some vm \<Rightarrow> vm_drop vm k2)"
  by (simp add: proc_drop_def Let_def)

lemma proc_drop_refines:
  assumes inv: "sched_inv (k\<lparr> k_proc_rc := (k_proc_rc k)(r := k_proc_rc k r - 1) \<rparr>)" and d: "proc_drop r k = Some k'"
  shows "refines (k\<lparr> k_proc_rc := (k_proc_rc k)(r := k_proc_rc k r - 1) \<rparr>) [] k'"
proof (cases "k_proc_rc k r \<le> 1")
  case True
  define k1 where "k1 = k\<lparr> k_proc_rc := (k_proc_rc k)(r := k_proc_rc k r - 1) \<rparr>"
  define k2 where "k2 = fold handle_drop (map the (filter (\<lambda>s. s \<noteq> None) (p_fds (k_procs k r)))) k1"
  have h: "refines k1 [] k2" using inv unfolding k2_def k1_def by (rule handles_drop_refines)
  have d': "(case p_vm_space (k_procs k r) of None \<Rightarrow> Some k2 | Some vm \<Rightarrow> vm_drop vm k2) = Some k'"
    using d unfolding proc_drop_last [OF True] Let_def k1_def [symmetric] k2_def [symmetric] .
  have "sched_view k2 = sched_view k'"
    using d' vm_drop_view by (cases "p_vm_space (k_procs k r)") auto
  then have "refines k2 [] k'" using refines_view [OF refines_inv [OF h]] by blast
  from refines_trans [OF h this] show ?thesis by (simp add: k1_def)
next
  case False
  then have "proc_drop r k = Some (k\<lparr> k_proc_rc := (k_proc_rc k)(r := k_proc_rc k r - 1) \<rparr>)"
    by (intro proc_drop_shared) simp
  then show ?thesis using d refines_refl [OF inv] by simp
qed

lemma reap_refines:
  assumes inv: "sched_inv k" and d: "bt_get (k_table k) pid = Some r"
    "proc_drop r (k\<lparr> k_table := bt_remove pid (k_table k) \<rparr>) = Some k'"
  shows "refines k [] k'"
proof -
  let ?t = "k\<lparr> k_table := bt_remove pid (k_table k) \<rparr>"
  let ?k = "?t\<lparr> k_proc_rc := (k_proc_rc ?t)(r := k_proc_rc ?t r - 1) \<rparr>"
  have arc: "arc_ok k" using inv by (simp add: sched_inv_def)
  then have ok: "bt_ok (k_table k)" by (simp add: arc_ok_def)
  have "refs ?k x \<le> k_proc_rc ?k x" for x
    using refs_le [OF arc, of x] count_bt_remove [OF ok, of pid x] d(1) by (auto simp: refs_def)
  then have "arc_ok ?k" using arc set_bt_remove_subset [of pid "k_table k"] by (auto simp: arc_ok_def)
  moreover have rr: "rr_of ?k = rr_of k" by (simp add: rr_of_def)
  ultimately have inv': "sched_inv ?k" using inv unfolding sched_inv_def rr by simp
  have "refines k [] ?k" using inv' rr_run.start [of "rr_of k"] unfolding refines_def rr by simp
  from refines_trans [OF this proc_drop_refines [OF inv' d(2)]] show ?thesis by simp
qed

text \<open>A new task enters the table and the queue.\<close>

definition spawn_task :: "i32 \<Rightarrow> Process \<Rightarrow> kernel \<Rightarrow> kernel option" where
  "spawn_task pid p k =
    (let (r, k) = proc_alloc p k in map_option (add_task r) (table_insert pid r (proc_clone r k)))"

lemma spawn_refines:
  assumes inv: "sched_inv k" and p: "p_state p = Ready"
    and old: "\<And>old. bt_get (k_table k) pid = Some old \<Longrightarrow> 1 < k_proc_rc k old"
  shows "\<exists>k'. spawn_task pid p k = Some k' \<and> refines k [] k'"
proof -
  let ?n = "k_nprocs k"
  obtain c i where ci: "k_current k = Some c" "k_idle k = Some i" "c < ?n" "i < ?n" "arc_ok k" "rr_ok (rr_of k)"
    using sched_invD [OF inv] by metis
  have ok: "bt_ok (k_table k)" and tab: "\<And>e. e \<in> set (k_table k) \<Longrightarrow> snd e < ?n" using ci(5) by (auto simp: arc_ok_def)
  define dec where "dec = (case bt_get (k_table k) pid of None \<Rightarrow> id | Some old \<Rightarrow> (\<lambda>f. f(old := f old - 1 :: nat)))"
  define k' where "k' = k\<lparr> k_procs := (k_procs k)(?n := p), k_proc_rc := dec ((k_proc_rc k)(?n := Suc (Suc 0))),
     k_nprocs := Suc ?n, k_table := bt_insert pid ?n (k_table k), k_queue := k_queue k @ [?n] \<rparr>"
  have old': "bt_get (k_table k) pid = Some old \<Longrightarrow> old \<noteq> ?n \<and> 1 < k_proc_rc k old" for old
    using old bt_get_in_set [of "k_table k" pid old] tab by fastforce
  have "spawn_task pid p k = Some k'"
    using old' by (auto simp: spawn_task_def proc_alloc_def table_insert_def Let_def proc_drop_def proc_clone_def
        add_task_def k'_def dec_def split: option.split)
  moreover have "refines k [] k'"
  proof (rule refinesI [OF inv])
    have "rr_step (rr_of k) [] ((rr_of k)\<lparr> rr_n := Suc (rr_n (rr_of k)), rr_st := (rr_st (rr_of k))(rr_n (rr_of k) := Ready),
        rr_q := rr_q (rr_of k) @ [rr_n (rr_of k)] \<rparr>)" by (rule rr_step.spawn)
    also have "((rr_of k)\<lparr> rr_n := Suc (rr_n (rr_of k)), rr_st := (rr_st (rr_of k))(rr_n (rr_of k) := Ready),
        rr_q := rr_q (rr_of k) @ [rr_n (rr_of k)] \<rparr>) = rr_of k'"
      by (rule rr_eqI) (auto simp: k'_def p fun_eq_iff)
    finally show "rr_step (rr_of k) [] (rr_of k')" .
    have "?n \<notin> set (k_queue k)" using rr_okD(6) [OF ci(6), of ?n] by auto
    moreover have "?n \<notin> set (map snd (k_table k))" using tab by force
    ultimately have n0: "count_list (k_queue k) ?n = 0" "count_list (map snd (k_table k)) ?n = 0" by simp_all
    have "refs k' x \<le> k_proc_rc k' x" for x
      using refs_le [OF ci(5), of x] count_bt_insert [OF ok, of pid ?n x] n0 ci old'
      by (auto simp: refs_def k'_def dec_def split: option.splits if_splits)
    moreover have "snd e < Suc ?n" if "e \<in> set (bt_insert pid ?n (k_table k))" for e
      using that tab [of e] set_bt_insert_subset [of pid ?n "k_table k"] by (auto simp: less_Suc_eq)
    ultimately show "arc_ok k'" using ok by (simp add: arc_ok_def k'_def)
    show "k_current_pid k' = p_pid (k_procs k' (the (k_current k')))"
      using inv ci by (simp add: k'_def sched_inv_def)
  qed (simp_all add: k'_def ci)
  ultimately show ?thesis by blast
qed

subsection \<open>Runs of the scheduler\<close>

text \<open>
  The steps of the kernel as the scheduler sees them: a timer interrupt, a voluntary yield, blocking,
  waking, creation, termination and reaping of tasks, and any other work, which leaves the scheduler's
  view alone. The idle task never blocks or terminates.
\<close>

inductive sched_step :: "kernel \<Rightarrow> nat list \<Rightarrow> kernel \<Rightarrow> bool" where
  tick: "timer_tick_schedule rsp k = Some (rsp', k') \<Longrightarrow> sched_step k (take 1 (k_queue k)) k'"
| yield: "sched_step k (take 1 (k_queue k)) (snd (schedule_yield rsp k))"
| block: "k_current k \<noteq> k_idle k \<Longrightarrow> sched_step k (take 1 (k_queue k)) (snd (block_current rsp k))"
| wake: "sched_step k [] (wake_tasks pids k)"
| spawn: "p_state p = Ready \<Longrightarrow> (\<And>old. bt_get (k_table k) pid = Some old \<Longrightarrow> 1 < k_proc_rc k old) \<Longrightarrow>
    spawn_task pid p k = Some k' \<Longrightarrow> sched_step k [] k'"
| terminate: "k_current k = Some c \<Longrightarrow> k_idle k \<noteq> Some c \<Longrightarrow> p_state (f (k_procs k c)) = Zombie \<Longrightarrow>
    k1 = wake_tasks pids (upd_proc c f k) \<Longrightarrow> sched_step k (take 1 (k_queue k1)) (snd (switch_out_current rsp k1))"
| reap: "bt_get (k_table k) pid = Some r \<Longrightarrow>
    proc_drop r (k\<lparr> k_table := bt_remove pid (k_table k) \<rparr>) = Some k' \<Longrightarrow> sched_step k [] k'"
| work: "sched_view k' = sched_view k \<Longrightarrow> sched_step k [] k'"

inductive sched_run :: "kernel \<Rightarrow> nat list \<Rightarrow> kernel \<Rightarrow> bool" where
  start: "sched_run k [] k"
| step: "sched_run k ds k' \<Longrightarrow> sched_step k' es k'' \<Longrightarrow> sched_run k (ds @ es) k''"

lemma terminate_refines_queue:
  assumes inv: "sched_inv k" and c: "k_current k = Some c" "k_idle k \<noteq> Some c"
    and f: "p_state (f (k_procs k c)) = Zombie" and k1: "k1 = wake_tasks pids (upd_proc c f k)"
  shows "refines k (take 1 (k_queue k1)) (snd (switch_out_current rsp k1))"
proof -
  have run: "proc_state k c = Running" using sched_invD [OF inv] c(1) by (metis option.inject)
  have eq: "k1 = upd_proc c f (wake_tasks pids k)"
    unfolding k1 using run f by (intro wake_tasks_upd_proc) simp_all
  have w: "refines k [] (wake_tasks pids k)" using inv by (rule wake_tasks_refines)
  have p: "k_procs (wake_tasks pids k) c = k_procs k c" using run by (intro wake_tasks_proc) simp
  have "refines (wake_tasks pids k) (take 1 (k_queue (wake_tasks pids k))) (snd (switch_out_current rsp (upd_proc c f (wake_tasks pids k))))"
    using f p c by (intro switch_out_refines [OF refines_inv [OF w], where st = Zombie]) simp_all
  from refines_trans [OF w this] show ?thesis unfolding eq by simp
qed

text \<open>The outgoing task stays a zombie with all its references counted, and the tables are untouched.\<close>

lemma terminate_zombie:
  assumes inv: "sched_inv k" and c: "k_current k = Some c" "k_idle k \<noteq> Some c"
    and f: "p_state (f (k_procs k c)) = Zombie" and k': "k' = snd (switch_out_current rsp (wake_tasks pids (upd_proc c f k)))"
  shows "proc_state k' c = Zombie \<and> k_table k' = k_table k \<and> k_proc_rc k' c = k_proc_rc k c"
proof -
  have run: "proc_state k c = Running" using sched_invD [OF inv] c(1) by (metis option.inject)
  have eq: "wake_tasks pids (upd_proc c f k) = upd_proc c f (wake_tasks pids k)"
    using run f by (intro wake_tasks_upd_proc) simp_all
  have i2: "sched_inv (wake_tasks pids k)" using wake_tasks_refines [OF inv] by (rule refines_inv)
  then have q: "c \<notin> set (k_queue (wake_tasks pids k))" using sched_invD [OF i2] c(1) by (metis option.inject wake_tasks_simps(3))
  have p: "k_procs (wake_tasks pids k) c = k_procs k c" using run by (intro wake_tasks_proc) simp
  have rc: "k_proc_rc (wake_tasks pids k) c = k_proc_rc k c" using run by (intro wake_rc) simp
  show ?thesis unfolding k' eq
    using c q p rc f i2 by (auto simp: switch_out_current_def next_or_idle_def Let_def sched_inv_def split: option.split list.split)
qed

lemma sched_step_refines: "sched_step k ds k' \<Longrightarrow> sched_inv k \<Longrightarrow> refines k ds k'"
proof (induction rule: sched_step.induct)
  case (tick rsp k rsp' k')
  then show ?case using timer_tick_refines [OF tick(2), of rsp] by auto
next
  case (yield k rsp)
  then show ?case by (rule schedule_yield_refines)
next
  case (block k rsp)
  then show ?case using block_current_refines by blast
next
  case (spawn p k pid k')
  then show ?case using spawn_refines [OF spawn(4,1), of pid] by auto
next
  case (terminate k c f k1 pids rsp)
  then show ?case using terminate_refines_queue [OF terminate(5,1,2), of f k1 pids rsp] by simp
next
  case (work k' k)
  then show ?case using refines_view by simp
qed (auto intro: wake_tasks_refines reap_refines)

lemma sched_run_refines: "sched_run k ds k' \<Longrightarrow> sched_inv k \<Longrightarrow> refines k ds k'"
proof (induction rule: sched_run.induct)
  case (step k ds k' es k'')
  have r: "refines k ds k'" using step by blast
  from refines_trans [OF r sched_step_refines [OF step(2) refines_inv [OF r]]] show ?case .
qed (rule refines_refl)

subsection \<open>Lost processes\<close>

text \<open>
  A process that is off the CPU and not queued can only come back through \<open>wake_tasks\<close>, which acts on
  blocked processes in the process table. In any other state, or outside the table, it is lost.
\<close>

definition lost :: "kernel \<Rightarrow> nat \<Rightarrow> bool" where
  "lost k r \<longleftrightarrow> r < k_nprocs k \<and> k_current k \<noteq> Some r \<and> k_idle k \<noteq> Some r \<and> r \<notin> set (k_queue k)
     \<and> (proc_state k r \<noteq> Blocked \<or> (\<forall>e \<in> set (k_table k). snd e \<noteq> r))"

lemma lost_view: "sched_view k' = sched_view k \<Longrightarrow> lost k' r = lost k r"
  by (simp add: lost_def sched_view_def fun_eq_iff)

lemma lost_wake: "lost k r \<Longrightarrow> lost (wake_tasks pids k) r"
proof -
  have "lost k r \<Longrightarrow> lost (wake_one pid k) r" for pid k
    by (fastforce simp: lost_def wake_one_def split: option.split dest: bt_get_in_set)
  then show "lost k r \<Longrightarrow> lost (wake_tasks pids k) r"
    unfolding wake_tasks_def by (induction pids arbitrary: k) simp_all
qed

lemma lost_handles_drop: "lost k r \<Longrightarrow> lost (fold handle_drop hs k) r"
proof (induction hs arbitrary: k)
  case (Cons h hs)
  obtain k' pids where "handle_drop h k = wake_tasks pids k'" "sched_view k = sched_view k'"
    using handle_drop_wakes by blast
  then have "lost (handle_drop h k) r" using Cons.prems lost_wake lost_view by metis
  then show ?case using Cons.IH by simp
qed simp

lemma lost_proc_drop: assumes "proc_drop x k = Some k'" "lost k r" shows "lost k' r"
proof -
  let ?k = "k\<lparr> k_proc_rc := (k_proc_rc k)(x := k_proc_rc k x - 1) \<rparr>"
  have l: "lost ?k r" using assms(2) by (simp add: lost_def)
  then have l2: "lost (fold handle_drop hs ?k) r" for hs by (rule lost_handles_drop)
  show ?thesis
  proof (cases "k_proc_rc k x \<le> 1")
    case True
    then show ?thesis using assms(1) l2 lost_view [OF vm_drop_view [symmetric]]
      unfolding proc_drop_last [OF True] Let_def by (auto split: option.splits)
  next
    case False
    then show ?thesis using assms(1) l by (simp add: proc_drop_shared)
  qed
qed

lemma lost_switch: "lost k r \<Longrightarrow> lost (snd (switch_out_current rsp k)) r \<and> r \<notin> set (take 1 (k_queue k))"
  by (auto simp: switch_out_current_def next_or_idle_def lost_def Let_def switch_tasks_def
      split: option.splits list.splits dest: in_set_takeD)

lemma lost_tick:
  assumes l: "lost k r" and t: "timer_tick_schedule rsp k = Some (rsp', k')"
  shows "lost k' r \<and> r \<notin> set (take 1 (k_queue k))"
proof (cases "k_queue k")
  case Nil
  then show ?thesis using l t by (simp add: timer_tick_schedule_def)
next
  case (Cons x q)
  define k1 where "k1 = (case k_current k of
    Some prev \<Rightarrow> preempt prev (upd_proc prev (p_saved_kernel_rsp_update (\<lambda>_. rsp)) (k\<lparr> k_queue := q \<rparr>)) | None \<Rightarrow> k\<lparr> k_queue := q \<rparr>)"
  define k2 where "k2 = (dispatch_to x k1)\<lparr> k_current := Some x \<rparr>"
  have "lost k1 r" using l Cons by (auto simp: lost_def k1_def preempt_def split: option.split)
  then have l2: "lost k2 r" using l Cons by (auto simp: lost_def k2_def)
  have "(case k_current k of Some prev \<Rightarrow> proc_drop prev k2 | None \<Rightarrow> Some k2) = Some k'"
    using t Cons by (cases "k_current k") (simp_all add: timer_tick_schedule_def Let_def k1_def k2_def)
  then have "lost k' r" using l2 lost_proc_drop by (auto split: option.splits)
  then show ?thesis using l Cons by (simp add: lost_def)
qed

lemma lost_step: "sched_step k ds k' \<Longrightarrow> lost k r \<Longrightarrow> lost k' r \<and> r \<notin> set ds"
proof (induction rule: sched_step.induct)
  case (tick rsp k rsp' k')
  then show ?case using lost_tick by blast
next
  case (yield k rsp)
  then show ?case
    by (auto simp: schedule_yield_def preempt_def lost_def Let_def switch_tasks_def
        split: option.splits list.splits dest: in_set_takeD)
next
  case (block k rsp)
  have "lost (mark_current_blocked k) r" "k_queue (mark_current_blocked k) = k_queue k"
    using block by (auto simp: mark_current_blocked_def lost_def split: option.split)
  then show ?case using lost_switch [of "mark_current_blocked k" r rsp] by (simp add: block_current_def)
next
  case (spawn p k pid k')
  define k1 where "k1 = proc_clone (k_nprocs k) (snd (proc_alloc p k))"
  have "lost k1 r" using spawn(4) by (auto simp: lost_def k1_def proc_alloc_def)
  moreover obtain k2 where k2: "table_insert pid (k_nprocs k) k1 = Some k2" "k' = add_task (k_nprocs k) k2"
    using spawn(3) by (auto simp: spawn_task_def proc_alloc_def k1_def Let_def)
  ultimately have "lost k2 r"
    using lost_proc_drop [where k' = k2, where k = "k1\<lparr> k_table := bt_insert pid (k_nprocs k) (k_table k1) \<rparr>"]
      set_bt_insert_subset [of pid "k_nprocs k" "k_table k1"] spawn(4)
    by (fastforce simp: table_insert_def Let_def lost_def split: option.splits)
  then show ?case using spawn(4) k2(2) by (auto simp: lost_def)
next
  case (terminate k c f k1 pids rsp)
  then have "lost (upd_proc c f k) r" by (auto simp: lost_def)
  then have "lost k1 r" using terminate(4) lost_wake by simp
  then show ?case using lost_switch by simp
next
  case (reap k pid x k')
  have "lost (k\<lparr> k_table := bt_remove pid (k_table k) \<rparr>) r"
    using reap(3) set_bt_remove_subset [of pid "k_table k"] by (auto simp: lost_def)
  then show ?case using lost_proc_drop [OF reap(2)] by simp
next
  case (work k' k)
  then show ?case using lost_view [OF work(1), of r] by simp
qed (simp add: lost_wake)

lemma lost_run: "sched_run k ds k' \<Longrightarrow> lost k r \<Longrightarrow> lost k' r \<and> r \<notin> set ds"
  by (induction rule: sched_run.induct) (auto dest: lost_step)

subsection \<open>Correctness of the scheduler\<close>

text \<open>The statics before boot, on a given memory.\<close>

definition kernel0 :: "mmu \<Rightarrow> kernel" where
  "kernel0 s = \<lparr> k_mm = s, k_cr3 = 0, k_stack = 0, k_procs = (\<lambda>_. Process_new 0 0 0 ''/''), k_proc_rc = (\<lambda>_. 0),
     k_nprocs = 0, k_table = [], k_next_pid = 1, k_current_pid = 1, k_queue = [], k_current = None, k_idle = None,
     k_signals = \<lparr> pending_signals = [], blocked_masks = [], signal_actions = [] \<rparr>,
     k_pipes = (\<lambda>_. \<lparr> pb_data = replicate PIPE_BUFFER_SIZE 0, pb_read_pos = 0, pb_write_pos = 0, pb_len = 0,
       pb_readers_open = 1, pb_writers_open = 1, pb_read_waiters = [], pb_write_waiters = [] \<rparr>), k_npipes = 0,
     k_inodes = (\<lambda>_. DevNull), k_ninodes = 0, k_handles = (\<lambda>_. FileHandle_new 0 0), k_handle_rc = (\<lambda>_. 0), k_nhandles = 0,
     k_root = None, k_journal = \<lparr> aj_entries = [], aj_total_logged = 0 \<rparr>, k_event_seq = 1, k_snapshot_id = 1,
     k_snapshots = [],
     k_monitor = \<lparr> sm_sample_tick = 0, sm_total_memory_bytes = 0, sm_free_memory_bytes = 0, sm_used_memory_bytes = 0,
       sm_total_heap_bytes = 0, sm_used_heap_bytes = 0, sm_total_processes = 0, sm_running_processes = 0, sm_processes = [] \<rparr>,
     k_heap_stats = (0, 0),
     k_serial = \<lparr> sp_rx_buf = replicate 2048 0, sp_rx_head = 0, sp_rx_tail = 0, sp_hw_fifo = [], sp_transmitted = [] \<rparr> \<rparr>"

text \<open>A small machine: the idle task, one running process and two ready ones.\<close>

definition demo_procs :: "nat \<Rightarrow> Process" where
  "demo_procs r = (Process_new (r * 16384) (int r) 0 ''/'')\<lparr> p_state := if r = 1 then Running else Ready \<rparr>"

definition demo_kernel :: kernel where
  "demo_kernel = (kernel0 demo_mapped)\<lparr> k_cr3 := 0, k_procs := demo_procs, k_proc_rc := (\<lambda>_. 2), k_nprocs := 4,
     k_table := [(0, 0), (1, 1), (2, 2), (3, 3)], k_next_pid := 4, k_current_pid := 1, k_queue := [2, 3],
     k_current := Some 1, k_idle := Some 0 \<rparr>"

lemma demo_kernel_inv: "sched_inv demo_kernel"
proof -
  have "r < 4 \<Longrightarrow> r = 0 \<or> r = 1 \<or> r = 2 \<or> r = 3" for r :: nat by arith
  then have "rr_ok (rr_of demo_kernel)"
    by (intro rr_okI) (auto simp: demo_kernel_def demo_procs_def split: if_splits)
  moreover have "arc_ok demo_kernel"
    by (auto simp: arc_ok_def refs_def demo_kernel_def bt_ok_def)
  ultimately show ?thesis
    by (simp add: sched_inv_def demo_kernel_def demo_procs_def Process_new_def)
qed

text \<open>
  C1: Every run of scheduler operations (timer ticks, yields, blocking, waking, creation, termination
  and reaping of tasks) from a state satisfying the invariant is a run of the abstract round-robin
  scheduler, and the invariant holds at its end: one process is running, and the ready queue contains
  exactly the ready processes other than the idle task, each once.
\<close>

theorem scheduler_refines_round_robin:
  assumes "sched_run k ds k'" and "sched_inv k"
  shows "rr_run (rr_of k) ds (rr_of k') \<and> sched_inv k'
    \<and> (\<exists>c. k_current k' = Some c \<and> (\<forall>r < k_nprocs k'. proc_state k' r = Running \<longleftrightarrow> r = c))
    \<and> distinct (k_queue k')
    \<and> (\<forall>r < k_nprocs k'. k_idle k' \<noteq> Some r \<longrightarrow> (r \<in> set (k_queue k') \<longleftrightarrow> proc_state k' r = Ready))"
proof -
  have r: "refines k ds k'" by (rule sched_run_refines [OF assms])
  then have inv: "sched_inv k'" by (rule refines_inv)
  obtain c i where ci: "k_current k' = Some c" "k_idle k' = Some i" "rr_ok (rr_of k')"
    using sched_invD [OF inv] by metis
  note D = rr_okD [OF ci(3), simplified, unfolded ci option.sel]
  have "\<forall>x < k_nprocs k'. proc_state k' x = Running \<longleftrightarrow> x = c" using D(3,4) by blast
  moreover have "x \<in> set (k_queue k') \<longleftrightarrow> proc_state k' x = Ready" if "x < k_nprocs k'" "x \<noteq> i" for x
    using D(7,8) that by blast
  then have "\<forall>x < k_nprocs k'. k_idle k' \<noteq> Some x \<longrightarrow> (x \<in> set (k_queue k') \<longleftrightarrow> proc_state k' x = Ready)"
    unfolding ci(2) by blast
  ultimately show ?thesis using r inv ci(1) D(5) unfolding refines_def by blast
qed

theorem scheduler_refines_round_robin_witness:
  "\<exists>k'. timer_tick_schedule 4096 demo_kernel = Some (p_saved_kernel_rsp (demo_procs 2), k')
    \<and> rr_run (rr_of demo_kernel) [2] (rr_of k') \<and> k_queue k' = [3, 1]"
proof -
  obtain k' where t: "timer_tick_schedule 4096 demo_kernel = Some (p_saved_kernel_rsp (demo_procs 2), k')"
    and q: "k_queue k' = [3, 1]"
    by (auto simp: timer_tick_schedule_def demo_kernel_def Let_def preempt_def demo_procs_def proc_drop_def)
  have "sched_run demo_kernel ([] @ take 1 (k_queue demo_kernel)) k'"
    by (rule sched_run.step [OF sched_run.start sched_step.tick [OF t]])
  then have "sched_run demo_kernel [2] k'" by (simp add: demo_kernel_def)
  from scheduler_refines_round_robin [OF this demo_kernel_inv] t q show ?thesis by blast
qed

text \<open>
  C32: Scheduling is first in, first out and starvation-free: in every run from a well-formed state,
  the process at position \<open>j\<close> of the ready queue is the \<open>j+1\<close>-st one taken from the queue, whatever
  other processes block, wake, terminate or are created in between. A timer tick never fails and always
  takes the head of a non-empty queue.
\<close>

theorem round_robin_fair:
  assumes "sched_inv k"
  shows "(\<forall>ds k' j. sched_run k ds k' \<longrightarrow> j < length (k_queue k) \<longrightarrow> j < length ds \<longrightarrow> ds ! j = k_queue k ! j)
    \<and> (\<exists>rsp' k'. timer_tick_schedule rsp k = Some (rsp', k')
        \<and> (k_queue k \<noteq> [] \<longrightarrow> k_current k' = Some (hd (k_queue k)) \<and> rsp' = p_saved_kernel_rsp (k_procs k (hd (k_queue k)))))"
proof
  have "ds ! j = k_queue k ! j" if run: "sched_run k ds k'" and j: "j < length (k_queue k)" "j < length ds" for ds k' j
  proof -
    have "rr_run (rr_of k) ds (rr_of k')" using sched_run_refines [OF run assms] by (simp add: refines_def)
    from rr_run_fifo [OF this] obtain new where "ds @ k_queue k' = k_queue k @ new" by auto
    then show ?thesis using j by (metis nth_append)
  qed
  then show "\<forall>ds k' j. sched_run k ds k' \<longrightarrow> j < length (k_queue k) \<longrightarrow> j < length ds \<longrightarrow> ds ! j = k_queue k ! j" by blast
next
  obtain rsp' k' where t: "timer_tick_schedule rsp k = Some (rsp', k')" using timer_tick_refines [OF assms] by blast
  obtain c where c: "k_current k = Some c" "c \<notin> set (k_queue k)" "proc_state k c = Running" "arc_ok k"
    using sched_invD [OF assms] by metis
  have "0 < k_proc_rc k c" using refs_le [OF c(4), of c] c(1) by (simp add: refs_def)
  then have "k_queue k \<noteq> [] \<longrightarrow> k_current k' = Some (hd (k_queue k)) \<and> rsp' = p_saved_kernel_rsp (k_procs k (hd (k_queue k)))"
    using t c by (auto simp: timer_tick_schedule_def Let_def preempt_def proc_drop_shared split: list.splits)
  then show "\<exists>rsp' k'. timer_tick_schedule rsp k = Some (rsp', k')
      \<and> (k_queue k \<noteq> [] \<longrightarrow> k_current k' = Some (hd (k_queue k)) \<and> rsp' = p_saved_kernel_rsp (k_procs k (hd (k_queue k))))"
    using t by blast
qed

theorem round_robin_fair_witness:
  "\<exists>rsp' k'. timer_tick_schedule 4096 demo_kernel = Some (rsp', k') \<and> k_current k' = Some 2"
proof -
  have "k_queue demo_kernel = [2, 3]" by (simp add: demo_kernel_def)
  then show ?thesis using round_robin_fair [OF demo_kernel_inv, of 4096] by auto
qed

end
