(* ===== verification/Signals.thy ===== *)
theory Signals
  imports Scheduler
begin

text \<open>
  POSIX signals: the signal manager of \<^verbatim>\<open>services/ipc/mod.rs\<close>, and the delivery of signals and the
  signal system calls of \<^verbatim>\<open>services/posix/process.rs\<close>, with the part of the timer interrupt handler of
  \<^verbatim>\<open>arch/x86_64/idt.rs\<close> that delivers signals. Results of operations that touch user memory are
  optional: \<open>None\<close> is a fault or a panic of the kernel itself.
\<close>

subsection \<open>The signal manager\<close>

definition sig_bit :: "i32 \<Rightarrow> u64" where
  "sig_bit sig = push_bit (nat (sig - 1)) 1"

definition sig_valid :: "i32 \<Rightarrow> bool" where
  "sig_valid sig \<longleftrightarrow> SIG_MIN \<le> sig \<and> sig \<le> SIG_MAX"

definition send_signal :: "i32 \<Rightarrow> i32 \<Rightarrow> kernel \<Rightarrow> unit kres \<times> kernel" where
  "send_signal pid sig k =
    (if pid \<le> 0 \<or> \<not> sig_valid sig then (Err EINVAL, k)
     else if bt_get (k_table k) pid = None then (Err ESRCH, k)
     else
       let sm = k_signals k;
           pend = bt_get_or 0 (pending_signals sm) pid OR sig_bit sig;
           k = k\<lparr> k_signals := sm\<lparr> pending_signals := bt_insert pid pend (pending_signals sm) \<rparr> \<rparr>
       in (Ok (), wake_tasks [pid] k))"

definition get_pending :: "SignalManager \<Rightarrow> i32 \<Rightarrow> u64" where
  "get_pending sm pid = bt_get_or 0 (pending_signals sm) pid"

definition clear_pending :: "i32 \<Rightarrow> i32 \<Rightarrow> SignalManager \<Rightarrow> SignalManager" where
  "clear_pending pid sig sm =
    (if sig_valid sig then
       (case bt_get (pending_signals sm) pid of
          Some m \<Rightarrow> sm\<lparr> pending_signals := bt_insert pid (m AND NOT (sig_bit sig)) (pending_signals sm) \<rparr>
        | None \<Rightarrow> sm)
     else sm)"

definition get_procmask :: "SignalManager \<Rightarrow> i32 \<Rightarrow> SigSet" where
  "get_procmask sm pid = bt_get_or 0 (blocked_masks sm) pid"

definition has_unblocked_signals :: "SignalManager \<Rightarrow> i32 \<Rightarrow> bool" where
  "has_unblocked_signals sm pid \<longleftrightarrow> get_pending sm pid AND NOT (get_procmask sm pid) \<noteq> 0"

text \<open>As in the source, the entry of \<open>pid\<close> is created before \<open>how\<close> is examined.\<close>

definition set_procmask :: "i32 \<Rightarrow> i32 \<Rightarrow> SigSet \<Rightarrow> SignalManager \<Rightarrow> SigSet kres \<times> SignalManager" where
  "set_procmask pid how new_set sm =
    (let unblockable = sig_bit SIGKILL OR sig_bit SIGSTOP;
         effective_set = new_set AND NOT unblockable;
         old_mask = bt_get_or 0 (blocked_masks sm) pid;
         put = (\<lambda>m. sm\<lparr> blocked_masks := bt_insert pid m (blocked_masks sm) \<rparr>)
     in if how = SIG_BLOCK then (Ok old_mask, put (old_mask OR effective_set))
        else if how = SIG_UNBLOCK then (Ok old_mask, put (old_mask AND NOT effective_set))
        else if how = SIG_SETMASK then (Ok old_mask, put effective_set)
        else (Err EINVAL, put old_mask))"

definition get_action :: "SignalManager \<Rightarrow> i32 \<Rightarrow> i32 \<Rightarrow> SigAction" where
  "get_action sm pid sig =
    (if \<not> sig_valid sig then SigAction_default
     else case bt_get (signal_actions sm) pid of
       Some actions \<Rightarrow> actions ! nat sig
     | None \<Rightarrow> SigAction_default)"

definition set_action :: "i32 \<Rightarrow> i32 \<Rightarrow> SigAction \<Rightarrow> SignalManager \<Rightarrow> SigAction kres \<times> SignalManager" where
  "set_action pid sig act sm =
    (if \<not> sig_valid sig then (Err EINVAL, sm)
     else if sig = SIGKILL \<or> sig = SIGSTOP then (Err EINVAL, sm)
     else
       let actions = bt_get_or (replicate 32 SigAction_default) (signal_actions sm) pid in
       (Ok (actions ! nat sig),
        sm\<lparr> signal_actions := bt_insert pid (actions[nat sig := act]) (signal_actions sm) \<rparr>))"

definition cleanup_process :: "i32 \<Rightarrow> SignalManager \<Rightarrow> SignalManager" where
  "cleanup_process pid sm = sm\<lparr> pending_signals := bt_remove pid (pending_signals sm),
     blocked_masks := bt_remove pid (blocked_masks sm), signal_actions := bt_remove pid (signal_actions sm) \<rparr>"

subsection \<open>Access to user memory from system calls\<close>

text \<open>
  \<open>UserPtr::<T>::from_raw(addr)\<close> followed by \<open>write\<close> or \<open>read\<close>, with \<open>map_user_error\<close> on both errors.
\<close>

definition write_user :: "usize \<Rightarrow> bytes \<Rightarrow> kernel \<Rightarrow> (unit kres \<times> kernel) option" where
  "write_user addr bs k =
    (case UserPtr_from_raw (length bs) addr of
       Inl e \<Rightarrow> Some (Err (map_user_error e), k)
     | Inr p \<Rightarrow>
        (case UserPtr_write (k_cr3 k) p bs (k_mm k) of
           None \<Rightarrow> None
         | Some (Inl e, s) \<Rightarrow> Some (Err (map_user_error e), k\<lparr> k_mm := s \<rparr>)
         | Some (Inr _, s) \<Rightarrow> Some (Ok (), k\<lparr> k_mm := s \<rparr>)))"

definition read_user :: "usize \<Rightarrow> usize \<Rightarrow> kernel \<Rightarrow> bytes kres option" where
  "read_user addr len k =
    (case UserPtr_from_raw len addr of
       Inl e \<Rightarrow> Some (Err (map_user_error e))
     | Inr p \<Rightarrow>
        (case UserPtr_read (k_cr3 k) p (k_mm k) of
           None \<Rightarrow> None
         | Some (Inl e) \<Rightarrow> Some (Err (map_user_error e))
         | Some (Inr bs) \<Rightarrow> Some (Ok bs)))"

subsection \<open>Termination of the calling process\<close>

text \<open>
  The three ways a process ends. \<open>sys_exit\<close> and \<open>sys_exit_signal\<close> give the CPU away and never return;
  \<open>rsp\<close> is the kernel stack pointer at the switch.
\<close>

definition zombify :: "i32 \<Rightarrow> i32 option \<Rightarrow> Process \<Rightarrow> Process" where
  "zombify code sig p = p\<lparr> p_state := Zombie, p_exit_code := code, p_killed_by_sig := sig \<rparr>"

definition end_current :: "i32 \<Rightarrow> i32 option \<Rightarrow> kernel \<Rightarrow> kernel" where
  "end_current code sig k =
    (let (ppid, k) = (case k_current k of
           Some r \<Rightarrow> (p_ppid (k_procs k r), upd_proc r (zombify code sig) k)
         | None \<Rightarrow> (0, k))
     in if ppid > 0 then wake_tasks [ppid] k else k)"

definition sys_exit :: "i32 \<Rightarrow> usize \<Rightarrow> kernel \<Rightarrow> kernel" where
  "sys_exit code rsp k = snd (switch_out_current rsp (end_current code None k))"

definition sys_exit_signal :: "i32 \<Rightarrow> usize \<Rightarrow> kernel \<Rightarrow> kernel" where
  "sys_exit_signal sig rsp k = snd (switch_out_current rsp (end_current (sig AND 0x7F) (Some sig) k))"

definition terminate_cpu_bound_task :: "i32 \<Rightarrow> i32 \<Rightarrow> kernel \<Rightarrow> kernel" where
  "terminate_cpu_bound_task pid sig k =
    (let k = end_current (sig AND 0x7F) (Some sig) k
     in k\<lparr> k_signals := cleanup_process pid (k_signals k) \<rparr>)"

subsection \<open>Choosing a signal\<close>

definition is_default_ignore :: "i32 \<Rightarrow> bool" where
  "is_default_ignore sig \<longleftrightarrow> sig = SIGCHLD \<or> sig = SIGURG \<or> sig = SIGWINCH"

definition is_default_stop :: "i32 \<Rightarrow> bool" where
  "is_default_stop sig \<longleftrightarrow> sig = SIGSTOP \<or> sig = SIGTSTP \<or> sig = SIGTTIN \<or> sig = SIGTTOU"

text \<open>The loop over the signals still to be scanned.\<close>

fun scan_signals :: "i32 \<Rightarrow> u64 \<Rightarrow> SigSet \<Rightarrow> i32 list \<Rightarrow> SignalManager \<Rightarrow>
    (i32 \<times> SigAction \<times> SigSet) option \<times> SignalManager" where
  "scan_signals pid unblocked blocked [] sm = (None, sm)"
| "scan_signals pid unblocked blocked (sig # sigs) sm =
    (if unblocked AND sig_bit sig \<noteq> 0 then
       let action = get_action sm pid sig in
       if sa_handler action = SIG_IGN \<or> (sa_handler action = SIG_DFL \<and> is_default_ignore sig)
       then scan_signals pid unblocked blocked sigs (clear_pending pid sig sm)
       else if sa_handler action = SIG_DFL \<and> is_default_stop sig
       then scan_signals pid unblocked blocked sigs sm
       else (Some (sig, action, blocked), clear_pending pid sig sm)
     else scan_signals pid unblocked blocked sigs sm)"

definition next_unblocked_signal :: "i32 \<Rightarrow> SignalManager \<Rightarrow> (i32 \<times> SigAction \<times> SigSet) option \<times> SignalManager" where
  "next_unblocked_signal pid sm =
    (let pending = get_pending sm pid;
         blocked = get_procmask sm pid;
         unblocked = pending AND NOT blocked
     in if unblocked = 0 then (None, sm)
        else scan_signals pid unblocked blocked [SIG_MIN..SIG_MAX] sm)"

subsection \<open>Delivery\<close>

definition RED_ZONE_SIZE :: usize where [posix_consts]: "RED_ZONE_SIZE = 128"
definition USER_RFLAGS_MASK :: u64 where [posix_consts]: "USER_RFLAGS_MASK = 0xCD5"
definition USER_RFLAGS_RESERVED :: u64 where [posix_consts]: "USER_RFLAGS_RESERVED = 0x202"
definition SIGNAL_FRAME_SIZE :: usize where [posix_consts]: "SIGNAL_FRAME_SIZE = 152"

definition update_signal_mask_and_disposition :: "i32 \<Rightarrow> i32 \<Rightarrow> SigAction \<Rightarrow> SigSet \<Rightarrow> SignalManager \<Rightarrow> SignalManager" where
  "update_signal_mask_and_disposition pid sig action blocked sm =
    (let new_mask = blocked OR sa_mask action;
         new_mask = (if sa_flags action AND SA_NODEFER = 0 then new_mask OR sig_bit sig else new_mask);
         sm = snd (set_procmask pid SIG_SETMASK new_mask sm)
     in if sa_flags action AND SA_RESETHAND \<noteq> 0 then snd (set_action pid sig SigAction_default sm) else sm)"

text \<open>A process continues with new registers, or is gone.\<close>

datatype 'r flow = Continue 'r | Gone

definition signal_frame_of :: "i32 \<Rightarrow> SigAction \<Rightarrow> SigSet \<Rightarrow> SyscallRegisters \<Rightarrow> SignalFrame" where
  "signal_frame_of sig action blocked r =
    \<lparr> sf_restorer = sa_restorer action, sf_signum = word_of_int sig, sf_old_mask = blocked,
      sf_r15 = sr_r15 r, sf_r14 = sr_r14 r, sf_r13 = sr_r13 r, sf_r12 = sr_r12 r, sf_rbp = sr_rbp r,
      sf_rbx = sr_rbx r, sf_r9 = sr_r9 r, sf_r8 = sr_r8 r, sf_r10 = sr_r10 r, sf_rdx = sr_rdx r,
      sf_rsi = sr_rsi r, sf_rdi = sr_rdi r, sf_rax = sr_rax r, sf_rcx = sr_rcx r, sf_r11 = sr_r11 r, sf_rsp = sr_rsp r \<rparr>"

definition signal_rsp :: "u64 \<Rightarrow> usize" where
  "signal_rsp rsp = align_down (saturating_sub (unat rsp) (RED_ZONE_SIZE + SIGNAL_FRAME_SIZE)) 16"

definition deliver_signal_to_user ::
  "i32 \<Rightarrow> i32 \<Rightarrow> SigAction \<Rightarrow> SigSet \<Rightarrow> SyscallRegisters \<Rightarrow> usize \<Rightarrow> kernel \<Rightarrow> (SyscallRegisters flow \<times> kernel) option" where
  "deliver_signal_to_user pid sig action blocked r krsp k =
    (let new_rsp = signal_rsp (sr_rsp r) in
     case write_user new_rsp (SignalFrame_bytes (signal_frame_of sig action blocked r)) k of
       None \<Rightarrow> None
     | Some (Ok _, k) \<Rightarrow>
         Some (Continue (r\<lparr> sr_rsp := of_nat new_rsp, sr_rcx := sa_handler action, sr_rdi := word_of_int sig,
                 sr_rsi := 0, sr_rdx := of_nat new_rsp \<rparr>),
               k\<lparr> k_signals := update_signal_mask_and_disposition pid sig action blocked (k_signals k) \<rparr>)
     | Some (_, k) \<Rightarrow> Some (Gone, sys_exit_signal SIGSEGV krsp k))"

definition check_and_deliver_signals :: "SyscallRegisters \<Rightarrow> usize \<Rightarrow> kernel \<Rightarrow> (SyscallRegisters flow \<times> kernel) option" where
  "check_and_deliver_signals r krsp k =
    (let pid = k_current_pid k in
     if pid \<le> 0 then Some (Continue r, k)
     else case next_unblocked_signal pid (k_signals k) of
       (None, sm) \<Rightarrow> Some (Continue r, k\<lparr> k_signals := sm \<rparr>)
     | (Some (sig, action, blocked), sm) \<Rightarrow>
         let k = k\<lparr> k_signals := sm \<rparr> in
         if sa_handler action = SIG_DFL then Some (Gone, sys_exit_signal sig krsp k)
         else deliver_signal_to_user pid sig action blocked r krsp k)"

text \<open>The result is the frame to return to and whether the task was terminated.\<close>

definition irq_signal_frame :: "i32 \<Rightarrow> SigAction \<Rightarrow> SigSet \<Rightarrow> TrapFrame \<Rightarrow> SignalFrame" where
  "irq_signal_frame sig action blocked f =
    \<lparr> sf_restorer = sa_restorer action, sf_signum = word_of_int sig, sf_old_mask = blocked,
      sf_r15 = tf_r15 f, sf_r14 = tf_r14 f, sf_r13 = tf_r13 f, sf_r12 = tf_r12 f, sf_rbp = tf_rbp f,
      sf_rbx = tf_rbx f, sf_r9 = tf_r9 f, sf_r8 = tf_r8 f, sf_r10 = tf_r10 f, sf_rdx = tf_rdx f,
      sf_rsi = tf_rsi f, sf_rdi = tf_rdi f, sf_rax = tf_rax f, sf_rcx = tf_rip f, sf_r11 = tf_rflags f, sf_rsp = tf_rsp f \<rparr>"

definition check_and_deliver_signals_irq :: "TrapFrame \<Rightarrow> i32 \<Rightarrow> kernel \<Rightarrow> (TrapFrame \<times> bool \<times> kernel) option" where
  "check_and_deliver_signals_irq f pid k =
    (if \<not> is_user_mode f then Some (f, False, k)
     else case next_unblocked_signal pid (k_signals k) of
       (None, sm) \<Rightarrow> Some (f, False, k\<lparr> k_signals := sm \<rparr>)
     | (Some (sig, action, blocked), sm) \<Rightarrow>
         let k = k\<lparr> k_signals := sm \<rparr> in
         if sa_handler action = SIG_DFL then Some (f, True, terminate_cpu_bound_task pid sig k)
         else
           let new_rsp = signal_rsp (tf_rsp f) in
           case write_user new_rsp (SignalFrame_bytes (irq_signal_frame sig action blocked f)) k of
             None \<Rightarrow> None
           | Some (Ok _, k) \<Rightarrow>
               Some (f\<lparr> tf_rsp := of_nat new_rsp, tf_rip := sa_handler action, tf_rdi := word_of_int sig,
                       tf_rsi := 0, tf_rdx := of_nat new_rsp \<rparr>, False,
                     k\<lparr> k_signals := update_signal_mask_and_disposition pid sig action blocked (k_signals k) \<rparr>)
           | Some (_, k) \<Rightarrow> Some (f, True, terminate_cpu_bound_task pid SIGSEGV k))"

subsection \<open>Signal system calls\<close>

definition sys_kill :: "i32 \<Rightarrow> i32 \<Rightarrow> kernel \<Rightarrow> int \<times> kernel" where
  "sys_kill pid sig k =
    (if pid \<le> 0 \<or> \<not> sig_valid sig then (- EINVAL, k)
     else case send_signal pid sig k of
       (Err e, k) \<Rightarrow> (- e, k)
     | (_, k) \<Rightarrow> (0, k))"

text \<open>
  The optional output and input pointers of \<open>rt_sigaction\<close> and \<open>rt_sigprocmask\<close>: a null pointer is skipped.
\<close>

definition write_optional :: "usize \<Rightarrow> bytes \<Rightarrow> kernel \<Rightarrow> (unit kres \<times> kernel) option" where
  "write_optional ptr bs k = (if ptr = 0 then Some (Ok (), k) else write_user ptr bs k)"

definition sys_rt_sigaction :: "i32 \<Rightarrow> usize \<Rightarrow> usize \<Rightarrow> usize \<Rightarrow> kernel \<Rightarrow> (int \<times> kernel) option" where
  "sys_rt_sigaction sig act_ptr oldact_ptr sigsetsize k =
    (if sigsetsize \<noteq> 8 then Some (- EINVAL, k)
     else if \<not> sig_valid sig then Some (- EINVAL, k)
     else if sig = SIGKILL \<or> sig = SIGSTOP then Some (- EINVAL, k)
     else
       let pid = k_current_pid k in
       case write_optional oldact_ptr (SigAction_bytes (get_action (k_signals k) pid sig)) k of
         None \<Rightarrow> None
       | Some (Err e, k) \<Rightarrow> Some (- e, k)
       | Some (_, k) \<Rightarrow>
          if act_ptr = 0 then Some (0, k)
          else case read_user act_ptr 32 k of
            None \<Rightarrow> None
          | Some (Ok bs) \<Rightarrow>
             (case set_action pid sig (SigAction_of bs) (k_signals k) of
                (Err e, sm) \<Rightarrow> Some (- e, k\<lparr> k_signals := sm \<rparr>)
              | (_, sm) \<Rightarrow> Some (0, k\<lparr> k_signals := sm \<rparr>))
          | Some (Err e) \<Rightarrow> Some (- e, k)
          | Some Panic \<Rightarrow> None)"

definition sys_rt_sigprocmask :: "i32 \<Rightarrow> usize \<Rightarrow> usize \<Rightarrow> usize \<Rightarrow> kernel \<Rightarrow> (int \<times> kernel) option" where
  "sys_rt_sigprocmask how set_ptr oldset_ptr sigsetsize k =
    (if sigsetsize \<noteq> 8 then Some (- EINVAL, k)
     else
       let pid = k_current_pid k in
       case write_optional oldset_ptr (u64_bytes (get_procmask (k_signals k) pid)) k of
         None \<Rightarrow> None
       | Some (Err e, k) \<Rightarrow> Some (- e, k)
       | Some (_, k) \<Rightarrow>
          if set_ptr = 0 then Some (0, k)
          else case read_user set_ptr 8 k of
            None \<Rightarrow> None
          | Some (Ok bs) \<Rightarrow>
             (case set_procmask pid how (u64_of_bytes bs) (k_signals k) of
                (Err e, sm) \<Rightarrow> Some (- e, k\<lparr> k_signals := sm \<rparr>)
              | (_, sm) \<Rightarrow> Some (0, k\<lparr> k_signals := sm \<rparr>))
          | Some (Err e) \<Rightarrow> Some (- e, k)
          | Some Panic \<Rightarrow> None)"

definition restore_registers :: "SignalFrame \<Rightarrow> SyscallRegisters" where
  "restore_registers f =
    \<lparr> sr_r15 = sf_r15 f, sr_r14 = sf_r14 f, sr_r13 = sf_r13 f, sr_r12 = sf_r12 f, sr_rbp = sf_rbp f,
      sr_rbx = sf_rbx f, sr_r9 = sf_r9 f, sr_r8 = sf_r8 f, sr_r10 = sf_r10 f, sr_rdx = sf_rdx f,
      sr_rsi = sf_rsi f, sr_rdi = sf_rdi f, sr_rax = sf_rax f, sr_rcx = sf_rcx f,
      sr_r11 = (sf_r11 f AND USER_RFLAGS_MASK) OR USER_RFLAGS_RESERVED, sr_rsp = sf_rsp f \<rparr>"

definition sys_rt_sigreturn :: "SyscallRegisters \<Rightarrow> kernel \<Rightarrow> (int \<times> SyscallRegisters \<times> kernel) option" where
  "sys_rt_sigreturn r k =
    (case read_user (saturating_sub (unat (sr_rsp r)) 8) SIGNAL_FRAME_SIZE k of
       None \<Rightarrow> None
     | Some (Ok bs) \<Rightarrow>
         let f = SignalFrame_of bs;
             k = k\<lparr> k_signals := snd (set_procmask (k_current_pid k) SIG_SETMASK (sf_old_mask f) (k_signals k)) \<rparr>;
             r = restore_registers f
         in Some (sint (sr_rax r), r, k)
     | Some (Err e) \<Rightarrow> Some (- e, r, k)
     | Some Panic \<Rightarrow> None)"

subsection \<open>SIGKILL and SIGSTOP\<close>

text \<open>No process has SIGKILL or SIGSTOP blocked, ignored or caught.\<close>

definition sig_inv :: "SignalManager \<Rightarrow> bool" where
  "sig_inv sm \<longleftrightarrow> (\<forall>pid. \<not> bit (get_procmask sm pid) 8 \<and> \<not> bit (get_procmask sm pid) 18)
     \<and> (\<forall>pid acts. bt_get (signal_actions sm) pid = Some acts \<longrightarrow>
          length acts = 32 \<and> acts ! 9 = SigAction_default \<and> acts ! 19 = SigAction_default)"

lemma bit_sig_bit: "bit (sig_bit sig) n \<longleftrightarrow> n = nat (sig - 1) \<and> n < 64"
  unfolding sig_bit_def by (auto simp: bit_simps)

lemma sig_bit_and_iff: "0 < sig \<Longrightarrow> sig \<le> 64 \<Longrightarrow> m AND sig_bit sig \<noteq> 0 \<longleftrightarrow> bit m (nat (sig - 1))"
  unfolding sig_bit_def by (rule and_push_bit_1_ne_0_iff)

lemma get_procmask_set [simp]:
  "get_procmask (sm\<lparr> blocked_masks := bt_insert pid m (blocked_masks sm) \<rparr>) x = (if x = pid then m else get_procmask sm x)"
  by (simp add: get_procmask_def)

lemma set_procmask_inv: "sig_inv sm \<Longrightarrow> sig_inv (snd (set_procmask pid how new_set sm))"
proof -
  assume inv: "sig_inv sm"
  have old: "\<not> bit (bt_get_or 0 (blocked_masks sm) pid) 8" "\<not> bit (bt_get_or 0 (blocked_masks sm) pid) 18"
    using inv by (auto simp: sig_inv_def get_procmask_def)
  have "sig_inv (sm\<lparr> blocked_masks := bt_insert pid m (blocked_masks sm) \<rparr>)" if "\<not> bit m 8" "\<not> bit m 18" for m
    using inv that by (auto simp: sig_inv_def)
  then show ?thesis using old
    by (auto simp: set_procmask_def Let_def bit_and_iff bit_or_iff bit_not_iff bit_sig_bit SIGKILL_def SIGSTOP_def)
qed

lemma set_action_inv: "sig_inv sm \<Longrightarrow> sig_inv (snd (set_action pid sig act sm))"
proof -
  assume inv: "sig_inv sm"
  let ?a = "bt_get_or (replicate 32 SigAction_default) (signal_actions sm) pid"
  have "length ?a = 32 \<and> ?a ! 9 = SigAction_default \<and> ?a ! 19 = SigAction_default"
    using inv by (cases "bt_get (signal_actions sm) pid") (auto simp: sig_inv_def bt_get_or_def)
  moreover have "sig_valid sig \<Longrightarrow> sig \<noteq> 9 \<Longrightarrow> sig \<noteq> 19 \<Longrightarrow> nat sig \<noteq> 9 \<and> nat sig \<noteq> 19" by (auto simp: sig_valid_def)
  ultimately show ?thesis using inv
    by (auto simp: set_action_def Let_def sig_inv_def get_procmask_def SIGKILL_def SIGSTOP_def)
qed

lemma clear_pending_inv: "sig_inv sm \<Longrightarrow> sig_inv (clear_pending pid sig sm)"
  by (auto simp: clear_pending_def sig_inv_def get_procmask_def split: option.split)

lemma cleanup_process_inv: "sig_inv sm \<Longrightarrow> sig_inv (cleanup_process pid sm)"
  by (auto simp: cleanup_process_def sig_inv_def get_procmask_def)

lemma scan_signals_inv: "sig_inv sm \<Longrightarrow> sig_inv (snd (scan_signals pid u b sigs sm))"
  by (induction pid u b sigs sm rule: scan_signals.induct) (auto simp: Let_def clear_pending_inv)

lemma next_unblocked_signal_inv: "sig_inv sm \<Longrightarrow> sig_inv (snd (next_unblocked_signal pid sm))"
  by (simp add: next_unblocked_signal_def Let_def scan_signals_inv)

lemma update_signal_mask_inv: "sig_inv sm \<Longrightarrow> sig_inv (update_signal_mask_and_disposition pid sig action blocked sm)"
  by (simp add: update_signal_mask_and_disposition_def Let_def set_procmask_inv set_action_inv)

lemma wake_tasks_signals [simp]: "k_signals (wake_tasks pids k) = k_signals k"
proof -
  have "k_signals (wake_one pid k) = k_signals k" for pid k
    by (simp add: wake_one_def add_task_def set_state_def split: option.split)
  then show ?thesis unfolding wake_tasks_def by (induction pids arbitrary: k) simp_all
qed

lemma switch_out_signals [simp]: "k_signals (snd (switch_out_current rsp k)) = k_signals k"
  by (auto simp: switch_out_current_def next_or_idle_def Let_def switch_tasks_def dispatch_to_def activate_def set_state_def
      split: option.split list.split)

lemma end_current_signals [simp]: "k_signals (end_current code sig k) = k_signals k"
  by (auto simp: end_current_def Let_def split: option.split)

lemma exit_signals [simp]:
  "k_signals (sys_exit code rsp k) = k_signals k" "k_signals (sys_exit_signal sig rsp k) = k_signals k"
  by (simp_all add: sys_exit_def sys_exit_signal_def)

lemma write_user_signals: "write_user addr bs k = Some (res, k') \<Longrightarrow> k_signals k' = k_signals k"
  by (auto simp: write_user_def split: sum.splits option.splits)

lemma write_optional_signals: "write_optional addr bs k = Some (res, k') \<Longrightarrow> k_signals k' = k_signals k"
  by (auto simp: write_optional_def write_user_signals split: if_splits)

lemma deliver_inv:
  "deliver_signal_to_user pid sig action blocked r krsp k = Some (x, k') \<Longrightarrow> sig_inv (k_signals k) \<Longrightarrow> sig_inv (k_signals k')"
  by (auto simp: deliver_signal_to_user_def Let_def update_signal_mask_inv write_user_signals
      split: option.splits kres.splits)

lemma deliver_inv':
  "deliver_signal_to_user pid sig action blocked r krsp (k\<lparr> k_signals := sm \<rparr>) = Some (x, k') \<Longrightarrow> sig_inv sm \<Longrightarrow> sig_inv (k_signals k')"
  using deliver_inv [where k = "k\<lparr> k_signals := sm \<rparr>"] by simp

lemma check_and_deliver_inv:
  assumes "check_and_deliver_signals r krsp k = Some (x, k')" "sig_inv (k_signals k)" shows "sig_inv (k_signals k')"
proof -
  obtain res sm where n: "next_unblocked_signal (k_current_pid k) (k_signals k) = (res, sm)" by fastforce
  have sm: "sig_inv sm" using next_unblocked_signal_inv [OF assms(2), of "k_current_pid k"] n by simp
  show ?thesis using assms sm n
    by (cases res) (auto simp: check_and_deliver_signals_def Let_def split: if_splits intro: deliver_inv')
qed

lemma irq_inv:
  assumes "check_and_deliver_signals_irq f pid k = Some (f', t, k')" "sig_inv (k_signals k)" shows "sig_inv (k_signals k')"
proof -
  obtain res sm where n: "next_unblocked_signal pid (k_signals k) = (res, sm)" by fastforce
  have sm: "sig_inv sm" using next_unblocked_signal_inv [OF assms(2), of pid] n by simp
  show ?thesis using assms sm n
    by (cases res) (auto simp: check_and_deliver_signals_irq_def Let_def terminate_cpu_bound_task_def update_signal_mask_inv
      cleanup_process_inv write_user_signals split: if_splits option.splits kres.splits)
qed

text \<open>The first pending, unblocked signal whose action is neither to ignore it nor to stop.\<close>

definition ignored :: "SignalManager \<Rightarrow> i32 \<Rightarrow> i32 \<Rightarrow> bool" where
  "ignored sm pid sig \<longleftrightarrow> sa_handler (get_action sm pid sig) = SIG_IGN
     \<or> sa_handler (get_action sm pid sig) = SIG_DFL \<and> is_default_ignore sig"

definition waiting :: "SignalManager \<Rightarrow> i32 \<Rightarrow> i32 \<Rightarrow> bool" where
  "waiting sm pid sig \<longleftrightarrow> sig_valid sig \<and> bit (get_pending sm pid) (nat (sig - 1)) \<and> \<not> bit (get_procmask sm pid) (nat (sig - 1))"

definition deliverable :: "SignalManager \<Rightarrow> i32 \<Rightarrow> i32 \<Rightarrow> bool" where
  "deliverable sm pid sig \<longleftrightarrow> waiting sm pid sig \<and> \<not> ignored sm pid sig
     \<and> \<not> (sa_handler (get_action sm pid sig) = SIG_DFL \<and> is_default_stop sig)"

lemma get_action_clear [simp]: "get_action (clear_pending p s sm) pid sig = get_action sm pid sig"
  by (simp add: get_action_def clear_pending_def split: option.split)

lemma get_procmask_clear [simp]: "get_procmask (clear_pending p s sm) pid = get_procmask sm pid"
  by (simp add: get_procmask_def clear_pending_def split: option.split)

lemma bit_pending_clear:
  "bit (get_pending (clear_pending pid sig sm) p) n \<longleftrightarrow>
    bit (get_pending sm p) n \<and> \<not> (p = pid \<and> sig_valid sig \<and> n = nat (sig - 1))"
  using bit_imp_le_length [of "get_pending sm p" n]
  by (auto simp: clear_pending_def get_pending_def bt_get_or_def bit_and_iff bit_not_iff bit_sig_bit split: option.split)

definition wanted :: "u64 \<Rightarrow> SignalManager \<Rightarrow> i32 \<Rightarrow> i32 \<Rightarrow> bool" where
  "wanted u sm pid sig \<longleftrightarrow> bit u (nat (sig - 1)) \<and> \<not> ignored sm pid sig
     \<and> \<not> (sa_handler (get_action sm pid sig) = SIG_DFL \<and> is_default_stop sig)"

lemma ignored_clear [simp]: "ignored (clear_pending p s sm) pid sig = ignored sm pid sig"
  by (simp add: ignored_def)

lemma wanted_clear [simp]: "wanted u (clear_pending p s sm) pid = wanted u sm pid"
  by (simp add: wanted_def fun_eq_iff)

text \<open>The signals that the loop removes from the pending set.\<close>

definition scan_cleared :: "u64 \<Rightarrow> SignalManager \<Rightarrow> i32 \<Rightarrow> i32 list \<Rightarrow> i32 \<Rightarrow> bool" where
  "scan_cleared u sm pid sigs sig \<longleftrightarrow> sig \<in> set (takeWhile (\<lambda>s. \<not> wanted u sm pid s) sigs) \<and> bit u (nat (sig - 1)) \<and> ignored sm pid sig
     \<or> find (wanted u sm pid) sigs = Some sig"

lemma scan_cleared_Nil [simp]: "\<not> scan_cleared u sm pid [] sig"
  by (simp add: scan_cleared_def)

lemma scan_signals_spec:
  assumes "\<forall>sig \<in> set sigs. sig_valid sig"
  shows "fst (scan_signals pid u b sigs sm) = map_option (\<lambda>sig. (sig, get_action sm pid sig, b)) (find (wanted u sm pid) sigs)
    \<and> get_procmask (snd (scan_signals pid u b sigs sm)) = get_procmask sm
    \<and> get_action (snd (scan_signals pid u b sigs sm)) = get_action sm
    \<and> (\<forall>p n. bit (get_pending (snd (scan_signals pid u b sigs sm)) p) n \<longleftrightarrow>
        bit (get_pending sm p) n \<and> \<not> (p = pid \<and> (\<exists>sig. scan_cleared u sm pid sigs sig \<and> n = nat (sig - 1))))"
  using assms
proof (induction sigs arbitrary: sm)
  case (Cons sig sigs)
  have v: "sig_valid sig" and vs: "\<forall>sig \<in> set sigs. sig_valid sig" using Cons.prems by auto
  then have bit: "u AND sig_bit sig \<noteq> 0 \<longleftrightarrow> bit u (nat (sig - 1))"
    by (intro sig_bit_and_iff) (auto simp: sig_valid_def SIG_MIN_def SIG_MAX_def)
  consider (pass) "\<not> bit u (nat (sig - 1)) \<or> \<not> ignored sm pid sig \<and> \<not> wanted u sm pid sig"
    | (ign) "bit u (nat (sig - 1))" "ignored sm pid sig"
    | (take) "wanted u sm pid sig" by (auto simp: wanted_def)
  then show ?case
  proof cases
    case pass
    then have eq: "scan_signals pid u b (sig # sigs) sm = scan_signals pid u b sigs sm"
      using bit by (auto simp: Let_def wanted_def ignored_def)
    have "\<not> wanted u sm pid sig" using pass by (auto simp: wanted_def)
    moreover from this have "scan_cleared u sm pid (sig # sigs) = scan_cleared u sm pid sigs"
      using pass by (auto simp: scan_cleared_def fun_eq_iff)
    ultimately show ?thesis unfolding eq using Cons.IH [OF vs, of sm] by simp
  next
    case ign
    then have eq: "scan_signals pid u b (sig # sigs) sm = scan_signals pid u b sigs (clear_pending pid sig sm)"
      using bit by (auto simp: Let_def ignored_def)
    have w: "\<not> wanted u sm pid sig" using ign by (auto simp: wanted_def)
    then have "scan_cleared u sm pid (sig # sigs) s \<longleftrightarrow> s = sig \<or> scan_cleared u (clear_pending pid sig sm) pid sigs s" for s
      using ign by (auto simp: scan_cleared_def)
    then show ?thesis unfolding eq using Cons.IH [OF vs, of "clear_pending pid sig sm"] w v
      by (auto simp: bit_pending_clear fun_eq_iff)
  next
    case take
    then have "scan_signals pid u b (sig # sigs) sm = (Some (sig, get_action sm pid sig, b), clear_pending pid sig sm)"
      using bit by (auto simp: Let_def wanted_def ignored_def)
    moreover have "scan_cleared u sm pid (sig # sigs) s \<longleftrightarrow> s = sig" for s using take by (auto simp: scan_cleared_def)
    ultimately show ?thesis using take v by (auto simp: bit_pending_clear fun_eq_iff)
  qed
qed simp

lemma le_step: "a \<le> y \<longleftrightarrow> y = a \<or> a + 1 \<le> y" for a y :: int
  by auto

lemma find_upto:
  "find P [a..b] = Some x \<longleftrightarrow> a \<le> x \<and> x \<le> b \<and> P x \<and> (\<forall>y. a \<le> y \<longrightarrow> y < x \<longrightarrow> \<not> P y)" for a b :: int
proof (induction a b rule: upto.induct)
  case (1 a b)
  show ?case
  proof (cases "a \<le> b \<and> \<not> P a")
    case True
    then have eq: "find P [a..b] = find P [a + 1..b]" by (simp add: upto.simps [of a b])
    have "(\<forall>y. a \<le> y \<longrightarrow> y < x \<longrightarrow> \<not> P y) \<longleftrightarrow> (\<forall>y. a + 1 \<le> y \<longrightarrow> y < x \<longrightarrow> \<not> P y)"
      unfolding le_step [of a] using True by blast
    then show ?thesis unfolding eq using 1 [OF conjunct1 [OF True]] True le_step [of a x] by blast
  next
    case False
    then consider "b < a" | "a \<le> b" "P a" by linarith
    then show ?thesis
    proof cases
      case 2
      then have "find P [a..b] = Some a" by (simp add: upto.simps [of a b])
      then show ?thesis using 2 by (auto simp: not_less)
    qed simp
  qed
qed

lemma set_takeWhile_upto:
  "x \<in> set (takeWhile (\<lambda>s. \<not> P s) [a..b]) \<longleftrightarrow> a \<le> x \<and> x \<le> b \<and> (\<forall>y. a \<le> y \<longrightarrow> y \<le> x \<longrightarrow> \<not> P y)" for a b :: int
proof (induction a b rule: upto.induct)
  case (1 a b)
  show ?case
  proof (cases "a \<le> b \<and> \<not> P a")
    case True
    then have eq: "takeWhile (\<lambda>s. \<not> P s) [a..b] = a # takeWhile (\<lambda>s. \<not> P s) [a + 1..b]" by (simp add: upto.simps [of a b])
    have "(\<forall>y. a \<le> y \<longrightarrow> y \<le> x \<longrightarrow> \<not> P y) \<longleftrightarrow> (\<forall>y. a + 1 \<le> y \<longrightarrow> y \<le> x \<longrightarrow> \<not> P y)"
      unfolding le_step [of a] using True by blast
    then show ?thesis unfolding eq using 1 [OF conjunct1 [OF True]] True le_step [of a x] by auto
  next
    case False
    then consider "b < a" | "a \<le> b" "P a" by linarith
    then show ?thesis by cases (auto simp: upto.simps [of a b])
  qed
qed

lemma find_upto_None: "find P [a..b] = None \<longleftrightarrow> (\<forall>x. a \<le> x \<longrightarrow> x \<le> b \<longrightarrow> \<not> P x)" for a b :: int
  by (auto simp: find_None_iff)

lemma next_unblocked_signal_spec:
  assumes n: "next_unblocked_signal pid sm = (res, sm')"
  shows "(case res of
       None \<Rightarrow> (\<forall>sig. \<not> deliverable sm pid sig)
     | Some (sig, action, blocked) \<Rightarrow> deliverable sm pid sig \<and> (\<forall>s. deliverable sm pid s \<longrightarrow> sig \<le> s)
         \<and> action = get_action sm pid sig \<and> blocked = get_procmask sm pid)
    \<and> (\<forall>s. waiting sm' pid s \<longleftrightarrow> waiting sm pid s \<and>
         (case res of None \<Rightarrow> \<not> ignored sm pid s | Some (sig, _) \<Rightarrow> s \<noteq> sig \<and> \<not> (s < sig \<and> ignored sm pid s)))"
proof (cases "get_pending sm pid AND NOT (get_procmask sm pid) = 0")
  case True
  have "\<not> waiting sm pid s" for s
    using arg_cong [OF True, of "\<lambda>w. bit w (nat (s - 1))"] bit_imp_le_length [of "get_pending sm pid" "nat (s - 1)"]
    by (auto simp: waiting_def bit_and_iff bit_not_iff)
  then show ?thesis using n True by (auto simp: next_unblocked_signal_def Let_def deliverable_def)
next
  case False
  let ?u = "get_pending sm pid AND NOT (get_procmask sm pid)"
  let ?P = "wanted ?u sm pid"
  have u: "bit ?u (nat (s - 1)) \<and> sig_valid s \<longleftrightarrow> waiting sm pid s" for s
    using bit_imp_le_length [of "get_pending sm pid" "nat (s - 1)"] by (auto simp: waiting_def bit_and_iff bit_not_iff)
  have P: "?P s \<and> sig_valid s \<longleftrightarrow> deliverable sm pid s" for s using u [of s] by (auto simp: wanted_def deliverable_def)
  have eq: "scan_signals pid ?u (get_procmask sm pid) [SIG_MIN..SIG_MAX] sm = (res, sm')"
    using False n by (simp add: next_unblocked_signal_def Let_def)
  have "\<forall>sig \<in> set [SIG_MIN..SIG_MAX]. sig_valid sig" by (simp add: sig_valid_def)
  from scan_signals_spec [OF this, of pid ?u "get_procmask sm pid" sm, unfolded eq fst_conv snd_conv]
  have spec: "res = map_option (\<lambda>sig. (sig, get_action sm pid sig, get_procmask sm pid)) (find ?P [SIG_MIN..SIG_MAX])"
    "get_procmask sm' = get_procmask sm"
    "\<And>n. bit (get_pending sm' pid) n \<longleftrightarrow> bit (get_pending sm pid) n \<and> \<not> (\<exists>sig. scan_cleared ?u sm pid [SIG_MIN..SIG_MAX] sig \<and> n = nat (sig - 1))"
    by blast+
  have inj: "sig_valid s \<Longrightarrow> sig_valid t \<Longrightarrow> nat (s - 1) = nat (t - 1) \<longleftrightarrow> s = t" for s t
    by (auto simp: sig_valid_def SIG_MIN_def)
  have cl: "scan_cleared ?u sm pid [SIG_MIN..SIG_MAX] t \<Longrightarrow> sig_valid t" for t
    by (auto simp: scan_cleared_def sig_valid_def set_takeWhile_upto find_upto)
  have w: "waiting sm' pid s \<longleftrightarrow> waiting sm pid s \<and> \<not> scan_cleared ?u sm pid [SIG_MIN..SIG_MAX] s" for s
    unfolding waiting_def spec(2,3) using inj cl by blast
  show ?thesis
  proof (cases "find ?P [SIG_MIN..SIG_MAX]")
    case None
    then have none: "\<not> deliverable sm pid s" for s using P [of s] by (auto simp: find_upto_None sig_valid_def)
    moreover have "\<forall>x. SIG_MIN \<le> x \<longrightarrow> x \<le> SIG_MAX \<longrightarrow> \<not> ?P x" using None find_upto_None by blast
    then have "scan_cleared ?u sm pid [SIG_MIN..SIG_MAX] s \<longleftrightarrow> waiting sm pid s \<and> ignored sm pid s" for s
      unfolding scan_cleared_def set_takeWhile_upto None using u [of s] by (auto simp: sig_valid_def)
    ultimately show ?thesis using spec(1) None w by auto
  next
    case (Some sig)
    then have f: "sig_valid sig" "?P sig" "\<And>y. SIG_MIN \<le> y \<Longrightarrow> y < sig \<Longrightarrow> \<not> ?P y"
      by (auto simp: find_upto sig_valid_def)
    have d: "deliverable sm pid sig" using P f(1,2) by blast
    have least: "sig \<le> s" if "deliverable sm pid s" for s
      using that P [of s] f(3) [of s] by (auto simp: sig_valid_def not_le [symmetric])
    have "scan_cleared ?u sm pid [SIG_MIN..SIG_MAX] s \<longleftrightarrow> s = sig \<or> s < sig \<and> waiting sm pid s \<and> ignored sm pid s" for s
      using Some f u [of s]
      by (auto simp: scan_cleared_def set_takeWhile_upto sig_valid_def)
    then show ?thesis using spec(1) Some w d least by auto
  qed
qed

lemma scan_signals_quiet: "\<forall>sig \<in> set sigs. u AND sig_bit sig = 0 \<Longrightarrow> scan_signals pid u b sigs sm = (None, sm)"
  by (induction sigs) simp_all

lemma next_unblocked_quiet:
  assumes "\<forall>sig. \<not> waiting sm pid sig"
  shows "next_unblocked_signal pid sm = (None, sm)"
proof -
  let ?u = "get_pending sm pid AND NOT (get_procmask sm pid)"
  have "?u AND sig_bit sig = 0" if "sig \<in> set [SIG_MIN..SIG_MAX]" for sig
  proof -
    have v: "sig_valid sig" "0 < sig" "sig \<le> 64" using that by (simp_all add: sig_valid_def SIG_MIN_def SIG_MAX_def)
    have "\<not> bit ?u (nat (sig - 1))" using assms v(1) unfolding waiting_def by (auto simp: bit_and_iff bit_not_iff)
    then show ?thesis using sig_bit_and_iff [OF v(2,3)] by blast
  qed
  then show ?thesis by (simp add: next_unblocked_signal_def Let_def scan_signals_quiet)
qed

lemma scan_cleared_bit: "scan_cleared u sm pid sigs sig \<Longrightarrow> bit u (nat (sig - 1))"
  by (auto simp: scan_cleared_def wanted_def find_Some_iff)

text \<open>Without a deliverable signal, exactly the unblocked signals that are ignored are discarded.\<close>

lemma next_unblocked_discards:
  assumes "\<forall>sig. \<not> deliverable sm pid sig"
  obtains sm' where "next_unblocked_signal pid sm = (None, sm')" "get_procmask sm' = get_procmask sm" "get_action sm' = get_action sm"
    "\<And>p sig. sig_valid sig \<Longrightarrow> bit (get_pending sm' p) (nat (sig - 1)) \<longleftrightarrow>
       bit (get_pending sm p) (nat (sig - 1)) \<and> \<not> (p = pid \<and> waiting sm p sig \<and> ignored sm p sig)"
proof -
  let ?u = "get_pending sm pid AND NOT (get_procmask sm pid)"
  obtain res sm' where n: "next_unblocked_signal pid sm = (res, sm')" by fastforce
  have none: "res = None" using next_unblocked_signal_spec [OF n] assms by (cases res) auto
  note w = conjunct2 [OF next_unblocked_signal_spec [OF n], unfolded none option.case]
  show ?thesis
  proof (cases "?u = 0")
    case True
    then have "sm' = sm" using n by (simp add: next_unblocked_signal_def Let_def)
    then show ?thesis using that [of sm'] n none w by simp blast
  next
    case False
    have "\<forall>sig \<in> set [SIG_MIN..SIG_MAX]. sig_valid sig" by (simp add: sig_valid_def)
    moreover have "scan_signals pid ?u (get_procmask sm pid) [SIG_MIN..SIG_MAX] sm = (res, sm')"
      using False n by (simp add: next_unblocked_signal_def Let_def)
    ultimately have s: "get_procmask sm' = get_procmask sm" "get_action sm' = get_action sm"
      and b: "\<And>p m. bit (get_pending sm' p) m \<longleftrightarrow>
        bit (get_pending sm p) m \<and> \<not> (p = pid \<and> (\<exists>sig. scan_cleared ?u sm pid [SIG_MIN..SIG_MAX] sig \<and> m = nat (sig - 1)))"
      using scan_signals_spec [of "[SIG_MIN..SIG_MAX]" pid ?u "get_procmask sm pid" sm] by simp_all
    show ?thesis
    proof (rule that [OF n [unfolded none] s])
      fix p sig assume v: "sig_valid sig"
      show "bit (get_pending sm' p) (nat (sig - 1)) \<longleftrightarrow>
          bit (get_pending sm p) (nat (sig - 1)) \<and> \<not> (p = pid \<and> waiting sm p sig \<and> ignored sm p sig)"
      proof (cases "p = pid \<and> \<not> bit (get_procmask sm pid) (nat (sig - 1))")
        case True
        then show ?thesis using w [rule_format, of sig] v s(1) b [of pid "nat (sig - 1)"] unfolding waiting_def by auto
      next
        case False
        then have "\<not> (p = pid \<and> bit ?u (nat (sig - 1)))" by (auto simp: bit_and_iff bit_not_iff)
        then show ?thesis using False b [of p "nat (sig - 1)"] scan_cleared_bit by (auto simp: waiting_def)
      qed
    qed
  qed
qed

text \<open>
  \<open>next_unblocked_signal\<close> selects the lowest-numbered signal that is pending, not blocked, and whose
  action is neither to ignore it nor to stop the process, together with its action and the current mask;
  it selects none exactly when there is no such signal. The selected signal and the ignored signals
  before it are removed from the pending set, every other waiting signal stays.
\<close>

theorem next_unblocked_signal_correct:
  assumes "next_unblocked_signal pid sm = (res, sm')"
  shows "(case res of
       None \<Rightarrow> (\<forall>sig. \<not> deliverable sm pid sig)
     | Some (sig, action, blocked) \<Rightarrow> deliverable sm pid sig \<and> (\<forall>s. deliverable sm pid s \<longrightarrow> sig \<le> s)
         \<and> action = get_action sm pid sig \<and> blocked = get_procmask sm pid)
    \<and> (\<forall>s. waiting sm' pid s \<longleftrightarrow> waiting sm pid s \<and>
         (case res of None \<Rightarrow> \<not> ignored sm pid s | Some (sig, _) \<Rightarrow> s \<noteq> sig \<and> \<not> (s < sig \<and> ignored sm pid s)))"
  by (rule next_unblocked_signal_spec [OF assms])

definition demo_signals :: SignalManager where
  "demo_signals = \<lparr> pending_signals = [(1, sig_bit SIGCHLD OR sig_bit SIGTERM OR sig_bit SIGURG)], blocked_masks = [], signal_actions = [] \<rparr>"

lemma demo_signals_waiting: "waiting demo_signals 1 s \<longleftrightarrow> s = SIGTERM \<or> s = SIGCHLD \<or> s = SIGURG"
  by (auto simp: waiting_def demo_signals_def get_pending_def get_procmask_def bt_get_or_def bt_get_def bit_or_iff bit_sig_bit
      sig_valid_def posix_consts)

theorem next_unblocked_signal_correct_witness:
  "\<exists>sm'. next_unblocked_signal 1 demo_signals = (Some (SIGTERM, SigAction_default, 0), sm')
     \<and> waiting sm' 1 SIGCHLD \<and> \<not> waiting sm' 1 SIGTERM"
proof -
  obtain res sm' where n: "next_unblocked_signal 1 demo_signals = (res, sm')" by fastforce
  note c = next_unblocked_signal_correct [OF n]
  have act: "get_action demo_signals 1 s = SigAction_default" for s
    by (simp add: get_action_def demo_signals_def)
  have d: "deliverable demo_signals 1 SIGTERM"
    unfolding deliverable_def demo_signals_waiting
    by (simp add: ignored_def act SigAction_default_def is_default_ignore_def is_default_stop_def posix_consts)
  have only: "deliverable demo_signals 1 s \<Longrightarrow> s = SIGTERM" for s
    unfolding deliverable_def demo_signals_waiting
    by (auto simp: ignored_def act SigAction_default_def is_default_ignore_def posix_consts)
  have "get_procmask demo_signals 1 = 0" by (simp add: demo_signals_def get_procmask_def bt_get_or_def)
  then have "res = Some (SIGTERM, SigAction_default, 0)"
    using c d only by (cases res) (auto simp: act)
  then show ?thesis using n c by (auto simp: demo_signals_waiting posix_consts)
qed

text \<open>
  C22: SIGKILL and SIGSTOP can be neither blocked nor caught nor ignored: the invariant saying so is
  preserved by sending a signal, by the signal system calls, by returning from a handler and by both
  delivery paths; and under it, a pending SIGKILL is selected for delivery with the default action as soon
  as no lower-numbered signal is.
\<close>

theorem sigkill_cannot_be_blocked:
  assumes inv: "sig_inv (k_signals k)"
  shows "sig_inv (k_signals (snd (send_signal pid sig k)))
    \<and> (\<forall>ret k'. sys_rt_sigaction sig act_ptr old_ptr len k = Some (ret, k') \<longrightarrow> sig_inv (k_signals k'))
    \<and> (\<forall>ret k'. sys_rt_sigprocmask how set_ptr old_ptr len k = Some (ret, k') \<longrightarrow> sig_inv (k_signals k'))
    \<and> (\<forall>ret r' k'. sys_rt_sigreturn r k = Some (ret, r', k') \<longrightarrow> sig_inv (k_signals k'))
    \<and> (\<forall>fl k'. check_and_deliver_signals r rsp k = Some (fl, k') \<longrightarrow> sig_inv (k_signals k'))
    \<and> (\<forall>f' t k'. check_and_deliver_signals_irq f pid k = Some (f', t, k') \<longrightarrow> sig_inv (k_signals k'))
    \<and> (bit (get_pending (k_signals k) pid) 8 \<longrightarrow>
        (\<exists>s action m sm. next_unblocked_signal pid (k_signals k) = (Some (s, action, m), sm)
          \<and> s \<le> SIGKILL \<and> (s = SIGKILL \<longrightarrow> sa_handler action = SIG_DFL)))"
proof (intro conjI allI impI)
  show "sig_inv (k_signals (snd (send_signal pid sig k)))"
    using inv by (auto simp: send_signal_def Let_def sig_inv_def get_procmask_def)
next
  fix ret k' assume "sys_rt_sigaction sig act_ptr old_ptr len k = Some (ret, k')"
  then show "sig_inv (k_signals k')"
    using inv set_action_inv [OF inv, of "k_current_pid k" sig]
    by (auto simp: sys_rt_sigaction_def Let_def split: if_splits option.splits kres.splits prod.splits dest!: write_optional_signals)
      (metis snd_conv)+
next
  fix ret k' assume "sys_rt_sigprocmask how set_ptr old_ptr len k = Some (ret, k')"
  then show "sig_inv (k_signals k')"
    using inv set_procmask_inv [OF inv, of "k_current_pid k" how]
    by (auto simp: sys_rt_sigprocmask_def Let_def split: if_splits option.splits kres.splits prod.splits dest!: write_optional_signals)
      (metis snd_conv)+
next
  fix ret r' k' assume "sys_rt_sigreturn r k = Some (ret, r', k')"
  then show "sig_inv (k_signals k')"
    using inv by (auto simp: sys_rt_sigreturn_def Let_def set_procmask_inv split: option.splits kres.splits)
next
  fix fl k' assume "check_and_deliver_signals r rsp k = Some (fl, k')"
  then show "sig_inv (k_signals k')" using check_and_deliver_inv inv by blast
next
  fix f' t k' assume "check_and_deliver_signals_irq f pid k = Some (f', t, k')"
  then show "sig_inv (k_signals k')" using irq_inv inv by blast
next
  assume pend: "bit (get_pending (k_signals k) pid) 8"
  obtain res sm where n: "next_unblocked_signal pid (k_signals k) = (res, sm)" by fastforce
  have act: "get_action (k_signals k) pid SIGKILL = SigAction_default"
    using inv by (auto simp: get_action_def sig_inv_def SIGKILL_def split: option.split)
  then have "deliverable (k_signals k) pid SIGKILL"
    using pend inv by (auto simp: deliverable_def waiting_def ignored_def sig_valid_def sig_inv_def
        is_default_ignore_def is_default_stop_def SigAction_default_def posix_consts)
  then show "\<exists>s action m sm. next_unblocked_signal pid (k_signals k) = (Some (s, action, m), sm)
      \<and> s \<le> SIGKILL \<and> (s = SIGKILL \<longrightarrow> sa_handler action = SIG_DFL)"
    using next_unblocked_signal_spec [OF n] n act by (cases res) (auto simp: SigAction_default_def SIG_DFL_def)
qed

theorem sigkill_cannot_be_blocked_witness:
  "\<exists>s action m sm. next_unblocked_signal 1 \<lparr> pending_signals = [(1, sig_bit SIGKILL)], blocked_masks = [], signal_actions = [] \<rparr>
     = (Some (s, action, m), sm) \<and> s \<le> SIGKILL"
proof -
  let ?sm = "\<lparr> pending_signals = [(1, sig_bit SIGKILL)], blocked_masks = [], signal_actions = [] \<rparr>"
  let ?k = "demo_kernel\<lparr> k_signals := ?sm \<rparr>"
  have inv: "sig_inv (k_signals ?k)" by (simp add: sig_inv_def get_procmask_def bt_get_or_def)
  have pend: "bit (get_pending (k_signals ?k) 1) 8"
    by (simp add: get_pending_def bt_get_or_def bt_get_def bit_sig_bit SIGKILL_def)
  from sigkill_cannot_be_blocked [OF inv, where pid = 1, THEN conjunct2, THEN conjunct2, THEN conjunct2, THEN conjunct2,
      THEN conjunct2, THEN conjunct2, rule_format, OF pend]
  show ?thesis by auto
qed

subsection \<open>Handlers and returning from them\<close>

text \<open>Writing and reading a value through a user pointer.\<close>

lemma write_user_spec:
  assumes inv: "vm_inv R (k_cr3 k) (k_mm k)"
  shows "\<exists>res k'. write_user addr bs k = Some (res, k')
    \<and> (if addr \<noteq> 0 \<and> addr + length bs \<le> USER_SPACE_END \<and> range_ok (k_cr3 k) (k_mm k) True addr (length bs)
       then res = Ok () \<and> (\<exists>s. k' = k\<lparr> k_mm := s \<rparr> \<and> stored R (k_cr3 k) addr bs (k_mm k) s)
       else (\<exists>e. res = Err e) \<and> k' = k)"
proof (cases "addr \<noteq> 0 \<and> addr + length bs \<le> USER_SPACE_END")
  case False
  then show ?thesis by (auto simp: write_user_def UserPtr_from_raw_def checked_add_def)
next
  case True
  have "addr + length bs < USIZE_LIMIT" using True by (simp add: USER_SPACE_END_def USIZE_LIMIT_def)
  then have ptr: "UserPtr_from_raw (length bs) addr = Inr \<lparr> up_addr = addr, up_size = length bs \<rparr>"
    using True by (simp add: UserPtr_from_raw_def checked_add_def)
  note val = validate_user_range_iff [OF inv, of addr "length bs" True]
  show ?thesis
  proof (cases "range_ok (k_cr3 k) (k_mm k) True addr (length bs)")
    case ok: True
    have "\<forall>i < length bs. translate (mem (k_mm k)) (k_cr3 k) (addr + i) \<noteq> None"
      using ok True user_ok_translate [of "k_cr3 k" "k_mm k" True] by (auto simp: range_ok_def)
    then obtain s where "user_store (k_cr3 k) addr bs (k_mm k) = Some s" "stored R (k_cr3 k) addr bs (k_mm k) s"
      using user_store_spec [OF inv] True by blast
    then show ?thesis using ok True val by (auto simp: write_user_def ptr UserPtr_write_def)
  next
    case bad: False
    then show ?thesis using val by (cases "validate_user_range (mem (k_mm k)) (k_cr3 k) addr (length bs) True")
        (auto simp: write_user_def ptr UserPtr_write_def)
  qed
qed

lemma read_user_spec:
  assumes inv: "vm_inv R (k_cr3 k) (k_mm k)" and addr: "addr \<noteq> 0" "addr + length bs \<le> USER_SPACE_END"
    and ok: "range_ok (k_cr3 k) (k_mm k) False addr (length bs)"
    and mem: "\<forall>i < length bs. user_get (k_cr3 k) (k_mm k) (addr + i) = Some (bs ! i)"
  shows "read_user addr (length bs) k = Some (Ok bs)"
proof -
  have "addr + length bs < USIZE_LIMIT" using addr by (simp add: USER_SPACE_END_def USIZE_LIMIT_def)
  then have "UserPtr_from_raw (length bs) addr = Inr \<lparr> up_addr = addr, up_size = length bs \<rparr>"
    using addr by (simp add: UserPtr_from_raw_def checked_add_def)
  moreover have "validate_user_range (mem (k_mm k)) (k_cr3 k) addr (length bs) False = Inr ()"
    using validate_user_range_iff [OF inv] ok by simp
  moreover have "user_load (k_cr3 k) (k_mm k) addr (length bs) = Some bs"
    using mem by (auto simp: user_load_spec intro: nth_equalityI)
  ultimately show ?thesis by (simp add: read_user_def UserPtr_read_def)
qed

lemma signal_rsp_bounds:
  assumes "signal_rsp rsp \<noteq> 0"
  shows "signal_rsp rsp + SIGNAL_FRAME_SIZE + RED_ZONE_SIZE \<le> unat rsp" "16 dvd signal_rsp rsp"
proof -
  have "align_down (unat rsp - 280) 16 \<noteq> 0" using assms by (simp add: signal_rsp_def saturating_sub_def posix_consts)
  then have "280 \<le> unat rsp" by (cases "unat rsp < 280") (auto simp: align_down_def)
  then show "signal_rsp rsp + SIGNAL_FRAME_SIZE + RED_ZONE_SIZE \<le> unat rsp"
    using align_down_le [of "unat rsp - 280" 16] by (simp add: signal_rsp_def saturating_sub_def posix_consts)
  show "16 dvd signal_rsp rsp" by (simp add: signal_rsp_def)
qed

lemma sigreturn_spec:
  assumes inv: "vm_inv R (k_cr3 k) (k_mm k)" and blk: "\<not> bit blocked 8" "\<not> bit blocked 18"
    and del: "deliver_signal_to_user pid sig action blocked r krsp k = Some (Continue r1, k1)"
    and k2: "vm_inv R (k_cr3 k) (k_mm k2)" "k_cr3 k2 = k_cr3 k" "k_current_pid k2 = pid"
    and frame: "range_ok (k_cr3 k) (k_mm k2) False (unat (sr_rsp r1)) SIGNAL_FRAME_SIZE"
      "\<forall>i < SIGNAL_FRAME_SIZE. user_get (k_cr3 k) (k_mm k2) (unat (sr_rsp r1) + i) = user_get (k_cr3 k) (k_mm k1) (unat (sr_rsp r1) + i)"
    and r2: "sr_rsp r2 = sr_rsp r1 + 8"
  shows "(\<exists>k3. sys_rt_sigreturn r2 k2 = Some (sint (sr_rax r), r\<lparr> sr_r11 := (sr_r11 r AND USER_RFLAGS_MASK) OR USER_RFLAGS_RESERVED \<rparr>, k3)
      \<and> get_procmask (k_signals k3) pid = blocked)
    \<and> unat (sr_rsp r1) + SIGNAL_FRAME_SIZE + RED_ZONE_SIZE \<le> unat (sr_rsp r)
    \<and> sr_rcx r1 = sa_handler action \<and> sr_rdi r1 = word_of_int sig
    \<and> stored R (k_cr3 k) (unat (sr_rsp r1)) (SignalFrame_bytes (signal_frame_of sig action blocked r)) (k_mm k) (k_mm k1)"
proof -
  let ?a = "signal_rsp (sr_rsp r)"
  let ?bs = "SignalFrame_bytes (signal_frame_of sig action blocked r)"
  have len: "length ?bs = SIGNAL_FRAME_SIZE" by (simp add: posix_consts)
  obtain res k' where w: "write_user ?a ?bs k = Some (res, k')"
    "if ?a \<noteq> 0 \<and> ?a + length ?bs \<le> USER_SPACE_END \<and> range_ok (k_cr3 k) (k_mm k) True ?a (length ?bs)
     then res = Ok () \<and> (\<exists>s. k' = k\<lparr> k_mm := s \<rparr> \<and> stored R (k_cr3 k) ?a ?bs (k_mm k) s)
     else (\<exists>e. res = Err e) \<and> k' = k"
    using write_user_spec [OF inv] by blast
  have res: "res = Ok ()" using del w(1) by (cases res) (auto simp: deliver_signal_to_user_def Let_def)
  then obtain s where a: "?a \<noteq> 0" "?a + length ?bs \<le> USER_SPACE_END" and s: "k' = k\<lparr> k_mm := s \<rparr>" "stored R (k_cr3 k) ?a ?bs (k_mm k) s"
    using w(2) by (auto split: if_splits)
  have r1: "r1 = r\<lparr> sr_rsp := of_nat ?a, sr_rcx := sa_handler action, sr_rdi := word_of_int sig, sr_rsi := 0, sr_rdx := of_nat ?a \<rparr>"
    and k1: "k_mm k1 = s"
    using del w(1) res s(1) by (auto simp: deliver_signal_to_user_def Let_def)
  have "?a < 2 ^ 64" using a(2) by (simp add: USER_SPACE_END_def)
  then have ua: "unat (sr_rsp r1) = ?a" by (simp add: r1 unat_of_nat)
  have "?a + 8 < 2 ^ 64" using a(2) by (simp add: USER_SPACE_END_def)
  then have u2: "saturating_sub (unat (sr_rsp r2)) 8 = ?a"
    using unat_of_nat [where 'a = 64, of "?a + 8"] by (simp add: r2 r1 saturating_sub_def)
  have "k_cr3 k \<in> R" using inv by (simp add: vm_inv_def)
  then have "user_get (k_cr3 k) s (?a + i) = Some (?bs ! i)" if "i < length ?bs" for i
    using s(2) that a(2) by (auto simp: stored_def)
  then have "\<forall>i < length ?bs. user_get (k_cr3 k2) (k_mm k2) (?a + i) = Some (?bs ! i)"
    using frame(2) by (simp add: k2 ua k1 posix_consts)
  then have rd: "read_user ?a SIGNAL_FRAME_SIZE k2 = Some (Ok ?bs)"
    using read_user_spec [of R k2 ?a ?bs] k2 a frame(1) by (simp add: ua posix_consts)
  have reg: "restore_registers (signal_frame_of sig action blocked r)
      = r\<lparr> sr_r11 := (sr_r11 r AND USER_RFLAGS_MASK) OR USER_RFLAGS_RESERVED \<rparr>"
    by (simp add: restore_registers_def signal_frame_of_def)
  have mask: "blocked AND NOT (sig_bit SIGKILL OR sig_bit SIGSTOP) = blocked"
    by (rule bit_eqI) (use blk in \<open>auto simp: bit_and_iff bit_or_iff bit_not_iff bit_sig_bit SIGKILL_def SIGSTOP_def\<close>)
  have "\<exists>k3. sys_rt_sigreturn r2 k2 = Some (sint (sr_rax r), r\<lparr> sr_r11 := (sr_r11 r AND USER_RFLAGS_MASK) OR USER_RFLAGS_RESERVED \<rparr>, k3)
      \<and> get_procmask (k_signals k3) pid = blocked"
    using k2(3) mask
    by (simp add: sys_rt_sigreturn_def u2 rd reg Let_def set_procmask_def get_procmask_def SIG_SETMASK_def SIG_BLOCK_def SIG_UNBLOCK_def)
      (simp add: signal_frame_of_def)
  then show ?thesis using signal_rsp_bounds(1) [OF a(1)] s(2) by (simp add: ua k1) (simp add: r1)
qed

text \<open>
  Delivering a signal to a handler and returning from the handler restores the interrupted process.
  Delivery stores the frame on the user stack below the red zone, changing no other byte of user memory,
  and starts the handler with the signal number as its argument. If afterwards the frame's bytes are
  still intact when the restorer is entered through the handler's \<open>ret\<close>, \<open>sys_rt_sigreturn\<close> restores every
  register (the flags reduced to the user-settable ones) and the blocked mask.
\<close>

theorem sigreturn_restores:
  assumes inv: "vm_inv R (k_cr3 k) (k_mm k)" and blk: "\<not> bit blocked 8" "\<not> bit blocked 18"
    and del: "deliver_signal_to_user pid sig action blocked r krsp k = Some (Continue r1, k1)"
    and k2: "vm_inv R (k_cr3 k) (k_mm k2)" "k_cr3 k2 = k_cr3 k" "k_current_pid k2 = pid"
    and frame: "range_ok (k_cr3 k) (k_mm k2) False (unat (sr_rsp r1)) SIGNAL_FRAME_SIZE"
      "\<forall>i < SIGNAL_FRAME_SIZE. user_get (k_cr3 k) (k_mm k2) (unat (sr_rsp r1) + i) = user_get (k_cr3 k) (k_mm k1) (unat (sr_rsp r1) + i)"
    and r2: "sr_rsp r2 = sr_rsp r1 + 8"
  shows "(\<exists>k3. sys_rt_sigreturn r2 k2 = Some (sint (sr_rax r), r\<lparr> sr_r11 := (sr_r11 r AND USER_RFLAGS_MASK) OR USER_RFLAGS_RESERVED \<rparr>, k3)
      \<and> get_procmask (k_signals k3) pid = blocked)
    \<and> unat (sr_rsp r1) + SIGNAL_FRAME_SIZE + RED_ZONE_SIZE \<le> unat (sr_rsp r)
    \<and> sr_rcx r1 = sa_handler action \<and> sr_rdi r1 = word_of_int sig
    \<and> stored R (k_cr3 k) (unat (sr_rsp r1)) (SignalFrame_bytes (signal_frame_of sig action blocked r)) (k_mm k) (k_mm k1)"
  using sigreturn_spec [OF assms] .

definition demo_regs :: SyscallRegisters where
  "demo_regs = \<lparr> sr_r15 = 15, sr_r14 = 14, sr_r13 = 13, sr_r12 = 12, sr_rbp = 5, sr_rbx = 3, sr_r9 = 9, sr_r8 = 8, sr_r10 = 10,
     sr_rdx = 4, sr_rsi = 6, sr_rdi = 7, sr_rax = 1, sr_rcx = 0x400000, sr_r11 = 0x202, sr_rsp = 0x400800 \<rparr>"

definition demo_action :: SigAction where
  "demo_action = \<lparr> sa_handler = 0x400100, sa_flags = 0, sa_restorer = 0x400200, sa_mask = 0 \<rparr>"

definition demo_user_kernel :: kernel where
  "demo_user_kernel = demo_kernel\<lparr> k_cr3 := 8192 \<rparr>"

lemma demo_signal_rsp: "signal_rsp (sr_rsp demo_regs) = 4196064"
  by (simp add: signal_rsp_def demo_regs_def saturating_sub_def align_down_def posix_consts)

lemma demo_user_kernel_simps [simp]:
  "k_cr3 demo_user_kernel = 8192" "k_mm demo_user_kernel = demo_mapped" "k_current_pid demo_user_kernel = 1"
  by (simp_all add: demo_user_kernel_def demo_kernel_def kernel0_def)

theorem sigreturn_restores_witness:
  "\<exists>r1 k1 k3. deliver_signal_to_user 1 15 demo_action 0 demo_regs 0 demo_user_kernel = Some (Continue r1, k1)
    \<and> sr_rcx r1 = 0x400100 \<and> sys_rt_sigreturn (r1\<lparr> sr_rsp := sr_rsp r1 + 8 \<rparr>) k1 = Some (1, demo_regs, k3)"
proof -
  let ?k = demo_user_kernel
  let ?bs = "SignalFrame_bytes (signal_frame_of 15 demo_action 0 demo_regs)"
  have inv: "vm_inv {8192} (k_cr3 ?k) (k_mm ?k)" using demo_mapped(1) by simp
  have ok: "range_ok 8192 demo_mapped w 4196064 152" for w
    using demo_mapped_ok(1) by (simp add: range_ok_def USER_SPACE_END_def)
  then obtain k' s where w: "write_user 4196064 ?bs ?k = Some (Ok (), k')" "k' = ?k\<lparr> k_mm := s \<rparr>" "stored {8192} 8192 4196064 ?bs demo_mapped s"
    using write_user_spec [OF inv, of 4196064 ?bs] by (auto simp: USER_SPACE_END_def split: if_splits)
  obtain r1 k1 where del: "deliver_signal_to_user 1 15 demo_action 0 demo_regs 0 ?k = Some (Continue r1, k1)"
    and k1: "k_mm k1 = s" "k_cr3 k1 = 8192" "k_current_pid k1 = 1" and r1: "sr_rsp r1 = 4196064"
    using w(1,2) by (auto simp: deliver_signal_to_user_def demo_signal_rsp Let_def)
  have inv1: "vm_inv {8192} (k_cr3 ?k) (k_mm k1)" and m: "mapped 8192 s = mapped 8192 demo_mapped"
    using w(3) by (auto simp: stored_def k1)
  have "range_ok (k_cr3 ?k) (k_mm k1) False (unat (sr_rsp r1)) SIGNAL_FRAME_SIZE"
    using ok [of False] unfolding range_ok_def user_ok_def by (simp add: k1 m r1 posix_consts)
  from sigreturn_restores [OF inv _ _ del inv1 _ _ this, of "r1\<lparr> sr_rsp := sr_rsp r1 + 8 \<rparr>"] k1
  obtain k3 where "sys_rt_sigreturn (r1\<lparr> sr_rsp := sr_rsp r1 + 8 \<rparr>) k1 = Some (1, demo_regs, k3)" "sr_rcx r1 = 0x400100"
    by (auto simp: demo_regs_def demo_action_def posix_consts)
  then show ?thesis using del by blast
qed

end
