(* ===== verification/Credentials.thy ===== *)
theory Credentials
  imports Signals
begin

text \<open>
  The process identity system calls of \<^verbatim>\<open>services/posix/process.rs\<close>: process identifiers, user and group
  identifiers, and the file mode creation mask.
\<close>

subsection \<open>Identifiers of the calling process\<close>

definition sys_getpid :: "kernel \<Rightarrow> int" where
  "sys_getpid k = k_current_pid k"

definition sys_getppid :: "kernel \<Rightarrow> int" where
  "sys_getppid k = (case get_current_proc k of Some p \<Rightarrow> p_ppid p | None \<Rightarrow> 0)"

definition sys_getuid :: "kernel \<Rightarrow> int" where
  "sys_getuid k = (case get_current_proc k of Some p \<Rightarrow> uint (p_uid p) | None \<Rightarrow> 0)"

definition sys_geteuid :: "kernel \<Rightarrow> int" where
  "sys_geteuid k = (case get_current_proc k of Some p \<Rightarrow> uint (p_euid p) | None \<Rightarrow> 0)"

definition sys_getgid :: "kernel \<Rightarrow> int" where
  "sys_getgid k = (case get_current_proc k of Some p \<Rightarrow> uint (p_gid p) | None \<Rightarrow> 0)"

definition sys_getegid :: "kernel \<Rightarrow> int" where
  "sys_getegid k = (case get_current_proc k of Some p \<Rightarrow> uint (p_egid p) | None \<Rightarrow> 0)"

subsection \<open>Changing identifiers\<close>

text \<open>\<open>get_current_process\<close> with the error path, and the update of the process under its lock.\<close>

definition on_current :: "(Process \<Rightarrow> int \<times> Process) \<Rightarrow> kernel \<Rightarrow> int \<times> kernel" where
  "on_current f k =
    (case get_current_process k of
       None \<Rightarrow> (- ESRCH, k)
     | Some r \<Rightarrow> (fst (f (k_procs k r)), upd_proc r (\<lambda>p. snd (f p)) k))"

definition UNCHANGED :: u32 where "UNCHANGED = 0xFFFFFFFF"

definition update_res_ids :: "u32 \<Rightarrow> u32 \<Rightarrow> u32 \<Rightarrow> u32 \<Rightarrow> u32 \<Rightarrow> u32 \<Rightarrow> int \<times> u32 \<times> u32 \<times> u32" where
  "update_res_ids r e s cur_r cur_e cur_s =
    (let is_root = (cur_e = 0);
         valid = (\<lambda>i. i = UNCHANGED \<or> i = cur_r \<or> i = cur_e \<or> i = cur_s)
     in if is_root \<or> (valid r \<and> valid e \<and> valid s)
        then (0, if r \<noteq> UNCHANGED then r else cur_r, if e \<noteq> UNCHANGED then e else cur_e, if s \<noteq> UNCHANGED then s else cur_s)
        else (- EPERM, cur_r, cur_e, cur_s))"

definition sys_setuid :: "u32 \<Rightarrow> kernel \<Rightarrow> int \<times> kernel" where
  "sys_setuid uid = on_current (\<lambda>p.
     if p_euid p = 0 then (0, p\<lparr> p_uid := uid, p_euid := uid, p_suid := uid \<rparr>)
     else if uid = p_uid p \<or> uid = p_suid p then (0, p\<lparr> p_euid := uid \<rparr>)
     else (- EPERM, p))"

definition sys_setgid :: "u32 \<Rightarrow> kernel \<Rightarrow> int \<times> kernel" where
  "sys_setgid gid = on_current (\<lambda>p.
     if p_euid p = 0 then (0, p\<lparr> p_gid := gid, p_egid := gid, p_sgid := gid \<rparr>)
     else if gid = p_gid p \<or> gid = p_sgid p then (0, p\<lparr> p_egid := gid \<rparr>)
     else (- EPERM, p))"

definition sys_setresuid :: "u32 \<Rightarrow> u32 \<Rightarrow> u32 \<Rightarrow> kernel \<Rightarrow> int \<times> kernel" where
  "sys_setresuid ruid euid suid = on_current (\<lambda>p.
     let (res, r, e, s) = update_res_ids ruid euid suid (p_uid p) (p_euid p) (p_suid p)
     in (res, if res = 0 then p\<lparr> p_uid := r, p_euid := e, p_suid := s \<rparr> else p))"

definition sys_setresgid :: "u32 \<Rightarrow> u32 \<Rightarrow> u32 \<Rightarrow> kernel \<Rightarrow> int \<times> kernel" where
  "sys_setresgid rgid egid sgid = on_current (\<lambda>p.
     let (res, r, e, s) = update_res_ids rgid egid sgid (p_gid p) (p_egid p) (p_sgid p)
     in (res, if res = 0 then p\<lparr> p_gid := r, p_egid := e, p_sgid := s \<rparr> else p))"

definition write_user_id :: "usize \<Rightarrow> u32 \<Rightarrow> kernel \<Rightarrow> (unit kres \<times> kernel) option" where
  "write_user_id ptr i k = write_optional ptr (u32_bytes i) k"

text \<open>The three writes of \<open>sys_getresuid\<close> and \<open>sys_getresgid\<close>, stopping at the first error.\<close>

fun write_user_ids :: "(usize \<times> u32) list \<Rightarrow> kernel \<Rightarrow> (int \<times> kernel) option" where
  "write_user_ids [] k = Some (0, k)"
| "write_user_ids ((ptr, i) # rest) k =
    (case write_user_id ptr i k of
       None \<Rightarrow> None
     | Some (Ok _, k) \<Rightarrow> write_user_ids rest k
     | Some (Err e, k) \<Rightarrow> Some (- e, k)
     | Some (Panic, k) \<Rightarrow> None)"

definition sys_getresuid :: "usize \<Rightarrow> usize \<Rightarrow> usize \<Rightarrow> kernel \<Rightarrow> (int \<times> kernel) option" where
  "sys_getresuid ruid_ptr euid_ptr suid_ptr k =
    (case get_current_proc k of
       None \<Rightarrow> Some (- ESRCH, k)
     | Some p \<Rightarrow> write_user_ids [(ruid_ptr, p_uid p), (euid_ptr, p_euid p), (suid_ptr, p_suid p)] k)"

definition sys_getresgid :: "usize \<Rightarrow> usize \<Rightarrow> usize \<Rightarrow> kernel \<Rightarrow> (int \<times> kernel) option" where
  "sys_getresgid rgid_ptr egid_ptr sgid_ptr k =
    (case get_current_proc k of
       None \<Rightarrow> Some (- ESRCH, k)
     | Some p \<Rightarrow> write_user_ids [(rgid_ptr, p_gid p), (egid_ptr, p_egid p), (sgid_ptr, p_sgid p)] k)"

definition sys_umask :: "u32 \<Rightarrow> kernel \<Rightarrow> int \<times> kernel" where
  "sys_umask m = on_current (\<lambda>p. (uint (p_umask p), p\<lparr> p_umask := m AND 0x1FF \<rparr>))"

subsection \<open>No gain of privilege\<close>

text \<open>The calls that change identifiers, as steps of a process's credentials.\<close>

inductive cred_step :: "kernel \<Rightarrow> kernel \<Rightarrow> bool" where
  setuid: "cred_step k (snd (sys_setuid uid k))"
| setgid: "cred_step k (snd (sys_setgid gid k))"
| setresuid: "cred_step k (snd (sys_setresuid r e s k))"
| setresgid: "cred_step k (snd (sys_setresgid r e s k))"
| umask: "cred_step k (snd (sys_umask m k))"

definition uids :: "Process \<Rightarrow> u32 set" where
  "uids p = {p_uid p, p_euid p, p_suid p}"

definition gids :: "Process \<Rightarrow> u32 set" where
  "gids p = {p_gid p, p_egid p, p_sgid p}"

text \<open>What a step does to the process it acts on, and that it acts on no other.\<close>

lemma on_current_snd:
  "k_procs (snd (on_current f k)) r = (if k_current k = Some r then snd (f (k_procs k r)) else k_procs k r)"
  "k_current (snd (on_current f k)) = k_current k"
  by (auto simp: on_current_def get_current_process_def split: option.split)

lemma update_res_ids_subset:
  assumes "cur_e \<noteq> 0" "update_res_ids r e s cur_r cur_e cur_s = (res, r', e', s')"
  shows "{r', e', s'} \<subseteq> {cur_r, cur_e, cur_s}"
  using assms by (auto simp: update_res_ids_def Let_def split: if_splits)

lemma cred_step_uids:
  assumes "cred_step k k'" "0 \<notin> uids (k_procs k r)"
  shows "uids (k_procs k' r) \<subseteq> uids (k_procs k r)"
  using assms
proof cases
  case (setresuid a e s)
  obtain res x y z where u: "update_res_ids a e s (p_uid (k_procs k r)) (p_euid (k_procs k r)) (p_suid (k_procs k r)) = (res, x, y, z)"
    by (metis prod_cases4)
  have "p_euid (k_procs k r) \<noteq> 0" using assms(2) by (simp add: uids_def)
  from update_res_ids_subset [OF this u] show ?thesis
    by (auto simp: setresuid sys_setresuid_def on_current_snd u uids_def)
qed (auto simp: sys_setuid_def sys_setgid_def sys_setresgid_def sys_umask_def on_current_snd uids_def Let_def split: prod.splits if_splits)

lemma cred_step_gids:
  assumes "cred_step k k'" "p_euid (k_procs k r) \<noteq> 0" "0 \<notin> gids (k_procs k r)"
  shows "gids (k_procs k' r) \<subseteq> gids (k_procs k r)"
  using assms
proof cases
  case (setresgid a e s)
  obtain res x y z where u: "update_res_ids a e s (p_gid (k_procs k r)) (p_egid (k_procs k r)) (p_sgid (k_procs k r)) = (res, x, y, z)"
    by (metis prod_cases4)
  have "p_egid (k_procs k r) \<noteq> 0" using assms(3) by (simp add: gids_def)
  from update_res_ids_subset [OF this u] show ?thesis
    by (auto simp: setresgid sys_setresgid_def on_current_snd u gids_def)
qed (auto simp: sys_setuid_def sys_setgid_def sys_setresuid_def sys_umask_def on_current_snd gids_def Let_def split: prod.splits if_splits)

lemma cred_steps_kept:
  assumes "cred_step\<^sup>*\<^sup>* k k'" and "0 \<notin> uids (k_procs k r)"
  shows "uids (k_procs k' r) \<subseteq> uids (k_procs k r) \<and> (0 \<notin> gids (k_procs k r) \<longrightarrow> gids (k_procs k' r) \<subseteq> gids (k_procs k r))"
  using assms(1)
proof induction
  case (step k1 k2)
  have u: "0 \<notin> uids (k_procs k1 r)" using step.IH assms(2) by blast
  then have "p_euid (k_procs k1 r) \<noteq> 0" by (simp add: uids_def)
  then show ?case using cred_step_uids [OF step.hyps(2) u] cred_step_gids [OF step.hyps(2), of r] step.IH by blast
qed simp

lemma setresgid_any_group:
  assumes "k_current k = Some r" "p_egid (k_procs k r) = 0" "g \<noteq> UNCHANGED"
  shows "\<exists>k2. cred_step k k2 \<and> gids (k_procs k2 r) = {g} \<and> uids (k_procs k2 r) = uids (k_procs k r)"
  using cred_step.setresgid [of k g g g] assms
  by (intro exI [of _ "snd (sys_setresgid g g g k)"])
    (simp add: sys_setresgid_def on_current_def get_current_process_def update_res_ids_def gids_def uids_def Let_def)

text \<open>
  C29: What a process without user identifier 0 can gain with the identity system calls: whatever sequence of them runs
  (by this or any other process), its user identifiers stay among its original ones, and so do its group identifiers if none of
  them is 0. The condition on the groups is needed: \<open>setresgid\<close> takes effective group 0 for privilege, so such a
  process gets any group it asks for, whatever its user identifiers are.
\<close>

theorem no_privilege_gain:
  assumes "cred_step\<^sup>*\<^sup>* k k'" and "0 \<notin> uids (k_procs k r)"
  shows "uids (k_procs k' r) \<subseteq> uids (k_procs k r) \<and> (0 \<notin> gids (k_procs k r) \<longrightarrow> gids (k_procs k' r) \<subseteq> gids (k_procs k r))
    \<and> (\<forall>g. k_current k = Some r \<and> p_egid (k_procs k r) = 0 \<and> g \<noteq> UNCHANGED \<longrightarrow>
        (\<exists>k2. cred_step k k2 \<and> gids (k_procs k2 r) = {g} \<and> uids (k_procs k2 r) = uids (k_procs k r)))"
  using cred_steps_kept [OF assms] setresgid_any_group [of k r] by blast

definition demo_cred_kernel :: kernel where
  "demo_cred_kernel = upd_proc 1 (\<lambda>p. p\<lparr> p_uid := 1000, p_euid := 1001, p_suid := 1002, p_gid := 5, p_egid := 5, p_sgid := 5 \<rparr>) demo_kernel"

theorem no_privilege_gain_witness:
  "p_euid (k_procs (snd (sys_setuid 1002 demo_cred_kernel)) 1) = 1002
   \<and> p_euid (k_procs (snd (sys_setuid 0 (snd (sys_setuid 1002 demo_cred_kernel)))) 1) \<noteq> 0"
proof -
  let ?k = "snd (sys_setuid 1002 demo_cred_kernel)"
  have "cred_step\<^sup>*\<^sup>* demo_cred_kernel (snd (sys_setuid 0 ?k))"
    using cred_step.setuid [of demo_cred_kernel 1002] cred_step.setuid [of ?k 0] by (meson converse_rtranclp_into_rtranclp rtranclp.rtrancl_refl)
  moreover have "0 \<notin> uids (k_procs demo_cred_kernel 1)" by (simp add: uids_def demo_cred_kernel_def)
  ultimately have "uids (k_procs (snd (sys_setuid 0 ?k)) 1) \<subseteq> uids (k_procs demo_cred_kernel 1)"
    using no_privilege_gain by blast
  then have "p_euid (k_procs (snd (sys_setuid 0 ?k)) 1) \<noteq> 0" by (auto simp: uids_def demo_cred_kernel_def)
  then show ?thesis
    by (simp add: sys_setuid_def on_current_snd demo_cred_kernel_def demo_kernel_def)
qed

text \<open>
  The group calls disagree about who is privileged: \<open>setgid\<close> asks for effective user 0, while
  \<open>setresgid\<close> asks for effective group 0. So a process of an ordinary user in group 0 may take any group
  identifier with \<open>setresgid\<close> although \<open>setgid\<close> refuses, and the superuser in another group is refused by
  \<open>setresgid\<close> although \<open>setgid\<close> allows it.
\<close>

theorem setresgid_checks_group:
  assumes cur: "k_current k = Some r" and g: "g \<noteq> UNCHANGED" "g \<noteq> p_gid (k_procs k r)" "g \<noteq> p_egid (k_procs k r)" "g \<noteq> p_sgid (k_procs k r)"
  shows "(p_euid (k_procs k r) \<noteq> 0 \<and> p_egid (k_procs k r) = 0 \<longrightarrow>
      fst (sys_setgid g k) = - EPERM \<and> fst (sys_setresgid g g g k) = 0 \<and> p_egid (k_procs (snd (sys_setresgid g g g k)) r) = g)
    \<and> (p_euid (k_procs k r) = 0 \<and> p_egid (k_procs k r) \<noteq> 0 \<longrightarrow>
      fst (sys_setgid g k) = 0 \<and> fst (sys_setresgid g g g k) = - EPERM)"
  using assms
  by (auto simp: sys_setgid_def sys_setresgid_def on_current_def get_current_process_def update_res_ids_def Let_def EPERM_def)

theorem setresgid_checks_group_witness:
  "fst (sys_setresgid 7 7 7 (upd_proc 1 (\<lambda>p. p\<lparr> p_euid := 1000 \<rparr>) demo_kernel)) = 0"
proof -
  let ?k = "upd_proc 1 (\<lambda>p. p\<lparr> p_euid := 1000 \<rparr>) demo_kernel"
  have "k_current ?k = Some 1" by (simp add: demo_kernel_def)
  from setresgid_checks_group [OF this, of 7] show ?thesis
    by (simp add: UNCHANGED_def demo_kernel_def demo_procs_def Process_new_def)
qed

end
