(* ===== verification/Posix_Process.thy ===== *)
theory Posix_Process
  imports Credentials Vm_Clone
begin

text \<open>
  Process life cycle: \<open>fork\<close>, \<open>wait4\<close> and the release of reaped processes, from
  \<^verbatim>\<open>services/posix/process.rs\<close>.
\<close>

subsection \<open>fork\<close>

text \<open>The address space of the child: \<open>Err\<close> when memory runs out, \<open>Panic\<close> when the clone panics.\<close>

definition clone_vm :: "Process \<Rightarrow> kernel \<Rightarrow> VmSpace option kres \<times> kernel" where
  "clone_vm p k =
    (case p_vm_space p of
       None \<Rightarrow> (Ok None, k)
     | Some vm \<Rightarrow>
        (case clone_from (k_cr3 k) vm (k_mm k) of
           (Ok (Some v), s) \<Rightarrow> (Ok (Some v), k\<lparr> k_mm := s \<rparr>)
         | (Ok None, s) \<Rightarrow> (Err ENOMEM, k\<lparr> k_mm := s \<rparr>)
         | (_, s) \<Rightarrow> (Panic, k\<lparr> k_mm := s \<rparr>)))"

definition open_handles :: "nat option list \<Rightarrow> nat list" where
  "open_handles fds = map the (filter (\<lambda>s. s \<noteq> None) fds)"

definition copy_signals :: "i32 \<Rightarrow> i32 \<Rightarrow> SignalManager \<Rightarrow> SignalManager" where
  "copy_signals parent child sm =
    (let sm = snd (set_procmask child SIG_SETMASK (get_procmask sm parent) sm)
     in fold (\<lambda>sig sm. snd (set_action child sig (get_action sm parent sig) sm)) [SIG_MIN..SIG_MAX] sm)"

definition fork_child :: "usize \<Rightarrow> i32 \<Rightarrow> Process \<Rightarrow> VmSpace option \<Rightarrow> Process" where
  "fork_child stack_ptr child_pid p vm =
    (Process_new stack_ptr child_pid (p_pid p) (p_cwd p))
      \<lparr> p_uid := p_uid p, p_gid := p_gid p, p_euid := p_euid p, p_egid := p_egid p, p_suid := p_suid p, p_sgid := p_sgid p,
        p_umask := p_umask p, p_vm_space := vm, p_entry_point := p_entry_point p, p_user_stack_top := p_user_stack_top p,
        p_mmap_next_vaddr := p_mmap_next_vaddr p, p_has_started := True, p_fds := p_fds p \<rparr>"

text \<open>\<open>stack_ptr\<close> is the address of the kernel stack allocated for the child.\<close>

definition sys_fork :: "SyscallRegisters \<Rightarrow> usize \<Rightarrow> kernel \<Rightarrow> (int \<times> kernel) option" where
  "sys_fork parent_regs stack_ptr k =
    (case get_current_process k of
       None \<Rightarrow> Some (- ESRCH, k)
     | Some parent \<Rightarrow>
        let p = k_procs k parent in
        case clone_vm p k of
          (Err e, k) \<Rightarrow> Some (- e, k)
        | (Panic, k) \<Rightarrow> None
        | (Ok vm, k) \<Rightarrow>
           let k = fold handle_clone (open_handles (p_fds p)) k;
               (child_pid, k) = alloc_pid k;
               child = fork_child stack_ptr child_pid p vm;
               k = k\<lparr> k_signals := copy_signals (p_pid p) child_pid (k_signals k) \<rparr>
           in case init_fork_child_stack (p_kernel_stack child) parent_regs of
                None \<Rightarrow> None
              | Some (st, rsp) \<Rightarrow>
                 (case spawn_task child_pid (child\<lparr> p_kernel_stack := st, p_saved_kernel_rsp := rsp \<rparr>) k of
                    None \<Rightarrow> None
                  | Some k \<Rightarrow> Some (child_pid, k)))"

subsection \<open>wait4\<close>

definition encode_wait_status :: "i32 \<Rightarrow> i32 option \<Rightarrow> i32" where
  "encode_wait_status exit_code killed_by_sig =
    (case killed_by_sig of Some sig \<Rightarrow> sig AND 0x7F | None \<Rightarrow> push_bit 8 (exit_code AND 0xFF))"

definition wait_candidates :: "i32 \<Rightarrow> kernel \<Rightarrow> (i32 \<times> nat) list" where
  "wait_candidates pid k =
    (if pid = -1 \<or> pid = 0 \<or> pid < -1 then k_table k
     else case bt_get (k_table k) pid of Some r \<Rightarrow> [(pid, r)] | None \<Rightarrow> [])"

text \<open>The loop over the candidates: whether there are children, and the first zombie with its status.\<close>

fun find_zombie :: "i32 \<Rightarrow> (i32 \<times> nat) list \<Rightarrow> kernel \<Rightarrow> bool \<times> (i32 \<times> nat \<times> i32) option" where
  "find_zombie calling_pid [] k = (False, None)"
| "find_zombie calling_pid ((p, r) # cs) k =
    (let proc = k_procs k r in
     if p_ppid proc = calling_pid then
       if p_state proc = Zombie then (True, Some (p, r, encode_wait_status (p_exit_code proc) (p_killed_by_sig proc)))
       else (True, snd (find_zombie calling_pid cs k))
     else find_zombie calling_pid cs k)"

definition proc_drops :: "nat list \<Rightarrow> kernel \<Rightarrow> kernel option" where
  "proc_drops rs k = fold (\<lambda>r ko. case ko of None \<Rightarrow> None | Some k \<Rightarrow> proc_drop r k) rs (Some k)"

text \<open>
  One iteration. The snapshot of candidates holds a reference to each of them until the iteration ends:
  \<open>Return\<close> ends the call, \<open>Suspend\<close> has given the CPU away and continues with \<open>wait_resume\<close>.
\<close>

datatype wait_outcome = Return int | Suspend "(i32 \<times> nat) list"

definition reap :: "i32 \<Rightarrow> nat \<Rightarrow> i32 \<Rightarrow> usize \<Rightarrow> kernel \<Rightarrow> (int \<times> kernel) option" where
  "reap target r exit_status status_ptr k =
    (case proc_drop r (snd (table_remove target k)) of
       None \<Rightarrow> None
     | Some k \<Rightarrow>
        let k = k\<lparr> k_signals := cleanup_process target (k_signals k) \<rparr> in
        (case write_optional status_ptr (i32_bytes exit_status) k of
           None \<Rightarrow> None
         | Some (Ok _, k) \<Rightarrow> Some (target, k)
         | Some (Err e, k) \<Rightarrow> Some (- e, k)
         | Some (Panic, k) \<Rightarrow> None))"

definition wait_finish :: "(i32 \<times> nat) list \<Rightarrow> (int \<times> kernel) option \<Rightarrow> (wait_outcome \<times> kernel) option" where
  "wait_finish cs res =
    (case res of None \<Rightarrow> None | Some (ret, k) \<Rightarrow> map_option (Pair (Return ret)) (proc_drops (map snd cs) k))"

definition sys_wait4 :: "i32 \<Rightarrow> usize \<Rightarrow> i32 \<Rightarrow> usize \<Rightarrow> kernel \<Rightarrow> (wait_outcome \<times> kernel) option" where
  "sys_wait4 pid status_ptr options rsp k =
    (let calling_pid = k_current_pid k;
         cs = wait_candidates pid k;
         k = fold (\<lambda>c. proc_clone (snd c)) cs k
     in if pid > 0 \<and> cs = [] then wait_finish cs (Some (- ECHILD, k))
        else case find_zombie calling_pid cs k of
          (False, _) \<Rightarrow> wait_finish cs (Some (- ECHILD, k))
        | (True, Some (target, r, st)) \<Rightarrow> wait_finish cs (reap target r st status_ptr k)
        | (True, None) \<Rightarrow>
            if options AND WNOHANG \<noteq> 0 then wait_finish cs (Some (0, k))
            else
              let k = mark_current_blocked k in
              case snd (find_zombie calling_pid cs k) of
                Some (target, r, st) \<Rightarrow> wait_finish cs (reap target r st status_ptr (mark_current_running k))
              | None \<Rightarrow> Some (Suspend cs, snd (switch_out_current rsp k)))"

text \<open>
  The caller runs again: \<open>switch_out_current\<close> drops the reference it kept to its own process. The result is
  \<open>Return\<close> for an interruption by a signal; otherwise the loop goes round (\<open>None\<close> of the inner option).
\<close>

definition wait_resume :: "i32 \<Rightarrow> (i32 \<times> nat) list \<Rightarrow> nat \<Rightarrow> kernel \<Rightarrow> (int option \<times> kernel) option" where
  "wait_resume calling_pid cs self k =
    (case proc_drop self k of
       None \<Rightarrow> None
     | Some k \<Rightarrow>
        let k = mark_current_running k;
            ret = (if has_unblocked_signals (k_signals k) calling_pid then Some (- EINTR) else None)
        in map_option (Pair ret) (proc_drops (map snd cs) k))"

subsection \<open>fork is correct\<close>

lemma handle_clones_rc: "fold handle_clone hs k = k\<lparr> k_handle_rc := \<lambda>h. k_handle_rc k h + count_list hs h \<rparr>"
proof (induction hs arbitrary: k)
  case (Cons h hs)
  then show ?case by (auto simp: handle_clone_def fun_eq_iff intro!: kernel.fold_congs)
qed simp

lemma handle_clones_simps [simp]:
  "sched_view (fold handle_clone hs k) = sched_view k" "k_mm (fold handle_clone hs k) = k_mm k"
  "k_next_pid (fold handle_clone hs k) = k_next_pid k" "k_procs (fold handle_clone hs k) = k_procs k"
  "k_queue (fold handle_clone hs k) = k_queue k" "k_table (fold handle_clone hs k) = k_table k"
  "k_nprocs (fold handle_clone hs k) = k_nprocs k" "k_signals (fold handle_clone hs k) = k_signals k"
  by (simp_all add: handle_clones_rc sched_view_def)

lemma spawn_task_fresh:
  assumes "bt_get (k_table k) pid = None"
  shows "spawn_task pid p k = Some (k\<lparr> k_procs := (k_procs k)(k_nprocs k := p),
     k_proc_rc := (k_proc_rc k)(k_nprocs k := Suc (Suc 0)), k_nprocs := Suc (k_nprocs k),
     k_table := bt_insert pid (k_nprocs k) (k_table k), k_queue := k_queue k @ [k_nprocs k] \<rparr>)"
  using assms by (simp add: spawn_task_def proc_alloc_def table_insert_def Let_def proc_clone_def add_task_def)

lemma fork_stack:
  obtains st rsp where "init_fork_child_stack (p_kernel_stack (fork_child sp pid p vm)) regs = Some (st, rsp)"
    "frame_at st rsp = fork_frame regs"
proof -
  have "TRAP_FRAME_SIZE \<le> length (ks_bytes (p_kernel_stack (fork_child sp pid p vm)))"
    by (simp add: fork_child_def Process_new_def posix_consts)
  then show ?thesis using that unfolding init_fork_child_stack_def by (rule put_frame_spec)
qed

text \<open>The state before the child is entered into the table and the queue.\<close>

lemma sig_inv_action_fixed: "sig_inv sm \<Longrightarrow> sig = SIGKILL \<or> sig = SIGSTOP \<Longrightarrow> get_action sm pid sig = SigAction_default"
  by (auto simp: sig_inv_def get_action_def posix_consts split: option.splits)

lemma get_action_set:
  assumes "sig_inv sm"
  shows "get_action (snd (set_action pid s act sm)) x sig =
    (if x = pid \<and> sig = s \<and> sig_valid s \<and> s \<noteq> SIGKILL \<and> s \<noteq> SIGSTOP then act else get_action sm x sig)"
proof (cases "sig_valid s \<and> s \<noteq> SIGKILL \<and> s \<noteq> SIGSTOP")
  case True
  let ?acts = "bt_get_or (replicate 32 SigAction_default) (signal_actions sm) pid"
  have "length ?acts = 32" using assms by (auto simp: bt_get_or_def sig_inv_def split: option.splits)
  then have "?acts[nat s := act] ! nat sig = (if sig = s then act else ?acts ! nat sig)" if "sig_valid sig"
    using that True by (auto simp: nth_list_update sig_valid_def SIG_MIN_def SIG_MAX_def)
  moreover have "?acts ! nat sig = get_action sm pid sig" if "sig_valid sig"
    using that by (auto simp: bt_get_or_def get_action_def sig_valid_def SIG_MIN_def SIG_MAX_def split: option.splits)
  ultimately show ?thesis using True by (auto simp: set_action_def get_action_def Let_def)
qed (auto simp: set_action_def)

lemma copy_actions:
  assumes "sig_inv sm" and "sm' = fold (\<lambda>sig sm. snd (set_action child sig (get_action sm parent sig) sm)) ss sm"
  shows "get_action sm' x sig = (if x = child \<and> sig \<in> set ss then get_action sm parent sig else get_action sm x sig)
    \<and> get_procmask sm' = get_procmask sm \<and> get_pending sm' = get_pending sm"
  using assms
proof (induction ss arbitrary: sm)
  case (Cons s ss)
  let ?sm = "snd (set_action child s (get_action sm parent s) sm)"
  have same: "get_procmask ?sm = get_procmask sm" "get_pending ?sm = get_pending sm"
    by (simp_all add: set_action_def get_procmask_def get_pending_def Let_def fun_eq_iff)
  have act: "get_action ?sm y g = (if y = child \<and> g = s then get_action sm parent s else get_action sm y g)" for y g
    using sig_inv_action_fixed [OF Cons.prems(1)] by (auto simp: get_action_set [OF Cons.prems(1)]) (auto simp: get_action_def)
  then have "get_action ?sm parent g = get_action sm parent g" for g by simp
  then show ?case using Cons.IH [OF set_action_inv [OF Cons.prems(1)], of child s "get_action sm parent s"] Cons.prems(2) act same by simp blast
qed simp

text \<open>The child starts with the mask and the actions of its parent; pending signals are not copied.\<close>

lemma copy_signals_spec:
  assumes "sig_inv sm" and sm': "sm' = copy_signals parent child sm"
  shows "get_action sm' x sig = (if x = child then get_action sm parent sig else get_action sm x sig)"
    "get_procmask sm' x = (if x = child then get_procmask sm parent else get_procmask sm x)" "get_pending sm' = get_pending sm"
proof -
  let ?m = "get_procmask sm parent" and ?sm = "snd (set_procmask child SIG_SETMASK (get_procmask sm parent) sm)"
  have "?m AND NOT (sig_bit SIGKILL OR sig_bit SIGSTOP) = ?m"
    using assms(1) by (intro bit_eqI) (auto simp: sig_inv_def bit_simps bit_sig_bit posix_consts)
  then have sm: "?sm = sm\<lparr> blocked_masks := bt_insert child ?m (blocked_masks sm) \<rparr>"
    by (simp add: set_procmask_def Let_def posix_consts)
  then have a: "get_action ?sm = get_action sm" "get_pending ?sm = get_pending sm"
    "get_procmask ?sm y = (if y = child then ?m else get_procmask sm y)" for y
    by (simp_all add: get_action_def get_pending_def fun_eq_iff)
  note c = copy_actions [OF set_procmask_inv [OF assms(1)] sm' [unfolded copy_signals_def Let_def], of x sig]
  show "get_action sm' x sig = (if x = child then get_action sm parent sig else get_action sm x sig)"
    using c a(1) by (auto simp: get_action_def sig_valid_def)
  show "get_procmask sm' x = (if x = child then ?m else get_procmask sm x)" "get_pending sm' = get_pending sm" using c a by simp_all
qed

text \<open>The state in which the child is entered into the tables.\<close>

definition fork_ready :: "nat \<Rightarrow> mmu \<Rightarrow> kernel \<Rightarrow> kernel" where
  "fork_ready c s k = k\<lparr> k_mm := s, k_handle_rc := \<lambda>h. k_handle_rc k h + count_list (open_handles (p_fds (k_procs k c))) h,
     k_next_pid := wrap_i32 (k_next_pid k + 1),
     k_signals := copy_signals (p_pid (k_procs k c)) (k_next_pid k) (k_signals k) \<rparr>"

lemma fork_prepared_state:
  assumes cl: "clone_vm (k_procs k c) k = (Ok vm', k\<lparr> k_mm := s \<rparr>)" and cur: "k_current k = Some c" and pid: "0 < k_next_pid k"
    and st: "init_fork_child_stack (p_kernel_stack (fork_child sp (k_next_pid k) (k_procs k c) vm')) regs = Some (st, rsp)"
  shows "sys_fork regs sp k = map_option (Pair (k_next_pid k))
      (spawn_task (k_next_pid k) ((fork_child sp (k_next_pid k) (k_procs k c) vm')\<lparr> p_kernel_stack := st, p_saved_kernel_rsp := rsp \<rparr>)
        (fork_ready c s k))"
proof -
  have "alloc_pid (fold handle_clone hs (k\<lparr> k_mm := s \<rparr>)) = (k_next_pid k, (fold handle_clone hs (k\<lparr> k_mm := s \<rparr>))\<lparr> k_next_pid := wrap_i32 (k_next_pid k + 1) \<rparr>)" for hs
    using pid by (simp add: alloc_pid_def Let_def)
  then show ?thesis using cur cl st
    by (simp add: sys_fork_def get_current_process_def Let_def handle_clones_rc fork_ready_def split: option.split)
qed


lemma fork_prepared:
  assumes cl: "clone_vm (k_procs k c) k = (Ok vm', k1)" and cur: "k_current k = Some c" and pid: "0 < k_next_pid k"
    and st: "init_fork_child_stack (p_kernel_stack (fork_child sp (k_next_pid k) (k_procs k c) vm')) regs = Some (st, rsp)"
  obtains k2 where "sys_fork regs sp k = map_option (Pair (k_next_pid k))
      (spawn_task (k_next_pid k) ((fork_child sp (k_next_pid k) (k_procs k c) vm')\<lparr> p_kernel_stack := st, p_saved_kernel_rsp := rsp \<rparr>) k2)"
    "sched_view k2 = sched_view k" "k_procs k2 = k_procs k" "k_mm k2 = k_mm k1"
    "k_signals k2 = copy_signals (p_pid (k_procs k c)) (k_next_pid k) (k_signals k)"
proof -
  obtain s where k1: "k1 = k\<lparr> k_mm := s \<rparr>"
  proof -
    have "\<exists>s. k1 = k\<lparr> k_mm := s \<rparr>"
      using cl by (auto simp: clone_vm_def split: option.splits prod.splits kres.splits intro: exI [of _ "k_mm k"])
    then show ?thesis using that by blast
  qed
  show ?thesis
    by (rule that [OF fork_prepared_state [OF cl [unfolded k1] cur pid st]]) (simp_all add: fork_ready_def sched_view_def k1)
qed

text \<open>
  What a child has of its parent: the identities, the working directory, the descriptors and the layout of the address space. It is
  ready to return to user mode with the registers of the call and return value 0.
\<close>

definition child_of :: "Process \<Rightarrow> i32 \<Rightarrow> SyscallRegisters \<Rightarrow> VmSpace \<Rightarrow> Process \<Rightarrow> bool" where
  "child_of p pid regs cvm ch \<longleftrightarrow> p_pid ch = pid \<and> p_ppid ch = p_pid p \<and> p_state ch = Ready
    \<and> p_uid ch = p_uid p \<and> p_euid ch = p_euid p \<and> p_suid ch = p_suid p \<and> p_gid ch = p_gid p \<and> p_egid ch = p_egid p \<and> p_sgid ch = p_sgid p
    \<and> p_umask ch = p_umask p \<and> p_cwd ch = p_cwd p \<and> p_fds ch = p_fds p \<and> p_mmap_next_vaddr ch = p_mmap_next_vaddr p
    \<and> p_vm_space ch = Some cvm \<and> frame_at (p_kernel_stack ch) (p_saved_kernel_rsp ch) = fork_frame regs \<and> tf_rax (fork_frame regs) = 0"

lemma fork_spawned:
  assumes inv: "sched_inv k" and cur: "k_current k = Some c" and pid: "0 < k_next_pid k" "bt_get (k_table k) (k_next_pid k) = None"
    and cv: "clone_vm (k_procs k c) k = (Ok (Some cvm), k\<lparr> k_mm := s \<rparr>)"
  obtains ch k' where "sys_fork regs sp k = Some (k_next_pid k, k')" "sched_inv k'" "child_of (k_procs k c) (k_next_pid k) regs cvm ch"
    "k' = k\<lparr> k_mm := s, k_procs := (k_procs k)(k_nprocs k := ch), k_proc_rc := (k_proc_rc k)(k_nprocs k := 2),
       k_nprocs := k_nprocs k + 1, k_table := bt_insert (k_next_pid k) (k_nprocs k) (k_table k), k_next_pid := wrap_i32 (k_next_pid k + 1),
       k_queue := k_queue k @ [k_nprocs k], k_signals := copy_signals (p_pid (k_procs k c)) (k_next_pid k) (k_signals k),
       k_handle_rc := \<lambda>h. k_handle_rc k h + count_list (open_handles (p_fds (k_procs k c))) h \<rparr>"
proof -
  let ?p = "k_procs k c" and ?k = "fork_ready c s k"
  obtain st rsp where st: "init_fork_child_stack (p_kernel_stack (fork_child sp (k_next_pid k) ?p (Some cvm))) regs = Some (st, rsp)"
    "frame_at st rsp = fork_frame regs" using fork_stack by blast
  define ch where "ch = (fork_child sp (k_next_pid k) ?p (Some cvm))\<lparr> p_kernel_stack := st, p_saved_kernel_rsp := rsp \<rparr>"
  have ch: "child_of ?p (k_next_pid k) regs cvm ch" "p_state ch = Ready"
    using st(2) by (simp_all add: child_of_def ch_def fork_child_def Process_new_def fork_frame_def)
  have "sched_view ?k = sched_view k" by (simp add: sched_view_def fork_ready_def)
  then have inv2: "sched_inv ?k" using refines_inv [OF refines_view [OF inv]] by simp
  obtain k' where k': "spawn_task (k_next_pid k) ch ?k = Some k'" "sched_inv k'"
    using spawn_refines [OF inv2 ch(2), of "k_next_pid k"] pid(2) refines_inv by (auto simp: fork_ready_def)
  show ?thesis
  proof (rule that [OF _ k'(2) ch(1)])
    show "sys_fork regs sp k = Some (k_next_pid k, k')"
      using fork_prepared_state [OF cv cur pid(1) st(1)] k'(1) by (simp add: ch_def)
  qed (use spawn_task_fresh [of ?k "k_next_pid k" ch] pid(2) k'(1) in \<open>intro kernel.equality, auto simp: fork_ready_def numeral_2_eq_2\<close>)
qed

lemma view_fields:
  assumes "sched_view k2 = sched_view k"
  shows "k_queue k2 = k_queue k" "k_table k2 = k_table k" "k_nprocs k2 = k_nprocs k" "k_proc_rc k2 = k_proc_rc k"
    "k_current k2 = k_current k" "k_idle k2 = k_idle k" "k_current_pid k2 = k_current_pid k"
  using assms by (simp_all add: sched_view_def)

text \<open>
  C5: \<open>fork\<close> in a process with an address space, when the next process identifier is unused, never panics. When memory runs out it
  returns \<open>-ENOMEM\<close> and changes nothing but the free frames. Otherwise it returns the new identifier. The child is entered into the process
  table and at the end of the ready queue with two references, has each user and group identifier, the working directory, the mask
  and the descriptors of its parent, resumes in user mode at the parent's next instruction with return value 0, and every
  open file of the parent counts one reference more per descriptor. If the signal tables satisfy
  their invariant, the child has the signal mask and the actions of its parent, and those of all other processes and all pending
  signals stay. It has the areas of its parent and, if a frame is left over at the end,
  for every mapped page of the parent a page of its own with the same contents. The parent, all other processes and their address
  spaces, the files, pipes and every other part of the kernel state are unchanged and the scheduler invariant is kept.
\<close>

theorem fork_correct:
  assumes inv: "sched_inv k" and cur: "k_current k = Some c" and vm: "p_vm_space (k_procs k c) = Some vm" "vm_ok R vm (k_mm k)"
    and act: "PAGE_SIZE dvd k_cr3 k" "k_cr3 k \<notin> pool (k_mm k)"
    and pid: "0 < k_next_pid k" "bt_get (k_table k) (k_next_pid k) = None"
  shows "\<exists>ret k' s. sys_fork regs sp k = Some (ret, k') \<and> sched_inv k' \<and> kept R (k_mm k) s \<and> k_procs k' c = k_procs k c
    \<and> (ret = - ENOMEM \<and> k' = k\<lparr> k_mm := s \<rparr> \<or>
       ret = k_next_pid k
       \<and> (\<exists>ch cvm sm. child_of (k_procs k c) ret regs cvm ch
          \<and> k' = k\<lparr> k_mm := s, k_procs := (k_procs k)(k_nprocs k := ch), k_proc_rc := (k_proc_rc k)(k_nprocs k := 2),
               k_nprocs := k_nprocs k + 1, k_table := bt_insert ret (k_nprocs k) (k_table k), k_next_pid := wrap_i32 (ret + 1),
               k_queue := k_queue k @ [k_nprocs k], k_signals := sm,
               k_handle_rc := \<lambda>h. k_handle_rc k h + count_list (open_handles (p_fds (k_procs k c))) h \<rparr>
          \<and> (sig_inv (k_signals k) \<longrightarrow> get_pending sm = get_pending (k_signals k)
              \<and> (\<forall>x. get_procmask sm x = get_procmask (k_signals k) (if x = ret then p_pid (k_procs k c) else x))
              \<and> (\<forall>x sig. get_action sm x sig = get_action (k_signals k) (if x = ret then p_pid (k_procs k c) else x) sig))
          \<and> address_space cvm \<in> pool (k_mm k) \<and> vmas cvm = vmas vm
          \<and> (pool s \<noteq> {} \<longrightarrow> vm_ok (insert (address_space cvm) R) cvm s
              \<and> (\<forall>w \<in> area_pages (vmas vm). if mapped (address_space vm) (k_mm k) w = None
                  then mapped (address_space cvm) s w = None
                  else copied (address_space vm) (address_space cvm) (area_flags (vmas vm) w) (k_mm k) s w))))"
proof -
  obtain res s where cl: "clone_from (k_cr3 k) vm (k_mm k) = (res, s)" by fastforce
  from clone_from_spec [OF vm(2) act cl] obtain child where child: "res = Ok child" "kept R (k_mm k) s"
    "case child of None \<Rightarrow> True | Some ch \<Rightarrow> address_space ch \<in> pool (k_mm k) \<and> vmas ch = vmas vm
        \<and> vm_inv (insert (address_space ch) R) (address_space ch) s
        \<and> (pool s \<noteq> {} \<longrightarrow> vm_ok (insert (address_space ch) R) ch s
            \<and> (\<forall>w \<in> area_pages (vmas vm). if mapped (address_space vm) (k_mm k) w = None
                then mapped (address_space ch) s w = None
                else copied (address_space vm) (address_space ch) (area_flags (vmas vm) w) (k_mm k) s w))" by blast
  show ?thesis
  proof (cases child)
    case None
    have "sys_fork regs sp k = Some (- ENOMEM, k\<lparr> k_mm := s \<rparr>)"
      using cl child(1) None vm(1) cur by (simp add: sys_fork_def get_current_process_def clone_vm_def Let_def)
    moreover have v: "sched_view (k\<lparr> k_mm := s \<rparr>) = sched_view k" by (simp add: sched_view_def)
    moreover have "sched_inv (k\<lparr> k_mm := s \<rparr>)" using refines_inv [OF refines_view [OF inv v [symmetric]]] .
    ultimately show ?thesis using child(2) by (intro exI [of _ "- ENOMEM"] exI [of _ "k\<lparr> k_mm := s \<rparr>"] exI [of _ s]) simp
  next
    case (Some cvm)
    let ?p = "k_procs k c" and ?sm = "copy_signals (p_pid (k_procs k c)) (k_next_pid k) (k_signals k)"
    have "clone_vm ?p k = (Ok (Some cvm), k\<lparr> k_mm := s \<rparr>)" using cl child(1) Some vm(1) by (simp add: clone_vm_def)
    note sp = fork_spawned [OF inv cur pid this, of regs sp]
    show ?thesis
    proof (rule sp)
      fix ch k' assume run: "sys_fork regs sp k = Some (k_next_pid k, k')" "sched_inv k'" "child_of ?p (k_next_pid k) regs cvm ch"
        and eq: "k' = k\<lparr> k_mm := s, k_procs := (k_procs k)(k_nprocs k := ch), k_proc_rc := (k_proc_rc k)(k_nprocs k := 2),
          k_nprocs := k_nprocs k + 1, k_table := bt_insert (k_next_pid k) (k_nprocs k) (k_table k), k_next_pid := wrap_i32 (k_next_pid k + 1),
          k_queue := k_queue k @ [k_nprocs k], k_signals := ?sm, k_handle_rc := \<lambda>h. k_handle_rc k h + count_list (open_handles (p_fds ?p)) h \<rparr>"
      have "c < k_nprocs k" using sched_invD [OF inv] cur by (metis option.inject)
      then have p: "k_procs k' c = ?p" by (simp add: eq)
      have sg: "sig_inv (k_signals k) \<longrightarrow> get_pending ?sm = get_pending (k_signals k)
          \<and> (\<forall>x. get_procmask ?sm x = get_procmask (k_signals k) (if x = k_next_pid k then p_pid ?p else x))
          \<and> (\<forall>x sig. get_action ?sm x sig = get_action (k_signals k) (if x = k_next_pid k then p_pid ?p else x) sig)"
        using copy_signals_spec [OF _ HOL.refl, of "k_signals k" "p_pid ?p" "k_next_pid k"] by simp
      note mm = child(3) [unfolded Some option.case]
      show ?thesis
        by (intro exI conjI disjI2, rule run(1), rule run(2), rule child(2), rule p, rule HOL.refl, rule run(3), rule eq, rule sg)
          (use mm in blast)+
    qed
  qed
qed

definition demo_fork_kernel :: kernel where
  "demo_fork_kernel = upd_proc 1 (\<lambda>p. p\<lparr> p_vm_space := Some demo_mapped_vm \<rparr>) demo_user_kernel"

lemma demo_fork_kernel:
  "sched_inv demo_fork_kernel" "k_current demo_fork_kernel = Some 1" "k_next_pid demo_fork_kernel = 4"
  "k_mm demo_fork_kernel = demo_mapped" "k_cr3 demo_fork_kernel = 8192" "k_table demo_fork_kernel = [(0, 0), (1, 1), (2, 2), (3, 3)]"
  "p_vm_space (k_procs demo_fork_kernel 1) = Some demo_mapped_vm" "k_nprocs demo_fork_kernel = 4"
proof -
  have "sched_view demo_kernel = sched_view demo_fork_kernel"
    by (simp add: sched_view_def demo_fork_kernel_def demo_user_kernel_def fun_eq_iff)
  from refines_inv [OF refines_view [OF demo_kernel_inv this]] show "sched_inv demo_fork_kernel" .
qed (simp_all add: demo_fork_kernel_def demo_user_kernel_def demo_kernel_def kernel0_def)

theorem fork_correct_witness:
  "\<exists>ret k'. sys_fork demo_regs 0 demo_fork_kernel = Some (ret, k') \<and> sched_inv k'
    \<and> (ret = - ENOMEM \<or> ret = 4 \<and> bt_get (k_table k') 4 = Some 4 \<and> p_ppid (k_procs k' 4) = 1)"
proof -
  note d = demo_fork_kernel
  have vm: "vm_ok {8192} demo_mapped_vm (k_mm demo_fork_kernel)" "PAGE_SIZE dvd k_cr3 demo_fork_kernel"
    "k_cr3 demo_fork_kernel \<notin> pool (k_mm demo_fork_kernel)" "0 < k_next_pid demo_fork_kernel"
    "bt_get (k_table demo_fork_kernel) (k_next_pid demo_fork_kernel) = None"
    using demo_mapped_vm by (simp_all add: d bt_get_def)
  have "p_pid (k_procs demo_fork_kernel 1) = 1"
    by (simp add: demo_fork_kernel_def demo_user_kernel_def demo_kernel_def demo_procs_def Process_new_def)
  moreover obtain ret k' s where f: "sys_fork demo_regs 0 demo_fork_kernel = Some (ret, k')" "sched_inv k'"
    "ret = - ENOMEM \<and> k' = demo_fork_kernel\<lparr> k_mm := s \<rparr> \<or> ret = 4 \<and> (\<exists>ch cvm. child_of (k_procs demo_fork_kernel 1) 4 demo_regs cvm ch
        \<and> k_procs k' = (k_procs demo_fork_kernel)(4 := ch) \<and> k_table k' = bt_insert 4 4 (k_table demo_fork_kernel))"
    using fork_correct [OF d(1,2,7) vm, of demo_regs 0] unfolding d by fastforce
  ultimately show ?thesis by (intro exI [of _ ret] exI [of _ k']) (auto simp: d child_of_def bt_get_def)
qed

subsection \<open>wait4\<close>

lemma clones_rc: "fold (\<lambda>c. proc_clone (snd c)) cs k = k\<lparr> k_proc_rc := \<lambda>r. k_proc_rc k r + count_list (map snd cs) r \<rparr>"
proof (induction cs arbitrary: k)
  case (Cons c cs)
  have "fold (\<lambda>c. proc_clone (snd c)) (c # cs) k = fold (\<lambda>c. proc_clone (snd c)) cs (proc_clone (snd c) k)" by simp
  also have "\<dots> = (proc_clone (snd c) k)\<lparr> k_proc_rc := \<lambda>r. k_proc_rc (proc_clone (snd c) k) r + count_list (map snd cs) r \<rparr>"
    by (rule Cons)
  also have "\<dots> = k\<lparr> k_proc_rc := \<lambda>r. k_proc_rc k r + count_list (map snd (c # cs)) r \<rparr>"
    by (auto simp: proc_clone_def fun_eq_iff intro!: kernel.fold_congs)
  finally show ?case .
qed simp

lemma proc_drops_Cons: "proc_drops (r # rs) k = (case proc_drop r k of None \<Rightarrow> None | Some k \<Rightarrow> proc_drops rs k)"
proof -
  have "fold (\<lambda>r ko. case ko of None \<Rightarrow> None | Some k \<Rightarrow> proc_drop r k) rs None = None" by (induction rs) simp_all
  then show ?thesis by (simp add: proc_drops_def split: option.split)
qed

lemma drops_rc:
  "\<forall>r \<in> set rs. 0 < f r \<Longrightarrow> proc_drops rs (k\<lparr> k_proc_rc := \<lambda>r. f r + count_list rs r \<rparr>) = Some (k\<lparr> k_proc_rc := f \<rparr>)"
proof (induction rs)
  case (Cons r rs)
  let ?k = "k\<lparr> k_proc_rc := \<lambda>x. f x + count_list (r # rs) x \<rparr>"
  have "proc_drop r ?k = Some (k\<lparr> k_proc_rc := \<lambda>x. f x + count_list rs x \<rparr>)"
    using Cons.prems by (subst proc_drop_shared) (auto simp: fun_eq_iff)
  then show ?case using Cons by (simp add: proc_drops_Cons)
qed (simp add: proc_drops_def)

text \<open>Children of the caller among the candidates, and the first zombie of them.\<close>

definition children :: "i32 \<Rightarrow> i32 \<Rightarrow> kernel \<Rightarrow> (i32 \<times> nat) list" where
  "children pid calling k = filter (\<lambda>c. p_ppid (k_procs k (snd c)) = calling) (wait_candidates pid k)"

definition zombies :: "i32 \<Rightarrow> i32 \<Rightarrow> kernel \<Rightarrow> (i32 \<times> nat) list" where
  "zombies pid calling k = filter (\<lambda>c. proc_state k (snd c) = Zombie) (children pid calling k)"

lemma find_zombie_spec:
  "find_zombie calling cs k =
    (filter (\<lambda>c. p_ppid (k_procs k (snd c)) = calling) cs \<noteq> [],
     case filter (\<lambda>c. proc_state k (snd c) = Zombie) (filter (\<lambda>c. p_ppid (k_procs k (snd c)) = calling) cs) of
       [] \<Rightarrow> None
     | (p, r) # _ \<Rightarrow> Some (p, r, encode_wait_status (p_exit_code (k_procs k r)) (p_killed_by_sig (k_procs k r))))"
  by (induction cs) (auto simp: Let_def)

lemma proc_drop_table: "proc_drop r k = Some k' \<Longrightarrow> k_table k' = k_table k"
proof -
  have h: "k_table (fold handle_drop hs k) = k_table k" for hs k
  proof (induction hs arbitrary: k)
    case (Cons h hs)
    obtain k' pids where "handle_drop h k = wake_tasks pids k'" "sched_view k = sched_view k'"
      using handle_drop_wakes by blast
    then show ?case using Cons by (simp add: sched_view_def)
  qed simp
  assume "proc_drop r k = Some k'"
  then show ?thesis
    by (cases "k_proc_rc k r \<le> 1")
      (auto simp: proc_drop_last proc_drop_shared Let_def h split: option.splits dest!: vm_drop_view, simp_all add: sched_view_def h)
qed

lemma proc_drops_table: "proc_drops rs k = Some k' \<Longrightarrow> k_table k' = k_table k"
proof (induction rs arbitrary: k)
  case (Cons r rs)
  then obtain k1 where "proc_drop r k = Some k1" "proc_drops rs k1 = Some k'" by (auto simp: proc_drops_Cons split: option.splits)
  then show ?case using Cons.IH proc_drop_table by metis
qed (simp add: proc_drops_def)

lemma write_optional_table: "write_optional a bs k = Some (res, k') \<Longrightarrow> k_table k' = k_table k"
  by (auto simp: write_optional_def write_user_def split: if_splits sum.splits option.splits)

lemma validate_levels_not_TooLong: "validate_levels m n t v w \<noteq> Inl TooLong"
  by (induction m n t v w rule: validate_levels.induct) (auto simp: Let_def)

lemma validate_pages_not_TooLong: "validate_pages m root page end' w \<noteq> Inl TooLong"
proof (induction m root page end' w rule: validate_pages.induct)
  case (1 m root page end' w)
  then show ?case using validate_levels_not_TooLong [of m 4 root page w]
    by (auto simp: validate_pages.simps [of m root page] validate_user_page_def split: sum.splits option.splits)
qed

lemma write_user_EFAULT: "write_user a bs k = Some (Err e, k') \<Longrightarrow> e = EFAULT"
  using validate_pages_not_TooLong
  by (auto simp: write_user_def UserPtr_from_raw_def UserPtr_write_def validate_user_range_def map_user_error_def
      split: if_splits sum.splits option.splits UserAccessError.splits)

lemma reap_table:
  assumes "reap target r st ptr k = Some (ret, k')"
  shows "k_table k' = bt_remove target (k_table k) \<and> (ret = target \<or> ptr \<noteq> 0 \<and> ret = - EFAULT)"
proof -
  obtain k1 where k1: "proc_drop r (k\<lparr> k_table := bt_remove target (k_table k) \<rparr>) = Some k1"
    using assms by (auto simp: reap_def table_remove_def Let_def split: option.splits)
  define k2 where "k2 = k1\<lparr> k_signals := cleanup_process target (k_signals k1) \<rparr>"
  obtain res k3 where w: "write_optional ptr (i32_bytes st) k2 = Some (res, k3)" and k': "k' = k3"
    and ret: "res = Ok () \<and> ret = target \<or> (\<exists>e. res = Err e \<and> ret = - e)"
    using assms k1 by (auto simp: reap_def table_remove_def Let_def k2_def split: option.splits kres.splits)
  have "k_table k' = k_table k2" unfolding k' using w by (rule write_optional_table)
  moreover have "res = Err e \<Longrightarrow> ptr \<noteq> 0 \<and> e = EFAULT" for e
    using w by (auto simp: write_optional_def dest: write_user_EFAULT split: if_splits)
  ultimately show ?thesis using ret proc_drop_table [OF k1] by (auto simp: k2_def)
qed

lemma wait_candidates_rc:
  assumes "arc_ok k" "c \<in> set (wait_candidates pid k)" shows "0 < k_proc_rc k (snd c)"
proof -
  have "c \<in> set (k_table k)"
    using assms(2) by (auto simp: wait_candidates_def split: if_splits option.splits intro: bt_get_in_set [OF sym])
  then have "0 < count_list (map snd (k_table k)) (snd c)"
    by (metis count_list_0_iff gr0I image_eqI list.set_map)
  then show ?thesis using refs_le [OF assms(1), of "snd c"] by (simp add: refs_def)
qed

text \<open>
  C30: \<open>wait4\<close> reaps only zombie children of the caller. It returns \<open>-ECHILD\<close> exactly when no
  candidate is a child of the caller. If a child is a zombie, the first one in the order of the table is
  removed from the process table and its identifier is returned, or \<open>-EFAULT\<close> when the status cannot be
  stored. If there are children but no zombie, it returns 0 with \<open>WNOHANG\<close> and otherwise suspends the caller.
  Without a zombie nothing is changed unless the caller is suspended.
\<close>

theorem wait4_correct:
  assumes arc: "arc_ok k" and w: "sys_wait4 pid status_ptr options rsp k = Some (out, k')"
  shows "case out of
      Return ret \<Rightarrow>
        if children pid (k_current_pid k) k = [] then ret = - ECHILD \<and> k' = k
        else (case zombies pid (k_current_pid k) k of
            [] \<Rightarrow> options AND WNOHANG \<noteq> 0 \<and> ret = 0 \<and> k' = k
          | (p, r) # _ \<Rightarrow> p_ppid (k_procs k r) = k_current_pid k \<and> proc_state k r = Zombie
              \<and> k_table k' = bt_remove p (k_table k) \<and> (ret = p \<or> status_ptr \<noteq> 0 \<and> ret = - EFAULT))
    | Suspend cs \<Rightarrow> children pid (k_current_pid k) k \<noteq> [] \<and> zombies pid (k_current_pid k) k = [] \<and> options AND WNOHANG = 0"
proof -
  define cs where "cs = wait_candidates pid k"
  define k1 where "k1 = fold (\<lambda>c. proc_clone (snd c)) cs k"
  have k1: "k1 = k\<lparr> k_proc_rc := \<lambda>r. k_proc_rc k r + count_list (map snd cs) r \<rparr>" unfolding k1_def by (rule clones_rc)
  have fin: "wait_finish cs (Some (ret, k1)) = Some (Return ret, k)" for ret
    using drops_rc [of "map snd cs" "k_proc_rc k" k] wait_candidates_rc [OF arc, of _ pid] by (auto simp: wait_finish_def k1 cs_def)
  have p1: "k_procs k1 = k_procs k" by (simp add: k1)
  have fz: "find_zombie (k_current_pid k) cs k1 =
      (children pid (k_current_pid k) k \<noteq> [],
       case zombies pid (k_current_pid k) k of [] \<Rightarrow> None
       | (p, r) # _ \<Rightarrow> Some (p, r, encode_wait_status (p_exit_code (k_procs k r)) (p_killed_by_sig (k_procs k r))))"
    unfolding find_zombie_spec zombies_def children_def cs_def p1 ..
  have w': "(if pid > 0 \<and> cs = [] then wait_finish cs (Some (- ECHILD, k1))
      else case find_zombie (k_current_pid k) cs k1 of
          (False, _) \<Rightarrow> wait_finish cs (Some (- ECHILD, k1))
        | (True, Some (target, r, st)) \<Rightarrow> wait_finish cs (reap target r st status_ptr k1)
        | (True, None) \<Rightarrow>
            if options AND WNOHANG \<noteq> 0 then wait_finish cs (Some (0, k1))
            else case snd (find_zombie (k_current_pid k) cs (mark_current_blocked k1)) of
                Some (target, r, st) \<Rightarrow> wait_finish cs (reap target r st status_ptr (mark_current_running (mark_current_blocked k1)))
              | None \<Rightarrow> Some (Suspend cs, snd (switch_out_current rsp (mark_current_blocked k1)))) = Some (out, k')"
    using w unfolding sys_wait4_def Let_def cs_def [symmetric] k1_def [symmetric] .
  show ?thesis
  proof (cases "children pid (k_current_pid k) k = []")
    case True
    then have "out = Return (- ECHILD) \<and> k' = k" using w' fz fin by (auto split: if_splits)
    then show ?thesis using True by simp
  next
    case False
    then have ne: "cs \<noteq> []" by (auto simp: children_def cs_def)
    show ?thesis
    proof (cases "zombies pid (k_current_pid k) k")
      case Nil
      show ?thesis
      proof (cases "options AND WNOHANG = 0")
        case no: True
        have "snd (find_zombie (k_current_pid k) cs (mark_current_blocked k1)) = None"
        proof -
          have "proc_state (mark_current_blocked k1) r = Zombie \<longleftrightarrow> proc_state k r = Zombie"
            "p_ppid (k_procs (mark_current_blocked k1) r) = p_ppid (k_procs k r)" for r
            by (auto simp: mark_current_blocked_def k1 split: option.split)
          then show ?thesis using Nil by (simp add: find_zombie_spec zombies_def children_def cs_def)
        qed
        then have "\<exists>cs'. out = Suspend cs'" using w' fz False ne Nil no by (auto simp: Let_def)
        then show ?thesis using False Nil no by auto
      next
        case hang: False
        then have "out = Return 0 \<and> k' = k" using w' fz fin False ne Nil by auto
        then show ?thesis using False Nil hang by simp
      qed
    next
      case (Cons z zs)
      obtain p r where z: "z = (p, r)" by (cases z)
      have zin: "p_ppid (k_procs k r) = k_current_pid k" "proc_state k r = Zombie"
      proof -
        have "(p, r) \<in> set (zombies pid (k_current_pid k) k)" using Cons z by simp
        then show "p_ppid (k_procs k r) = k_current_pid k" "proc_state k r = Zombie" by (auto simp: zombies_def children_def)
      qed
      have "wait_finish cs (reap p r (encode_wait_status (p_exit_code (k_procs k r)) (p_killed_by_sig (k_procs k r))) status_ptr k1) = Some (out, k')"
        using w' fz False ne Cons z by simp
      then obtain ret k2 where rp: "reap p r (encode_wait_status (p_exit_code (k_procs k r)) (p_killed_by_sig (k_procs k r))) status_ptr k1 = Some (ret, k2)"
        and out: "out = Return ret" "proc_drops (map snd cs) k2 = Some k'" by (auto simp: wait_finish_def split: option.splits)
      show ?thesis using reap_table [OF rp] proc_drops_table [OF out(2)] zin False Cons z out(1) by (auto simp: k1)
    qed
  qed
qed

definition demo_zombie_kernel :: kernel where
  "demo_zombie_kernel = upd_proc 2 (\<lambda>p. zombify 3 None (p\<lparr> p_ppid := 1 \<rparr>)) demo_kernel"

theorem wait4_correct_witness:
  "\<exists>k'. sys_wait4 (-1) 0 0 0 demo_zombie_kernel = Some (Return 2, k') \<and> bt_get (k_table k') 2 = None"
proof -
  let ?k = demo_zombie_kernel
  have arc: "arc_ok ?k" using demo_kernel_inv
    by (simp add: sched_inv_def arc_ok_def refs_def demo_zombie_kernel_def)
  have tab: "k_table ?k = [(0, 0), (1, 1), (2, 2), (3, 3)]" "k_current_pid ?k = 1"
    "k_procs ?k = demo_procs(2 := zombify 3 None ((demo_procs 2)\<lparr> p_ppid := 1 \<rparr>))" "k_proc_rc ?k = (\<lambda>_. 2)"
    by (simp_all add: demo_zombie_kernel_def demo_kernel_def)
  have cand: "wait_candidates (-1) ?k = [(0, 0), (1, 1), (2, 2), (3, 3)]" by (simp add: wait_candidates_def tab)
  then have z: "zombies (-1) 1 ?k = [(2, 2)]" "children (-1) 1 ?k = [(2, 2)]"
    by (simp_all add: zombies_def children_def tab zombify_def demo_procs_def Process_new_def)
  have "sys_wait4 (-1) 0 0 0 ?k \<noteq> None"
    by (simp add: sys_wait4_def Let_def cand tab find_zombie_spec zombify_def demo_procs_def Process_new_def reap_def
        table_remove_def proc_drop_shared write_optional_def wait_finish_def proc_drops_Cons)
      (simp add: proc_drops_def)
  then obtain out k' where w: "sys_wait4 (-1) 0 0 0 ?k = Some (out, k')" by auto
  from wait4_correct [OF arc w] have "out = Return 2 \<and> k_table k' = bt_remove 2 (k_table ?k)"
    by (cases out) (auto simp: tab(2) z)
  then show ?thesis using w by simp
qed

subsection \<open>Exit status\<close>

text \<open>The decoding macros of \<^verbatim>\<open>sys/wait.h\<close> as POSIX describes them.\<close>

definition WTERMSIG :: "i32 \<Rightarrow> i32" where "WTERMSIG status = status AND 0x7F"
definition WIFEXITED :: "i32 \<Rightarrow> bool" where "WIFEXITED status \<longleftrightarrow> WTERMSIG status = 0"
definition WEXITSTATUS :: "i32 \<Rightarrow> i32" where "WEXITSTATUS status = drop_bit 8 status AND 0xFF"

lemma and_mask_mod: "i AND 0x7F = i mod 128" "i AND 0xFF = i mod 256" for i :: int
  using take_bit_eq_mask [of 7 i] take_bit_eq_mask [of 8 i] by (simp_all add: take_bit_eq_mod mask_eq_exp_minus_1 and.commute)

text \<open>
  The status that \<open>wait4\<close> stores can be decoded: for a process that exited it reports a normal exit
  with the low eight bits of the exit code, for one killed by a signal it reports that signal.
\<close>

theorem wait_status_roundtrip:
  "WIFEXITED (encode_wait_status code None) \<and> WEXITSTATUS (encode_wait_status code None) = code mod 256
   \<and> (sig_valid sig \<longrightarrow> \<not> WIFEXITED (encode_wait_status c (Some sig)) \<and> WTERMSIG (encode_wait_status c (Some sig)) = sig)"
proof -
  have "code mod 256 * 256 mod 128 = 0" by (simp add: mod_eq_0_iff_dvd)
  then show ?thesis
    by (auto simp: WIFEXITED_def WTERMSIG_def WEXITSTATUS_def encode_wait_status_def and_mask_mod push_bit_eq_mult
        drop_bit_eq_div sig_valid_def SIG_MIN_def SIG_MAX_def)
qed

theorem wait_status_roundtrip_witness: "WTERMSIG (encode_wait_status 0 (Some 9)) = 9"
proof -
  have "sig_valid 9" by (simp add: sig_valid_def posix_consts)
  then show ?thesis using wait_status_roundtrip by blast
qed

subsection \<open>What an exited process leaves behind\<close>

lemma end_current_wakes:
  assumes "k_current k = Some c"
  shows "\<exists>pids. end_current code sig k = wake_tasks pids (upd_proc c (zombify code sig) k)"
  by (rule exI [of _ "if p_ppid (k_procs k c) > 0 then [p_ppid (k_procs k c)] else []"])
    (simp add: assms end_current_def wake_tasks_def)

text \<open>
  A process that ends with \<open>exit\<close> is never released. The reference that \<open>switch_out_current\<close> took from
  \<open>CURRENT_PROCESS\<close> stays on the abandoned kernel stack, so when the parent removes the zombie from the process
  table no reference to it is left anywhere, yet its count is still positive: its address space is not freed
  and its descriptors are not closed.
\<close>

theorem exit_leaks_process:
  assumes inv: "sched_inv k" and c: "k_current k = Some c" "k_idle k \<noteq> Some c" "bt_get (k_table k) pid = Some c"
    and once: "\<forall>p. bt_get (k_table k) p = Some c \<longrightarrow> p = pid"
    and k1: "k1 = sys_exit code rsp k"
  shows "\<exists>k2. proc_drop c (snd (table_remove pid k1)) = Some k2 \<and> refs k2 c = 0 \<and> 0 < k_proc_rc k2 c
    \<and> k_mm k2 = k_mm k1 \<and> k_handle_rc k2 = k_handle_rc k1"
proof -
  let ?f = "zombify code None"
  have arc: "arc_ok k" using inv by (simp add: sched_inv_def)
  obtain pids where e: "end_current code None k = wake_tasks pids (upd_proc c ?f k)"
    using end_current_wakes [OF c(1)] by blast
  have st: "p_state (?f (k_procs k c)) = Zombie" by (simp add: zombify_def)
  have k1': "k1 = snd (switch_out_current rsp (wake_tasks pids (upd_proc c ?f k)))" by (simp add: k1 sys_exit_def e)
  have z: "proc_state k1 c = Zombie" "k_table k1 = k_table k" "k_proc_rc k1 c = k_proc_rc k c"
    using terminate_zombie [OF inv c(1,2) st k1'] by simp_all
  have "refines k (take 1 (k_queue (wake_tasks pids (upd_proc c ?f k)))) k1" unfolding k1'
    by (rule terminate_refines_queue [where f = ?f, OF inv c(1,2) st]) simp
  then have inv1: "sched_inv k1" and idle: "k_idle k1 = k_idle k" by (simp_all add: refines_def)
  have off: "c \<notin> set (k_queue k1)" "k_current k1 \<noteq> Some c" "k_idle k1 \<noteq> Some c"
    using rr_okD(3,7) [of "rr_of k1"] inv1 z(1) c(2) idle by (auto simp: sched_inv_def)
  have in_tab: "c \<in> set (map snd (k_table k))" using bt_get_in_set [OF c(3)] by force
  then have "0 < count_list (map snd (k_table k)) c" by (metis count_list_0_iff gr0I)
  then have rc: "1 < k_proc_rc k1 c" using refs_le [OF arc, of c] c(1) by (simp add: refs_def z)
  have "bt_ok (k_table k)" using arc by (simp add: arc_ok_def)
  then have "c \<notin> snd ` set (bt_remove pid (k_table k))"
    using once bt_get_eq_Some_iff [of "k_table k"] by (auto simp: bt_remove_def)
  then show ?thesis using off rc by (subst proc_drop_shared) (auto simp: table_remove_def refs_def z)
qed

theorem exit_leaks_process_witness:
  "\<exists>k2. proc_drop 1 (snd (table_remove 1 (sys_exit 0 8192 demo_fork_kernel))) = Some k2 \<and> refs k2 1 = 0 \<and> 0 < k_proc_rc k2 1"
proof -
  note d = demo_fork_kernel
  have "k_idle demo_fork_kernel = Some 0"
    by (simp add: demo_fork_kernel_def demo_user_kernel_def demo_kernel_def)
  then have i: "k_idle demo_fork_kernel \<noteq> Some 1" "bt_get (k_table demo_fork_kernel) 1 = Some 1"
    "\<forall>p. bt_get (k_table demo_fork_kernel) p = Some 1 \<longrightarrow> p = 1" by (auto simp: d bt_get_def split: if_splits)
  from exit_leaks_process [OF d(1,2) i HOL.refl] show ?thesis by blast
qed

end
