(* ===== verification/Path.thy ===== *)
theory Path
  imports Ordered_Map
begin

text \<open>
  Path strings (\<^verbatim>\<open>vfs/mod.rs\<close>: \<open>normalize_path\<close>). A path is split at its slashes, \<open>.\<close> and empty components are
  dropped, \<open>..\<close> removes the component before it, and what remains is joined again.
\<close>

text \<open>\<open>str::split\<close> with a character: separators delimit, so the empty string has one (empty) part.\<close>

fun split_on :: "char \<Rightarrow> string \<Rightarrow> string list" where
  "split_on c [] = [[]]"
| "split_on c (x # xs) =
    (if x = c then [] # split_on c xs
     else case split_on c xs of [] \<Rightarrow> [[x]] | p # ps \<Rightarrow> (x # p) # ps)"

definition SLASH :: char where "SLASH = CHR ''/''"

text \<open>The loop over the parts; \<open>components\<close> is the stack, its top at the end.\<close>

fun norm_loop :: "string list \<Rightarrow> string list \<Rightarrow> string list" where
  "norm_loop components [] = components"
| "norm_loop components (part # parts) =
    (if part = [] \<or> part = ''.'' then norm_loop components parts
     else if part = ''..'' then norm_loop (butlast components) parts
     else norm_loop (components @ [part]) parts)"

definition full_path :: "string \<Rightarrow> string \<Rightarrow> string" where
  "full_path cwd path =
    (if take 1 path = ''/'' then path
     else if cwd = ''/'' then ''/'' @ path
     else cwd @ ''/'' @ path)"

definition join_components :: "string list \<Rightarrow> string" where
  "join_components components = (if components = [] then ''/'' else concat (map (\<lambda>c. SLASH # c) components))"

definition normalize_path :: "string \<Rightarrow> string \<Rightarrow> string" where
  "normalize_path cwd path = join_components (norm_loop [] (split_on SLASH (full_path cwd path)))"

text \<open>\<open>norm.split('/').filter(|s| !s.is_empty())\<close>\<close>

definition path_parts :: "string \<Rightarrow> string list" where
  "path_parts s = filter (\<lambda>p. p \<noteq> []) (split_on SLASH s)"

subsection \<open>Splitting and joining\<close>

lemma split_on_nonempty [simp]: "split_on c xs \<noteq> []"
  by (induction xs) (auto split: list.split)

lemma split_on_append_sep: "split_on c (xs @ c # ys) = split_on c xs @ split_on c ys"
proof (induction xs)
  case (Cons x xs)
  then show ?case by (auto simp: split: list.split)
qed simp

lemma split_on_atom: "c \<notin> set xs \<Longrightarrow> split_on c xs = [xs]"
  by (induction xs) auto

lemma split_on_no_sep: "p \<in> set (split_on c xs) \<Longrightarrow> c \<notin> set p"
proof (induction xs arbitrary: p)
  case (Cons x xs)
  obtain q qs where qs: "split_on c xs = q # qs" by (cases "split_on c xs") simp_all
  then show ?case using Cons.prems Cons.IH [of p] Cons.IH [of q] by (auto split: if_splits)
qed simp

text \<open>A proper component: not empty, not a dot component, and without slash.\<close>

definition proper :: "string \<Rightarrow> bool" where
  "proper p \<longleftrightarrow> p \<noteq> [] \<and> p \<noteq> ''.'' \<and> p \<noteq> ''..'' \<and> SLASH \<notin> set p"

lemma norm_loop_append: "norm_loop cs (ps @ qs) = norm_loop (norm_loop cs ps) qs"
  by (induction cs ps rule: norm_loop.induct) auto

lemma norm_loop_proper: "list_all proper ps \<Longrightarrow> norm_loop cs ps = cs @ ps"
  by (induction cs ps rule: norm_loop.induct) (auto simp: proper_def)

lemma norm_loop_filter: "norm_loop cs (filter (\<lambda>p. p \<noteq> []) ps) = norm_loop cs ps"
  by (induction cs ps rule: norm_loop.induct) auto

lemma list_all_butlast: "list_all P xs \<Longrightarrow> list_all P (butlast xs)"
  by (auto simp: list_all_iff dest: in_set_butlastD)

lemma norm_loop_all_proper:
  "list_all proper cs \<Longrightarrow> list_all (\<lambda>p. SLASH \<notin> set p) ps \<Longrightarrow> list_all proper (norm_loop cs ps)"
  by (induction cs ps rule: norm_loop.induct) (auto simp: proper_def list_all_butlast)

lemma path_parts_join:
  assumes "list_all proper cs"
  shows "path_parts (join_components cs) = cs"
proof -
  have "filter (\<lambda>p. p \<noteq> []) (split_on SLASH (concat (map (\<lambda>c. SLASH # c) cs))) = cs" if "list_all proper cs" for cs
    using that
  proof (induction cs rule: rev_induct)
    case (snoc c cs)
    then have c: "c \<noteq> []" "split_on SLASH c = [c]" by (simp_all add: proper_def split_on_atom)
    have "split_on SLASH (concat (map (\<lambda>c. SLASH # c) (cs @ [c]))) = split_on SLASH (concat (map (\<lambda>c. SLASH # c) cs)) @ [c]"
      using c by (simp add: split_on_append_sep)
    then show ?case using snoc c by simp
  qed simp
  then show ?thesis using assms by (simp add: path_parts_def join_components_def SLASH_def)
qed

lemma norm_loop_split_join:
  assumes "list_all proper cs"
  shows "norm_loop [] (split_on SLASH (join_components cs)) = cs"
  using path_parts_join [OF assms] norm_loop_filter [of "[]" "split_on SLASH (join_components cs)"] norm_loop_proper [OF assms, of "[]"]
  by (simp add: path_parts_def)

lemma join_components_absolute: "take 1 (join_components cs) = ''/''"
  by (cases cs) (simp_all add: join_components_def SLASH_def)

lemma list_all_split: "list_all (\<lambda>p. c \<notin> set p) (split_on c xs)"
  by (auto simp: list_all_iff dest: split_on_no_sep)

lemma normalize_components:
  "\<exists>cs. list_all proper cs \<and> normalize_path cwd path = join_components cs
    \<and> cs = norm_loop [] (split_on SLASH (full_path cwd path))"
  using norm_loop_all_proper [of "[]"] list_all_split by (simp add: normalize_path_def)

lemma full_path_absolute: "take 1 path = ''/'' \<Longrightarrow> full_path cwd path = path"
  by (simp add: full_path_def)

text \<open>Relative paths: the components of the working directory come first.\<close>

lemma norm_loop_relative:
  assumes "list_all proper cs" and "take 1 path \<noteq> ''/''"
  shows "norm_loop [] (split_on SLASH (full_path (join_components cs) path)) = norm_loop cs (split_on SLASH path)"
proof -
  have "split_on SLASH (join_components cs @ SLASH # path) = split_on SLASH (join_components cs) @ split_on SLASH path"
    by (rule split_on_append_sep)
  moreover have "norm_loop [] (split_on SLASH (''/'' @ path)) = norm_loop [] (split_on SLASH path)"
    using split_on_append_sep [of SLASH "[]" path] by (simp add: SLASH_def)
  ultimately show ?thesis
    using assms norm_loop_split_join [OF assms(1)]
    by (cases cs) (auto simp: full_path_def norm_loop_append SLASH_def join_components_def)
qed

lemma normalize_again: "normalize_path cwd' (normalize_path cwd path) = normalize_path cwd path"
proof -
  obtain cs where cs: "list_all proper cs" "normalize_path cwd path = join_components cs"
    using normalize_components by blast
  then have "normalize_path cwd' (join_components cs) = join_components cs"
    using norm_loop_split_join [OF cs(1)] by (simp add: normalize_path_def full_path_absolute [OF join_components_absolute])
  then show ?thesis by (simp only: cs(2))
qed

text \<open>
  C34: Normalised paths are canonical: they start with a slash, their components are neither empty nor
  \<open>.\<close> nor \<open>..\<close>, and normalising again from any directory changes nothing. Resolving a relative path from a
  normalised directory is the same as walking its parts from the components of that directory, where
  \<open>..\<close> at the root stays at the root.
\<close>

theorem normalize_path_canonical:
  "take 1 (normalize_path cwd path) = ''/'' \<and> list_all proper (path_parts (normalize_path cwd path))
   \<and> normalize_path cwd' (normalize_path cwd path) = normalize_path cwd path
   \<and> path_parts (normalize_path cwd path) = norm_loop [] (split_on SLASH (full_path cwd path))
   \<and> (take 1 rel \<noteq> ''/'' \<longrightarrow>
        path_parts (normalize_path (normalize_path cwd path) rel) = norm_loop (path_parts (normalize_path cwd path)) (split_on SLASH rel))"
proof -
  obtain cs where cs: "list_all proper cs" "normalize_path cwd path = join_components cs"
    "cs = norm_loop [] (split_on SLASH (full_path cwd path))"
    using normalize_components by blast
  have again: "normalize_path cwd' (join_components cs) = join_components cs"
    using normalize_again [of cwd' cwd path] by (simp only: cs(2))
  have rel: "path_parts (normalize_path (join_components cs) rel) = norm_loop cs (split_on SLASH rel)" if "take 1 rel \<noteq> ''/''"
  proof -
    have "list_all proper (norm_loop cs (split_on SLASH rel))" using cs(1) list_all_split by (intro norm_loop_all_proper)
    then show ?thesis unfolding normalize_path_def norm_loop_relative [OF cs(1) that] by (rule path_parts_join)
  qed
  show ?thesis
    using cs(1) path_parts_join [OF cs(1)] again rel join_components_absolute [of cs] unfolding cs(2) cs(3) [symmetric] by auto
qed

theorem normalize_path_canonical_witness:
  "path_parts (normalize_path (normalize_path ''/'' ''/usr/./bin/'') ''../lib//x'') = [''usr'', ''lib'', ''x'']"
proof -
  have "path_parts (normalize_path (normalize_path ''/'' ''/usr/./bin/'') ''../lib//x'') =
      norm_loop (path_parts (normalize_path ''/'' ''/usr/./bin/'')) (split_on SLASH ''../lib//x'')"
    using normalize_path_canonical [of "''/''" "''/usr/./bin/''" "''/''" "''../lib//x''"] by simp
  also have "path_parts (normalize_path ''/'' ''/usr/./bin/'') = [''usr'', ''bin'']" by code_simp
  also have "norm_loop [''usr'', ''bin''] (split_on SLASH ''../lib//x'') = [''usr'', ''lib'', ''x'']" by code_simp
  finally show ?thesis .
qed

end
