(* ===== verification/Pipe.thy ===== *)
theory Pipe
  imports Signals
begin

text \<open>
  Anonymous pipes (\<^verbatim>\<open>vfs/pipe.rs\<close>): the ring buffer, the two ends, blocking and waking. An iteration of the
  blocking loops is one step of the model: the first one runs with interrupts masked up to the context switch. A reader or
  writer that switched out continues with the resume step when it is dispatched again, and its next iteration is taken as one step too,
  although the switch returns with interrupts enabled.
\<close>

subsection \<open>Operations\<close>

text \<open>
  What an iteration of a blocking operation comes to: a result, a context switch (the operation goes on
  when the caller is resumed), or another iteration.
\<close>

datatype 'a io = Done "'a kres" kernel | Sleep kernel | Again kernel

definition PipeBuffer_new :: PipeBuffer where
  "PipeBuffer_new = \<lparr> pb_data = replicate PIPE_BUFFER_SIZE 0, pb_read_pos = 0, pb_write_pos = 0, pb_len = 0,
     pb_readers_open = 1, pb_writers_open = 1, pb_read_waiters = [], pb_write_waiters = [] \<rparr>"

definition pipe_new :: "kernel \<Rightarrow> (nat \<times> nat) \<times> kernel" where
  "pipe_new k =
    (let b = k_npipes k;
         k = k\<lparr> k_pipes := (k_pipes k)(b := PipeBuffer_new), k_npipes := Suc b \<rparr>;
         (r, k) = inode_alloc (PipeReadEnd b) k;
         (w, k) = inode_alloc (PipeWriteEnd b) k
     in ((r, w), k))"

definition set_pipe :: "nat \<Rightarrow> PipeBuffer \<Rightarrow> kernel \<Rightarrow> kernel" where
  "set_pipe b p k = k\<lparr> k_pipes := (k_pipes k)(b := p) \<rparr>"

text \<open>The copying loops; an index outside of the array panics.\<close>

fun ring_read :: "nat \<Rightarrow> PipeBuffer \<Rightarrow> (bytes \<times> PipeBuffer) option" where
  "ring_read 0 p = Some ([], p)"
| "ring_read (Suc n) p =
    (if pb_read_pos p < length (pb_data p) then
       map_option (\<lambda>(bs, q). (pb_data p ! pb_read_pos p # bs, q))
         (ring_read n (p\<lparr> pb_read_pos := (pb_read_pos p + 1) mod PIPE_BUFFER_SIZE \<rparr>))
     else None)"

fun ring_write :: "bytes \<Rightarrow> PipeBuffer \<Rightarrow> PipeBuffer option" where
  "ring_write [] p = Some p"
| "ring_write (byte # bs) p =
    (let pos = pb_write_pos p in
     if pos < length (pb_data p) then
       ring_write bs (p\<lparr> pb_data := (pb_data p)[pos := byte], pb_write_pos := (pos + 1) mod PIPE_BUFFER_SIZE \<rparr>)
     else None)"

text \<open>
  The section under the pipe lock: an early return, a transfer with the processes to wake, or the
  decision to wait or to try again.
\<close>

datatype 'a critical = Early "'a kres" | Transfer 'a "i32 list" | Wait | Retry

definition pipe_read_section :: "usize \<Rightarrow> i32 \<Rightarrow> i32 \<Rightarrow> PipeBuffer \<Rightarrow> bytes critical \<times> PipeBuffer" where
  "pipe_read_section n flags caller_pid p =
    (if pb_len p = 0 then
       if pb_writers_open p = 0 then (Early (Ok []), p)
       else if flags AND O_NONBLOCK \<noteq> 0 then (Early (Err EAGAIN), p)
       else
         let p = p\<lparr> pb_read_waiters := add_waiter caller_pid (pb_read_waiters p) \<rparr> in
         if pb_len p > 0 \<or> pb_writers_open p = 0
         then (Retry, p\<lparr> pb_read_waiters := remove_waiter caller_pid (pb_read_waiters p) \<rparr>)
         else (Wait, p)
     else
       let was_full = (pb_len p = PIPE_BUFFER_SIZE);
           to_read = min n (pb_len p)
       in case ring_read to_read p of
            None \<Rightarrow> (Early Panic, p)
          | Some (bs, p) \<Rightarrow>
             let p = p\<lparr> pb_len := pb_len p - to_read \<rparr> in
             if was_full \<and> pb_len p < PIPE_BUFFER_SIZE then
               case drain_one (pb_write_waiters p) of
                 (Some w, q) \<Rightarrow> (Transfer bs [w], p\<lparr> pb_write_waiters := q \<rparr>)
               | (None, q) \<Rightarrow> (Transfer bs [], p\<lparr> pb_write_waiters := q \<rparr>)
             else (Transfer bs [], p))"

definition pipe_write_section :: "bytes \<Rightarrow> i32 \<Rightarrow> i32 \<Rightarrow> PipeBuffer \<Rightarrow> usize critical \<times> PipeBuffer" where
  "pipe_write_section buf flags caller_pid p =
    (if pb_readers_open p = 0 then (Early (Err EPIPE), p)
     else case checked_sub PIPE_BUFFER_SIZE (pb_len p) of
       None \<Rightarrow> (Early Panic, p)
     | Some space \<Rightarrow>
        if space = 0 then
          if flags AND O_NONBLOCK \<noteq> 0 then (Early (Err EAGAIN), p)
          else
            let p = p\<lparr> pb_write_waiters := add_waiter caller_pid (pb_write_waiters p) \<rparr> in
            if pb_len p < PIPE_BUFFER_SIZE \<or> pb_readers_open p = 0
            then (Retry, p\<lparr> pb_write_waiters := remove_waiter caller_pid (pb_write_waiters p) \<rparr>)
            else (Wait, p)
        else
          let was_empty = (pb_len p = 0);
              to_write = min (length buf) space
          in case ring_write (take to_write buf) p of
               None \<Rightarrow> (Early Panic, p)
             | Some p \<Rightarrow>
                let p = p\<lparr> pb_len := pb_len p + to_write \<rparr> in
                if was_empty \<and> pb_len p > 0 then
                  (let (ws, q) = drain_all (pb_read_waiters p) in (Transfer to_write ws, p\<lparr> pb_read_waiters := q \<rparr>))
                else (Transfer to_write [], p))"

text \<open>One iteration of the loops of \<open>read_with_flags\<close> and \<open>write_with_flags\<close>, around the section.\<close>

definition pipe_iteration :: "nat \<Rightarrow> (PipeBuffer \<Rightarrow> 'a critical \<times> PipeBuffer) \<Rightarrow> usize \<Rightarrow> kernel \<Rightarrow> 'a io" where
  "pipe_iteration b sec rsp k =
    (let k = mark_current_blocked k;
         (s, p) = sec (k_pipes k b);
         k = set_pipe b p k
     in case s of
          Early r \<Rightarrow> Done r k
        | Transfer v pids \<Rightarrow> Done (Ok v) (mark_current_running (wake_tasks pids k))
        | Wait \<Rightarrow> Sleep (snd (switch_out_current rsp k))
        | Retry \<Rightarrow> Again (mark_current_running k))"

definition PipeReadEnd_read_with_flags :: "nat \<Rightarrow> usize \<Rightarrow> i32 \<Rightarrow> i32 \<Rightarrow> usize \<Rightarrow> kernel \<Rightarrow> bytes io" where
  "PipeReadEnd_read_with_flags b n flags caller_pid rsp k =
    pipe_iteration b (pipe_read_section n flags caller_pid) rsp k"

definition PipeWriteEnd_write_with_flags :: "nat \<Rightarrow> bytes \<Rightarrow> i32 \<Rightarrow> i32 \<Rightarrow> usize \<Rightarrow> kernel \<Rightarrow> usize io" where
  "PipeWriteEnd_write_with_flags b buf flags caller_pid rsp k =
    pipe_iteration b (pipe_write_section buf flags caller_pid) rsp k"

text \<open>The rest of an iteration after \<open>switch_out_current\<close> has returned.\<close>

definition pipe_read_resume :: "nat \<Rightarrow> i32 \<Rightarrow> kernel \<Rightarrow> bytes io" where
  "pipe_read_resume b caller_pid k =
    (let k = mark_current_running k in
     if has_unblocked_signals (k_signals k) caller_pid
     then Done (Err EINTR) (set_pipe b (pb_read_waiters_update (remove_waiter caller_pid) (k_pipes k b)) k)
     else Again k)"

definition pipe_write_resume :: "nat \<Rightarrow> i32 \<Rightarrow> kernel \<Rightarrow> usize io" where
  "pipe_write_resume b caller_pid k =
    (let k = mark_current_running k in
     if has_unblocked_signals (k_signals k) caller_pid
     then Done (Err EINTR) (set_pipe b (pb_write_waiters_update (remove_waiter caller_pid) (k_pipes k b)) k)
     else Again k)"

subsection \<open>The ring buffer is a queue\<close>

text \<open>The bytes in transit, oldest first, and the invariant of the ring.\<close>

definition contents :: "PipeBuffer \<Rightarrow> bytes" where
  "contents p = map (\<lambda>i. pb_data p ! ((pb_read_pos p + i) mod PIPE_BUFFER_SIZE)) [0..<pb_len p]"

definition pipe_ok :: "PipeBuffer \<Rightarrow> bool" where
  "pipe_ok p \<longleftrightarrow> length (pb_data p) = PIPE_BUFFER_SIZE \<and> pb_read_pos p < PIPE_BUFFER_SIZE
     \<and> pb_write_pos p = (pb_read_pos p + pb_len p) mod PIPE_BUFFER_SIZE \<and> pb_len p \<le> PIPE_BUFFER_SIZE"

lemma PIPE_BUFFER_SIZE_pos [simp]: "0 < PIPE_BUFFER_SIZE"
  by (simp add: PIPE_BUFFER_SIZE_def)

lemma length_contents [simp]: "length (contents p) = pb_len p"
  by (simp add: contents_def)

lemma PipeBuffer_new_ok [simp]: "pipe_ok PipeBuffer_new" "contents PipeBuffer_new = []"
  by (simp_all add: pipe_ok_def PipeBuffer_new_def contents_def)

lemma pipe_ok_waiters [simp]:
  "pipe_ok (pb_read_waiters_update f p) = pipe_ok p" "pipe_ok (pb_write_waiters_update f p) = pipe_ok p"
  "contents (pb_read_waiters_update f p) = contents p" "contents (pb_write_waiters_update f p) = contents p"
  by (simp_all add: pipe_ok_def contents_def)

text \<open>The read loop, with the length still to be adjusted.\<close>

lemma ring_read_eq:
  "length (pb_data p) = PIPE_BUFFER_SIZE \<Longrightarrow> pb_read_pos p < PIPE_BUFFER_SIZE \<Longrightarrow>
   ring_read n p = Some (map (\<lambda>i. pb_data p ! ((pb_read_pos p + i) mod PIPE_BUFFER_SIZE)) [0..<n],
     p\<lparr> pb_read_pos := (pb_read_pos p + n) mod PIPE_BUFFER_SIZE \<rparr>)"
proof (induction n arbitrary: p)
  case (Suc n)
  let ?p = "p\<lparr> pb_read_pos := (pb_read_pos p + 1) mod PIPE_BUFFER_SIZE \<rparr>"
  have IH: "ring_read n ?p = Some (map (\<lambda>i. pb_data p ! ((pb_read_pos p + Suc i) mod PIPE_BUFFER_SIZE)) [0..<n],
      p\<lparr> pb_read_pos := (pb_read_pos p + Suc n) mod PIPE_BUFFER_SIZE \<rparr>)"
    using Suc.IH [of ?p] Suc.prems by (simp add: mod_add_left_eq)
  have "[0..<Suc n] = 0 # map Suc [0..<n]" by (simp add: upt_conv_Cons map_Suc_upt)
  then show ?case using Suc.prems IH by (simp add: comp_def)
qed (simp add: )

lemma ring_read_contents:
  assumes "pipe_ok p" "n \<le> pb_len p"
  shows "\<exists>q. ring_read n p = Some (take n (contents p), q) \<and> pb_len q = pb_len p
     \<and> pipe_ok (q\<lparr> pb_len := pb_len p - n \<rparr>) \<and> contents (q\<lparr> pb_len := pb_len p - n \<rparr>) = drop n (contents p)
     \<and> q = p\<lparr> pb_read_pos := pb_read_pos q \<rparr>"
proof -
  let ?q = "p\<lparr> pb_read_pos := (pb_read_pos p + n) mod PIPE_BUFFER_SIZE \<rparr>"
  have "take n (contents p) = map (\<lambda>i. pb_data p ! ((pb_read_pos p + i) mod PIPE_BUFFER_SIZE)) [0..<n]"
    using assms(2) by (simp add: contents_def take_map)
  then have "ring_read n p = Some (take n (contents p), ?q)"
    using assms by (simp add: ring_read_eq pipe_ok_def)
  moreover have "contents (?q\<lparr> pb_len := pb_len p - n \<rparr>) = drop n (contents p)"
    using assms(2) by (intro nth_equalityI) (auto simp: contents_def mod_add_left_eq add.assoc)
  moreover have "pipe_ok (?q\<lparr> pb_len := pb_len p - n \<rparr>)"
    using assms mod_add_left_eq [of "pb_read_pos p + n" PIPE_BUFFER_SIZE "pb_len p - n"] by (auto simp: pipe_ok_def)
  ultimately show ?thesis by (intro exI [of _ ?q]) simp
qed

text \<open>The write loop; it leaves the length alone.\<close>

lemma ring_write_one:
  fixes p :: PipeBuffer and b :: u8
  assumes ok: "pipe_ok p" and space: "pb_len p < PIPE_BUFFER_SIZE"
  defines "q \<equiv> p\<lparr> pb_data := (pb_data p)[pb_write_pos p := b],
     pb_write_pos := (pb_write_pos p + 1) mod PIPE_BUFFER_SIZE, pb_len := Suc (pb_len p) \<rparr>"
  shows "pipe_ok q \<and> contents q = contents p @ [b]"
proof -
  have apart: "(pb_read_pos p + i) mod PIPE_BUFFER_SIZE \<noteq> (pb_read_pos p + pb_len p) mod PIPE_BUFFER_SIZE"
    if "i < pb_len p" for i
    using that space ok by (auto simp: pipe_ok_def mod_if split: if_splits)
  have "contents q = contents p @ [b]"
    using ok apart [THEN not_sym] by (auto simp: contents_def q_def pipe_ok_def)
  moreover have "pipe_ok q"
    using ok space by (simp add: q_def pipe_ok_def mod_Suc_eq)
  ultimately show ?thesis by simp
qed

lemma ring_write_contents:
  assumes "pipe_ok p" "pb_len p + length bs \<le> PIPE_BUFFER_SIZE"
  shows "\<exists>q. ring_write bs (p\<lparr> pb_len := l \<rparr>) = Some (q\<lparr> pb_len := l \<rparr>) \<and> pipe_ok q \<and> contents q = contents p @ bs
     \<and> q = p\<lparr> pb_data := pb_data q, pb_write_pos := pb_write_pos q, pb_len := pb_len p + length bs \<rparr>"
  using assms
proof (induction bs arbitrary: p)
  case (Cons b bs)
  define p' where "p' = p\<lparr> pb_data := (pb_data p)[pb_write_pos p := b],
     pb_write_pos := (pb_write_pos p + 1) mod PIPE_BUFFER_SIZE, pb_len := Suc (pb_len p) \<rparr>"
  have p': "pipe_ok p'" "contents p' = contents p @ [b]"
    using ring_write_one [of p b] Cons.prems by (simp_all add: p'_def)
  have "pb_len p' + length bs \<le> PIPE_BUFFER_SIZE" using Cons.prems by (simp add: p'_def)
  then obtain q where q: "ring_write bs (p'\<lparr> pb_len := l \<rparr>) = Some (q\<lparr> pb_len := l \<rparr>)" "pipe_ok q"
    "contents q = contents p' @ bs"
    "q = p'\<lparr> pb_data := pb_data q, pb_write_pos := pb_write_pos q, pb_len := pb_len p' + length bs \<rparr>"
    using Cons.IH [OF p'(1)] by auto
  have "ring_write (b # bs) (p\<lparr> pb_len := l \<rparr>) = ring_write bs (p'\<lparr> pb_len := l \<rparr>)"
    using Cons.prems by (cases p) (simp add: p'_def Let_def pipe_ok_def)
  moreover have "q = p\<lparr> pb_data := pb_data q, pb_write_pos := pb_write_pos q, pb_len := pb_len p + length (b # bs) \<rparr>"
    by (subst q(4)) (simp add: p'_def)
  ultimately show ?case using q p' by (intro exI [of _ q]) simp
next
  case Nil
  then show ?case by (intro exI [of _ p]) simp
qed

subsection \<open>The critical sections\<close>

lemma pipe_read_section_empty:
  "contents p = [] \<Longrightarrow> pipe_read_section n flags pid p =
    (if pb_writers_open p = 0 then (Early (Ok []), p)
     else if flags AND O_NONBLOCK \<noteq> 0 then (Early (Err EAGAIN), p)
     else (Wait, p\<lparr> pb_read_waiters := add_waiter pid (pb_read_waiters p) \<rparr>))"
  by (simp add: pipe_read_section_def contents_def Let_def)

lemma pipe_read_section_data:
  fixes p :: PipeBuffer and n :: nat
  assumes ok: "pipe_ok p" and ne: "contents p \<noteq> []"
  defines "full \<equiv> length (contents p) = PIPE_BUFFER_SIZE \<and> 0 < n"
  shows "\<exists>q. pipe_read_section n flags pid p =
      (Transfer (take n (contents p)) (if full then take 1 (pb_write_waiters p) else []), q)
    \<and> pipe_ok q \<and> contents q = drop n (contents p)
    \<and> q = p\<lparr> pb_read_pos := pb_read_pos q, pb_len := pb_len q,
             pb_write_waiters := if full then drop 1 (pb_write_waiters p) else pb_write_waiters p \<rparr>"
proof -
  let ?n = "min n (pb_len p)"
  obtain q where q: "ring_read ?n p = Some (take ?n (contents p), q)" "pb_len q = pb_len p"
    "pipe_ok (q\<lparr> pb_len := pb_len p - ?n \<rparr>)" "contents (q\<lparr> pb_len := pb_len p - ?n \<rparr>) = drop ?n (contents p)"
    "q = p\<lparr> pb_read_pos := pb_read_pos q \<rparr>"
    using ring_read_contents [OF ok, of ?n] by auto
  define q' where "q' = q\<lparr> pb_len := pb_len p - ?n, pb_write_waiters := if full then drop 1 (pb_write_waiters p) else pb_write_waiters p \<rparr>"
  have len: "pb_len p \<noteq> 0" using ne by (simp add: contents_def)
  have frame: "q' = p\<lparr> pb_read_pos := pb_read_pos q', pb_len := pb_len q',
             pb_write_waiters := if full then drop 1 (pb_write_waiters p) else pb_write_waiters p \<rparr>"
    using q(5) by (cases p, cases q) (auto simp: q'_def)
  have ww: "pb_write_waiters q = pb_write_waiters p" by (subst q(5)) simp
  have tk: "take ?n (contents p) = take n (contents p)" "drop ?n (contents p) = drop n (contents p)"
    by (auto simp: min_def)
  have "full \<longleftrightarrow> pb_len p = PIPE_BUFFER_SIZE \<and> pb_len p - ?n < PIPE_BUFFER_SIZE"
    using len by (auto simp: full_def)
  then have "pipe_read_section n flags pid p = (Transfer (take n (contents p)) (if full then take 1 (pb_write_waiters p) else []), q')"
    using len q(1,2) ww tk by (cases "pb_write_waiters p")
      (auto simp: pipe_read_section_def Let_def drain_one_def q'_def)
  moreover have "pipe_ok q' \<and> contents q' = drop n (contents p)"
    using q(3,4) tk by (simp add: q'_def)
  ultimately show ?thesis using frame by blast
qed

lemma pipe_write_section_full:
  "length (contents p) = PIPE_BUFFER_SIZE \<or> pb_readers_open p = 0 \<Longrightarrow> pipe_write_section buf flags pid p =
    (if pb_readers_open p = 0 then (Early (Err EPIPE), p)
     else if flags AND O_NONBLOCK \<noteq> 0 then (Early (Err EAGAIN), p)
     else (Wait, p\<lparr> pb_write_waiters := add_waiter pid (pb_write_waiters p) \<rparr>))"
  by (auto simp: pipe_write_section_def Let_def checked_sub_def)

lemma pipe_write_section_space:
  fixes p :: PipeBuffer and buf :: bytes
  assumes ok: "pipe_ok p" and space: "length (contents p) < PIPE_BUFFER_SIZE" and rd: "pb_readers_open p \<noteq> 0"
  defines "new \<equiv> take (PIPE_BUFFER_SIZE - length (contents p)) buf"
  defines "wake \<equiv> contents p = [] \<and> buf \<noteq> []"
  shows "\<exists>q. pipe_write_section buf flags pid p = (Transfer (length new) (if wake then pb_read_waiters p else []), q)
    \<and> pipe_ok q \<and> contents q = contents p @ new
    \<and> q = p\<lparr> pb_data := pb_data q, pb_write_pos := pb_write_pos q, pb_len := pb_len q,
             pb_read_waiters := if wake then [] else pb_read_waiters p \<rparr>"
proof -
  have len: "pb_len p + length new \<le> PIPE_BUFFER_SIZE" using space by (simp add: new_def)
  obtain q where q: "ring_write new (p\<lparr> pb_len := pb_len p \<rparr>) = Some (q\<lparr> pb_len := pb_len p \<rparr>)" "pipe_ok q"
    "contents q = contents p @ new"
    "q = p\<lparr> pb_data := pb_data q, pb_write_pos := pb_write_pos q, pb_len := pb_len p + length new \<rparr>"
    using ring_write_contents [OF ok len] by blast
  define q' where "q' = q\<lparr> pb_read_waiters := if wake then [] else pb_read_waiters p \<rparr>"
  have rw: "pb_read_waiters q = pb_read_waiters p" "pb_len q = pb_len p + length new"
    by (subst q(4), simp)+
  have frame: "q' = p\<lparr> pb_data := pb_data q', pb_write_pos := pb_write_pos q', pb_len := pb_len q',
             pb_read_waiters := if wake then [] else pb_read_waiters p \<rparr>"
    using q(4) by (cases p, cases q) (auto simp: q'_def)
  have wake: "wake \<longleftrightarrow> pb_len p = 0 \<and> 0 < pb_len p + length new"
    using space by (auto simp: wake_def new_def contents_def)
  have cut: "take (length new) buf = new"
    "min (length buf) (PIPE_BUFFER_SIZE - pb_len p) = length new"
    by (simp_all add: new_def min_def)
  have wr: "ring_write new p = Some (q\<lparr> pb_len := pb_len p \<rparr>)" using q(1) by simp
  have q_len: "q\<lparr> pb_len := pb_len p + length new \<rparr> = q" by (rule PipeBuffer.equality) (simp_all add: rw)
  have wq: "(pb_len p = 0 \<and> 0 < pb_len q) = wake" using wake by (simp add: rw)
  have "pipe_write_section buf flags pid p =
    (if pb_len p = 0 \<and> 0 < pb_len q then (Transfer (length new) (pb_read_waiters q), q\<lparr> pb_read_waiters := [] \<rparr>)
     else (Transfer (length new) [], q))"
    unfolding pipe_write_section_def using space rd by (simp add: checked_sub_def cut wr drain_all_def Let_def q_len)
  moreover have "q\<lparr> pb_read_waiters := pb_read_waiters p \<rparr> = q" by (rule PipeBuffer.equality) (simp_all add: rw)
  ultimately have "pipe_write_section buf flags pid p = (Transfer (length new) (if wake then pb_read_waiters p else []), q')"
    unfolding wq q'_def by (simp add: rw(1))
  moreover have "pipe_ok q' \<and> contents q' = contents p @ new"
    using q(2,3) by (simp add: q'_def)
  ultimately show ?thesis using frame by blast
qed

subsection \<open>Iterations\<close>

lemma mark_current_frame [simp]:
  "k_pipes (mark_current_blocked k) = k_pipes k" "k_pipes (mark_current_running k) = k_pipes k"
  "k_table (mark_current_blocked k) = k_table k" "k_table (mark_current_running k) = k_table k"
  "k_queue (mark_current_blocked k) = k_queue k" "k_queue (mark_current_running k) = k_queue k"
  by (simp_all add: mark_current_blocked_def mark_current_running_def set_state_def upd_proc_def split: option.split)

lemma wake_tasks_pipes [simp]: "k_pipes (wake_tasks pids k) = k_pipes k"
  unfolding wake_tasks_def
  by (induction pids arbitrary: k)
    (simp_all add: wake_one_def add_task_def proc_clone_def set_state_def upd_proc_def split: option.split)

lemma switch_out_pipes [simp]: "k_pipes (snd (switch_out_current rsp k)) = k_pipes k"
  by (auto simp: switch_out_current_def next_or_idle_def switch_tasks_def dispatch_to_def activate_def set_state_def
      upd_proc_def proc_clone_def Let_def split: option.split list.split)

lemma set_pipe_simps [simp]:
  "k_pipes (set_pipe b p k) = (k_pipes k)(b := p)" "k_current (set_pipe b p k) = k_current k"
  "k_queue (set_pipe b p k) = k_queue k" "k_procs (set_pipe b p k) = k_procs k" "k_table (set_pipe b p k) = k_table k"
  "k_proc_rc (set_pipe b p k) = k_proc_rc k"
  by (simp_all add: set_pipe_def)

text \<open>Waking: every blocked process on the list becomes ready and is queued.\<close>

lemma wake_tasks_ready:
  "proc_state k r = Ready \<and> r \<in> set (k_queue k) \<or> proc_state k r = Blocked \<and> (\<exists>pid \<in> set pids. bt_get (k_table k) pid = Some r) \<Longrightarrow>
   proc_state (wake_tasks pids k) r = Ready \<and> r \<in> set (k_queue (wake_tasks pids k))"
proof (induction pids arbitrary: k)
  case (Cons pid pids)
  have eq: "wake_tasks (pid # pids) k = wake_tasks pids (wake_one pid k)" by (simp add: wake_tasks_def)
  have "proc_state (wake_one pid k) r = Ready \<and> r \<in> set (k_queue (wake_one pid k))
      \<or> proc_state (wake_one pid k) r = Blocked \<and> (\<exists>x \<in> set pids. bt_get (k_table (wake_one pid k)) x = Some r)"
    using Cons.prems by (auto simp: wake_one_def split: option.splits)
  then show ?case unfolding eq by (rule Cons.IH)
qed (simp add: wake_tasks_def)

lemma pipe_read_spec:
  fixes k :: kernel and b n :: nat and pid :: i32 and flags :: i32 and rsp :: usize
  assumes ok: "pipe_ok (k_pipes k b)"
  defines "q \<equiv> contents (k_pipes k b)"
  defines "res \<equiv> PipeReadEnd_read_with_flags b n flags pid rsp k"
  shows "q \<noteq> [] \<Longrightarrow> \<exists>k'. res = Done (Ok (take n q)) k' \<and> pipe_ok (k_pipes k' b) \<and> contents (k_pipes k' b) = drop n q"
    and "q = [] \<Longrightarrow> pb_writers_open (k_pipes k b) = 0 \<Longrightarrow> res = Done (Ok []) (mark_current_blocked k)"
    and "q = [] \<Longrightarrow> pb_writers_open (k_pipes k b) \<noteq> 0 \<Longrightarrow> flags AND O_NONBLOCK \<noteq> 0 \<Longrightarrow>
      res = Done (Err EAGAIN) (mark_current_blocked k)"
    and "q = [] \<Longrightarrow> pb_writers_open (k_pipes k b) \<noteq> 0 \<Longrightarrow> flags AND O_NONBLOCK = 0 \<Longrightarrow>
      \<exists>k'. res = Sleep k' \<and> k_pipes k' b = (k_pipes k b)\<lparr> pb_read_waiters := add_waiter pid (pb_read_waiters (k_pipes k b)) \<rparr>"
proof -
  have id: "set_pipe b (k_pipes k b) (mark_current_blocked k) = mark_current_blocked k"
    by (rule kernel.equality) (simp_all add: set_pipe_def)
  show "q = [] \<Longrightarrow> pb_writers_open (k_pipes k b) = 0 \<Longrightarrow> res = Done (Ok []) (mark_current_blocked k)"
    "q = [] \<Longrightarrow> pb_writers_open (k_pipes k b) \<noteq> 0 \<Longrightarrow> flags AND O_NONBLOCK \<noteq> 0 \<Longrightarrow>
      res = Done (Err EAGAIN) (mark_current_blocked k)"
    "q = [] \<Longrightarrow> pb_writers_open (k_pipes k b) \<noteq> 0 \<Longrightarrow> flags AND O_NONBLOCK = 0 \<Longrightarrow>
      \<exists>k'. res = Sleep k' \<and> k_pipes k' b = (k_pipes k b)\<lparr> pb_read_waiters := add_waiter pid (pb_read_waiters (k_pipes k b)) \<rparr>"
    unfolding res_def q_def PipeReadEnd_read_with_flags_def pipe_iteration_def
    by (simp_all add: pipe_read_section_empty id)
  assume "q \<noteq> []"
  then show "\<exists>k'. res = Done (Ok (take n q)) k' \<and> pipe_ok (k_pipes k' b) \<and> contents (k_pipes k' b) = drop n q"
    using pipe_read_section_data [OF ok, of n flags pid]
    unfolding res_def q_def PipeReadEnd_read_with_flags_def pipe_iteration_def by auto
qed

lemma pipe_write_spec:
  fixes k :: kernel and b :: nat and buf :: bytes and flags pid :: i32 and rsp :: usize
  assumes ok: "pipe_ok (k_pipes k b)"
  defines "q \<equiv> contents (k_pipes k b)"
  defines "res \<equiv> PipeWriteEnd_write_with_flags b buf flags pid rsp k"
  shows "length q < PIPE_BUFFER_SIZE \<Longrightarrow> pb_readers_open (k_pipes k b) \<noteq> 0 \<Longrightarrow>
      \<exists>k'. res = Done (Ok (min (length buf) (PIPE_BUFFER_SIZE - length q))) k' \<and> pipe_ok (k_pipes k' b)
        \<and> contents (k_pipes k' b) = q @ take (PIPE_BUFFER_SIZE - length q) buf
        \<and> (q = [] \<and> buf \<noteq> [] \<longrightarrow> (\<forall>w r. w \<in> set (pb_read_waiters (k_pipes k b)) \<and> bt_get (k_table k) w = Some r
             \<and> proc_state k r = Blocked \<longrightarrow> proc_state k' r = Ready \<and> r \<in> set (k_queue k')))"
    and "pb_readers_open (k_pipes k b) = 0 \<Longrightarrow> res = Done (Err EPIPE) (mark_current_blocked k)"
    and "length q = PIPE_BUFFER_SIZE \<Longrightarrow> pb_readers_open (k_pipes k b) \<noteq> 0 \<Longrightarrow> flags AND O_NONBLOCK \<noteq> 0 \<Longrightarrow>
      res = Done (Err EAGAIN) (mark_current_blocked k)"
    and "length q = PIPE_BUFFER_SIZE \<Longrightarrow> pb_readers_open (k_pipes k b) \<noteq> 0 \<Longrightarrow> flags AND O_NONBLOCK = 0 \<Longrightarrow>
      \<exists>k'. res = Sleep k' \<and> k_pipes k' b = (k_pipes k b)\<lparr> pb_write_waiters := add_waiter pid (pb_write_waiters (k_pipes k b)) \<rparr>"
proof -
  have id: "set_pipe b (k_pipes k b) (mark_current_blocked k) = mark_current_blocked k"
    by (rule kernel.equality) (simp_all add: set_pipe_def)
  show "pb_readers_open (k_pipes k b) = 0 \<Longrightarrow> res = Done (Err EPIPE) (mark_current_blocked k)"
    "length q = PIPE_BUFFER_SIZE \<Longrightarrow> pb_readers_open (k_pipes k b) \<noteq> 0 \<Longrightarrow> flags AND O_NONBLOCK \<noteq> 0 \<Longrightarrow>
      res = Done (Err EAGAIN) (mark_current_blocked k)"
    "length q = PIPE_BUFFER_SIZE \<Longrightarrow> pb_readers_open (k_pipes k b) \<noteq> 0 \<Longrightarrow> flags AND O_NONBLOCK = 0 \<Longrightarrow>
      \<exists>k'. res = Sleep k' \<and> k_pipes k' b = (k_pipes k b)\<lparr> pb_write_waiters := add_waiter pid (pb_write_waiters (k_pipes k b)) \<rparr>"
    unfolding res_def q_def PipeWriteEnd_write_with_flags_def pipe_iteration_def
    by (simp_all add: pipe_write_section_full id)
  assume a: "length q < PIPE_BUFFER_SIZE" "pb_readers_open (k_pipes k b) \<noteq> 0"
  define ws where "ws = (if q = [] \<and> buf \<noteq> [] then pb_read_waiters (k_pipes k b) else [])"
  let ?new = "take (PIPE_BUFFER_SIZE - length q) buf"
  obtain p where p: "pipe_write_section buf flags pid (k_pipes k b) = (Transfer (length ?new) ws, p)" "pipe_ok p"
    "contents p = q @ ?new"
    using pipe_write_section_space [OF ok, of buf flags pid] a unfolding q_def ws_def by blast
  define k0 where "k0 = set_pipe b p (mark_current_blocked k)"
  have res: "res = Done (Ok (length ?new)) (mark_current_running (wake_tasks ws k0))"
    unfolding res_def PipeWriteEnd_write_with_flags_def pipe_iteration_def by (simp add: p k0_def)
  have "proc_state (mark_current_running (wake_tasks ws k0)) r = Ready \<and> r \<in> set (k_queue (mark_current_running (wake_tasks ws k0)))"
    if "w \<in> set ws" "bt_get (k_table k) w = Some r" "proc_state k r = Blocked" for w r
  proof -
    have "proc_state k0 r = Blocked" using that(3) by (simp add: k0_def mark_current_blocked_def split: option.split)
    then have "proc_state (wake_tasks ws k0) r = Ready \<and> r \<in> set (k_queue (wake_tasks ws k0))"
      using that by (intro wake_tasks_ready) (auto simp: k0_def)
    then show ?thesis by (simp add: mark_current_running_def split: option.split)
  qed
  then show "\<exists>k'. res = Done (Ok (min (length buf) (PIPE_BUFFER_SIZE - length q))) k' \<and> pipe_ok (k_pipes k' b)
        \<and> contents (k_pipes k' b) = q @ ?new
        \<and> (q = [] \<and> buf \<noteq> [] \<longrightarrow> (\<forall>w r. w \<in> set (pb_read_waiters (k_pipes k b)) \<and> bt_get (k_table k) w = Some r
             \<and> proc_state k r = Blocked \<longrightarrow> proc_state k' r = Ready \<and> r \<in> set (k_queue k')))"
    using p by (intro exI [of _ "mark_current_running (wake_tasks ws k0)"]) (auto simp: res k0_def ws_def)
qed

subsection \<open>Properties of pipes\<close>

text \<open>
  A run of the kernel seen from one pipe: the bytes accepted from writers and handed to readers. Calls
  that transfer nothing, resumed calls, closed descriptions, and everything else the kernel does without
  this pipe may happen in between.
\<close>

inductive pipe_run :: "nat \<Rightarrow> kernel \<Rightarrow> bytes \<Rightarrow> bytes \<Rightarrow> kernel \<Rightarrow> bool" for b :: nat where
  start: "pipe_run b k [] [] k"
| read: "pipe_run b k w r k1 \<Longrightarrow> PipeReadEnd_read_with_flags b n flags pid rsp k1 = Done (Ok bs) k2 \<Longrightarrow>
    pipe_run b k w (r @ bs) k2"
| no_read: "pipe_run b k w r k1 \<Longrightarrow> PipeReadEnd_read_with_flags b n flags pid rsp k1 \<in> {Done (Err e) k2, Sleep k2, Again k2} \<Longrightarrow>
    pipe_run b k w r k2"
| read_resume: "pipe_run b k w r k1 \<Longrightarrow> pipe_read_resume b pid k1 \<in> {Done (Err e) k2, Again k2} \<Longrightarrow> pipe_run b k w r k2"
| write_data: "pipe_run b k w r k1 \<Longrightarrow> PipeWriteEnd_write_with_flags b buf flags pid rsp k1 = Done (Ok n) k2 \<Longrightarrow>
    pipe_run b k (w @ take n buf) r k2"
| no_write: "pipe_run b k w r k1 \<Longrightarrow> PipeWriteEnd_write_with_flags b buf flags pid rsp k1 \<in> {Done (Err e) k2, Sleep k2, Again k2} \<Longrightarrow>
    pipe_run b k w r k2"
| write_resume: "pipe_run b k w r k1 \<Longrightarrow> pipe_write_resume b pid k1 \<in> {Done (Err e) k2, Again k2} \<Longrightarrow> pipe_run b k w r k2"
| close: "pipe_run b k w r k1 \<Longrightarrow> pipe_run b k w r (handle_drop h k1)"
| other: "pipe_run b k w r k1 \<Longrightarrow> k_pipes k2 b = k_pipes k1 b \<Longrightarrow> pipe_run b k w r k2"

lemma pipe_resume_ring:
  "pipe_read_resume b pid k1 \<in> {Done (Err e) k2, Again k2} \<or> pipe_write_resume b pid k1 \<in> {Done (Err e) k2, Again k2} \<Longrightarrow>
   pipe_ok (k_pipes k2 b) = pipe_ok (k_pipes k1 b) \<and> contents (k_pipes k2 b) = contents (k_pipes k1 b)"
  by (auto simp: pipe_read_resume_def pipe_write_resume_def Let_def split: if_splits)

lemma handle_drop_ring:
  "pipe_ok (k_pipes (handle_drop h k) b) = pipe_ok (k_pipes k b) \<and> contents (k_pipes (handle_drop h k) b) = contents (k_pipes k b)"
  by (auto simp: handle_drop_def Let_def PipeReadEnd_drop_def PipeWriteEnd_drop_def drain_all_def pipe_ok_def contents_def
      split: Inode.split)

lemma pipe_no_transfer_ring:
  assumes ok: "pipe_ok (k_pipes k1 b)"
    and res: "PipeReadEnd_read_with_flags b n flags pid rsp k1 \<in> {Done (Err e) k2, Sleep k2, Again k2}
      \<or> PipeWriteEnd_write_with_flags b buf flags pid rsp k1 \<in> {Done (Err e) k2, Sleep k2, Again k2}"
  shows "pipe_ok (k_pipes k2 b) \<and> contents (k_pipes k2 b) = contents (k_pipes k1 b)"
proof -
  let ?p = "k_pipes k1 b"
  have len: "length (contents ?p) \<le> PIPE_BUFFER_SIZE" using ok by (simp add: pipe_ok_def)
  from res show ?thesis
  proof
    assume r: "PipeReadEnd_read_with_flags b n flags pid rsp k1 \<in> {Done (Err e) k2, Sleep k2, Again k2}"
    show ?thesis
      using r pipe_read_spec [OF ok, where n = n and flags = flags and pid = pid and rsp = rsp] ok
      by (cases "contents ?p = []"; cases "pb_writers_open ?p = 0"; cases "flags AND O_NONBLOCK = 0") auto
  next
    assume r: "PipeWriteEnd_write_with_flags b buf flags pid rsp k1 \<in> {Done (Err e) k2, Sleep k2, Again k2}"
    show ?thesis
    proof (cases "length (contents ?p) = PIPE_BUFFER_SIZE \<or> pb_readers_open ?p = 0")
      case True
      then show ?thesis
        using r pipe_write_spec(2-4) [OF ok, where buf = buf and flags = flags and pid = pid and rsp = rsp] ok by (cases "pb_readers_open ?p = 0"; cases "flags AND O_NONBLOCK = 0") auto
    next
      case False
      then show ?thesis using r pipe_write_spec(1) [OF ok, where buf = buf and flags = flags and pid = pid and rsp = rsp] len by auto
    qed
  qed
qed

lemma pipe_read_ring:
  assumes ok: "pipe_ok (k_pipes k1 b)" and res: "PipeReadEnd_read_with_flags b n flags pid rsp k1 = Done (Ok bs) k2"
  shows "pipe_ok (k_pipes k2 b) \<and> bs @ contents (k_pipes k2 b) = contents (k_pipes k1 b)"
  using res pipe_read_spec [OF ok, where n = n and flags = flags and pid = pid and rsp = rsp] ok
  by (cases "contents (k_pipes k1 b) = []"; cases "pb_writers_open (k_pipes k1 b) = 0"; cases "flags AND O_NONBLOCK = 0") auto

lemma pipe_write_ring:
  assumes ok: "pipe_ok (k_pipes k1 b)" and res: "PipeWriteEnd_write_with_flags b buf flags pid rsp k1 = Done (Ok n) k2"
  shows "pipe_ok (k_pipes k2 b) \<and> contents (k_pipes k2 b) = contents (k_pipes k1 b) @ take n buf"
proof (cases "length (contents (k_pipes k1 b)) = PIPE_BUFFER_SIZE \<or> pb_readers_open (k_pipes k1 b) = 0")
  case True
  then show ?thesis
    using res pipe_write_spec(2-4) [OF ok, where buf = buf and flags = flags and pid = pid and rsp = rsp]
    by (cases "pb_readers_open (k_pipes k1 b) = 0"; cases "flags AND O_NONBLOCK = 0") auto
next
  case False
  then have "length (contents (k_pipes k1 b)) < PIPE_BUFFER_SIZE" using ok by (simp add: pipe_ok_def)
  then show ?thesis using False res pipe_write_spec(1) [OF ok, where buf = buf and flags = flags and pid = pid and rsp = rsp] by (auto simp: min_def)
qed

lemma pipe_run_fifo:
  "pipe_run b k w r k' \<Longrightarrow> pipe_ok (k_pipes k b) \<Longrightarrow>
   pipe_ok (k_pipes k' b) \<and> r @ contents (k_pipes k' b) = contents (k_pipes k b) @ w"
proof (induction rule: pipe_run.induct)
  case (read k w r k1 n flags pid rsp bs k2)
  then show ?case using pipe_read_ring [OF _ read.hyps(2)] by simp
next
  case (no_read k w r k1 n flags pid rsp e k2)
  then show ?case using pipe_no_transfer_ring [OF _ disjI1 [OF no_read.hyps(2)]] by simp
next
  case (read_resume k w r k1 pid e k2)
  then show ?case using pipe_resume_ring [OF disjI1 [OF read_resume.hyps(2)]] by simp
next
  case (write_data k w r k1 buf flags pid rsp n k2)
  then show ?case using pipe_write_ring [OF _ write_data.hyps(2)] by simp
next
  case (no_write k w r k1 buf flags pid rsp e k2)
  then show ?case using pipe_no_transfer_ring [OF _ disjI2 [OF no_write.hyps(2)]] by simp
next
  case (write_resume k w r k1 pid e k2)
  then show ?case using pipe_resume_ring [OF disjI2 [OF write_resume.hyps(2)]] by simp
next
  case (close k w r k1 h)
  then show ?case using handle_drop_ring [of h k1 b] by simp
qed simp_all

text \<open>A machine with a fresh pipe; process 2 waits to read from it.\<close>

definition demo_pipe_kernel :: kernel where
  "demo_pipe_kernel = demo_kernel\<lparr> k_pipes := (k_pipes demo_kernel)(0 := PipeBuffer_new) \<rparr>"

text \<open>
  C3: A pipe is a lossless bounded queue. Over every run, the bytes handed to readers followed by the
  bytes in transit are the bytes that were in transit at first followed by those accepted from writers,
  in order; never more than 4096 bytes are in transit, and the ring buffer stays well-formed.
\<close>

theorem pipe_fifo:
  assumes "pipe_run b k w r k'" "pipe_ok (k_pipes k b)"
  shows "r @ contents (k_pipes k' b) = contents (k_pipes k b) @ w \<and> length (contents (k_pipes k' b)) \<le> PIPE_BUFFER_SIZE
    \<and> pipe_ok (k_pipes k' b)"
  using pipe_run_fifo [OF assms] by (simp add: pipe_ok_def)

theorem pipe_fifo_witness: "\<exists>k' :: kernel. [10, 20] @ contents (k_pipes k' 0) = [10, 20, 30] \<and> pipe_ok (k_pipes k' 0)"
proof -
  let ?k = demo_pipe_kernel
  have ok: "pipe_ok (k_pipes ?k 0)" "contents (k_pipes ?k 0) = []" "pb_readers_open (k_pipes ?k 0) = 1"
    by (simp_all add: demo_pipe_kernel_def) (simp add: PipeBuffer_new_def)
  obtain k1 where k1: "PipeWriteEnd_write_with_flags 0 [10, 20, 30] 0 1 0 ?k = Done (Ok 3) k1" "pipe_ok (k_pipes k1 0)"
    "contents (k_pipes k1 0) = [10, 20, 30]"
    using pipe_write_spec(1) [OF ok(1), where buf = "[10, 20, 30]" and flags = 0 and pid = 1 and rsp = 0] ok
    by (auto simp: PIPE_BUFFER_SIZE_def)
  obtain k2 where k2: "PipeReadEnd_read_with_flags 0 2 0 1 0 k1 = Done (Ok [10, 20]) k2"
    using pipe_read_spec(1) [OF k1(2), where n = 2 and flags = 0 and pid = 1 and rsp = 0] k1 by auto
  have "pipe_run 0 ?k [10, 20, 30] [10, 20] k2"
    using pipe_run.read [OF pipe_run.write_data [OF pipe_run.start k1(1)] k2] by simp
  from pipe_fifo [OF this ok(1)] show ?thesis using ok(2) by (metis append_Nil)
qed

text \<open>
  C31: What one iteration of a read or write of a well-formed pipe comes to, on every branch. A read takes the longest prefix of the bytes
  in transit that fits its buffer, which is empty only for an empty buffer or at end of file: an empty pipe
  gives end of file without writers, and otherwise \<open>EAGAIN\<close> if non-blocking, or else the reader sleeps on the wait
  queue. A write without readers gives \<open>EPIPE\<close>; it appends as much as fits and returns that count; a full pipe gives
  \<open>EAGAIN\<close> if non-blocking, or else the writer sleeps. Only transfers change the bytes in transit, and data written into an empty pipe
  makes every blocked waiting reader ready. There is no panic and no further iteration without a context switch.
  POSIX asks for more: here a write that blocks also returns a short count once some bytes fit, a non-blocking write of few bytes is
  not atomic, and a read or write of no bytes waits like any other.
\<close>

theorem pipe_io_correct:
  fixes k b
  assumes ok: "pipe_ok (k_pipes k b)"
  defines "p \<equiv> k_pipes k b"
  defines "q \<equiv> contents p"
  shows "(case PipeReadEnd_read_with_flags b n flags pid rsp k of
       Done (Ok bs) k' \<Rightarrow> bs = take n q \<and> contents (k_pipes k' b) = drop n q \<and> (q = [] \<longrightarrow> pb_writers_open p = 0)
         \<and> (bs = [] \<longleftrightarrow> n = 0 \<or> q = [])
     | Done (Err e) k' \<Rightarrow> e = EAGAIN \<and> q = [] \<and> pb_writers_open p \<noteq> 0 \<and> flags AND O_NONBLOCK \<noteq> 0 \<and> k_pipes k' = k_pipes k
     | Done Panic k' \<Rightarrow> False
     | Sleep k' \<Rightarrow> q = [] \<and> pb_writers_open p \<noteq> 0 \<and> flags AND O_NONBLOCK = 0 \<and> pid \<in> set (pb_read_waiters (k_pipes k' b))
         \<and> contents (k_pipes k' b) = q
     | Again k' \<Rightarrow> False) \<and>
    (case PipeWriteEnd_write_with_flags b buf flags pid rsp k of
       Done (Ok m) k' \<Rightarrow> m = min (length buf) (PIPE_BUFFER_SIZE - length q) \<and> contents (k_pipes k' b) = q @ take m buf
         \<and> length q < PIPE_BUFFER_SIZE \<and> pb_readers_open p \<noteq> 0
         \<and> (q = [] \<and> buf \<noteq> [] \<longrightarrow> (\<forall>x r. x \<in> set (pb_read_waiters p) \<and> bt_get (k_table k) x = Some r \<and> proc_state k r = Blocked
              \<longrightarrow> proc_state k' r = Ready \<and> r \<in> set (k_queue k')))
     | Done (Err e) k' \<Rightarrow> k_pipes k' = k_pipes k \<and>
         (if pb_readers_open p = 0 then e = EPIPE else e = EAGAIN \<and> length q = PIPE_BUFFER_SIZE \<and> flags AND O_NONBLOCK \<noteq> 0)
     | Done Panic k' \<Rightarrow> False
     | Sleep k' \<Rightarrow> length q = PIPE_BUFFER_SIZE \<and> pb_readers_open p \<noteq> 0 \<and> flags AND O_NONBLOCK = 0
         \<and> pid \<in> set (pb_write_waiters (k_pipes k' b)) \<and> contents (k_pipes k' b) = q
     | Again k' \<Rightarrow> False)" (is "?R \<and> ?W")
proof
  have wait: "pid \<in> set (add_waiter pid ws)" for ws by (simp add: add_waiter_def)
  show ?R
    using pipe_read_spec [OF ok, where n = n and flags = flags and pid = pid and rsp = rsp] wait unfolding p_def q_def
    by (cases "contents (k_pipes k b) = []"; cases "pb_writers_open (k_pipes k b) = 0"; cases "flags AND O_NONBLOCK = 0") auto
  note ws = pipe_write_spec [OF ok, where buf = buf and flags = flags and pid = pid and rsp = rsp]
  show ?W
  proof (cases "length q = PIPE_BUFFER_SIZE \<or> pb_readers_open p = 0")
    case True
    then show ?thesis using ws(2-4) wait unfolding p_def q_def
      by (cases "pb_readers_open (k_pipes k b) = 0"; cases "flags AND O_NONBLOCK = 0") auto
  next
    case False
    then have "length q < PIPE_BUFFER_SIZE" using ok by (simp add: pipe_ok_def q_def p_def)
    then show ?thesis using False ws(1) unfolding p_def q_def by (auto simp: min_def)
  qed
qed

theorem pipe_io_correct_witness:
  "\<exists>k'. PipeWriteEnd_write_with_flags 0 [10, 20, 30] 0 1 0 demo_pipe_kernel = Done (Ok 3) k' \<and> contents (k_pipes k' 0) = [10, 20, 30]"
proof -
  have ok: "pipe_ok (k_pipes demo_pipe_kernel 0)" "contents (k_pipes demo_pipe_kernel 0) = []"
    "pb_readers_open (k_pipes demo_pipe_kernel 0) = 1" "pb_len (k_pipes demo_pipe_kernel 0) = 0"
    by (simp_all add: demo_pipe_kernel_def) (simp_all add: PipeBuffer_new_def)
  from pipe_io_correct [OF ok(1), where n = 0 and flags = 0 and pid = 1 and rsp = 0 and buf = "[10, 20, 30]"] show ?thesis
    using ok by (auto simp: PIPE_BUFFER_SIZE_def split: io.splits kres.splits)
qed

text \<open>
  A reader at end of file (and likewise a reader or writer that gets \<open>EAGAIN\<close> or \<open>EPIPE\<close>) returns with its
  state still \<open>Blocked\<close>: the early returns skip \<open>mark_current_running\<close>. The next timer tick with a ready process
  therefore takes the CPU from it without queueing it, and it stays off the CPU until something happens to
  wake it.
\<close>

theorem pipe_eof_leaves_blocked:
  assumes inv: "sched_inv k" and c: "k_current k = Some c" and tab: "c \<in> snd ` set (k_table k)"
    and eof: "contents (k_pipes k b) = []" "pb_writers_open (k_pipes k b) = 0" and ok: "pipe_ok (k_pipes k b)"
    and q: "k_queue k = nxt # rest"
  shows "\<exists>k'. PipeReadEnd_read_with_flags b n flags pid rsp k = Done (Ok []) k' \<and> k_current k' = Some c \<and> proc_state k' c = Blocked
    \<and> (\<exists>rsp' k''. timer_tick_schedule rsp'' k' = Some (rsp', k'') \<and> k_current k'' = Some nxt \<and> k_queue k'' = rest
         \<and> c \<noteq> nxt \<and> c \<notin> set rest \<and> proc_state k'' c = Blocked)"
proof -
  let ?k = "mark_current_blocked k"
  have cs: "proc_state k c = Running" "c \<notin> set (k_queue k)" "arc_ok k" using sched_invD [OF inv] c by (metis option.inject)+
  have k': "?k = set_state c Blocked k" using c cs by (simp add: mark_current_blocked_def)
  have "c \<in> set (map snd (k_table k))" using tab by simp
  then have "0 < count_list (map snd (k_table k)) c" using count_list_0_iff by fastforce
  then have rc: "1 < k_proc_rc k c" using refs_le [OF cs(3), of c] c by (simp add: refs_def)
  let ?k1 = "upd_proc c (p_saved_kernel_rsp_update (\<lambda>_. rsp'')) (?k\<lparr> k_queue := rest \<rparr>)"
  let ?k2 = "(dispatch_to nxt ?k1)\<lparr> k_current := Some nxt \<rparr>"
  have "1 < k_proc_rc ?k2 c" using rc by (simp add: k')
  from proc_drop_shared [OF this] have "timer_tick_schedule rsp'' ?k =
      Some (p_saved_kernel_rsp (k_procs (dispatch_to nxt ?k1) nxt), ?k2\<lparr> k_proc_rc := (k_proc_rc ?k2)(c := k_proc_rc ?k2 c - 1) \<rparr>)"
    using q c cs by (simp add: timer_tick_schedule_def k' Let_def preempt_def)
  then show ?thesis
    using pipe_read_spec(2) [OF ok eof, of n flags pid rsp] c cs q by (intro exI [of _ ?k]) (auto simp: k')
qed

definition demo_eof_kernel :: kernel where
  "demo_eof_kernel = demo_kernel\<lparr> k_pipes := (k_pipes demo_kernel)(0 := PipeBuffer_new\<lparr> pb_writers_open := 0 \<rparr>) \<rparr>"

theorem pipe_eof_leaves_blocked_witness:
  "\<exists>k'. PipeReadEnd_read_with_flags 0 10 0 1 0 demo_eof_kernel = Done (Ok []) k' \<and> k_current k' = Some 1 \<and> proc_state k' 1 = Blocked
    \<and> (\<exists>rsp' k''. timer_tick_schedule 0 k' = Some (rsp', k'') \<and> k_current k'' = Some 2 \<and> k_queue k'' = [3]
         \<and> proc_state k'' 1 = Blocked)"
proof -
  have "sched_view demo_kernel = sched_view demo_eof_kernel" by (simp add: sched_view_def demo_eof_kernel_def)
  then have inv: "sched_inv demo_eof_kernel" using refines_inv [OF refines_view [OF demo_kernel_inv]] by blast
  have "contents (PipeBuffer_new\<lparr> pb_writers_open := 0 \<rparr>) = []" "pipe_ok (PipeBuffer_new\<lparr> pb_writers_open := 0 \<rparr>)"
    by (simp_all add: contents_def PipeBuffer_new_def pipe_ok_def)
  then show ?thesis
    using pipe_eof_leaves_blocked [OF inv, where c = 1 and b = 0 and nxt = 2 and rest = "[3]" and n = 10 and flags = 0
      and pid = 1 and rsp = 0 and rsp'' = 0] by (auto simp: demo_eof_kernel_def demo_kernel_def)
qed

text \<open>
  Readers wake a single writer, and only when the pipe was full. With two writers waiting on a full
  pipe this loses a wakeup: after the reader has drained the pipe and the data of the first writer, the
  second writer and the reader both sleep, although the pipe is empty.
\<close>

theorem pipe_lost_wakeup:
  assumes ok: "pipe_ok p" and full: "length (contents p) = PIPE_BUFFER_SIZE" and ends: "pb_readers_open p \<noteq> 0" "pb_writers_open p \<noteq> 0"
    and waiting: "pb_write_waiters p = [x, y]" "pb_read_waiters p = []"
    and buf: "buf \<noteq> []" "length buf < PIPE_BUFFER_SIZE"
  shows "\<exists>p1 p2 p3 p4. pipe_read_section PIPE_BUFFER_SIZE 0 r p = (Transfer (contents p) [x], p1)
    \<and> pipe_write_section buf 0 x p1 = (Transfer (length buf) [], p2)
    \<and> pipe_read_section PIPE_BUFFER_SIZE 0 r p2 = (Transfer buf [], p3)
    \<and> pipe_read_section PIPE_BUFFER_SIZE 0 r p3 = (Wait, p4)
    \<and> contents p4 = [] \<and> pb_read_waiters p4 = [r] \<and> pb_write_waiters p4 = [y]"
proof -
  have ne: "contents p \<noteq> []" using full PIPE_BUFFER_SIZE_pos by fastforce
  obtain p1 where p1: "pipe_read_section PIPE_BUFFER_SIZE 0 r p = (Transfer (contents p) [x], p1)" "pipe_ok p1" "contents p1 = []"
    "p1 = p\<lparr> pb_read_pos := pb_read_pos p1, pb_len := pb_len p1, pb_write_waiters := [y] \<rparr>"
    using pipe_read_section_data [OF ok ne, of PIPE_BUFFER_SIZE 0 r] full waiting by auto
  have f1: "pb_readers_open p1 = pb_readers_open p" "pb_writers_open p1 = pb_writers_open p" "pb_read_waiters p1 = []"
    "pb_write_waiters p1 = [y]" by (subst p1(4), simp add: waiting)+
  have cut: "take PIPE_BUFFER_SIZE buf = buf" using buf by simp
  obtain p2 where p2: "pipe_write_section buf 0 x p1 = (Transfer (length buf) [], p2)" "pipe_ok p2" "contents p2 = buf"
    "p2 = p1\<lparr> pb_data := pb_data p2, pb_write_pos := pb_write_pos p2, pb_len := pb_len p2, pb_read_waiters := [] \<rparr>"
    using pipe_write_section_space [OF p1(2), of buf 0 x] p1(3) f1 ends buf cut by auto
  have f2: "pb_writers_open p2 = pb_writers_open p" "pb_read_waiters p2 = []" "pb_write_waiters p2 = [y]"
    by (subst p2(4), simp add: f1)+
  have "contents p2 \<noteq> []" "length (contents p2) \<noteq> PIPE_BUFFER_SIZE" using p2(3) buf by simp_all
  then obtain p3 where p3: "pipe_read_section PIPE_BUFFER_SIZE 0 r p2 = (Transfer buf [], p3)" "contents p3 = []"
    "p3 = p2\<lparr> pb_read_pos := pb_read_pos p3, pb_len := pb_len p3, pb_write_waiters := [y] \<rparr>"
    using pipe_read_section_data [OF p2(2), of PIPE_BUFFER_SIZE 0 r] p2(3) f2 cut buf by auto
  have f3: "pb_writers_open p3 = pb_writers_open p" "pb_read_waiters p3 = []" "pb_write_waiters p3 = [y]"
    by (subst p3(3), simp add: f2)+
  have "pipe_read_section PIPE_BUFFER_SIZE 0 r p3 = (Wait, p3\<lparr> pb_read_waiters := [r] \<rparr>)"
    using pipe_read_section_empty [OF p3(2), of PIPE_BUFFER_SIZE 0 r] ends f3 by (simp add: add_waiter_def)
  then show ?thesis using p1(1) p2(1) p3 f3
    by (intro exI [of _ p1] exI [of _ p2] exI [of _ p3] exI [of _ "p3\<lparr> pb_read_waiters := [r] \<rparr>"]) simp
qed

definition demo_full_pipe :: PipeBuffer where
  "demo_full_pipe = PipeBuffer_new\<lparr> pb_len := PIPE_BUFFER_SIZE, pb_write_waiters := [5, 6] \<rparr>"

theorem pipe_lost_wakeup_witness:
  "\<exists>p1 p2 p3 p4. pipe_read_section PIPE_BUFFER_SIZE 0 4 demo_full_pipe = (Transfer (contents demo_full_pipe) [5], p1)
    \<and> pipe_write_section [1] 0 5 p1 = (Transfer 1 [], p2)
    \<and> pipe_read_section PIPE_BUFFER_SIZE 0 4 p2 = (Transfer [1] [], p3)
    \<and> pipe_read_section PIPE_BUFFER_SIZE 0 4 p3 = (Wait, p4)
    \<and> contents p4 = [] \<and> pb_read_waiters p4 = [4] \<and> pb_write_waiters p4 = [6]"
  using pipe_lost_wakeup [where p = demo_full_pipe and x = 5 and y = 6 and buf = "[1]" and r = 4]
  by (simp add: demo_full_pipe_def PipeBuffer_new_def pipe_ok_def) (simp add: PIPE_BUFFER_SIZE_def)

end
