(* ===== verification/Terminal.thy ===== *)
theory Terminal
  imports Pipe
begin

text \<open>
  Terminal devices: the serial port driver with its software receive ring (\<^verbatim>\<open>drivers/serial.rs\<close>), the line
  discipline and the TTY device (\<^verbatim>\<open>tty/mod.rs\<close>), and the device nodes of \<^verbatim>\<open>vfs/devfs.rs\<close>. The UART is modelled by
  the bytes waiting in its receive FIFO and the bytes transmitted so far: the data-ready bit of the line
  status register says whether the FIFO is empty, and the transmitter always becomes ready again.
\<close>

subsection \<open>The serial port\<close>

definition RX_BUF_SIZE :: usize where [posix_consts]: "RX_BUF_SIZE = 2048"

definition SerialPort_new :: SerialPort where
  "SerialPort_new = \<lparr> sp_rx_buf = replicate RX_BUF_SIZE 0, sp_rx_head = 0, sp_rx_tail = 0, sp_hw_fifo = [], sp_transmitted = [] \<rparr>"

definition write_byte :: "u8 \<Rightarrow> SerialPort \<Rightarrow> SerialPort" where
  "write_byte byte s = s\<lparr> sp_transmitted := sp_transmitted s @ [byte] \<rparr>"

text \<open>
  The draining loop, over the bytes in the hardware FIFO; \<open>None\<close> is an index out of bounds.
\<close>

fun drain_loop :: "bytes \<Rightarrow> SerialPort \<Rightarrow> SerialPort option" where
  "drain_loop [] s = Some s"
| "drain_loop (byte # fifo) s =
    (let next_head = (sp_rx_head s + 1) mod RX_BUF_SIZE in
     if next_head \<noteq> sp_rx_tail s then
       if sp_rx_head s < length (sp_rx_buf s)
       then drain_loop fifo (s\<lparr> sp_rx_buf := (sp_rx_buf s)[sp_rx_head s := byte], sp_rx_head := next_head \<rparr>)
       else None
     else drain_loop fifo s)"

definition drain_hardware_fifo :: "SerialPort \<Rightarrow> SerialPort option" where
  "drain_hardware_fifo s = drain_loop (sp_hw_fifo s) (s\<lparr> sp_hw_fifo := [] \<rparr>)"

definition read_byte :: "SerialPort \<Rightarrow> (u8 option \<times> SerialPort) option" where
  "read_byte s =
    (case drain_hardware_fifo s of
       None \<Rightarrow> None
     | Some s \<Rightarrow>
        if sp_rx_tail s \<noteq> sp_rx_head s then
          if sp_rx_tail s < length (sp_rx_buf s)
          then Some (Some (sp_rx_buf s ! sp_rx_tail s), s\<lparr> sp_rx_tail := (sp_rx_tail s + 1) mod RX_BUF_SIZE \<rparr>)
          else None
        else Some (None, s))"

text \<open>The copying loop of \<open>read_bytes\<close>, with the number of bytes that still fit.\<close>

fun rx_loop :: "nat \<Rightarrow> SerialPort \<Rightarrow> (bytes \<times> SerialPort) option" where
  "rx_loop 0 s = Some ([], s)"
| "rx_loop (Suc n) s =
    (if sp_rx_tail s \<noteq> sp_rx_head s then
       if sp_rx_tail s < length (sp_rx_buf s)
       then map_option (\<lambda>(bs, t). (sp_rx_buf s ! sp_rx_tail s # bs, t))
              (rx_loop n (s\<lparr> sp_rx_tail := (sp_rx_tail s + 1) mod RX_BUF_SIZE \<rparr>))
       else None
     else Some ([], s))"

definition read_bytes :: "nat \<Rightarrow> SerialPort \<Rightarrow> (bytes \<times> SerialPort) option" where
  "read_bytes n s = (case drain_hardware_fifo s of None \<Rightarrow> None | Some s \<Rightarrow> rx_loop n s)"

text \<open>\<open>impl Write for SerialPort\<close>: a carriage return before every newline.\<close>

definition write_str :: "bytes \<Rightarrow> SerialPort \<Rightarrow> SerialPort" where
  "write_str bs s = fold (\<lambda>byte s. write_byte byte (if byte = 10 then write_byte 13 s else s)) bs s"

subsection \<open>The line discipline and the TTY device\<close>

definition Termios_default :: Termios where
  "Termios_default = \<lparr> c_iflag = 0, c_oflag = 0, c_cflag = 0, c_lflag = 0, c_line = 0, c_cc = replicate 32 0,
     c_ispeed = 0, c_ospeed = 0 \<rparr>"

definition LineDiscipline_new :: LineDiscipline where
  "LineDiscipline_new = \<lparr> ld_input_buffer = [], ld_canonical_queue = [],
     ld_termios = Termios_default\<lparr> c_lflag := ECHO OR ICANON OR ISIG \<rparr> \<rparr>"

definition push_char :: "u8 \<Rightarrow> LineDiscipline \<Rightarrow> u8 option \<times> LineDiscipline" where
  "push_char c ld =
    (let is_canon = (c_lflag (ld_termios ld) AND ICANON \<noteq> 0);
         is_echo = (c_lflag (ld_termios ld) AND ECHO \<noteq> 0)
     in if is_canon then
          if c = 0x08 \<or> c = 0x7F then
            (if ld_input_buffer ld \<noteq> [] \<and> is_echo then Some 0x08 else None,
             ld\<lparr> ld_input_buffer := butlast (ld_input_buffer ld) \<rparr>)
          else if c = 13 \<or> c = 10 then
            (if is_echo then Some 10 else None,
             ld\<lparr> ld_canonical_queue := ld_canonical_queue ld @ ld_input_buffer ld @ [10], ld_input_buffer := [] \<rparr>)
          else (if is_echo then Some c else None, ld\<lparr> ld_input_buffer := ld_input_buffer ld @ [c] \<rparr>)
        else (if is_echo then Some c else None, ld\<lparr> ld_canonical_queue := ld_canonical_queue ld @ [c] \<rparr>))"

definition TtyDevice_read :: "usize \<Rightarrow> LineDiscipline \<Rightarrow> bytes kres \<times> LineDiscipline" where
  "TtyDevice_read n ld =
    (if ld_canonical_queue ld = [] then (Err EAGAIN, ld)
     else let to_read = min n (length (ld_canonical_queue ld)) in
       (Ok (take to_read (ld_canonical_queue ld)), ld\<lparr> ld_canonical_queue := drop to_read (ld_canonical_queue ld) \<rparr>))"

text \<open>\<open>TtyDevice::write\<close> and \<open>DevConsole::write\<close> transmit byte by byte.\<close>

definition console_write :: "bytes \<Rightarrow> SerialPort \<Rightarrow> SerialPort" where
  "console_write buf s = fold write_byte buf s"

subsection \<open>Device nodes\<close>

definition DevNull_read :: "usize \<Rightarrow> bytes kres" where "DevNull_read n = Ok []"
definition DevNull_write :: "bytes \<Rightarrow> usize kres" where "DevNull_write buf = Ok (length buf)"
definition DevZero_read :: "usize \<Rightarrow> bytes kres" where "DevZero_read n = Ok (replicate n 0)"
definition DevZero_write :: "bytes \<Rightarrow> usize kres" where "DevZero_write buf = Ok (length buf)"

text \<open>One round of the polling loop of \<open>DevConsole::read\<close>: it spins until a byte has arrived.\<close>

definition DevConsole_read :: "usize \<Rightarrow> kernel \<Rightarrow> bytes io" where
  "DevConsole_read n k =
    (if n = 0 then Done (Ok []) k
     else case read_bytes n (k_serial k) of
            None \<Rightarrow> Done Panic k
          | Some (bs, s) \<Rightarrow> (let k = k\<lparr> k_serial := s \<rparr> in if length bs > 0 then Done (Ok bs) k else Again k))"

subsection \<open>The receive ring is a bounded queue\<close>

definition rx_count :: "SerialPort \<Rightarrow> nat" where
  "rx_count s = (sp_rx_head s + RX_BUF_SIZE - sp_rx_tail s) mod RX_BUF_SIZE"

definition received :: "SerialPort \<Rightarrow> bytes" where
  "received s = map (\<lambda>i. sp_rx_buf s ! ((sp_rx_tail s + i) mod RX_BUF_SIZE)) [0..<rx_count s]"

definition serial_ok :: "SerialPort \<Rightarrow> bool" where
  "serial_ok s \<longleftrightarrow> length (sp_rx_buf s) = RX_BUF_SIZE \<and> sp_rx_head s < RX_BUF_SIZE \<and> sp_rx_tail s < RX_BUF_SIZE"

lemma SerialPort_new_ok: "serial_ok SerialPort_new" "received SerialPort_new = []"
  by (simp_all add: serial_ok_def SerialPort_new_def received_def rx_count_def RX_BUF_SIZE_def)

lemma rx_count_lt: "rx_count s < RX_BUF_SIZE"
  by (simp add: rx_count_def RX_BUF_SIZE_def)

lemma length_received [simp]: "length (received s) = rx_count s"
  by (simp add: received_def)

text \<open>Ring arithmetic, for a ring of any size.\<close>

lemma ring_mod:
  assumes "h < (N::nat)" "t < N"
  shows "(h + N - t) mod N = (if t \<le> h then h - t else h + N - t)" "(h + 1) mod N = (if h + 1 = N then 0 else h + 1)"
    "i < N \<Longrightarrow> (t + i) mod N = (if t + i < N then t + i else t + i - N)"
proof -
  show "(h + N - t) mod N = (if t \<le> h then h - t else h + N - t)"
  proof (cases "t \<le> h")
    case True
    then have eq: "h + N - t = (h - t) + N" by simp
    show ?thesis unfolding eq mod_add_self2 using True assms by simp
  qed (use assms in simp)
  show "(h + 1) mod N = (if h + 1 = N then 0 else h + 1)" using assms by auto
  show "i < N \<Longrightarrow> (t + i) mod N = (if t + i < N then t + i else t + i - N)"
    using assms by (auto simp: le_mod_geq)
qed

lemma ring_push:
  assumes "h < (N::nat)" "t < N"
  shows "(h + 1) mod N \<noteq> t \<Longrightarrow> ((h + 1) mod N + N - t) mod N = Suc ((h + N - t) mod N)"
    and "(h + 1) mod N = t \<Longrightarrow> Suc ((h + N - t) mod N) = N"
    and "(t + (h + N - t) mod N) mod N = h"
    and "i < (h + N - t) mod N \<Longrightarrow> (t + i) mod N \<noteq> h"
proof -
  have h1: "(h + 1) mod N < N" using assms by simp
  show "(h + 1) mod N \<noteq> t \<Longrightarrow> ((h + 1) mod N + N - t) mod N = Suc ((h + N - t) mod N)"
    unfolding ring_mod(1) [OF h1 assms(2)] ring_mod(1) [OF assms] unfolding ring_mod(2) [OF assms] using assms by (auto split: if_splits)
  show "(h + 1) mod N = t \<Longrightarrow> Suc ((h + N - t) mod N) = N"
    unfolding ring_mod(1) [OF assms] unfolding ring_mod(2) [OF assms] using assms by (auto split: if_splits)
  have c: "(h + N - t) mod N < N" using assms by simp
  show "(t + (h + N - t) mod N) mod N = h"
    unfolding ring_mod(3) [OF assms c] unfolding ring_mod(1) [OF assms] using assms by (auto split: if_splits)
  assume i: "i < (h + N - t) mod N"
  then have "i < N" using c by simp
  then show "(t + i) mod N \<noteq> h"
    using i unfolding ring_mod(3) [OF assms \<open>i < N\<close>] unfolding ring_mod(1) [OF assms] using assms by (auto split: if_splits)
qed

lemma ring_pop:
  assumes "h < (N::nat)" "t < N" "t \<noteq> h"
  shows "(h + N - t) mod N = Suc ((h + N - (t + 1) mod N) mod N)" and "((t + 1) mod N + i) mod N = (t + Suc i) mod N"
proof -
  have t1: "(t + 1) mod N < N" using assms by simp
  show "(h + N - t) mod N = Suc ((h + N - (t + 1) mod N) mod N)"
    unfolding ring_mod(1) [OF assms(1) t1] ring_mod(1) [OF assms(1,2)] unfolding ring_mod(2) [OF assms(2,1)]
    using assms by (auto split: if_splits)
  show "((t + 1) mod N + i) mod N = (t + Suc i) mod N" by (simp add: mod_simps)
qed

lemma drain_one_byte:
  fixes s :: SerialPort and b :: u8
  assumes ok: "serial_ok s"
  defines "h \<equiv> (sp_rx_head s + 1) mod RX_BUF_SIZE"
  shows "h \<noteq> sp_rx_tail s \<Longrightarrow> serial_ok (s\<lparr> sp_rx_buf := (sp_rx_buf s)[sp_rx_head s := b], sp_rx_head := h \<rparr>)
      \<and> received (s\<lparr> sp_rx_buf := (sp_rx_buf s)[sp_rx_head s := b], sp_rx_head := h \<rparr>) = received s @ [b]"
    and "h = sp_rx_tail s \<Longrightarrow> rx_count s = RX_BUF_SIZE - 1"
proof -
  have pos: "0 < RX_BUF_SIZE" by (simp add: RX_BUF_SIZE_def)
  note lt = ok [unfolded serial_ok_def]
  note ring = ring_push [of "sp_rx_head s" RX_BUF_SIZE "sp_rx_tail s"]
  show "h = sp_rx_tail s \<Longrightarrow> rx_count s = RX_BUF_SIZE - 1" using ring(2) lt by (simp add: rx_count_def h_def)
  let ?s = "s\<lparr> sp_rx_buf := (sp_rx_buf s)[sp_rx_head s := b], sp_rx_head := h \<rparr>"
  assume ne: "h \<noteq> sp_rx_tail s"
  have c: "rx_count ?s = Suc (rx_count s)" using ring(1) lt ne by (simp add: rx_count_def h_def)
  have "sp_rx_buf ?s ! ((sp_rx_tail ?s + i) mod RX_BUF_SIZE) = (if i < rx_count s then sp_rx_buf s ! ((sp_rx_tail s + i) mod RX_BUF_SIZE) else b)"
    if "i < Suc (rx_count s)" for i
    using that ring(3) ring(4) [of i] lt by (auto simp: rx_count_def less_Suc_eq)
  then have "received ?s = received s @ [b]"
    unfolding received_def c by simp
  moreover have "serial_ok ?s" using lt pos by (simp add: serial_ok_def h_def)
  ultimately show "serial_ok ?s \<and> received ?s = received s @ [b]" by simp
qed

lemma drain_loop_received:
  "serial_ok s \<Longrightarrow> \<exists>t. drain_loop fifo s = Some t \<and> serial_ok t \<and> received t = take (RX_BUF_SIZE - 1) (received s @ fifo)
     \<and> sp_hw_fifo t = sp_hw_fifo s \<and> sp_transmitted t = sp_transmitted s"
proof (induction fifo arbitrary: s)
  case Nil
  then show ?case using rx_count_lt [of s] by simp
next
  case (Cons b fifo)
  let ?h = "(sp_rx_head s + 1) mod RX_BUF_SIZE"
  let ?s = "s\<lparr> sp_rx_buf := (sp_rx_buf s)[sp_rx_head s := b], sp_rx_head := ?h \<rparr>"
  show ?case
  proof (cases "?h = sp_rx_tail s")
    case True
    then have "length (received s) = RX_BUF_SIZE - 1" using drain_one_byte(2) [OF Cons.prems] by simp
    then show ?thesis using Cons.IH [OF Cons.prems] True by (simp add: Let_def)
  next
    case False
    have one: "serial_ok ?s" "received ?s = received s @ [b]" using drain_one_byte(1) [OF Cons.prems False] by simp_all
    have step: "drain_loop (b # fifo) s = drain_loop fifo ?s" using False Cons.prems by (simp add: Let_def serial_ok_def)
    show ?thesis using Cons.IH [OF one(1)] unfolding one(2) step by simp
  qed
qed

lemma rx_loop_received:
  "serial_ok s \<Longrightarrow> \<exists>t. rx_loop n s = Some (take n (received s), t) \<and> serial_ok t \<and> received t = drop n (received s)
     \<and> sp_hw_fifo t = sp_hw_fifo s \<and> sp_transmitted t = sp_transmitted s"
proof (induction n arbitrary: s)
  case (Suc n)
  note lt = Suc.prems [unfolded serial_ok_def]
  show ?case
  proof (cases "sp_rx_tail s = sp_rx_head s")
    case True
    then have "received s = []" using lt by (simp add: received_def rx_count_def)
    then show ?thesis using True Suc.prems by simp
  next
    case False
    let ?s = "s\<lparr> sp_rx_tail := (sp_rx_tail s + 1) mod RX_BUF_SIZE \<rparr>"
    have c: "rx_count s = Suc (rx_count ?s)" using ring_pop(1) lt False by (simp add: rx_count_def)
    have "received s = sp_rx_buf s ! sp_rx_tail s # received ?s"
      unfolding received_def c upt_conv_Cons [OF zero_less_Suc] map_Suc_upt [symmetric]
      using lt ring_pop(2) [of "sp_rx_head s" RX_BUF_SIZE "sp_rx_tail s"] False by simp
    moreover have "serial_ok ?s" using lt by (simp add: serial_ok_def RX_BUF_SIZE_def)
    ultimately show ?thesis using Suc.IH [of ?s] lt False by auto
  qed
qed simp

text \<open>
  C35: The receive ring of the serial port is a queue of at most 2047 bytes: reading first takes over the
  bytes waiting in the hardware, dropping those that do not fit, and then yields the oldest bytes in order.
\<close>

theorem read_bytes_fifo:
  assumes "serial_ok s"
  shows "\<exists>t. read_bytes n s = Some (take n (take 2047 (received s @ sp_hw_fifo s)), t)
    \<and> received t = drop n (take 2047 (received s @ sp_hw_fifo s)) \<and> sp_hw_fifo t = [] \<and> serial_ok t"
proof -
  have "serial_ok (s\<lparr> sp_hw_fifo := [] \<rparr>)" "received (s\<lparr> sp_hw_fifo := [] \<rparr>) = received s"
    using assms by (simp_all add: serial_ok_def received_def rx_count_def)
  then obtain t where t: "drain_hardware_fifo s = Some t" "serial_ok t" "received t = take 2047 (received s @ sp_hw_fifo s)" "sp_hw_fifo t = []"
    using drain_loop_received [of "s\<lparr> sp_hw_fifo := [] \<rparr>" "sp_hw_fifo s"] by (auto simp: drain_hardware_fifo_def RX_BUF_SIZE_def)
  then show ?thesis using rx_loop_received [OF t(2), of n] by (auto simp: read_bytes_def)
qed

theorem read_bytes_fifo_witness:
  "\<exists>t. read_bytes 2 (SerialPort_new\<lparr> sp_hw_fifo := [104, 105, 10] \<rparr>) = Some ([104, 105], t) \<and> received t = [10] \<and> serial_ok t"
proof -
  let ?s = "SerialPort_new\<lparr> sp_hw_fifo := [104, 105, 10] \<rparr>"
  have "serial_ok ?s" "received ?s = []"
    using SerialPort_new_ok by (simp_all add: serial_ok_def received_def rx_count_def)
  then show ?thesis using read_bytes_fifo [of ?s 2] by auto
qed

subsection \<open>Line editing\<close>

definition plain :: "u8 \<Rightarrow> bool" where
  "plain c \<longleftrightarrow> c \<noteq> 0x08 \<and> c \<noteq> 0x7F \<and> c \<noteq> 13 \<and> c \<noteq> 10"

definition push_chars :: "bytes \<Rightarrow> LineDiscipline \<Rightarrow> LineDiscipline" where
  "push_chars cs ld = fold (\<lambda>c ld. snd (push_char c ld)) cs ld"

abbreviation canonical :: "LineDiscipline \<Rightarrow> bool" where
  "canonical ld \<equiv> c_lflag (ld_termios ld) AND ICANON \<noteq> 0"

lemma push_plain:
  "canonical ld \<Longrightarrow> list_all plain cs \<Longrightarrow> push_chars cs ld = ld\<lparr> ld_input_buffer := ld_input_buffer ld @ cs \<rparr>"
proof (induction cs arbitrary: ld)
  case (Cons c cs)
  then show ?case by (simp add: push_chars_def push_char_def plain_def Let_def)
qed (simp add: push_chars_def)

lemma push_erase:
  "canonical ld \<Longrightarrow> push_chars (replicate m 0x08) ld = ld\<lparr> ld_input_buffer := take (length (ld_input_buffer ld) - m) (ld_input_buffer ld) \<rparr>"
proof (induction m arbitrary: ld)
  case (Suc m)
  then show ?case
    by (simp add: push_chars_def push_char_def Let_def butlast_conv_take min_def)
qed (simp add: push_chars_def)

lemma push_chars_append: "push_chars (cs @ ds) ld = push_chars ds (push_chars cs ld)"
  by (simp add: push_chars_def)

text \<open>
  In canonical mode the reader sees nothing of a line before its end, and then the line as edited:
  typing a line, erasing its last \<open>m\<close> characters, typing more and ending the line delivers exactly the kept
  characters and a newline behind the lines delivered before.
\<close>

theorem canonical_line_editing:
  assumes canon: "canonical ld" and chars: "list_all plain cs" "list_all plain ds" and empty: "ld_input_buffer ld = []"
  shows "ld_canonical_queue (push_chars (cs @ replicate m 0x08 @ ds) ld) = ld_canonical_queue ld
    \<and> ld_canonical_queue (push_chars (cs @ replicate m 0x08 @ ds @ [13]) ld) =
        ld_canonical_queue ld @ take (length cs - m) cs @ ds @ [10]
    \<and> ld_input_buffer (push_chars (cs @ replicate m 0x08 @ ds @ [13]) ld) = []"
proof -
  let ?ld = "ld\<lparr> ld_input_buffer := take (length cs - m) cs @ ds \<rparr>"
  have "push_chars (cs @ replicate m 0x08 @ ds) ld = ?ld"
    using canon chars empty by (simp add: push_chars_append push_plain push_erase)
  moreover have "push_chars (cs @ replicate m 0x08 @ ds @ [13]) ld = push_chars [13] (push_chars (cs @ replicate m 0x08 @ ds) ld)"
    by (simp add: push_chars_append)
  ultimately show ?thesis using canon by (simp add: push_chars_def push_char_def Let_def)
qed

theorem canonical_line_editing_witness:
  "ld_canonical_queue (push_chars [108, 115, 120, 0x08, 13] LineDiscipline_new) = [108, 115, 10]"
proof -
  have "canonical LineDiscipline_new" by (simp add: LineDiscipline_new_def posix_consts)
  from canonical_line_editing [OF this, of "[108, 115, 120]" "[]" 1] show ?thesis
    by (simp add: LineDiscipline_new_def plain_def)
qed

end
