(* ===== verification/Telemetry.thy ===== *)
theory Telemetry
  imports Terminal Path
begin

text \<open>
  The system monitor (\<^verbatim>\<open>services/monitor.rs\<close>), the audit journal and snapshots (\<^verbatim>\<open>services/audit/mod.rs\<close>), the
  texts of the files in \<^verbatim>\<open>/proc\<close> (\<^verbatim>\<open>vfs/procfs.rs\<close>) and the audit system calls (\<^verbatim>\<open>posix/audit.rs\<close>). The 64-bit
  counters of events, samples and snapshots are machine words.
\<close>

subsection \<open>Formatting\<close>

fun dec_nat :: "nat \<Rightarrow> string" where
  "dec_nat n = (if n < 10 then [char_of (48 + n)] else dec_nat (n div 10) @ [char_of (48 + n mod 10)])"

declare dec_nat.simps [simp del]

definition dec_int :: "int \<Rightarrow> string" where
  "dec_int i = (if i < 0 then ''-'' @ dec_nat (nat (- i)) else dec_nat (nat i))"

text \<open>\<open>{:8}\<close>: right-aligned in eight columns.\<close>

definition pad8 :: "string \<Rightarrow> string" where
  "pad8 s = replicate (8 - length s) CHR '' '' @ s"

definition NL :: string where "NL = [CHR 0x0A]"
definition TAB :: string where "TAB = [CHR 0x09]"

fun join_tabs :: "string list \<Rightarrow> string" where
  "join_tabs [] = []"
| "join_tabs [x] = x"
| "join_tabs (x # xs) = x @ TAB @ join_tabs xs"

subsection \<open>The system monitor\<close>

definition state_str :: "ProcessState \<Rightarrow> string" where
  "state_str st = (case st of Ready \<Rightarrow> ''READY'' | Running \<Rightarrow> ''RUNNING'' | Blocked \<Rightarrow> ''BLOCKED'' | Zombie \<Rightarrow> ''ZOMBIE'')"

definition count_open :: "Process \<Rightarrow> usize" where
  "count_open p = length (filter (\<lambda>f. f \<noteq> None) (p_fds p))"

definition process_metric :: "kernel \<Rightarrow> i32 \<times> nat \<Rightarrow> ProcessMetric" where
  "process_metric k e = (let p = k_procs k (snd e) in
     \<lparr> pm_pid = fst e, pm_ppid = p_ppid p, pm_state = state_str (p_state p), pm_open_fds = count_open p, pm_cwd = p_cwd p \<rparr>)"

definition update_system_metrics :: "kernel \<Rightarrow> kernel" where
  "update_system_metrics k =
    (let (total_frames, free_frames) = get_pmm_stats (Some (pmm (k_mm k)));
         used_frames = saturating_sub total_frames free_frames;
         (heap_total, heap_used) = k_heap_stats k;
         mon = k_monitor k
     in k\<lparr> k_monitor := \<lparr> sm_sample_tick = sm_sample_tick mon + 1,
          sm_total_memory_bytes = total_frames * PAGE_SIZE, sm_free_memory_bytes = free_frames * PAGE_SIZE,
          sm_used_memory_bytes = used_frames * PAGE_SIZE, sm_total_heap_bytes = heap_total, sm_used_heap_bytes = heap_used,
          sm_total_processes = length (k_table k),
          sm_running_processes = length (filter (\<lambda>e. proc_state k (snd e) = Running) (k_table k)),
          sm_processes = map (process_metric k) (k_table k) \<rparr> \<rparr>)"

subsection \<open>The audit journal\<close>

definition MAX_JOURNAL_ENTRIES :: usize where [posix_consts]: "MAX_JOURNAL_ENTRIES = 512"
definition MAX_SNAPSHOTS :: usize where [posix_consts]: "MAX_SNAPSHOTS = 64"

definition journal_append :: "AuditEvent \<Rightarrow> AuditJournal \<Rightarrow> AuditJournal" where
  "journal_append event j =
    (let entries = (if length (aj_entries j) \<ge> MAX_JOURNAL_ENTRIES then drop 1 (aj_entries j) else aj_entries j)
     in \<lparr> aj_entries = entries @ [event], aj_total_logged = aj_total_logged j + 1 \<rparr>)"

definition log_audit_event :: "i32 \<Rightarrow> u32 \<Rightarrow> u32 \<Rightarrow> i32 \<Rightarrow> string \<Rightarrow> string \<Rightarrow> kernel \<Rightarrow> u64 \<times> kernel" where
  "log_audit_event pid uid event_type status target details k =
    (let seq = k_event_seq k;
         event = \<lparr> ae_seq = seq, ae_timestamp_ticks = sm_sample_tick (k_monitor k), ae_pid = pid, ae_uid = uid,
           ae_event_type = event_type, ae_status = status, ae_target = target, ae_details = details \<rparr>
     in (seq, k\<lparr> k_event_seq := seq + 1, k_journal := journal_append event (k_journal k) \<rparr>))"

definition get_audit_events :: "kernel \<Rightarrow> AuditEvent list" where
  "get_audit_events k = aj_entries (k_journal k)"

definition snapshot_info :: "kernel \<Rightarrow> i32 \<times> nat \<Rightarrow> ProcessSnapshotInfo" where
  "snapshot_info k e = (let p = k_procs k (snd e) in
     \<lparr> psi_pid = fst e, psi_ppid = p_ppid p, psi_uid = p_uid p, psi_gid = p_gid p, psi_state = state_str (p_state p),
       psi_open_fds = count_open p, psi_cwd = p_cwd p \<rparr>)"

definition make_snapshot :: "u64 \<Rightarrow> string \<Rightarrow> u64 \<Rightarrow> kernel \<Rightarrow> AuditSnapshot" where
  "make_snapshot snap_id label current_seq k =
    (let mon = k_monitor k; procs = map (snapshot_info k) (k_table k) in
     \<lparr> as_id = snap_id, as_label = label, as_timestamp_ticks = sm_sample_tick mon, as_journal_seq = current_seq,
       as_total_memory_kb = of_nat (sm_total_memory_bytes mon div 1024), as_used_memory_kb = of_nat (sm_used_memory_bytes mon div 1024),
       as_heap_used_kb = of_nat (sm_used_heap_bytes mon div 1024), as_process_count = of_nat (length procs), as_processes = procs \<rparr>)"

definition snapshot_details :: "u64 \<Rightarrow> u64 \<Rightarrow> string" where
  "snapshot_details snap_id current_seq =
    ''Snapshot #'' @ dec_nat (unat snap_id) @ '' created (covered up to journal seq '' @ dec_nat (unat current_seq) @ '')''"

definition create_audit_snapshot_with_creds :: "i32 \<Rightarrow> u32 \<Rightarrow> string \<Rightarrow> kernel \<Rightarrow> u64 \<times> kernel" where
  "create_audit_snapshot_with_creds pid uid label k =
    (let snap_id = k_snapshot_id k;
         k = k\<lparr> k_snapshot_id := snap_id + 1 \<rparr>;
         current_seq = (if k_event_seq k = 0 then 0 else k_event_seq k - 1);
         snapshot = make_snapshot snap_id label current_seq k;
         snapshots = (if length (k_snapshots k) \<ge> MAX_SNAPSHOTS then drop 1 (k_snapshots k) else k_snapshots k);
         k = k\<lparr> k_snapshots := snapshots @ [snapshot] \<rparr>;
         (seq, k) = log_audit_event pid uid AUDIT_TYPE_SNAPSHOT_CREATED 0 label (snapshot_details snap_id current_seq) k
     in (snap_id, k))"

text \<open>Process and user identifier of the caller, as attributed to audit events.\<close>

definition audit_caller :: "kernel \<Rightarrow> i32 \<times> u32" where
  "audit_caller k = (case get_current_proc k of Some p \<Rightarrow> (p_pid p, p_uid p) | None \<Rightarrow> (0, 0))"

definition create_audit_snapshot :: "string \<Rightarrow> kernel \<Rightarrow> u64 \<times> kernel" where
  "create_audit_snapshot label k = (let (pid, uid) = audit_caller k in create_audit_snapshot_with_creds pid uid label k)"

definition get_snapshots :: "kernel \<Rightarrow> AuditSnapshot list" where
  "get_snapshots k = k_snapshots k"

definition get_snapshot_by_id :: "u64 \<Rightarrow> kernel \<Rightarrow> AuditSnapshot option" where
  "get_snapshot_by_id snap_id k = find (\<lambda>s. as_id s = snap_id) (k_snapshots k)"

definition audit_init :: "kernel \<Rightarrow> kernel" where
  "audit_init k =
    (let (seq, k) = log_audit_event 0 0 AUDIT_TYPE_USER_ACTION 0 ''kernel'' ''Kernel audit logging initialized'' k
     in snd (create_audit_snapshot ''boot_baseline'' k))"

subsection \<open>The texts of /proc\<close>

definition event_type_name :: "u32 \<Rightarrow> string" where
  "event_type_name t =
    (if t = AUDIT_TYPE_USER_ACTION then ''USER_ACTION'' else if t = AUDIT_TYPE_PROCESS_SPAWN then ''PROC_SPAWN''
     else if t = AUDIT_TYPE_PROCESS_EXIT then ''PROC_EXIT'' else if t = AUDIT_TYPE_FILE_CREATE then ''FILE_CREATE''
     else if t = AUDIT_TYPE_FILE_MODIFY then ''FILE_MODIFY'' else if t = AUDIT_TYPE_FILE_UNLINK then ''FILE_UNLINK''
     else if t = AUDIT_TYPE_DIR_CREATE then ''DIR_CREATE'' else if t = AUDIT_TYPE_DIR_CHANGE then ''DIR_CHANGE''
     else if t = AUDIT_TYPE_SNAPSHOT_CREATED then ''SNAPSHOT'' else if t = AUDIT_TYPE_SECURITY_ALERT then ''SEC_ALERT''
     else ''OTHER'')"

definition meminfo_line :: "string \<Rightarrow> usize \<Rightarrow> string" where
  "meminfo_line label b = label @ pad8 (dec_nat (b div 1024)) @ '' kB'' @ NL"

definition generate_content :: "ProcKind \<Rightarrow> kernel \<Rightarrow> string \<times> kernel" where
  "generate_content kind k =
    (let k = update_system_metrics k; mon = k_monitor k in
     ((case kind of
        Meminfo \<Rightarrow> meminfo_line ''MemTotal:       '' (sm_total_memory_bytes mon)
          @ meminfo_line ''MemFree:        '' (sm_free_memory_bytes mon) @ meminfo_line ''MemUsed:        '' (sm_used_memory_bytes mon)
          @ meminfo_line ''HeapTotal:      '' (sm_total_heap_bytes mon) @ meminfo_line ''HeapUsed:       '' (sm_used_heap_bytes mon)
      | StatKind \<Rightarrow> ''cpu_ticks '' @ dec_nat (unat (sm_sample_tick mon)) @ NL @ ''processes '' @ dec_nat (sm_total_processes mon) @ NL
          @ ''procs_running '' @ dec_nat (sm_running_processes mon) @ NL
      | Uptime \<Rightarrow> dec_nat (unat (sm_sample_tick mon)) @ ''.00 '' @ dec_nat (unat (sm_sample_tick mon)) @ ''.00'' @ NL
      | Processes \<Rightarrow> join_tabs [''PID'', ''PPID'', ''STATE'', ''FDS'', ''CWD''] @ NL
          @ concat (map (\<lambda>p. join_tabs [dec_int (pm_pid p), dec_int (pm_ppid p), pm_state p, dec_nat (pm_open_fds p), pm_cwd p] @ NL)
              (sm_processes mon))
      | AuditJournalKind \<Rightarrow> join_tabs [''SEQ'', ''TIME'', ''PID'', ''TYPE'', ''STATUS'', ''TARGET'', ''DETAILS''] @ NL
          @ concat (map (\<lambda>ev. join_tabs [dec_nat (unat (ae_seq ev)), dec_nat (unat (ae_timestamp_ticks ev)), dec_int (ae_pid ev),
                event_type_name (ae_event_type ev), dec_int (ae_status ev), ae_target ev, ae_details ev] @ NL) (get_audit_events k))
      | AuditSnapshots \<Rightarrow> join_tabs [''ID'', ''LABEL'', ''TIME'', ''JOURNAL_SEQ'', ''RAM_USED'', ''HEAP_USED'', ''PROCS''] @ NL
          @ concat (map (\<lambda>s. join_tabs [dec_nat (unat (as_id s)), as_label s, dec_nat (unat (as_timestamp_ticks s)),
                dec_nat (unat (as_journal_seq s)), dec_nat (unat (as_used_memory_kb s)) @ '' kB'',
                dec_nat (unat (as_heap_used_kb s)) @ '' kB'', dec_nat (unat (as_process_count s))] @ NL) (get_snapshots k))), k))"

definition ProcDynamicFile_read :: "ProcKind \<Rightarrow> usize \<Rightarrow> usize \<Rightarrow> kernel \<Rightarrow> bytes kres \<times> kernel" where
  "ProcDynamicFile_read kind offset n k =
    (let (content, k) = generate_content kind k; bs = str_bytes content in
     if offset \<ge> length bs then (Ok [], k) else (Ok (take (min (length bs - offset) n) (drop offset bs)), k))"

definition ProcDynamicFile_stat :: "ProcKind \<Rightarrow> kernel \<Rightarrow> Stat \<times> kernel" where
  "ProcDynamicFile_stat kind k =
    (let (content, k) = generate_content kind k
     in (Stat_default\<lparr> st_mode := S_IFREG OR 0x124, st_size := int (length content) \<rparr>, k))"

subsection \<open>System calls\<close>

definition sys_audit_log :: "u32 \<Rightarrow> usize \<Rightarrow> usize \<Rightarrow> kernel \<Rightarrow> (int \<times> kernel) option" where
  "sys_audit_log event_type target_ptr details_ptr k =
    (let (pid, uid) = audit_caller k in
     case copy_optional_user_str (k_cr3 k) target_ptr (k_mm k) of
       Panic \<Rightarrow> None
     | Err e \<Rightarrow> Some (- e, k)
     | Ok target \<Rightarrow>
        (case copy_optional_user_str (k_cr3 k) details_ptr (k_mm k) of
           Panic \<Rightarrow> None
         | Err e \<Rightarrow> Some (- e, k)
         | Ok details \<Rightarrow>
             let (seq, k) = log_audit_event pid uid event_type 0 target details k in Some (sint seq, k)))"

definition sys_audit_snapshot :: "usize \<Rightarrow> u32 \<Rightarrow> kernel \<Rightarrow> (int \<times> kernel) option" where
  "sys_audit_snapshot label_ptr flags k =
    (case (if label_ptr = 0 then Ok ''snapshot'' else copy_user_path (k_cr3 k) label_ptr (k_mm k)) of
       Panic \<Rightarrow> None
     | Err e \<Rightarrow> Some (- e, k)
     | Ok label \<Rightarrow> let (snap_id, k) = create_audit_snapshot label k in Some (sint snap_id, k))"

subsection \<open>Decimal numbers\<close>

fun parse_dec :: "nat \<Rightarrow> string \<Rightarrow> nat" where
  "parse_dec acc [] = acc"
| "parse_dec acc (c # cs) = parse_dec (10 * acc + (of_char c - 48)) cs"

lemma parse_dec_append: "parse_dec acc (xs @ ys) = parse_dec (parse_dec acc xs) ys"
  by (induction acc xs rule: parse_dec.induct) simp_all

lemma dec_nat_roundtrip: "parse_dec 0 (dec_nat n) = n"
proof (induction n rule: dec_nat.induct)
  case (1 n)
  show ?case
  proof (cases "n < 10")
    case True
    then show ?thesis by (subst dec_nat.simps) (simp add: of_char_of)
  next
    case False
    then have "parse_dec 0 (dec_nat n) = 10 * (n div 10) + n mod 10"
      using 1 by (subst dec_nat.simps) (simp add: parse_dec_append of_char_of)
    then show ?thesis by simp
  qed
qed

subsection \<open>The audit trail\<close>

text \<open>
  A bounded log: at most \<open>m\<close> items, numbered consecutively up to the number before the next one.
\<close>

definition numbered :: "('a \<Rightarrow> u64) \<Rightarrow> nat \<Rightarrow> u64 \<Rightarrow> 'a list \<Rightarrow> bool" where
  "numbered f m nxt xs \<longleftrightarrow> length xs \<le> m \<and> (\<forall>i < length xs. f (xs ! i) = nxt - of_nat (length xs - i))"

definition bounded_push :: "nat \<Rightarrow> 'a \<Rightarrow> 'a list \<Rightarrow> 'a list" where
  "bounded_push m x xs = (if length xs \<ge> m then drop 1 xs else xs) @ [x]"

lemma numbered_push:
  assumes num: "numbered f m nxt xs" and x: "f x = nxt" and m: "0 < m"
  shows "numbered f m (nxt + 1) (bounded_push m x xs)"
proof -
  define d where "d = (if length xs \<ge> m then 1 else 0 :: nat)"
  have push: "bounded_push m x xs = drop d xs @ [x]" by (simp add: bounded_push_def d_def)
  have len: "length xs \<le> m" using num by (simp add: numbered_def)
  have d: "d \<le> length xs" "length xs - d < m" using len m by (auto simp: d_def)
  have "f ((drop d xs @ [x]) ! i) = (nxt + 1) - of_nat (Suc (length xs - d) - i)" if i: "i < Suc (length xs - d)" for i
  proof (cases "i = length xs - d")
    case False
    then have lt: "d + i < length xs" using i d by simp
    have el: "(drop d xs @ [x]) ! i = xs ! (d + i)" using lt d by (simp add: nth_append less_diff_conv add.commute)
    have "f (xs ! (d + i)) = nxt - of_nat (length xs - (d + i))" using num lt by (simp add: numbered_def)
    moreover have "Suc (length xs - d) - i = Suc (length xs - (d + i))" using lt by simp
    ultimately show ?thesis unfolding el by simp
  qed (use d x in \<open>simp add: nth_append\<close>)
  then show ?thesis using d unfolding numbered_def push by simp
qed

lemma numbered_fresh:
  assumes num: "numbered f m nxt xs" and m: "m < 2 ^ 64" and y: "y \<in> set xs"
  shows "f y \<noteq> nxt"
proof -
  obtain i where i: "i < length xs" "y = xs ! i" using y by (metis in_set_conv_nth)
  have j: "length xs - i < 2 ^ 64" "length xs - i \<noteq> 0" using num m i by (auto simp: numbered_def)
  have "(of_nat j :: u64) \<noteq> 0" if "j < 2 ^ 64" "j \<noteq> 0" for j
    using that by (simp add: word_of_nat_eq_0_iff nat_dvd_not_less)
  from this [OF j] have "nxt - of_nat (length xs - i) \<noteq> nxt" by (simp del: of_nat_diff)
  moreover have "f y = nxt - of_nat (length xs - i)" using num i unfolding numbered_def by blast
  ultimately show ?thesis by simp
qed

definition audit_ok :: "kernel \<Rightarrow> bool" where
  "audit_ok k \<longleftrightarrow> numbered ae_seq MAX_JOURNAL_ENTRIES (k_event_seq k) (get_audit_events k)
     \<and> numbered as_id MAX_SNAPSHOTS (k_snapshot_id k) (get_snapshots k)"

lemma log_audit_event_simps:
  "fst (log_audit_event pid uid ty st tg dt k) = k_event_seq k"
  "get_audit_events (snd (log_audit_event pid uid ty st tg dt k)) = bounded_push MAX_JOURNAL_ENTRIES
     \<lparr> ae_seq = k_event_seq k, ae_timestamp_ticks = sm_sample_tick (k_monitor k), ae_pid = pid, ae_uid = uid,
       ae_event_type = ty, ae_status = st, ae_target = tg, ae_details = dt \<rparr> (get_audit_events k)"
  "k_event_seq (snd (log_audit_event pid uid ty st tg dt k)) = k_event_seq k + 1"
  "get_snapshots (snd (log_audit_event pid uid ty st tg dt k)) = get_snapshots k"
  "k_snapshots (snd (log_audit_event pid uid ty st tg dt k)) = k_snapshots k"
  "k_snapshot_id (snd (log_audit_event pid uid ty st tg dt k)) = k_snapshot_id k"
  by (simp_all add: log_audit_event_def Let_def journal_append_def get_audit_events_def get_snapshots_def bounded_push_def)

lemma log_audit_event_ok: "audit_ok k \<Longrightarrow> audit_ok (snd (log_audit_event pid uid ty st tg dt k))"
  unfolding audit_ok_def log_audit_event_simps
  by (intro conjI numbered_push) (simp_all add: MAX_JOURNAL_ENTRIES_def)

lemma find_last: "\<forall>y \<in> set xs. \<not> P y \<Longrightarrow> P x \<Longrightarrow> find P (xs @ [x]) = Some x"
  by (induction xs) auto

text \<open>A snapshot goes to the end of the list of snapshots, and then an event is logged.\<close>

lemma create_snapshot_eq:
  "\<exists>s k1 dt. create_audit_snapshot_with_creds pid uid label k =
      (k_snapshot_id k, snd (log_audit_event pid uid AUDIT_TYPE_SNAPSHOT_CREATED 0 label dt k1))
    \<and> get_snapshots k1 = bounded_push MAX_SNAPSHOTS s (get_snapshots k) \<and> k_snapshot_id k1 = k_snapshot_id k + 1
    \<and> get_audit_events k1 = get_audit_events k \<and> k_event_seq k1 = k_event_seq k
    \<and> as_id s = k_snapshot_id k \<and> as_label s = label \<and> (k_event_seq k \<noteq> 0 \<longrightarrow> as_journal_seq s = k_event_seq k - 1)
    \<and> map psi_pid (as_processes s) = map fst (k_table k)"
proof -
  define seq where "seq = (if k_event_seq k = 0 then 0 else k_event_seq k - 1)"
  define k0 where "k0 = k\<lparr> k_snapshot_id := k_snapshot_id k + 1 \<rparr>"
  define s where "s = make_snapshot (k_snapshot_id k) label seq k0"
  define k1 where "k1 = k0\<lparr> k_snapshots := bounded_push MAX_SNAPSHOTS s (get_snapshots k) \<rparr>"
  have "create_audit_snapshot_with_creds pid uid label k = (k_snapshot_id k,
      snd (log_audit_event pid uid AUDIT_TYPE_SNAPSHOT_CREATED 0 label (snapshot_details (k_snapshot_id k) seq) k1))"
    unfolding create_audit_snapshot_with_creds_def Let_def
    by (simp add: k1_def k0_def s_def seq_def bounded_push_def get_snapshots_def prod.case_eq_if)
  then show ?thesis
    by (intro exI [of _ s] exI [of _ k1] exI [of _ "snapshot_details (k_snapshot_id k) seq"])
      (simp add: k1_def k0_def s_def seq_def make_snapshot_def Let_def get_snapshots_def get_audit_events_def comp_def snapshot_info_def)
qed

lemma create_snapshot_spec:
  assumes ok: "audit_ok k" and res: "create_audit_snapshot_with_creds pid uid label k = (i, k')"
  shows "audit_ok k' \<and> i = k_snapshot_id k
    \<and> ae_event_type (last (get_audit_events k')) = AUDIT_TYPE_SNAPSHOT_CREATED
    \<and> (\<exists>s. get_snapshot_by_id i k' = Some s \<and> as_label s = label
        \<and> (k_event_seq k \<noteq> 0 \<longrightarrow> as_journal_seq s = k_event_seq k - 1)
        \<and> map psi_pid (as_processes s) = map fst (k_table k))"
proof -
  obtain s k1 dt where s: "i = k_snapshot_id k" "k' = snd (log_audit_event pid uid AUDIT_TYPE_SNAPSHOT_CREATED 0 label dt k1)"
    "get_snapshots k1 = bounded_push MAX_SNAPSHOTS s (get_snapshots k)" "k_snapshot_id k1 = k_snapshot_id k + 1"
    "get_audit_events k1 = get_audit_events k" "k_event_seq k1 = k_event_seq k"
    "as_id s = k_snapshot_id k" "as_label s = label" "k_event_seq k \<noteq> 0 \<longrightarrow> as_journal_seq s = k_event_seq k - 1"
    "map psi_pid (as_processes s) = map fst (k_table k)"
    using create_snapshot_eq [of pid uid label k] res by (metis prod.inject)
  have num: "numbered as_id MAX_SNAPSHOTS (k_snapshot_id k) (get_snapshots k)" using ok by (simp add: audit_ok_def)
  have "audit_ok k1"
    using ok numbered_push [OF num s(7)] s(3-6) by (simp add: audit_ok_def MAX_SNAPSHOTS_def)
  then have "audit_ok k'" unfolding s(2) by (rule log_audit_event_ok)
  moreover have "get_snapshot_by_id i k' = Some s"
  proof -
    have old: "as_id y \<noteq> i" if "y \<in> set (get_snapshots k)" for y
      using numbered_fresh [OF num _ that] s(1) by (simp add: MAX_SNAPSHOTS_def)
    then have "\<forall>y \<in> set (if length (get_snapshots k) \<ge> MAX_SNAPSHOTS then drop 1 (get_snapshots k) else get_snapshots k). \<not> as_id y = i"
      by (auto dest: in_set_dropD)
    from find_last [OF this, of s] have "find (\<lambda>x. as_id x = i) (get_snapshots k1) = Some s"
      using s(1,7) unfolding s(3) bounded_push_def by simp
    moreover have "k_snapshots k' = get_snapshots k1" unfolding s(2) log_audit_event_simps by (simp add: get_snapshots_def)
    ultimately show ?thesis by (simp add: get_snapshot_by_id_def)
  qed
  moreover have "ae_event_type (last (get_audit_events k')) = AUDIT_TYPE_SNAPSHOT_CREATED"
    unfolding s(2) log_audit_event_simps bounded_push_def by simp
  ultimately show ?thesis using s(1,8-10) by blast
qed

text \<open>
  The audit trail is a bounded log. Logging returns the next sequence number and leaves the newest
  512 events, numbered consecutively; a snapshot can be retrieved by the returned identifier, lists the
  processes of the process table, and is itself logged; at most 64 snapshots are kept.
\<close>

theorem audit_trail_correct:
  assumes ok: "audit_ok k" and log: "log_audit_event pid uid ty st tg dt k = (seq, k')" and snap: "create_audit_snapshot label k = (i, k'')"
  shows "audit_ok k' \<and> seq = k_event_seq k
    \<and> (\<exists>ev. get_audit_events k' = drop (length (get_audit_events k) - 511) (get_audit_events k) @ [ev]
        \<and> ae_seq ev = seq \<and> ae_pid ev = pid \<and> ae_uid ev = uid \<and> ae_target ev = tg \<and> ae_details ev = dt)
    \<and> audit_ok k'' \<and> ae_event_type (last (get_audit_events k'')) = AUDIT_TYPE_SNAPSHOT_CREATED
    \<and> (\<exists>s. get_snapshot_by_id i k'' = Some s \<and> as_label s = label \<and> map psi_pid (as_processes s) = map fst (k_table k))"
proof -
  have k': "k' = snd (log_audit_event pid uid ty st tg dt k)" "seq = k_event_seq k"
    using log log_audit_event_simps(1) [of pid uid ty st tg dt k] by simp_all
  have "length (get_audit_events k) \<le> 512" using ok by (simp add: audit_ok_def numbered_def MAX_JOURNAL_ENTRIES_def)
  then have "(if length (get_audit_events k) \<ge> 512 then drop 1 (get_audit_events k) else get_audit_events k) =
      drop (length (get_audit_events k) - 511) (get_audit_events k)" by auto
  then have "\<exists>ev. get_audit_events k' = drop (length (get_audit_events k) - 511) (get_audit_events k) @ [ev]
        \<and> ae_seq ev = seq \<and> ae_pid ev = pid \<and> ae_uid ev = uid \<and> ae_target ev = tg \<and> ae_details ev = dt"
    unfolding k' log_audit_event_simps bounded_push_def MAX_JOURNAL_ENTRIES_def by simp
  moreover obtain p u where "create_audit_snapshot_with_creds p u label k = (i, k'')"
    using snap by (auto simp: create_audit_snapshot_def split: prod.splits)
  ultimately show ?thesis
    using log_audit_event_ok [OF ok, of pid uid ty st tg dt] create_snapshot_spec [OF ok, of p u label i k''] k' by blast
qed

theorem audit_trail_correct_witness:
  "\<exists>k''. create_audit_snapshot ''x'' demo_kernel = (1, k'') \<and> audit_ok k''
     \<and> (\<exists>s. get_snapshot_by_id 1 k'' = Some s \<and> as_label s = ''x'' \<and> map psi_pid (as_processes s) = [0, 1, 2, 3])"
proof -
  have ok: "audit_ok demo_kernel" and seq: "k_snapshot_id demo_kernel = 1" "map fst (k_table demo_kernel) = [0, 1, 2, 3]"
    by (simp_all add: audit_ok_def numbered_def get_audit_events_def get_snapshots_def demo_kernel_def kernel0_def)
  obtain i k'' where s: "create_audit_snapshot ''x'' demo_kernel = (i, k'')" by fastforce
  moreover have "i = 1"
    using s seq(1) by (auto simp: create_audit_snapshot_def create_audit_snapshot_with_creds_def Let_def split: prod.splits)
  moreover obtain sq k' where "log_audit_event 0 0 0 0 [] [] demo_kernel = (sq, k')" by fastforce
  ultimately show ?thesis using audit_trail_correct [OF ok _ s, of 0 0 0 0 "[]" "[]" sq k'] seq(2) by auto
qed

end
