(* ===== verification/Ramfs.thy ===== *)
theory Ramfs
  imports Telemetry
begin

text \<open>
  The in-memory file system (\<^verbatim>\<open>vfs/ramfs.rs\<close>): regular files as byte vectors, directories as ordered maps from
  names to inodes, with the separate map of subdirectories and the atomic entry counter of the source.
\<close>

datatype FileType = Regular | Directory | CharacterDevice | BlockDevice | Fifo | Socket | Symlink | Anonymous

definition file_type :: "Inode \<Rightarrow> FileType" where
  "file_type i = (case i of
     RamDir _ \<Rightarrow> Directory | RamFile _ \<Rightarrow> Regular | DevNull \<Rightarrow> CharacterDevice | DevZero \<Rightarrow> CharacterDevice
   | DevConsole \<Rightarrow> CharacterDevice | PipeReadEnd _ \<Rightarrow> Fifo | PipeWriteEnd _ \<Rightarrow> Fifo | ProcDynamicFile _ \<Rightarrow> Regular
   | EpollInstance _ \<Rightarrow> Anonymous | TtyDevice _ \<Rightarrow> CharacterDevice)"

subsection \<open>Regular files\<close>

definition RamFsFile_new_with_creds :: "bytes \<Rightarrow> u16 \<Rightarrow> u32 \<Rightarrow> u32 \<Rightarrow> RamFsFile" where
  "RamFsFile_new_with_creds initial_data mode uid gid = \<lparr> rf_data = initial_data, rf_mode = mode, rf_uid = uid, rf_gid = gid \<rparr>"

definition RamFsFile_new :: "bytes \<Rightarrow> RamFsFile" where
  "RamFsFile_new initial_data = RamFsFile_new_with_creds initial_data 0x1A4 0 0"

definition RamFsFile_read :: "usize \<Rightarrow> usize \<Rightarrow> RamFsFile \<Rightarrow> bytes kres" where
  "RamFsFile_read offset n f =
    (if offset \<ge> length (rf_data f) then Ok []
     else let available = length (rf_data f) - offset; to_copy = min n available
          in Ok (take to_copy (drop offset (rf_data f))))"

text \<open>\<open>Vec::resize\<close> with zero, and the copy; the end of the range is computed with overflow checks.\<close>

definition resize :: "usize \<Rightarrow> bytes \<Rightarrow> bytes" where
  "resize n bs = take n bs @ replicate (n - length bs) 0"

definition RamFsFile_write :: "usize \<Rightarrow> bytes \<Rightarrow> RamFsFile \<Rightarrow> usize kres \<times> RamFsFile" where
  "RamFsFile_write offset buf f =
    (case checked_add offset (length buf) of
       None \<Rightarrow> (Panic, f)
     | Some end' \<Rightarrow>
        let data = (if end' > length (rf_data f) then resize end' (rf_data f) else rf_data f)
        in (Ok (length buf), f\<lparr> rf_data := take offset data @ buf @ drop end' data \<rparr>))"

definition RamFsFile_truncate :: "RamFsFile \<Rightarrow> RamFsFile" where
  "RamFsFile_truncate f = f\<lparr> rf_data := [] \<rparr>"

definition RamFsFile_stat :: "RamFsFile \<Rightarrow> Stat" where
  "RamFsFile_stat f = Stat_default\<lparr> st_mode := S_IFREG OR ucast (rf_mode f), st_uid := rf_uid f, st_gid := rf_gid f,
     st_size := int (length (rf_data f)) \<rparr>"

subsection \<open>Directories\<close>

text \<open>\<open>AtomicUsize::fetch_add\<close> and \<open>fetch_sub\<close> wrap around.\<close>

definition atomic_inc :: "usize \<Rightarrow> usize" where
  "atomic_inc c = (c + 1) mod USIZE_LIMIT"

definition atomic_dec :: "usize \<Rightarrow> usize" where
  "atomic_dec c = (c + USIZE_LIMIT - 1) mod USIZE_LIMIT"

definition RamFsDir_new_with_creds :: "u16 \<Rightarrow> u32 \<Rightarrow> u32 \<Rightarrow> RamFsDir" where
  "RamFsDir_new_with_creds mode uid gid = \<lparr> rd_entries = [], rd_subdirs = [], rd_entry_count = 0, rd_mode = mode, rd_uid = uid, rd_gid = gid \<rparr>"

definition RamFsDir_new :: RamFsDir where
  "RamFsDir_new = RamFsDir_new_with_creds 0x1ED 0 0"

definition add_child :: "string \<Rightarrow> nat \<Rightarrow> RamFsDir \<Rightarrow> RamFsDir" where
  "add_child name inode d =
    d\<lparr> rd_entries := bt_insert name inode (rd_entries d),
       rd_entry_count := if bt_get (rd_entries d) name = None then atomic_inc (rd_entry_count d) else rd_entry_count d \<rparr>"

definition set_inode :: "nat \<Rightarrow> Inode \<Rightarrow> kernel \<Rightarrow> kernel" where
  "set_inode r i k = k\<lparr> k_inodes := (k_inodes k)(r := i) \<rparr>"

text \<open>The directory behind a reference that is known to be one (\<open>Arc<RamFsDir>\<close>).\<close>

definition the_dir :: "kernel \<Rightarrow> nat \<Rightarrow> RamFsDir" where
  "the_dir k r = (case k_inodes k r of RamDir d \<Rightarrow> d | _ \<Rightarrow> RamFsDir_new)"

definition get_or_create_subdir :: "nat \<Rightarrow> string \<Rightarrow> kernel \<Rightarrow> nat \<times> kernel" where
  "get_or_create_subdir r name k =
    (case bt_get (rd_subdirs (the_dir k r)) name of
       Some sub \<Rightarrow> (sub, k)
     | None \<Rightarrow>
        let (new_dir, k) = inode_alloc (RamDir RamFsDir_new) k;
            d = the_dir k r;
            d = add_child name new_dir (d\<lparr> rd_subdirs := bt_insert name new_dir (rd_subdirs d) \<rparr>)
        in (new_dir, set_inode r (RamDir d) k))"

definition RamFsDir_lookup :: "string \<Rightarrow> RamFsDir \<Rightarrow> nat kres" where
  "RamFsDir_lookup name d = ok_or (bt_get (rd_entries d) name) ENOENT"

definition create_dirent :: "string \<Rightarrow> u8 \<Rightarrow> Dirent64" where
  "create_dirent name ty =
    (let bs = str_bytes name; len = min (length bs) (256 - 1)
     in Dirent64_default\<lparr> d_type := ty, d_name := take len bs @ 0 # replicate (256 - len - 1) 0 \<rparr>)"

definition dirent_type :: "FileType \<Rightarrow> u8" where
  "dirent_type t = (case t of Directory \<Rightarrow> DT_DIR | CharacterDevice \<Rightarrow> DT_CHR | Fifo \<Rightarrow> DT_FIFO | _ \<Rightarrow> DT_REG)"

definition RamFsDir_readdir :: "kernel \<Rightarrow> RamFsDir \<Rightarrow> Dirent64 list" where
  "RamFsDir_readdir k d = map (\<lambda>(name, child). create_dirent name (dirent_type (file_type (k_inodes k child)))) (rd_entries d)"

definition RamFsDir_stat :: "RamFsDir \<Rightarrow> Stat" where
  "RamFsDir_stat d = Stat_default\<lparr> st_mode := S_IFDIR OR ucast (rd_mode d), st_uid := rd_uid d, st_gid := rd_gid d \<rparr>"

definition RamFsDir_create_file :: "nat \<Rightarrow> string \<Rightarrow> u16 \<Rightarrow> u32 \<Rightarrow> u32 \<Rightarrow> kernel \<Rightarrow> nat kres \<times> kernel" where
  "RamFsDir_create_file r name mode uid gid k =
    (let d = the_dir k r in
     case bt_get (rd_entries d) name of
       Some existing \<Rightarrow> (Ok existing, k)
     | None \<Rightarrow>
        let (file, k) = inode_alloc (RamFile (RamFsFile_new_with_creds [] mode uid gid)) k;
            d = d\<lparr> rd_entries := bt_insert name file (rd_entries d), rd_entry_count := atomic_inc (rd_entry_count d) \<rparr>
        in (Ok file, set_inode r (RamDir d) k))"

definition RamFsDir_create_dir :: "nat \<Rightarrow> string \<Rightarrow> u16 \<Rightarrow> u32 \<Rightarrow> u32 \<Rightarrow> kernel \<Rightarrow> nat kres \<times> kernel" where
  "RamFsDir_create_dir r name mode uid gid k =
    (let d = the_dir k r in
     if bt_get (rd_entries d) name \<noteq> None then (Err EEXIST, k)
     else
       let (new_dir, k) = inode_alloc (RamDir (RamFsDir_new_with_creds mode uid gid)) k;
           d = d\<lparr> rd_subdirs := bt_insert name new_dir (rd_subdirs d), rd_entries := bt_insert name new_dir (rd_entries d),
                  rd_entry_count := atomic_inc (rd_entry_count d) \<rparr>
       in (Ok new_dir, set_inode r (RamDir d) k))"

definition RamFsDir_unlink :: "string \<Rightarrow> RamFsDir \<Rightarrow> unit kres \<times> RamFsDir" where
  "RamFsDir_unlink name d =
    (if bt_get (rd_entries d) name \<noteq> None
     then (Ok (), d\<lparr> rd_entries := bt_remove name (rd_entries d), rd_subdirs := bt_remove name (rd_subdirs d),
                     rd_entry_count := atomic_dec (rd_entry_count d) \<rparr>)
     else (Err ENOENT, d))"

definition RamFsDir_link_entry :: "string \<Rightarrow> nat \<Rightarrow> RamFsDir \<Rightarrow> RamFsDir" where
  "RamFsDir_link_entry name inode d =
    (if bt_get (rd_entries d) name = None
     then d\<lparr> rd_entries := bt_insert name inode (rd_entries d), rd_entry_count := atomic_inc (rd_entry_count d) \<rparr>
     else d\<lparr> rd_entries := bt_insert name inode (rd_entries d), rd_subdirs := bt_remove name (rd_subdirs d) \<rparr>)"

text \<open>
  Whether an existing target may be replaced by the source, given the directories that take part in the
  renaming. Only \<open>RamFsDir\<close> has the file type of a directory, so the fallback to \<open>readdir\<close> is never taken.
\<close>

definition check_replace :: "nat \<Rightarrow> nat \<Rightarrow> nat set \<Rightarrow> kernel \<Rightarrow> i32 option" where
  "check_replace source target parents k =
    (let src_dir = (file_type (k_inodes k source) = Directory); tgt_dir = (file_type (k_inodes k target) = Directory) in
     if src_dir \<and> \<not> tgt_dir then Some ENOTDIR
     else if \<not> src_dir \<and> tgt_dir then Some EISDIR
     else if src_dir \<and> tgt_dir then
       (case k_inodes k target of
          RamDir t \<Rightarrow> if target \<in> parents \<or> rd_entry_count t > 0 then Some ENOTEMPTY else None
        | _ \<Rightarrow> Some ENOTDIR)
     else None)"

definition rename_same :: "nat \<Rightarrow> string \<Rightarrow> string \<Rightarrow> kernel \<Rightarrow> unit kres \<times> kernel" where
  "rename_same r old_name new_name k =
    (let d = the_dir k r; entries = rd_entries d; subdirs = rd_subdirs d in
     case bt_get entries old_name of
       None \<Rightarrow> (Err ENOENT, k)
     | Some source \<Rightarrow>
        if old_name = new_name then (Ok (), k)
        else case (case bt_get entries new_name of None \<Rightarrow> None | Some target \<Rightarrow> check_replace source target {r} k) of
          Some e \<Rightarrow> (Err e, k)
        | None \<Rightarrow>
           let subdir = bt_get subdirs old_name;
               replaced = (bt_get (bt_remove old_name entries) new_name \<noteq> None);
               subdirs = bt_remove new_name (bt_remove old_name subdirs);
               d = d\<lparr> rd_entries := bt_insert new_name source (bt_remove new_name (bt_remove old_name entries)),
                      rd_subdirs := (case subdir of Some sd \<Rightarrow> bt_insert new_name sd subdirs | None \<Rightarrow> subdirs),
                      rd_entry_count := if replaced then atomic_dec (rd_entry_count d) else rd_entry_count d \<rparr>
           in (Ok (), set_inode r (RamDir d) k))"

definition rename_cross :: "nat \<Rightarrow> string \<Rightarrow> nat \<Rightarrow> string \<Rightarrow> kernel \<Rightarrow> unit kres \<times> kernel" where
  "rename_cross r old_name np new_name k =
    (let d = the_dir k r; nd = the_dir k np in
     case bt_get (rd_entries d) old_name of
       None \<Rightarrow> (Err ENOENT, k)
     | Some source \<Rightarrow>
        case (case bt_get (rd_entries nd) new_name of None \<Rightarrow> None | Some target \<Rightarrow> check_replace source target {r, np} k) of
          Some e \<Rightarrow> (Err e, k)
        | None \<Rightarrow>
           let subdir = bt_get (rd_subdirs d) old_name;
               d = d\<lparr> rd_entries := bt_remove old_name (rd_entries d), rd_subdirs := bt_remove old_name (rd_subdirs d),
                      rd_entry_count := atomic_dec (rd_entry_count d) \<rparr>;
               replaced = (bt_get (rd_entries nd) new_name \<noteq> None);
               subdirs = bt_remove new_name (rd_subdirs nd);
               nd = nd\<lparr> rd_entries := bt_insert new_name source (bt_remove new_name (rd_entries nd)),
                        rd_subdirs := (case subdir of Some sd \<Rightarrow> bt_insert new_name sd subdirs | None \<Rightarrow> subdirs),
                        rd_entry_count := if \<not> replaced then atomic_inc (rd_entry_count nd) else rd_entry_count nd \<rparr>
           in (Ok (), set_inode np (RamDir nd) (set_inode r (RamDir d) k)))"

definition RamFsDir_rename :: "nat \<Rightarrow> string \<Rightarrow> nat \<Rightarrow> string \<Rightarrow> kernel \<Rightarrow> unit kres \<times> kernel" where
  "RamFsDir_rename r old_name new_parent new_name k =
    (case k_inodes k new_parent of
       RamDir _ \<Rightarrow> if r = new_parent then rename_same r old_name new_name k else rename_cross r old_name new_parent new_name k
     | _ \<Rightarrow> (Err EXDEV, k))"

subsection \<open>Files are byte arrays\<close>

lemma length_resize [simp]: "length (resize n bs) = n"
  by (simp add: resize_def)

lemma nth_resize: "i < n \<Longrightarrow> resize n bs ! i = (if i < length bs then bs ! i else 0)"
  by (simp add: resize_def nth_append)

lemma ramfs_write_spec:
  assumes fits: "offset + length buf < USIZE_LIMIT"
  shows "\<exists>f'. RamFsFile_write offset buf f = (Ok (length buf), f')
    \<and> length (rf_data f') = max (length (rf_data f)) (offset + length buf)
    \<and> (\<forall>i < length (rf_data f'). rf_data f' ! i =
          (if offset \<le> i \<and> i < offset + length buf then buf ! (i - offset) else if i < length (rf_data f) then rf_data f ! i else 0))
    \<and> RamFsFile_read offset (length buf) f' = Ok buf \<and> rf_mode f' = rf_mode f \<and> rf_uid f' = rf_uid f \<and> rf_gid f' = rf_gid f"
proof -
  define e where "e = offset + length buf"
  define data where "data = (if e > length (rf_data f) then resize e (rf_data f) else rf_data f)"
  define f' where "f' = f\<lparr> rf_data := take offset data @ buf @ drop e data \<rparr>"
  have w: "RamFsFile_write offset buf f = (Ok (length buf), f')"
    using fits by (simp add: RamFsFile_write_def checked_add_def Let_def f'_def data_def e_def)
  have len: "length data = max (length (rf_data f)) e" by (simp add: data_def)
  then have off: "offset \<le> length data" "e \<le> length data" by (simp_all add: e_def)
  have "rf_data f' ! i = (if offset \<le> i \<and> i < e then buf ! (i - offset) else if i < length (rf_data f) then rf_data f ! i else 0)"
    if "i < length data" for i
  proof -
    have "rf_data f' ! i = (if offset \<le> i \<and> i < e then buf ! (i - offset) else data ! i)"
      using off that by (auto simp: f'_def nth_append e_def)
    then show ?thesis using that by (auto simp: data_def nth_resize len)
  qed
  moreover have "length (rf_data f') = length data" using off by (simp add: f'_def e_def)
  moreover have "RamFsFile_read offset (length buf) f' = Ok buf"
    using off by (cases buf) (auto simp: RamFsFile_read_def f'_def e_def Let_def)
  ultimately show ?thesis using w len by (intro exI [of _ f']) (simp add: e_def f'_def)
qed

text \<open>
  Writing to a regular file stores exactly the written bytes: the file becomes long enough, bytes
  before and behind the written range keep their values, a gap behind the old end is filled with zeros,
  and reading the range back yields the bytes written.
\<close>

theorem ramfs_write_read:
  assumes fits: "offset + length buf < USIZE_LIMIT"
  shows "\<exists>f'. RamFsFile_write offset buf f = (Ok (length buf), f')
    \<and> length (rf_data f') = max (length (rf_data f)) (offset + length buf)
    \<and> (\<forall>i < length (rf_data f'). rf_data f' ! i =
          (if offset \<le> i \<and> i < offset + length buf then buf ! (i - offset) else if i < length (rf_data f) then rf_data f ! i else 0))
    \<and> RamFsFile_read offset (length buf) f' = Ok buf \<and> rf_mode f' = rf_mode f \<and> rf_uid f' = rf_uid f \<and> rf_gid f' = rf_gid f"
  using ramfs_write_spec [OF fits] .

theorem ramfs_write_read_witness:
  "\<exists>f'. RamFsFile_write 3 [7, 8] (RamFsFile_new [1, 2]) = (Ok 2, f') \<and> rf_data f' = [1, 2, 0, 7, 8] \<and> RamFsFile_read 3 2 f' = Ok [7, 8]"
  using ramfs_write_read [of 3 "[7, 8]" "RamFsFile_new [1, 2]"]
  by (auto simp: USIZE_LIMIT_def RamFsFile_new_def RamFsFile_new_with_creds_def RamFsFile_write_def checked_add_def Let_def resize_def RamFsFile_read_def)

subsection \<open>Directories are maps with an exact counter\<close>

definition dir_ok :: "RamFsDir \<Rightarrow> bool" where
  "dir_ok d \<longleftrightarrow> bt_ok (rd_entries d) \<and> bt_ok (rd_subdirs d) \<and> rd_entry_count d = length (rd_entries d) mod USIZE_LIMIT"

definition fs_ok :: "kernel \<Rightarrow> bool" where
  "fs_ok k \<longleftrightarrow> (\<forall>r d. k_inodes k r = RamDir d \<longrightarrow> dir_ok d)"

text \<open>The abstract file system: which inode a directory gives for a name.\<close>

definition entry :: "kernel \<Rightarrow> nat \<Rightarrow> string \<Rightarrow> nat option" where
  "entry k r name = (case k_inodes k r of RamDir d \<Rightarrow> bt_get (rd_entries d) name | _ \<Rightarrow> None)"

lemma atomic_inc_mod: "atomic_inc (n mod USIZE_LIMIT) = Suc n mod USIZE_LIMIT"
  by (simp add: atomic_inc_def mod_Suc_eq)

lemma atomic_dec_mod: "0 < n \<Longrightarrow> atomic_dec (n mod USIZE_LIMIT) = (n - 1) mod USIZE_LIMIT"
proof -
  assume "0 < n"
  have pos: "0 < USIZE_LIMIT" by (simp add: USIZE_LIMIT_def)
  have "n mod USIZE_LIMIT + USIZE_LIMIT - 1 = n mod USIZE_LIMIT + (USIZE_LIMIT - 1)" using pos by simp
  then have "atomic_dec (n mod USIZE_LIMIT) = (n + (USIZE_LIMIT - 1)) mod USIZE_LIMIT" by (simp add: atomic_dec_def mod_add_left_eq)
  also have "n + (USIZE_LIMIT - 1) = (n - 1) + USIZE_LIMIT" using \<open>0 < n\<close> pos by simp
  also have "((n - 1) + USIZE_LIMIT) mod USIZE_LIMIT = (n - 1) mod USIZE_LIMIT" by (rule mod_add_self2)
  finally show ?thesis .
qed

lemma the_dir_RamDir [simp]: "k_inodes k r = RamDir d \<Longrightarrow> the_dir k r = d"
  by (simp add: the_dir_def)

lemma set_inode_simps [simp]: "k_inodes (set_inode r i k) = (k_inodes k)(r := i)" "k_ninodes (set_inode r i k) = k_ninodes k"
  by (simp_all add: set_inode_def)

lemma fs_ok_set: "fs_ok k \<Longrightarrow> dir_ok d \<Longrightarrow> fs_ok (set_inode r (RamDir d) k)"
  by (simp add: fs_ok_def)

lemma fs_okD: "fs_ok k \<Longrightarrow> k_inodes k r = RamDir d \<Longrightarrow> dir_ok d"
  by (auto simp: fs_ok_def)

lemma dir_ok_new [simp]: "dir_ok (RamFsDir_new_with_creds mode uid gid)" "dir_ok RamFsDir_new"
  by (simp_all add: dir_ok_def RamFsDir_new_with_creds_def RamFsDir_new_def USIZE_LIMIT_def)

lemma dir_ok_the_dir: "fs_ok k \<Longrightarrow> dir_ok (the_dir k r)"
  by (auto simp: the_dir_def fs_ok_def split: Inode.split)

lemma fs_ok_alloc: "fs_ok k \<Longrightarrow> (\<And>d. i = RamDir d \<Longrightarrow> dir_ok d) \<Longrightarrow> fs_ok (snd (inode_alloc i k))"
  by (auto simp: fs_ok_def inode_alloc_def)

lemma dir_ok_insert:
  "dir_ok d \<Longrightarrow> dir_ok (d\<lparr> rd_entries := bt_insert name i (rd_entries d),
     rd_entry_count := if bt_get (rd_entries d) name = None then atomic_inc (rd_entry_count d) else rd_entry_count d \<rparr>)"
  by (simp add: dir_ok_def bt.len_put atomic_inc_mod)

lemma dir_ok_subdirs: "dir_ok d \<Longrightarrow> bt_ok m \<Longrightarrow> dir_ok (d\<lparr> rd_subdirs := m \<rparr>)"
  by (simp add: dir_ok_def)

lemma dir_ok_bt: "dir_ok d \<Longrightarrow> bt_ok (rd_entries d)" "dir_ok d \<Longrightarrow> bt_ok (rd_subdirs d)"
  by (simp_all add: dir_ok_def)

lemma dir_ok_add_child: "dir_ok d \<Longrightarrow> dir_ok (add_child name i d)"
  unfolding add_child_def by (rule dir_ok_insert)

lemma dir_ok_unlink: "dir_ok d \<Longrightarrow> dir_ok (snd (RamFsDir_unlink name d))"
  using bt.len_pos [of "rd_entries d" name] by (auto simp: dir_ok_def RamFsDir_unlink_def bt.len_del atomic_dec_mod)

lemma dir_ok_link: "dir_ok d \<Longrightarrow> dir_ok (RamFsDir_link_entry name i d)"
  by (simp add: dir_ok_def RamFsDir_link_entry_def bt.len_put atomic_inc_mod)

lemma inode_alloc_simps [simp]:
  "fst (inode_alloc i k) = k_ninodes k" "k_inodes (snd (inode_alloc i k)) = (k_inodes k)(k_ninodes k := i)"
  "k_ninodes (snd (inode_alloc i k)) = Suc (k_ninodes k)"
  by (simp_all add: inode_alloc_def)

lemma create_file_eq:
  "RamFsDir_create_file r name mode uid gid k =
    (case bt_get (rd_entries (the_dir k r)) name of
       Some existing \<Rightarrow> (Ok existing, k)
     | None \<Rightarrow> (Ok (k_ninodes k), set_inode r (RamDir (add_child name (k_ninodes k) (the_dir k r)))
         (snd (inode_alloc (RamFile (RamFsFile_new_with_creds [] mode uid gid)) k))))"
  by (simp add: RamFsDir_create_file_def Let_def inode_alloc_def add_child_def split: option.split)

lemma create_dir_eq:
  "RamFsDir_create_dir r name mode uid gid k =
    (if bt_get (rd_entries (the_dir k r)) name \<noteq> None then (Err EEXIST, k)
     else (Ok (k_ninodes k), set_inode r (RamDir (add_child name (k_ninodes k)
         ((the_dir k r)\<lparr> rd_subdirs := bt_insert name (k_ninodes k) (rd_subdirs (the_dir k r)) \<rparr>)))
         (snd (inode_alloc (RamDir (RamFsDir_new_with_creds mode uid gid)) k))))"
  by (simp add: RamFsDir_create_dir_def Let_def inode_alloc_def add_child_def)

lemma get_or_create_subdir_eq:
  "k_inodes k r = RamDir d \<Longrightarrow> r \<noteq> k_ninodes k \<Longrightarrow> get_or_create_subdir r name k =
    (case bt_get (rd_subdirs d) name of
       Some sub \<Rightarrow> (sub, k)
     | None \<Rightarrow> (k_ninodes k, set_inode r (RamDir (add_child name (k_ninodes k) (d\<lparr> rd_subdirs := bt_insert name (k_ninodes k) (rd_subdirs d) \<rparr>)))
         (snd (inode_alloc (RamDir RamFsDir_new) k))))"
  by (simp add: get_or_create_subdir_def Let_def inode_alloc_def the_dir_def split: option.split)

lemma fs_ok_create_file: "fs_ok k \<Longrightarrow> fs_ok (snd (RamFsDir_create_file r name mode uid gid k))"
  unfolding create_file_eq
  by (auto split: option.split intro!: fs_ok_set fs_ok_alloc dir_ok_add_child dir_ok_the_dir)

lemma fs_ok_create_dir: "fs_ok k \<Longrightarrow> fs_ok (snd (RamFsDir_create_dir r name mode uid gid k))"
  unfolding create_dir_eq using dir_ok_the_dir [of k r]
  by (auto intro!: fs_ok_set fs_ok_alloc dir_ok_add_child dir_ok_subdirs simp: dir_ok_bt)

lemma fs_ok_subdir:
  "fs_ok k \<Longrightarrow> k_inodes k r = RamDir d \<Longrightarrow> r \<noteq> k_ninodes k \<Longrightarrow> fs_ok (snd (get_or_create_subdir r name k))"
  using fs_okD [of k r d] by (auto simp: get_or_create_subdir_eq dir_ok_bt split: option.split
    intro!: fs_ok_set fs_ok_alloc dir_ok_add_child dir_ok_subdirs)

text \<open>Renaming within one directory, and between two.\<close>

lemma dir_ok_rename_same:
  assumes d: "dir_ok d" and src: "bt_get (rd_entries d) old_name = Some source" and ne: "old_name \<noteq> new_name" and m: "bt_ok m"
  shows "dir_ok (d\<lparr> rd_entries := bt_insert new_name source (bt_remove new_name (bt_remove old_name (rd_entries d))), rd_subdirs := m,
    rd_entry_count := if bt_get (bt_remove old_name (rd_entries d)) new_name \<noteq> None then atomic_dec (rd_entry_count d) else rd_entry_count d \<rparr>)"
  using d m ne bt.len_rename [OF _ src ne] bt.len_pos [OF _ src] by (auto simp: dir_ok_def atomic_dec_mod)

lemma dir_ok_rename_from:
  assumes d: "dir_ok d" and src: "bt_get (rd_entries d) old_name = Some source"
  shows "dir_ok (d\<lparr> rd_entries := bt_remove old_name (rd_entries d), rd_subdirs := bt_remove old_name (rd_subdirs d),
    rd_entry_count := atomic_dec (rd_entry_count d) \<rparr>)"
  using d bt.len_del [of "rd_entries d" old_name] bt.len_pos [OF _ src] src by (auto simp: dir_ok_def atomic_dec_mod)

lemma dir_ok_rename_to:
  assumes d: "dir_ok d" and m: "bt_ok m"
  shows "dir_ok (d\<lparr> rd_entries := bt_insert new_name source (bt_remove new_name (rd_entries d)), rd_subdirs := m,
    rd_entry_count := if bt_get (rd_entries d) new_name = None then atomic_inc (rd_entry_count d) else rd_entry_count d \<rparr>)"
  using d m bt.len_replace [of "rd_entries d" new_name source] by (auto simp: dir_ok_def atomic_inc_mod)

lemma bt_ok_put_subdir: "bt_ok m \<Longrightarrow> bt_ok (case sd of Some x \<Rightarrow> bt_insert n x m | None \<Rightarrow> m)"
  by (simp split: option.split)

lemma rename_same_spec:
  assumes d: "k_inodes k r = RamDir d" "dir_ok d" and res: "rename_same r old_name new_name k = (res, k')"
  shows "case res of
      Ok _ \<Rightarrow> \<exists>source d'. bt_get (rd_entries d) old_name = Some source \<and> k' = set_inode r (RamDir d') k \<and> dir_ok d'
        \<and> (\<forall>n. bt_get (rd_entries d') n = (if n = new_name then Some source else if n = old_name then None else bt_get (rd_entries d) n))
    | Err e \<Rightarrow> k' = k \<and> (e = ENOENT \<longleftrightarrow> bt_get (rd_entries d) old_name = None) \<and> e \<in> {ENOENT, ENOTDIR, EISDIR, ENOTEMPTY}
    | Panic \<Rightarrow> False"
proof (cases "bt_get (rd_entries d) old_name")
  case None
  then show ?thesis using res d by (auto simp: rename_same_def Let_def)
next
  case (Some source)
  define chk where "chk = (case bt_get (rd_entries d) new_name of None \<Rightarrow> None | Some target \<Rightarrow> check_replace source target {r} k)"
  have chk_errs: "chk = Some e \<Longrightarrow> e \<in> {ENOTDIR, EISDIR, ENOTEMPTY}" for e
    by (auto simp: chk_def check_replace_def Let_def split: option.splits if_splits Inode.splits)
  consider "old_name = new_name" | "old_name \<noteq> new_name" "chk \<noteq> None" | "old_name \<noteq> new_name" "chk = None" by blast
  then show ?thesis
  proof cases
    case 1
    have "set_inode r (RamDir d) k = k" by (rule kernel.equality) (simp_all add: set_inode_def d(1) [symmetric])
    then show ?thesis using 1 res d Some by (auto simp: rename_same_def Let_def intro!: exI [of _ d])
  next
    case 2
    then obtain e where e: "chk = Some e" by blast
    then have "(res, k') = (Err e, k)" using res d Some 2 by (simp add: rename_same_def Let_def chk_def [symmetric])
    then show ?thesis using chk_errs [OF e] Some by (auto simp: posix_consts)
  next
    case 3
    let ?sub = "bt_remove new_name (bt_remove old_name (rd_subdirs d))"
    let ?d = "d\<lparr> rd_entries := bt_insert new_name source (bt_remove new_name (bt_remove old_name (rd_entries d))),
      rd_subdirs := (case bt_get (rd_subdirs d) old_name of Some sd \<Rightarrow> bt_insert new_name sd ?sub | None \<Rightarrow> ?sub),
      rd_entry_count := if bt_get (bt_remove old_name (rd_entries d)) new_name \<noteq> None then atomic_dec (rd_entry_count d) else rd_entry_count d \<rparr>"
    have "(res, k') = (Ok (), set_inode r (RamDir ?d) k)"
      using res d Some 3 by (simp add: rename_same_def Let_def chk_def [symmetric])
    moreover have "dir_ok ?d"
      using d(2) Some 3(1) by (intro dir_ok_rename_same bt_ok_put_subdir) (simp_all add: dir_ok_bt)
    ultimately show ?thesis using Some by (auto simp: bt.get_rename)
  qed
qed

lemma rename_cross_spec:
  assumes d: "k_inodes k r = RamDir d" "dir_ok d" "k_inodes k np = RamDir nd" "dir_ok nd"
    and res: "rename_cross r old_name np new_name k = (res, k')"
  shows "case res of
      Ok _ \<Rightarrow> \<exists>source d' nd'. bt_get (rd_entries d) old_name = Some source
        \<and> k' = set_inode np (RamDir nd') (set_inode r (RamDir d') k) \<and> dir_ok d' \<and> dir_ok nd'
        \<and> (\<forall>n. bt_get (rd_entries d') n = (if n = old_name then None else bt_get (rd_entries d) n))
        \<and> (\<forall>n. bt_get (rd_entries nd') n = (if n = new_name then Some source else bt_get (rd_entries nd) n))
    | Err e \<Rightarrow> k' = k \<and> (e = ENOENT \<longleftrightarrow> bt_get (rd_entries d) old_name = None) \<and> e \<in> {ENOENT, ENOTDIR, EISDIR, ENOTEMPTY}
    | Panic \<Rightarrow> False"
proof (cases "bt_get (rd_entries d) old_name")
  case None
  then show ?thesis using res d by (auto simp: rename_cross_def Let_def)
next
  case (Some source)
  define chk where "chk = (case bt_get (rd_entries nd) new_name of None \<Rightarrow> None | Some target \<Rightarrow> check_replace source target {r, np} k)"
  have chk_errs: "chk = Some e \<Longrightarrow> e \<in> {ENOTDIR, EISDIR, ENOTEMPTY}" for e
    by (auto simp: chk_def check_replace_def Let_def split: option.splits if_splits Inode.splits)
  show ?thesis
  proof (cases chk)
    case (Some e)
    then have "(res, k') = (Err e, k)" using res d \<open>bt_get (rd_entries d) old_name = Some source\<close>
      by (simp add: rename_cross_def Let_def chk_def [symmetric])
    then show ?thesis using chk_errs [OF Some] \<open>bt_get (rd_entries d) old_name = Some source\<close> by (auto simp: posix_consts)
  next
    case None
    let ?d = "d\<lparr> rd_entries := bt_remove old_name (rd_entries d), rd_subdirs := bt_remove old_name (rd_subdirs d),
      rd_entry_count := atomic_dec (rd_entry_count d) \<rparr>"
    let ?sub = "bt_remove new_name (rd_subdirs nd)"
    let ?nd = "nd\<lparr> rd_entries := bt_insert new_name source (bt_remove new_name (rd_entries nd)),
      rd_subdirs := (case bt_get (rd_subdirs d) old_name of Some sd \<Rightarrow> bt_insert new_name sd ?sub | None \<Rightarrow> ?sub),
      rd_entry_count := if bt_get (rd_entries nd) new_name = None then atomic_inc (rd_entry_count nd) else rd_entry_count nd \<rparr>"
    have "(res, k') = (Ok (), set_inode np (RamDir ?nd) (set_inode r (RamDir ?d) k))"
      using res d Some None by (simp add: rename_cross_def Let_def chk_def [symmetric])
    moreover have "dir_ok ?d" using d(2) Some by (rule dir_ok_rename_from)
    moreover have "dir_ok ?nd" using d(4) by (intro dir_ok_rename_to bt_ok_put_subdir) (simp_all add: dir_ok_bt)
    ultimately have "\<exists>d' nd'. res = Ok () \<and> k' = set_inode np (RamDir nd') (set_inode r (RamDir d') k) \<and> dir_ok d' \<and> dir_ok nd'
        \<and> (\<forall>n. bt_get (rd_entries d') n = (if n = old_name then None else bt_get (rd_entries d) n))
        \<and> (\<forall>n. bt_get (rd_entries nd') n = (if n = new_name then Some source else bt_get (rd_entries nd) n))"
      by (intro exI [of _ ?d] exI [of _ ?nd]) (simp add: bt.get_put bt.get_del)
    then show ?thesis using Some by auto
  qed
qed

lemma entry_RamDir: "k_inodes k r = RamDir d \<Longrightarrow> entry k r n = bt_get (rd_entries d) n"
  by (simp add: entry_def)

lemma rename_spec:
  assumes ok: "fs_ok k" and d: "k_inodes k r = RamDir d" and nd: "k_inodes k np = RamDir nd"
    and res: "RamFsDir_rename r old_name np new_name k = (res, k')"
  shows "fs_ok k'" and "case res of
      Ok _ \<Rightarrow> entry k r old_name \<noteq> None \<and> (\<forall>x. x \<noteq> r \<and> x \<noteq> np \<longrightarrow> k_inodes k' x = k_inodes k x)
        \<and> (\<forall>x n. entry k' x n = (if x = np \<and> n = new_name then entry k r old_name else if x = r \<and> n = old_name then None else entry k x n))
    | Err e \<Rightarrow> k' = k \<and> (e = ENOENT \<longleftrightarrow> entry k r old_name = None) \<and> e \<in> {ENOENT, ENOTDIR, EISDIR, ENOTEMPTY}
    | Panic \<Rightarrow> False"
proof -
  have oks: "dir_ok d" "dir_ok nd" using fs_okD [OF ok] d nd by auto
  have "fs_ok k' \<and> (case res of
      Ok _ \<Rightarrow> entry k r old_name \<noteq> None \<and> (\<forall>x. x \<noteq> r \<and> x \<noteq> np \<longrightarrow> k_inodes k' x = k_inodes k x)
        \<and> (\<forall>x n. entry k' x n = (if x = np \<and> n = new_name then entry k r old_name else if x = r \<and> n = old_name then None else entry k x n))
    | Err e \<Rightarrow> k' = k \<and> (e = ENOENT \<longleftrightarrow> entry k r old_name = None) \<and> e \<in> {ENOENT, ENOTDIR, EISDIR, ENOTEMPTY}
    | Panic \<Rightarrow> False)"
  proof (cases "r = np")
    case True
    then have "rename_same r old_name new_name k = (res, k')" using res nd by (simp add: RamFsDir_rename_def)
    note spec = rename_same_spec [OF d oks(1) this]
    show ?thesis
    proof (cases res)
      case (Ok u)
      then obtain source d' where s: "bt_get (rd_entries d) old_name = Some source" "k' = set_inode r (RamDir d') k" "dir_ok d'"
        "\<And>n. bt_get (rd_entries d') n = (if n = new_name then Some source else if n = old_name then None else bt_get (rd_entries d) n)"
        using spec by auto
      have "fs_ok k'" unfolding s(2) using ok s(3) by (rule fs_ok_set)
      then show ?thesis using Ok True s d by (auto simp: entry_def)
    qed (use spec d ok in \<open>auto simp: entry_RamDir\<close>)
  next
    case False
    then have "rename_cross r old_name np new_name k = (res, k')" using res nd by (simp add: RamFsDir_rename_def)
    note spec = rename_cross_spec [OF d oks(1) nd oks(2) this]
    show ?thesis
    proof (cases res)
      case (Ok u)
      then obtain source d' nd' where s: "bt_get (rd_entries d) old_name = Some source"
        "k' = set_inode np (RamDir nd') (set_inode r (RamDir d') k)" "dir_ok d'" "dir_ok nd'"
        "\<And>n. bt_get (rd_entries d') n = (if n = old_name then None else bt_get (rd_entries d) n)"
        "\<And>n. bt_get (rd_entries nd') n = (if n = new_name then Some source else bt_get (rd_entries nd) n)"
        using spec by auto
      have "fs_ok k'" unfolding s(2) using ok s(3,4) by (intro fs_ok_set)
      then show ?thesis using Ok False s d nd by (auto simp: entry_def)
    qed (use spec d ok in \<open>auto simp: entry_RamDir\<close>)
  qed
  then show "fs_ok k'" and "case res of
      Ok _ \<Rightarrow> entry k r old_name \<noteq> None \<and> (\<forall>x. x \<noteq> r \<and> x \<noteq> np \<longrightarrow> k_inodes k' x = k_inodes k x)
        \<and> (\<forall>x n. entry k' x n = (if x = np \<and> n = new_name then entry k r old_name else if x = r \<and> n = old_name then None else entry k x n))
    | Err e \<Rightarrow> k' = k \<and> (e = ENOENT \<longleftrightarrow> entry k r old_name = None) \<and> e \<in> {ENOENT, ENOTDIR, EISDIR, ENOTEMPTY}
    | Panic \<Rightarrow> False" by blast+
qed

subsection \<open>Properties of the namespace\<close>

text \<open>A root directory with a file \<open>a\<close> and an empty directory \<open>d\<close> that was put there with \<open>add_child\<close>.\<close>

definition demo_root :: RamFsDir where
  "demo_root = add_child ''d'' 2 (add_child ''a'' 1 RamFsDir_new)"

definition demo_fs :: kernel where
  "demo_fs = demo_kernel\<lparr> k_inodes := (\<lambda>_. DevNull)(0 := RamDir demo_root, 1 := RamFile (RamFsFile_new [104, 105]), 2 := RamDir RamFsDir_new),
     k_ninodes := 3, k_root := Some 0 \<rparr>"

lemma demo_fs_ok: "fs_ok demo_fs"
  by (auto simp: fs_ok_def demo_fs_def demo_root_def intro!: dir_ok_add_child split: if_splits)

lemma demo_root_get: "bt_get (rd_entries demo_root) n = (if n = ''d'' then Some 2 else if n = ''a'' then Some 1 else None)"
  by (simp add: demo_root_def add_child_def RamFsDir_new_def RamFsDir_new_with_creds_def bt_get_def)

lemma demo_fs_simps:
  "k_inodes demo_fs 0 = RamDir demo_root" "k_inodes demo_fs 1 = RamFile (RamFsFile_new [104, 105])"
  "k_inodes demo_fs 2 = RamDir RamFsDir_new" "k_ninodes demo_fs = 3" "k_root demo_fs = Some 0"
  by (simp_all add: demo_fs_def)

text \<open>
  C23: Renaming within or between directories moves exactly one entry: on success the new name denotes
  the inode the old name denoted, the old name is gone (unless the two are the same), and every other
  entry of every directory and every other inode is untouched. On failure nothing changes, and \<open>ENOENT\<close> is
  reported exactly when the source does not exist.
\<close>

theorem ramfs_rename_correct:
  assumes "fs_ok k" "k_inodes k r = RamDir d" "k_inodes k np = RamDir nd" "RamFsDir_rename r old_name np new_name k = (res, k')"
  shows "case res of
      Ok _ \<Rightarrow> entry k r old_name \<noteq> None \<and> (\<forall>x. x \<noteq> r \<and> x \<noteq> np \<longrightarrow> k_inodes k' x = k_inodes k x)
        \<and> (\<forall>x n. entry k' x n = (if x = np \<and> n = new_name then entry k r old_name else if x = r \<and> n = old_name then None else entry k x n))
    | Err e \<Rightarrow> k' = k \<and> (e = ENOENT \<longleftrightarrow> entry k r old_name = None) \<and> e \<in> {ENOENT, ENOTDIR, EISDIR, ENOTEMPTY}
    | Panic \<Rightarrow> False"
  using assms by (rule rename_spec(2))

theorem ramfs_rename_correct_witness:
  "\<exists>k'. RamFsDir_rename 0 ''a'' 2 ''b'' demo_fs = (Ok (), k') \<and> entry k' 2 ''b'' = Some 1 \<and> entry k' 0 ''a'' = None"
proof -
  obtain res k' where r: "RamFsDir_rename 0 ''a'' 2 ''b'' demo_fs = (res, k')" by fastforce
  have a: "entry demo_fs 0 ''a'' = Some 1" by (simp add: entry_def demo_fs_simps demo_root_get)
  have "res = Ok ()"
    using r by (auto simp: RamFsDir_rename_def rename_cross_def Let_def demo_fs_simps demo_root_get RamFsDir_new_def RamFsDir_new_with_creds_def)
  then show ?thesis
    using ramfs_rename_correct [OF demo_fs_ok demo_fs_simps(1,3) r] r a by simp
qed

text \<open>
  The atomic counter that \<open>rename\<close> relies on for the emptiness check is exact: creating, adding, linking,
  unlinking and renaming entries keep it equal to the number of entries of each directory.
\<close>

theorem ramfs_counter_exact:
  assumes ok: "fs_ok k" and d: "k_inodes k r = RamDir d" "r < k_ninodes k" and nd: "k_inodes k np = RamDir nd"
  shows "fs_ok (snd (RamFsDir_create_file r name mode uid gid k)) \<and> fs_ok (snd (RamFsDir_create_dir r name mode uid gid k))
    \<and> fs_ok (snd (get_or_create_subdir r name k)) \<and> fs_ok (set_inode r (RamDir (add_child name i d)) k)
    \<and> fs_ok (set_inode r (RamDir (RamFsDir_link_entry name i d)) k)
    \<and> fs_ok (set_inode r (RamDir (snd (RamFsDir_unlink name d))) k)
    \<and> fs_ok (snd (RamFsDir_rename r name np new_name k)) \<and> rd_entry_count d = length (rd_entries d) mod USIZE_LIMIT"
proof -
  have dok: "dir_ok d" using fs_okD [OF ok d(1)] .
  have "fs_ok (snd (RamFsDir_rename r name np new_name k))"
    using rename_spec(1) [OF ok d(1) nd] by (metis surjective_pairing)
  then show ?thesis
    using fs_ok_create_file [OF ok] fs_ok_create_dir [OF ok] fs_ok_subdir [OF ok d(1)] d(2) dok
      fs_ok_set [OF ok dir_ok_add_child [OF dok]] fs_ok_set [OF ok dir_ok_link [OF dok]] fs_ok_set [OF ok dir_ok_unlink [OF dok]]
    by (simp add: dir_ok_def)
qed

theorem ramfs_counter_exact_witness:
  "fs_ok (snd (RamFsDir_create_dir 0 ''x'' 0 0 0 demo_fs)) \<and> rd_entry_count demo_root = length (rd_entries demo_root) mod USIZE_LIMIT"
  using ramfs_counter_exact [OF demo_fs_ok demo_fs_simps(1) _ demo_fs_simps(3), of "''x''" 0 0 0 0 "[]"] by (simp add: demo_fs_simps)

text \<open>
  A created file or directory is found under its name with the given attributes and no content, and
  unlinking it again restores every entry of the directories that existed before.
\<close>

theorem ramfs_create_unlink:
  assumes d: "k_inodes k r = RamDir d" "r < k_ninodes k" and free: "entry k r name = None"
    and cr: "RamFsDir_create_dir r name mode uid gid k = (Ok i, k')" and cf: "RamFsDir_create_file r name mode uid gid k = (Ok j, kf)"
    and x: "x < k_ninodes k"
  shows "entry k' r name = Some i \<and> k_inodes k' i = RamDir (RamFsDir_new_with_creds mode uid gid) \<and> (\<forall>n. entry k' i n = None)
    \<and> entry kf r name = Some j \<and> k_inodes kf j = RamFile (RamFsFile_new_with_creds [] mode uid gid)
    \<and> entry (set_inode r (RamDir (snd (RamFsDir_unlink name (the_dir k' r)))) k') x n = entry k x n
    \<and> entry (set_inode r (RamDir (snd (RamFsDir_unlink name (the_dir kf r)))) kf) x n = entry k x n"
  using assms by (auto simp: entry_def create_dir_eq create_file_eq add_child_def RamFsDir_unlink_def RamFsDir_new_with_creds_def
    split: option.splits)

theorem ramfs_create_unlink_witness:
  "\<exists>i k' j kf. RamFsDir_create_dir 0 ''x'' 0 0 0 demo_fs = (Ok i, k') \<and> RamFsDir_create_file 0 ''x'' 0 0 0 demo_fs = (Ok j, kf)
    \<and> entry k' 0 ''x'' = Some i \<and> entry kf 0 ''x'' = Some j"
proof -
  have free: "entry demo_fs 0 ''x'' = None" by (simp add: entry_def demo_fs_simps demo_root_get)
  obtain k' where "RamFsDir_create_dir 0 ''x'' 0 0 0 demo_fs = (Ok 3, k')"
    by (simp add: create_dir_eq demo_fs_simps demo_root_get)
  moreover obtain kf where "RamFsDir_create_file 0 ''x'' 0 0 0 demo_fs = (Ok 3, kf)"
    by (simp add: create_file_eq demo_fs_simps demo_root_get)
  ultimately show ?thesis
    using ramfs_create_unlink [OF demo_fs_simps(1) _ free, of 0 0 0 3 k' 3 kf 0 "[]"] by (auto simp: demo_fs_simps)
qed

text \<open>
  A directory that was put into its parent with \<open>add_child\<close> is not known to \<open>get_or_create_subdir\<close>: asking
  for it replaces the entry by a fresh empty directory, and everything below the old one is unreachable
  from its parent. Boot adds \<open>/bin\<close>, \<open>/etc\<close> and the other top-level directories this way.
\<close>

theorem subdir_shadowed:
  assumes d: "k_inodes k r = RamDir d" "r < k_ninodes k" and old: "entry k r name = Some old" "old < k_ninodes k"
    and unknown: "bt_get (rd_subdirs d) name = None"
  shows "\<exists>k'. get_or_create_subdir r name k = (k_ninodes k, k') \<and> entry k' r name = Some (k_ninodes k)
    \<and> k_ninodes k \<noteq> old \<and> (\<forall>n. entry k' (k_ninodes k) n = None)"
  using assms by (simp add: get_or_create_subdir_eq entry_def add_child_def RamFsDir_new_def RamFsDir_new_with_creds_def)

theorem subdir_shadowed_witness:
  "\<exists>k'. get_or_create_subdir 0 ''d'' demo_fs = (3, k') \<and> entry k' 0 ''d'' = Some 3 \<and> entry demo_fs 0 ''d'' = Some 2"
proof -
  have old: "entry demo_fs 0 ''d'' = Some 2" by (simp add: entry_def demo_fs_simps demo_root_get)
  have "bt_get (rd_subdirs demo_root) ''d'' = None" by (simp add: demo_root_def add_child_def RamFsDir_new_def RamFsDir_new_with_creds_def)
  from subdir_shadowed [OF demo_fs_simps(1) _ old _ this] show ?thesis using old by (auto simp: demo_fs_simps)
qed

end
