(* ===== verification/Vfs.thy ===== *)
theory Vfs
  imports Ramfs
begin

text \<open>
  The virtual file system (\<^verbatim>\<open>vfs/mod.rs\<close>): the operations of the trait \<open>Inode\<close>, dispatched on the implementor, open
  file descriptions, permission checks, and the resolution of paths. Where an implementor does not define
  an operation, the default of the trait applies.
\<close>

subsection \<open>Inode operations\<close>

definition inode_read_with_flags :: "nat \<Rightarrow> usize \<Rightarrow> usize \<Rightarrow> i32 \<Rightarrow> i32 \<Rightarrow> usize \<Rightarrow> kernel \<Rightarrow> bytes io" where
  "inode_read_with_flags r offset n flags caller_pid rsp k = (case k_inodes k r of
     RamDir _ \<Rightarrow> Done (Err EISDIR) k
   | RamFile f \<Rightarrow> Done (RamFsFile_read offset n f) k
   | DevNull \<Rightarrow> Done (DevNull_read n) k
   | DevZero \<Rightarrow> Done (DevZero_read n) k
   | DevConsole \<Rightarrow> DevConsole_read n k
   | PipeReadEnd b \<Rightarrow> PipeReadEnd_read_with_flags b n flags caller_pid rsp k
   | PipeWriteEnd _ \<Rightarrow> Done (Err EBADF) k
   | ProcDynamicFile kind \<Rightarrow> (let (res, k) = ProcDynamicFile_read kind offset n k in Done res k)
   | EpollInstance _ \<Rightarrow> Done (Err EINVAL) k
   | TtyDevice ld \<Rightarrow> (let (res, ld) = TtyDevice_read n ld in Done res (set_inode r (TtyDevice ld) k)))"

definition inode_write_with_flags :: "nat \<Rightarrow> usize \<Rightarrow> bytes \<Rightarrow> i32 \<Rightarrow> i32 \<Rightarrow> usize \<Rightarrow> kernel \<Rightarrow> usize io" where
  "inode_write_with_flags r offset buf flags caller_pid rsp k = (case k_inodes k r of
     RamDir _ \<Rightarrow> Done (Err EISDIR) k
   | RamFile f \<Rightarrow> (let (res, f) = RamFsFile_write offset buf f in Done res (set_inode r (RamFile f) k))
   | DevNull \<Rightarrow> Done (DevNull_write buf) k
   | DevZero \<Rightarrow> Done (DevZero_write buf) k
   | DevConsole \<Rightarrow> Done (Ok (length buf)) (k\<lparr> k_serial := console_write buf (k_serial k) \<rparr>)
   | PipeReadEnd _ \<Rightarrow> Done (Err EBADF) k
   | PipeWriteEnd b \<Rightarrow> PipeWriteEnd_write_with_flags b buf flags caller_pid rsp k
   | ProcDynamicFile _ \<Rightarrow> Done (Err EPERM) k
   | EpollInstance _ \<Rightarrow> Done (Err EINVAL) k
   | TtyDevice _ \<Rightarrow> Done (Ok (length buf)) (k\<lparr> k_serial := console_write buf (k_serial k) \<rparr>))"

definition inode_lookup :: "nat \<Rightarrow> string \<Rightarrow> kernel \<Rightarrow> nat kres" where
  "inode_lookup r name k = (case k_inodes k r of RamDir d \<Rightarrow> RamFsDir_lookup name d | _ \<Rightarrow> Err ENOTDIR)"

definition inode_readdir :: "nat \<Rightarrow> kernel \<Rightarrow> Dirent64 list kres" where
  "inode_readdir r k = (case k_inodes k r of RamDir d \<Rightarrow> Ok (RamFsDir_readdir k d) | _ \<Rightarrow> Err ENOTDIR)"

definition inode_stat :: "nat \<Rightarrow> kernel \<Rightarrow> Stat kres \<times> kernel" where
  "inode_stat r k = (case k_inodes k r of
     RamDir d \<Rightarrow> (Ok (RamFsDir_stat d), k)
   | RamFile f \<Rightarrow> (Ok (RamFsFile_stat f), k)
   | DevNull \<Rightarrow> (Ok (Stat_default\<lparr> st_mode := S_IFCHR OR 0x1B6 \<rparr>), k)
   | DevZero \<Rightarrow> (Ok (Stat_default\<lparr> st_mode := S_IFCHR OR 0x1B6 \<rparr>), k)
   | DevConsole \<Rightarrow> (Ok (Stat_default\<lparr> st_mode := S_IFCHR OR 0x1B6 \<rparr>), k)
   | PipeReadEnd _ \<Rightarrow> (Ok (Stat_default\<lparr> st_mode := S_IFIFO OR 0x180 \<rparr>), k)
   | PipeWriteEnd _ \<Rightarrow> (Ok (Stat_default\<lparr> st_mode := S_IFIFO OR 0x180 \<rparr>), k)
   | ProcDynamicFile kind \<Rightarrow> (let (st, k) = ProcDynamicFile_stat kind k in (Ok st, k))
   | EpollInstance _ \<Rightarrow> (Ok (Stat_default\<lparr> st_mode := S_IFREG OR 0x180 \<rparr>), k)
   | TtyDevice _ \<Rightarrow> (Ok (Stat_default\<lparr> st_mode := S_IFCHR OR 0x190 \<rparr>), k))"

definition inode_create_file :: "nat \<Rightarrow> string \<Rightarrow> u16 \<Rightarrow> u32 \<Rightarrow> u32 \<Rightarrow> kernel \<Rightarrow> nat kres \<times> kernel" where
  "inode_create_file r name mode uid gid k =
    (case k_inodes k r of RamDir _ \<Rightarrow> RamFsDir_create_file r name mode uid gid k | _ \<Rightarrow> (Err ENOTDIR, k))"

definition inode_create_dir :: "nat \<Rightarrow> string \<Rightarrow> u16 \<Rightarrow> u32 \<Rightarrow> u32 \<Rightarrow> kernel \<Rightarrow> nat kres \<times> kernel" where
  "inode_create_dir r name mode uid gid k =
    (case k_inodes k r of RamDir _ \<Rightarrow> RamFsDir_create_dir r name mode uid gid k | _ \<Rightarrow> (Err ENOTDIR, k))"

definition inode_unlink :: "nat \<Rightarrow> string \<Rightarrow> kernel \<Rightarrow> unit kres \<times> kernel" where
  "inode_unlink r name k = (case k_inodes k r of
     RamDir d \<Rightarrow> (let (res, d) = RamFsDir_unlink name d in (res, set_inode r (RamDir d) k))
   | _ \<Rightarrow> (Err ENOTDIR, k))"

definition inode_truncate :: "nat \<Rightarrow> kernel \<Rightarrow> unit kres \<times> kernel" where
  "inode_truncate r k = (case k_inodes k r of
     RamFile f \<Rightarrow> (Ok (), set_inode r (RamFile (RamFsFile_truncate f)) k)
   | _ \<Rightarrow> (Ok (), k))"

definition inode_link_entry :: "nat \<Rightarrow> string \<Rightarrow> nat \<Rightarrow> kernel \<Rightarrow> unit kres \<times> kernel" where
  "inode_link_entry r name i k = (case k_inodes k r of
     RamDir d \<Rightarrow> (Ok (), set_inode r (RamDir (RamFsDir_link_entry name i d)) k)
   | _ \<Rightarrow> (Err ENOTDIR, k))"

definition inode_rename :: "nat \<Rightarrow> string \<Rightarrow> nat \<Rightarrow> string \<Rightarrow> kernel \<Rightarrow> unit kres \<times> kernel" where
  "inode_rename r old_name new_parent new_name k =
    (case k_inodes k r of RamDir _ \<Rightarrow> RamFsDir_rename r old_name new_parent new_name k | _ \<Rightarrow> (Err EROFS, k))"

record InodePollFlags =
  ipf_readable :: bool
  ipf_writable :: bool
  ipf_hangup :: bool
  ipf_error :: bool

definition inode_poll :: "nat \<Rightarrow> kernel \<Rightarrow> InodePollFlags" where
  "inode_poll r k = (case k_inodes k r of
     PipeReadEnd b \<Rightarrow> (let pipe = k_pipes k b in
       \<lparr> ipf_readable = pb_len pipe > 0, ipf_writable = False, ipf_hangup = (pb_writers_open pipe = 0), ipf_error = False \<rparr>)
   | PipeWriteEnd b \<Rightarrow> (let pipe = k_pipes k b in
       \<lparr> ipf_readable = False, ipf_writable = pb_len pipe < PIPE_BUFFER_SIZE, ipf_hangup = False, ipf_error = (pb_readers_open pipe = 0) \<rparr>)
   | _ \<Rightarrow> \<lparr> ipf_readable = True, ipf_writable = True, ipf_hangup = False, ipf_error = False \<rparr>)"

subsection \<open>Open file descriptions\<close>

definition set_offset :: "nat \<Rightarrow> usize \<Rightarrow> kernel \<Rightarrow> kernel" where
  "set_offset h off k = k\<lparr> k_handles := (k_handles k)(h := (k_handles k h)\<lparr> fh_offset := off \<rparr>) \<rparr>"

text \<open>\<open>*offset_guard += n\<close> after a transfer of \<open>n\<close> bytes, with the overflow check.\<close>

definition advance :: "nat \<Rightarrow> usize \<Rightarrow> ('a \<Rightarrow> usize) \<Rightarrow> 'a io \<Rightarrow> 'a io" where
  "advance h offset len res = (case res of
     Done (Ok v) k \<Rightarrow>
       (case checked_add offset (len v) of Some off \<Rightarrow> Done (Ok v) (set_offset h off k) | None \<Rightarrow> Done Panic k)
   | _ \<Rightarrow> res)"

definition FileHandle_read :: "nat \<Rightarrow> usize \<Rightarrow> i32 \<Rightarrow> usize \<Rightarrow> kernel \<Rightarrow> bytes io" where
  "FileHandle_read h n caller_pid rsp k =
    (let fh = k_handles k h
     in advance h (fh_offset fh) length
          (inode_read_with_flags (fh_inode fh) (fh_offset fh) n (fh_flags fh) caller_pid rsp k))"

definition FileHandle_write :: "nat \<Rightarrow> bytes \<Rightarrow> i32 \<Rightarrow> usize \<Rightarrow> kernel \<Rightarrow> usize io" where
  "FileHandle_write h buf caller_pid rsp k =
    (let fh = k_handles k h;
         k = (if fh_flags fh AND O_APPEND \<noteq> 0 then
                (case inode_stat (fh_inode fh) k of
                   (Ok st, k) \<Rightarrow> set_offset h (unat (word_of_int (st_size st) :: u64)) k
                 | (_, k) \<Rightarrow> k)
              else k);
         offset = fh_offset (k_handles k h)
     in advance h offset (\<lambda>n. n) (inode_write_with_flags (fh_inode fh) offset buf (fh_flags fh) caller_pid rsp k))"

text \<open>Addition of \<open>i64\<close> values, and the cast of \<open>usize\<close> to \<open>i64\<close>.\<close>

definition checked_add_i64 :: "i64 \<Rightarrow> i64 \<Rightarrow> i64 option" where
  "checked_add_i64 a b = (if - (2 ^ 63) \<le> a + b \<and> a + b < 2 ^ 63 then Some (a + b) else None)"

definition usize_as_i64 :: "usize \<Rightarrow> i64" where
  "usize_as_i64 n = sint (of_nat n :: u64)"

definition FileHandle_lseek :: "nat \<Rightarrow> i64 \<Rightarrow> i32 \<Rightarrow> kernel \<Rightarrow> i64 kres \<times> kernel" where
  "FileHandle_lseek h offset whence k =
    (let fh = k_handles k h;
         current = usize_as_i64 (fh_offset fh);
         (new_offset, k) =
           (if whence = SEEK_SET then (Ok offset, k)
            else if whence = SEEK_CUR then (case checked_add_i64 current offset of Some n \<Rightarrow> Ok n | None \<Rightarrow> Panic, k)
            else if whence = SEEK_END then
              (case inode_stat (fh_inode fh) k of
                 (Ok st, k) \<Rightarrow> (case checked_add_i64 (st_size st) offset of Some n \<Rightarrow> Ok n | None \<Rightarrow> Panic, k)
               | (Err e, k) \<Rightarrow> (Err e, k)
               | (Panic, k) \<Rightarrow> (Panic, k))
            else (Err EINVAL, k))
     in case new_offset of
          Ok n \<Rightarrow> if n < 0 then (Err EINVAL, k) else (Ok n, set_offset h (nat n) k)
        | Err e \<Rightarrow> (Err e, k)
        | Panic \<Rightarrow> (Panic, k))"

subsection \<open>Permissions\<close>

record VfsCreds =
  vc_uid :: u32
  vc_gid :: u32
  vc_euid :: u32
  vc_egid :: u32
  vc_umask :: u32

definition VfsCreds_new :: "u32 \<Rightarrow> u32 \<Rightarrow> u32 \<Rightarrow> u32 \<Rightarrow> u32 \<Rightarrow> VfsCreds" where
  "VfsCreds_new uid gid euid egid umask = \<lparr> vc_uid = uid, vc_gid = gid, vc_euid = euid, vc_egid = egid, vc_umask = umask \<rparr>"

definition creation_mode :: "VfsCreds \<Rightarrow> u32 \<Rightarrow> u16" where
  "creation_mode c mode = (ucast mode AND 0x1FF) AND NOT (ucast (vc_umask c))"

definition is_root :: "VfsCreds \<Rightarrow> bool" where
  "is_root c \<longleftrightarrow> vc_euid c = 0"

definition check_inode_permission :: "nat \<Rightarrow> VfsCreds \<Rightarrow> i32 \<Rightarrow> kernel \<Rightarrow> unit kres \<times> kernel" where
  "check_inode_permission r creds flags k =
    (if is_root creds then (Ok (), k)
     else case inode_stat r k of
       (Ok st, k) \<Rightarrow>
         let imode = st_mode st;
             req_write = (flags AND O_WRONLY \<noteq> 0 \<or> flags AND O_RDWR \<noteq> 0);
             req_read = (flags AND O_WRONLY = 0);
             (can_read, can_write) =
               (if vc_euid creds = st_uid st then (imode AND S_IRUSR \<noteq> 0, imode AND S_IWUSR \<noteq> 0)
                else if vc_egid creds = st_gid st then (imode AND S_IRGRP \<noteq> 0, imode AND S_IWGRP \<noteq> 0)
                else (imode AND S_IROTH \<noteq> 0, imode AND S_IWOTH \<noteq> 0))
         in if (req_read \<and> \<not> can_read) \<or> (req_write \<and> \<not> can_write) then (Err EACCES, k) else (Ok (), k)
     | (_, k) \<Rightarrow> (Ok (), k))"

subsection \<open>Path resolution\<close>

definition vfs_init :: "nat \<Rightarrow> kernel \<Rightarrow> kernel" where
  "vfs_init root k = k\<lparr> k_root := Some root \<rparr>"

fun walk :: "nat \<Rightarrow> string list \<Rightarrow> kernel \<Rightarrow> nat kres" where
  "walk current [] k = Ok current"
| "walk current (component # cs) k =
    (case inode_lookup current component k of Ok i \<Rightarrow> walk i cs k | Err e \<Rightarrow> Err e | Panic \<Rightarrow> Panic)"

definition resolve_path :: "string \<Rightarrow> string \<Rightarrow> kernel \<Rightarrow> nat kres" where
  "resolve_path cwd path k =
    (let norm = normalize_path cwd path in
     case k_root k of
       None \<Rightarrow> Err ENODEV
     | Some root \<Rightarrow> if norm = ''/'' then Ok root else walk root (path_parts norm) k)"

definition resolve_parent_and_basename :: "string \<Rightarrow> string \<Rightarrow> kernel \<Rightarrow> (nat \<times> string) kres" where
  "resolve_parent_and_basename cwd path k =
    (let norm = normalize_path cwd path in
     if norm = ''/'' then Err EINVAL
     else
       let parts = path_parts norm in
       if parts = [] then Err EINVAL
       else case k_root k of
         None \<Rightarrow> Err ENODEV
       | Some root \<Rightarrow>
          (case walk root (butlast parts) k of Ok i \<Rightarrow> Ok (i, last parts) | Err e \<Rightarrow> Err e | Panic \<Rightarrow> Panic))"

subsection \<open>Paths denote inodes\<close>

text \<open>The abstract reading of a path: following entries from the root.\<close>

fun follow :: "kernel \<Rightarrow> nat \<Rightarrow> string list \<Rightarrow> nat option" where
  "follow k r [] = Some r"
| "follow k r (c # cs) = (case entry k r c of Some i \<Rightarrow> follow k i cs | None \<Rightarrow> None)"

lemma inode_lookup_entry:
  "inode_lookup r name k = (case entry k r name of Some i \<Rightarrow> Ok i
     | None \<Rightarrow> Err (case k_inodes k r of RamDir _ \<Rightarrow> ENOENT | _ \<Rightarrow> ENOTDIR))"
  by (auto simp: inode_lookup_def entry_def RamFsDir_lookup_def ok_or_def split: Inode.split option.split)

lemma walk_follow: "walk r cs k = Ok i \<longleftrightarrow> follow k r cs = Some i"
  by (induction r cs k rule: walk.induct) (simp_all add: inode_lookup_entry split: option.split)

lemma walk_total: "(\<exists>i. walk r cs k = Ok i) \<or> walk r cs k \<in> {Err ENOENT, Err ENOTDIR}"
  by (induction r cs k rule: walk.induct) (auto simp: inode_lookup_entry split: option.splits Inode.splits)

lemma walk_append: "walk r (cs @ ds) k = (case walk r cs k of Ok i \<Rightarrow> walk i ds k | Err e \<Rightarrow> Err e | Panic \<Rightarrow> Panic)"
  by (induction r cs k rule: walk.induct) (simp_all split: kres.split)

lemma normalize_root_parts: "normalize_path cwd path = ''/'' \<longleftrightarrow> path_parts (normalize_path cwd path) = []"
proof -
  obtain cs where cs: "list_all proper cs" "normalize_path cwd path = join_components cs" using normalize_components by blast
  have "join_components cs = ''/'' \<longleftrightarrow> cs = []"
    using cs(1) by (cases cs) (auto simp: join_components_def proper_def SLASH_def)
  then show ?thesis using path_parts_join [OF cs(1)] by (simp add: cs(2))
qed

lemma resolve_path_walk:
  "k_root k = Some root \<Longrightarrow> resolve_path cwd path k = walk root (path_parts (normalize_path cwd path)) k"
  using normalize_root_parts [of cwd path] by (auto simp: resolve_path_def Let_def)

lemma resolve_parent_walk:
  assumes "resolve_parent_and_basename cwd path k = Ok (p, b)"
  obtains root where "k_root k = Some root" "path_parts (normalize_path cwd path) = butlast (path_parts (normalize_path cwd path)) @ [b]"
    "walk root (butlast (path_parts (normalize_path cwd path))) k = Ok p"
  using assms by (auto simp: resolve_parent_and_basename_def Let_def split: if_splits option.splits kres.splits)

text \<open>
  C28: Resolution follows the directory entries along the components of the normalised path: it finds an
  inode exactly when every component exists, and otherwise reports \<open>ENOENT\<close> or \<open>ENOTDIR\<close>. Resolving the parent and
  looking up the basename there is the same as resolving the path, and the basename is a proper name.
\<close>

theorem resolve_path_correct:
  assumes root: "k_root k = Some root"
  shows "(resolve_path cwd path k = Ok i \<longleftrightarrow> follow k root (path_parts (normalize_path cwd path)) = Some i)
    \<and> ((\<exists>j. resolve_path cwd path k = Ok j) \<or> resolve_path cwd path k \<in> {Err ENOENT, Err ENOTDIR})
    \<and> (\<forall>p b. resolve_parent_and_basename cwd path k = Ok (p, b) \<longrightarrow> resolve_path cwd path k = inode_lookup p b k \<and> proper b)
    \<and> (resolve_path cwd path k = Ok i \<and> path_parts (normalize_path cwd path) \<noteq> [] \<longrightarrow>
         (\<exists>p b. resolve_parent_and_basename cwd path k = Ok (p, b) \<and> entry k p b = Some i))"
proof (intro conjI allI impI)
  let ?ps = "path_parts (normalize_path cwd path)"
  note walk = resolve_path_walk [OF root, of cwd path]
  show "resolve_path cwd path k = Ok i \<longleftrightarrow> follow k root ?ps = Some i" by (simp add: walk walk_follow)
  show "(\<exists>j. resolve_path cwd path k = Ok j) \<or> resolve_path cwd path k \<in> {Err ENOENT, Err ENOTDIR}"
    unfolding walk by (rule walk_total)
  show "resolve_path cwd path k = inode_lookup p b k" "proper b" if pb: "resolve_parent_and_basename cwd path k = Ok (p, b)" for p b
  proof -
    obtain root' where r: "k_root k = Some root'" "?ps = butlast ?ps @ [b]" "walk root' (butlast ?ps) k = Ok p"
      using resolve_parent_walk [OF pb] .
    have "walk root ?ps k = walk p [b] k" by (subst r(2)) (use r(1,3) root in \<open>simp add: walk_append\<close>)
    then show "resolve_path cwd path k = inode_lookup p b k" unfolding walk by (simp split: kres.split)
    have "list_all proper ?ps" using normalize_components [of cwd path] path_parts_join by metis
    then show "proper b" using r(2) by (metis list_all_append list.pred_inject(2))
  qed
  assume i: "resolve_path cwd path k = Ok i \<and> ?ps \<noteq> []"
  then have ps: "?ps = butlast ?ps @ [last ?ps]" by simp
  have "walk root (butlast ?ps @ [last ?ps]) k = Ok i" using i ps walk by metis
  then obtain p where p: "walk root (butlast ?ps) k = Ok p" "inode_lookup p (last ?ps) k = Ok i"
    by (auto simp: walk_append split: kres.splits)
  then have "resolve_parent_and_basename cwd path k = Ok (p, last ?ps)"
    using i root normalize_root_parts [of cwd path] by (simp add: resolve_parent_and_basename_def Let_def)
  then show "\<exists>p b. resolve_parent_and_basename cwd path k = Ok (p, b) \<and> entry k p b = Some i"
    using p(2) by (auto simp: inode_lookup_entry split: option.splits)
qed

theorem resolve_path_correct_witness:
  "resolve_path ''/'' ''/d/../a'' demo_fs = Ok 1"
proof -
  have "path_parts (normalize_path ''/'' ''/d/../a'') = [''a'']" by code_simp
  moreover have "follow demo_fs 0 [''a''] = Some 1" by (simp add: entry_def demo_fs_simps demo_root_get)
  ultimately show ?thesis using resolve_path_correct [OF demo_fs_simps(5), of "''/''" "''/d/../a''" 1] by simp
qed

subsection \<open>File handles are byte streams\<close>

lemma ramfs_write_append:
  assumes fits: "offset + length a + length b < USIZE_LIMIT"
    and a: "RamFsFile_write offset a f = (Ok (length a), g)"
    and ab: "RamFsFile_write offset (a @ b) f = (Ok (length a + length b), g')"
  shows "RamFsFile_write (offset + length a) b g = (Ok (length b), g')"
proof -
  let ?n = "length (rf_data f)"
  have g: "length (rf_data g) = max ?n (offset + length a)" "rf_mode g = rf_mode f" "rf_uid g = rf_uid f" "rf_gid g = rf_gid f"
    "\<forall>i < length (rf_data g). rf_data g ! i =
       (if offset \<le> i \<and> i < offset + length a then a ! (i - offset) else if i < ?n then rf_data f ! i else 0)"
    using ramfs_write_spec [of offset a f] fits a by auto
  have g': "length (rf_data g') = max ?n (offset + length a + length b)" "rf_mode g' = rf_mode f" "rf_uid g' = rf_uid f" "rf_gid g' = rf_gid f"
    "\<forall>i < length (rf_data g'). rf_data g' ! i = (if offset \<le> i \<and> i < offset + length a + length b then (a @ b) ! (i - offset)
       else if i < ?n then rf_data f ! i else 0)"
    using ramfs_write_spec [of offset "a @ b" f] fits ab by (auto simp: add.assoc)
  obtain h where h: "RamFsFile_write (offset + length a) b g = (Ok (length b), h)"
    "length (rf_data h) = max (length (rf_data g)) (offset + length a + length b)" "rf_mode h = rf_mode g" "rf_uid h = rf_uid g" "rf_gid h = rf_gid g"
    "\<forall>i < length (rf_data h). rf_data h ! i = (if offset + length a \<le> i \<and> i < offset + length a + length b then b ! (i - (offset + length a))
       else if i < length (rf_data g) then rf_data g ! i else 0)"
    using ramfs_write_spec [of "offset + length a" b g] fits by auto
  have "rf_data h = rf_data g'"
  proof (rule nth_equalityI)
    show len: "length (rf_data h) = length (rf_data g')" using g g' h by simp
    show "rf_data h ! i = rf_data g' ! i" if i: "i < length (rf_data h)" for i
      using i len g(1,5) g'(1,5) h(2,6) by (auto simp: nth_append diff_diff_left)
  qed
  then have "h = g'" using g g' h by (cases h, cases g') simp
  then show ?thesis using h by simp
qed

lemma advance_Done [simp]:
  "advance h offset len (Done (Ok v) k) = (if offset + len v < USIZE_LIMIT then Done (Ok v) (set_offset h (offset + len v) k) else Done Panic k)"
  by (simp add: advance_def checked_add_def)

lemma set_offset_simps [simp]: "k_inodes (set_offset h off k) = k_inodes k" "k_handles (set_offset h off k) = (k_handles k)(h := (k_handles k h)\<lparr> fh_offset := off \<rparr>)"
  by (simp_all add: set_offset_def)

lemma set_offset_twice [simp]:
  "set_offset h a (set_offset h b k) = set_offset h a k"
  "set_inode r i (set_offset h b (set_inode r j k)) = set_offset h b (set_inode r i k)"
  by (simp_all add: set_offset_def set_inode_def)

lemma file_write_eq:
  assumes "k_inodes k (fh_inode (k_handles k h)) = RamFile f" "fh_flags (k_handles k h) AND O_APPEND = 0"
    and "RamFsFile_write (fh_offset (k_handles k h)) a f = (Ok (length a), g)" "fh_offset (k_handles k h) + length a < USIZE_LIMIT"
  shows "FileHandle_write h a pid rsp k =
    Done (Ok (length a)) (set_offset h (fh_offset (k_handles k h) + length a) (set_inode (fh_inode (k_handles k h)) (RamFile g) k))"
  using assms by (simp add: FileHandle_write_def inode_write_with_flags_def Let_def set_inode_def)

text \<open>
  C27: An open regular file is a byte stream: writing two buffers in succession leaves the system in the
  same state as writing their concatenation, the offset advances by the bytes written, and seeking back and
  reading returns both buffers and restores that state.
\<close>

theorem file_handle_stream:
  assumes reg: "k_inodes k (fh_inode (k_handles k h)) = RamFile f" and flags: "fh_flags (k_handles k h) AND O_APPEND = 0"
    and o: "fh_offset (k_handles k h) = off" and fits: "off + length a + length b < 2 ^ 63"
  shows "\<exists>k' k'' k'''. FileHandle_write h a pid rsp k = Done (Ok (length a)) k'
    \<and> FileHandle_write h b pid rsp k' = Done (Ok (length b)) k''
    \<and> FileHandle_write h (a @ b) pid rsp k = Done (Ok (length a + length b)) k''
    \<and> fh_offset (k_handles k'' h) = off + length a + length b
    \<and> FileHandle_lseek h (int off) SEEK_SET k'' = (Ok (int off), k''')
    \<and> FileHandle_read h (length a + length b) pid rsp k''' = Done (Ok (a @ b)) k''"
proof -
  have lim: "off + length a < USIZE_LIMIT" "off + length a + length b < USIZE_LIMIT" using fits by (simp_all add: USIZE_LIMIT_def)
  obtain g where g: "RamFsFile_write off a f = (Ok (length a), g)" using ramfs_write_spec [OF lim(1)] by blast
  obtain g' where g': "RamFsFile_write off (a @ b) f = (Ok (length a + length b), g')" "RamFsFile_read off (length a + length b) g' = Ok (a @ b)"
    using ramfs_write_spec [of off "a @ b" f] lim(2) by (auto simp: add.assoc)
  note gb = ramfs_write_append [OF lim(2) g g'(1)]
  let ?r = "fh_inode (k_handles k h)"
  let ?k = "set_offset h (off + length a) (set_inode ?r (RamFile g) k)"
  let ?k' = "set_offset h (off + length a + length b) (set_inode ?r (RamFile g') k)"
  have "FileHandle_write h a pid rsp k = Done (Ok (length a)) ?k"
    using file_write_eq [OF reg flags] g lim(1) by (simp add: o)
  moreover have "FileHandle_write h b pid rsp ?k = Done (Ok (length b)) ?k'"
    using file_write_eq [of ?k h g b g' pid rsp] gb lim flags by (simp add: set_inode_def set_offset_def)
  moreover have "FileHandle_write h (a @ b) pid rsp k = Done (Ok (length a + length b)) ?k'"
    using file_write_eq [OF reg flags, of "a @ b" g' pid rsp] g' lim(2) by (simp add: o add.assoc)
  moreover have "FileHandle_lseek h (int off) SEEK_SET ?k' = (Ok (int off), set_offset h off ?k')"
    by (simp add: FileHandle_lseek_def Let_def)
  moreover have "FileHandle_read h (length a + length b) pid rsp (set_offset h off ?k') = Done (Ok (a @ b)) ?k'"
    using g'(2) lim(2) by (simp add: FileHandle_read_def inode_read_with_flags_def Let_def set_inode_def add.assoc)
  ultimately show ?thesis by (intro exI conjI) (assumption | simp)+
qed

definition demo_open_fs :: kernel where
  "demo_open_fs = demo_fs\<lparr> k_handles := \<lambda>_. \<lparr> fh_inode = 1, fh_offset = 1, fh_flags = O_RDWR \<rparr> \<rparr>"

theorem file_handle_stream_witness:
  "\<exists>k' k'' k'''. FileHandle_write 0 [1, 2] 1 0 demo_open_fs = Done (Ok 2) k' \<and> FileHandle_write 0 [3] 1 0 k' = Done (Ok 1) k''
    \<and> FileHandle_lseek 0 1 SEEK_SET k'' = (Ok 1, k''') \<and> FileHandle_read 0 3 1 0 k''' = Done (Ok [1, 2, 3]) k''"
proof -
  have "k_inodes demo_open_fs (fh_inode (k_handles demo_open_fs 0)) = RamFile (RamFsFile_new [104, 105])"
    "fh_flags (k_handles demo_open_fs 0) AND O_APPEND = 0" "fh_offset (k_handles demo_open_fs 0) = 1"
    by (simp_all only: demo_open_fs_def) (simp_all add: demo_fs_simps [simplified] O_RDWR_def O_APPEND_def)
  moreover have "1 + length [1, 2 :: u8] + length [3 :: u8] < 2 ^ 63" by simp
  ultimately show ?thesis
    using file_handle_stream [of demo_open_fs 0 "RamFsFile_new [104, 105]" 1 "[1, 2]" "[3]" 1 0] by (auto simp: numeral_2_eq_2 numeral_3_eq_3)
qed

end
