(* ===== verification/Posix_Fs.thy ===== *)
theory Posix_Fs
  imports Vfs
begin

text \<open>
  The system calls on files (\<^verbatim>\<open>services/posix/fs.rs\<close>). A call returns the value of the register together with
  the new state, or \<open>None\<close> when the kernel panics; \<open>read\<close> and \<open>write\<close>, which may block, return an \<open>io\<close>. Calls that
  clone a handle and drop it again before returning leave its count as it was, so the pair is omitted, except
  in \<open>read\<close> and \<open>write\<close>, which keep their reference while they are blocked.
\<close>

subsection \<open>Layouts\<close>

definition i64_bytes :: "i64 \<Rightarrow> bytes" where
  "i64_bytes i = u64_bytes (word_of_int i)"

definition u16_bytes :: "u16 \<Rightarrow> bytes" where
  "u16_bytes w = le_bytes 2 (unat w)"

definition Stat_bytes :: "Stat \<Rightarrow> bytes" where
  "Stat_bytes st = u64_bytes (st_dev st) @ u64_bytes (st_ino st) @ u64_bytes (st_nlink st)
     @ u32_bytes (st_mode st) @ u32_bytes (st_uid st) @ u32_bytes (st_gid st) @ u32_bytes 0
     @ u64_bytes (st_rdev st) @ i64_bytes (st_size st) @ i64_bytes (st_blksize st) @ i64_bytes (st_blocks st)"

text \<open>The structure ends with five bytes of padding, taken as zeros.\<close>

definition Dirent64_bytes :: "Dirent64 \<Rightarrow> bytes" where
  "Dirent64_bytes d = u64_bytes (d_ino d) @ i64_bytes (d_off d) @ u16_bytes (d_reclen d) @ [d_type d] @ d_name d @ replicate 5 0"

definition DIRENT_SIZE :: usize where [posix_consts]: "DIRENT_SIZE = 280"

definition MAX_RW_COUNT :: usize where [posix_consts]: "MAX_RW_COUNT = 0x100000"

subsection \<open>Descriptors\<close>

definition get_proc_handle :: "i32 \<Rightarrow> kernel \<Rightarrow> (nat \<times> i32) kres" where
  "get_proc_handle fd k =
    (case get_current_proc k of
       None \<Rightarrow> Err ESRCH
     | Some p \<Rightarrow> (case get_fd p fd of None \<Rightarrow> Err EBADF | Some h \<Rightarrow> Ok (h, p_pid p)))"

definition sys_close :: "i32 \<Rightarrow> kernel \<Rightarrow> int \<times> kernel" where
  "sys_close fd k =
    (case get_current_process k of
       None \<Rightarrow> (- ESRCH, k)
     | Some r \<Rightarrow>
        (case close_fd (k_procs k r) fd of
           (Inr h, p) \<Rightarrow> (0, handle_drop h (upd_proc r (\<lambda>_. p) k))
         | (Inl e, p) \<Rightarrow> (- e, k)))"

definition sys_dup :: "i32 \<Rightarrow> kernel \<Rightarrow> int \<times> kernel" where
  "sys_dup oldfd k =
    (case get_current_process k of
       None \<Rightarrow> (- ESRCH, k)
     | Some r \<Rightarrow>
        (case get_fd (k_procs k r) oldfd of
           None \<Rightarrow> (- EBADF, k)
         | Some h \<Rightarrow> let (new_fd, p) = alloc_fd (k_procs k r) h in (new_fd, handle_clone h (upd_proc r (\<lambda>_. p) k))))"

text \<open>\<open>while fds.len() <= newfd { fds.push(None) }\<close>\<close>

definition pad_fds :: "nat \<Rightarrow> nat option list \<Rightarrow> nat option list" where
  "pad_fds newfd fds = fds @ replicate (Suc newfd - length fds) None"

definition sys_dup2 :: "i32 \<Rightarrow> i32 \<Rightarrow> kernel \<Rightarrow> int \<times> kernel" where
  "sys_dup2 oldfd newfd k =
    (if \<not> (0 \<le> newfd \<and> newfd < 256) then (- EBADF, k)
     else if oldfd = newfd then (newfd, k)
     else case get_current_process k of
       None \<Rightarrow> (- ESRCH, k)
     | Some r \<Rightarrow>
        (case get_fd (k_procs k r) oldfd of
           None \<Rightarrow> (- EBADF, k)
         | Some h \<Rightarrow>
            let k = handle_clone h k;
                (closed, p) = close_fd (k_procs k r) newfd;
                k = upd_proc r (\<lambda>_. p) k;
                k = (case closed of Inr old \<Rightarrow> handle_drop old k | Inl _ \<Rightarrow> k)
            in (newfd, upd_proc r (\<lambda>p. p\<lparr> p_fds := (pad_fds (nat newfd) (p_fds p))[nat newfd := Some h] \<rparr>) k)))"

text \<open>The two descriptors are released again when the second step fails.\<close>

definition close_quietly :: "nat \<Rightarrow> i32 \<Rightarrow> kernel \<Rightarrow> kernel" where
  "close_quietly r fd k =
    (case close_fd (k_procs k r) fd of
       (Inr h, p) \<Rightarrow> handle_drop h (upd_proc r (\<lambda>_. p) k)
     | (Inl e, p) \<Rightarrow> k)"

definition sys_pipe :: "usize \<Rightarrow> kernel \<Rightarrow> (int \<times> kernel) option" where
  "sys_pipe pipefd_ptr k =
    (case UserPtr_from_raw 8 pipefd_ptr of
       Inl e \<Rightarrow> Some (- map_user_error e, k)
     | Inr out \<Rightarrow>
    (case UserPtr_validate (mem (k_mm k)) (k_cr3 k) out True of
       Inl e \<Rightarrow> Some (- map_user_error e, k)
     | Inr _ \<Rightarrow>
        let ((read_end, write_end), k) = pipe_new k;
            (read_handle, k) = handle_alloc (FileHandle_new read_end O_RDONLY) k;
            (write_handle, k) = handle_alloc (FileHandle_new write_end O_WRONLY) k
        in case get_current_process k of
             None \<Rightarrow> Some (- ESRCH, handle_drop read_handle (handle_drop write_handle k))
           | Some r \<Rightarrow>
              let (fd0, p) = alloc_fd (k_procs k r) read_handle;
                  (fd1, p) = alloc_fd p write_handle;
                  k = upd_proc r (\<lambda>_. p) k
              in case UserPtr_write (k_cr3 k) out (i32_bytes fd0 @ i32_bytes fd1) (k_mm k) of
                   None \<Rightarrow> None
                 | Some (Inl e, s) \<Rightarrow> Some (- map_user_error e, close_quietly r fd1 (close_quietly r fd0 (k\<lparr> k_mm := s \<rparr>)))
                 | Some (Inr _, s) \<Rightarrow> Some (0, k\<lparr> k_mm := s \<rparr>)))"

subsection \<open>Reading and writing\<close>

text \<open>What remains to be done after \<open>handle.read\<close>: the result is copied out and the handle dropped.\<close>

definition read_finish :: "nat \<Rightarrow> usize \<Rightarrow> bytes io \<Rightarrow> int io" where
  "read_finish h buf res = (case res of
     Done (Ok bs) k \<Rightarrow>
       (case UserSlice_from_raw buf (length bs) of
          Inl e \<Rightarrow> Done (Ok (- map_user_error e)) (handle_drop h k)
        | Inr out \<Rightarrow>
           (case copy_to_user (k_cr3 k) out bs (k_mm k) of
              None \<Rightarrow> Done Panic k
            | Some (Inl e, s) \<Rightarrow> Done (Ok (- map_user_error e)) (handle_drop h (k\<lparr> k_mm := s \<rparr>))
            | Some (Inr _, s) \<Rightarrow> Done (Ok (int (length bs))) (handle_drop h (k\<lparr> k_mm := s \<rparr>))))
   | Done (Err e) k \<Rightarrow> Done (Ok (- e)) (handle_drop h k)
   | Done Panic k \<Rightarrow> Done Panic k
   | Sleep k \<Rightarrow> Sleep k
   | Again k \<Rightarrow> Again k)"

definition sys_read :: "i32 \<Rightarrow> usize \<Rightarrow> usize \<Rightarrow> usize \<Rightarrow> kernel \<Rightarrow> int io" where
  "sys_read fd buf count rsp k =
    (case get_proc_handle fd k of
       Panic \<Rightarrow> Done Panic k
     | Err e \<Rightarrow> Done (Ok (- e)) k
     | Ok (h, calling_pid) \<Rightarrow>
        let count = min count MAX_RW_COUNT in
        case UserSlice_from_raw buf count of
          Inl e \<Rightarrow> Done (Ok (- map_user_error e)) k
        | Inr uslice \<Rightarrow>
           (case UserSlice_validate (mem (k_mm k)) (k_cr3 k) uslice True of
              Inl e \<Rightarrow> Done (Ok (- map_user_error e)) k
            | Inr _ \<Rightarrow> read_finish h buf (FileHandle_read h count calling_pid rsp (handle_clone h k))))"

definition write_finish :: "nat \<Rightarrow> usize io \<Rightarrow> int io" where
  "write_finish h res = (case res of
     Done (Ok n) k \<Rightarrow> Done (Ok (int n)) (handle_drop h k)
   | Done (Err e) k \<Rightarrow> Done (Ok (- e)) (handle_drop h k)
   | Done Panic k \<Rightarrow> Done Panic k
   | Sleep k \<Rightarrow> Sleep k
   | Again k \<Rightarrow> Again k)"

definition sys_write :: "i32 \<Rightarrow> usize \<Rightarrow> usize \<Rightarrow> usize \<Rightarrow> kernel \<Rightarrow> int io" where
  "sys_write fd buf count rsp k =
    (case get_proc_handle fd k of
       Panic \<Rightarrow> Done Panic k
     | Err e \<Rightarrow> Done (Ok (- e)) k
     | Ok (h, calling_pid) \<Rightarrow>
        let count = min count MAX_RW_COUNT in
        case UserSlice_from_raw buf count of
          Inl e \<Rightarrow> Done (Ok (- map_user_error e)) k
        | Inr uslice \<Rightarrow>
           (case UserSlice_validate (mem (k_mm k)) (k_cr3 k) uslice False of
              Inl e \<Rightarrow> Done (Ok (- map_user_error e)) k
            | Inr _ \<Rightarrow>
               (case copy_from_user (k_cr3 k) uslice count (k_mm k) of
                  None \<Rightarrow> Done Panic k
                | Some (Inl e) \<Rightarrow> Done (Ok (- map_user_error e)) k
                | Some (Inr kbuf) \<Rightarrow> write_finish h (FileHandle_write h kbuf calling_pid rsp (handle_clone h k)))))"

text \<open>A blocked call that is switched in again; on \<open>Again\<close> it repeats its transfer.\<close>

definition sys_read_resume :: "nat \<Rightarrow> usize \<Rightarrow> i32 \<Rightarrow> kernel \<Rightarrow> int io" where
  "sys_read_resume h buf caller_pid k =
    (case k_inodes k (fh_inode (k_handles k h)) of
       PipeReadEnd b \<Rightarrow> read_finish h buf (advance h (fh_offset (k_handles k h)) length (pipe_read_resume b caller_pid k))
     | _ \<Rightarrow> Again k)"

definition sys_write_resume :: "nat \<Rightarrow> i32 \<Rightarrow> kernel \<Rightarrow> int io" where
  "sys_write_resume h caller_pid k =
    (case k_inodes k (fh_inode (k_handles k h)) of
       PipeWriteEnd b \<Rightarrow> write_finish h (advance h (fh_offset (k_handles k h)) (\<lambda>n. n) (pipe_write_resume b caller_pid k))
     | _ \<Rightarrow> Again k)"

definition sys_lseek :: "i32 \<Rightarrow> i64 \<Rightarrow> i32 \<Rightarrow> kernel \<Rightarrow> (int \<times> kernel) option" where
  "sys_lseek fd offset whence k =
    (case get_proc_handle fd k of
       Panic \<Rightarrow> None
     | Err e \<Rightarrow> Some (- e, k)
     | Ok (h, _) \<Rightarrow>
        (case FileHandle_lseek h offset whence k of
           (Ok n, k) \<Rightarrow> Some (n, k)
         | (Err e, k) \<Rightarrow> Some (- e, k)
         | (Panic, k) \<Rightarrow> None))"

subsection \<open>Paths\<close>

definition creds_of :: "Process \<Rightarrow> VfsCreds" where
  "creds_of p = VfsCreds_new (p_uid p) (p_gid p) (p_euid p) (p_egid p) (p_umask p)"

text \<open>Every call on a path starts by reading the path of the calling process.\<close>

definition with_path :: "usize \<Rightarrow> kernel \<Rightarrow> (nat \<Rightarrow> Process \<Rightarrow> string \<Rightarrow> (int \<times> kernel) option) \<Rightarrow> (int \<times> kernel) option" where
  "with_path path_ptr k f =
    (case get_current_process k of
       None \<Rightarrow> Some (- ESRCH, k)
     | Some r \<Rightarrow>
        (case copy_user_path (k_cr3 k) path_ptr (k_mm k) of
           Panic \<Rightarrow> None
         | Err e \<Rightarrow> Some (- e, k)
         | Ok path \<Rightarrow> f r (k_procs k r) path))"

text \<open>A result reported to the audit trail.\<close>

definition audited :: "Process \<Rightarrow> u32 \<Rightarrow> string \<Rightarrow> i32 \<Rightarrow> string \<Rightarrow> kernel \<Rightarrow> (int \<times> kernel) option" where
  "audited p event_type path status details k =
    Some (status, snd (log_audit_event (p_pid p) (p_uid p) event_type status path details k))"

text \<open>The inode to open, and whether it was created.\<close>

definition open_inode :: "VfsCreds \<Rightarrow> string \<Rightarrow> string \<Rightarrow> i32 \<Rightarrow> u32 \<Rightarrow> kernel \<Rightarrow> (nat \<times> bool) kres \<times> kernel" where
  "open_inode creds cwd path flags mode k =
    (case resolve_path cwd path k of
       Ok i \<Rightarrow> if flags AND O_CREAT \<noteq> 0 \<and> flags AND O_EXCL \<noteq> 0 then (Err EEXIST, k) else (Ok (i, False), k)
     | Err e \<Rightarrow>
        if e = ENOENT \<and> flags AND O_CREAT \<noteq> 0 then
          (case resolve_parent_and_basename cwd path k of
             Ok (parent, basename) \<Rightarrow>
               (case inode_create_file parent basename (creation_mode creds mode) (vc_euid creds) (vc_egid creds) k of
                  (Ok new_inode, k) \<Rightarrow> (Ok (new_inode, True), k)
                | (Err e, k) \<Rightarrow> (Err e, k)
                | (Panic, k) \<Rightarrow> (Panic, k))
           | Err e \<Rightarrow> (Err e, k)
           | Panic \<Rightarrow> (Panic, k))
        else (Err e, k)
     | Panic \<Rightarrow> (Panic, k))"

text \<open>The check and the truncation of an existing file.\<close>

definition open_existing :: "nat \<Rightarrow> VfsCreds \<Rightarrow> i32 \<Rightarrow> kernel \<Rightarrow> unit kres \<times> kernel" where
  "open_existing inode creds flags k =
    (case check_inode_permission inode creds flags k of
       (Ok _, k) \<Rightarrow>
         if flags AND O_TRUNC \<noteq> 0 \<and> (flags AND O_WRONLY \<noteq> 0 \<or> flags AND O_RDWR \<noteq> 0) then (Ok (), snd (inode_truncate inode k))
         else (Ok (), k)
     | (Err e, k) \<Rightarrow> (Err e, k)
     | (Panic, k) \<Rightarrow> (Panic, k))"

definition sys_open :: "usize \<Rightarrow> i32 \<Rightarrow> u32 \<Rightarrow> kernel \<Rightarrow> (int \<times> kernel) option" where
  "sys_open path_ptr flags mode k = with_path path_ptr k (\<lambda>r p path.
     let creds = creds_of p in
     case open_inode creds (p_cwd p) path flags mode k of
       (Panic, k) \<Rightarrow> None
     | (Err e, k) \<Rightarrow> Some (- e, k)
     | (Ok (inode, is_created), k) \<Rightarrow>
        (case (if is_created then (Ok (), k) else open_existing inode creds flags k) of
           (Panic, k) \<Rightarrow> None
         | (Err e, k) \<Rightarrow> Some (- e, k)
         | (Ok _, k) \<Rightarrow>
            let (h, k) = handle_alloc (FileHandle_new inode flags) k;
                (fd, q) = alloc_fd (k_procs k r) h;
                k = upd_proc r (\<lambda>_. q) k
            in Some (fd, if is_created
                 then snd (log_audit_event (p_pid p) (vc_uid creds) AUDIT_TYPE_FILE_CREATE 0 path ''File created via open(O_CREAT)'' k)
                 else k)))"

definition write_stat :: "Stat \<Rightarrow> usize \<Rightarrow> kernel \<Rightarrow> (int \<times> kernel) option" where
  "write_stat st statbuf k =
    (case write_user statbuf (Stat_bytes st) k of
       None \<Rightarrow> None
     | Some (Ok _, k) \<Rightarrow> Some (0, k)
     | Some (Err e, k) \<Rightarrow> Some (- e, k)
     | Some (Panic, k) \<Rightarrow> None)"

definition stat_inode :: "nat \<Rightarrow> usize \<Rightarrow> kernel \<Rightarrow> (int \<times> kernel) option" where
  "stat_inode inode statbuf k =
    (case inode_stat inode k of
       (Ok st, k) \<Rightarrow> write_stat st statbuf k
     | (Err e, k) \<Rightarrow> Some (- e, k)
     | (Panic, k) \<Rightarrow> None)"

definition sys_stat :: "usize \<Rightarrow> usize \<Rightarrow> kernel \<Rightarrow> (int \<times> kernel) option" where
  "sys_stat path_ptr statbuf k = with_path path_ptr k (\<lambda>r p path.
     case resolve_path (p_cwd p) path k of
       Ok inode \<Rightarrow> stat_inode inode statbuf k
     | Err e \<Rightarrow> Some (- e, k)
     | Panic \<Rightarrow> None)"

definition sys_fstat :: "i32 \<Rightarrow> usize \<Rightarrow> kernel \<Rightarrow> (int \<times> kernel) option" where
  "sys_fstat fd statbuf k =
    (case get_proc_handle fd k of
       Panic \<Rightarrow> None
     | Err e \<Rightarrow> Some (- e, k)
     | Ok (h, _) \<Rightarrow> stat_inode (fh_inode (k_handles k h)) statbuf k)"

definition sys_mkdir :: "usize \<Rightarrow> u32 \<Rightarrow> kernel \<Rightarrow> (int \<times> kernel) option" where
  "sys_mkdir path_ptr mode k = with_path path_ptr k (\<lambda>r p path.
     let creds = creds_of p in
     case resolve_parent_and_basename (p_cwd p) path k of
       Panic \<Rightarrow> None
     | Err e \<Rightarrow> audited p AUDIT_TYPE_DIR_CREATE path (- e) ''Directory create failed (parent unresolved)'' k
     | Ok (parent, basename) \<Rightarrow>
        (case inode_create_dir parent basename (creation_mode creds mode) (vc_euid creds) (vc_egid creds) k of
           (Ok _, k) \<Rightarrow> audited p AUDIT_TYPE_DIR_CREATE path 0 ''Directory created'' k
         | (Err e, k) \<Rightarrow> audited p AUDIT_TYPE_DIR_CREATE path (- e) ''Directory create failed'' k
         | (Panic, k) \<Rightarrow> None))"

definition sys_unlink :: "usize \<Rightarrow> kernel \<Rightarrow> (int \<times> kernel) option" where
  "sys_unlink path_ptr k = with_path path_ptr k (\<lambda>r p path.
     case resolve_parent_and_basename (p_cwd p) path k of
       Panic \<Rightarrow> None
     | Err e \<Rightarrow> audited p AUDIT_TYPE_FILE_UNLINK path (- e) ''Unlink failed (parent unresolved)'' k
     | Ok (parent, basename) \<Rightarrow>
        (case inode_unlink parent basename k of
           (Ok _, k) \<Rightarrow> audited p AUDIT_TYPE_FILE_UNLINK path 0 ''File or directory unlinked'' k
         | (Err e, k) \<Rightarrow> audited p AUDIT_TYPE_FILE_UNLINK path (- e) ''Unlink failed'' k
         | (Panic, k) \<Rightarrow> None))"

text \<open>The part of \<open>sys_rename\<close> behind the resolution of the source.\<close>

definition rename_into :: "Process \<Rightarrow> nat \<Rightarrow> string \<Rightarrow> string \<Rightarrow> kernel \<Rightarrow> (int \<times> kernel) option" where
  "rename_into p old_parent old_basename newpath k =
    (case resolve_parent_and_basename (p_cwd p) newpath k of
       Panic \<Rightarrow> None
     | Err e \<Rightarrow> audited p AUDIT_TYPE_FILE_MODIFY newpath (- e) ''Rename failed (new parent unresolved)'' k
     | Ok (new_parent, new_basename) \<Rightarrow>
        (case inode_rename old_parent old_basename new_parent new_basename k of
           (Ok _, k) \<Rightarrow> audited p AUDIT_TYPE_FILE_MODIFY newpath 0 ''File or directory renamed/moved'' k
         | (Err e, k) \<Rightarrow> audited p AUDIT_TYPE_FILE_MODIFY newpath (- e) ''Rename failed'' k
         | (Panic, k) \<Rightarrow> None))"

definition sys_rename :: "usize \<Rightarrow> usize \<Rightarrow> kernel \<Rightarrow> (int \<times> kernel) option" where
  "sys_rename oldpath_ptr newpath_ptr k = with_path oldpath_ptr k (\<lambda>r p oldpath. with_path newpath_ptr k (\<lambda>_ _ newpath.
     let norm_old = normalize_path (p_cwd p) oldpath; norm_new = normalize_path (p_cwd p) newpath in
     if norm_old = ''/'' \<or> norm_new = ''/''
     then audited p AUDIT_TYPE_FILE_MODIFY newpath (- EBUSY) ''Rename failed (root directory target)'' k
     else case resolve_parent_and_basename (p_cwd p) oldpath k of
       Panic \<Rightarrow> None
     | Err e \<Rightarrow> audited p AUDIT_TYPE_FILE_MODIFY newpath (- e) ''Rename failed (old parent unresolved)'' k
     | Ok (old_parent, old_basename) \<Rightarrow>
        (case inode_lookup old_parent old_basename k of
           Panic \<Rightarrow> None
         | Err e \<Rightarrow> audited p AUDIT_TYPE_FILE_MODIFY newpath (- e) ''Rename failed (source lookup)'' k
         | Ok source_inode \<Rightarrow>
            if norm_old = norm_new then Some (0, k)
            else if file_type (k_inodes k source_inode) = Directory \<and> prefix (norm_old @ ''/'') norm_new
            then audited p AUDIT_TYPE_FILE_MODIFY newpath (- EINVAL) ''Rename failed (directory cycle detected)'' k
            else rename_into p old_parent old_basename newpath k)))"

subsection \<open>Directory entries\<close>

text \<open>
  The entries that fit, one after the other; the buffer was validated, so the addresses do not overflow. The
  result is the number of entries written, or the error of the write that failed.
\<close>

fun dents_loop :: "usize \<Rightarrow> usize \<Rightarrow> Dirent64 list \<Rightarrow> usize \<Rightarrow> nat \<Rightarrow> kernel \<Rightarrow> (nat kres \<times> kernel) option" where
  "dents_loop dirp count [] written n k = Some (Ok n, k)"
| "dents_loop dirp count (e # entries) written n k =
    (if written + DIRENT_SIZE > count then Some (Ok n, k)
     else case write_user (dirp + written) (Dirent64_bytes e) k of
       None \<Rightarrow> None
     | Some (Ok _, k) \<Rightarrow> dents_loop dirp count entries (written + DIRENT_SIZE) (Suc n) k
     | Some (Err e, k) \<Rightarrow> Some (Err e, k)
     | Some (Panic, k) \<Rightarrow> None)"

definition sys_getdents64 :: "i32 \<Rightarrow> usize \<Rightarrow> usize \<Rightarrow> kernel \<Rightarrow> (int \<times> kernel) option" where
  "sys_getdents64 fd dirp count k =
    (case get_proc_handle fd k of
       Panic \<Rightarrow> None
     | Err e \<Rightarrow> Some (- e, k)
     | Ok (h, _) \<Rightarrow>
    (case UserSlice_from_raw dirp count of
       Inl e \<Rightarrow> Some (- map_user_error e, k)
     | Inr ubuf \<Rightarrow>
    (case UserSlice_validate (mem (k_mm k)) (k_cr3 k) ubuf True of
       Inl e \<Rightarrow> Some (- map_user_error e, k)
     | Inr _ \<Rightarrow>
    (case inode_readdir (fh_inode (k_handles k h)) k of
       Panic \<Rightarrow> None
     | Err e \<Rightarrow> Some (- e, k)
     | Ok entries \<Rightarrow>
        let current_idx = fh_offset (k_handles k h) in
        if current_idx \<ge> length entries then Some (0, k)
        else case dents_loop dirp count (drop current_idx entries) 0 0 k of
          None \<Rightarrow> None
        | Some (Err e, k) \<Rightarrow> Some (- e, k)
        | Some (Panic, k) \<Rightarrow> None
        | Some (Ok n, k) \<Rightarrow> Some (int (n * DIRENT_SIZE), set_offset h (current_idx + n) k)))))"

end
