(* ===== verification/Descriptors.thy ===== *)
theory Descriptors
  imports Posix_Fs Posix_Process
begin

text \<open>
  The reference counts of open file descriptions. The strong count of a description is the number of
  descriptors of live processes that refer to it, plus the references the kernel holds while a call is in
  progress; and a pipe counts exactly the descriptions of its two ends that are still referenced.
\<close>

subsection \<open>The invariant\<close>

definition live :: "kernel \<Rightarrow> nat \<Rightarrow> bool" where
  "live k r \<longleftrightarrow> r < k_nprocs k \<and> 0 < k_proc_rc k r"

definition refs_live :: "kernel \<Rightarrow> bool" where
  "refs_live k \<longleftrightarrow> (\<forall>r. 0 < refs k r \<longrightarrow> live k r)"

definition fd_refs :: "kernel \<Rightarrow> nat \<Rightarrow> nat" where
  "fd_refs k h = (\<Sum>r | live k r. count_list (p_fds (k_procs k r)) (Some h))"

text \<open>The pipe end an inode is: whether it is the writing end, and the pipe.\<close>

definition pipe_end :: "Inode \<Rightarrow> (bool \<times> nat) option" where
  "pipe_end i = (case i of PipeReadEnd b \<Rightarrow> Some (False, b) | PipeWriteEnd b \<Rightarrow> Some (True, b) | _ \<Rightarrow> None)"

definition ends_open :: "bool \<Rightarrow> PipeBuffer \<Rightarrow> nat" where
  "ends_open w p = (if w then pb_writers_open p else pb_readers_open p)"

lemma pipe_end_simps [simp]: "pipe_end (PipeReadEnd b) = Some (False, b)" "pipe_end (PipeWriteEnd b) = Some (True, b)"
  "pipe_end (RamDir d) = None" "pipe_end (RamFile f) = None"
  by (simp_all add: pipe_end_def)

lemma ends_open_new [simp]: "ends_open w PipeBuffer_new = 1"
  by (simp add: ends_open_def PipeBuffer_new_def)

definition open_ends :: "kernel \<Rightarrow> bool \<times> nat \<Rightarrow> nat set" where
  "open_ends k e = {h. 0 < k_handle_rc k h \<and> h < k_nhandles k \<and> pipe_end (k_inodes k (fh_inode (k_handles k h))) = Some e}"

definition handles_ok :: "kernel \<Rightarrow> bool" where
  "handles_ok k \<longleftrightarrow> (\<forall>h. 0 < k_handle_rc k h \<longrightarrow> h < k_nhandles k \<and> fh_inode (k_handles k h) < k_ninodes k)"

definition ends_ok :: "kernel \<Rightarrow> bool" where
  "ends_ok k \<longleftrightarrow> (\<forall>i w b. i < k_ninodes k \<longrightarrow> pipe_end (k_inodes k i) = Some (w, b) \<longrightarrow> b < k_npipes k)
     \<and> (\<forall>w b. b < k_npipes k \<longrightarrow> ends_open w (k_pipes k b) = card (open_ends k (w, b)))"

text \<open>Pipes are anonymous: no path leads to one.\<close>

definition children :: "Inode \<Rightarrow> nat set" where
  "children i = (case i of RamDir d \<Rightarrow> snd ` set (rd_entries d) | _ \<Rightarrow> {})"

lemma children_simps [simp]:
  "children (RamDir d) = snd ` set (rd_entries d)" "children (RamFile f) = {}" "children (PipeReadEnd b) = {}" "children (PipeWriteEnd b) = {}"
  by (simp_all add: children_def)

definition paths_ok :: "kernel \<Rightarrow> bool" where
  "paths_ok k \<longleftrightarrow> (\<forall>r i. r < k_ninodes k \<longrightarrow> i \<in> children (k_inodes k r) \<longrightarrow> i < k_ninodes k \<and> pipe_end (k_inodes k i) = None)
     \<and> (\<forall>i. k_root k = Some i \<longrightarrow> i < k_ninodes k \<and> pipe_end (k_inodes k i) = None)"

text \<open>\<open>x h\<close> is the number of references to the description \<open>h\<close> that calls in progress hold.\<close>

definition fd_inv :: "(nat \<Rightarrow> nat) \<Rightarrow> kernel \<Rightarrow> bool" where
  "fd_inv x k \<longleftrightarrow> refs_live k \<and> (\<forall>h. k_handle_rc k h = fd_refs k h + x h) \<and> handles_ok k \<and> ends_ok k \<and> paths_ok k"

subsection \<open>Changes the invariant does not see\<close>

definition fd_view where
  "fd_view k = ((\<lambda>r. p_fds (k_procs k r)), live k, k_handle_rc k, (\<lambda>h. fh_inode (k_handles k h)), k_nhandles k,
     (\<lambda>i. pipe_end (k_inodes k i)), (\<lambda>i. children (k_inodes k i)), k_ninodes k, (\<lambda>b w. ends_open w (k_pipes k b)), k_npipes k, k_root k)"

definition quiet :: "kernel \<Rightarrow> kernel \<Rightarrow> bool" where
  "quiet k k' \<longleftrightarrow> fd_view k' = fd_view k \<and> (\<forall>r. 0 < refs k' r \<longrightarrow> 0 < refs k r)"

lemma fd_view_cong:
  assumes "fd_view k' = fd_view k"
  shows "fd_refs k' = fd_refs k" "open_ends k' = open_ends k" "handles_ok k' = handles_ok k" "ends_ok k' = ends_ok k" "paths_ok k' = paths_ok k"
    "live k' = live k" "k_handle_rc k' = k_handle_rc k"
proof -
  have v: "\<And>r. p_fds (k_procs k' r) = p_fds (k_procs k r)" "live k' = live k" "k_handle_rc k' = k_handle_rc k"
    "\<And>h. fh_inode (k_handles k' h) = fh_inode (k_handles k h)" "k_nhandles k' = k_nhandles k"
    "\<And>i. pipe_end (k_inodes k' i) = pipe_end (k_inodes k i)" "\<And>i. children (k_inodes k' i) = children (k_inodes k i)" "k_ninodes k' = k_ninodes k"
    "\<And>b w. ends_open w (k_pipes k' b) = ends_open w (k_pipes k b)" "k_npipes k' = k_npipes k" "k_root k' = k_root k"
    using assms by (simp_all add: fd_view_def fun_eq_iff)
  show "fd_refs k' = fd_refs k" "handles_ok k' = handles_ok k" "paths_ok k' = paths_ok k" "live k' = live k" "k_handle_rc k' = k_handle_rc k"
    by (simp_all add: fd_refs_def handles_ok_def paths_ok_def v fun_eq_iff)
  show ends: "open_ends k' = open_ends k" by (simp add: open_ends_def v fun_eq_iff)
  show "ends_ok k' = ends_ok k" by (simp add: ends_ok_def v ends)
qed

lemma quiet_inv: "quiet k k' \<Longrightarrow> fd_inv x k \<Longrightarrow> fd_inv x k'"
  unfolding quiet_def fd_inv_def refs_live_def using fd_view_cong [of k' k] by simp

lemma quiet_refl [simp, intro]: "quiet k k"
  by (simp add: quiet_def)

lemma quiet_trans [trans]: "quiet k k' \<Longrightarrow> quiet k' k'' \<Longrightarrow> quiet k k''"
  by (auto simp: quiet_def)

lemma quiet_live: "quiet k k' \<Longrightarrow> refs_live k \<Longrightarrow> refs_live k'"
  unfolding quiet_def refs_live_def using fd_view_cong(6) [of k' k] by simp

text \<open>Assignments to other parts of the state.\<close>

lemma quiet_frame:
  "quiet k (k\<lparr> k_mm := m \<rparr>)" "quiet k (k\<lparr> k_cr3 := c \<rparr>)" "quiet k (k\<lparr> k_serial := s \<rparr>)" "quiet k (k\<lparr> k_monitor := mon \<rparr>)"
  "quiet k (k\<lparr> k_event_seq := e, k_journal := j \<rparr>)" "quiet k (k\<lparr> k_stack := st \<rparr>)" "quiet k (k\<lparr> k_current_pid := p \<rparr>)"
  by (simp_all add: quiet_def fd_view_def refs_def live_def fun_eq_iff)

lemma quiet_upd_proc: "p_fds (f (k_procs k r)) = p_fds (k_procs k r) \<Longrightarrow> quiet k (upd_proc r f k)"
  by (auto simp: quiet_def fd_view_def upd_proc_def refs_def live_def fun_eq_iff)

lemma quiet_set_state: "quiet k (set_state r st k)"
  unfolding set_state_def by (rule quiet_upd_proc) simp

lemma quiet_proc_clone: "live k r \<Longrightarrow> quiet k (proc_clone r k)"
  by (auto simp: quiet_def fd_view_def proc_clone_def refs_def live_def fun_eq_iff)

lemma quiet_wake_one:
  assumes "refs_live k"
  shows "quiet k (wake_one pid k)"
proof (cases "bt_get (k_table k) pid")
  case (Some r)
  then have "r \<in> snd ` set (k_table k)" by (force simp: bt_get_def dest: map_of_SomeD)
  then have refs: "0 < refs k r" by (simp add: refs_def neq0_conv [symmetric] count_list_0_iff del: neq0_conv)
  then have "live k r" using assms unfolding refs_live_def by blast
  then have "quiet k (add_task r (proc_clone r (set_state r Ready k)))"
    using refs by (auto simp: quiet_def fd_view_def proc_clone_def add_task_def set_state_def upd_proc_def refs_def live_def fun_eq_iff)
  then show ?thesis by (simp add: wake_one_def Some)
qed (simp add: wake_one_def)

lemma quiet_wake_tasks: "refs_live k \<Longrightarrow> quiet k (wake_tasks pids k)"
proof (induction pids arbitrary: k)
  case (Cons pid pids)
  note one = quiet_wake_one [OF Cons.prems, of pid]
  have "quiet k (wake_tasks pids (wake_one pid k))" by (rule quiet_trans [OF one Cons.IH [OF quiet_live [OF one Cons.prems]]])
  then show ?case by (simp add: wake_tasks_def)
qed (simp add: wake_tasks_def)

subsection \<open>References to descriptions\<close>

lemma fd_invD:
  assumes "fd_inv x k"
  shows "refs_live k" "\<And>h. k_handle_rc k h = fd_refs k h + x h" "handles_ok k" "ends_ok k" "paths_ok k"
  using assms by (simp_all add: fd_inv_def)

lemma finite_live [simp]: "finite {r. live k r}"
  by (rule finite_subset [of _ "{..<k_nprocs k}"]) (auto simp: live_def)

lemma finite_open_ends [simp]: "finite (open_ends k e)"
  by (rule finite_subset [of _ "{..<k_nhandles k}"]) (auto simp: open_ends_def)

text \<open>What dropping a reference does: with the last one, the counter of the end is decremented and waiters are woken.\<close>

lemma handle_drop_form:
  "\<exists>pids pipes. handle_drop h k = wake_tasks pids (k\<lparr> k_handle_rc := (k_handle_rc k)(h := k_handle_rc k h - 1), k_pipes := pipes \<rparr>)
    \<and> (\<forall>b w. ends_open w (pipes b) = ends_open w (k_pipes k b)
         - of_bool (k_handle_rc k h - 1 = 0 \<and> pipe_end (k_inodes k (fh_inode (k_handles k h))) = Some (w, b)))"
proof -
  let ?k = "k\<lparr> k_handle_rc := (k_handle_rc k)(h := k_handle_rc k h - 1) \<rparr>"
  have same: "?k = k\<lparr> k_handle_rc := (k_handle_rc k)(h := k_handle_rc k h - 1), k_pipes := k_pipes k \<rparr>" by simp
  have none: ?thesis if "handle_drop h k = ?k" "k_handle_rc k h - 1 \<noteq> 0 \<or> pipe_end (k_inodes k (fh_inode (k_handles k h))) = None"
    using that by (intro exI [of _ "[]"] exI [of _ "k_pipes k"]) (auto simp: wake_tasks_def)
  have rd: ?thesis if "handle_drop h k = PipeReadEnd_drop b ?k" "k_handle_rc k h - 1 = 0" "k_inodes k (fh_inode (k_handles k h)) = PipeReadEnd b" for b
    using that by (auto simp: PipeReadEnd_drop_def Let_def drain_all_def pipe_end_def ends_open_def saturating_sub_def fun_upd_def
        intro!: exI split: if_splits)
  have wr: ?thesis if "handle_drop h k = PipeWriteEnd_drop b ?k" "k_handle_rc k h - 1 = 0" "k_inodes k (fh_inode (k_handles k h)) = PipeWriteEnd b" for b
    using that by (auto simp: PipeWriteEnd_drop_def Let_def drain_all_def pipe_end_def ends_open_def saturating_sub_def fun_upd_def
        intro!: exI split: if_splits)
  show ?thesis
  proof (cases "k_handle_rc k h - 1 = 0")
    case True
    then show ?thesis
      using none rd wr by (cases "k_inodes k (fh_inode (k_handles k h))") (simp_all add: handle_drop_def Let_def pipe_end_def)
  qed (use none in \<open>simp add: handle_drop_def Let_def\<close>)
qed

lemma counts_frame [simp]:
  fixes k rc ps
  defines "k' \<equiv> k\<lparr> k_handle_rc := rc, k_pipes := ps \<rparr>"
  shows "fd_refs k' = fd_refs k" "refs k' = refs k" "live k' = live k"
  by (simp_all add: k'_def fd_refs_def refs_def live_def fun_eq_iff)

lemma open_ends_drop:
  assumes "handles_ok k" "0 < k_handle_rc k h"
  shows "open_ends (k\<lparr> k_handle_rc := (k_handle_rc k)(h := k_handle_rc k h - 1), k_pipes := pipes \<rparr>) e =
    (if k_handle_rc k h - 1 = 0 \<and> pipe_end (k_inodes k (fh_inode (k_handles k h))) = Some e then open_ends k e - {h} else open_ends k e)"
  using assms by (auto simp: open_ends_def handles_ok_def split: if_splits)

lemma handle_drop_inv:
  assumes inv: "fd_inv (x(h := Suc (x h))) k"
  shows "fd_inv x (handle_drop h k)"
proof -
  obtain pids pipes where form: "handle_drop h k = wake_tasks pids (k\<lparr> k_handle_rc := (k_handle_rc k)(h := k_handle_rc k h - 1), k_pipes := pipes \<rparr>)"
    and pipes: "\<And>b w. ends_open w (pipes b) = ends_open w (k_pipes k b)
         - of_bool (k_handle_rc k h - 1 = 0 \<and> pipe_end (k_inodes k (fh_inode (k_handles k h))) = Some (w, b))"
    using handle_drop_form [of h k] by blast
  let ?k = "k\<lparr> k_handle_rc := (k_handle_rc k)(h := k_handle_rc k h - 1), k_pipes := pipes \<rparr>"
  note I = fd_invD [OF inv]
  have pos: "0 < k_handle_rc k h" using I(2) [of h] by simp
  have mem: "h \<in> open_ends k e" if "pipe_end (k_inodes k (fh_inode (k_handles k h))) = Some e" for e
    using that pos I(3) by (auto simp: open_ends_def handles_ok_def)
  have "ends_ok ?k"
    using I(4) mem unfolding ends_ok_def open_ends_drop [OF I(3) pos] by (auto simp: pipes card_Diff_singleton_if)
  moreover have "handles_ok ?k" using I(3) pos by (auto simp: handles_ok_def split: if_splits)
  moreover have "k_handle_rc ?k d = fd_refs ?k d + x d" for d using I(2) [of d] by auto
  moreover have "paths_ok ?k" using I(5) by (simp add: paths_ok_def)
  ultimately have "fd_inv x ?k" using I(1) by (simp add: fd_inv_def refs_live_def)
  then show ?thesis unfolding form using quiet_inv quiet_wake_tasks fd_invD(1) by blast
qed

lemma handle_clone_inv:
  assumes inv: "fd_inv x k" and h: "0 < k_handle_rc k h"
  shows "fd_inv (x(h := Suc (x h))) (handle_clone h k)"
proof -
  let ?k = "handle_clone h k"
  note I = fd_invD [OF inv]
  have eq: "fd_refs ?k = fd_refs k" "refs ?k = refs k" "live ?k = live k" "open_ends ?k = open_ends k"
    using h by (auto simp: handle_clone_def fd_refs_def refs_def live_def open_ends_def fun_eq_iff)
  have "handles_ok ?k" using I(3) h by (simp add: handles_ok_def handle_clone_def)
  moreover have "ends_ok ?k" "paths_ok ?k" using I(4,5) unfolding ends_ok_def paths_ok_def eq by (simp_all add: handle_clone_def)
  ultimately show ?thesis using I(1) I(2) by (simp add: fd_inv_def refs_live_def eq) (simp add: handle_clone_def)
qed

text \<open>Moving a reference between a call and a slot of a live process.\<close>

lemma fd_refs_upd:
  assumes "live k r"
  shows "fd_refs (upd_proc r (\<lambda>_. p) k) h + count_list (p_fds (k_procs k r)) (Some h) = fd_refs k h + count_list (p_fds p) (Some h)"
proof -
  let ?c = "\<lambda>s. count_list (p_fds (k_procs k s)) (Some h)"
  have l: "live (upd_proc r (\<lambda>_. p) k) = live k" by (simp add: live_def fun_eq_iff)
  have fin: "finite {s. live k s}" "r \<in> {s. live k s}" using assms by simp_all
  have "fd_refs (upd_proc r (\<lambda>_. p) k) h = count_list (p_fds p) (Some h) + sum ?c ({s. live k s} - {r})"
    unfolding fd_refs_def l by (subst sum.remove [OF fin]) (auto intro!: sum.cong)
  moreover have "fd_refs k h = ?c r + sum ?c ({s. live k s} - {r})" unfolding fd_refs_def by (rule sum.remove [OF fin])
  ultimately show ?thesis by simp
qed

lemma fds_move_inv:
  assumes inv: "fd_inv x k" and r: "live k r"
    and move: "\<And>h. count_list (p_fds p) (Some h) + y h = count_list (p_fds (k_procs k r)) (Some h) + x h"
  shows "fd_inv y (upd_proc r (\<lambda>_. p) k)"
proof -
  let ?k = "upd_proc r (\<lambda>_. p) k"
  note I = fd_invD [OF inv]
  have eq: "refs ?k = refs k" "live ?k = live k" "open_ends ?k = open_ends k"
    by (auto simp: upd_proc_def refs_def live_def open_ends_def fun_eq_iff)
  have "k_handle_rc ?k h = fd_refs ?k h + y h" for h
    using I(2) [of h] fd_refs_upd [OF r, of p h] move [of h] by simp
  moreover have "handles_ok ?k" "ends_ok ?k" "paths_ok ?k"
    using I(3-5) unfolding handles_ok_def ends_ok_def paths_ok_def eq by (simp_all add: upd_proc_def)
  ultimately show ?thesis using I(1) by (simp add: fd_inv_def refs_live_def eq)
qed

lemma count_list_update:
  "i < length xs \<Longrightarrow> count_list (xs[i := y]) z + of_bool (xs ! i = z) = count_list xs z + of_bool (y = z)"
proof (induction xs arbitrary: i)
  case (Cons a xs)
  then show ?case by (cases i) auto
qed simp

lemma count_list_replicate: "count_list (replicate n y) z = (if y = z then n else 0)"
  by (induction n) auto

lemma alloc_fd_count:
  assumes "alloc_fd p h = (fd, q)"
  shows "count_list (p_fds q) (Some g) = count_list (p_fds p) (Some g) + of_bool (g = h)"
proof -
  let ?i = "first_free 0 (p_fds p)"
  have "?i < length (p_fds p) \<longrightarrow> p_fds p ! ?i = None" using first_free_spec [of 0 "p_fds p"] by simp
  then show ?thesis
    using assms count_list_update [of ?i "p_fds p" "Some h" "Some g"] by (auto simp: alloc_fd_def Let_def split: if_splits)
qed

lemma close_fd_count:
  assumes "close_fd p fd = (Inr h, q)"
  shows "count_list (p_fds p) (Some g) = count_list (p_fds q) (Some g) + of_bool (g = h)"
  using assms count_list_update [of "nat fd" "p_fds p" None "Some g"] by (auto simp: close_fd_def split: if_splits option.splits)

lemma close_fd_Inl: "close_fd p fd = (Inl e, q) \<Longrightarrow> q = p"
  by (auto simp: close_fd_def split: if_splits option.splits)

lemma fd_referenced:
  assumes inv: "fd_inv x k" and r: "live k r" and h: "get_fd (k_procs k r) fd = Some h"
  shows "0 < k_handle_rc k h"
proof -
  have "Some h \<in> set (p_fds (k_procs k r))" using h by (auto simp: get_fd_def split: if_splits) (metis nth_mem)
  then have "0 < count_list (p_fds (k_procs k r)) (Some h)" by (metis count_list_0_iff gr0I)
  then have "0 < fd_refs k h" unfolding fd_refs_def using r by (intro sum_pos2 [of _ r]) simp_all
  then show ?thesis using fd_invD(2) [OF inv, of h] by simp
qed

lemma current_live: "fd_inv x k \<Longrightarrow> get_current_process k = Some r \<Longrightarrow> live k r"
  by (auto simp: fd_inv_def refs_live_def refs_def get_current_process_def)

text \<open>A reference held by a call goes into a slot, and a slot is emptied and its reference dropped.\<close>

lemma alloc_fd_inv:
  assumes "fd_inv (x(h := Suc (x h))) k" "live k r" "alloc_fd (k_procs k r) h = (fd, p)"
  shows "fd_inv x (upd_proc r (\<lambda>_. p) k)"
  using assms alloc_fd_count [OF assms(3)] by (intro fds_move_inv [OF assms(1,2)]) simp

lemma close_fd_inv:
  assumes "fd_inv x k" "live k r" "close_fd (k_procs k r) fd = (Inr h, p)"
  shows "fd_inv x (handle_drop h (upd_proc r (\<lambda>_. p) k))"
  using assms close_fd_count [OF assms(3)] by (intro handle_drop_inv fds_move_inv [OF assms(1,2)]) simp

lemma sys_close_inv: "fd_inv x k \<Longrightarrow> fd_inv x (snd (sys_close fd k))"
  by (auto simp: sys_close_def split: option.split prod.split sum.split intro: close_fd_inv current_live)

lemma sys_dup_inv:
  assumes inv: "fd_inv x k"
  shows "fd_inv x (snd (sys_dup fd k))"
proof (cases "get_current_process k")
  case (Some r)
  note r = current_live [OF inv Some]
  show ?thesis
  proof (cases "get_fd (k_procs k r) fd")
    case h: (Some h)
    obtain d p where p: "alloc_fd (k_procs k r) h = (d, p)" by fastforce
    have "handle_clone h (upd_proc r (\<lambda>_. p) k) = upd_proc r (\<lambda>_. p) (handle_clone h k)" by (simp add: handle_clone_def upd_proc_def)
    then show ?thesis
      using alloc_fd_inv [OF handle_clone_inv [OF inv fd_referenced [OF inv r h]], of r] r p
      by (simp add: sys_dup_def Some h live_def handle_clone_def)
  qed (use inv in \<open>simp add: sys_dup_def Some\<close>)
qed (use inv in \<open>simp add: sys_dup_def\<close>)

lemma handle_drop_view:
  assumes "refs_live k"
  shows "p_fds (k_procs (handle_drop h k) r) = p_fds (k_procs k r)" "live (handle_drop h k) = live k"
proof -
  obtain pids pipes where form: "handle_drop h k = wake_tasks pids (k\<lparr> k_handle_rc := (k_handle_rc k)(h := k_handle_rc k h - 1), k_pipes := pipes \<rparr>)"
    using handle_drop_form [of h k] by blast
  let ?k = "k\<lparr> k_handle_rc := (k_handle_rc k)(h := k_handle_rc k h - 1), k_pipes := pipes \<rparr>"
  have "refs_live ?k" using assms by (simp add: refs_live_def)
  then have "fd_view (handle_drop h k) = fd_view ?k" unfolding form using quiet_wake_tasks quiet_def by blast
  then show "p_fds (k_procs (handle_drop h k) r) = p_fds (k_procs k r)" "live (handle_drop h k) = live k"
    by (simp_all add: fd_view_def fun_eq_iff)
qed

lemma upd_proc_const: "upd_proc r f k = upd_proc r (\<lambda>_. f (k_procs k r)) k"
  by (simp add: upd_proc_def)

lemma pad_fds_count:
  assumes "n < length fds \<Longrightarrow> fds ! n = None"
  shows "count_list ((pad_fds n fds)[n := Some h]) (Some g) = count_list fds (Some g) + of_bool (g = h)"
proof -
  have "pad_fds n fds ! n = None" "n < length (pad_fds n fds)" using assms by (auto simp: pad_fds_def nth_append)
  moreover have "count_list (pad_fds n fds) (Some g) = count_list fds (Some g)" by (simp add: pad_fds_def count_list_replicate)
  ultimately show ?thesis using count_list_update [of n "pad_fds n fds" "Some h" "Some g"] by auto
qed

lemma sys_dup2_inv:
  assumes inv: "fd_inv x k"
  shows "fd_inv x (snd (sys_dup2 fd fd' k))"
proof -
  have "snd (sys_dup2 fd fd' k) = k"
    if "\<nexists>r h. get_current_process k = Some r \<and> get_fd (k_procs k r) fd = Some h \<and> 0 \<le> fd' \<and> fd' < 256 \<and> fd \<noteq> fd'"
    using that by (auto simp: sys_dup2_def split: option.split)
  then consider "snd (sys_dup2 fd fd' k) = k"
    | r h where "get_current_process k = Some r" "get_fd (k_procs k r) fd = Some h" "0 \<le> fd'" "fd' < 256" "fd \<noteq> fd'"
    by blast
  then show ?thesis
  proof cases
    case 2
    note r = current_live [OF inv 2(1)]
    let ?k = "handle_clone h k"
    have cl: "fd_inv (x(h := Suc (x h))) ?k" by (rule handle_clone_inv [OF inv fd_referenced [OF inv r 2(2)]])
    have rl: "live ?k r" "k_procs ?k = k_procs k" using r by (simp_all add: live_def handle_clone_def)
    obtain c p where c: "close_fd (k_procs k r) fd' = (c, p)" by fastforce
    have slot: "nat fd' < length (p_fds p) \<Longrightarrow> p_fds p ! nat fd' = None"
      using c 2(3) by (auto simp: close_fd_def split: if_splits option.splits)
    define k' where "k' = (case c of Inr old \<Rightarrow> handle_drop old (upd_proc r (\<lambda>_. p) ?k) | Inl _ \<Rightarrow> upd_proc r (\<lambda>_. p) ?k)"
    have k': "fd_inv (x(h := Suc (x h))) k' \<and> live k' r \<and> p_fds (k_procs k' r) = p_fds p"
    proof (cases c)
      case (Inl e)
      have "p = k_procs k r" using close_fd_Inl c Inl by blast
      then have "upd_proc r (\<lambda>_. p) ?k = ?k" by (simp add: upd_proc_def handle_clone_def)
      then show ?thesis using cl rl Inl \<open>p = _\<close> by (simp add: k'_def)
    next
      case (Inr old)
      have l: "refs_live (upd_proc r (\<lambda>_. p) ?k)"
        using fd_invD(1) [OF cl] by (simp add: refs_live_def live_def refs_def)
      have "live (upd_proc r (\<lambda>_. p) ?k) r" using rl by (simp add: live_def)
      then show ?thesis
        using close_fd_inv [OF cl rl(1), of fd' old p] c rl(2) Inr handle_drop_view [OF l] by (simp add: k'_def)
    qed
    let ?q = "(k_procs k' r)\<lparr> p_fds := (pad_fds (nat fd') (p_fds (k_procs k' r)))[nat fd' := Some h] \<rparr>"
    have "snd (sys_dup2 fd fd' k) = upd_proc r (\<lambda>_. ?q) k'"
      using 2 c rl by (subst upd_proc_const [symmetric, of r "\<lambda>p. p\<lparr> p_fds := (pad_fds (nat fd') (p_fds p))[nat fd' := Some h] \<rparr>"])
        (simp add: sys_dup2_def Let_def k'_def)
    moreover have "fd_inv x (upd_proc r (\<lambda>_. ?q) k')"
      using k' pad_fds_count [OF slot, where h = h] by (intro fds_move_inv [where x = "x(h := Suc (x h))"]) auto
    ultimately show ?thesis by simp
  qed (use inv in simp)
qed

subsection \<open>New descriptions and inodes\<close>

lemma fresh_handle: "fd_inv x k \<Longrightarrow> k_nhandles k \<le> h \<Longrightarrow> k_handle_rc k h = 0 \<and> fd_refs k h = 0 \<and> x h = 0"
  using fd_invD(2,3) [of x k] by (metis add_is_0 handles_ok_def leD neq0_conv)

lemma handle_alloc_inv:
  assumes inv: "fd_inv x k" and i: "i < k_ninodes k" "pipe_end (k_inodes k i) = None" and a: "handle_alloc (FileHandle_new i flags) k = (h, k')"
  shows "fd_inv (x(h := Suc (x h))) k' \<and> k_procs k' = k_procs k \<and> live k' = live k"
proof -
  note I = fd_invD [OF inv]
  note fresh = fresh_handle [OF inv]
  have k': "h = k_nhandles k" "k' = k\<lparr> k_handles := (k_handles k)(h := FileHandle_new i flags), k_handle_rc := (k_handle_rc k)(h := 1), k_nhandles := Suc h \<rparr>"
    using a by (auto simp: handle_alloc_def)
  have eq: "fd_refs k' = fd_refs k" "refs k' = refs k" "live k' = live k"
    by (simp_all add: k' fd_refs_def refs_def live_def fun_eq_iff)
  have ends: "open_ends k' e = open_ends k e" for e
    using I(3) i fresh [of h] by (auto simp: open_ends_def k' handles_ok_def FileHandle_new_def less_Suc_eq)
  have "ends_ok k'" "paths_ok k'" using I(4,5) unfolding ends_ok_def paths_ok_def ends by (simp_all add: k')
  moreover have "handles_ok k'" using I(3) i by (auto simp: handles_ok_def k' FileHandle_new_def less_Suc_eq)
  ultimately show ?thesis using I(1,2) fresh [of h] k'(1) by (simp add: fd_inv_def refs_live_def eq) (simp add: k')
qed

text \<open>The state after a pipe and the descriptions of its ends have been made.\<close>

definition pipe_made :: "kernel \<Rightarrow> kernel" where
  "pipe_made k = (let ((r, w), k) = pipe_new k in
     snd (handle_alloc (FileHandle_new w O_WRONLY) (snd (handle_alloc (FileHandle_new r O_RDONLY) k))))"

lemma pipe_made_eq:
  "pipe_made k = k\<lparr> k_pipes := (k_pipes k)(k_npipes k := PipeBuffer_new), k_npipes := Suc (k_npipes k),
     k_inodes := (k_inodes k)(k_ninodes k := PipeReadEnd (k_npipes k), Suc (k_ninodes k) := PipeWriteEnd (k_npipes k)),
     k_ninodes := Suc (Suc (k_ninodes k)),
     k_handles := (k_handles k)(k_nhandles k := FileHandle_new (k_ninodes k) O_RDONLY, Suc (k_nhandles k) := FileHandle_new (Suc (k_ninodes k)) O_WRONLY),
     k_handle_rc := (k_handle_rc k)(k_nhandles k := 1, Suc (k_nhandles k) := 1), k_nhandles := Suc (Suc (k_nhandles k)) \<rparr>"
  by (simp add: pipe_made_def pipe_new_def inode_alloc_def handle_alloc_def Let_def)

lemma pipe_made_open_ends:
  assumes inv: "fd_inv x k"
  shows "open_ends (pipe_made k) (w, b) = (if b = k_npipes k then {if w then Suc (k_nhandles k) else k_nhandles k} else open_ends k (w, b))"
proof -
  let ?n = "k_nhandles k" and ?i = "k_ninodes k"
  have old: "0 < k_handle_rc k h \<Longrightarrow> h < ?n \<and> fh_inode (k_handles k h) < ?i" for h
    using fd_invD(3) [OF inv] by (simp add: handles_ok_def)
  have pipes: "0 < k_handle_rc k h \<Longrightarrow> pipe_end (k_inodes k (fh_inode (k_handles k h))) \<noteq> Some (w, k_npipes k)" for h
    using fd_invD(4) [OF inv] old [of h] by (auto simp: ends_ok_def)
  have "h \<in> open_ends (pipe_made k) (w, b) \<longleftrightarrow> h \<in> (if b = k_npipes k then {if w then Suc ?n else ?n} else open_ends k (w, b))" for h
  proof -
    consider "h = ?n" | "h = Suc ?n" | "h \<noteq> ?n" "h \<noteq> Suc ?n" by blast
    then show ?thesis
    proof cases
      case 3
      then show ?thesis using old [of h] pipes [of h] by (cases "0 < k_handle_rc k h") (auto simp: open_ends_def pipe_made_eq)
    qed (use old [of h] in \<open>auto simp: open_ends_def pipe_made_eq FileHandle_new_def\<close>)
  qed
  then show ?thesis by blast
qed

lemma pipe_made_inv:
  assumes inv: "fd_inv x k"
  shows "fd_inv (x(k_nhandles k := Suc (x (k_nhandles k)), Suc (k_nhandles k) := Suc (x (Suc (k_nhandles k))))) (pipe_made k)"
proof -
  let ?n = "k_nhandles k" and ?i = "k_ninodes k" and ?k = "pipe_made k"
  note I = fd_invD [OF inv]
  have eq: "fd_refs ?k = fd_refs k" "refs ?k = refs k" "live ?k = live k"
    by (simp_all add: pipe_made_eq fd_refs_def refs_def live_def fun_eq_iff)
  have "k_handle_rc ?k h = fd_refs ?k h + (x(?n := Suc (x ?n), Suc ?n := Suc (x (Suc ?n)))) h" for h
    using I(2) [of h] fresh_handle [OF inv, of h] unfolding eq by (auto simp: pipe_made_eq)
  moreover have "handles_ok ?k" using I(3) by (auto simp: handles_ok_def pipe_made_eq FileHandle_new_def less_Suc_eq)
  moreover have "ends_ok ?k"
    using I(4) unfolding ends_ok_def pipe_made_open_ends [OF inv]
    by (auto simp: pipe_made_eq less_Suc_eq)
  moreover have "paths_ok ?k" using I(5) unfolding paths_ok_def by (fastforce simp: pipe_made_eq less_Suc_eq)
  ultimately show ?thesis using I(1) by (simp add: fd_inv_def refs_live_def eq)
qed

lemma close_quietly_inv:
  assumes "fd_inv x k" "live k r"
  shows "fd_inv x (close_quietly r fd k) \<and> live (close_quietly r fd k) r"
proof (cases "\<exists>h p. close_fd (k_procs k r) fd = (Inr h, p)")
  case True
  then obtain h p where c: "close_fd (k_procs k r) fd = (Inr h, p)" by blast
  have "refs_live (upd_proc r (\<lambda>_. p) k)" using fd_invD(1) [OF assms(1)] by (simp add: refs_live_def live_def refs_def)
  from handle_drop_view(2) [OF this, of h] show ?thesis
    using close_fd_inv [OF assms c] assms(2) by (simp add: close_quietly_def c live_def)
next
  case False
  then show ?thesis using assms by (auto simp: close_quietly_def split: prod.split sum.split)
qed

lemma sys_pipe_inv:
  assumes inv: "fd_inv x k" and s: "sys_pipe ptr k = Some (res, k')"
  shows "fd_inv x k'"
proof (cases "k' = k")
  case False
  let ?rd = "k_nhandles k" and ?wr = "Suc (k_nhandles k)" and ?k = "pipe_made k"
  have made: "(let ((read_end, write_end), k) = pipe_new k; (read_handle, k) = handle_alloc (FileHandle_new read_end O_RDONLY) k;
      (write_handle, k) = handle_alloc (FileHandle_new write_end O_WRONLY) k in f read_handle write_handle k) = f ?rd ?wr ?k" for f :: "nat \<Rightarrow> nat \<Rightarrow> kernel \<Rightarrow> (int \<times> kernel) option"
    by (simp add: pipe_made_def pipe_new_def handle_alloc_def inode_alloc_def Let_def)
  have same: "get_current_process ?k = get_current_process k" "k_procs ?k = k_procs k" "live ?k = live k"
    by (simp_all add: pipe_made_eq get_current_process_def live_def fun_eq_iff)
  note mi = pipe_made_inv [OF inv]
  show ?thesis
  proof (cases "get_current_process k")
    case None
    then have "k' = handle_drop ?rd (handle_drop ?wr ?k)"
      using s False unfolding sys_pipe_def made same by (auto split: sum.splits)
    then show ?thesis using mi by (auto intro!: handle_drop_inv simp: fun_upd_twist)
  next
    case (Some r)
    note r = current_live [OF inv Some]
    obtain a p where p: "alloc_fd (k_procs k r) ?rd = (a, p)" by fastforce
    obtain b q where q: "alloc_fd p ?wr = (b, q)" by fastforce
    let ?k' = "upd_proc r (\<lambda>_. q) ?k"
    have k': "fd_inv x ?k'" "live ?k' r"
      using r alloc_fd_count [OF p] alloc_fd_count [OF q] by (auto intro!: fds_move_inv [OF mi] simp: same) (simp add: live_def pipe_made_eq)
    have mm: "fd_inv x (?k'\<lparr> k_mm := m \<rparr>) \<and> live (?k'\<lparr> k_mm := m \<rparr>) r" for m
      using quiet_inv [OF quiet_frame(1) k'(1)] k'(2) by (simp add: live_def)
    have "\<exists>m. k' = ?k'\<lparr> k_mm := m \<rparr> \<or> k' = close_quietly r b (close_quietly r a (?k'\<lparr> k_mm := m \<rparr>))"
      using s False unfolding sys_pipe_def made same Some by (auto simp: p q Let_def split: sum.splits option.splits)
    then show ?thesis using mm close_quietly_inv by metis
  qed
qed (use inv in simp)

subsection \<open>Opening files\<close>

abbreviation plain_inode :: "kernel \<Rightarrow> nat \<Rightarrow> bool" where
  "plain_inode k i \<equiv> i < k_ninodes k \<and> pipe_end (k_inodes k i) = None"

lemma lookup_plain: "paths_ok k \<Longrightarrow> r < k_ninodes k \<Longrightarrow> inode_lookup r c k = Ok i \<Longrightarrow> plain_inode k i"
proof -
  assume p: "paths_ok k" "r < k_ninodes k" "inode_lookup r c k = Ok i"
  have "i \<in> children (k_inodes k r)"
    using p(3) by (force simp: inode_lookup_def RamFsDir_lookup_def ok_or_def bt_get_def split: Inode.splits option.splits dest: map_of_SomeD)
  then show ?thesis using p(1,2) unfolding paths_ok_def by blast
qed

lemma walk_plain: "paths_ok k \<Longrightarrow> plain_inode k r \<Longrightarrow> walk r cs k = Ok i \<Longrightarrow> plain_inode k i"
proof (induction r cs k rule: walk.induct)
  case (2 r c cs k)
  then obtain j where j: "inode_lookup r c k = Ok j" "walk j cs k = Ok i" by (auto split: kres.splits)
  show ?case using 2(1) [OF j(1) 2(2) lookup_plain [OF 2(2) _ j(1)] j(2)] 2(3) by blast
qed simp

lemma root_plain: "paths_ok k \<Longrightarrow> k_root k = Some root \<Longrightarrow> plain_inode k root"
  unfolding paths_ok_def by blast

lemma resolve_plain:
  assumes "paths_ok k"
  shows "resolve_path cwd path k = Ok i \<Longrightarrow> plain_inode k i"
    and "resolve_parent_and_basename cwd path k = Ok (i, b) \<Longrightarrow> plain_inode k i"
proof -
  assume i: "resolve_path cwd path k = Ok i"
  then obtain root where root: "k_root k = Some root" by (auto simp: resolve_path_def Let_def split: option.splits)
  show "plain_inode k i" using walk_plain [OF assms root_plain [OF assms root]] i resolve_path_walk [OF root] by metis
next
  assume i: "resolve_parent_and_basename cwd path k = Ok (i, b)"
  obtain root where "k_root k = Some root" "walk root (butlast (path_parts (normalize_path cwd path))) k = Ok i"
    using resolve_parent_walk [OF i] by metis
  then show "plain_inode k i" using walk_plain [OF assms root_plain [OF assms]] by metis
qed

text \<open>Changes of the file tree that add inodes and entries.\<close>

lemma tree_inv:
  assumes inv: "fd_inv x k" and k': "k' = k\<lparr> k_inodes := inodes, k_ninodes := n \<rparr>" and n: "k_ninodes k \<le> n"
    and old: "\<And>i. i < k_ninodes k \<Longrightarrow> pipe_end (inodes i) = pipe_end (k_inodes k i)"
    and new: "\<And>i. k_ninodes k \<le> i \<Longrightarrow> i < n \<Longrightarrow> pipe_end (inodes i) = None" and paths: "paths_ok k'"
  shows "fd_inv x k'"
proof -
  note I = fd_invD [OF inv]
  have eq: "fd_refs k' = fd_refs k" "refs k' = refs k" "live k' = live k" by (simp_all add: k' fd_refs_def refs_def live_def fun_eq_iff)
  have ends: "open_ends k' = open_ends k" using I(3) old by (auto simp: open_ends_def k' handles_ok_def fun_eq_iff)
  have "pipe_end (inodes i) = Some e \<Longrightarrow> i < n \<Longrightarrow> i < k_ninodes k \<and> pipe_end (k_inodes k i) = Some e" for i e
    using old [of i] new [of i] by (cases "i < k_ninodes k") auto
  then have "ends_ok k'" using I(4) unfolding ends_ok_def ends by (simp add: k') blast
  moreover have "handles_ok k'" using I(3) n unfolding handles_ok_def by (auto simp: k' intro: less_le_trans)
  ultimately show ?thesis using I(1,2) paths by (simp add: fd_inv_def refs_live_def eq) (simp add: k')
qed

lemma create_file_inv:
  assumes inv: "fd_inv x k" and r: "plain_inode k r" and c: "inode_create_file r name mode uid gid k = (Ok i, k')"
  shows "fd_inv x k' \<and> plain_inode k' i \<and> k_procs k' = k_procs k \<and> live k' = live k"
proof -
  note I = fd_invD [OF inv]
  obtain d where d: "k_inodes k r = RamDir d" using c by (auto simp: inode_create_file_def split: Inode.splits)
  show ?thesis
  proof (cases "bt_get (rd_entries d) name")
    case (Some j)
    then have "inode_lookup r name k = Ok i" "k' = k" using c d by (simp_all add: inode_create_file_def create_file_eq inode_lookup_def RamFsDir_lookup_def ok_or_def)
    then show ?thesis using inv lookup_plain [OF I(5), of r name i] r by simp
  next
    case None
    let ?n = "k_ninodes k"
    let ?inodes = "(k_inodes k)(?n := RamFile (RamFsFile_new_with_creds [] mode uid gid), r := RamDir (add_child name ?n d))"
    have k': "i = ?n" "k' = k\<lparr> k_inodes := ?inodes, k_ninodes := Suc ?n \<rparr>"
      using c d None by (auto simp: inode_create_file_def create_file_eq inode_alloc_def set_inode_def)
    have ch: "children (RamDir (add_child name ?n d)) \<subseteq> insert ?n (children (k_inodes k r))"
      using set_bt_insert_subset [of name ?n "rd_entries d"] by (auto simp: add_child_def d)
    have "paths_ok k'"
      using I(5) r ch unfolding paths_ok_def k' by (auto simp: less_Suc_eq subset_iff split: if_splits)
    then have "fd_inv x k'" using r d by (intro tree_inv [OF inv k'(2)]) (auto simp: less_Suc_eq)
    then show ?thesis using r by (auto simp: k' live_def fun_eq_iff)
  qed
qed

lemma quiet_generate: "quiet k (snd (generate_content kind k))"
  unfolding generate_content_def Let_def update_system_metrics_def by (simp add: quiet_frame split: prod.split)

lemma quiet_stat: "inode_stat i k = (res, k') \<Longrightarrow> quiet k k'"
proof -
  have "quiet k (snd (inode_stat i k))"
    by (cases "k_inodes k i") (simp_all add: inode_stat_def ProcDynamicFile_stat_def Let_def case_prod_beta quiet_generate)
  then show "inode_stat i k = (res, k') \<Longrightarrow> quiet k k'" by simp
qed

lemma quiet_set_inode: "pipe_end j = pipe_end (k_inodes k i) \<Longrightarrow> children j = children (k_inodes k i) \<Longrightarrow> quiet k (set_inode i j k)"
  by (auto simp: quiet_def fd_view_def set_inode_def refs_def live_def fun_eq_iff)

lemma quiet_truncate: "quiet k (snd (inode_truncate i k))"
  by (auto simp: inode_truncate_def split: Inode.split intro: quiet_set_inode)

lemma quiet_open_existing:
  assumes "open_existing i creds flags k = (res, k')"
  shows "quiet k k'"
proof -
  obtain c k'' where c: "check_inode_permission i creds flags k = (c, k'')" by fastforce
  then have "quiet k k''"
    using quiet_stat by (auto simp: check_inode_permission_def Let_def split: if_splits kres.splits prod.splits)
  moreover have "quiet k'' k'" using assms c quiet_truncate by (auto simp: open_existing_def split: kres.splits if_splits)
  ultimately show ?thesis by (rule quiet_trans)
qed

lemma quiet_plain: "quiet k k' \<Longrightarrow> plain_inode k' i \<longleftrightarrow> plain_inode k i" "quiet k k' \<Longrightarrow> live k' = live k"
  by (simp_all add: quiet_def fd_view_def fun_eq_iff)

lemma quiet_audit: "quiet k (snd (log_audit_event pid uid t st path d k))"
  by (simp add: log_audit_event_def Let_def quiet_frame)

lemma open_inode_inv:
  assumes inv: "fd_inv x k" and o: "open_inode creds cwd path flags mode k = (res, k')"
  shows "fd_inv x k' \<and> live k' = live k \<and> (\<forall>i c. res = Ok (i, c) \<longrightarrow> plain_inode k' i)"
proof (cases "k' = k")
  case True
  have "resolve_path cwd path k = Ok i \<or> (\<exists>p b m. resolve_parent_and_basename cwd path k = Ok (p, b) \<and> inode_create_file p b m (vc_euid creds) (vc_egid creds) k = (Ok i, k))"
    if "res = Ok (i, c)" for i c
    using o that True by (auto simp: open_inode_def split: kres.splits if_splits prod.splits)
  then have "plain_inode k i" if "res = Ok (i, c)" for i c
    using that resolve_plain [OF fd_invD(5) [OF inv]] create_file_inv [OF inv] by metis
  then show ?thesis using inv True by simp
next
  case False
  then obtain p b m r where c: "resolve_parent_and_basename cwd path k = Ok (p, b)"
    "inode_create_file p b m (vc_euid creds) (vc_egid creds) k = (r, k')" "\<And>i c. res = Ok (i, c) \<Longrightarrow> r = Ok i"
    using o by (auto simp: open_inode_def split: kres.splits if_splits prod.splits)
  have "\<exists>i. r = Ok i" using c(2) False by (auto simp: inode_create_file_def create_file_eq split: Inode.splits option.splits)
  then obtain i where i: "r = Ok i" ..
  note cf = create_file_inv [OF inv resolve_plain(2) [OF fd_invD(5) [OF inv] c(1)] c(2) [unfolded i]]
  then show ?thesis using c(3) i by auto
qed

lemma sys_open_inv:
  assumes inv: "fd_inv x k" and o: "sys_open ptr flags mode k = Some (res, k')"
  shows "fd_inv x k'"
proof -
  have done_: "fd_inv x (if b then snd (log_audit_event pid uid t st path d kb) else kb)" if "fd_inv x kb" for b pid uid t st path d kb
    using that quiet_inv [OF quiet_audit that] by simp
  have opened: "fd_inv x (upd_proc r (\<lambda>_. q) kb) "
    if "fd_inv x ka" "live ka r" "plain_inode ka i" "handle_alloc (FileHandle_new i flags) ka = (h, kb)" "alloc_fd (k_procs kb r) h = (fd, q)" for ka i h kb fd q r
    using handle_alloc_inv [OF that(1) _ _ that(4)] that(2,3,5) alloc_fd_inv [of x h kb r fd q] by auto
  show ?thesis
  proof (cases "\<exists>r path. get_current_process k = Some r \<and> copy_user_path (k_cr3 k) ptr (k_mm k) = Ok path")
    case True
    then obtain r path where r: "get_current_process k = Some r" and path: "copy_user_path (k_cr3 k) ptr (k_mm k) = Ok path" by blast
    let ?p = "k_procs k r"
    obtain i ka where ka: "open_inode (creds_of ?p) (p_cwd ?p) path flags mode k = (i, ka)" by fastforce
    note A = open_inode_inv [OF inv ka]
    have ra: "live ka r" using A current_live [OF inv r] by simp
    show ?thesis
    proof (cases i)
      case (Ok ic)
      obtain j c where jc: "ic = (j, c)" by fastforce
      obtain e kb where kb: "(if c then (Ok (), ka) else open_existing j (creds_of ?p) flags ka) = (e, kb)" by fastforce
      have q: "quiet ka kb" using kb quiet_open_existing by (auto split: if_splits)
      have B: "fd_inv x kb" "live kb r" "plain_inode kb j" using quiet_inv [OF q] quiet_plain [OF q] A ra Ok jc by auto
      obtain h kc where kc: "handle_alloc (FileHandle_new j flags) kb = (h, kc)" by fastforce
      obtain fd q where q: "alloc_fd (k_procs kc r) h = (fd, q)" by fastforce
      show ?thesis
        using o opened [OF B kc q] B(1) by (auto simp: sys_open_def with_path_def r path ka Ok jc kb kc q Let_def split: kres.splits intro: done_)
    qed (use o A in \<open>auto simp: sys_open_def with_path_def r path ka Let_def\<close>)
  next
    case False
    then show ?thesis using o inv by (auto simp: sys_open_def with_path_def split: option.splits kres.splits)
  qed
qed

subsection \<open>Reading and writing\<close>

definition io_kernel :: "'a io \<Rightarrow> kernel" where
  "io_kernel res = (case res of Done r k \<Rightarrow> k | Sleep k \<Rightarrow> k | Again k \<Rightarrow> k)"

lemma io_kernel_simps [simp]: "io_kernel (Done r k) = k" "io_kernel (Sleep k) = k" "io_kernel (Again k) = k"
  by (simp_all add: io_kernel_def)

lemma quiet_mark: "quiet k (mark_current_blocked k)" "quiet k (mark_current_running k)"
  by (simp_all add: mark_current_blocked_def mark_current_running_def quiet_set_state split: option.split)

lemma quiet_set_pipe: "(\<And>w. ends_open w p = ends_open w (k_pipes k b)) \<Longrightarrow> quiet k (set_pipe b p k)"
  by (auto simp: quiet_def fd_view_def set_pipe_def refs_def live_def fun_eq_iff)

lemma quiet_dispatch: "quiet k (dispatch_to r k)"
proof -
  let ?a = "set_state r Running k"
  let ?b = "?a\<lparr> k_stack := kernel_stack_top (k_procs ?a r) \<rparr>"
  have a: "quiet k ?b" using quiet_trans [OF quiet_set_state quiet_frame(6)] .
  have "quiet ?b (case p_vm_space (k_procs ?b r) of Some vm \<Rightarrow> activate vm ?b | None \<Rightarrow> ?b)"
    by (auto simp: activate_def quiet_frame split: option.split)
  from quiet_trans [OF quiet_trans [OF a this] quiet_frame(7)] show ?thesis by (simp add: dispatch_to_def Let_def)
qed

lemma next_or_idle_live:
  assumes l: "refs_live k" and n: "next_or_idle k = Some (nxt, k')"
  shows "0 < refs k nxt" "quiet k k'"
proof -
  have "0 < refs k nxt \<and> quiet k k'"
  proof (cases "k_queue k")
    case Nil
    then have i: "k_idle k = Some nxt" "k' = proc_clone nxt k" using n by (simp_all add: next_or_idle_def split: option.splits)
    then have "0 < refs k nxt" by (simp add: refs_def)
    then show ?thesis using l quiet_proc_clone i(2) unfolding refs_live_def by blast
  next
    case (Cons r q)
    then have i: "r = nxt" "k' = k\<lparr> k_queue := q \<rparr>" using n by (simp_all add: next_or_idle_def)
    then show ?thesis using Cons by (auto simp: quiet_def fd_view_def refs_def live_def fun_eq_iff)
  qed
  then show "0 < refs k nxt" "quiet k k'" by simp_all
qed

lemma quiet_switch_out:
  assumes l: "refs_live k"
  shows "quiet k (snd (switch_out_current rsp k))"
proof (cases "k_current k")
  case (Some prev)
  show ?thesis
  proof (cases "next_or_idle k")
    case None
    then show ?thesis by (simp add: switch_out_current_def Some quiet_set_state)
  next
    case n: (Some nk)
    obtain nxt k' where nk: "nk = (nxt, k')" by fastforce
    note N = next_or_idle_live [OF l n [unfolded nk]]
    have "quiet k (dispatch_to nxt k')" by (rule quiet_trans [OF N(2) quiet_dispatch])
    then have "quiet k ((dispatch_to nxt k')\<lparr> k_current := Some nxt \<rparr>)"
      using N(1) by (auto simp: quiet_def fd_view_def refs_def live_def fun_eq_iff split: if_splits)
    from quiet_trans [OF this quiet_upd_proc] show ?thesis by (simp add: switch_out_current_def Some n nk Let_def switch_tasks_def)
  qed
qed (simp add: switch_out_current_def)

lemma section_ends:
  "pipe_read_section n flags pid p = (s, p') \<Longrightarrow> ends_open w p' = ends_open w p"
  "pipe_write_section buf flags pid p = (t, p') \<Longrightarrow> ends_open w p' = ends_open w p"
proof -
  have rd: "ring_read n p = Some (bs, q) \<Longrightarrow> ends_open w q = ends_open w p" for n p bs q
    by (induction n p arbitrary: bs q rule: ring_read.induct) (auto simp: ends_open_def Let_def split: option.splits if_splits)
  have wr: "ring_write bs p = Some q \<Longrightarrow> ends_open w q = ends_open w p" for bs p q
    by (induction bs p arbitrary: q rule: ring_write.induct) (auto simp: ends_open_def Let_def split: option.splits if_splits)
  have upd: "ends_open w (p\<lparr> pb_len := l \<rparr>) = ends_open w p" "ends_open w (p\<lparr> pb_read_waiters := q \<rparr>) = ends_open w p"
    "ends_open w (p\<lparr> pb_write_waiters := q \<rparr>) = ends_open w p" for p l q
    by (simp_all add: ends_open_def)
  show "pipe_read_section n flags pid p = (s, p') \<Longrightarrow> ends_open w p' = ends_open w p"
    by (auto simp: pipe_read_section_def Let_def upd dest!: rd split: if_splits option.splits prod.splits)
  show "pipe_write_section buf flags pid p = (t, p') \<Longrightarrow> ends_open w p' = ends_open w p"
    by (auto simp: pipe_write_section_def Let_def upd dest!: wr split: if_splits option.splits prod.splits)
qed

lemma quiet_pipe_iteration:
  assumes l: "refs_live k" and sec: "\<And>p s p' w. sec p = (s, p') \<Longrightarrow> ends_open w p' = ends_open w p"
  shows "quiet k (io_kernel (pipe_iteration b sec rsp k))"
proof -
  let ?k = "mark_current_blocked k"
  obtain s p where s: "sec (k_pipes k b) = (s, p)" by fastforce
  have q: "quiet k (set_pipe b p ?k)" by (rule quiet_trans [OF quiet_mark(1) quiet_set_pipe]) (simp add: sec [OF s])
  note l' = quiet_live [OF q l]
  show ?thesis
    using q quiet_trans [OF quiet_trans [OF q quiet_wake_tasks [OF l']] quiet_mark(2)] quiet_trans [OF q quiet_switch_out [OF l']]
      quiet_trans [OF q quiet_mark(2)]
    by (cases s) (simp_all add: pipe_iteration_def s Let_def)
qed

lemma quiet_inode_read: "refs_live k \<Longrightarrow> quiet k (io_kernel (inode_read_with_flags i off n flags pid rsp k))"
proof -
  assume l: "refs_live k"
  have proc: "quiet k (snd (ProcDynamicFile_read kind off n k))" for kind
    using quiet_generate by (simp add: ProcDynamicFile_read_def Let_def case_prod_beta)
  have con: "quiet k (io_kernel (DevConsole_read n k))"
    by (auto simp: DevConsole_read_def Let_def quiet_frame split: option.split)
  show ?thesis
    using proc con quiet_pipe_iteration [OF l section_ends(1)]
    by (cases "k_inodes k i") (auto simp: inode_read_with_flags_def PipeReadEnd_read_with_flags_def case_prod_beta Let_def
        intro!: quiet_set_inode simp: pipe_end_def children_def)
qed

lemma quiet_inode_write: "refs_live k \<Longrightarrow> quiet k (io_kernel (inode_write_with_flags i off buf flags pid rsp k))"
  using quiet_pipe_iteration [OF _ section_ends(2)]
  by (cases "k_inodes k i") (auto simp: inode_write_with_flags_def PipeWriteEnd_write_with_flags_def case_prod_beta Let_def quiet_frame
      intro!: quiet_set_inode simp: pipe_end_def children_def)

lemma quiet_set_offset: "quiet k (set_offset h off k)"
  by (auto simp: quiet_def fd_view_def set_offset_def refs_def live_def fun_eq_iff)

lemma quiet_advance: "quiet k (io_kernel res) \<Longrightarrow> quiet k (io_kernel (advance h off len res))"
  by (auto simp: advance_def intro: quiet_trans quiet_set_offset split: io.split kres.split option.split)

lemma quiet_handle_io:
  assumes l: "refs_live k"
  shows "quiet k (io_kernel (FileHandle_read h n pid rsp k))" "quiet k (io_kernel (FileHandle_write h buf pid rsp k))"
proof -
  show "quiet k (io_kernel (FileHandle_read h n pid rsp k))"
    unfolding FileHandle_read_def Let_def by (rule quiet_advance [OF quiet_inode_read [OF l]])
  let ?fh = "k_handles k h"
  define k' where "k' = (if fh_flags ?fh AND O_APPEND \<noteq> 0 then
      (case inode_stat (fh_inode ?fh) k of (Ok st, k) \<Rightarrow> set_offset h (unat (word_of_int (st_size st) :: u64)) k | (_, k) \<Rightarrow> k) else k)"
  have q: "quiet k k'"
    using quiet_stat [of "fh_inode ?fh" k] by (auto simp: k'_def intro: quiet_trans quiet_set_offset split: prod.split kres.split)
  have "quiet k' (io_kernel (advance h (fh_offset (k_handles k' h)) (\<lambda>n. n)
      (inode_write_with_flags (fh_inode ?fh) (fh_offset (k_handles k' h)) buf (fh_flags ?fh) pid rsp k')))"
    by (rule quiet_advance [OF quiet_inode_write [OF quiet_live [OF q l]]])
  from quiet_trans [OF q this] show "quiet k (io_kernel (FileHandle_write h buf pid rsp k))"
    unfolding FileHandle_write_def Let_def k'_def .
qed

text \<open>A call that returns has given its reference back; a call that sleeps or retries still holds it.\<close>

definition io_inv :: "(nat \<Rightarrow> nat) \<Rightarrow> nat \<Rightarrow> 'a io \<Rightarrow> bool" where
  "io_inv x h res = (case res of
     Done (Ok _) k \<Rightarrow> fd_inv x k
   | Done _ k \<Rightarrow> True
   | Sleep k \<Rightarrow> fd_inv (x(h := Suc (x h))) k
   | Again k \<Rightarrow> fd_inv (x(h := Suc (x h))) k)"

lemma read_finish_inv: "fd_inv (x(h := Suc (x h))) (io_kernel res) \<Longrightarrow> io_inv x h (read_finish h buf res)"
  by (auto simp: read_finish_def io_inv_def split: io.split kres.split sum.split option.split
      intro!: handle_drop_inv intro: quiet_inv [OF quiet_frame(1)])

lemma write_finish_inv: "fd_inv (x(h := Suc (x h))) (io_kernel res) \<Longrightarrow> io_inv x h (write_finish h res)"
  by (auto simp: write_finish_def io_inv_def split: io.split kres.split intro!: handle_drop_inv)

lemma get_proc_handle_referenced:
  "fd_inv x k \<Longrightarrow> get_proc_handle fd k = Ok (h, pid) \<Longrightarrow> 0 < k_handle_rc k h"
  using fd_referenced current_live
  by (fastforce simp: get_proc_handle_def get_current_proc_def split: option.splits)

lemma sys_read_inv:
  assumes inv: "fd_inv x k" and h: "get_proc_handle fd k = Ok (h, pid)"
  shows "io_inv x h (sys_read fd buf count rsp k)"
proof -
  note c = handle_clone_inv [OF inv get_proc_handle_referenced [OF inv h]]
  have "io_inv x h (read_finish h buf (FileHandle_read h n pid rsp (handle_clone h k)))" for n
    by (rule read_finish_inv [OF quiet_inv [OF quiet_handle_io(1) [OF fd_invD(1) [OF c]] c]])
  moreover have "io_inv x h (Done (Ok e) k)" for e :: int using inv by (simp add: io_inv_def)
  ultimately show ?thesis by (simp add: sys_read_def h Let_def split: sum.split)
qed

lemma sys_write_inv:
  assumes inv: "fd_inv x k" and h: "get_proc_handle fd k = Ok (h, pid)"
  shows "io_inv x h (sys_write fd buf count rsp k)"
proof -
  note c = handle_clone_inv [OF inv get_proc_handle_referenced [OF inv h]]
  have "io_inv x h (write_finish h (FileHandle_write h bs pid rsp (handle_clone h k)))" for bs
    by (rule write_finish_inv [OF quiet_inv [OF quiet_handle_io(2) [OF fd_invD(1) [OF c]] c]])
  moreover have "io_inv x h (Done (Ok e) k)" "io_inv x h (Done Panic k :: int io)" for e :: int using inv by (simp_all add: io_inv_def)
  ultimately show ?thesis by (simp add: sys_write_def h Let_def split: sum.split option.split)
qed

lemma sys_resume_inv:
  assumes inv: "fd_inv (x(h := Suc (x h))) k"
  shows "io_inv x h (sys_read_resume h buf pid k)" "io_inv x h (sys_write_resume h pid k)"
proof -
  have q: "quiet k (mark_current_running k)" "k_pipes (mark_current_running k) = k_pipes k" by (simp_all add: quiet_mark)
  have "quiet k (io_kernel (pipe_read_resume b pid k))" "quiet k (io_kernel (pipe_write_resume b pid k))" for b
    using quiet_trans [OF q(1) quiet_set_pipe] q
    by (auto simp: pipe_read_resume_def pipe_write_resume_def Let_def ends_open_def)
  then have "io_inv x h (read_finish h buf (advance h off length (pipe_read_resume b pid k)))"
    "io_inv x h (write_finish h (advance h off (\<lambda>n. n) (pipe_write_resume b pid k)))" for b off
    by (blast intro: read_finish_inv write_finish_inv quiet_inv [OF quiet_advance inv])+
  moreover have "io_inv x h (Again k :: int io)" using inv by (simp add: io_inv_def)
  ultimately show "io_inv x h (sys_read_resume h buf pid k)" "io_inv x h (sys_write_resume h pid k)"
    by (simp_all add: sys_read_resume_def sys_write_resume_def split: Inode.split)
qed

subsection \<open>Fork and the release of processes\<close>

lemma handle_drops_inv: "fd_inv (\<lambda>h. x h + count_list hs h) k \<Longrightarrow> fd_inv x (fold handle_drop hs k)"
proof (induction hs arbitrary: k)
  case (Cons h hs)
  have "(\<lambda>g. x g + count_list (h # hs) g) = (\<lambda>g. x g + count_list hs g)(h := Suc (x h + count_list hs h))" by auto
  then show ?case using Cons handle_drop_inv [of "\<lambda>g. x g + count_list hs g" h k] by simp
qed simp

lemma handle_clones_inv:
  "fd_inv x k \<Longrightarrow> \<forall>h \<in> set hs. 0 < k_handle_rc k h \<Longrightarrow> fd_inv (\<lambda>h. x h + count_list hs h) (fold handle_clone hs k)"
proof (induction hs arbitrary: x k)
  case (Cons h hs)
  let ?y = "x(h := Suc (x h))"
  have "fd_inv ?y (handle_clone h k)" using handle_clone_inv Cons.prems by simp
  moreover have "\<forall>g \<in> set hs. 0 < k_handle_rc (handle_clone h k) g" using Cons.prems by (simp add: handle_clone_def)
  ultimately have "fd_inv (\<lambda>g. ?y g + count_list hs g) (fold handle_clone hs (handle_clone h k))" by (rule Cons.IH)
  moreover have "(\<lambda>g. (x(h := Suc (x h))) g + count_list hs g) = (\<lambda>g. x g + count_list (h # hs) g)" by auto
  ultimately show ?case by simp
qed simp

lemma count_open_handles: "count_list (open_handles fds) h = count_list fds (Some h)"
  by (induction fds) (auto simp: open_handles_def)

lemma proc_drop_inv:
  assumes inv: "fd_inv x k" and drop: "proc_drop r k = Some k'" and rc: "0 < k_proc_rc k r" "k_proc_rc k r = 1 \<longrightarrow> refs k r = 0"
    and r: "r < k_nprocs k"
  shows "fd_inv x k'"
proof -
  define d where k1: "d = k\<lparr> k_proc_rc := (k_proc_rc k)(r := k_proc_rc k r - 1) \<rparr>"
  note I = fd_invD [OF inv]
  have eq: "refs d = refs k" "open_ends d = open_ends k" by (simp_all add: k1 refs_def open_ends_def fun_eq_iff)
  have same: "handles_ok d" "ends_ok d" "paths_ok d" using I(3-5) unfolding handles_ok_def ends_ok_def paths_ok_def eq by (simp_all add: k1)
  show ?thesis
  proof (cases "k_proc_rc k r = 1")
    case False
    then have "live d = live k" using rc by (auto simp: k1 live_def fun_eq_iff)
    then have "fd_inv x d" using I same by (simp add: fd_inv_def refs_live_def eq fd_refs_def) (simp add: k1)
    then show ?thesis using drop False rc by (simp add: proc_drop_def Let_def k1)
  next
    case True
    let ?fds = "p_fds (k_procs k r)"
    have l: "live d s \<longleftrightarrow> live k s \<and> s \<noteq> r" for s using True by (auto simp: k1 live_def)
    have "live k r" using r rc by (simp add: live_def)
    then have "fd_refs k h = count_list ?fds (Some h) + fd_refs d h" for h
      unfolding fd_refs_def l by (subst sum.remove [of _ r]) (auto intro!: sum.cong simp: k1)
    then have "fd_inv (\<lambda>h. x h + count_list (open_handles ?fds) h) d"
      using I same rc True by (auto simp: fd_inv_def refs_live_def eq l count_open_handles) (simp add: k1)
    then have "fd_inv x (fold handle_drop (open_handles ?fds) d)" by (rule handle_drops_inv)
    then show ?thesis
      using drop True quiet_inv [OF quiet_frame(1)]
      by (auto simp: k1 proc_drop_def Let_def open_handles_def vm_drop_def split: option.splits prod.splits vm_result.splits)
  qed
qed

lemma sys_exit_inv: "fd_inv x k \<Longrightarrow> fd_inv x (sys_exit code rsp k)"
proof -
  assume inv: "fd_inv x k"
  note l = fd_invD(1) [OF inv]
  have z: "quiet k (upd_proc r (zombify code None) k)" for r by (rule quiet_upd_proc) (simp add: zombify_def)
  have e: "quiet k (end_current code None k)"
    using z quiet_trans [OF z quiet_wake_tasks [OF quiet_live [OF z l]]] quiet_wake_tasks [OF l]
    by (simp add: end_current_def split: option.split)
  have "quiet k (sys_exit code rsp k)" unfolding sys_exit_def by (rule quiet_trans [OF e quiet_switch_out [OF quiet_live [OF e l]]])
  then show ?thesis using quiet_inv inv by blast
qed

lemma spawn_inv:
  assumes inv: "fd_inv (\<lambda>h. x h + count_list (p_fds p) (Some h)) k" and pid: "bt_get (k_table k) pid = None"
    and s: "spawn_task pid p k = Some k'"
  shows "fd_inv x k'"
proof -
  let ?n = "k_nprocs k"
  note I = fd_invD [OF inv]
  have k': "k' = k\<lparr> k_procs := (k_procs k)(?n := p), k_proc_rc := (k_proc_rc k)(?n := 2), k_nprocs := Suc ?n,
      k_table := bt_insert pid ?n (k_table k), k_queue := k_queue k @ [?n] \<rparr>"
    using s pid by (auto simp: spawn_task_def proc_alloc_def table_insert_def proc_clone_def add_task_def Let_def numeral_2_eq_2)
  have l: "live k' r \<longleftrightarrow> live k r \<or> r = ?n" for r by (auto simp: k' live_def less_Suc_eq)
  have "\<not> live k ?n" by (simp add: live_def)
  then have "fd_refs k' h = fd_refs k h + count_list (p_fds p) (Some h)" for h
  proof -
    have "{r. live k' r} = insert ?n {r. live k r}" using l by auto
    then have "fd_refs k' h = count_list (p_fds p) (Some h) + (\<Sum>r | live k r. count_list (p_fds (k_procs k' r)) (Some h))"
      using \<open>\<not> live k ?n\<close> by (simp add: fd_refs_def k')
    also have "(\<Sum>r | live k r. count_list (p_fds (k_procs k' r)) (Some h)) = fd_refs k h"
      unfolding fd_refs_def by (rule sum.cong) (use \<open>\<not> live k ?n\<close> in \<open>auto simp: k'\<close>)
    finally show ?thesis by simp
  qed
  moreover have "refs_live k'"
  proof -
    have "0 < refs k r" if "0 < refs k' r" "r \<noteq> ?n" for r
      using that set_bt_insert_subset [of pid ?n "k_table k"]
      by (auto simp: refs_def k' neq0_conv [symmetric] count_list_0_iff simp del: neq0_conv split: if_splits)
    then show ?thesis using I(1) l unfolding refs_live_def by blast
  qed
  moreover have "open_ends k' = open_ends k" by (simp add: k' open_ends_def fun_eq_iff)
  then have "handles_ok k'" "ends_ok k'" "paths_ok k'" using I(3-5) unfolding handles_ok_def ends_ok_def paths_ok_def by (simp_all add: k')
  ultimately show ?thesis using I(2) by (simp add: fd_inv_def) (simp add: k')
qed

lemma quiet_clone_vm: "clone_vm p k = (res, k') \<Longrightarrow> quiet k k' \<and> k_table k' = k_table k \<and> k_next_pid k' = k_next_pid k"
  by (auto simp: clone_vm_def quiet_frame split: option.splits prod.splits kres.splits)

lemma quiet_pid: "quiet k (k\<lparr> k_next_pid := n \<rparr>)" "quiet k (k\<lparr> k_signals := s \<rparr>)"
  by (simp_all add: quiet_def fd_view_def refs_def live_def fun_eq_iff)

lemma fold_handle_clone_simps [simp]:
  "k_table (fold handle_clone hs k) = k_table k" "k_next_pid (fold handle_clone hs k) = k_next_pid k"
  by (induction hs arbitrary: k) (simp_all add: handle_clone_def)

lemma fork_fds: "p_fds ((fork_child stack pid p vm)\<lparr> p_kernel_stack := st, p_saved_kernel_rsp := rsp \<rparr>) = p_fds p"
  by (simp add: fork_child_def)

lemma sys_fork_inv:
  assumes inv: "fd_inv x k" and f: "sys_fork regs stack k = Some (res, k')" and pid: "bt_get (k_table k) (fst (alloc_pid k)) = None"
  shows "fd_inv x k'"
proof (cases "get_current_process k")
  case (Some r)
  let ?p = "k_procs k r"
  obtain vm ka where ka: "clone_vm ?p k = (vm, ka)" by fastforce
  note q = quiet_clone_vm [OF ka]
  have A: "fd_inv x ka" using quiet_inv q inv by blast
  show ?thesis
  proof (cases vm)
    case (Ok v)
    let ?kb = "fold handle_clone (open_handles (p_fds ?p)) ka"
    obtain cp kc where kc: "alloc_pid ?kb = (cp, kc)" by fastforce
    let ?kd = "kc\<lparr> k_signals := copy_signals (p_pid ?p) cp (k_signals kc) \<rparr>"
    have "\<forall>h \<in> set (open_handles (p_fds ?p)). 0 < k_handle_rc ka h"
    proof
      fix h assume "h \<in> set (open_handles (p_fds ?p))"
      then obtain i where "i < length (p_fds ?p)" "p_fds ?p ! i = Some h" by (auto simp: open_handles_def in_set_conv_nth)
      then have "get_fd ?p (int i) = Some h" by (simp add: get_fd_def)
      then have "0 < k_handle_rc k h" using fd_referenced [OF inv current_live [OF inv Some]] by blast
      then show "0 < k_handle_rc ka h" using q by (simp add: quiet_def fd_view_def)
    qed
    from handle_clones_inv [OF A this]
    have "fd_inv (\<lambda>h. x h + count_list (p_fds ?p) (Some h)) ?kb" by (simp add: count_open_handles)
    moreover have "quiet ?kb kc" using kc by (auto simp: alloc_pid_def Let_def intro: quiet_pid split: if_splits)
    ultimately have D: "fd_inv (\<lambda>h. x h + count_list (p_fds ?p) (Some h)) ?kd"
      using quiet_inv [OF quiet_trans [OF _ quiet_pid(2)]] by blast
    have "cp = fst (alloc_pid k)" "k_table ?kd = k_table k"
      using kc q by (auto simp: alloc_pid_def Let_def split: if_splits)
    then have free: "bt_get (k_table ?kd) cp = None" using pid by simp
    have "\<exists>c. p_fds c = p_fds ?p \<and> spawn_task cp c ?kd = Some k'"
      using f by (auto simp: sys_fork_def Some ka Ok kc Let_def split: option.splits prod.splits intro!: exI conjI fork_fds)
    then show ?thesis using spawn_inv [OF _ free] D by metis
  qed (use f A in \<open>auto simp: sys_fork_def Some ka Let_def\<close>)
qed (use f inv in \<open>simp add: sys_fork_def\<close>)

subsection \<open>Runs\<close>

text \<open>What a call in progress on the description \<open>h\<close> does next: it is switched in again, or repeats its transfer.\<close>

inductive call_continues :: "nat \<Rightarrow> kernel \<Rightarrow> int io \<Rightarrow> bool" where
  read_switched_in: "call_continues h k (sys_read_resume h buf pid k)"
| write_switched_in: "call_continues h k (sys_write_resume h pid k)"
| read_again: "call_continues h k (read_finish h buf (FileHandle_read h count pid rsp k))"
| write_again: "call_continues h k (write_finish h (FileHandle_write h kbuf pid rsp k))"

text \<open>
  The calls that create, share and drop references, as steps of the state and the references of calls in
  progress. A fork is considered when the identifier it takes is not in use.
\<close>

inductive fd_step :: "(nat \<Rightarrow> nat) \<times> kernel \<Rightarrow> (nat \<Rightarrow> nat) \<times> kernel \<Rightarrow> bool" where
  open_path: "sys_open ptr flags mode k = Some (res, k') \<Longrightarrow> fd_step (x, k) (x, k')"
| close: "fd_step (x, k) (x, snd (sys_close fd k))"
| dup: "fd_step (x, k) (x, snd (sys_dup fd k))"
| dup_onto: "fd_step (x, k) (x, snd (sys_dup2 fd fd' k))"
| pipe: "sys_pipe ptr k = Some (res, k') \<Longrightarrow> fd_step (x, k) (x, k')"
| fork: "sys_fork regs stack k = Some (res, k') \<Longrightarrow> bt_get (k_table k) (fst (alloc_pid k)) = None \<Longrightarrow> fd_step (x, k) (x, k')"
| exits: "fd_step (x, k) (x, sys_exit code rsp k)"
| call_returns: "res = sys_read fd buf count rsp k \<or> res = sys_write fd buf count rsp k \<Longrightarrow> res = Done (Ok n) k' \<Longrightarrow> fd_step (x, k) (x, k')"
| call_blocks: "get_proc_handle fd k = Ok (h, pid) \<Longrightarrow> res = sys_read fd buf count rsp k \<or> res = sys_write fd buf count rsp k
    \<Longrightarrow> res = Sleep k' \<or> res = Again k' \<Longrightarrow> fd_step (x, k) (x(h := Suc (x h)), k')"
| call_goes_on: "0 < x h \<Longrightarrow> call_continues h k res \<Longrightarrow> res = Sleep k' \<or> res = Again k' \<Longrightarrow> fd_step (x, k) (x, k')"
| call_ends: "0 < x h \<Longrightarrow> call_continues h k (Done (Ok n) k') \<Longrightarrow> fd_step (x, k) (x(h := x h - 1), k')"

abbreviation fd_run :: "(nat \<Rightarrow> nat) \<times> kernel \<Rightarrow> (nat \<Rightarrow> nat) \<times> kernel \<Rightarrow> bool" where
  "fd_run \<equiv> fd_step\<^sup>*\<^sup>*"

lemma call_continues_inv:
  assumes "call_continues h k res" and inv: "fd_inv (x(h := Suc (x h))) k"
  shows "io_inv x h res"
  using assms(1)
proof cases
  case read_again
  show ?thesis unfolding read_again using quiet_inv [OF quiet_handle_io(1) [OF fd_invD(1) [OF inv]] inv] by (rule read_finish_inv)
next
  case write_again
  show ?thesis unfolding write_again using quiet_inv [OF quiet_handle_io(2) [OF fd_invD(1) [OF inv]] inv] by (rule write_finish_inv)
qed (simp_all add: sys_resume_inv [OF inv])

lemma get_proc_handle_Err:
  "get_proc_handle fd k = Err e \<Longrightarrow> sys_read fd buf count rsp k = Done (Ok (- e)) k"
  "get_proc_handle fd k = Err e \<Longrightarrow> sys_write fd buf count rsp k = Done (Ok (- e)) k"
  "get_proc_handle fd k \<noteq> Panic"
  by (simp_all add: sys_read_def sys_write_def get_proc_handle_def split: option.split)

lemma call_inv:
  assumes inv: "fd_inv x k" and res: "res = sys_read fd buf count rsp k \<or> res = sys_write fd buf count rsp k"
  shows "res = Done (Ok n) k' \<Longrightarrow> fd_inv x k'"
    "get_proc_handle fd k = Ok (h, pid) \<Longrightarrow> res = Sleep k' \<or> res = Again k' \<Longrightarrow> fd_inv (x(h := Suc (x h))) k'"
proof -
  have io: "io_inv x h res" if "get_proc_handle fd k = Ok (h, pid)" for h pid
    using res sys_read_inv [OF inv that] sys_write_inv [OF inv that] by blast
  show "fd_inv x k'" if "res = Done (Ok n) k'"
    using io that res inv get_proc_handle_Err [of fd k] by (cases "get_proc_handle fd k") (auto simp: io_inv_def)
  show "fd_inv (x(h := Suc (x h))) k'" if "get_proc_handle fd k = Ok (h, pid)" "res = Sleep k' \<or> res = Again k'"
    using io [OF that(1)] that(2) by (auto simp: io_inv_def)
qed

lemma fd_step_inv:
  assumes "fd_step (x, k) (y, k')" and inv: "fd_inv x k"
  shows "fd_inv y k'"
  using assms(1)
proof cases
  case (call_goes_on h res)
  have "fd_inv ((x(h := x h - 1))(h := Suc ((x(h := x h - 1)) h))) k" using inv call_goes_on by simp
  from call_continues_inv [OF call_goes_on(3) this] show ?thesis using call_goes_on by (auto simp: io_inv_def)
next
  case (call_ends h n)
  have "fd_inv ((x(h := x h - 1))(h := Suc ((x(h := x h - 1)) h))) k" using inv call_ends by simp
  from call_continues_inv [OF call_ends(3) this] show ?thesis using call_ends by (simp add: io_inv_def)
qed (use inv in \<open>auto intro: sys_open_inv sys_close_inv sys_dup_inv sys_dup2_inv sys_pipe_inv sys_fork_inv sys_exit_inv call_inv\<close>)

lemma fd_run_inv: "fd_run (x, k) (y, k') \<Longrightarrow> fd_inv x k \<Longrightarrow> fd_inv y k'"
  by (induction "(y, k')" arbitrary: y k' rule: rtranclp_induct) (auto intro: fd_step_inv)

text \<open>A reference to the writing (reading) end of a pipe: a descriptor of a live process, or a call in progress.\<close>

definition end_referenced :: "(nat \<Rightarrow> nat) \<Rightarrow> kernel \<Rightarrow> bool \<Rightarrow> nat \<Rightarrow> bool" where
  "end_referenced x k w b \<longleftrightarrow> (\<exists>h. pipe_end (k_inodes k (fh_inode (k_handles k h))) = Some (w, b)
     \<and> (0 < x h \<or> (\<exists>r fd. live k r \<and> get_fd (k_procs k r) fd = Some h)))"

lemma referenced_iff:
  assumes inv: "fd_inv x k"
  shows "0 < k_handle_rc k h \<longleftrightarrow> 0 < x h \<or> (\<exists>r fd. live k r \<and> get_fd (k_procs k r) fd = Some h)"
proof -
  have "0 < fd_refs k h \<longleftrightarrow> (\<exists>r. live k r \<and> Some h \<in> set (p_fds (k_procs k r)))"
    unfolding fd_refs_def by (simp add: count_list_0_iff sum_nonneg_eq_0_iff neq0_conv [symmetric] del: neq0_conv)
  moreover have "Some h \<in> set (p_fds p) \<longleftrightarrow> (\<exists>fd. get_fd p fd = Some h)" for p
  proof
    assume "Some h \<in> set (p_fds p)"
    then obtain i where "i < length (p_fds p)" "p_fds p ! i = Some h" by (auto simp: in_set_conv_nth)
    then show "\<exists>fd. get_fd p fd = Some h" by (intro exI [of _ "int i"]) (simp add: get_fd_def)
  next
    assume "\<exists>fd. get_fd p fd = Some h"
    then show "Some h \<in> set (p_fds p)" by (auto simp: get_fd_def split: if_splits) (metis nth_mem)
  qed
  ultimately show ?thesis using fd_invD(2) [OF inv, of h] by auto
qed

lemma ends_open_iff:
  assumes inv: "fd_inv x k" and b: "b < k_npipes k"
  shows "ends_open w (k_pipes k b) = 0 \<longleftrightarrow> \<not> end_referenced x k w b"
proof -
  have "ends_open w (k_pipes k b) = 0 \<longleftrightarrow> open_ends k (w, b) = {}"
    using fd_invD(4) [OF inv] b by (simp add: ends_ok_def)
  also have "\<dots> \<longleftrightarrow> \<not> end_referenced x k w b"
    using fd_invD(3) [OF inv] unfolding end_referenced_def open_ends_def handles_ok_def referenced_iff [OF inv, symmetric] by blast
  finally show ?thesis .
qed

text \<open>
  C6: In every run of the calls that open, duplicate, close and inherit descriptors, and of reads and
  writes that may block, the counters of a pipe are exact: a reader of an empty pipe is told the end of file,
  and a writer is told that the pipe is broken, exactly when no live process has a descriptor for the other
  end and no call in progress uses it.
\<close>

theorem pipe_ends_exact:
  assumes inv: "fd_inv (\<lambda>_. 0) k" and run: "fd_run (\<lambda>_. 0, k) (x, k')" and b: "b < k_npipes k'"
  shows "fd_inv x k'
    \<and> (pb_len (k_pipes k' b) = 0 \<longrightarrow>
        ((\<exists>k''. PipeReadEnd_read_with_flags b n flags pid rsp k' = Done (Ok []) k'') \<longleftrightarrow> \<not> end_referenced x k' True b))
    \<and> ((\<exists>k''. PipeWriteEnd_write_with_flags b buf flags pid rsp k' = Done (Err EPIPE) k'') \<longleftrightarrow> \<not> end_referenced x k' False b)"
proof -
  have inv': "fd_inv x k'" using fd_run_inv [OF run inv] .
  have "(\<exists>k''. PipeReadEnd_read_with_flags b n flags pid rsp k' = Done (Ok []) k'') \<longleftrightarrow> ends_open True (k_pipes k' b) = 0"
    if "pb_len (k_pipes k' b) = 0"
    using that by (auto simp: PipeReadEnd_read_with_flags_def pipe_iteration_def pipe_read_section_def Let_def ends_open_def)
  moreover have "(\<exists>k''. PipeWriteEnd_write_with_flags b buf flags pid rsp k' = Done (Err EPIPE) k'') \<longleftrightarrow> ends_open False (k_pipes k' b) = 0"
    by (auto simp: PipeWriteEnd_write_with_flags_def pipe_iteration_def pipe_write_section_def Let_def ends_open_def posix_consts
        split: option.splits prod.splits)
  ultimately show ?thesis using ends_open_iff [OF inv' b] inv' by simp
qed

definition demo_fd_kernel :: kernel where
  "demo_fd_kernel = demo_kernel\<lparr> k_procs := (demo_procs(1 := (demo_procs 1)\<lparr> p_fds := [Some 0, Some 1] \<rparr>)),
     k_pipes := (\<lambda>_. PipeBuffer_new), k_npipes := 1, k_inodes := (\<lambda>_. DevNull)(0 := PipeReadEnd 0, 1 := PipeWriteEnd 0), k_ninodes := 2,
     k_handles := (\<lambda>h. FileHandle_new h (int h)), k_handle_rc := (\<lambda>h. if h < 2 then 1 else 0), k_nhandles := 2, k_root := None \<rparr>"

lemma demo_fd_inv: "fd_inv (\<lambda>_. 0) demo_fd_kernel"
proof -
  have live: "live demo_fd_kernel r \<longleftrightarrow> r \<in> {0, 1, 2, 3}" for r by (auto simp: live_def demo_fd_kernel_def demo_kernel_def)
  have "refs_live demo_fd_kernel" unfolding refs_live_def live by (auto simp: refs_def demo_fd_kernel_def demo_kernel_def split: if_splits)
  moreover have "fd_refs demo_fd_kernel h = k_handle_rc demo_fd_kernel h" for h
  proof -
    have fds: "p_fds (k_procs demo_fd_kernel r) = (if r = 1 then [Some 0, Some 1] else [])" for r
      by (simp add: demo_fd_kernel_def demo_procs_def Process_new_def)
    have "{r. live demo_fd_kernel r} = {0, 1, 2, 3}" using live by auto
    then show ?thesis unfolding fd_refs_def fds by (auto simp: demo_fd_kernel_def)
  qed
  moreover have "open_ends demo_fd_kernel (w, b) = (if b = 0 then {if w then 1 else 0} else {})" for w b
    by (auto simp: open_ends_def demo_fd_kernel_def FileHandle_new_def pipe_end_def split: if_splits)
  then have "ends_ok demo_fd_kernel" by (auto simp: ends_ok_def) (auto simp: demo_fd_kernel_def pipe_end_def split: if_splits)
  moreover have "handles_ok demo_fd_kernel" "paths_ok demo_fd_kernel"
    by (auto simp: handles_ok_def paths_ok_def demo_fd_kernel_def FileHandle_new_def children_def split: if_splits)
  ultimately show ?thesis by (simp add: fd_inv_def)
qed

theorem pipe_ends_exact_witness:
  "\<exists>k''. PipeReadEnd_read_with_flags 0 16 0 1 8192 (snd (sys_close 1 demo_fd_kernel)) = Done (Ok []) k''"
proof -
  let ?k = "snd (sys_close 1 demo_fd_kernel)"
  have run: "fd_run (\<lambda>_. 0, demo_fd_kernel) (\<lambda>_. 0, ?k)" by (intro r_into_rtranclp close)
  have p: "k_npipes ?k = 1" "k_inodes ?k = k_inodes demo_fd_kernel" "k_handles ?k = k_handles demo_fd_kernel" "pb_len (k_pipes ?k 0) = 0"
    "k_handle_rc ?k 1 = 0"
    by (simp_all add: sys_close_def get_current_process_def close_fd_def handle_drop_def PipeWriteEnd_drop_def drain_all_def wake_tasks_def Let_def
        upd_proc_def demo_fd_kernel_def demo_kernel_def FileHandle_new_def PipeBuffer_new_def saturating_sub_def)
  have "h = 1" if "pipe_end (k_inodes ?k (fh_inode (k_handles ?k h))) = Some (True, 0)" for h
    using that unfolding p by (auto simp: demo_fd_kernel_def FileHandle_new_def pipe_end_def split: if_splits)
  then have "\<not> end_referenced (\<lambda>_. 0) ?k True 0"
    using p(5) referenced_iff [OF fd_run_inv [OF run demo_fd_inv], of 1] by (auto simp: end_referenced_def)
  then show ?thesis using pipe_ends_exact [OF demo_fd_inv run, of 0 16 0 1 8192] p by simp
qed

end
