(* ===== verification/Fs_Calls.thy ===== *)
theory Fs_Calls
  imports Posix_Fs
begin

text \<open>
  What the system calls on files guarantee: the permission check of \<open>open\<close>, the files it creates, the
  enumeration of directories, and two places where the checks of the calls have gaps.
\<close>

subsection \<open>Permission to open\<close>

text \<open>
  The permission bits by class, as in the specification of file modes: the three bits of the class of the
  caller start at bit 6 for the owner, at bit 3 for the group, and at bit 0 for others.
\<close>

definition class_shift :: "VfsCreds \<Rightarrow> Stat \<Rightarrow> nat" where
  "class_shift c st = (if vc_euid c = st_uid st then 6 else if vc_egid c = st_gid st then 3 else 0)"

definition may_open :: "VfsCreds \<Rightarrow> Stat \<Rightarrow> i32 \<Rightarrow> bool" where
  "may_open c st flags \<longleftrightarrow> vc_euid c = 0
     \<or> (flags AND O_WRONLY = 0 \<longrightarrow> bit (st_mode st) (class_shift c st + 2))
       \<and> (flags AND O_WRONLY \<noteq> 0 \<or> flags AND O_RDWR \<noteq> 0 \<longrightarrow> bit (st_mode st) (class_shift c st + 1))"

lemma perm_bits:
  fixes m :: u32
  shows "m AND S_IRUSR \<noteq> 0 \<longleftrightarrow> bit m 8" "m AND S_IWUSR \<noteq> 0 \<longleftrightarrow> bit m 7" "m AND S_IRGRP \<noteq> 0 \<longleftrightarrow> bit m 5"
    "m AND S_IWGRP \<noteq> 0 \<longleftrightarrow> bit m 4" "m AND S_IROTH \<noteq> 0 \<longleftrightarrow> bit m 2" "m AND S_IWOTH \<noteq> 0 \<longleftrightarrow> bit m 1"
  using and_exp_eq_0_iff_not_bit [of m 8] and_exp_eq_0_iff_not_bit [of m 7] and_exp_eq_0_iff_not_bit [of m 5]
    and_exp_eq_0_iff_not_bit [of m 4] and_exp_eq_0_iff_not_bit [of m 2] and_exp_eq_0_iff_not_bit [of m 1]
  by (simp_all add: S_IRUSR_def S_IWUSR_def S_IRGRP_def S_IWGRP_def S_IROTH_def S_IWOTH_def)

text \<open>The state after \<open>stat\<close>, which for generated files refreshes the monitor.\<close>

lemma inode_stat_Ok: "\<exists>st. fst (inode_stat i k) = Ok st"
  by (cases "k_inodes k i") (simp_all add: inode_stat_def Let_def case_prod_beta)

lemma check_inode_permission_iff:
  assumes "fst (inode_stat i k) = Ok st"
  shows "fst (check_inode_permission i c flags k) = (if may_open c st flags then Ok () else Err EACCES)"
proof -
  obtain k' where k': "inode_stat i k = (Ok st, k')" using assms by (cases "inode_stat i k") simp
  show ?thesis
    unfolding check_inode_permission_def k' Let_def perm_bits is_root_def
    by (auto simp: may_open_def class_shift_def numeral_eq_Suc)
qed

lemma inode_stat_monitor: "\<exists>m. snd (inode_stat i k) = k\<lparr> k_monitor := m \<rparr>"
proof -
  have "\<exists>m. snd (generate_content kind k) = k\<lparr> k_monitor := m \<rparr>" for kind
    by (auto simp: generate_content_def update_system_metrics_def Let_def split: prod.split)
  moreover have "\<exists>m. k = k\<lparr> k_monitor := m \<rparr>" by (rule exI [of _ "k_monitor k"]) simp
  ultimately show ?thesis
    by (cases "k_inodes k i") (simp_all add: inode_stat_def ProcDynamicFile_stat_def Let_def case_prod_beta)
qed

lemma check_inode_permission_monitor: "\<exists>m. snd (check_inode_permission i c flags k) = k\<lparr> k_monitor := m \<rparr>"
proof -
  have "snd (check_inode_permission i c flags k) = (if is_root c then k else snd (inode_stat i k))"
    by (simp add: check_inode_permission_def Let_def split: prod.split kres.split)
  moreover have "\<exists>m. k = k\<lparr> k_monitor := m \<rparr>" by (rule exI [of _ "k_monitor k"]) simp
  ultimately show ?thesis using inode_stat_monitor [of i k] by presburger
qed

definition truncates :: "i32 \<Rightarrow> bool" where
  "truncates flags \<longleftrightarrow> flags AND O_TRUNC \<noteq> 0 \<and> (flags AND O_WRONLY \<noteq> 0 \<or> flags AND O_RDWR \<noteq> 0)"

definition truncated :: "Inode \<Rightarrow> Inode" where
  "truncated i = (case i of RamFile f \<Rightarrow> RamFile (f\<lparr> rf_data := [] \<rparr>) | _ \<Rightarrow> i)"

lemma set_inode_same: "k_inodes k i = j \<Longrightarrow> set_inode i j k = k"
  by (auto simp: set_inode_def)

lemma inode_truncate_eq: "snd (inode_truncate i k) = set_inode i (truncated (k_inodes k i)) k"
  by (cases "k_inodes k i") (simp_all add: inode_truncate_def truncated_def RamFsFile_truncate_def set_inode_same)

lemma open_existing_eq:
  assumes st: "fst (inode_stat i k) = Ok st"
  shows "\<exists>m. open_existing i c flags k =
    (if may_open c st flags
     then (Ok (), (if truncates flags then set_inode i (truncated (k_inodes k i)) (k\<lparr> k_monitor := m \<rparr>) else k\<lparr> k_monitor := m \<rparr>))
     else (Err EACCES, k\<lparr> k_monitor := m \<rparr>))"
proof -
  obtain m where "check_inode_permission i c flags k = (if may_open c st flags then Ok () else Err EACCES, k\<lparr> k_monitor := m \<rparr>)"
    using check_inode_permission_iff [OF st] check_inode_permission_monitor by (metis prod.collapse)
  then show ?thesis by (intro exI [of _ m]) (simp add: open_existing_def truncates_def inode_truncate_eq)
qed

lemma open_existing_spec:
  assumes cur: "get_current_process k = Some r" and path: "copy_user_path (k_cr3 k) ptr (k_mm k) = Ok path"
    and ex: "resolve_path (p_cwd (k_procs k r)) path k = Ok i" and excl: "flags AND O_CREAT = 0 \<or> flags AND O_EXCL = 0"
    and st: "fst (inode_stat i k) = Ok st"
  shows "\<exists>fd k'. sys_open ptr flags mode k = Some (fd, k') \<and>
    (if may_open (creds_of (k_procs k r)) st flags
     then 0 \<le> fd \<and> get_fd (k_procs k r) fd = None \<and> get_fd (k_procs k' r) fd = Some (k_nhandles k)
       \<and> (\<forall>d. d \<noteq> fd \<longrightarrow> get_fd (k_procs k' r) d = get_fd (k_procs k r) d)
       \<and> k_handles k' (k_nhandles k) = FileHandle_new i flags
       \<and> k_inodes k' = (k_inodes k)(i := if truncates flags then truncated (k_inodes k i) else k_inodes k i)
     else fd = - EACCES \<and> k_inodes k' = k_inodes k \<and> k_procs k' = k_procs k \<and> k_handles k' = k_handles k)"
proof -
  let ?p = "k_procs k r" and ?n = "k_nhandles k"
  have oi: "open_inode (creds_of ?p) (p_cwd ?p) path flags mode k = (Ok (i, False), k)" using ex excl by (auto simp: open_inode_def)
  obtain m where m: "open_existing i (creds_of ?p) flags k =
    (if may_open (creds_of ?p) st flags
     then (Ok (), (if truncates flags then set_inode i (truncated (k_inodes k i)) (k\<lparr> k_monitor := m \<rparr>) else k\<lparr> k_monitor := m \<rparr>))
     else (Err EACCES, k\<lparr> k_monitor := m \<rparr>))" using open_existing_eq [OF st] by blast
  obtain fd q where q: "alloc_fd ?p ?n = (fd, q)" by fastforce
  note A = alloc_fd_spec [OF q]
  show ?thesis
  proof (cases "may_open (creds_of ?p) st flags")
    case True
    define ka where "ka = (if truncates flags then set_inode i (truncated (k_inodes k i)) (k\<lparr> k_monitor := m \<rparr>) else k\<lparr> k_monitor := m \<rparr>)"
    have ka: "k_procs ka = k_procs k" "k_nhandles ka = ?n" "k_inodes ka = (k_inodes k)(i := if truncates flags then truncated (k_inodes k i) else k_inodes k i)"
      by (simp_all add: ka_def set_inode_def)
    have oe: "open_existing i (creds_of ?p) flags k = (Ok (), ka)" using m True by (simp add: ka_def)
    have "sys_open ptr flags mode k = Some (fd, upd_proc r (\<lambda>_. q) (snd (handle_alloc (FileHandle_new i flags) ka)))"
      using q by (simp add: sys_open_def with_path_def cur path oi oe handle_alloc_def ka Let_def)
    then show ?thesis using A True by (simp add: handle_alloc_def ka)
  next
    case False
    then show ?thesis using m by (simp add: sys_open_def with_path_def cur path oi Let_def)
  qed
qed

text \<open>
  C24: Opening an existing file, other than for exclusive creation, succeeds exactly when the caller is the superuser or the mode of the
  file grants its class every access the flags ask for. On success a descriptor that was free refers to the file at
  offset 0, and the file is emptied if truncation was asked for with write access; on refusal \<open>EACCES\<close> is
  returned and no file, process or description changes.
\<close>

theorem open_checks_permission:
  assumes cur: "get_current_process k = Some r" and path: "copy_user_path (k_cr3 k) ptr (k_mm k) = Ok path"
    and ex: "resolve_path (p_cwd (k_procs k r)) path k = Ok i" and excl: "flags AND O_CREAT = 0 \<or> flags AND O_EXCL = 0"
    and st: "fst (inode_stat i k) = Ok st"
  shows "\<exists>fd k'. sys_open ptr flags mode k = Some (fd, k') \<and>
    (if may_open (creds_of (k_procs k r)) st flags
     then 0 \<le> fd \<and> get_fd (k_procs k r) fd = None \<and> get_fd (k_procs k' r) fd = Some (k_nhandles k)
       \<and> (\<forall>d. d \<noteq> fd \<longrightarrow> get_fd (k_procs k' r) d = get_fd (k_procs k r) d)
       \<and> k_handles k' (k_nhandles k) = FileHandle_new i flags
       \<and> k_inodes k' = (k_inodes k)(i := if truncates flags then truncated (k_inodes k i) else k_inodes k i)
     else fd = - EACCES \<and> k_inodes k' = k_inodes k \<and> k_procs k' = k_procs k \<and> k_handles k' = k_handles k)"
  using open_existing_spec [OF assms] .

text \<open>For the witnesses: a string in the memory of the demonstration process, and a caller with given identifiers.\<close>

definition demo_str :: "bytes \<Rightarrow> mmu" where
  "demo_str bs = the (user_store 8192 0x400000 (bs @ [0]) demo_mapped)"

lemma demo_str_stored: "stored {8192} 8192 0x400000 (bs @ [0]) demo_mapped (demo_str bs)" if "length bs < 4095"
proof -
  have tr: "\<forall>i < length (bs @ [0]). translate (mem demo_mapped) 8192 (0x400000 + i) \<noteq> None"
    using that by (intro allI impI demo_mapped_ok(2)) simp_all
  have "(0x400000 :: nat) + length (bs @ [0]) \<le> USER_SPACE_END" using that by (simp add: USER_SPACE_END_def)
  from user_store_spec [OF demo_mapped(1) this tr] show ?thesis by (auto simp: demo_str_def)
qed

lemma demo_str_path:
  assumes bs: "0 \<notin> set bs" "length bs < 4095" "from_utf8_ok bs"
  shows "copy_user_path 8192 0x400000 (demo_str bs) = Ok (str_of bs)"
proof -
  note st = demo_str_stored [OF bs(2)]
  then have inv: "vm_inv {8192} 8192 (demo_str bs)" by (simp add: stored_def)
  have "cstr_at 8192 (demo_str bs) 0x400000 bs"
    unfolding cstr_at_def
  proof (intro conjI allI impI)
    show "0x400000 + length bs < USER_SPACE_END" using bs(2) by (simp add: USER_SPACE_END_def)
    show "0 \<notin> set bs" by (rule bs(1))
    fix i assume i: "i \<le> length bs"
    then have x: "0x400000 + i < (0x401000 :: nat)" "0x400000 + i < USER_SPACE_END" using bs(2) by (simp_all add: USER_SPACE_END_def)
    have "user_ok 8192 demo_mapped False (0x400000 + i)" using x by (intro demo_mapped_ok(1)) simp_all
    then show "user_ok 8192 (demo_str bs) False (0x400000 + i)" using st by (simp add: user_ok_def stored_def)
    show "user_get 8192 (demo_str bs) (0x400000 + i) = Some ((bs @ [0]) ! i)" using st x(2) i by (simp add: stored_def)
  qed
  moreover obtain res where res: "cstr_loop 8192 0x400000 [] USER_STR_MAX (demo_str bs) = Some res"
    "\<And>cs. res = Inr cs \<longleftrightarrow> length cs < USER_STR_MAX \<and> cstr_at 8192 (demo_str bs) 0x400000 cs"
    using cstr_loop_spec [OF inv, of "0x400000" "[]" USER_STR_MAX] by (auto simp: USER_SPACE_END_def)
  ultimately have "res = Inr bs" using bs(2) by (simp add: USER_STR_MAX_def)
  then have "copy_cstr_from_user 8192 0x400000 USER_STR_MAX (demo_str bs) = Some (Inr bs)"
    using res(1) by (simp add: copy_cstr_from_user_def USER_SPACE_END_def)
  then show ?thesis using bs(3) by (simp add: copy_user_path_def)
qed

definition demo_caller :: "bytes \<Rightarrow> u32 \<Rightarrow> kernel" where
  "demo_caller path euid = demo_fs\<lparr> k_cr3 := 8192, k_mm := demo_str path,
     k_procs := (\<lambda>r. (k_procs demo_fs r)\<lparr> p_euid := euid, p_egid := euid \<rparr>) \<rparr>"

lemma demo_caller:
  "get_current_process (demo_caller path euid) = Some 1" "k_inodes (demo_caller path euid) = k_inodes demo_fs"
  "k_root (demo_caller path euid) = Some 0" "p_cwd (k_procs (demo_caller path euid) 1) = ''/''" "k_cr3 (demo_caller path euid) = 8192"
  "k_mm (demo_caller path euid) = demo_str path" "k_ninodes (demo_caller path euid) = 3" "k_nhandles (demo_caller path euid) = k_nhandles demo_fs"
  "creds_of (k_procs (demo_caller path euid) 1) = VfsCreds_new 0 0 euid euid 0x12"
  by (simp_all add: demo_caller_def get_current_process_def demo_fs_def demo_kernel_def demo_procs_def Process_new_def creds_of_def)

lemma demo_caller_entry: "entry (demo_caller path euid) = entry demo_fs"
  by (simp add: entry_def demo_caller fun_eq_iff)

lemma demo_caller_resolve: "resolve_path ''/'' ''/a'' (demo_caller path euid) = Ok 1"
proof -
  have "path_parts (normalize_path ''/'' ''/a'') = [''a'']" by code_simp
  then show ?thesis
    by (simp add: resolve_path_walk [OF demo_caller(3)] inode_lookup_entry demo_caller_entry) (simp add: entry_def demo_fs_simps demo_root_get)
qed

lemma demo_str_a: "from_utf8_ok [47, 97]" "str_of [47, 97] = ''/a''"
  by code_simp+

theorem open_checks_permission_witness:
  "\<exists>k'. sys_open 0x400000 O_WRONLY 0 (demo_caller [47, 97] 7) = Some (- EACCES, k')"
proof -
  let ?k = "demo_caller [47, 97] 7"
  have path: "copy_user_path (k_cr3 ?k) 0x400000 (k_mm ?k) = Ok ''/a''"
    unfolding demo_caller using demo_str_path [of "[47, 97]"] demo_str_a by simp
  have ex: "resolve_path (p_cwd (k_procs ?k 1)) ''/a'' ?k = Ok 1" unfolding demo_caller by (rule demo_caller_resolve)
  have st: "fst (inode_stat 1 ?k) = Ok (RamFsFile_stat (RamFsFile_new [104, 105]))" by (simp add: inode_stat_def demo_caller demo_fs_simps [simplified])
  have "\<not> may_open (creds_of (k_procs ?k 1)) (RamFsFile_stat (RamFsFile_new [104, 105])) O_WRONLY"
    unfolding demo_caller by code_simp
  then show ?thesis
    using open_checks_permission [OF demo_caller(1) path ex _ st, of O_WRONLY 0] by (auto simp: O_WRONLY_def O_CREAT_def)
qed

subsection \<open>Access through descriptors\<close>

text \<open>
  The access mode of a descriptor is not checked by \<open>read\<close>: a caller without permission to read a
  file, but with permission to write it, opens it for writing only and reads all of its contents through the
  descriptor.
\<close>

theorem write_only_descriptor_reads:
  assumes cur: "get_current_process k = Some r" and path: "copy_user_path (k_cr3 k) ptr (k_mm k) = Ok path"
    and ex: "resolve_path (p_cwd (k_procs k r)) path k = Ok i" and reg: "k_inodes k i = RamFile f"
    and no_read: "\<not> may_open (creds_of (k_procs k r)) (RamFsFile_stat f) O_RDONLY"
    and may_write: "may_open (creds_of (k_procs k r)) (RamFsFile_stat f) O_WRONLY" and len: "length (rf_data f) < USIZE_LIMIT"
  shows "(\<exists>k'. sys_open ptr O_RDONLY mode k = Some (- EACCES, k'))
    \<and> (\<exists>fd k' h k''. sys_open ptr O_WRONLY mode k = Some (fd, k') \<and> get_fd (k_procs k' r) fd = Some h
        \<and> FileHandle_read h (length (rf_data f)) pid rsp k' = Done (Ok (rf_data f)) k'')"
proof -
  have st: "fst (inode_stat i k) = Ok (RamFsFile_stat f)" by (simp add: inode_stat_def reg)
  have nc: "O_RDONLY AND O_CREAT = 0 \<or> O_RDONLY AND O_EXCL = 0" "O_WRONLY AND O_CREAT = 0 \<or> O_WRONLY AND O_EXCL = 0"
    by (simp_all add: O_RDONLY_def O_WRONLY_def O_CREAT_def)
  have nt: "\<not> truncates O_WRONLY" by (simp add: truncates_def O_WRONLY_def O_TRUNC_def)
  obtain fd k' where o: "sys_open ptr O_WRONLY mode k = Some (fd, k')" "get_fd (k_procs k' r) fd = Some (k_nhandles k)"
    "k_handles k' (k_nhandles k) = FileHandle_new i O_WRONLY" "k_inodes k' i = RamFile f"
    using open_existing_spec [OF cur path ex nc(2) st, of mode] may_write nt reg by auto
  have "FileHandle_read (k_nhandles k) (length (rf_data f)) pid rsp k' = Done (Ok (rf_data f)) (set_offset (k_nhandles k) (length (rf_data f)) k')"
    using o len by (simp add: FileHandle_read_def Let_def FileHandle_new_def inode_read_with_flags_def RamFsFile_read_def)
  then show ?thesis using o open_existing_spec [OF cur path ex nc(1) st, of mode] no_read by auto
qed

theorem write_only_descriptor_reads_witness:
  "\<exists>fd k' h k''. sys_open 0x400000 O_WRONLY 0 (set_inode 1 (RamFile (RamFsFile_new_with_creds [104, 105] 0x92 0 0)) (demo_caller [47, 97] 7)) = Some (fd, k')
    \<and> get_fd (k_procs k' 1) fd = Some h \<and> FileHandle_read h 2 1 0 k' = Done (Ok [104, 105]) k''"
proof -
  let ?f = "RamFsFile_new_with_creds [104, 105] 0x92 0 0"
  let ?k = "set_inode 1 (RamFile ?f) (demo_caller [47, 97] 7)"
  have s: "get_current_process ?k = Some 1" "k_inodes ?k 1 = RamFile ?f" "k_procs ?k = k_procs (demo_caller [47, 97] 7)"
    using demo_caller(1) [of "[47, 97]" 7] by (simp_all add: set_inode_def get_current_process_def)
  have path: "copy_user_path (k_cr3 ?k) 0x400000 (k_mm ?k) = Ok ''/a''"
    using demo_str_path [of "[47, 97]"] demo_str_a by (simp add: set_inode_def demo_caller)
  have "path_parts (normalize_path ''/'' ''/a'') = [''a'']" by code_simp
  then have ex: "resolve_path (p_cwd (k_procs ?k 1)) ''/a'' ?k = Ok 1"
    unfolding s demo_caller
    by (subst resolve_path_walk [of _ 0]) (simp_all add: set_inode_def demo_caller inode_lookup_entry entry_def demo_fs_simps demo_root_get)
  have perm: "\<not> may_open (creds_of (k_procs ?k 1)) (RamFsFile_stat ?f) O_RDONLY" "may_open (creds_of (k_procs ?k 1)) (RamFsFile_stat ?f) O_WRONLY"
    unfolding s demo_caller by code_simp+
  have f: "rf_data ?f = [104, 105]" "length (rf_data ?f) = 2" by (simp_all add: RamFsFile_new_with_creds_def)
  then have len: "length (rf_data ?f) < USIZE_LIMIT" by (simp add: USIZE_LIMIT_def)
  from write_only_descriptor_reads [OF s(1) path ex s(2) perm len, of 0 1 0] show ?thesis unfolding f(2) unfolding f(1) by blast
qed

subsection \<open>Files that \<open>open\<close> creates\<close>

lemma creds_of_simps [simp]:
  "vc_uid (creds_of p) = p_uid p" "vc_euid (creds_of p) = p_euid p" "vc_egid (creds_of p) = p_egid p" "vc_umask (creds_of p) = p_umask p"
  by (simp_all add: creds_of_def VfsCreds_new_def)

lemma follow_mono:
  assumes mono: "\<And>r c i. entry k r c = Some i \<Longrightarrow> entry k' r c = Some i"
  shows "follow k r cs = Some i \<Longrightarrow> follow k' r cs = Some i"
  by (induction cs arbitrary: r) (auto simp: mono split: option.splits)

text \<open>
  When the path names nothing and its parent is a directory, \<open>open\<close> with \<open>O_CREAT\<close> creates an empty
  regular file owned by the effective user and group, with the requested permissions less the bits of the
  umask; the path resolves to it, every path that resolved before still resolves to the same inode, the
  returned descriptor refers to it, and the creation is recorded in the audit journal.
\<close>

theorem open_creates_file:
  assumes cur: "get_current_process k = Some r" and path: "copy_user_path (k_cr3 k) ptr (k_mm k) = Ok path"
    and no: "resolve_path (p_cwd (k_procs k r)) path k = Err ENOENT" and creat: "flags AND O_CREAT \<noteq> 0"
    and parent: "resolve_parent_and_basename (p_cwd (k_procs k r)) path k = Ok (p, b)"
    and fresh: "\<forall>i d. k_ninodes k \<le> i \<longrightarrow> k_inodes k i \<noteq> RamDir d"
  shows "\<exists>fd k'. sys_open ptr flags mode k = Some (fd, k') \<and> 0 \<le> fd
    \<and> get_fd (k_procs k' r) fd = Some (k_nhandles k) \<and> k_handles k' (k_nhandles k) = FileHandle_new (k_ninodes k) flags
    \<and> k_inodes k' (k_ninodes k) = RamFile \<lparr> rf_data = [], rf_mode = (ucast mode AND 0x1FF) AND NOT (ucast (p_umask (k_procs k r))),
         rf_uid = p_euid (k_procs k r), rf_gid = p_egid (k_procs k r) \<rparr>
    \<and> resolve_path (p_cwd (k_procs k r)) path k' = Ok (k_ninodes k)
    \<and> (\<forall>cwd q j. resolve_path cwd q k = Ok j \<longrightarrow> resolve_path cwd q k' = Ok j)
    \<and> ae_target (last (get_audit_events k')) = path \<and> ae_event_type (last (get_audit_events k')) = AUDIT_TYPE_FILE_CREATE"
proof -
  let ?pr = "k_procs k r" and ?n = "k_ninodes k"
  obtain root where root: "k_root k = Some root" "path_parts (normalize_path (p_cwd ?pr) path) = butlast (path_parts (normalize_path (p_cwd ?pr) path)) @ [b]"
    "walk root (butlast (path_parts (normalize_path (p_cwd ?pr) path))) k = Ok p" using resolve_parent_walk [OF parent] .
  let ?ps = "path_parts (normalize_path (p_cwd ?pr) path)"
  have "walk root ?ps k = walk p [b] k" by (subst root(2)) (simp add: walk_append root(3))
  then have "walk p [b] k = Err ENOENT" using no resolve_path_walk [OF root(1)] by metis
  then obtain d where d: "k_inodes k p = RamDir d" "bt_get (rd_entries d) b = None"
    by (auto simp: inode_lookup_def RamFsDir_lookup_def ok_or_def posix_consts split: Inode.splits option.splits kres.splits)
  then have pn: "p \<noteq> ?n" using fresh by auto
  let ?f = "RamFsFile_new_with_creds [] (creation_mode (creds_of ?pr) mode) (p_euid ?pr) (p_egid ?pr)"
  define ka where "ka = set_inode p (RamDir (add_child b ?n d)) (snd (inode_alloc (RamFile ?f) k))"
  have ka: "k_inodes ka = (k_inodes k)(?n := RamFile ?f, p := RamDir (add_child b ?n d))" "k_procs ka = k_procs k" "k_nhandles ka = k_nhandles k" "k_root ka = k_root k"
    using pn by (auto simp: ka_def inode_alloc_def set_inode_def)
  have oi: "open_inode (creds_of ?pr) (p_cwd ?pr) path flags mode k = (Ok (?n, True), ka)"
    using no parent creat d by (simp add: open_inode_def inode_create_file_def create_file_eq ka_def)
  obtain fd q where q: "alloc_fd ?pr (k_nhandles k) = (fd, q)" by fastforce
  define kb where "kb = upd_proc r (\<lambda>_. q) (snd (handle_alloc (FileHandle_new ?n flags) ka))"
  define k' where "k' = snd (log_audit_event (p_pid ?pr) (p_uid ?pr) AUDIT_TYPE_FILE_CREATE 0 path ''File created via open(O_CREAT)'' kb)"
  have o: "sys_open ptr flags mode k = Some (fd, k')"
    using q by (simp add: sys_open_def with_path_def cur path oi handle_alloc_def ka(2,3) Let_def k'_def kb_def)
  have k': "k_inodes k' = k_inodes ka" "k_root k' = k_root k" "k_procs k' r = q" "k_handles k' (k_nhandles k) = FileHandle_new ?n flags"
    by (simp_all add: k'_def kb_def log_audit_event_def Let_def upd_proc_def handle_alloc_def ka)
  have mono: "entry k s c = Some j \<Longrightarrow> entry k' s c = Some j" for s c j
    using d fresh pn by (auto simp: entry_def k' ka add_child_def split: Inode.splits if_splits)
  have res: "resolve_path cwd y k = Ok j \<Longrightarrow> resolve_path cwd y k' = Ok j" for cwd y j
    using resolve_path_walk [OF root(1), of cwd y] resolve_path_walk [of k' root cwd y] root(1) k'(2) follow_mono [OF mono] by (simp add: walk_follow)
  have "walk root (butlast ?ps) k' = Ok p" using follow_mono [OF mono] root(3) by (simp add: walk_follow)
  moreover have "inode_lookup p b k' = Ok ?n" by (simp add: inode_lookup_def k' ka RamFsDir_lookup_def add_child_def ok_or_def)
  ultimately have "walk root (butlast ?ps @ [b]) k' = Ok ?n" by (simp add: walk_append)
  then have new: "resolve_path (p_cwd ?pr) path k' = Ok ?n" using root(1,2) k'(2) resolve_path_walk [of k' root] by metis
  have "last (get_audit_events k') = \<lparr> ae_seq = k_event_seq kb, ae_timestamp_ticks = sm_sample_tick (k_monitor kb), ae_pid = p_pid ?pr,
      ae_uid = p_uid ?pr, ae_event_type = AUDIT_TYPE_FILE_CREATE, ae_status = 0, ae_target = path, ae_details = ''File created via open(O_CREAT)'' \<rparr>"
    by (simp add: k'_def log_audit_event_def Let_def get_audit_events_def journal_append_def)
  then show ?thesis
    using o alloc_fd_spec [OF q] k' ka pn new res
    by (auto simp: RamFsFile_new_with_creds_def creation_mode_def)
qed

theorem open_creates_file_witness:
  "\<exists>fd k'. sys_open 0x400000 (O_CREAT OR O_RDWR) 0x1B6 (demo_caller [47, 98] 7) = Some (fd, k') \<and> resolve_path ''/'' ''/b'' k' = Ok 3
    \<and> k_inodes k' 3 = RamFile \<lparr> rf_data = [], rf_mode = 0x1A4, rf_uid = 7, rf_gid = 7 \<rparr> \<and> resolve_path ''/'' ''/a'' k' = Ok 1"
proof -
  let ?k = "demo_caller [47, 98] 7"
  have s: "from_utf8_ok [47, 98]" "str_of [47, 98] = ''/b''" "path_parts (normalize_path ''/'' ''/b'') = [''b'']" by code_simp+
  then have "normalize_path ''/'' ''/b'' \<noteq> ''/''" using normalize_root_parts [of "''/''" "''/b''"] by simp
  have path: "copy_user_path (k_cr3 ?k) 0x400000 (k_mm ?k) = Ok ''/b''" unfolding demo_caller using demo_str_path [of "[47, 98]"] s by simp
  have none: "entry demo_fs 0 ''b'' = None" "k_inodes demo_fs 0 = RamDir demo_root" by (simp_all add: entry_def demo_fs_simps demo_root_get)
  have no: "resolve_path (p_cwd (k_procs ?k 1)) ''/b'' ?k = Err ENOENT"
    unfolding demo_caller resolve_path_walk [OF demo_caller(3)] s(3) by (simp add: inode_lookup_entry demo_caller_entry none demo_caller)
  have parent: "resolve_parent_and_basename (p_cwd (k_procs ?k 1)) ''/b'' ?k = Ok (0, ''b'')"
    unfolding demo_caller using \<open>normalize_path _ _ \<noteq> _\<close> by (simp add: resolve_parent_and_basename_def s(3) demo_caller Let_def)
  have fresh: "\<forall>i d. k_ninodes ?k \<le> i \<longrightarrow> k_inodes ?k i \<noteq> RamDir d" unfolding demo_caller by (auto simp: demo_fs_def)
  have creat: "(O_CREAT OR O_RDWR) AND O_CREAT \<noteq> 0" by (simp add: O_CREAT_def O_RDWR_def)
  have pr: "p_umask (k_procs ?k 1) = 0x12" "p_euid (k_procs ?k 1) = 7" "p_egid (k_procs ?k 1) = 7"
    by (simp_all add: demo_caller_def demo_fs_def demo_kernel_def demo_procs_def Process_new_def)
  have mode: "((ucast (0x1B6 :: u32) :: u16) AND 0x1FF) AND NOT (ucast (0x12 :: u32)) = 0x1A4" by code_simp
  have old: "resolve_path ''/'' ''/a'' ?k = Ok 1" by (rule demo_caller_resolve)
  from open_creates_file [OF demo_caller(1) path no creat parent fresh, where mode = "0x1B6"] old show ?thesis
    unfolding pr mode demo_caller by blast
qed

subsection \<open>Removing entries\<close>

text \<open>
  \<open>unlink\<close> removes exactly the entry the path names, whoever calls it and whatever the entry is: there is no
  check of the permissions of the directory, and a directory is removed with everything below it, which stays in
  place but is no longer reachable through the removed name.
\<close>

theorem unlink_removes_anything:
  assumes cur: "get_current_process k = Some r" and path: "copy_user_path (k_cr3 k) ptr (k_mm k) = Ok path"
    and parent: "resolve_parent_and_basename (p_cwd (k_procs k r)) path k = Ok (p, b)" and i: "entry k p b = Some i"
  shows "\<exists>k'. sys_unlink ptr k = Some (0, k') \<and> entry k' = (entry k)(p := (entry k p)(b := None)) \<and> (\<forall>j. j \<noteq> p \<longrightarrow> k_inodes k' j = k_inodes k j)"
proof -
  obtain d where d: "k_inodes k p = RamDir d" "bt_get (rd_entries d) b = Some i" using i by (auto simp: entry_def split: Inode.splits)
  define d' where "d' = d\<lparr> rd_entries := bt_remove b (rd_entries d), rd_subdirs := bt_remove b (rd_subdirs d), rd_entry_count := atomic_dec (rd_entry_count d) \<rparr>"
  have u: "inode_unlink p b k = (Ok (), set_inode p (RamDir d') k)" using d by (simp add: inode_unlink_def RamFsDir_unlink_def d'_def)
  obtain k' where k': "sys_unlink ptr k = Some (0, k')" "k_inodes k' = (k_inodes k)(p := RamDir d')"
    by (simp add: sys_unlink_def with_path_def cur path parent u audited_def log_audit_event_def Let_def set_inode_def)
  moreover have "entry k' = (entry k)(p := (entry k p)(b := None))"
    using d k'(2) by (auto simp: entry_def fun_eq_iff d'_def)
  ultimately show ?thesis by (intro exI [of _ k']) simp
qed

theorem unlink_removes_anything_witness:
  "\<exists>k'. sys_unlink 0x400000 (set_inode 2 (RamDir (add_child ''x'' 1 RamFsDir_new)) (demo_caller [47, 100] 7)) = Some (0, k') \<and> entry k' 0 ''d'' = None"
proof -
  let ?k = "set_inode 2 (RamDir (add_child ''x'' 1 RamFsDir_new)) (demo_caller [47, 100] 7)"
  have s: "from_utf8_ok [47, 100]" "str_of [47, 100] = ''/d''" "path_parts (normalize_path ''/'' ''/d'') = [''d'']" by code_simp+
  then have "normalize_path ''/'' ''/d'' \<noteq> ''/''" using normalize_root_parts [of "''/''" "''/d''"] by simp
  have k: "get_current_process ?k = Some 1" "k_procs ?k = k_procs (demo_caller [47, 100] 7)" "k_cr3 ?k = 8192" "k_mm ?k = demo_str [47, 100]" "k_root ?k = Some 0"
    using demo_caller [of "[47, 100]" 7] by (simp_all add: set_inode_def get_current_process_def)
  have path: "copy_user_path (k_cr3 ?k) 0x400000 (k_mm ?k) = Ok ''/d''" unfolding k using demo_str_path [of "[47, 100]"] s by simp
  have parent: "resolve_parent_and_basename (p_cwd (k_procs ?k 1)) ''/d'' ?k = Ok (0, ''d'')"
    unfolding k demo_caller using \<open>normalize_path _ _ \<noteq> _\<close> by (simp add: resolve_parent_and_basename_def s(3) k [simplified] Let_def)
  have "entry ?k 0 ''d'' = Some 2" by (simp add: entry_def demo_caller demo_fs_simps demo_root_get)
  from unlink_removes_anything [OF k(1) path parent this] show ?thesis by auto
qed

end
