(* ===== verification/Posix_Mem.thy ===== *)
theory Posix_Mem
  imports Scheduler Vmm
begin

text \<open>
  The system calls on virtual memory (\<^verbatim>\<open>services/posix/mem.rs\<close>), on the address space of the calling process: the
  adapter that \<open>sys_mmap\<close> hands to \<open>mmap_allocate\<close> is \<open>vm_ops\<close>.
\<close>

subsection \<open>The calls\<close>

definition set_vm :: "nat \<Rightarrow> VmSpace \<Rightarrow> usize \<Rightarrow> mmu \<Rightarrow> kernel \<Rightarrow> kernel" where
  "set_vm r vm nx s k = upd_proc r (\<lambda>p. p\<lparr> p_vm_space := Some vm, p_mmap_next_vaddr := nx \<rparr>) (k\<lparr> k_mm := s \<rparr>)"

text \<open>The area recorded for a mapping of \<open>length\<close> bytes at \<open>vaddr\<close>.\<close>

definition record_area :: "VmSpace \<Rightarrow> usize \<Rightarrow> usize \<Rightarrow> i32 \<Rightarrow> i32 \<Rightarrow> VmSpace" where
  "record_area vm vaddr len prot flags =
    (case checked_mul (div_ceil len PAGE_SIZE) PAGE_SIZE of
       None \<Rightarrow> vm
     | Some byte_len \<Rightarrow>
        (case checked_add vaddr byte_len of
           None \<Rightarrow> vm
         | Some end_vaddr \<Rightarrow> vm\<lparr> vmas := insert_vma (vmas vm) vaddr end_vaddr (word_of_int prot) (word_of_int flags) \<rparr>))"

definition sys_mmap :: "usize \<Rightarrow> usize \<Rightarrow> i32 \<Rightarrow> i32 \<Rightarrow> kernel \<Rightarrow> (int \<times> kernel) option" where
  "sys_mmap addr len prot flags k =
    (case get_current_process k of
       None \<Rightarrow> Some (- ESRCH, k)
     | Some r \<Rightarrow>
        let p = k_procs k r; (_, free_frames) = get_pmm_stats (Some (pmm (k_mm k))) in
        case p_vm_space p of
          None \<Rightarrow> Some (- ENOMEM, k)
        | Some vm \<Rightarrow>
           (case mmap_allocate (vm_ops (address_space vm)) addr len prot USER_SPACE_END free_frames (p_mmap_next_vaddr p) (k_mm k) of
              (Ok vaddr, nx, s) \<Rightarrow> Some (int vaddr, set_vm r (record_area vm vaddr len prot flags) nx s k)
            | (Err e, nx, s) \<Rightarrow> Some (- e, set_vm r vm nx s k)
            | (Panic, nx, s) \<Rightarrow> None))"

text \<open>The end of the page range of \<open>munmap\<close> and \<open>mprotect\<close>; \<open>e\<close> is the error for a range that is too long.\<close>

definition range_end :: "usize \<Rightarrow> usize \<Rightarrow> i32 \<Rightarrow> usize kres" where
  "range_end addr len e =
    (if \<not> PAGE_SIZE dvd addr \<or> len = 0 then Err EINVAL
     else if len > USER_SPACE_END then Err e
     else case checked_mul (div_ceil len PAGE_SIZE) PAGE_SIZE of
       None \<Rightarrow> Err e
     | Some byte_len \<Rightarrow>
        (case checked_add addr byte_len of
           None \<Rightarrow> Err e
         | Some end_addr \<Rightarrow> if end_addr \<le> USER_SPACE_END then Ok end_addr else Err e))"

definition sys_munmap :: "usize \<Rightarrow> usize \<Rightarrow> kernel \<Rightarrow> (int \<times> kernel) option" where
  "sys_munmap addr len k =
    (case range_end addr len EINVAL of
       Panic \<Rightarrow> None
     | Err e \<Rightarrow> Some (- e, k)
     | Ok end_addr \<Rightarrow>
        (case get_current_process k of
           None \<Rightarrow> Some (- ESRCH, k)
         | Some r \<Rightarrow>
            (case p_vm_space (k_procs k r) of
               None \<Rightarrow> Some (0, k)
             | Some vm \<Rightarrow>
                (case remove_vma_range vm addr end_addr (k_mm k) of
                   (VmPanic, vm, s) \<Rightarrow> None
                 | (_, vm, s) \<Rightarrow> Some (0, set_vm r vm (p_mmap_next_vaddr (k_procs k r)) s k)))))"

definition sys_mprotect :: "usize \<Rightarrow> usize \<Rightarrow> i32 \<Rightarrow> kernel \<Rightarrow> (int \<times> kernel) option" where
  "sys_mprotect addr len prot k =
    (case range_end addr len ENOMEM of
       Panic \<Rightarrow> None
     | Err e \<Rightarrow> Some (- e, k)
     | Ok end_addr \<Rightarrow>
        (case get_current_process k of
           None \<Rightarrow> Some (- ESRCH, k)
         | Some r \<Rightarrow>
            (case p_vm_space (k_procs k r) of
               None \<Rightarrow> Some (0, k)
             | Some vm \<Rightarrow>
                if \<not> contains_range (vmas vm) addr end_addr then Some (- ENOMEM, k)
                else
                  (case mprotect_range vm addr end_addr (word_of_int prot) (k_mm k) of
                     (VmOk, vm, s) \<Rightarrow> Some (0, set_vm r vm (p_mmap_next_vaddr (k_procs k r)) s k)
                   | (VmErr _, vm, s) \<Rightarrow> Some (- ENOMEM, set_vm r vm (p_mmap_next_vaddr (k_procs k r)) s k)
                   | (VmPanic, vm, s) \<Rightarrow> None))))"

subsection \<open>The address space of the caller stays well formed\<close>

text \<open>
  The caller has a well-formed address space among the page tables \<open>R\<close>, and the bump pointer of \<open>mmap\<close> is page aligned.
\<close>

definition caller_ok :: "usize set \<Rightarrow> kernel \<Rightarrow> nat \<Rightarrow> VmSpace \<Rightarrow> bool" where
  "caller_ok R k r vm \<longleftrightarrow> get_current_process k = Some r \<and> p_vm_space (k_procs k r) = Some vm \<and> vm_ok R vm (k_mm k)
     \<and> PAGE_SIZE dvd p_mmap_next_vaddr (k_procs k r)"

lemma caller_okD:
  assumes "caller_ok R k r vm"
  shows "get_current_process k = Some r" "p_vm_space (k_procs k r) = Some vm" "vm_ok R vm (k_mm k)" "PAGE_SIZE dvd p_mmap_next_vaddr (k_procs k r)"
  using assms by (simp_all add: caller_ok_def)

lemma caller_ok_set:
  assumes "caller_ok R k r vm" "vm_ok R vm' s" "PAGE_SIZE dvd nx"
  shows "caller_ok R (set_vm r vm' nx s k) r vm'" "k_mm (set_vm r vm' nx s k) = s"
  using assms by (simp_all add: caller_ok_def set_vm_def get_current_process_def)

lemma div_ceil_pos: "0 < len \<Longrightarrow> 0 < div_ceil len PAGE_SIZE"
  using dvd_imp_le [of PAGE_SIZE len] by (auto simp: div_ceil_def PAGE_SIZE_def div_greater_zero_iff dvd_eq_mod_eq_0)

lemma range_end_Ok:
  assumes "range_end addr len e = Ok end_addr"
  shows "PAGE_SIZE dvd addr" "PAGE_SIZE dvd end_addr" "addr < end_addr" "end_addr \<le> USER_SPACE_END" "end_addr = addr + div_ceil len PAGE_SIZE * PAGE_SIZE"
proof -
  have l: "PAGE_SIZE dvd addr" "0 < len" "end_addr = addr + div_ceil len PAGE_SIZE * PAGE_SIZE" "end_addr \<le> USER_SPACE_END"
    using assms by (auto simp: range_end_def checked_mul_def checked_add_def split: if_splits)
  moreover have "0 < div_ceil len PAGE_SIZE" using div_ceil_pos [OF l(2)] .
  ultimately show "PAGE_SIZE dvd addr" "PAGE_SIZE dvd end_addr" "addr < end_addr" "end_addr \<le> USER_SPACE_END" "end_addr = addr + div_ceil len PAGE_SIZE * PAGE_SIZE"
    by (simp_all add: PAGE_SIZE_def)
qed

lemma range_end_not_Panic [simp]: "range_end addr len e \<noteq> Panic"
  by (simp add: range_end_def split: option.split)

lemma sys_munmap_spec:
  assumes ok: "caller_ok R k r vm" and e: "range_end addr len EINVAL = Ok end_addr"
  shows "\<exists>vm' k'. sys_munmap addr len k = Some (0, k') \<and> caller_ok R k' r vm' \<and> address_space vm' = address_space vm
    \<and> mapped (address_space vm) (k_mm k') = mapped (address_space vm) (k_mm k) |` {w. w < addr \<or> end_addr \<le> w}
    \<and> pool (k_mm k') = pool (k_mm k) \<union> fst ` ran (mapped (address_space vm) (k_mm k) |` {addr..<end_addr})
    \<and> vlook (vmas vm') = vlook (vmas vm) |` {a. a < addr \<or> end_addr \<le> a}
    \<and> (\<forall>r' \<in> R. r' \<noteq> address_space vm \<longrightarrow> mapped r' (k_mm k') = mapped r' (k_mm k))"
proof -
  note c = caller_okD [OF ok] and re = range_end_Ok [OF e]
  obtain res vm' s' where run: "remove_vma_range vm addr end_addr (k_mm k) = (res, vm', s')" by (metis prod_cases3)
  note spec = remove_vma_range_spec [OF c(3) re(1-4) run]
  let ?k = "set_vm r vm' (p_mmap_next_vaddr (k_procs k r)) s' k"
  have "res = VmOk" "vm_ok R vm' s'" using spec by blast+
  then have "sys_munmap addr len k = Some (0, ?k)" by (simp add: sys_munmap_def e c(1,2) run)
  moreover note cs = caller_ok_set [OF ok \<open>vm_ok R vm' s'\<close> c(4)]
  ultimately show ?thesis using spec by (intro exI [of _ vm'] exI [of _ ?k]) (simp only: cs simp_thms, blast)
qed

lemma sys_mprotect_spec:
  assumes ok: "caller_ok R k r vm" and e: "range_end addr len ENOMEM = Ok end_addr"
  shows "\<exists>vm' k'. sys_mprotect addr len prot k = Some (if {addr..<end_addr} \<subseteq> dom (vlook (vmas vm)) then 0 else - ENOMEM, k')
    \<and> caller_ok R k' r vm' \<and> address_space vm' = address_space vm
    \<and> (if {addr..<end_addr} \<subseteq> dom (vlook (vmas vm)) then
         mapped (address_space vm) (k_mm k') = (\<lambda>w. if addr \<le> w \<and> w < end_addr
           then map_option (\<lambda>(f, _). (f, from_prot (word_of_int prot))) (mapped (address_space vm) (k_mm k) w)
           else mapped (address_space vm) (k_mm k) w)
       else k' = k)"
proof -
  note c = caller_okD [OF ok] and re = range_end_Ok [OF e]
  have cov: "contains_range (vmas vm) addr end_addr \<longleftrightarrow> {addr..<end_addr} \<subseteq> dom (vlook (vmas vm))"
    using c(3) re(3) contains_loop_iff [of 0 USER_SPACE_END "vmas vm" addr end_addr]
    by (auto simp: vm_ok_def contains_range_def dom_def subset_iff)
  show ?thesis
  proof (cases "{addr..<end_addr} \<subseteq> dom (vlook (vmas vm))")
    case True
    obtain res vm' s' where run: "mprotect_range vm addr end_addr (word_of_int prot) (k_mm k) = (res, vm', s')" by (metis prod_cases3)
    note spec = mprotect_range_spec [OF c(3) re(1,2,4) run]
    let ?k = "set_vm r vm' (p_mmap_next_vaddr (k_procs k r)) s' k"
    have "sys_mprotect addr len prot k = Some (0, ?k)" using spec True re(3) cov by (simp add: sys_mprotect_def e c(1,2) run)
    moreover have "caller_ok R ?k r vm'" "k_mm ?k = s'" using caller_ok_set [OF ok _ c(4)] spec True re(3) by simp_all
    ultimately show ?thesis using spec True re(3) by (intro exI [of _ vm'] exI [of _ ?k]) simp
  next
    case False
    then have "sys_mprotect addr len prot k = Some (- ENOMEM, k)" using cov by (simp add: sys_mprotect_def e c(1,2))
    then show ?thesis using False ok by (intro exI [of _ vm] exI [of _ k]) simp
  qed
qed

lemma map_upds_nth:
  "distinct xs \<Longrightarrow> length ys = length xs \<Longrightarrow> i < length xs \<Longrightarrow> (m(xs [\<mapsto>] ys)) (xs ! i) = Some (ys ! i)"
proof (induction xs arbitrary: m ys i)
  case (Cons x xs)
  then obtain y zs where ys: "ys = y # zs" by (cases ys) auto
  then show ?case using Cons by (cases i) (auto simp: map_upds_apply_nontin)
qed simp

lemma sys_mmap_spec:
  assumes ok: "caller_ok R k r vm" and v: "v = mmap_vaddr addr (p_mmap_next_vaddr (k_procs k r))" and n: "n = div_ceil len PAGE_SIZE * PAGE_SIZE"
    and free: "{v..<v + n} \<inter> dom (vlook (vmas vm)) = {}"
  shows "\<exists>res vm' k'. sys_mmap addr len prot flags k = Some (res, k') \<and> caller_ok R k' r vm' \<and> address_space vm' = address_space vm
    \<and> (if res = int v \<and> 0 < len then PAGE_SIZE dvd v \<and> v + n \<le> USER_SPACE_END
         \<and> (\<forall>w. mapped (address_space vm) (k_mm k') w \<noteq> mapped (address_space vm) (k_mm k) w \<longrightarrow> v \<le> w \<and> w < v + n)
         \<and> (\<forall>w. PAGE_SIZE dvd w \<longrightarrow> v \<le> w \<longrightarrow> w < v + n \<longrightarrow> (\<exists>f. mapped (address_space vm) (k_mm k') w = Some (f, from_prot (word_of_int prot))
               \<and> f \<in> pool (k_mm k) \<and> zeroed (k_mm k') f))
         \<and> vlook (vmas vm') = (\<lambda>a. if v \<le> a \<and> a < v + n then Some (word_of_int prot, word_of_int flags) else vlook (vmas vm) a)
       else res \<in> {- EINVAL, - ENOMEM} \<and> vm' = vm \<and> mapped (address_space vm) (k_mm k') = mapped (address_space vm) (k_mm k))"
proof -
  note c = caller_okD [OF ok]
  let ?r = "address_space vm" and ?nx = "p_mmap_next_vaddr (k_procs k r)" and ?s = "k_mm k" and ?n = "div_ceil len PAGE_SIZE"
  have vok: "vm_inv R ?r ?s" "between 0 USER_SPACE_END (vmas vm)" "areas_aligned (vmas vm)" "coherent vm ?s" using c(3) by (auto simp: vm_ok_def)
  obtain res nx s' where run: "mmap_allocate (vm_ops ?r) addr len prot USER_SPACE_END (free_frames (pmm ?s)) ?nx ?s = (res, nx, s')" by (metis prod_cases3)
  have unm: "\<forall>i < ?n. mapped ?r ?s (mmap_vaddr addr ?nx + i * PAGE_SIZE) = None"
  proof (intro allI impI, rule ccontr)
    fix i assume i: "i < ?n" "mapped ?r ?s (mmap_vaddr addr ?nx + i * PAGE_SIZE) \<noteq> None"
    then have "v + i * PAGE_SIZE \<in> dom (vlook (vmas vm))" using vok(4) v unfolding coherent_def by fast
    moreover have "v + i * PAGE_SIZE \<in> {v..<v + n}" using i(1) by (simp add: n PAGE_SIZE_def)
    ultimately show False using free by blast
  qed
  show ?thesis
  proof (cases "\<exists>x. res = Ok x")
    case True
    then obtain x where x: "res = Ok x" by blast
    note spec = mmap_success_spec [OF vok(1) c(4) run [unfolded x]]
    then obtain fs where fs: "length fs = ?n" "distinct fs" "set fs \<subseteq> pool ?s" "\<forall>f \<in> set fs. zeroed s' f"
      "mapped ?r s' = (mapped ?r ?s)(page_range v ?n [\<mapsto>] map (\<lambda>f. (f, from_prot (word_of_int prot))) fs)" by (auto simp: v)
    have xv: "x = v" "0 < len" "v + n \<le> USER_SPACE_END" "vm_inv R ?r s'" "nx = (if addr = 0 then ?nx + n else ?nx)" using spec by (simp_all add: v n)
    have al: "PAGE_SIZE dvd v" "PAGE_SIZE dvd v + n" "PAGE_SIZE dvd nx"
      using c(4) xv(5) by (simp_all add: v n mmap_vaddr_def align_down_def)
    have lt: "v < v + n" using div_ceil_pos [OF xv(2)] by (simp add: n PAGE_SIZE_def)
    have rg: "set (page_range v ?n) = {w. PAGE_SIZE dvd w \<and> v \<le> w \<and> w < v + n}"
      using page_range_between [OF al(1,2)] by (simp add: n PAGE_SIZE_def)
    have out: "mapped ?r s' w = mapped ?r ?s w" if "\<not> (v \<le> w \<and> w < v + n)" for w
      using fs(1,5) rg that by (simp add: map_upds_apply_nontin)
    have ins: "\<exists>f. mapped ?r s' w = Some (f, from_prot (word_of_int prot)) \<and> f \<in> pool ?s \<and> zeroed s' f" if "PAGE_SIZE dvd w" "v \<le> w" "w < v + n" for w
    proof -
      have "w \<in> set (page_range v ?n)" using that rg by simp
      then obtain i where i: "i < ?n" "page_range v ?n ! i = w" by (auto simp: in_set_conv_nth)
      then have "mapped ?r s' w = Some (fs ! i, from_prot (word_of_int prot))"
        unfolding fs(5) i(2) [symmetric] using fs(1) i(1) by (subst map_upds_nth) simp_all
      then show ?thesis using fs(1,3,4) i(1) nth_mem [of i fs] by auto
    qed
    let ?vm = "record_area vm v len prot flags"
    have vm: "?vm = vm\<lparr> vmas := insert_vma (vmas vm) v (v + n) (word_of_int prot) (word_of_int flags) \<rparr>"
      using xv(3) by (simp add: record_area_def checked_mul_def checked_add_def n USER_SPACE_END_def USIZE_LIMIT_def)
    have va: "between 0 USER_SPACE_END (vmas ?vm)" "areas_aligned (vmas ?vm)"
      "vlook (vmas ?vm) = (\<lambda>a. if v \<le> a \<and> a < v + n then Some (word_of_int prot, word_of_int flags) else vlook (vmas vm) a)"
      using insert_vma_between [OF vok(2) xv(3)] areas_aligned_insert [OF vok(3) al(1,2)]
        insert_vma_look [OF vok(2) lt xv(3) tail_kept_free [OF vok(2) lt free]] by (auto simp: vm)
    have "coherent ?vm s'" by (rule coherent_mapped [OF vok(4) _ out ins va(3)]) (simp_all add: vm)
    then have "vm_ok R ?vm s'" using xv(4) va by (simp add: vm_ok_def vm)
    note cs = caller_ok_set [OF ok this al(3)]
    have "sys_mmap addr len prot flags k = Some (int v, set_vm r ?vm nx s' k)"
      using run xv(1) x by (simp add: sys_mmap_def c(1,2) get_pmm_stats_def)
    then show ?thesis using cs out ins va(3) xv(2,3) al(1) by (intro exI [of _ "int v"] exI [of _ ?vm] exI [of _ "set_vm r ?vm nx s' k"]) (auto simp: vm)
  next
    case False
    note spec = mmap_rollback_spec [OF vok(1) c(4) unm run] 
    then have f: "res = Err (if len = 0 then EINVAL else ENOMEM)" "nx = ?nx" "vm_inv R ?r s'" "mapped ?r s' = mapped ?r ?s" using False by auto
    have "vm_ok R vm s'" using f vok by (simp add: vm_ok_def coherent_def)
    note cs = caller_ok_set [OF ok this c(4)]
    have "sys_mmap addr len prot flags k = Some (- (if len = 0 then EINVAL else ENOMEM), set_vm r vm ?nx s' k)"
      using run f by (simp add: sys_mmap_def c(1,2) get_pmm_stats_def)
    moreover have "- (if len = 0 then EINVAL else ENOMEM) \<noteq> int v" by (simp add: EINVAL_def ENOMEM_def)
    ultimately show ?thesis using cs f(4)
      by (intro exI [of _ "- (if len = 0 then EINVAL else ENOMEM)"] exI [of _ vm] exI [of _ "set_vm r vm ?nx s' k"]) simp
  qed
qed

text \<open>
  C36: The calls on virtual memory never panic and keep the address space of the caller well formed, on every
  branch: the page tables satisfy their invariant, the areas are sorted, disjoint, page-aligned and within user
  space, and every mapped page lies in an area with the rights of that area. For \<open>mmap\<close> this is shown when the
  requested range is free.
\<close>

theorem memory_calls_well_formed:
  assumes ok: "caller_ok R k r vm"
  shows "(\<exists>res k' vm'. sys_munmap addr len k = Some (res, k') \<and> caller_ok R k' r vm' \<and> res \<in> {0, - EINVAL})
    \<and> (\<exists>res k' vm'. sys_mprotect addr len prot k = Some (res, k') \<and> caller_ok R k' r vm' \<and> res \<in> {0, - EINVAL, - ENOMEM})
    \<and> (let v = mmap_vaddr addr (p_mmap_next_vaddr (k_procs k r)) in
       {v..<v + div_ceil len PAGE_SIZE * PAGE_SIZE} \<inter> dom (vlook (vmas vm)) = {} \<longrightarrow>
       (\<exists>res k' vm'. sys_mmap addr len prot flags k = Some (res, k') \<and> caller_ok R k' r vm' \<and> res \<in> {int v, - EINVAL, - ENOMEM}))"
proof (intro conjI)
  have err: "range_end addr len e \<in> {Err EINVAL, Err e} \<or> (\<exists>x. range_end addr len e = Ok x)" for e
    by (auto simp: range_end_def split: option.split)
  show "\<exists>res k' vm'. sys_munmap addr len k = Some (res, k') \<and> caller_ok R k' r vm' \<and> res \<in> {0, - EINVAL}"
    using err [of EINVAL] sys_munmap_spec [OF ok] ok by (fastforce simp: sys_munmap_def)
  show "\<exists>res k' vm'. sys_mprotect addr len prot k = Some (res, k') \<and> caller_ok R k' r vm' \<and> res \<in> {0, - EINVAL, - ENOMEM}"
    using err [of ENOMEM]
  proof
    assume "\<exists>x. range_end addr len ENOMEM = Ok x"
    then obtain x where x: "range_end addr len ENOMEM = Ok x" ..
    obtain vm' k' where "sys_mprotect addr len prot k = Some (if {addr..<x} \<subseteq> dom (vlook (vmas vm)) then 0 else - ENOMEM, k')" "caller_ok R k' r vm'"
      using sys_mprotect_spec [OF ok x, of prot] by blast
    then show ?thesis by auto
  qed (use ok in \<open>auto simp: sys_mprotect_def\<close>)
  show "let v = mmap_vaddr addr (p_mmap_next_vaddr (k_procs k r)) in
       {v..<v + div_ceil len PAGE_SIZE * PAGE_SIZE} \<inter> dom (vlook (vmas vm)) = {} \<longrightarrow>
       (\<exists>res k' vm'. sys_mmap addr len prot flags k = Some (res, k') \<and> caller_ok R k' r vm' \<and> res \<in> {int v, - EINVAL, - ENOMEM})"
    unfolding Let_def
  proof
    let ?v = "mmap_vaddr addr (p_mmap_next_vaddr (k_procs k r))"
    assume "{?v..<?v + div_ceil len PAGE_SIZE * PAGE_SIZE} \<inter> dom (vlook (vmas vm)) = {}"
    from sys_mmap_spec [OF ok HOL.refl HOL.refl this, of prot flags]
    obtain res vm' k' where "sys_mmap addr len prot flags k = Some (res, k')" "caller_ok R k' r vm'" "res = int ?v \<or> res \<in> {- EINVAL, - ENOMEM}"
      by (auto split: if_splits)
    then show "\<exists>res k' vm'. sys_mmap addr len prot flags k = Some (res, k') \<and> caller_ok R k' r vm' \<and> res \<in> {int ?v, - EINVAL, - ENOMEM}"
      by blast
  qed
qed

lemma div_ceil_ge: "len \<le> div_ceil len PAGE_SIZE * PAGE_SIZE"
proof -
  let ?q = "len div PAGE_SIZE" and ?m = "len mod PAGE_SIZE"
  have "len = ?q * PAGE_SIZE + ?m" "?m < PAGE_SIZE" by (simp_all only: div_mult_mod_eq) (simp add: PAGE_SIZE_def)
  moreover have "(?q + 1) * PAGE_SIZE = ?q * PAGE_SIZE + PAGE_SIZE" by (simp only: add_mult_distrib mult_1)
  ultimately show ?thesis unfolding div_ceil_def by (metis add_0_right le_add1 nat_add_left_cancel_le less_imp_le)
qed

text \<open>
  C37: Unmapping what \<open>mmap\<close> mapped undoes it, provided that the range of the mapping met no recorded area of the caller: the page tables of the caller translate every address as before,
  the areas are the ones from before, and every frame of the mapping is back in the pool. Over an existing area this fails, because
  \<open>mmap\<close> with an address replaces what was mapped there.
\<close>

theorem mmap_munmap_roundtrip:
  assumes ok: "caller_ok R k r vm" and v: "v = mmap_vaddr addr (p_mmap_next_vaddr (k_procs k r))" and n: "n = div_ceil len PAGE_SIZE * PAGE_SIZE"
    and free: "{v..<v + n} \<inter> dom (vlook (vmas vm)) = {}" and len: "0 < len" and run: "sys_mmap addr len prot flags k = Some (int v, k')"
  shows "\<exists>vm'' k''. sys_munmap v len k' = Some (0, k'') \<and> caller_ok R k'' r vm''
    \<and> mapped (address_space vm) (k_mm k'') = mapped (address_space vm) (k_mm k) \<and> vlook (vmas vm'') = vlook (vmas vm)
    \<and> (\<forall>w f a. v \<le> w \<longrightarrow> w < v + n \<longrightarrow> mapped (address_space vm) (k_mm k') w = Some (f, a) \<longrightarrow> f \<in> pool (k_mm k''))"
proof -
  let ?r = "address_space vm"
  obtain vm' where m: "caller_ok R k' r vm'" "address_space vm' = ?r" "PAGE_SIZE dvd v" "v + n \<le> USER_SPACE_END"
    "\<forall>w. mapped ?r (k_mm k') w \<noteq> mapped ?r (k_mm k) w \<longrightarrow> v \<le> w \<and> w < v + n"
    "vlook (vmas vm') = (\<lambda>a. if v \<le> a \<and> a < v + n then Some (word_of_int prot, word_of_int flags) else vlook (vmas vm) a)"
    using sys_mmap_spec [OF ok v n free, of prot flags] run len by (auto split: if_splits)
  have "range_end v len EINVAL = Ok (v + n)"
    using m(3,4) len div_ceil_ge [of len]
    by (simp add: range_end_def checked_mul_def checked_add_def n USIZE_LIMIT_def USER_SPACE_END_def)
  from sys_munmap_spec [OF m(1) this] obtain vm'' k'' where u: "sys_munmap v len k' = Some (0, k'')" "caller_ok R k'' r vm''"
    "mapped ?r (k_mm k'') = mapped ?r (k_mm k') |` {w. w < v \<or> v + n \<le> w}"
    "pool (k_mm k'') = pool (k_mm k') \<union> fst ` ran (mapped ?r (k_mm k') |` {v..<v + n})"
    "vlook (vmas vm'') = vlook (vmas vm') |` {a. a < v \<or> v + n \<le> a}" by (auto simp: m(2))
  have coh: "mapped ?r (k_mm k) w = None" if "v \<le> w" "w < v + n" for w
  proof (rule ccontr)
    assume "mapped ?r (k_mm k) w \<noteq> None"
    then have "w \<in> dom (vlook (vmas vm))" using caller_okD(3) [OF ok] unfolding vm_ok_def coherent_def by fast
    then show False using free that by auto
  qed
  have "mapped ?r (k_mm k'') w = mapped ?r (k_mm k) w" for w
  proof (cases "v \<le> w \<and> w < v + n")
    case True
    then show ?thesis using coh [of w] by (simp add: u(3) restrict_map_def)
  next
    case False
    then show ?thesis using m(5) [rule_format, of w] by (auto simp: u(3) restrict_map_def)
  qed
  then have "mapped ?r (k_mm k'') = mapped ?r (k_mm k)" by (rule ext)
  moreover have "vlook (vmas vm) a = None" if "v \<le> a" "a < v + n" for a
  proof (rule ccontr)
    assume "vlook (vmas vm) a \<noteq> None"
    then have "a \<in> {v..<v + n} \<inter> dom (vlook (vmas vm))" using that by (simp add: domIff)
    then show False using free by simp
  qed
  then have "vlook (vmas vm'') = vlook (vmas vm)" by (simp add: u(5) m(6) restrict_map_def fun_eq_iff)
  moreover have "f \<in> pool (k_mm k'')" if "v \<le> w" "w < v + n" "mapped ?r (k_mm k') w = Some (f, a)" for w f a
  proof -
    have "(f, a) \<in> ran (mapped ?r (k_mm k') |` {v..<v + n})" using that by (intro ranI [of _ w]) simp
    then show ?thesis unfolding u(4) by force
  qed
  ultimately show ?thesis using u(1,2) by blast
qed

definition demo_mem_kernel :: kernel where
  "demo_mem_kernel = (kernel0 demo_mmu)\<lparr> k_current := Some 0,
     k_procs := (\<lambda>_. (Process_new 0 1 0 ''/'')\<lparr> p_vm_space := Some demo_vm, p_mmap_next_vaddr := 0x60000000 \<rparr>) \<rparr>"

lemma demo_mem_kernel: "caller_ok {8192} demo_mem_kernel 0 demo_vm" "p_mmap_next_vaddr (k_procs demo_mem_kernel 0) = 0x60000000" "k_mm demo_mem_kernel = demo_mmu"
  "p_vm_space (k_procs demo_mem_kernel 0) = Some demo_vm" "get_current_process demo_mem_kernel = Some 0"
  using demo_vm_ok by (simp_all add: caller_ok_def demo_mem_kernel_def kernel0_def get_current_process_def PAGE_SIZE_def)

lemma demo_mem_free: "{0x60000000..<0x60000000 + div_ceil 4096 PAGE_SIZE * PAGE_SIZE} \<inter> dom (vlook (vmas demo_vm)) = {}"
  by (auto simp: demo_vm_def div_ceil_def PAGE_SIZE_def)

theorem memory_calls_well_formed_witness:
  "\<exists>res k' vm'. sys_mmap 0 4096 3 0x22 demo_mem_kernel = Some (res, k') \<and> caller_ok {8192} k' 0 vm'"
  using memory_calls_well_formed [OF demo_mem_kernel(1), of 0 4096 3 "0x22"] demo_mem_free
  unfolding Let_def demo_mem_kernel(2) mmap_vaddr_def by auto

lemma demo_mmap_succeeds: "\<exists>k'. sys_mmap 0 4096 3 0x22 demo_mem_kernel = Some (int 0x60000000, k')"
proof -
  have n: "div_ceil 4096 PAGE_SIZE = 1" "mmap_vaddr 0 0x60000000 = 0x60000000" "PAGE_SIZE dvd 0x60000000" "free_frames (pmm demo_mmu) = 13" "address_space demo_vm = 8192"
    by (simp_all add: div_ceil_def PAGE_SIZE_def mmap_vaddr_def demo_vm_def) code_simp
  then have "fst (mmap_allocate (vm_ops 8192) 0 4096 3 USER_SPACE_END 13 0x60000000 demo_mmu) = Ok (mmap_vaddr 0 0x60000000)"
    using demo_pool_card demo_vm_inv
    by (intro vm.mmap_allocate_succeeds [where R = "{8192}"]) (simp_all add: user_space_pages, simp add: PAGE_SIZE_def USER_SPACE_END_def)
  then show ?thesis
    using n by (cases "mmap_allocate (vm_ops 8192) 0 4096 3 USER_SPACE_END 13 0x60000000 demo_mmu")
      (simp add: sys_mmap_def demo_mem_kernel(2-5) get_pmm_stats_def)
qed

theorem mmap_munmap_roundtrip_witness:
  "\<exists>k' vm'' k''. sys_mmap 0 4096 3 0x22 demo_mem_kernel = Some (0x60000000, k') \<and> sys_munmap 0x60000000 4096 k' = Some (0, k'')
    \<and> caller_ok {8192} k'' 0 vm'' \<and> mapped 8192 (k_mm k'') = mapped 8192 demo_mmu"
proof -
  obtain k' where k': "sys_mmap 0 4096 3 0x22 demo_mem_kernel = Some (int 0x60000000, k')" using demo_mmap_succeeds by blast
  have v: "0x60000000 = mmap_vaddr 0 (p_mmap_next_vaddr (k_procs demo_mem_kernel 0))" by (simp add: mmap_vaddr_def demo_mem_kernel(2))
  from mmap_munmap_roundtrip [OF demo_mem_kernel(1) v HOL.refl demo_mem_free _ k']
  show ?thesis using k' by (auto simp: demo_mem_kernel(3) demo_vm_def)
qed

end
