(* ===== verification/Epoll.thy ===== *)
theory Epoll
  imports Posix_Fs
begin

text \<open>
  Event multiplexing: the interest list of an epoll instance (\<^verbatim>\<open>vfs/epoll.rs\<close>) and its system calls
  (\<^verbatim>\<open>services/posix/epoll.rs\<close>).
\<close>

subsection \<open>The instance\<close>

definition EpollInstance_ctl :: "i32 \<Rightarrow> i32 \<Rightarrow> EpollEvent \<Rightarrow> (i32 \<times> EpollEvent) list \<Rightarrow> unit kres \<times> (i32 \<times> EpollEvent) list" where
  "EpollInstance_ctl op' fd event m =
    (if op' = EPOLL_CTL_ADD then
       (if bt_get m fd \<noteq> None then (Err EEXIST, m) else (Ok (), bt_insert fd event m))
     else if op' = EPOLL_CTL_MOD then
       (if bt_get m fd = None then (Err ENOENT, m) else (Ok (), bt_insert fd event m))
     else if op' = EPOLL_CTL_DEL then
       (if bt_get m fd = None then (Err ENOENT, m) else (Ok (), bt_remove fd m))
     else (Err EINVAL, m))"

definition triggered :: "u32 \<Rightarrow> InodePollFlags \<Rightarrow> u32" where
  "triggered interest pf =
    (let t = 0 :: u32;
         t = (if interest AND EPOLLIN \<noteq> 0 \<and> ipf_readable pf then t OR EPOLLIN else t);
         t = (if interest AND EPOLLOUT \<noteq> 0 \<and> ipf_writable pf then t OR EPOLLOUT else t);
         t = (if ipf_hangup pf then t OR EPOLLHUP else t)
     in if ipf_error pf then t OR EPOLLERR else t)"

text \<open>The loop over the interest list; \<open>ready\<close> holds the events reported so far.\<close>

fun epoll_loop :: "usize \<Rightarrow> usize \<Rightarrow> nat option list \<Rightarrow> kernel \<Rightarrow> (i32 \<times> EpollEvent) list \<Rightarrow> EpollEvent list \<Rightarrow> EpollEvent list" where
  "epoll_loop maxevents len fds k [] ready = ready"
| "epoll_loop maxevents len fds k ((fd, interest) # m) ready =
    (if length ready \<ge> maxevents \<or> length ready \<ge> len then ready
     else
       let slot = (if fd \<ge> 0 \<and> nat fd < length fds then fds ! nat fd else None);
           ready = (case slot of
             Some h \<Rightarrow>
               (let t = triggered (ev_events interest) (inode_poll (fh_inode (k_handles k h)) k)
                in if t \<noteq> 0 then ready @ [\<lparr> ev_events = t, ev_data = ev_data interest \<rparr>] else ready)
           | None \<Rightarrow> ready)
       in epoll_loop maxevents len fds k m ready)"

definition EpollInstance_wait :: "usize \<Rightarrow> usize \<Rightarrow> nat option list \<Rightarrow> kernel \<Rightarrow> (i32 \<times> EpollEvent) list \<Rightarrow> EpollEvent list kres" where
  "EpollInstance_wait len maxevents fds k m =
    (if maxevents = 0 \<or> len = 0 then Err EINVAL else Ok (epoll_loop maxevents len fds k m []))"

subsection \<open>System calls\<close>

text \<open>The structure has four bytes of padding between its fields, written as zeros.\<close>

definition EpollEvent_bytes :: "EpollEvent \<Rightarrow> bytes" where
  "EpollEvent_bytes e = u32_bytes (ev_events e) @ replicate 4 0 @ u64_bytes (ev_data e)"

definition EpollEvent_of :: "bytes \<Rightarrow> EpollEvent" where
  "EpollEvent_of bs = \<lparr> ev_events = of_nat (of_le (take 4 bs)), ev_data = u64_of_bytes (drop 8 bs) \<rparr>"

definition EPOLL_EVENT_SIZE :: usize where [posix_consts]: "EPOLL_EVENT_SIZE = 16"

definition sys_epoll_create1 :: "i32 \<Rightarrow> kernel \<Rightarrow> int \<times> kernel" where
  "sys_epoll_create1 flags k =
    (case get_current_process k of
       None \<Rightarrow> (- ESRCH, k)
     | Some r \<Rightarrow>
        let (i, k) = inode_alloc (EpollInstance []) k;
            (h, k) = handle_alloc (FileHandle_new i O_RDWR) k;
            (fd, p) = alloc_fd (k_procs k r) h
        in (fd, upd_proc r (\<lambda>_. p) k))"

definition as_epoll :: "nat \<Rightarrow> kernel \<Rightarrow> (i32 \<times> EpollEvent) list option" where
  "as_epoll i k = (case k_inodes k i of EpollInstance m \<Rightarrow> Some m | _ \<Rightarrow> None)"

definition sys_epoll_ctl :: "i32 \<Rightarrow> i32 \<Rightarrow> i32 \<Rightarrow> usize \<Rightarrow> kernel \<Rightarrow> (int \<times> kernel) option" where
  "sys_epoll_ctl epfd op' fd event_ptr k =
    (case get_proc_handle epfd k of
       Panic \<Rightarrow> None
     | Err e \<Rightarrow> Some (- e, k)
     | Ok (h, _) \<Rightarrow>
        let i = fh_inode (k_handles k h) in
        case as_epoll i k of
          None \<Rightarrow> Some (- EINVAL, k)
        | Some m \<Rightarrow>
           (case (if event_ptr \<noteq> 0 \<and> op' \<noteq> EPOLL_CTL_DEL
                  then map_option (\<lambda>res. kres_bind res (\<lambda>bs. Ok (EpollEvent_of bs))) (read_user event_ptr EPOLL_EVENT_SIZE k)
                  else Some (Ok \<lparr> ev_events = 0, ev_data = 0 \<rparr>)) of
              None \<Rightarrow> None
            | Some Panic \<Rightarrow> None
            | Some (Err e) \<Rightarrow> Some (- e, k)
            | Some (Ok event) \<Rightarrow>
               (case EpollInstance_ctl op' fd event m of
                  (Ok _, m) \<Rightarrow> Some (0, set_inode i (EpollInstance m) k)
                | (Err e, m) \<Rightarrow> Some (- e, set_inode i (EpollInstance m) k)
                | (Panic, m) \<Rightarrow> None)))"

text \<open>The loop that copies the events to user space.\<close>

fun copy_events :: "usize \<Rightarrow> EpollEvent list \<Rightarrow> usize \<Rightarrow> kernel \<Rightarrow> (unit kres \<times> kernel) option" where
  "copy_events events_ptr [] i k = Some (Ok (), k)"
| "copy_events events_ptr (e # es) i k =
    (case write_user (saturating_add events_ptr (saturating_mul i EPOLL_EVENT_SIZE)) (EpollEvent_bytes e) k of
       Some (Ok _, k) \<Rightarrow> copy_events events_ptr es (Suc i) k
     | res \<Rightarrow> res)"

definition sys_epoll_wait :: "i32 \<Rightarrow> usize \<Rightarrow> i32 \<Rightarrow> i32 \<Rightarrow> kernel \<Rightarrow> (int \<times> kernel) option" where
  "sys_epoll_wait epfd events_ptr maxevents timeout k =
    (if maxevents \<le> 0 \<or> events_ptr = 0 then Some (- EINVAL, k)
     else case get_current_proc k of
       None \<Rightarrow> Some (- ESRCH, k)
     | Some p \<Rightarrow>
        (case get_fd p epfd of
           None \<Rightarrow> Some (- EBADF, k)
         | Some h \<Rightarrow>
            (case as_epoll (fh_inode (k_handles k h)) k of
               None \<Rightarrow> Some (- EINVAL, k)
             | Some m \<Rightarrow>
                (case EpollInstance_wait (nat maxevents) (nat maxevents) (p_fds p) k m of
                   Panic \<Rightarrow> None
                 | Err e \<Rightarrow> Some (- e, k)
                 | Ok evs \<Rightarrow>
                    (case copy_events events_ptr evs 0 k of
                       None \<Rightarrow> None
                     | Some (Ok _, k) \<Rightarrow> Some (int (length evs), k)
                     | Some (Err e, k) \<Rightarrow> Some (- e, k)
                     | Some (Panic, k) \<Rightarrow> None)))))"

subsection \<open>Correctness\<close>

text \<open>What an instance promises, on the finite map of its interests.\<close>

definition interest_ctl :: "i32 \<Rightarrow> i32 \<Rightarrow> EpollEvent \<Rightarrow> (i32 \<rightharpoonup> EpollEvent) \<Rightarrow> unit kres \<times> (i32 \<rightharpoonup> EpollEvent)" where
  "interest_ctl op' fd event f =
    (if op' = 1 \<and> f fd = None \<or> op' = 3 \<and> f fd \<noteq> None then (Ok (), f(fd \<mapsto> event))
     else if op' = 2 \<and> f fd \<noteq> None then (Ok (), f(fd := None))
     else (Err (if op' = 1 then EEXIST else if op' \<in> {2, 3} then ENOENT else EINVAL), f))"

text \<open>
  The event reported for an interest: the requested directions that are ready, and errors and hang-ups
  whether they were asked for or not.
\<close>

definition interest_event :: "nat option list \<Rightarrow> kernel \<Rightarrow> i32 \<Rightarrow> EpollEvent \<Rightarrow> EpollEvent option" where
  "interest_event fds k fd e =
    (if 0 \<le> fd \<and> nat fd < length fds \<and> fds ! nat fd \<noteq> None then
       let pf = inode_poll (fh_inode (k_handles k (the (fds ! nat fd)))) k;
           t = ((ev_events e AND (of_bool (ipf_readable pf) * 1 OR of_bool (ipf_writable pf) * 4))
                OR of_bool (ipf_hangup pf) * 16) OR of_bool (ipf_error pf) * 8
       in if t = 0 then None else Some \<lparr> ev_events = t, ev_data = ev_data e \<rparr>
     else None)"

definition interest_wait :: "nat option list \<Rightarrow> kernel \<Rightarrow> (i32 \<rightharpoonup> EpollEvent) \<Rightarrow> EpollEvent list" where
  "interest_wait fds k f =
    List.map_filter (\<lambda>fd. interest_event fds k fd (the (f fd))) (sorted_list_of_set (dom f))"

lemma and_EPOLLIN: "(x :: u32) AND 1 = of_bool (bit x 0)"
  by (rule bit_word_eqI) (auto simp: bit_simps)

lemma and_EPOLLOUT: "(x :: u32) AND 4 = of_bool (bit x 2) * 4"
proof (rule bit_word_eqI)
  fix n assume "n < LENGTH(32)"
  have "bit (4 :: u32) n \<longleftrightarrow> n = 2" using bit_exp_iff [where 'a = u32, of 2 n] by (auto simp: bit_simps)
  then show "bit (x AND 4) n \<longleftrightarrow> bit (of_bool (bit x 2) * 4 :: u32) n" by (auto simp: bit_simps)
qed

lemma triggered_eq:
  "triggered x pf =
    ((x AND (of_bool (ipf_readable pf) * 1 OR of_bool (ipf_writable pf) * 4))
     OR of_bool (ipf_hangup pf) * 16) OR of_bool (ipf_error pf) * 8"
  unfolding triggered_def Let_def posix_consts
  by (simp add: bit.conj_disj_distrib and_EPOLLIN and_EPOLLOUT)

lemma epoll_loop_eq:
  "length ready \<le> min maxevents len \<Longrightarrow>
    epoll_loop maxevents len fds k m ready =
      take (min maxevents len) (ready @ List.map_filter (\<lambda>(fd, e). interest_event fds k fd e) m)"
proof (induction m arbitrary: ready)
  case Nil
  then show ?case by (simp add: map_filter_simps)
next
  case (Cons x m)
  obtain fd e where x: "x = (fd, e)" by (cases x)
  show ?case
  proof (cases "length ready \<ge> maxevents \<or> length ready \<ge> len")
    case True
    then show ?thesis using Cons.prems by (auto simp: x min_def)
  next
    case False
    then show ?thesis
      using Cons.IH [of ready] Cons.IH [of "ready @ [\<lparr> ev_events = t, ev_data = ev_data e \<rparr>]" for t]
      by (auto simp: x map_filter_simps interest_event_def triggered_eq Let_def split: option.split)
  qed
qed

lemma bt_keys_sorted: "bt_ok m \<Longrightarrow> sorted_list_of_set (dom (bt_get m)) = map fst m"
  using sorted_list_of_set.idem_if_sorted_distinct [of "map fst m"] bt_ok_distinct [of m]
  by (simp add: bt_ok_def strict_sorted_iff bt_get_def [abs_def] dom_map_of_conv_image_fst)

lemma map_filter_fst:
  "(\<And>x. x \<in> set m \<Longrightarrow> f (fst x) = g x) \<Longrightarrow> List.map_filter f (map fst m) = List.map_filter g m"
  by (induction m) (simp_all add: map_filter_simps split: option.split)

lemma interest_wait_eq:
  "interest_wait fds k (bt_get m) = List.map_filter (\<lambda>(fd, e). interest_event fds k fd e) m" if "bt_ok m"
  unfolding interest_wait_def bt_keys_sorted [OF that]
proof (rule map_filter_fst)
  fix x assume "x \<in> set m"
  then have "bt_get m (fst x) = Some (snd x)" using bt_get_eq_Some_iff [OF that, of "fst x" "snd x"] by simp
  then show "interest_event fds k (fst x) (the (bt_get m (fst x))) = (case x of (fd, e) \<Rightarrow> interest_event fds k fd e)"
    by (simp split: prod.split)
qed

text \<open>
  C38: An epoll instance behaves as the finite map of its interests. Every control operation keeps the
  interest list ordered, answers and updates it as the map does: adding a registered descriptor,
  changing or deleting an unregistered one and unknown operations are refused without effect. Waiting
  reports, in the order of the descriptors and at most \<open>maxevents\<close> of them, exactly the interests whose
  descriptor is open and ready, with the data word they were registered with.
\<close>

theorem epoll_refines_interests:
  assumes "bt_ok m"
  shows "bt_ok (snd (EpollInstance_ctl op' fd event m)) \<and>
    map_prod id bt_get (EpollInstance_ctl op' fd event m) = interest_ctl op' fd event (bt_get m) \<and>
    EpollInstance_wait len maxevents fds k m =
      (if maxevents = 0 \<or> len = 0 then Err EINVAL
       else Ok (take (min maxevents len) (interest_wait fds k (bt_get m))))"
proof (intro conjI)
  show "bt_ok (snd (EpollInstance_ctl op' fd event m))" using assms by (simp add: EpollInstance_ctl_def)
  show "map_prod id bt_get (EpollInstance_ctl op' fd event m) = interest_ctl op' fd event (bt_get m)"
    by (auto simp: EpollInstance_ctl_def interest_ctl_def posix_consts fun_eq_iff)
  show "EpollInstance_wait len maxevents fds k m =
      (if maxevents = 0 \<or> len = 0 then Err EINVAL
       else Ok (take (min maxevents len) (interest_wait fds k (bt_get m))))"
    using assms by (simp add: EpollInstance_wait_def epoll_loop_eq interest_wait_eq)
qed

text \<open>
  Descriptor 0 is a file, always ready in both directions; descriptor 5 is closed. Only the first is
  reported, for the direction it was registered with.
\<close>

theorem epoll_refines_interests_witness:
  "EpollInstance_ctl EPOLL_CTL_ADD 5 \<lparr> ev_events = 1, ev_data = 7 \<rparr> [(0, \<lparr> ev_events = 4, ev_data = 3 \<rparr>)] =
     (Ok (), [(0, \<lparr> ev_events = 4, ev_data = 3 \<rparr>), (5, \<lparr> ev_events = 1, ev_data = 7 \<rparr>)]) \<and>
   EpollInstance_wait 8 8 [Some 0] (demo_kernel\<lparr> k_handles := (\<lambda>_. FileHandle_new 0 2), k_inodes := (\<lambda>_. DevNull) \<rparr>)
     [(0, \<lparr> ev_events = 4, ev_data = 3 \<rparr>), (5, \<lparr> ev_events = 1, ev_data = 7 \<rparr>)] =
     Ok [\<lparr> ev_events = 4, ev_data = 3 \<rparr>]"
proof -
  let ?m = "[(0 :: i32, \<lparr> ev_events = 4, ev_data = 3 \<rparr>), (5, \<lparr> ev_events = 1, ev_data = 7 \<rparr>)]"
  let ?k = "demo_kernel\<lparr> k_handles := (\<lambda>_. FileHandle_new 0 2), k_inodes := (\<lambda>_. DevNull) \<rparr>"
  have "bt_ok ?m" by (simp add: bt_ok_def)
  from epoll_refines_interests [OF this, where len = 8 and maxevents = 8 and fds = "[Some 0]" and k = ?k]
  have "EpollInstance_wait 8 8 [Some 0] ?k ?m = Ok (take 8 (interest_wait [Some 0] ?k (bt_get ?m)))" by simp
  also have "\<dots> = Ok [\<lparr> ev_events = 4, ev_data = 3 \<rparr>]"
    using interest_wait_eq [OF \<open>bt_ok ?m\<close>, of "[Some 0]" ?k]
    by (simp add: map_filter_simps interest_event_def inode_poll_def FileHandle_new_def)
  finally show ?thesis by (simp add: EpollInstance_ctl_def posix_consts bt_get_def)
qed

end
