(* ===== verification/Posix_System.thy ===== *)
theory Posix_System
  imports Fs_Calls
begin

text \<open>
  System information and the working directory: \<^verbatim>\<open>services/posix/system.rs\<close>.
\<close>

subsection \<open>System information\<close>

text \<open>The six fields of the structure, each a string padded with zeros to 65 bytes.\<close>

definition uts_field :: "string \<Rightarrow> bytes" where
  "uts_field s = str_bytes s @ replicate (65 - length s) 0"

definition Utsname_bytes :: bytes where
  "Utsname_bytes =
    uts_field ''RustPOSIX'' @ uts_field [] @ uts_field ''1.0.0-framekernel'' @ uts_field ''POSIX.1-2024'' @
    uts_field ''x86_64'' @ uts_field []"

definition sys_uname :: "usize \<Rightarrow> kernel \<Rightarrow> (int \<times> kernel) option" where
  "sys_uname buf k =
    (case write_user buf Utsname_bytes k of
       None \<Rightarrow> None
     | Some (Ok _, k) \<Rightarrow> Some (0, k)
     | Some (Err e, k) \<Rightarrow> Some (- e, k)
     | Some (Panic, k) \<Rightarrow> None)"

text \<open>The fields that stay zero and the padding are written out as zeros.\<close>

definition Sysinfo_bytes :: "SystemMetricsSnapshot \<Rightarrow> bytes" where
  "Sysinfo_bytes mon =
    u64_bytes (sm_sample_tick mon) @ replicate 24 0 @
    u64_bytes (of_nat (sm_total_memory_bytes mon)) @ u64_bytes (of_nat (sm_free_memory_bytes mon)) @
    u64_bytes (of_nat (sm_used_heap_bytes mon)) @ u64_bytes (of_nat (sm_total_heap_bytes mon)) @
    replicate 16 0 @ u16_bytes (of_nat (sm_total_processes mon)) @ replicate 6 0 @ replicate 16 0 @
    u32_bytes 1 @ replicate 12 0"

definition SYSINFO_SIZE :: usize where [posix_consts]: "SYSINFO_SIZE = 120"

definition sys_sysinfo :: "usize \<Rightarrow> kernel \<Rightarrow> (int \<times> kernel) option" where
  "sys_sysinfo info k =
    (case UserPtr_from_raw SYSINFO_SIZE info of
       Inl e \<Rightarrow> Some (- map_user_error e, k)
     | Inr _ \<Rightarrow>
        let k = update_system_metrics k in
        case write_user info (Sysinfo_bytes (k_monitor k)) k of
          None \<Rightarrow> None
        | Some (Ok _, k) \<Rightarrow> Some (0, k)
        | Some (Err e, k) \<Rightarrow> Some (- e, k)
        | Some (Panic, k) \<Rightarrow> None)"

subsection \<open>The working directory\<close>

definition sys_getcwd :: "usize \<Rightarrow> usize \<Rightarrow> kernel \<Rightarrow> (int \<times> kernel) option" where
  "sys_getcwd buf size' k =
    (if buf = 0 \<or> size' = 0 then Some (- EINVAL, k)
     else case get_current_proc k of
       None \<Rightarrow> Some (- ESRCH, k)
     | Some p \<Rightarrow>
        let cwd_bytes = str_bytes (p_cwd p) in
        if length cwd_bytes + 1 > size' then Some (- ERANGE, k)
        else if length cwd_bytes + 1 > USER_STR_MAX then Some (- ERANGE, k)
        else case UserSlice_from_raw buf (length cwd_bytes + 1) of
          Inl e \<Rightarrow> Some (- map_user_error e, k)
        | Inr out \<Rightarrow>
           (case copy_to_user (k_cr3 k) out (cwd_bytes @ [0]) (k_mm k) of
              None \<Rightarrow> None
            | Some (Inr _, s) \<Rightarrow> Some (int buf, k\<lparr> k_mm := s \<rparr>)
            | Some (Inl e, s) \<Rightarrow> Some (- map_user_error e, k\<lparr> k_mm := s \<rparr>)))"

definition sys_chdir :: "usize \<Rightarrow> kernel \<Rightarrow> (int \<times> kernel) option" where
  "sys_chdir path_ptr k =
    (case copy_user_path (k_cr3 k) path_ptr (k_mm k) of
       Panic \<Rightarrow> None
     | Err e \<Rightarrow> Some (- e, k)
     | Ok path \<Rightarrow>
        (case get_current_process k of
           None \<Rightarrow> Some (- ESRCH, k)
         | Some r \<Rightarrow>
            let target_norm = normalize_path (p_cwd (k_procs k r)) path in
            case resolve_path ''/'' target_norm k of
              Panic \<Rightarrow> None
            | Err e \<Rightarrow> Some (- e, k)
            | Ok inode \<Rightarrow>
               if file_type (k_inodes k inode) \<noteq> Directory then Some (- ENOTDIR, k)
               else
                 let k = upd_proc r (p_cwd_update (\<lambda>_. target_norm)) k;
                     p = k_procs k r
                 in Some (0, snd (log_audit_event (p_pid p) (p_uid p) AUDIT_TYPE_DIR_CHANGE 0 target_norm
                      ''Working directory changed'' k))))"

lemma length_u16_bytes [simp]: "length (u16_bytes z) = 2"
  by (simp add: u16_bytes_def)

lemma length_Utsname: "length Utsname_bytes = 390"
  by (simp add: Utsname_bytes_def uts_field_def str_bytes_def)

lemma length_Sysinfo: "length (Sysinfo_bytes mon) = SYSINFO_SIZE"
  by (simp add: Sysinfo_bytes_def SYSINFO_SIZE_def)

lemma resolve_normalized: "resolve_path cwd' (normalize_path cwd path) k = resolve_path cwd path k"
  by (simp add: resolve_path_def normalize_again)

lemma walk_cong: "k_inodes k = k_inodes k' \<Longrightarrow> walk r cs k = walk r cs k'"
  by (induction cs arbitrary: r) (simp_all add: inode_lookup_def split: kres.split)

lemma resolve_path_cong: "k_inodes k = k_inodes k' \<Longrightarrow> k_root k = k_root k' \<Longrightarrow> resolve_path cwd path k = resolve_path cwd path k'"
  using walk_cong [of k k'] by (simp add: resolve_path_def Let_def split: option.split)

lemma resolve_path_error: "resolve_path cwd path k = Err e \<Longrightarrow> e \<in> {ENOENT, ENOTDIR, ENODEV}"
  using walk_total [of "the (k_root k)" "path_parts (normalize_path cwd path)" k]
  by (auto simp: resolve_path_def Let_def split: option.splits if_splits)

lemma copy_user_path_error: "copy_user_path r ptr s = Err e \<Longrightarrow> e \<in> {ENAMETOOLONG, EFAULT, EINVAL}"
  by (auto simp: copy_user_path_def map_user_error_def split: option.splits sum.splits if_splits UserAccessError.splits)

lemma log_audit_frame [simp]:
  "k_procs (snd (log_audit_event pid uid ty st tg dt k)) = k_procs k"
  "k_inodes (snd (log_audit_event pid uid ty st tg dt k)) = k_inodes k"
  "k_root (snd (log_audit_event pid uid ty st tg dt k)) = k_root k"
  "k_mm (snd (log_audit_event pid uid ty st tg dt k)) = k_mm k"
  "k_cr3 (snd (log_audit_event pid uid ty st tg dt k)) = k_cr3 k"
  "k_current (snd (log_audit_event pid uid ty st tg dt k)) = k_current k"
  by (simp_all add: log_audit_event_def Let_def)

lemma chdir_spec:
  assumes "sys_chdir path_ptr k = Some (0, k')"
  obtains r path i where "get_current_process k = Some r" "copy_user_path (k_cr3 k) path_ptr (k_mm k) = Ok path"
    "resolve_path (p_cwd (k_procs k r)) path k = Ok i" "file_type (k_inodes k i) = Directory"
    "k_procs k' = (k_procs k)(r := (k_procs k r)\<lparr> p_cwd := normalize_path (p_cwd (k_procs k r)) path \<rparr>)"
    "k_inodes k' = k_inodes k" "k_root k' = k_root k" "k_mm k' = k_mm k" "k_cr3 k' = k_cr3 k"
    "get_current_process k' = get_current_process k"
proof -
  from assms obtain path where path: "copy_user_path (k_cr3 k) path_ptr (k_mm k) = Ok path"
    using copy_user_path_error [of "k_cr3 k" path_ptr "k_mm k"] by (auto simp: sys_chdir_def posix_consts split: kres.splits)
  with assms obtain r where r: "get_current_process k = Some r"
    by (auto simp: sys_chdir_def ESRCH_def split: option.splits)
  with assms path obtain i where i: "resolve_path (p_cwd (k_procs k r)) path k = Ok i"
    using resolve_path_error [of "p_cwd (k_procs k r)" path k]
    by (auto simp: sys_chdir_def Let_def resolve_normalized posix_consts split: kres.splits)
  with assms path r have dir: "file_type (k_inodes k i) = Directory"
    by (auto simp: sys_chdir_def Let_def resolve_normalized ENOTDIR_def split: if_splits)
  show ?thesis
    by (rule that [OF r path i dir]; use assms path r i dir in
        \<open>auto simp: sys_chdir_def Let_def resolve_normalized upd_proc_def get_current_process_def\<close>)
qed

text \<open>What \<open>getcwd\<close> does.\<close>

lemma getcwd_spec:
  assumes "vm_inv R (k_cr3 k) (k_mm k)" "get_current_process k = Some r"
  shows "let cwd = str_bytes (p_cwd (k_procs k r)) @ [0] in
    if buf \<noteq> 0 \<and> length cwd \<le> size' \<and> length cwd \<le> USER_STR_MAX \<and> range_ok (k_cr3 k) (k_mm k) True buf (length cwd)
    then \<exists>s. sys_getcwd buf size' k = Some (int buf, k\<lparr> k_mm := s \<rparr>) \<and> stored R (k_cr3 k) buf cwd (k_mm k) s
    else \<exists>e \<in> {EINVAL, ERANGE, EFAULT, ENAMETOOLONG}. sys_getcwd buf size' k = Some (- e, k)"
proof -
  define cwd where "cwd = str_bytes (p_cwd (k_procs k r)) @ [0]"
  let ?u = "\<lparr> us_addr = buf, us_len = length cwd \<rparr>"
  have pos: "0 < length cwd" by (simp add: cwd_def)
  have eq: "sys_getcwd buf size' k =
      (if buf = 0 \<or> size' = 0 then Some (- EINVAL, k)
       else if length cwd > size' \<or> length cwd > USER_STR_MAX then Some (- ERANGE, k)
       else case UserSlice_from_raw buf (length cwd) of
          Inl e \<Rightarrow> Some (- map_user_error e, k)
        | Inr out \<Rightarrow>
           (case copy_to_user (k_cr3 k) out cwd (k_mm k) of
              None \<Rightarrow> None
            | Some (Inr _, s) \<Rightarrow> Some (int buf, k\<lparr> k_mm := s \<rparr>)
            | Some (Inl e, s) \<Rightarrow> Some (- map_user_error e, k\<lparr> k_mm := s \<rparr>)))"
    using assms(2) unfolding cwd_def by (simp add: sys_getcwd_def get_current_proc_def Let_def)
  have err: "map_user_error e \<in> {EINVAL, ERANGE, EFAULT, ENAMETOOLONG}" for e by (cases e) (simp_all add: map_user_error_def)
  obtain res s where cp: "copy_to_user (k_cr3 k) ?u cwd (k_mm k) = Some (res, s)"
    "if range_ok (k_cr3 k) (k_mm k) True buf (length cwd) then res = Inr (length cwd) \<and> stored R (k_cr3 k) buf cwd (k_mm k) s
     else (\<exists>e. res = Inl e) \<and> s = k_mm k"
    using copy_to_user_spec [OF assms(1), of ?u cwd] by (auto split: if_splits)
  have raw: "buf \<noteq> 0 \<Longrightarrow> UserSlice_from_raw buf (length cwd) =
      (if buf + length cwd \<le> USER_SPACE_END then Inr ?u else Inl (if buf + length cwd < USIZE_LIMIT then OutOfUserRange else Overflow))"
    using pos by (auto simp: UserSlice_from_raw_def checked_add_def USER_SPACE_END_def USIZE_LIMIT_def)
  have out: "\<not> buf + length cwd \<le> USER_SPACE_END \<Longrightarrow> \<not> range_ok (k_cr3 k) (k_mm k) True buf (length cwd)"
    using pos by (simp add: range_ok_def)
  show ?thesis
    unfolding Let_def cwd_def [symmetric]
  proof (cases "range_ok (k_cr3 k) (k_mm k) True buf (length cwd)")
    case True
    then have "buf + length cwd \<le> USER_SPACE_END" using out by blast
    then show "if buf \<noteq> 0 \<and> length cwd \<le> size' \<and> length cwd \<le> USER_STR_MAX \<and> range_ok (k_cr3 k) (k_mm k) True buf (length cwd)
        then \<exists>s. sys_getcwd buf size' k = Some (int buf, k\<lparr> k_mm := s \<rparr>) \<and> stored R (k_cr3 k) buf cwd (k_mm k) s
        else \<exists>e \<in> {EINVAL, ERANGE, EFAULT, ENAMETOOLONG}. sys_getcwd buf size' k = Some (- e, k)"
      using True cp raw pos by (auto simp: eq)
  next
    case False
    then obtain e where "res = Inl e" "s = k_mm k" using cp(2) by auto
    moreover have "map_user_error e \<in> {EINVAL, ERANGE, EFAULT, ENAMETOOLONG}" by (rule err)
    ultimately show "if buf \<noteq> 0 \<and> length cwd \<le> size' \<and> length cwd \<le> USER_STR_MAX \<and> range_ok (k_cr3 k) (k_mm k) True buf (length cwd)
        then \<exists>s. sys_getcwd buf size' k = Some (int buf, k\<lparr> k_mm := s \<rparr>) \<and> stored R (k_cr3 k) buf cwd (k_mm k) s
        else \<exists>e \<in> {EINVAL, ERANGE, EFAULT, ENAMETOOLONG}. sys_getcwd buf size' k = Some (- e, k)"
      using False cp(1) raw by (auto simp: eq map_user_error_def)
  qed
qed

text \<open>
  C39: A successful \<open>chdir\<close> sets the caller's working directory to the canonical form of the directory the
  path names, and to nothing else. From then on \<open>getcwd\<close> returns it: it stores exactly the path and the
  terminating zero when the buffer is large enough and writable, and otherwise fails and changes nothing.
\<close>

theorem chdir_getcwd:
  assumes "vm_inv R (k_cr3 k) (k_mm k)" "sys_chdir path_ptr k = Some (0, k')"
  shows "\<exists>r path i. get_current_process k = Some r \<and> copy_user_path (k_cr3 k) path_ptr (k_mm k) = Ok path \<and>
    resolve_path (p_cwd (k_procs k r)) path k = Ok i \<and> file_type (k_inodes k i) = Directory \<and>
    (let p = k_procs k r; cwd = normalize_path (p_cwd p) path; bs = str_bytes cwd @ [0] in
     k_procs k' = (k_procs k)(r := p\<lparr> p_cwd := cwd \<rparr>) \<and> resolve_path ''/'' cwd k' = Ok i \<and>
     (if buf \<noteq> 0 \<and> length bs \<le> size' \<and> length bs \<le> USER_STR_MAX \<and> range_ok (k_cr3 k) (k_mm k) True buf (length bs)
      then \<exists>s. sys_getcwd buf size' k' = Some (int buf, k'\<lparr> k_mm := s \<rparr>) \<and> stored R (k_cr3 k) buf bs (k_mm k) s
      else \<exists>e. e \<in> {EINVAL, ERANGE, EFAULT, ENAMETOOLONG} \<and> sys_getcwd buf size' k' = Some (- e, k')))"
proof -
  obtain r path i where c: "get_current_process k = Some r" "copy_user_path (k_cr3 k) path_ptr (k_mm k) = Ok path"
    "resolve_path (p_cwd (k_procs k r)) path k = Ok i" "file_type (k_inodes k i) = Directory"
    "k_procs k' = (k_procs k)(r := (k_procs k r)\<lparr> p_cwd := normalize_path (p_cwd (k_procs k r)) path \<rparr>)"
    "k_inodes k' = k_inodes k" "k_root k' = k_root k" "k_mm k' = k_mm k" "k_cr3 k' = k_cr3 k"
    "get_current_process k' = get_current_process k"
    using chdir_spec [OF assms(2)] by metis
  have res: "resolve_path ''/'' (normalize_path (p_cwd (k_procs k r)) path) k' = Ok i"
    using resolve_path_cong [OF c(6,7)] c(3) by (simp add: resolve_normalized)
  have g: "vm_inv R (k_cr3 k') (k_mm k')" "get_current_process k' = Some r" using assms(1) c(1,8-10) by simp_all
  have cwd: "p_cwd (k_procs k' r) = normalize_path (p_cwd (k_procs k r)) path" by (simp add: c(5))
  show ?thesis
    using c(1-5) res getcwd_spec [OF g, of buf size'] unfolding Let_def cwd c(8,9) Bex_def by blast
qed

theorem chdir_getcwd_witness:
  "\<exists>k' k''. sys_chdir 0x400000 (demo_caller [47] 0) = Some (0, k') \<and> sys_getcwd 0x400010 8 k' = Some (0x400010, k'')
    \<and> user_get 8192 (k_mm k'') 0x400010 = Some 47"
proof -
  let ?k = "demo_caller [47] 0"
  have root: "from_utf8_ok [47]" "str_of [47] = ''/''" by code_simp+
  have path: "copy_user_path (k_cr3 ?k) 0x400000 (k_mm ?k) = Ok ''/''"
    unfolding demo_caller using demo_str_path [of "[47]"] root by simp
  have norm: "normalize_path ''/'' ''/'' = ''/''" by code_simp
  have "resolve_path ''/'' ''/'' ?k = Ok 0" by (simp add: resolve_path_def demo_caller norm)
  moreover have "file_type (k_inodes ?k 0) = Directory" by (simp add: demo_caller demo_fs_simps file_type_def)
  ultimately obtain k' where k': "sys_chdir 0x400000 ?k = Some (0, k')"
    using path by (simp add: sys_chdir_def Let_def demo_caller demo_caller [simplified] norm)
  note st = demo_str_stored [of "[47]"]
  have inv: "vm_inv {8192} (k_cr3 ?k) (k_mm ?k)" using st by (simp add: demo_caller stored_def)
  have rng: "range_ok (k_cr3 ?k) (k_mm ?k) True 0x400010 2"
    using st demo_range [of True] by (simp add: demo_caller stored_def range_ok_def user_ok_def)
  show ?thesis
    using chdir_getcwd [OF inv k', of "0x400010" 8] path rng k'
    by (auto simp: Let_def demo_caller demo_caller [simplified] norm str_bytes_def stored_def USER_STR_MAX_def USER_SPACE_END_def
        numeral_2_eq_2 [symmetric])
qed

end
