(* ===== verification/Elf.thy ===== *)
theory Elf
  imports Process Vm_Account
begin

text \<open>
  The ELF loader and the initial user stack (\<^verbatim>\<open>services/process/elf.rs\<close>), with the reads of structures from
  byte slices it uses (\<^verbatim>\<open>ostd/mm/pod.rs\<close>). A result is \<open>Result<_, &'static str>\<close> with a panic as third case.
\<close>

datatype 'a elf_result = LOk 'a | LErr string | LPanic

definition ELF_MAGIC :: bytes where [posix_consts]: "ELF_MAGIC = [0x7F, 0x45, 0x4C, 0x46]"
definition ELF_CLASS_64 :: u8 where [posix_consts]: "ELF_CLASS_64 = 2"
definition ELF_DATA_2LSB :: u8 where [posix_consts]: "ELF_DATA_2LSB = 1"
definition EM_X86_64 :: u16 where [posix_consts]: "EM_X86_64 = 0x3E"
definition PT_LOAD :: u32 where [posix_consts]: "PT_LOAD = 1"
definition PF_X :: u32 where [posix_consts]: "PF_X = 1"
definition PF_W :: u32 where [posix_consts]: "PF_W = 2"
definition USER_STACK_TOP :: usize where [posix_consts]: "USER_STACK_TOP = 0x7FFFFFFF0000"
definition USER_STACK_SIZE :: usize where [posix_consts]: "USER_STACK_SIZE = 128 * 1024"

subsection \<open>Headers\<close>

record Elf64Header =
  e_ident :: bytes
  e_machine :: u16
  e_entry :: u64
  e_phoff :: u64
  e_phentsize :: u16
  e_phnum :: u16

record Elf64Phdr =
  p_type :: u32
  p_flags :: u32
  p_offset :: u64
  p_vaddr :: u64
  p_filesz :: u64
  p_memsz :: u64

text \<open>The bytes of a value of the given size at an offset, if they fit.\<close>

definition read_pod :: "usize \<Rightarrow> bytes \<Rightarrow> usize \<Rightarrow> bytes option" where
  "read_pod size_of_T bs offset =
    (case checked_add offset size_of_T of
       None \<Rightarrow> None
     | Some end' \<Rightarrow> if end' \<le> length bs then Some (take size_of_T (drop offset bs)) else None)"

text \<open>The fields the loader reads, at their offsets in the structures.\<close>

definition le_field :: "nat \<Rightarrow> nat \<Rightarrow> bytes \<Rightarrow> nat" where
  "le_field offset n bs = of_le (take n (drop offset bs))"

definition Elf64Header_of :: "bytes \<Rightarrow> Elf64Header" where
  "Elf64Header_of bs =
    \<lparr> e_ident = take 16 bs, e_machine = of_nat (le_field 18 2 bs), e_entry = of_nat (le_field 24 8 bs),
      e_phoff = of_nat (le_field 32 8 bs), e_phentsize = of_nat (le_field 54 2 bs), e_phnum = of_nat (le_field 56 2 bs) \<rparr>"

definition Elf64Phdr_of :: "bytes \<Rightarrow> Elf64Phdr" where
  "Elf64Phdr_of bs =
    \<lparr> p_type = of_nat (le_field 0 4 bs), p_flags = of_nat (le_field 4 4 bs), p_offset = of_nat (le_field 8 8 bs),
      p_vaddr = of_nat (le_field 16 8 bs), p_filesz = of_nat (le_field 32 8 bs), p_memsz = of_nat (le_field 40 8 bs) \<rparr>"

definition ELF_HEADER_SIZE :: usize where [posix_consts]: "ELF_HEADER_SIZE = 64"
definition ELF_PHDR_SIZE :: usize where [posix_consts]: "ELF_PHDR_SIZE = 56"

definition segment_flags :: "u32 \<Rightarrow> PageFlags" where
  "segment_flags fl =
    \<lparr> pf_present = True, pf_writable = (fl AND PF_W \<noteq> 0), pf_user = True, pf_no_exec = (fl AND PF_X = 0) \<rparr>"

subsection \<open>Segments\<close>

text \<open>The body of the loop for a loadable segment. The result is the address of the program headers found so far.\<close>

definition load_segment :: "bytes \<Rightarrow> usize \<Rightarrow> Elf64Phdr \<Rightarrow> usize \<Rightarrow> VmSpace \<Rightarrow> mmu \<Rightarrow> usize elf_result \<times> VmSpace \<times> mmu" where
  "load_segment elf_bytes phoff phdr phdr_vaddr vm s =
    (let vaddr = unat (p_vaddr phdr); memsz = unat (p_memsz phdr);
         filesz = unat (p_filesz phdr); file_offset = unat (p_offset phdr)
     in case checked_add file_offset filesz of
          None \<Rightarrow> (LPanic, vm, s)
        | Some file_end \<Rightarrow>
           if file_end > length elf_bytes then (LErr ''Segment data out of bounds in ELF file'', vm, s)
           else case alloc_and_map_range vm vaddr memsz (segment_flags (p_flags phdr)) s of
             (VmPanic, vm, s) \<Rightarrow> (LPanic, vm, s)
           | (VmErr e, vm, s) \<Rightarrow> (LErr e, vm, s)
           | (VmOk, vm, s) \<Rightarrow>
              (case (if filesz > 0 then write_bytes_to_space vm vaddr (take filesz (drop file_offset elf_bytes)) s else (VmOk, s)) of
                 (VmPanic, s) \<Rightarrow> (LPanic, vm, s)
               | (VmErr e, s) \<Rightarrow> (LErr e, vm, s)
               | (VmOk, s) \<Rightarrow>
                  if phoff \<ge> file_offset \<and> phoff < file_end \<and> phdr_vaddr = 0 then
                    (case checked_add vaddr (phoff - file_offset) of
                       None \<Rightarrow> (LPanic, vm, s)
                     | Some a \<Rightarrow> (LOk a, vm, s))
                  else (LOk phdr_vaddr, vm, s)))"

text \<open>The loop over the program headers \<open>i\<close>, \<dots>, \<open>i + n - 1\<close>.\<close>

fun load_segments :: "bytes \<Rightarrow> usize \<Rightarrow> usize \<Rightarrow> nat \<Rightarrow> nat \<Rightarrow> usize \<Rightarrow> VmSpace \<Rightarrow> mmu \<Rightarrow> usize elf_result \<times> VmSpace \<times> mmu" where
  "load_segments elf_bytes phoff phentsize i 0 phdr_vaddr vm s = (LOk phdr_vaddr, vm, s)"
| "load_segments elf_bytes phoff phentsize i (Suc n) phdr_vaddr vm s =
    (case checked_add phoff (i * phentsize) of
       None \<Rightarrow> (LPanic, vm, s)
     | Some offset \<Rightarrow>
    (case read_pod ELF_PHDR_SIZE elf_bytes offset of
       None \<Rightarrow> (LErr ''Program header out of bounds'', vm, s)
     | Some bs \<Rightarrow>
        let phdr = Elf64Phdr_of bs in
        if p_type phdr = PT_LOAD then
          (case load_segment elf_bytes phoff phdr phdr_vaddr vm s of
             (LOk phdr_vaddr, vm, s) \<Rightarrow> load_segments elf_bytes phoff phentsize (Suc i) n phdr_vaddr vm s
           | res \<Rightarrow> res)
        else load_segments elf_bytes phoff phentsize (Suc i) n phdr_vaddr vm s))"

subsection \<open>The user stack\<close>

text \<open>
  The loops that copy the strings below \<open>sp\<close>; the result is the new stack pointer and the addresses of
  the strings.
\<close>

fun push_strings :: "string \<Rightarrow> VmSpace \<Rightarrow> string list \<Rightarrow> usize \<Rightarrow> usize list \<Rightarrow> mmu \<Rightarrow> (usize \<times> usize list) elf_result \<times> mmu" where
  "push_strings msg vm [] sp ptrs s = (LOk (sp, ptrs), s)"
| "push_strings msg vm (str # strs) sp ptrs s =
    (let bs = str_bytes str in
     if sp < USER_STACK_TOP - USER_STACK_SIZE + length bs + 1 then (LErr msg, s)
     else
       let sp = sp - (length bs + 1) in
       case write_bytes_to_space vm sp bs s of
         (VmPanic, s) \<Rightarrow> (LPanic, s)
       | (VmErr e, s) \<Rightarrow> (LErr e, s)
       | (VmOk, s) \<Rightarrow>
          (case write_bytes_to_space vm (sp + length bs) [0] s of
             (VmPanic, s) \<Rightarrow> (LPanic, s)
           | (VmErr e, s) \<Rightarrow> (LErr e, s)
           | (VmOk, s) \<Rightarrow> push_strings msg vm strs sp (ptrs @ [sp]) s))"

text \<open>Words pushed one after the other.\<close>

fun push_words :: "VmSpace \<Rightarrow> u64 list \<Rightarrow> usize \<Rightarrow> mmu \<Rightarrow> usize elf_result \<times> mmu" where
  "push_words vm [] sp s = (LOk sp, s)"
| "push_words vm (w # ws) sp s =
    (if sp < 8 then (LPanic, s)
     else case write_bytes_to_space vm (sp - 8) (u64_bytes w) s of
         (VmPanic, s) \<Rightarrow> (LPanic, s)
       | (VmErr e, s) \<Rightarrow> (LErr e, s)
       | (VmOk, s) \<Rightarrow> push_words vm ws (sp - 8) s)"

definition auxv :: "usize \<Rightarrow> usize \<Rightarrow> usize \<Rightarrow> usize \<Rightarrow> (u64 \<times> u64) list" where
  "auxv entry_point phdr_vaddr phentsize phnum =
    [(AT_PAGESZ, 4096), (AT_ENTRY, of_nat entry_point), (AT_PHDR, of_nat phdr_vaddr),
     (AT_PHENT, of_nat phentsize), (AT_PHNUM, of_nat phnum), (AT_NULL, 0)]"

text \<open>What steps 5 to 8 push: the auxiliary vector, the environment, the arguments and their number.\<close>

definition pushed_words :: "(u64 \<times> u64) list \<Rightarrow> usize list \<Rightarrow> usize list \<Rightarrow> nat \<Rightarrow> u64 list" where
  "pushed_words aux envp_ptrs argv_ptrs argc =
    concat (map (\<lambda>(key, val). [val, key]) (rev aux)) @
    [0] @ map of_nat (rev envp_ptrs) @
    [0] @ map of_nat (rev argv_ptrs) @
    [of_nat argc]"

text \<open>Steps 3 to 8, below the strings.\<close>

definition push_frame :: "VmSpace \<Rightarrow> (u64 \<times> u64) list \<Rightarrow> usize list \<Rightarrow> usize list \<Rightarrow> nat \<Rightarrow> usize \<Rightarrow> mmu \<Rightarrow> usize elf_result \<times> mmu" where
  "push_frame vm aux envp_ptrs argv_ptrs argc sp s =
    (let sp = align_down sp 8;
         total_words = 1 + (length argv_ptrs + 1) + (length envp_ptrs + 1) + length aux * 2
     in case checked_sub sp (total_words * 8) of
          None \<Rightarrow> (LErr ''Stack pointer underflow'', s)
        | Some target_sp \<Rightarrow>
           let aligned_sp = align_down target_sp 16 in
           if aligned_sp < USER_STACK_TOP - USER_STACK_SIZE
           then (LErr ''User stack frame exceeds user stack limit (E2BIG)'', s)
           else
             let padding = target_sp - aligned_sp in
             case push_words vm (pushed_words aux envp_ptrs argv_ptrs argc) (sp - padding) s of
               (LOk sp, s) \<Rightarrow>
                 if sp \<noteq> aligned_sp then (LErr ''Stack alignment computation mismatch'', s) else (LOk sp, s)
             | res \<Rightarrow> res)"

definition setup_user_stack ::
  "VmSpace \<Rightarrow> usize \<Rightarrow> usize \<Rightarrow> usize \<Rightarrow> usize \<Rightarrow> string list \<Rightarrow> string list \<Rightarrow> mmu \<Rightarrow> usize elf_result \<times> mmu" where
  "setup_user_stack vm entry_point phdr_vaddr phentsize phnum argv envp s =
    (case push_strings ''Environment list exceeds user stack limit (E2BIG)'' vm envp USER_STACK_TOP [] s of
       (LPanic, s) \<Rightarrow> (LPanic, s)
     | (LErr e, s) \<Rightarrow> (LErr e, s)
     | (LOk (sp, envp_ptrs), s) \<Rightarrow>
    (case push_strings ''Argument list exceeds user stack limit (E2BIG)'' vm argv sp [] s of
       (LPanic, s) \<Rightarrow> (LPanic, s)
     | (LErr e, s) \<Rightarrow> (LErr e, s)
     | (LOk (sp, argv_ptrs), s) \<Rightarrow>
        push_frame vm (auxv entry_point phdr_vaddr phentsize phnum) envp_ptrs argv_ptrs (length argv) sp s))"

subsection \<open>The loader\<close>

definition load_elf :: "bytes \<Rightarrow> VmSpace \<Rightarrow> string list \<Rightarrow> string list \<Rightarrow> mmu \<Rightarrow> LoadedElf elf_result \<times> VmSpace \<times> mmu" where
  "load_elf elf_bytes vm argv envp s =
    (case read_pod ELF_HEADER_SIZE elf_bytes 0 of
       None \<Rightarrow> (LErr ''ELF file too small for header'', vm, s)
     | Some bs \<Rightarrow>
        let header = Elf64Header_of bs in
        if take 4 (e_ident header) \<noteq> ELF_MAGIC then (LErr ''Invalid ELF magic'', vm, s)
        else if e_ident header ! 4 \<noteq> ELF_CLASS_64 then (LErr ''Not a 64-bit ELF'', vm, s)
        else if e_ident header ! 5 \<noteq> ELF_DATA_2LSB then (LErr ''Not a little-endian ELF'', vm, s)
        else if e_machine header \<noteq> EM_X86_64 then (LErr ''Not an x86_64 ELF'', vm, s)
        else
          let phoff = unat (e_phoff header); phentsize = unat (e_phentsize header); phnum = unat (e_phnum header) in
          case load_segments elf_bytes phoff phentsize 0 phnum 0 vm s of
            (LPanic, vm, s) \<Rightarrow> (LPanic, vm, s)
          | (LErr e, vm, s) \<Rightarrow> (LErr e, vm, s)
          | (LOk phdr_vaddr, vm, s) \<Rightarrow>
             (case alloc_and_map_range vm (USER_STACK_TOP - USER_STACK_SIZE) USER_STACK_SIZE user_data s of
                (VmPanic, vm, s) \<Rightarrow> (LPanic, vm, s)
              | (VmErr e, vm, s) \<Rightarrow> (LErr e, vm, s)
              | (VmOk, vm, s) \<Rightarrow>
                 (case setup_user_stack vm (unat (e_entry header)) phdr_vaddr phentsize phnum argv envp s of
                    (LPanic, s) \<Rightarrow> (LPanic, vm, s)
                  | (LErr e, s) \<Rightarrow> (LErr e, vm, s)
                  | (LOk initial_rsp, s) \<Rightarrow>
                     (LOk \<lparr> le_entry_point = unat (e_entry header), le_user_stack_top = initial_rsp \<rparr>, vm, s))))"

subsection \<open>The initial stack\<close>

abbreviation stack_bottom :: usize where "stack_bottom \<equiv> USER_STACK_TOP - USER_STACK_SIZE"

definition stack_mapped :: "usize \<Rightarrow> mmu \<Rightarrow> bool" where
  "stack_mapped r s \<longleftrightarrow> (\<forall>x. stack_bottom \<le> x \<and> x < USER_STACK_TOP \<longrightarrow> translate (mem s) r x \<noteq> None)"

lemma stack_in_user: "USER_STACK_TOP < USER_SPACE_END"
  by (simp add: USER_STACK_TOP_def USER_SPACE_END_def)

lemma stack_mapped_stored:
  assumes "stored R r v bs s s'" "r \<in> R" "stack_mapped r s"
  shows "stack_mapped r s'"
  unfolding stack_mapped_def
proof (intro allI impI)
  fix x assume "stack_bottom \<le> x \<and> x < USER_STACK_TOP"
  then show "translate (mem s') r x \<noteq> None"
    using assms(3) stored_translate [OF assms(1,2), of x] stack_in_user by (simp add: stack_mapped_def)
qed

lemma write_to_stack:
  assumes "vm_inv R (address_space vm) s" "stack_mapped (address_space vm) s" "stack_bottom \<le> v" "v + length data \<le> USER_STACK_TOP"
  obtains s' where "write_bytes_to_space vm v data s = (VmOk, s')" "stored R (address_space vm) v data s s'"
    "vm_inv R (address_space vm) s'" "stack_mapped (address_space vm) s'"
proof -
  obtain res s' where run: "write_bytes_to_space vm v data s = (res, s')" by fastforce
  have "\<forall>i<length data. translate (mem s) (address_space vm) (v + i) \<noteq> None"
    using assms(2-4) by (auto simp: stack_mapped_def)
  moreover have "v + length data \<le> USER_SPACE_END" using assms(4) stack_in_user by linarith
  ultimately have ok: "res = VmOk" "stored R (address_space vm) v data s s'"
    using write_bytes_to_space_correct [OF assms(1) _ run] by simp_all
  have "address_space vm \<in> R" using assms(1) by (simp add: vm_inv_def)
  then show ?thesis using that run ok stack_mapped_stored [OF ok(2) _ assms(2)] by (simp add: stored_def)
qed

text \<open>A block of bytes written downwards.\<close>

lemma stored_below:
  assumes "stored R r (v + length bs) cs s s1" "stored R r v bs s1 s2"
  shows "stored R r v (bs @ cs) s s2"
  using assms unfolding stored_def by (auto simp: nth_append diff_diff_left)

definition strings_size :: "string list \<Rightarrow> nat" where
  "strings_size strs = sum_list (map (\<lambda>x. length x + 1) strs)"

definition string_block :: "string list \<Rightarrow> bytes" where
  "string_block strs = concat (map (\<lambda>x. str_bytes x @ [0]) (rev strs))"

fun string_addrs :: "usize \<Rightarrow> string list \<Rightarrow> usize list" where
  "string_addrs sp [] = []"
| "string_addrs sp (x # xs) = (sp - (length x + 1)) # string_addrs (sp - (length x + 1)) xs"

lemma length_str_bytes [simp]: "length (str_bytes x) = length x"
  by (simp add: str_bytes_def)

lemma strings_size_simps [simp]: "strings_size [] = 0" "strings_size (x # xs) = length x + 1 + strings_size xs"
  by (simp_all add: strings_size_def)

lemma string_block_simps [simp]: "string_block [] = []" "string_block (x # xs) = string_block xs @ str_bytes x @ [0]"
  by (simp_all add: string_block_def)

lemma length_string_block [simp]: "length (string_block xs) = strings_size xs"
  by (induction xs) simp_all

lemma length_string_addrs [simp]: "length (string_addrs sp xs) = length xs"
  by (induction xs arbitrary: sp) simp_all

lemma push_strings_spec:
  assumes "vm_inv R (address_space vm) s" "stack_mapped (address_space vm) s" "stack_bottom \<le> sp" "sp \<le> USER_STACK_TOP"
  shows "if stack_bottom + strings_size strs \<le> sp
    then \<exists>s'. push_strings msg vm strs sp ptrs s = (LOk (sp - strings_size strs, ptrs @ string_addrs sp strs), s')
      \<and> stored R (address_space vm) (sp - strings_size strs) (string_block strs) s s' \<and> stack_mapped (address_space vm) s'
    else \<exists>s'. push_strings msg vm strs sp ptrs s = (LErr msg, s')"
  using assms
proof (induction strs arbitrary: sp ptrs s)
  case Nil
  then show ?case by (simp add: stored_Nil)
next
  case (Cons x xs)
  let ?sp = "sp - (length x + 1)"
  show ?case
  proof (cases "sp < stack_bottom + length x + 1")
    case True
    then show ?thesis by (auto simp: Let_def)
  next
    case False
    then have sp: "stack_bottom \<le> ?sp" "?sp + length (str_bytes x) \<le> USER_STACK_TOP" "?sp \<le> USER_STACK_TOP"
      "?sp + length x + 1 = sp" using Cons.prems(4) by auto
    obtain s1 where s1: "write_bytes_to_space vm ?sp (str_bytes x) s = (VmOk, s1)" "stored R (address_space vm) ?sp (str_bytes x) s s1"
      "vm_inv R (address_space vm) s1" "stack_mapped (address_space vm) s1"
      using write_to_stack [OF Cons.prems(1,2) sp(1,2)] .
    have sp2: "stack_bottom \<le> ?sp + length x" "?sp + length x + length [0 :: u8] \<le> USER_STACK_TOP"
      using sp Cons.prems(4) by auto
    obtain s2 where s2: "write_bytes_to_space vm (?sp + length x) [0] s1 = (VmOk, s2)"
      "stored R (address_space vm) (?sp + length x) [0] s1 s2" "vm_inv R (address_space vm) s2" "stack_mapped (address_space vm) s2"
      using write_to_stack [OF s1(3,4) sp2] .
    have st: "stored R (address_space vm) ?sp (str_bytes x @ [0]) s s2"
      using stored_append [OF s1(2), of "[0]" s2] s2(2) by simp
    have step: "push_strings msg vm (x # xs) sp ptrs s = push_strings msg vm xs ?sp (ptrs @ [?sp]) s2"
      using False s1(1) s2(1) by (simp add: Let_def)
    have fits: "stack_bottom + strings_size (x # xs) \<le> sp \<longleftrightarrow> stack_bottom + strings_size xs \<le> ?sp"
      "sp - strings_size (x # xs) = ?sp - strings_size xs" using False by auto
    note IH = Cons.IH [OF s2(3,4) sp(1,3), of "ptrs @ [?sp]"]
    show ?thesis
    proof (cases "stack_bottom + strings_size xs \<le> ?sp")
      case True
      then obtain s' where s': "push_strings msg vm xs ?sp (ptrs @ [?sp]) s2 = (LOk (?sp - strings_size xs, (ptrs @ [?sp]) @ string_addrs ?sp xs), s')"
        "stored R (address_space vm) (?sp - strings_size xs) (string_block xs) s2 s'" "stack_mapped (address_space vm) s'"
        using IH by auto
      have "?sp - strings_size xs + length (string_block xs) = ?sp" using True by simp
      then have "stored R (address_space vm) (?sp - strings_size xs) (string_block xs @ str_bytes x @ [0]) s s'"
        using stored_below [OF _ s'(2), of "str_bytes x @ [0]" s] st by simp
      then show ?thesis unfolding step fits using s'(1,3) True by simp
    next
      case False
      then show ?thesis unfolding step fits using IH by simp
    qed
  qed
qed

definition words_block :: "u64 list \<Rightarrow> bytes" where
  "words_block ws = concat (map u64_bytes ws)"

lemma words_block_simps [simp]:
  "words_block [] = []" "words_block (w # ws) = u64_bytes w @ words_block ws" "words_block (vs @ ws) = words_block vs @ words_block ws"
  by (simp_all add: words_block_def)

lemma length_words_block [simp]: "length (words_block ws) = 8 * length ws"
  by (induction ws) simp_all

lemma push_words_spec:
  assumes "vm_inv R (address_space vm) s" "stack_mapped (address_space vm) s" "stack_bottom + 8 * length ws \<le> sp" "sp \<le> USER_STACK_TOP"
  shows "\<exists>s'. push_words vm ws sp s = (LOk (sp - 8 * length ws), s')
    \<and> stored R (address_space vm) (sp - 8 * length ws) (words_block (rev ws)) s s'"
  using assms
proof (induction ws arbitrary: sp s)
  case Nil
  then show ?case by (simp add: stored_Nil)
next
  case (Cons w ws)
  have sp: "stack_bottom \<le> sp - 8" "sp - 8 + length (u64_bytes w) \<le> USER_STACK_TOP" "stack_bottom + 8 * length ws \<le> sp - 8"
    "sp - 8 \<le> USER_STACK_TOP" "\<not> sp < 8"
    using Cons.prems(3,4) by auto
  obtain s1 where s1: "write_bytes_to_space vm (sp - 8) (u64_bytes w) s = (VmOk, s1)"
    "stored R (address_space vm) (sp - 8) (u64_bytes w) s s1" "vm_inv R (address_space vm) s1" "stack_mapped (address_space vm) s1"
    using write_to_stack [OF Cons.prems(1,2) sp(1,2)] .
  obtain s' where s': "push_words vm ws (sp - 8) s1 = (LOk (sp - 8 - 8 * length ws), s')"
    "stored R (address_space vm) (sp - 8 - 8 * length ws) (words_block (rev ws)) s1 s'"
    using Cons.IH [OF s1(3,4) sp(3,4)] by blast
  have "sp - 8 - 8 * length ws + length (words_block (rev ws)) = sp - 8" using sp(3) by simp
  then have "stored R (address_space vm) (sp - 8 - 8 * length ws) (words_block (rev ws) @ u64_bytes w) s s'"
    using stored_below [OF _ s'(2), of "u64_bytes w" s] s1(2) by simp
  then show ?case using s1(1) s'(1) sp(5) by (simp add: diff_diff_left)
qed

text \<open>Reading back what was stored.\<close>

lemma stored_load:
  assumes "stored R r v (as @ bs @ cs) s s'" "r \<in> R" "v + length (as @ bs @ cs) \<le> USER_SPACE_END"
  shows "user_load r s' (v + length as) (length bs) = Some bs"
proof -
  have "user_get r s' (v + length as + i) = Some (bs ! i)" if "i < length bs" for i
    using assms that by (simp add: stored_def nth_append)
  then show ?thesis by (auto simp: user_load_spec intro: nth_equalityI)
qed

lemma user_load_other:
  assumes "stored R r v bs s s'" "r' \<in> R" "a + n \<le> v \<or> v + length bs \<le> a" "a + n \<le> USER_SPACE_END"
  shows "user_load r' s' a n = user_load r' s a n"
proof -
  have "user_get r' s' (a + i) = user_get r' s (a + i)" if "i < n" for i
    using assms that by (auto simp: stored_def)
  then show ?thesis by (simp add: user_load_spec cong: if_cong)
qed

lemma string_block_load:
  assumes "stored R r (sp - strings_size xs) (string_block xs @ bs) s s'" "r \<in> R" "strings_size xs \<le> sp" "sp + length bs \<le> USER_SPACE_END"
    and "i < length xs"
  shows "user_load r s' (string_addrs sp xs ! i) (length (xs ! i) + 1) = Some (str_bytes (xs ! i) @ [0])
    \<and> sp - strings_size xs \<le> string_addrs sp xs ! i \<and> string_addrs sp xs ! i + length (xs ! i) + 1 \<le> sp"
  using assms
proof (induction xs arbitrary: sp bs i)
  case (Cons x xs)
  let ?sp = "sp - (length x + 1)"
  have eq: "sp - strings_size (x # xs) = ?sp - strings_size xs" "strings_size xs \<le> ?sp" "?sp + (length x + 1) = sp"
    using Cons.prems(3) by auto
  have st: "stored R r (?sp - strings_size xs) (string_block xs @ (str_bytes x @ [0]) @ bs) s s'"
    using Cons.prems(1) unfolding eq(1) by simp
  have lim: "?sp - strings_size xs + length (string_block xs @ (str_bytes x @ [0]) @ bs) \<le> USER_SPACE_END"
    using eq(2,3) Cons.prems(4) by simp
  show ?case
  proof (cases i)
    case 0
    have "?sp - strings_size xs + length (string_block xs) = ?sp" "length (str_bytes x @ [0]) = length x + 1"
      using eq(2) by simp_all
    then have "user_load r s' ?sp (length x + 1) = Some (str_bytes x @ [0])"
      using stored_load [OF st Cons.prems(2) lim] by (simp only:)
    then show ?thesis using 0 eq by (simp only: nth_Cons_0 string_addrs.simps simp_thms) linarith
  next
    case (Suc j)
    have "?sp + length ((str_bytes x @ [0]) @ bs) \<le> USER_SPACE_END" using eq(3) Cons.prems(4) by simp
    from Cons.IH [OF st Cons.prems(2) eq(2) this, of j] show ?thesis using Suc Cons.prems(5) eq by simp
  qed
qed simp

text \<open>The words of the frame, from the stack pointer upwards, and where the frame ends up.\<close>

definition frame_words :: "(u64 \<times> u64) list \<Rightarrow> usize list \<Rightarrow> usize list \<Rightarrow> u64 list" where
  "frame_words aux argv_ptrs envp_ptrs =
    of_nat (length argv_ptrs) # map of_nat argv_ptrs @ [0] @ map of_nat envp_ptrs @ [0] @ concat (map (\<lambda>(key, val). [key, val]) aux)"

lemma rev_pushed_words: "rev (pushed_words aux es as (length as)) = frame_words aux as es"
proof -
  have "rev (concat (map (\<lambda>(key, val). [val, key]) (rev aux))) = concat (map (\<lambda>(key, val). [key, val]) aux)"
    by (induction aux) auto
  then show ?thesis by (simp add: pushed_words_def frame_words_def rev_map)
qed

definition frame_sp :: "string list \<Rightarrow> string list \<Rightarrow> usize" where
  "frame_sp argv envp =
    align_down (align_down (USER_STACK_TOP - strings_size envp - strings_size argv) 8 - (length argv + length envp + 15) * 8) 16"

definition frame_fits :: "string list \<Rightarrow> string list \<Rightarrow> bool" where
  "frame_fits argv envp \<longleftrightarrow> strings_size envp + strings_size argv \<le> USER_STACK_SIZE \<and> stack_bottom \<le> frame_sp argv envp"

lemma length_frame_words: "length (frame_words (auxv a b c d) as es) = length as + length es + 15"
  by (simp add: frame_words_def auxv_def)

lemma length_pushed_words: "length (pushed_words (auxv a b c d) es as n) = length as + length es + 15"
  by (simp add: pushed_words_def auxv_def)

lemma push_frame_spec:
  assumes inv: "vm_inv R (address_space vm) s" and st: "stack_mapped (address_space vm) s" and sp: "sp \<le> USER_STACK_TOP"
    and run: "push_frame vm (auxv a b c d) es as (length as) sp s = (res, s')"
  defines "n \<equiv> (length as + length es + 15) * 8"
  defines "fsp \<equiv> align_down (align_down sp 8 - n) 16"
  shows "if stack_bottom \<le> fsp
    then res = LOk fsp \<and> fsp + n \<le> sp \<and> stored R (address_space vm) fsp (words_block (frame_words (auxv a b c d) as es)) s s'
    else \<exists>e. res = LErr e"
proof -
  let ?sp = "align_down sp 8"
  have le: "?sp \<le> sp" "fsp \<le> ?sp - n" by (simp_all only: fsp_def align_down_le)
  have tw: "(1 + (length as + 1) + (length es + 1) + length (auxv a b c d) * 2) * 8 = n" by (simp add: auxv_def n_def)
  have pos: "0 < stack_bottom" by (simp add: USER_STACK_TOP_def USER_STACK_SIZE_def)
  have cs: "checked_sub ?sp n = (if n \<le> ?sp then Some (?sp - n) else None)" by (simp add: checked_sub_def)
  show ?thesis
  proof (cases "stack_bottom \<le> fsp")
    case False
    then show ?thesis
      using run unfolding push_frame_def Let_def tw cs by (auto simp: fsp_def [symmetric] split: if_splits)
  next
    case True
    then have n: "n \<le> ?sp" "?sp - (?sp - n - fsp) = fsp + n" using le pos by auto
    have len: "8 * length (pushed_words (auxv a b c d) es as (length as)) = n" by (simp add: length_pushed_words n_def)
    have "fsp + n \<le> sp" using n(1) le by linarith
    then obtain t where t: "push_words vm (pushed_words (auxv a b c d) es as (length as)) (fsp + n) s = (LOk fsp, t)"
      "stored R (address_space vm) fsp (words_block (frame_words (auxv a b c d) as es)) s t"
      using push_words_spec [OF inv st, of "pushed_words (auxv a b c d) es as (length as)" "fsp + n"] True sp
      by (auto simp: len rev_pushed_words)
    then have "res = LOk fsp" "s' = t"
      using run n True unfolding push_frame_def Let_def tw cs by (simp_all add: fsp_def [symmetric] del: diff_diff_left)
    then show ?thesis using t(2) True \<open>fsp + n \<le> sp\<close> by simp
  qed
qed

lemma setup_user_stack_spec:
  assumes inv: "vm_inv R (address_space vm) s" and st: "stack_mapped (address_space vm) s"
    and run: "setup_user_stack vm entry_point phdr_vaddr phentsize phnum argv envp s = (res, s')"
  defines "esp \<equiv> USER_STACK_TOP - strings_size envp"
  defines "asp \<equiv> esp - strings_size argv"
  shows "if frame_fits argv envp
    then res = LOk (frame_sp argv envp) \<and> frame_sp argv envp + 8 * (length argv + length envp + 15) \<le> asp \<and>
      (\<exists>s1 s2. stored R (address_space vm) esp (string_block envp) s s1 \<and> stored R (address_space vm) asp (string_block argv) s1 s2 \<and>
        stored R (address_space vm) (frame_sp argv envp)
          (words_block (frame_words (auxv entry_point phdr_vaddr phentsize phnum) (string_addrs esp argv) (string_addrs USER_STACK_TOP envp))) s2 s')
    else \<exists>e. res = LErr e"
proof -
  let ?r = "address_space vm" and ?aux = "auxv entry_point phdr_vaddr phentsize phnum"
  let ?as = "string_addrs esp argv" and ?es = "string_addrs USER_STACK_TOP envp"
  let ?m1 = "''Environment list exceeds user stack limit (E2BIG)''" and ?m2 = "''Argument list exceeds user stack limit (E2BIG)''"
  have ss: "stack_bottom \<le> USER_STACK_TOP" "stack_bottom + USER_STACK_SIZE = USER_STACK_TOP" by (simp_all add: USER_STACK_TOP_def USER_STACK_SIZE_def)
  have efit: "stack_bottom + strings_size envp \<le> USER_STACK_TOP \<longleftrightarrow> strings_size envp \<le> USER_STACK_SIZE" using ss(2) by linarith
  note env = push_strings_spec [OF inv st ss(1) order_refl, of envp ?m1 "[]", folded esp_def, unfolded efit]
  show ?thesis
  proof (cases "strings_size envp \<le> USER_STACK_SIZE")
    case False
    then obtain t where "push_strings ?m1 vm envp USER_STACK_TOP [] s = (LErr ?m1, t)" using env by auto
    then show ?thesis using run False by (auto simp: setup_user_stack_def frame_fits_def)
  next
    case True
    then obtain s1 where s1: "push_strings ?m1 vm envp USER_STACK_TOP [] s = (LOk (esp, ?es), s1)"
      "stored R ?r esp (string_block envp) s s1" "stack_mapped ?r s1"
      using env by auto
    have inv1: "vm_inv R ?r s1" using s1(2) by (simp add: stored_def)
    have esp: "stack_bottom \<le> esp" "esp \<le> USER_STACK_TOP" using True ss by (auto simp: esp_def)
    have fit: "stack_bottom + strings_size argv \<le> esp \<longleftrightarrow> strings_size envp + strings_size argv \<le> USER_STACK_SIZE"
      using True ss by (auto simp: esp_def)
    note arg = push_strings_spec [OF inv1 s1(3) esp, of argv ?m2 "[]", folded asp_def, unfolded fit]
    show ?thesis
    proof (cases "strings_size envp + strings_size argv \<le> USER_STACK_SIZE")
      case False
      then obtain t where "push_strings ?m2 vm argv esp [] s1 = (LErr ?m2, t)" using arg by auto
      then show ?thesis using run s1(1) False by (auto simp: setup_user_stack_def frame_fits_def)
    next
      case True
      then obtain s2 where s2: "push_strings ?m2 vm argv esp [] s1 = (LOk (asp, ?as), s2)"
        "stored R ?r asp (string_block argv) s1 s2" "stack_mapped ?r s2" using arg by auto
      have inv2: "vm_inv R ?r s2" using s2(2) by (simp add: stored_def)
      have "asp \<le> USER_STACK_TOP" using esp by (simp add: asp_def)
      moreover have "push_frame vm ?aux ?es ?as (length ?as) asp s2 = (res, s')"
        using run s1(1) s2(1) by (simp add: setup_user_stack_def)
      moreover have "frame_sp argv envp = align_down (align_down asp 8 - (length ?as + length ?es + 15) * 8) 16"
        by (simp add: frame_sp_def asp_def esp_def)
      ultimately show ?thesis
        using push_frame_spec [OF inv2 s2(3), of asp entry_point phdr_vaddr phentsize phnum ?es ?as res s'] True s1(2) s2(2)
        unfolding frame_fits_def by (auto simp: mult.commute split: if_splits)
    qed
  qed
qed

text \<open>Only the part of the stack from \<open>sp\<close> upwards changes.\<close>

definition only_stack :: "usize set \<Rightarrow> usize \<Rightarrow> usize \<Rightarrow> mmu \<Rightarrow> mmu \<Rightarrow> bool" where
  "only_stack R r sp s s' \<longleftrightarrow> vm_inv R r s' \<and> pmm s' = pmm s \<and> tables R s' = tables R s
    \<and> (\<forall>r' \<in> R. mapped r' s' = mapped r' s)
    \<and> (\<forall>r' \<in> R. \<forall>x<USER_SPACE_END. r' = r \<and> sp \<le> x \<and> x < USER_STACK_TOP \<or> user_get r' s' x = user_get r' s x)"

lemma only_stack_stored:
  assumes "stored R r v bs s s1" "only_stack R r sp s1 s2" "sp \<le> v" "v + length bs \<le> USER_STACK_TOP"
  shows "only_stack R r sp s s2"
proof -
  have "r' = r \<and> sp \<le> x \<and> x < USER_STACK_TOP \<or> user_get r' s2 x = user_get r' s x" if "r' \<in> R" "x < USER_SPACE_END" for r' x
  proof (cases "r' = r \<and> sp \<le> x \<and> x < USER_STACK_TOP")
    case False
    then have "user_get r' s2 x = user_get r' s1 x" using assms(2) that by (auto simp: only_stack_def)
    then show ?thesis using False assms(1,3,4) that by (auto simp: stored_def)
  qed simp
  then show ?thesis using assms(1,2) by (auto simp: only_stack_def stored_def)
qed

lemma only_stack_refl: "vm_inv R r s \<Longrightarrow> only_stack R r sp s s"
  by (simp add: only_stack_def)

lemma setup_user_stack_layout:
  assumes inv: "vm_inv R (address_space vm) s" and st: "stack_mapped (address_space vm) s"
    and run: "setup_user_stack vm entry_point phdr_vaddr phentsize phnum argv envp s = (res, s')"
  shows "if frame_fits argv envp
    then \<exists>sp as es. res = LOk sp \<and> 16 dvd sp \<and> stack_bottom \<le> sp \<and> sp \<le> USER_STACK_TOP
      \<and> user_load (address_space vm) s' sp (8 * (length argv + length envp + 15))
          = Some (words_block (frame_words (auxv entry_point phdr_vaddr phentsize phnum) as es))
      \<and> length as = length argv \<and> length es = length envp
      \<and> (\<forall>i<length argv. user_load (address_space vm) s' (as ! i) (length (argv ! i) + 1) = Some (str_bytes (argv ! i) @ [0]))
      \<and> (\<forall>i<length envp. user_load (address_space vm) s' (es ! i) (length (envp ! i) + 1) = Some (str_bytes (envp ! i) @ [0]))
      \<and> only_stack R (address_space vm) sp s s'
    else \<exists>e. res = LErr e"
proof (cases "frame_fits argv envp")
  case False
  then show ?thesis using setup_user_stack_spec [OF assms] by simp
next
  case True
  let ?r = "address_space vm" and ?sp = "frame_sp argv envp"
  let ?esp = "USER_STACK_TOP - strings_size envp"
  let ?asp = "?esp - strings_size argv"
  let ?as = "string_addrs ?esp argv" and ?es = "string_addrs USER_STACK_TOP envp"
  let ?ws = "frame_words (auxv entry_point phdr_vaddr phentsize phnum) ?as ?es"
  have r: "?r \<in> R" using inv by (simp add: vm_inv_def)
  obtain s1 s2 where res: "res = LOk ?sp" and le: "?sp + 8 * (length argv + length envp + 15) \<le> ?asp"
    and s1: "stored R ?r ?esp (string_block envp) s s1" and s2: "stored R ?r ?asp (string_block argv) s1 s2"
    and s3: "stored R ?r ?sp (words_block ?ws) s2 s'"
    using setup_user_stack_spec [OF assms] True by auto
  have sz: "strings_size envp \<le> USER_STACK_TOP" "strings_size argv \<le> ?esp" "stack_bottom \<le> ?sp"
    using True by (auto simp: frame_fits_def USER_STACK_TOP_def USER_STACK_SIZE_def)
  have len: "length (words_block ?ws) = 8 * (length argv + length envp + 15)" by (simp add: length_frame_words)
  have lim: "?asp \<le> ?esp" "?esp \<le> USER_STACK_TOP" "USER_STACK_TOP \<le> USER_SPACE_END" using stack_in_user by auto
  have frame: "user_load ?r s' ?sp (8 * (length argv + length envp + 15)) = Some (words_block ?ws)"
    using stored_load [of R ?r ?sp "[]" "words_block ?ws" "[]" s2 s'] s3 r le lim len by simp
  have args: "user_load ?r s' (?as ! i) (length (argv ! i) + 1) = Some (str_bytes (argv ! i) @ [0])" if i: "i < length argv" for i
  proof -
    have "?esp + length ([] :: bytes) \<le> USER_SPACE_END" using lim by simp
    from string_block_load [OF _ r sz(2) this i, of s1 s2] s2
    have l: "user_load ?r s2 (?as ! i) (length (argv ! i) + 1) = Some (str_bytes (argv ! i) @ [0])"
      "?asp \<le> ?as ! i" "?as ! i + length (argv ! i) + 1 \<le> ?esp" by auto
    show ?thesis using user_load_other [OF s3 r, of "?as ! i" "length (argv ! i) + 1"] l le len lim by simp
  qed
  have envs: "user_load ?r s' (?es ! i) (length (envp ! i) + 1) = Some (str_bytes (envp ! i) @ [0])" if i: "i < length envp" for i
  proof -
    have "USER_STACK_TOP + length ([] :: bytes) \<le> USER_SPACE_END" using lim by simp
    from string_block_load [OF _ r sz(1) this i, of s s1] s1
    have l: "user_load ?r s1 (?es ! i) (length (envp ! i) + 1) = Some (str_bytes (envp ! i) @ [0])"
      "?esp \<le> ?es ! i" "?es ! i + length (envp ! i) + 1 \<le> USER_STACK_TOP" by auto
    have "?asp + length (string_block argv) \<le> ?esp" using sz(2) by simp
    then have "user_load ?r s2 (?es ! i) (length (envp ! i) + 1) = Some (str_bytes (envp ! i) @ [0])"
      using user_load_other [OF s2 r, of "?es ! i" "length (envp ! i) + 1"] l lim by simp
    then show ?thesis using user_load_other [OF s3 r, of "?es ! i" "length (envp ! i) + 1"] l le len lim by simp
  qed
  have "vm_inv R ?r s'" using s3 by (simp add: stored_def)
  then have "only_stack R ?r ?sp s2 s'" using only_stack_stored [OF s3 only_stack_refl] le len lim by simp
  then have "only_stack R ?r ?sp s1 s'" using only_stack_stored [OF s2] le lim sz by simp
  then have "only_stack R ?r ?sp s s'" using only_stack_stored [OF s1] le lim sz by simp
  moreover have "16 dvd ?sp" by (simp add: frame_sp_def align_down_def)
  moreover have "?sp \<le> USER_STACK_TOP" using le lim by linarith
  ultimately show ?thesis unfolding if_P [OF True] using res sz(3) frame args envs length_string_addrs by blast
qed

end
