(* ===== verification/Elf_Load.thy ===== *)
theory Elf_Load
  imports Elf
begin

text \<open>
  Correctness of the ELF loader: the address space it builds is the image the program headers describe, with
  the initial stack on top of it; and what it does with headers that describe something else.
\<close>

subsection \<open>The image of a file\<close>

text \<open>What an address space shows at an address: the byte and the access rights of its page.\<close>

definition view :: "usize \<Rightarrow> mmu \<Rightarrow> usize \<Rightarrow> (u8 \<times> PageFlags) option" where
  "view r s x = (case mapped r s (align_down x PAGE_SIZE) of
     None \<Rightarrow> None
   | Some (f, a) \<Rightarrow> Some (get_byte (mem s) (f + x mod PAGE_SIZE), a))"

definition seg_lo :: "Elf64Phdr \<Rightarrow> usize" where
  "seg_lo p = align_down (unat (p_vaddr p)) PAGE_SIZE"

definition seg_hi :: "Elf64Phdr \<Rightarrow> usize" where
  "seg_hi p = align_down (unat (p_vaddr p) + unat (p_memsz p) + PAGE_SIZE - 1) PAGE_SIZE"

definition seg_pages :: "Elf64Phdr \<Rightarrow> nat" where
  "seg_pages p = (seg_hi p - seg_lo p) div PAGE_SIZE"

definition seg_ok :: "bytes \<Rightarrow> Elf64Phdr \<Rightarrow> bool" where
  "seg_ok elf p \<longleftrightarrow> 0 < unat (p_memsz p) \<and> unat (p_filesz p) \<le> unat (p_memsz p)
     \<and> unat (p_offset p) + unat (p_filesz p) \<le> length elf \<and> unat (p_vaddr p) + unat (p_memsz p) \<le> stack_bottom"

definition seg_byte :: "bytes \<Rightarrow> Elf64Phdr \<Rightarrow> usize \<Rightarrow> u8" where
  "seg_byte elf p x =
    (if unat (p_vaddr p) \<le> x \<and> x < unat (p_vaddr p) + unat (p_filesz p)
     then elf ! (unat (p_offset p) + (x - unat (p_vaddr p))) else 0)"

definition in_seg :: "usize \<Rightarrow> Elf64Phdr \<Rightarrow> bool" where
  "in_seg x p \<longleftrightarrow> seg_lo p \<le> x \<and> x < seg_hi p"

definition elf_image :: "bytes \<Rightarrow> Elf64Phdr list \<Rightarrow> usize \<Rightarrow> (u8 \<times> PageFlags) option" where
  "elf_image elf segs x = map_option (\<lambda>p. (seg_byte elf p x, segment_flags (p_flags p))) (find (in_seg x) segs)"

fun segs_disjoint :: "Elf64Phdr list \<Rightarrow> bool" where
  "segs_disjoint [] \<longleftrightarrow> True"
| "segs_disjoint (p # ps) \<longleftrightarrow> list_all (\<lambda>q. seg_hi p \<le> seg_lo q \<or> seg_hi q \<le> seg_lo p) ps \<and> segs_disjoint ps"

definition phdr_at :: "bytes \<Rightarrow> usize \<Rightarrow> usize \<Rightarrow> nat \<Rightarrow> Elf64Phdr" where
  "phdr_at elf phoff phentsize i = Elf64Phdr_of (take 56 (drop (phoff + i * phentsize) elf))"

definition segments_from :: "bytes \<Rightarrow> usize \<Rightarrow> usize \<Rightarrow> nat \<Rightarrow> nat \<Rightarrow> Elf64Phdr list" where
  "segments_from elf phoff phentsize i n = filter (\<lambda>p. p_type p = 1) (map (phdr_at elf phoff phentsize) [i..<i + n])"

lemma view_get: "x < USER_SPACE_END \<Longrightarrow> view r s x =
    (case user_get r s x of None \<Rightarrow> None | Some b \<Rightarrow> Some (b, snd (the (mapped r s (align_down x PAGE_SIZE)))))"
  by (simp add: view_def user_get_frame split: option.split)

lemma view_eq: "x < USER_SPACE_END \<Longrightarrow> user_get r s' x = user_get r s x \<Longrightarrow>
    mapped r s' (align_down x PAGE_SIZE) = mapped r s (align_down x PAGE_SIZE) \<Longrightarrow> view r s' x = view r s x"
  by (simp only: view_get)

subsection \<open>One segment\<close>

lemma vm_ok_stored:
  assumes "vm_ok R vm s" "stored R (address_space vm) v bs s s'"
  shows "vm_ok R vm s'"
proof -
  have "address_space vm \<in> R" using assms(1) by (simp add: vm_ok_def vm_inv_def)
  then show ?thesis using assms by (simp add: vm_ok_def coherent_def stored_def)
qed

lemma segment_flags_simps [simp]: "(segment_flags fl)\<lparr>pf_present := True\<rparr> = segment_flags fl" "pf_user (segment_flags fl)"
  by (simp_all add: segment_flags_def)

lemma map_range_view:
  assumes "vm_ok R vm s" "start_virt + size' \<le> USER_SPACE_END" "0 < size'" "pf_user flags" "flags\<lparr>pf_present := True\<rparr> = flags"
    and lo: "lo = align_down start_virt PAGE_SIZE" and hi: "hi = align_down (start_virt + size' + PAGE_SIZE - 1) PAGE_SIZE"
    and free: "{lo..<hi} \<inter> dom (vlook (vmas vm)) = {}" and frames: "4 * ((hi - lo) div PAGE_SIZE) \<le> card (pool s)"
  obtains vm' s' p where "alloc_and_map_range vm start_virt size' flags s = (VmOk, vm', s')"
    "vm_ok R vm' s'" "address_space vm' = address_space vm" "card (pool s) \<le> card (pool s') + 4 * ((hi - lo) div PAGE_SIZE)"
    "vlook (vmas vm') = (\<lambda>a. if lo \<le> a \<and> a < hi then Some (p, 0) else vlook (vmas vm) a)"
    "\<And>r' x. r' \<in> R \<Longrightarrow> x < USER_SPACE_END \<Longrightarrow>
       view r' s' x = (if r' = address_space vm \<and> lo \<le> x \<and> x < hi then Some (0, flags) else view r' s x)"
proof -
  let ?r = "address_space vm"
  have inv: "vm_inv R ?r s" using assms(1) by (simp add: vm_ok_def)
  have al: "PAGE_SIZE dvd lo" "PAGE_SIZE dvd hi" by (simp_all add: lo hi)
  obtain vm' s' where run: "alloc_and_map_range vm start_virt size' flags s = (VmOk, vm', s')"
    and c: "card (pool s) \<le> card (pool s') + 4 * ((hi - lo) div PAGE_SIZE)"
    using alloc_and_map_range_succeeds [OF inv assms(2,4) HOL.refl frames [unfolded lo hi]] unfolding lo hi .
  note spec = alloc_and_map_range_spec [OF assms(1-4) lo hi free run]
  have same: "\<forall>q \<in> R. q \<noteq> ?r \<longrightarrow> mapped q s' = mapped q s" "\<forall>w. mapped ?r s' w \<noteq> mapped ?r s w \<longrightarrow> lo \<le> w \<and> w < hi"
    and new: "\<forall>w. PAGE_SIZE dvd w \<longrightarrow> lo \<le> w \<longrightarrow> w < hi \<longrightarrow> (\<exists>f. mapped ?r s' w = Some (f, flags))"
    using spec assms(5) by (simp_all, metis)
  have "view r' s' x = (if r' = ?r \<and> lo \<le> x \<and> x < hi then Some (0, flags) else view r' s x)"
    if x: "r' \<in> R" "x < USER_SPACE_END" for r' x
  proof -
    note get = alloc_and_map_range_content [OF assms(1-4) lo hi free run x]
    show ?thesis
    proof (cases "r' = ?r \<and> lo \<le> x \<and> x < hi")
      case True
      then obtain f where "mapped ?r s' (align_down x PAGE_SIZE) = Some (f, flags)"
        using new page_inside [OF al, of x] by (metis align_down_dvd)
      then show ?thesis using True get x(2) by (simp add: view_get)
    next
      case False
      then have "mapped r' s' (align_down x PAGE_SIZE) = mapped r' s (align_down x PAGE_SIZE)"
        using same page_inside [OF al, of x] x(1) by (cases "r' = ?r") auto
      moreover have "user_get r' s' x = user_get r' s x" using get False by (simp only: if_False)
      ultimately have "view r' s' x = view r' s x" by (intro view_eq [OF x(2)])
      then show ?thesis using False by (simp only: if_False)
    qed
  qed
  moreover obtain p where "vlook (vmas vm') = (\<lambda>a. if lo \<le> a \<and> a < hi then Some (p, 0) else vlook (vmas vm) a)"
    using spec by auto
  moreover have "vm_ok R vm' s'" "address_space vm' = ?r" using spec by simp_all
  ultimately show ?thesis using that run c by blast
qed

lemma seg_bounds:
  assumes "seg_ok elf p"
  shows "unat (p_vaddr p) + unat (p_memsz p) \<le> USER_SPACE_END" "seg_lo p \<le> unat (p_vaddr p)"
    "unat (p_vaddr p) + unat (p_memsz p) \<le> seg_hi p" "seg_hi p \<le> stack_bottom" "unat (p_vaddr p) + unat (p_filesz p) \<le> seg_hi p"
proof -
  have st: "stack_bottom \<le> USER_SPACE_END" "PAGE_SIZE dvd stack_bottom"
    by (simp_all add: USER_STACK_TOP_def USER_STACK_SIZE_def USER_SPACE_END_def PAGE_SIZE_def)
  have le: "unat (p_vaddr p) + unat (p_memsz p) \<le> stack_bottom" "unat (p_filesz p) \<le> unat (p_memsz p)" using assms by (simp_all add: seg_ok_def)
  show "unat (p_vaddr p) + unat (p_memsz p) \<le> USER_SPACE_END" using le(1) st(1) by linarith
  show "seg_lo p \<le> unat (p_vaddr p)" by (simp add: seg_lo_def align_down_le)
  show hi: "unat (p_vaddr p) + unat (p_memsz p) \<le> seg_hi p"
    using align_up_ge [of PAGE_SIZE "unat (p_vaddr p) + unat (p_memsz p)"] by (simp add: seg_hi_def align_down_def align_up_def PAGE_SIZE_def)
  then show "unat (p_vaddr p) + unat (p_filesz p) \<le> seg_hi p" using le(2) by linarith
  have "seg_hi p \<le> align_down (stack_bottom + PAGE_SIZE - 1) PAGE_SIZE"
    using le(1) by (simp add: seg_hi_def align_down_def div_le_mono)
  then show "seg_hi p \<le> stack_bottom" by (simp only: align_down_page_end [OF st(2)])
qed

lemma stored_view:
  assumes "vm_inv R r s" "stored R r v bs s s'" "r' \<in> R" "x < USER_SPACE_END"
  shows "view r' s' x = (if r' = r \<and> v \<le> x \<and> x < v + length bs then map_option (\<lambda>(b, a). (bs ! (x - v), a)) (view r' s x) else view r' s x)"
proof -
  have m: "mapped r' s' = mapped r' s" using assms(2,3) by (simp add: stored_def)
  show ?thesis
  proof (cases "r' = r \<and> v \<le> x \<and> x < v + length bs")
    case True
    then have "user_get r' s' x = Some (bs ! (x - v))" using assms by (simp add: stored_def)
    then have "translate (mem s) r' x \<noteq> None" using stored_translate [OF assms(2-4)] by (metis option.distinct(1) user_get_None)
    then show ?thesis using True \<open>user_get r' s' x = _\<close> assms(4) m
      by (cases "user_get r' s x") (auto simp: view_get)
  next
    case False
    then have "user_get r' s' x = user_get r' s x" using assms by (auto simp: stored_def)
    then have "view r' s' x = view r' s x" using m by (intro view_eq [OF assms(4)]) simp_all
    then show ?thesis using False by (simp only: if_False)
  qed
qed

text \<open>The address of the program headers in memory: that of the first segment whose data contain them, or 0.\<close>

definition phdr_step :: "usize \<Rightarrow> usize \<Rightarrow> Elf64Phdr \<Rightarrow> usize" where
  "phdr_step phoff pv p = (if pv = 0 \<and> unat (p_offset p) \<le> phoff \<and> phoff < unat (p_offset p) + unat (p_filesz p)
     then unat (p_vaddr p) + (phoff - unat (p_offset p)) else pv)"

lemma load_segment_spec:
  assumes ok: "vm_ok R vm s" and p: "seg_ok elf p" and free: "{seg_lo p..<seg_hi p} \<inter> dom (vlook (vmas vm)) = {}"
    and frames: "4 * seg_pages p \<le> card (pool s)" and len: "length elf < USIZE_LIMIT"
  obtains vm' s' q where "load_segment elf phoff p pv vm s = (LOk (phdr_step phoff pv p), vm', s')" "vm_ok R vm' s'" "conserved R s s'"
    "address_space vm' = address_space vm" "card (pool s) \<le> card (pool s') + 4 * seg_pages p"
    "vlook (vmas vm') = (\<lambda>a. if seg_lo p \<le> a \<and> a < seg_hi p then Some (q, 0) else vlook (vmas vm) a)"
    "\<And>r' x. r' \<in> R \<Longrightarrow> x < USER_SPACE_END \<Longrightarrow>
       view r' s' x = (if r' = address_space vm \<and> in_seg x p then Some (seg_byte elf p x, segment_flags (p_flags p)) else view r' s x)"
proof -
  let ?v = "unat (p_vaddr p)" and ?m = "unat (p_memsz p)" and ?n = "unat (p_filesz p)" and ?o = "unat (p_offset p)"
  let ?r = "address_space vm" and ?fl = "segment_flags (p_flags p)" and ?data = "take ?n (drop ?o elf)"
  note b = seg_bounds [OF p]
  have m: "0 < ?m" "?o + ?n \<le> length elf" using p by (simp_all add: seg_ok_def)
  have ca: "checked_add ?o ?n = Some (?o + ?n)" using m(2) len by (simp add: checked_add_def)
  obtain vm1 s1 q where run: "alloc_and_map_range vm ?v ?m ?fl s = (VmOk, vm1, s1)" and ok1: "vm_ok R vm1 s1" "address_space vm1 = ?r"
    and c: "card (pool s) \<le> card (pool s1) + 4 * seg_pages p"
    and vl: "vlook (vmas vm1) = (\<lambda>a. if seg_lo p \<le> a \<and> a < seg_hi p then Some (q, 0) else vlook (vmas vm) a)"
    and vw: "\<And>r' x. r' \<in> R \<Longrightarrow> x < USER_SPACE_END \<Longrightarrow>
       view r' s1 x = (if r' = ?r \<and> seg_lo p \<le> x \<and> x < seg_hi p then Some (0, ?fl) else view r' s x)"
    using map_range_view [OF ok b(1) m(1) segment_flags_simps(2,1) seg_lo_def seg_hi_def free frames [unfolded seg_pages_def]]
    unfolding seg_pages_def by blast
  have "conserved R s s1" using alloc_and_map_range_conserved [OF ok b(1) segment_flags_simps(2) seg_lo_def seg_hi_def free run] .
  have r: "?r \<in> R" "vm_inv R ?r s1" using ok1 by (simp_all add: vm_ok_def vm_inv_def)
  have dl: "length ?data = ?n" using m(2) by simp
  have lim: "?v + length ?data \<le> USER_SPACE_END" using b(1) p dl by (simp add: seg_ok_def)
  obtain res s2 where wr: "write_bytes_to_space vm1 ?v ?data s1 = (res, s2)" by fastforce
  have "translate (mem s1) ?r (?v + i) \<noteq> None" if "i < length ?data" for i
  proof -
    have "seg_lo p \<le> ?v + i" "?v + i < seg_hi p" "?v + i < USER_SPACE_END" using that b lim dl by linarith+
    then have "view ?r s1 (?v + i) = Some (0, ?fl)" using vw [OF r(1)] by simp
    then show ?thesis using \<open>?v + i < USER_SPACE_END\<close> by (auto simp: view_def translate_mapped split: option.splits)
  qed
  then have st: "res = VmOk" "stored R ?r ?v ?data s1 s2"
    using write_bytes_to_space_correct [OF _ lim wr, of R] r(2) ok1(2) by simp_all
  have wr2: "(if ?n > 0 then write_bytes_to_space vm1 ?v ?data s1 else (VmOk, s1)) = (VmOk, s2)"
  proof (cases "?n > 0")
    case False
    then show ?thesis using wr by (simp add: write_bytes_to_space_def write_bytes_loop.simps)
  qed (use wr st in simp)
  have pv: "phoff \<ge> ?o \<and> phoff < ?o + ?n \<Longrightarrow> checked_add ?v (phoff - ?o) = Some (?v + (phoff - ?o))"
  proof -
    assume "phoff \<ge> ?o \<and> phoff < ?o + ?n"
    moreover have "?n \<le> ?m" "?v + ?m < USIZE_LIMIT" using b(1) p by (simp_all add: seg_ok_def USER_SPACE_END_def USIZE_LIMIT_def)
    ultimately have "?v + (phoff - ?o) < USIZE_LIMIT" by linarith
    then show ?thesis by (simp only: checked_add_def if_True)
  qed
  have "load_segment elf phoff p pv vm s = (LOk (phdr_step phoff pv p), vm1, s2)"
    using ca m(2) run wr2 pv by (auto simp: load_segment_def phdr_step_def Let_def)
  moreover have "conserved R s1 s2" using st(2) by (intro conserved_same) (simp_all add: stored_def)
  then have "conserved R s s2" using conserved_trans [OF \<open>conserved R s s1\<close>] by simp
  moreover have "vm_ok R vm1 s2" using vm_ok_stored [OF ok1(1)] st(2) ok1(2) by simp
  moreover have "pool s2 = pool s1" using st(2) by (simp add: stored_def)
  moreover have "view r' s2 x = (if r' = ?r \<and> in_seg x p then Some (seg_byte elf p x, ?fl) else view r' s x)"
    if x: "r' \<in> R" "x < USER_SPACE_END" for r' x
    using stored_view [OF r(2) st(2) x] vw [OF x] b dl m(2)
    by (cases "r' = ?r \<and> ?v \<le> x \<and> x < ?v + ?n") (auto simp: in_seg_def seg_byte_def)
  ultimately show ?thesis using that [of vm1 s2 q] ok1(2) c vl by auto
qed

subsection \<open>All segments\<close>

definition seg_range :: "Elf64Phdr list \<Rightarrow> usize set" where
  "seg_range segs = (\<Union>p \<in> set segs. {seg_lo p..<seg_hi p})"

definition all_pages :: "Elf64Phdr list \<Rightarrow> nat" where
  "all_pages segs = sum_list (map seg_pages segs)"

lemma segments_from_Suc:
  "segments_from elf phoff phentsize i (Suc n) =
    (if p_type (phdr_at elf phoff phentsize i) = 1
     then phdr_at elf phoff phentsize i # segments_from elf phoff phentsize (Suc i) n
     else segments_from elf phoff phentsize (Suc i) n)"
  by (simp add: segments_from_def upt_conv_Cons del: upt_Suc)

lemma elf_image_outside: "x \<notin> seg_range segs \<Longrightarrow> elf_image elf segs x = None"
  by (auto simp: elf_image_def seg_range_def in_seg_def find_None_iff)

lemma elf_image_Cons:
  "elf_image elf (p # segs) x = (if in_seg x p then Some (seg_byte elf p x, segment_flags (p_flags p)) else elf_image elf segs x)"
  by (simp add: elf_image_def)

lemma seg_range_Cons: "x \<in> seg_range (p # segs) \<longleftrightarrow> in_seg x p \<or> x \<in> seg_range segs"
  by (auto simp: seg_range_def in_seg_def)

lemma segs_disjoint_range: "segs_disjoint (p # segs) \<Longrightarrow> in_seg x p \<Longrightarrow> x \<notin> seg_range segs"
  by (fastforce simp: list_all_iff seg_range_def in_seg_def)

definition loads :: "usize set \<Rightarrow> bytes \<Rightarrow> Elf64Phdr list \<Rightarrow> VmSpace \<Rightarrow> mmu \<Rightarrow> VmSpace \<Rightarrow> mmu \<Rightarrow> bool" where
  "loads R elf segs vm s vm' s' \<longleftrightarrow> vm_ok R vm' s' \<and> address_space vm' = address_space vm
    \<and> card (pool s) \<le> card (pool s') + 4 * all_pages segs \<and> conserved R s s'
    \<and> dom (vlook (vmas vm')) \<subseteq> dom (vlook (vmas vm)) \<union> seg_range segs
    \<and> (\<forall>r' \<in> R. \<forall>x<USER_SPACE_END.
         view r' s' x = (if r' = address_space vm \<and> x \<in> seg_range segs then elf_image elf segs x else view r' s x))"

lemma loads_Cons:
  assumes p: "vm_ok R vm1 s1" "address_space vm1 = address_space vm" "card (pool s) \<le> card (pool s1) + 4 * seg_pages p" "conserved R s s1"
    "dom (vlook (vmas vm1)) \<subseteq> dom (vlook (vmas vm)) \<union> {seg_lo p..<seg_hi p}"
    "\<And>r' x. r' \<in> R \<Longrightarrow> x < USER_SPACE_END \<Longrightarrow>
       view r' s1 x = (if r' = address_space vm \<and> in_seg x p then Some (seg_byte elf p x, segment_flags (p_flags p)) else view r' s x)"
    and ls: "loads R elf segs vm1 s1 vm' s'" and dis: "segs_disjoint (p # segs)"
  shows "loads R elf (p # segs) vm s vm' s'"
proof -
  have "view r' s' x = (if r' = address_space vm \<and> x \<in> seg_range (p # segs) then elf_image elf (p # segs) x else view r' s x)"
    if "r' \<in> R" "x < USER_SPACE_END" for r' x
    using p(2,6) ls that segs_disjoint_range [OF dis] by (auto simp: loads_def seg_range_Cons elf_image_Cons)
  moreover have "dom (vlook (vmas vm')) \<subseteq> dom (vlook (vmas vm)) \<union> seg_range (p # segs)"
  proof -
    have "dom (vlook (vmas vm')) \<subseteq> dom (vlook (vmas vm1)) \<union> seg_range segs" using ls by (simp add: loads_def)
    moreover have "seg_range (p # segs) = {seg_lo p..<seg_hi p} \<union> seg_range segs" by (simp add: seg_range_def)
    ultimately show ?thesis using p(5) by blast
  qed
  moreover have "conserved R s s'" using conserved_trans [OF p(4)] ls by (simp add: loads_def)
  ultimately show ?thesis using p(2,3) ls by (simp add: loads_def all_pages_def)
qed

lemma load_segments_spec:
  assumes "vm_ok R vm s" "length elf < USIZE_LIMIT" "\<forall>j. i \<le> j \<and> j < i + n \<longrightarrow> phoff + j * phentsize + 56 \<le> length elf"
    and "segs = segments_from elf phoff phentsize i n" "list_all (seg_ok elf) segs" "segs_disjoint segs"
    and "seg_range segs \<inter> dom (vlook (vmas vm)) = {}" "4 * all_pages segs \<le> card (pool s)"
  shows "\<exists>vm' s'. load_segments elf phoff phentsize i n pv vm s = (LOk (foldl (phdr_step phoff) pv segs), vm', s') \<and> loads R elf segs vm s vm' s'"
  using assms(1,3-8)
proof (induction n arbitrary: i pv vm s segs)
  case 0
  then show ?case by (simp add: loads_def segments_from_def all_pages_def seg_range_def)
next
  case (Suc n)
  let ?p = "phdr_at elf phoff phentsize i" and ?segs = "segments_from elf phoff phentsize (Suc i) n"
  have off: "phoff + i * phentsize + 56 \<le> length elf" using Suc.prems(2) by auto
  then have rd: "checked_add phoff (i * phentsize) = Some (phoff + i * phentsize)"
    "read_pod ELF_PHDR_SIZE elf (phoff + i * phentsize) = Some (take 56 (drop (phoff + i * phentsize) elf))"
    using assms(2) by (auto simp: checked_add_def read_pod_def ELF_PHDR_SIZE_def)
  have off': "\<forall>j. Suc i \<le> j \<and> j < Suc i + n \<longrightarrow> phoff + j * phentsize + 56 \<le> length elf" using Suc.prems(2) by auto
  show ?case
  proof (cases "p_type ?p = 1")
    case False
    then have "segs = ?segs" using Suc.prems(3) by (simp add: segments_from_Suc)
    then show ?thesis
      using Suc.IH [OF Suc.prems(1) off' HOL.refl, of pv] Suc.prems(4-7) rd False by (simp add: Let_def phdr_at_def PT_LOAD_def)
  next
    case True
    then have segs: "segs = ?p # ?segs" using Suc.prems(3) by (simp add: segments_from_Suc)
    have p: "seg_ok elf ?p" "list_all (seg_ok elf) ?segs" "segs_disjoint ?segs" using Suc.prems(4,5) by (simp_all add: segs)
    have free: "{seg_lo ?p..<seg_hi ?p} \<inter> dom (vlook (vmas vm)) = {}" using Suc.prems(6) by (auto simp: segs seg_range_def)
    have frames: "4 * seg_pages ?p \<le> card (pool s)" using Suc.prems(7) by (simp add: segs all_pages_def)
    let ?pv = "phdr_step phoff pv ?p"
    obtain vm1 s1 q where l: "load_segment elf phoff ?p pv vm s = (LOk ?pv, vm1, s1)" "vm_ok R vm1 s1" "conserved R s s1"
      "address_space vm1 = address_space vm" "card (pool s) \<le> card (pool s1) + 4 * seg_pages ?p"
      "vlook (vmas vm1) = (\<lambda>a. if seg_lo ?p \<le> a \<and> a < seg_hi ?p then Some (q, 0) else vlook (vmas vm) a)"
      "\<And>r' x. r' \<in> R \<Longrightarrow> x < USER_SPACE_END \<Longrightarrow>
         view r' s1 x = (if r' = address_space vm \<and> in_seg x ?p then Some (seg_byte elf ?p x, segment_flags (p_flags ?p)) else view r' s x)"
      by (rule load_segment_spec [OF Suc.prems(1) p(1) free frames assms(2)]) (rule that)
    have d: "dom (vlook (vmas vm1)) \<subseteq> dom (vlook (vmas vm)) \<union> {seg_lo ?p..<seg_hi ?p}" unfolding l(6) by (auto split: if_splits)
    have fr1: "seg_range ?segs \<inter> dom (vlook (vmas vm1)) = {}"
    proof -
      have "x \<notin> {seg_lo ?p..<seg_hi ?p}" if "x \<in> seg_range ?segs" for x
        using that segs_disjoint_range [of ?p ?segs x] Suc.prems(5) by (auto simp: segs in_seg_def)
      moreover have "seg_range ?segs \<inter> dom (vlook (vmas vm)) = {}" using Suc.prems(6) by (auto simp: segs seg_range_def)
      ultimately show ?thesis using d by blast
    qed
    have "4 * all_pages ?segs \<le> card (pool s1)" using Suc.prems(7) l(5) by (simp add: segs all_pages_def)
    from Suc.IH [OF l(2) off' HOL.refl p(2,3) fr1 this, of ?pv]
    obtain vm' s' where run: "load_segments elf phoff phentsize (Suc i) n ?pv vm1 s1 = (LOk (foldl (phdr_step phoff) ?pv ?segs), vm', s')"
      and ls: "loads R elf ?segs vm1 s1 vm' s'" by blast
    have "loads R elf (?p # ?segs) vm s vm' s'"
      using loads_Cons [OF l(2,4,5,3) d l(7) ls] Suc.prems(5) by (simp add: segs)
    moreover have "load_segments elf phoff phentsize i (Suc n) pv vm s = (LOk (foldl (phdr_step phoff) pv segs), vm', s')"
      using rd True l(1) run by (simp add: Let_def phdr_at_def PT_LOAD_def segs)
    ultimately show ?thesis unfolding segs by blast
  qed
qed

subsection \<open>The loader\<close>

definition elf_segments :: "bytes \<Rightarrow> Elf64Phdr list" where
  "elf_segments elf = (let h = Elf64Header_of elf in
     segments_from elf (unat (e_phoff h)) (unat (e_phentsize h)) 0 (unat (e_phnum h)))"

text \<open>A file the loader can load: headers in bounds, and disjoint segments below the stack.\<close>

definition elf_ok :: "bytes \<Rightarrow> bool" where
  "elf_ok elf \<longleftrightarrow> 64 \<le> length elf \<and> length elf < USIZE_LIMIT
     \<and> take 6 elf = [0x7F, 0x45, 0x4C, 0x46, 2, 1] \<and> e_machine (Elf64Header_of elf) = 0x3E
     \<and> (\<forall>j < unat (e_phnum (Elf64Header_of elf)).
          unat (e_phoff (Elf64Header_of elf)) + j * unat (e_phentsize (Elf64Header_of elf)) + 56 \<le> length elf)
     \<and> list_all (seg_ok elf) (elf_segments elf) \<and> segs_disjoint (elf_segments elf)"

lemma Elf64Header_of_take: "64 \<le> length elf \<Longrightarrow> Elf64Header_of (take 64 elf) = Elf64Header_of elf"
  by (simp add: Elf64Header_of_def le_field_def take_drop [symmetric] drop_take min_def)

lemma elf_ok_header:
  assumes "elf_ok elf"
  shows "read_pod ELF_HEADER_SIZE elf 0 = Some (take 64 elf)" "Elf64Header_of (take 64 elf) = Elf64Header_of elf"
    "take 4 (e_ident (Elf64Header_of elf)) = ELF_MAGIC" "e_ident (Elf64Header_of elf) ! 4 = ELF_CLASS_64"
    "e_ident (Elf64Header_of elf) ! 5 = ELF_DATA_2LSB" "e_machine (Elf64Header_of elf) = EM_X86_64"
proof -
  have len: "64 \<le> length elf" and six: "take 6 elf = [0x7F, 0x45, 0x4C, 0x46, 2, 1]" using assms by (simp_all add: elf_ok_def)
  show "read_pod ELF_HEADER_SIZE elf 0 = Some (take 64 elf)"
    using len by (simp add: read_pod_def checked_add_def ELF_HEADER_SIZE_def USIZE_LIMIT_def)
  show "Elf64Header_of (take 64 elf) = Elf64Header_of elf" using len by (rule Elf64Header_of_take)
  have "take 4 elf = take 4 (take 6 elf)" "elf ! 4 = take 6 elf ! 4" "elf ! 5 = take 6 elf ! 5" by simp_all
  then show "take 4 (e_ident (Elf64Header_of elf)) = ELF_MAGIC" "e_ident (Elf64Header_of elf) ! 4 = ELF_CLASS_64"
    "e_ident (Elf64Header_of elf) ! 5 = ELF_DATA_2LSB"
    unfolding six by (simp_all add: Elf64Header_of_def posix_consts)
  show "e_machine (Elf64Header_of elf) = EM_X86_64" using assms by (simp add: elf_ok_def EM_X86_64_def)
qed

lemma stack_range:
  "align_down stack_bottom PAGE_SIZE = stack_bottom" "align_down (stack_bottom + USER_STACK_SIZE + PAGE_SIZE - 1) PAGE_SIZE = USER_STACK_TOP"
  "(USER_STACK_TOP - stack_bottom) div PAGE_SIZE = 32" "stack_bottom + USER_STACK_SIZE \<le> USER_SPACE_END" "0 < USER_STACK_SIZE"
  by (simp_all add: USER_STACK_TOP_def USER_STACK_SIZE_def align_down_def PAGE_SIZE_def USER_SPACE_END_def)

lemma user_data_simps: "user_data\<lparr>pf_present := True\<rparr> = user_data" "pf_user user_data"
  by (simp_all add: user_data_def)

lemma only_stack_view:
  assumes "only_stack R r sp s s'" "r' \<in> R" "x < USER_SPACE_END" "r' \<noteq> r \<or> x < sp \<or> USER_STACK_TOP \<le> x"
  shows "view r' s' x = view r' s x"
proof (rule view_eq)
  have "r' = r \<and> sp \<le> x \<and> x < USER_STACK_TOP \<or> user_get r' s' x = user_get r' s x" using assms(1-3) by (simp add: only_stack_def)
  then show "user_get r' s' x = user_get r' s x" using assms(4) by auto
qed (use assms in \<open>simp_all add: only_stack_def\<close>)

lemma loaded_stack:
  assumes ok: "vm_ok R vm s" and free: "{stack_bottom..<USER_STACK_TOP} \<inter> dom (vlook (vmas vm)) = {}" and c: "128 \<le> card (pool s)"
  obtains vm' s' where "alloc_and_map_range vm stack_bottom USER_STACK_SIZE user_data s = (VmOk, vm', s')" "vm_ok R vm' s'"
    "address_space vm' = address_space vm" "stack_mapped (address_space vm) s'" "conserved R s s'"
    "\<And>r' x. r' \<in> R \<Longrightarrow> x < USER_SPACE_END \<Longrightarrow>
       view r' s' x = (if r' = address_space vm \<and> stack_bottom \<le> x \<and> x < USER_STACK_TOP then Some (0, user_data) else view r' s x)"
proof -
  have r: "address_space vm \<in> R" using ok by (simp add: vm_ok_def vm_inv_def)
  have "4 * ((USER_STACK_TOP - stack_bottom) div PAGE_SIZE) \<le> card (pool s)" using c stack_range(3) by simp
  from map_range_view [OF ok stack_range(4,5) user_data_simps(2,1) stack_range(1) [symmetric] stack_range(2) [symmetric] free this]
  obtain vm' s' q where l: "alloc_and_map_range vm stack_bottom USER_STACK_SIZE user_data s = (VmOk, vm', s')" "vm_ok R vm' s'"
    "address_space vm' = address_space vm" "card (pool s) \<le> card (pool s') + 4 * ((USER_STACK_TOP - stack_bottom) div PAGE_SIZE)"
    "vlook (vmas vm') = (\<lambda>a. if stack_bottom \<le> a \<and> a < USER_STACK_TOP then Some (q, 0) else vlook (vmas vm) a)"
    and v: "\<And>r' x. r' \<in> R \<Longrightarrow> x < USER_SPACE_END \<Longrightarrow>
       view r' s' x = (if r' = address_space vm \<and> stack_bottom \<le> x \<and> x < USER_STACK_TOP then Some (0, user_data) else view r' s x)" by blast
  have "stack_mapped (address_space vm) s'"
    unfolding stack_mapped_def
  proof (intro allI impI)
    fix x assume x: "stack_bottom \<le> x \<and> x < USER_STACK_TOP"
    then have "view (address_space vm) s' x = Some (0, user_data)" "x < USER_SPACE_END" using v [OF r, of x] stack_in_user by simp_all
    then show "translate (mem s') (address_space vm) x \<noteq> None" by (auto simp: view_def translate_mapped split: option.splits)
  qed
  moreover have "conserved R s s'"
    using alloc_and_map_range_conserved [OF ok stack_range(4) user_data_simps(2) stack_range(1) [symmetric] stack_range(2) [symmetric] free l(1)] .
  ultimately show ?thesis using that [OF l(1-3)] v by blast
qed

text \<open>
  The contents of the initial stack: the argument count at the stack pointer, the pointers to the argument and environment strings, and
  the auxiliary vector.
\<close>

definition start_stack :: "usize \<Rightarrow> mmu \<Rightarrow> usize \<Rightarrow> (u64 \<times> u64) list \<Rightarrow> string list \<Rightarrow> string list \<Rightarrow> bool" where
  "start_stack r s sp aux argv envp \<longleftrightarrow> 16 dvd sp \<and> stack_bottom \<le> sp \<and> sp \<le> USER_STACK_TOP
    \<and> (\<exists>as es. user_load r s sp (8 * (length argv + length envp + 15)) = Some (words_block (frame_words aux as es))
        \<and> length as = length argv \<and> length es = length envp
        \<and> (\<forall>i<length argv. user_load r s (as ! i) (length (argv ! i) + 1) = Some (str_bytes (argv ! i) @ [0]))
        \<and> (\<forall>i<length envp. user_load r s (es ! i) (length (envp ! i) + 1) = Some (str_bytes (envp ! i) @ [0])))"

definition elf_auxv :: "bytes \<Rightarrow> (u64 \<times> u64) list" where
  "elf_auxv elf = (let h = Elf64Header_of elf in
     auxv (unat (e_entry h)) (foldl (phdr_step (unat (e_phoff h))) 0 (elf_segments elf)) (unat (e_phentsize h)) (unat (e_phnum h)))"

lemma load_elf_spec:
  assumes ok: "vm_ok R vm s" "vmas vm = []" and elf: "elf_ok elf" and fits: "frame_fits argv envp"
    and frames: "4 * all_pages (elf_segments elf) + 128 \<le> card (pool s)"
  shows "\<exists>sp vm' s'. load_elf elf vm argv envp s =
      (LOk \<lparr> le_entry_point = unat (e_entry (Elf64Header_of elf)), le_user_stack_top = sp \<rparr>, vm', s')
    \<and> vm_ok R vm' s' \<and> address_space vm' = address_space vm
    \<and> (\<forall>x < stack_bottom. view (address_space vm) s' x = elf_image elf (elf_segments elf) x)
    \<and> (\<forall>x. stack_bottom \<le> x \<and> x < USER_STACK_TOP \<longrightarrow> (\<exists>b. view (address_space vm) s' x = Some (b, user_data)))
    \<and> (\<forall>x. USER_STACK_TOP \<le> x \<and> x < USER_SPACE_END \<longrightarrow> view (address_space vm) s' x = None)
    \<and> (\<forall>r' \<in> R - {address_space vm}. \<forall>x<USER_SPACE_END. view r' s' x = view r' s x)
    \<and> start_stack (address_space vm) s' sp (elf_auxv elf) argv envp \<and> conserved R s s'"
proof -
  let ?h = "Elf64Header_of elf" and ?segs = "elf_segments elf" and ?r = "address_space vm"
  let ?pv = "foldl (phdr_step (unat (e_phoff ?h))) 0 ?segs"
  have r: "?r \<in> R" using ok(1) by (simp add: vm_ok_def vm_inv_def)
  have em: "view ?r s x = None" for x
    using ok by (auto simp: vm_ok_def coherent_def view_def split: option.split)
  have e: "length elf < USIZE_LIMIT" "list_all (seg_ok elf) ?segs" "segs_disjoint ?segs"
    "\<forall>j. 0 \<le> j \<and> j < 0 + unat (e_phnum ?h) \<longrightarrow> unat (e_phoff ?h) + j * unat (e_phentsize ?h) + 56 \<le> length elf"
    using elf by (simp_all add: elf_ok_def)
  have vl: "dom (vlook (vmas vm)) = {}" by (auto simp: ok(2))
  then have "seg_range ?segs \<inter> dom (vlook (vmas vm)) = {}" by simp
  moreover have "4 * all_pages ?segs \<le> card (pool s)" using frames by simp
  ultimately obtain vm1 s1 where l1: "load_segments elf (unat (e_phoff ?h)) (unat (e_phentsize ?h)) 0 (unat (e_phnum ?h)) 0 vm s = (LOk ?pv, vm1, s1)"
    and ls: "loads R elf ?segs vm s vm1 s1"
    using load_segments_spec [OF ok(1) e(1) e(4) _ e(2,3), of 0] by (auto simp: elf_segments_def Let_def)
  have below: "x < stack_bottom" if "x \<in> seg_range ?segs" for x
    using that e(2) seg_bounds(4) by (fastforce simp: seg_range_def list_all_iff)
  have v1: "view ?r s1 x = elf_image elf ?segs x" if "x < USER_SPACE_END" for x
    using ls that r em elf_image_outside [of x ?segs elf] by (auto simp: loads_def)
  have o1: "view r' s1 x = view r' s x" if "r' \<in> R - {?r}" "x < USER_SPACE_END" for r' x
    using ls that by (auto simp: loads_def)
  have free: "{stack_bottom..<USER_STACK_TOP} \<inter> dom (vlook (vmas vm1)) = {}"
    using ls below vl by (fastforce simp: loads_def)
  have c: "128 \<le> card (pool s1)" using ls frames by (simp add: loads_def)
  have ok1: "vm_ok R vm1 s1" "address_space vm1 = ?r" using ls by (simp_all add: loads_def)
  obtain vm2 s2 where l2: "alloc_and_map_range vm1 stack_bottom USER_STACK_SIZE user_data s1 = (VmOk, vm2, s2)"
    and ok2: "vm_ok R vm2 s2" "address_space vm2 = ?r" "stack_mapped ?r s2" "conserved R s1 s2"
    and v2: "\<And>r' x. r' \<in> R \<Longrightarrow> x < USER_SPACE_END \<Longrightarrow>
       view r' s2 x = (if r' = ?r \<and> stack_bottom \<le> x \<and> x < USER_STACK_TOP then Some (0, user_data) else view r' s1 x)"
    using loaded_stack [OF ok1(1) free c] unfolding ok1(2) by metis
  obtain res s3 where l3: "setup_user_stack vm2 (unat (e_entry ?h)) ?pv (unat (e_phentsize ?h)) (unat (e_phnum ?h)) argv envp s2 = (res, s3)" by fastforce
  have "vm_inv R (address_space vm2) s2" using ok2 by (simp add: vm_ok_def)
  from setup_user_stack_layout [OF this _ l3] fits ok2
  obtain sp where sp: "res = LOk sp" "stack_bottom \<le> sp" and os: "only_stack R ?r sp s2 s3" and ist: "start_stack ?r s3 sp (elf_auxv elf) argv envp"
    unfolding start_stack_def elf_auxv_def Let_def by auto
  have "conserved R s s1" "conserved R s2 s3" using ls os by (simp_all add: loads_def only_stack_def conserved_same)
  then have "conserved R s s3" using conserved_trans [OF _ conserved_trans [OF ok2(4)]] by blast
  moreover note ist
  moreover have "load_elf elf vm argv envp s = (LOk \<lparr> le_entry_point = unat (e_entry ?h), le_user_stack_top = sp \<rparr>, vm2, s3)"
    using l1 l2 l3 sp(1) elf_ok_header [OF elf] by (simp add: load_elf_def Let_def)
  moreover have "vm_ok R vm2 s3" using ok2 os by (simp add: vm_ok_def coherent_def only_stack_def r)
  moreover have "view ?r s3 x = elf_image elf ?segs x" if "x < stack_bottom" for x
    using only_stack_view [OF os r, of x] v2 [OF r, of x] v1 [of x] that sp(2) stack_in_user by simp
  moreover have "\<exists>b. view ?r s3 x = Some (b, user_data)" if "stack_bottom \<le> x \<and> x < USER_STACK_TOP" for x
    using v2 [OF r, of x] os r that stack_in_user by (auto simp: view_def only_stack_def split: option.splits)
  moreover have "view ?r s3 x = None" if "USER_STACK_TOP \<le> x \<and> x < USER_SPACE_END" for x
    using only_stack_view [OF os r, of x] v2 [OF r, of x] v1 [of x] that below [of x] elf_image_outside [of x ?segs elf] by fastforce
  moreover have "view r' s3 x = view r' s x" if "r' \<in> R - {?r}" "x < USER_SPACE_END" for r' x
    using only_stack_view [OF os, of r' x] v2 [of r' x] o1 [of r' x] that by simp
  ultimately show ?thesis using ok2(2) by blast
qed

text \<open>
  C9: Given a file whose headers are in bounds and whose segments are disjoint and lie below the stack, and enough
  free frames, the loader succeeds on an empty address space. Below the stack the address space is
  then exactly the image the program headers describe: the bytes of the file, zeros up to the end of the last page of
  each segment, with the access rights of the segment, and nothing else. The stack is readable and
  writable, nothing lies above it, and no other address space changes.
\<close>

theorem load_elf_correct:
  assumes ok: "vm_ok R vm s" "vmas vm = []" and elf: "elf_ok elf" and fits: "frame_fits argv envp"
    and frames: "4 * all_pages (elf_segments elf) + 128 \<le> card (pool s)"
  shows "\<exists>sp vm' s'. load_elf elf vm argv envp s =
      (LOk \<lparr> le_entry_point = unat (e_entry (Elf64Header_of elf)), le_user_stack_top = sp \<rparr>, vm', s')
    \<and> vm_ok R vm' s' \<and> address_space vm' = address_space vm
    \<and> (\<forall>x < stack_bottom. view (address_space vm) s' x = elf_image elf (elf_segments elf) x)
    \<and> (\<forall>x. stack_bottom \<le> x \<and> x < USER_STACK_TOP \<longrightarrow> (\<exists>b. view (address_space vm) s' x = Some (b, user_data)))
    \<and> (\<forall>x. USER_STACK_TOP \<le> x \<and> x < USER_SPACE_END \<longrightarrow> view (address_space vm) s' x = None)
    \<and> (\<forall>r' \<in> R - {address_space vm}. \<forall>x<USER_SPACE_END. view r' s' x = view r' s x)"
  using load_elf_spec [OF assms] by blast

text \<open>A machine of 256 frames and a small program, for the witnesses.\<close>

definition demo_big :: mmu where
  "demo_big = \<lparr> pmm = \<lparr> bitmap = 7 # replicate 31 0, total_frames = 256, free_frames = 253, last_frame = 1 \<rparr>, mem = (\<lambda>_. 0) \<rparr>"

definition demo_elf :: bytes where
  "demo_elf =
    [0x7F, 0x45, 0x4C, 0x46, 2, 1, 1, 0] @ replicate 8 0 @ [2, 0, 0x3E, 0, 1, 0, 0, 0] @ [0x78, 0, 0x40, 0, 0, 0, 0, 0] @
    [64, 0, 0, 0, 0, 0, 0, 0] @ replicate 8 0 @ [0, 0, 0, 0, 64, 0, 56, 0] @ [1, 0, 0, 0, 0, 0, 0, 0] @
    [1, 0, 0, 0, 5, 0, 0, 0] @ replicate 8 0 @ [0, 0, 0x40, 0, 0, 0, 0, 0] @ [0, 0, 0x40, 0, 0, 0, 0, 0] @
    [124, 0, 0, 0, 0, 0, 0, 0] @ [128, 0, 0, 0, 0, 0, 0, 0] @ [0, 16, 0, 0, 0, 0, 0, 0] @ replicate 4 0x90"

lemma demo_big_free: "free_set (pmm demo_big) = {3..<256}"
proof -
  have low: "\<forall>f \<in> set [0..<8]. test_bit (pmm demo_big) f \<longleftrightarrow> f < 3" by code_simp
  have high: "\<not> test_bit (pmm demo_big) f" if "8 \<le> f" "f < 256" for f
  proof -
    have "1 \<le> f div 8" "f div 8 < 32" using that div_le_mono [OF that(1), of 8] by (simp_all add: less_mult_imp_div_less)
    then obtain n where "f div 8 = Suc n" "n < 31" by (cases "f div 8") auto
    then show ?thesis using that by (simp add: test_bit_def demo_big_def)
  qed
  have *: "(\<not> test_bit (pmm demo_big) f) = (f \<in> {3..<256})" for f
  proof (cases "f < 8")
    case False
    then show ?thesis using high [of f] by (cases "f < 256") (auto simp: test_bit_def demo_big_def)
  qed (use low in auto)
  show ?thesis unfolding free_set_def * by (rule Collect_mem_eq)
qed

lemma demo_big_ok: "vm_ok {8192} \<lparr> address_space = 8192, vmas = [] \<rparr> demo_big"
proof -
  have "2 * PAGE_SIZE \<in> managed_addrs (pmm demo_big)" unfolding managed_addrs_def by (rule imageI) (simp add: demo_big_def)
  moreover have "pmm_ok (pmm demo_big)"
    by (simp add: pmm_ok_def pmm_wf_def frame0_reserved_def frames_counted_def demo_big_free) (simp add: demo_big_def)
  moreover have "8192 \<notin> avail_addrs (pmm demo_big)" by (auto simp: avail_addrs_def demo_big_free PAGE_SIZE_def)
  moreover have "total_frames (pmm demo_big) * PAGE_SIZE \<le> 2 ^ 52" by (simp add: demo_big_def PAGE_SIZE_def)
  ultimately have "vm_inv {8192} 8192 \<lparr> pmm = pmm demo_big, mem = (\<lambda>_. 0) \<rparr>" by (intro empty_vm_inv) (simp_all add: PAGE_SIZE_def)
  moreover have "\<lparr> pmm = pmm demo_big, mem = (\<lambda>_. 0) \<rparr> = demo_big" by (simp add: demo_big_def)
  ultimately have inv: "vm_inv {8192} 8192 demo_big" by simp
  moreover have "mapped 8192 demo_big = Map.empty"
    by (simp add: fun_eq_iff mapped_def demo_big_def demo_pte demo_node)
  ultimately show ?thesis by (simp add: vm_ok_def areas_aligned_def coherent_def)
qed

lemma demo_big_pool: "card (pool demo_big) = 253"
  unfolding avail_addrs_def demo_big_free by (subst card_image) (auto simp: inj_on_def PAGE_SIZE_def)

lemma demo_elf_segments:
  "elf_segments demo_elf = [\<lparr> p_type = 1, p_flags = 5, p_offset = 0, p_vaddr = 0x400000, p_filesz = 124, p_memsz = 128 \<rparr>]"
  by code_simp

lemma demo_elf_header: "e_phnum (Elf64Header_of demo_elf) = 1" "e_entry (Elf64Header_of demo_elf) = 0x400078"
  "e_phoff (Elf64Header_of demo_elf) = 64" "e_machine (Elf64Header_of demo_elf) = 0x3E" "take 6 demo_elf = [0x7F, 0x45, 0x4C, 0x46, 2, 1]"
  "length demo_elf = 124"
  by code_simp+

lemma demo_elf_ok: "elf_ok demo_elf"
  by (simp add: elf_ok_def demo_elf_header demo_elf_segments seg_ok_def USIZE_LIMIT_def USER_STACK_TOP_def USER_STACK_SIZE_def)

lemma demo_all_pages: "all_pages (elf_segments demo_elf) = 1"
  by (simp add: all_pages_def demo_elf_segments seg_pages_def seg_lo_def seg_hi_def align_down_def PAGE_SIZE_def)

lemma demo_fits: "frame_fits [''sh''] []"
  by (simp add: frame_fits_def frame_sp_def USER_STACK_TOP_def USER_STACK_SIZE_def align_down_def)

theorem load_elf_correct_witness:
  "\<exists>sp vm' s'. load_elf demo_elf \<lparr> address_space = 8192, vmas = [] \<rparr> [''sh''] [] demo_big =
      (LOk \<lparr> le_entry_point = 0x400078, le_user_stack_top = sp \<rparr>, vm', s')
    \<and> view 8192 s' 0x400078 = Some (0x90, segment_flags 5) \<and> view 8192 s' 0x40007C = Some (0, segment_flags 5)
    \<and> view 8192 s' 0x401000 = None"
proof -
  let ?vm = "\<lparr> address_space = 8192, vmas = [] \<rparr>"
  have code: "demo_elf ! 120 = 0x90" by code_simp
  have img: "elf_image demo_elf (elf_segments demo_elf) 0x400078 = Some (0x90, segment_flags 5)"
    "elf_image demo_elf (elf_segments demo_elf) 0x40007C = Some (0, segment_flags 5)"
    "elf_image demo_elf (elf_segments demo_elf) 0x401000 = None"
    by (simp_all add: elf_image_def demo_elf_segments in_seg_def seg_lo_def seg_hi_def seg_byte_def align_down_def PAGE_SIZE_def code)
  have "4 * all_pages (elf_segments demo_elf) + 128 \<le> card (pool demo_big)" by (simp add: demo_all_pages demo_big_pool)
  from load_elf_correct [OF demo_big_ok _ demo_elf_ok demo_fits this] img show ?thesis
    by (auto simp: demo_elf_header USER_STACK_TOP_def USER_STACK_SIZE_def)
qed

text \<open>
  C25: The initial stack follows the System V ABI. If the strings and the frame fit into the stack, the stack pointer is a multiple
  of sixteen and points to the argument count, followed by the argument pointers, a null pointer,
  the environment pointers, a null pointer and the auxiliary vector; each pointer is the address of its
  string with a terminating zero. Nothing below the stack pointer, above the stack, or in another address space changes.
  If they do not fit, the call fails.
\<close>

theorem user_stack_layout:
  assumes "vm_inv R (address_space vm) s" "stack_mapped (address_space vm) s"
    and "setup_user_stack vm entry_point phdr_vaddr phentsize phnum argv envp s = (res, s')"
  shows "if frame_fits argv envp
    then \<exists>sp as es. res = LOk sp \<and> 16 dvd sp \<and> stack_bottom \<le> sp \<and> sp \<le> USER_STACK_TOP
      \<and> user_load (address_space vm) s' sp (8 * (length argv + length envp + 15))
          = Some (words_block (frame_words (auxv entry_point phdr_vaddr phentsize phnum) as es))
      \<and> length as = length argv \<and> length es = length envp
      \<and> (\<forall>i<length argv. user_load (address_space vm) s' (as ! i) (length (argv ! i) + 1) = Some (str_bytes (argv ! i) @ [0]))
      \<and> (\<forall>i<length envp. user_load (address_space vm) s' (es ! i) (length (envp ! i) + 1) = Some (str_bytes (envp ! i) @ [0]))
      \<and> only_stack R (address_space vm) sp s s'
    else \<exists>e. res = LErr e"
  using setup_user_stack_layout [OF assms] .

lemma user_load_take: "user_load r s v n = Some bs \<Longrightarrow> m \<le> n \<Longrightarrow> user_load r s v m = Some (take m bs)"
  by (auto simp: user_load_spec take_map split: if_splits)

lemma demo_stack: "\<exists>vm s. vm_ok {8192} vm s \<and> address_space vm = 8192 \<and> stack_mapped 8192 s"
proof -
  let ?vm = "\<lparr> address_space = 8192, vmas = [] \<rparr>"
  have fr: "{stack_bottom..<USER_STACK_TOP} \<inter> dom (vlook (vmas ?vm)) = {}" "128 \<le> card (pool demo_big)"
    by (auto simp: demo_big_pool)
  show ?thesis
  proof (rule loaded_stack [OF demo_big_ok fr])
    fix vm s assume "vm_ok {8192} vm s" "address_space vm = address_space ?vm" "stack_mapped (address_space ?vm) s"
    then show ?thesis by auto
  qed
qed

theorem user_stack_layout_witness:
  "\<exists>vm s sp s'. setup_user_stack vm 0x400078 0x400040 56 1 [''sh''] [] s = (LOk sp, s') \<and> 16 dvd sp
    \<and> user_load 8192 s' sp 8 = Some (u64_bytes 1)"
proof -
  obtain vm s where ok: "vm_ok {8192} vm s" "address_space vm = 8192" "stack_mapped 8192 s" using demo_stack by blast
  obtain res s' where run: "setup_user_stack vm 0x400078 0x400040 56 1 [''sh''] [] s = (res, s')" by fastforce
  have "vm_inv {8192} (address_space vm) s" using ok by (simp add: vm_ok_def)
  from user_stack_layout [OF this _ run] ok(2,3) demo_fits obtain sp as es where sp: "res = LOk sp" "16 dvd sp" "length as = 1"
    and ld: "user_load 8192 s' sp (8 * 16) = Some (words_block (frame_words (auxv 0x400078 0x400040 56 1) as es))" by auto
  have "user_load 8192 s' sp 8 = Some (take 8 (words_block (frame_words (auxv 0x400078 0x400040 56 1) as es)))"
    using user_load_take [OF ld, of 8] by simp
  then show ?thesis using sp run by (auto simp: frame_words_def)
qed

text \<open>
  C26: The loader does not check that a segment lies in user space, nor that its size in memory covers its
  size in the file. A segment that occupies no memory but has data in the file is written wherever the
  address space maps its address, which includes the memory of the kernel.
\<close>

theorem segment_writes_anywhere:
  assumes "p_memsz phdr = 0" "PAGE_SIZE dvd unat (p_vaddr phdr)" "unat (p_vaddr phdr) + PAGE_SIZE < USIZE_LIMIT"
    and "0 < unat (p_filesz phdr)" "unat (p_filesz phdr) \<le> PAGE_SIZE"
    and "unat (p_offset phdr) + unat (p_filesz phdr) \<le> length elf" "length elf < USIZE_LIMIT"
    and "translate (mem s) (address_space vm) (unat (p_vaddr phdr)) = Some phys"
  shows "\<exists>pv' vm'. load_segment elf phoff phdr pv vm s =
    (LOk pv', vm', s\<lparr> mem := copy_bytes phys (take (unat (p_filesz phdr)) (drop (unat (p_offset phdr)) elf)) (mem s) \<rparr>)"
proof -
  let ?v = "unat (p_vaddr phdr)" and ?n = "unat (p_filesz phdr)" and ?o = "unat (p_offset phdr)"
  let ?data = "take ?n (drop ?o elf)" and ?fl = "segment_flags (p_flags phdr)"
  have al: "align_down ?v PAGE_SIZE = ?v" "align_down (?v + 0 + PAGE_SIZE - 1) PAGE_SIZE = ?v"
    using assms(2) align_down_page_end [OF assms(2)] by (simp_all add: align_down_id)
  have "\<not> USIZE_LIMIT \<le> ?v + 0 + PAGE_SIZE" using assms(3) by simp
  then obtain vm' where al1: "alloc_and_map_range vm ?v 0 ?fl s = (VmOk, vm', s)" "address_space vm' = address_space vm"
    unfolding alloc_and_map_range_def Let_def al by simp
  have len: "length ?data = ?n" using assms(6) by simp
  have "write_bytes_loop (address_space vm) ?v ?data 0 s = (VmOk, s\<lparr> mem := copy_bytes phys ?data (mem s) \<rparr>)"
    using assms(2,3,4,5,8) len
    by (simp add: write_bytes_loop.simps [of _ _ _ 0] Let_def write_bytes_loop.simps [of _ _ _ ?n] dvd_eq_mod_eq_0)
  then have wr: "write_bytes_to_space vm' ?v ?data s = (VmOk, s\<lparr> mem := copy_bytes phys ?data (mem s) \<rparr>)"
    by (simp add: write_bytes_to_space_def al1(2))
  have "checked_add ?v (phoff - ?o) \<noteq> None" if "phoff < ?o + ?n"
    using that assms(3,5) by (auto simp: checked_add_def)
  then show ?thesis
    using assms(1,4,6,7) al1(1) wr by (auto simp: load_segment_def Let_def checked_add_def split: option.splits)
qed

text \<open>A machine whose first page of the kernel's half of the address space is the frame \<open>0x6000\<close>.\<close>

definition demo_kernel_half :: mmu where
  "demo_kernel_half = demo_mmu\<lparr> mem := (\<lambda>a. if a = 1280 then 0x3001 else if a = 1536 then 0x4001
     else if a = 2048 then 0x5001 else if a = 2560 then 0x6001 else 0) \<rparr>"

theorem segment_writes_anywhere_witness:
  "\<exists>pv' vm' s'. load_segment [0xCC] 64
      \<lparr> p_type = 1, p_flags = 0, p_offset = 0, p_vaddr = 0xFFFF800000000000, p_filesz = 1, p_memsz = 0 \<rparr> 0
      \<lparr> address_space = 8192, vmas = [] \<rparr> demo_kernel_half = (LOk pv', vm', s')
    \<and> get_byte (mem demo_kernel_half) 0x6000 = 0 \<and> get_byte (mem s') 0x6000 = 0xCC"
proof -
  let ?p = "\<lparr> p_type = 1, p_flags = 0, p_offset = 0, p_vaddr = 0xFFFF800000000000, p_filesz = 1, p_memsz = 0 \<rparr>"
  have "translate (mem demo_kernel_half) 8192 0xFFFF800000000000 = Some 0x6000" by code_simp
  moreover have "PAGE_SIZE dvd 0xFFFF800000000000" "0xFFFF800000000000 + PAGE_SIZE < USIZE_LIMIT" "1 \<le> PAGE_SIZE"
    by (simp_all add: PAGE_SIZE_def USIZE_LIMIT_def)
  ultimately have "\<exists>pv' vm'. load_segment [0xCC] 64 ?p 0 \<lparr> address_space = 8192, vmas = [] \<rparr> demo_kernel_half =
      (LOk pv', vm', demo_kernel_half\<lparr> mem := copy_bytes 0x6000 (take 1 [0xCC]) (mem demo_kernel_half) \<rparr>)"
    using segment_writes_anywhere [of ?p "[0xCC]" demo_kernel_half "\<lparr> address_space = 8192, vmas = [] \<rparr>" "0x6000" 64 0]
    by (simp add: USIZE_LIMIT_def)
  moreover have "get_byte (mem demo_kernel_half) 0x6000 = 0"
    "get_byte (copy_bytes 0x6000 [0xCC] (mem demo_kernel_half)) 0x6000 = 0xCC" by code_simp+
  ultimately show ?thesis by auto
qed

end
