(* ===== verification/Exec.thy ===== *)
theory Exec
  imports Elf_Load Posix_System
begin

text \<open>
  Program execution: \<open>Process::exec\<close> (\<^verbatim>\<open>services/process/mod.rs\<close>) and the system call \<open>execve\<close> (\<^verbatim>\<open>services/posix/process.rs\<close>),
  whose second half repeats \<open>Process::exec\<close> for the calling process.
\<close>


subsection \<open>Replacing the program of a process\<close>

text \<open>The call of \<open>apply_exec\<close>: the new address space becomes active before the old one is dropped.\<close>

definition exec_commit :: "nat \<Rightarrow> LoadedElf \<Rightarrow> VmSpace \<Rightarrow> Stat \<Rightarrow> kernel \<Rightarrow> kernel option" where
  "exec_commit r loaded new_vm st k =
    (case apply_exec (k_procs k r) loaded new_vm (st_mode st) (st_uid st) (st_gid st) of
       None \<Rightarrow> None
     | Some (p, old_vm) \<Rightarrow>
        let k = (upd_proc r (\<lambda>_. p) k)\<lparr> k_cr3 := address_space new_vm \<rparr> in
        case old_vm of None \<Rightarrow> Some k | Some vm \<Rightarrow> vm_drop vm k)"

text \<open>The rest of \<open>exec\<close>, once the file has been read; an address space that could not be filled is dropped.\<close>

definition exec_load :: "nat \<Rightarrow> string list \<Rightarrow> string list \<Rightarrow> Stat \<Rightarrow> bytes \<Rightarrow> kernel \<Rightarrow> unit kres \<times> kernel" where
  "exec_load r argv envp st elf_data k =
    (case VmSpace_new (k_cr3 k) (k_mm k) of
       (None, s) \<Rightarrow> (Err ENOMEM, k\<lparr> k_mm := s \<rparr>)
     | (Some new_vm, s) \<Rightarrow>
        (case load_elf elf_data new_vm argv envp s of
           (LPanic, vm, s) \<Rightarrow> (Panic, k\<lparr> k_mm := s \<rparr>)
         | (LErr _, vm, s) \<Rightarrow>
            (case vm_drop vm (k\<lparr> k_mm := s \<rparr>) of
               None \<Rightarrow> (Panic, k\<lparr> k_mm := s \<rparr>)
             | Some k \<Rightarrow> (Err ENOEXEC, k))
         | (LOk loaded, vm, s) \<Rightarrow>
            (case exec_commit r loaded vm st (k\<lparr> k_mm := s \<rparr>) of
               None \<Rightarrow> (Panic, k\<lparr> k_mm := s \<rparr>)
             | Some k \<Rightarrow> (Ok (), k))))"

definition usize_of_i64 :: "i64 \<Rightarrow> usize" where
  "usize_of_i64 n = nat (n mod 2 ^ 64)"

text \<open>The bytes read are at the front of a buffer of zeros that has the size of the file.\<close>

definition exec_read :: "nat \<Rightarrow> string list \<Rightarrow> string list \<Rightarrow> Stat \<Rightarrow> bytes io \<Rightarrow> unit io" where
  "exec_read r argv envp st res = (case res of
     Sleep k \<Rightarrow> Sleep k
   | Again k \<Rightarrow> Again k
   | Done Panic k \<Rightarrow> Done Panic k
   | Done (Err e) k \<Rightarrow> Done (Err e) k
   | Done (Ok bs) k \<Rightarrow>
      (let (x, k) = exec_load r argv envp st (bs @ replicate (usize_of_i64 (st_size st) - length bs) 0) k in Done x k))"

definition Process_exec :: "nat \<Rightarrow> string \<Rightarrow> string list \<Rightarrow> string list \<Rightarrow> usize \<Rightarrow> kernel \<Rightarrow> unit io" where
  "Process_exec r path argv envp rsp k =
    (case resolve_path (p_cwd (k_procs k r)) path k of
       Panic \<Rightarrow> Done Panic k
     | Err e \<Rightarrow> Done (Err e) k
     | Ok inode \<Rightarrow>
        (case inode_stat inode k of
           (Panic, k) \<Rightarrow> Done Panic k
         | (Err e, k) \<Rightarrow> Done (Err e) k
         | (Ok st, k) \<Rightarrow> exec_read r argv envp st (inode_read_with_flags inode 0 (usize_of_i64 (st_size st)) 0 0 rsp k)))"

subsection \<open>The system call\<close>

definition sys_execve :: "usize \<Rightarrow> usize \<Rightarrow> usize \<Rightarrow> usize \<Rightarrow> kernel \<Rightarrow> int io" where
  "sys_execve path_ptr argv_ptr envp_ptr rsp k =
    (case copy_user_path (k_cr3 k) path_ptr (k_mm k) of
       Panic \<Rightarrow> Done Panic k
     | Err e \<Rightarrow> Done (Ok (- e)) k
     | Ok path \<Rightarrow>
    (case copy_user_str_array (k_cr3 k) argv_ptr 256 (k_mm k) of
       Panic \<Rightarrow> Done Panic k
     | Err e \<Rightarrow> Done (Ok (- e)) k
     | Ok argv \<Rightarrow>
    (case copy_user_str_array (k_cr3 k) envp_ptr 256 (k_mm k) of
       Panic \<Rightarrow> Done Panic k
     | Err e \<Rightarrow> Done (Ok (- e)) k
     | Ok envp \<Rightarrow>
    (case get_current_process k of
       None \<Rightarrow> Done (Ok (- ESRCH)) k
     | Some r \<Rightarrow>
        (case Process_exec r path argv envp rsp k of
           Sleep k \<Rightarrow> Sleep k
         | Again k \<Rightarrow> Again k
         | Done Panic k \<Rightarrow> Done Panic k
         | Done (Err e) k \<Rightarrow> Done (Ok (- e)) k
         | Done (Ok _) k \<Rightarrow> Done (Ok 0) k)))))"

subsection \<open>Correctness\<close>

lemma mapped_view_cong: "mem s' = mem s \<Longrightarrow> view r s' x = view r s x"
  by (simp add: view_def mapped_def)

lemma kept_view: "kept R s s' \<Longrightarrow> r \<in> R \<Longrightarrow> x < USER_SPACE_END \<Longrightarrow> view r s' x = view r s x"
  by (intro view_eq) (simp_all add: kept_def)

lemma free_hierarchy_mem:
  assumes "pt_inv R s" "r \<in> R"
  shows "mem (free_page_table_hierarchy r s) = mem s" "pt_inv (R - {r}) (free_page_table_hierarchy r s)"
  using free_page_table_hierarchy_spec [OF assms] free_page_table_hierarchy_rest [OF assms] by (simp_all add: released_def)

text \<open>The process after a successful \<open>exec\<close>.\<close>

definition exec_process :: "Process \<Rightarrow> Stat \<Rightarrow> LoadedElf \<Rightarrow> VmSpace \<Rightarrow> KernelStack \<Rightarrow> usize \<Rightarrow> Process" where
  "exec_process p st loaded vm ks krsp =
    (let euid = (if st_mode st AND S_ISUID \<noteq> 0 then st_uid st else p_euid p);
         egid = (if st_mode st AND S_ISGID \<noteq> 0 then st_gid st else p_egid p)
     in p\<lparr> p_euid := euid, p_egid := egid, p_suid := euid, p_sgid := egid, p_vm_space := Some vm,
           p_entry_point := le_entry_point loaded, p_user_stack_top := le_user_stack_top loaded,
           p_mmap_next_vaddr := DEFAULT_MMAP_BASE, p_kernel_stack := ks, p_saved_kernel_rsp := krsp, p_has_started := True \<rparr>)"

definition user_frame :: "LoadedElf \<Rightarrow> TrapFrame" where
  "user_frame loaded = zero_frame\<lparr> tf_rip := of_nat (le_entry_point loaded), tf_cs := USER_CODE_SEL, tf_rflags := 0x202,
     tf_rsp := of_nat (le_user_stack_top loaded), tf_ss := USER_DATA_SEL \<rparr>"

lemma apply_exec_spec:
  assumes "TRAP_FRAME_SIZE \<le> length (ks_bytes (p_kernel_stack p))"
  obtains ks krsp where "apply_exec p loaded vm (st_mode st) (st_uid st) (st_gid st) =
      Some (exec_process p st loaded vm ks krsp, p_vm_space p)" "frame_at ks krsp = user_frame loaded"
proof -
  obtain ks krsp where "init_user_kernel_stack (p_kernel_stack p) (le_entry_point loaded) (le_user_stack_top loaded) = Some (ks, krsp)"
    "frame_at ks krsp = user_frame loaded"
    using put_frame_spec [OF assms] unfolding init_user_kernel_stack_def user_frame_def by blast
  then show ?thesis by (intro that) (auto simp: apply_exec_def exec_process_def Let_def)
qed

lemma start_stack_cong:
  assumes "mem s' = mem s"
  shows "start_stack r s' sp aux argv envp = start_stack r s sp aux argv envp"
proof -
  have "user_load r s' v n = user_load r s v n" for v n using assms by (simp add: user_load_spec user_get_def)
  then show ?thesis by (simp only: start_stack_def)
qed

text \<open>
  An address space with the program \<open>elf\<close>: its image below the stack, a readable and writable stack with the arguments and the
  environment, and nothing above it.
\<close>

definition shows_program :: "usize \<Rightarrow> mmu \<Rightarrow> bytes \<Rightarrow> usize \<Rightarrow> string list \<Rightarrow> string list \<Rightarrow> bool" where
  "shows_program r s elf sp argv envp \<longleftrightarrow>
    (\<forall>x < stack_bottom. view r s x = elf_image elf (elf_segments elf) x)
    \<and> (\<forall>x. stack_bottom \<le> x \<and> x < USER_STACK_TOP \<longrightarrow> (\<exists>b. view r s x = Some (b, user_data)))
    \<and> (\<forall>x. USER_STACK_TOP \<le> x \<and> x < USER_SPACE_END \<longrightarrow> view r s x = None)
    \<and> start_stack r s sp (elf_auxv elf) argv envp"

lemma shows_program_cong: "mem s' = mem s \<Longrightarrow> shows_program r s' elf sp argv envp = shows_program r s elf sp argv envp"
  by (simp add: shows_program_def start_stack_cong [of s' s] mapped_view_cong [of s' s])

text \<open>A new address space with a program in it.\<close>

lemma VmSpace_new_Some:
  assumes "pt_inv R s" "pool s \<noteq> {}"
  shows "\<exists>n s1. VmSpace_new c s = (Some n, s1)"
  using assms pmm_alloc.alloc_None [of "pmm s"]
  by (fastforce simp: VmSpace_new_def kernel_alloc_frame_def pt_inv_def Let_def split: prod.splits option.splits)

lemma load_program_spec:
  assumes inv: "pt_inv R s" "pt_user R s" and act: "PAGE_SIZE dvd active" "active \<notin> pool s"
    and elf: "elf_ok elf" "frame_fits argv envp" "4 * all_pages (elf_segments elf) + 129 \<le> card (pool s)"
  obtains n s1 sp new s2 where "VmSpace_new active s = (Some n, s1)"
    "load_elf elf n argv envp s1 = (LOk \<lparr> le_entry_point = unat (e_entry (Elf64Header_of elf)), le_user_stack_top = sp \<rparr>, new, s2)"
    "address_space new \<in> pool s" "address_space new \<notin> frames R s" "vm_ok (insert (address_space new) R) new s2"
    "\<And>x. x < stack_bottom \<Longrightarrow> view (address_space new) s2 x = elf_image elf (elf_segments elf) x"
    "\<And>q x. q \<in> R \<Longrightarrow> x < USER_SPACE_END \<Longrightarrow> view q s2 x = view q s x"
    "shows_program (address_space new) s2 elf sp argv envp"
    "pool s2 \<union> frames (insert (address_space new) R) s2 = pool s \<union> frames R s"
proof -
  have "pool s \<noteq> {}" using elf(3) by auto
  then obtain n s1 where new: "VmSpace_new active s = (Some n, s1)" using VmSpace_new_Some [OF inv(1)] by blast
  note N = VmSpace_new_spec [OF inv act new] and K = VmSpace_new_kept [OF inv act new]
  let ?n = "address_space n" and ?Q = "insert (address_space n) R"
  have ok: "vm_ok ?Q n s1" "vmas n = []"
    using N by (simp_all add: vm_ok_def areas_aligned_def coherent_def)
  have fin: "finite (pool s)" using elf(3) card.infinite by fastforce
  then have "4 * all_pages (elf_segments elf) + 128 \<le> card (pool s1)" using N elf(3) by simp
  from load_elf_spec [OF ok elf(1,2) this]
  obtain sp vm' s2 where ld: "load_elf elf n argv envp s1 =
      (LOk \<lparr> le_entry_point = unat (e_entry (Elf64Header_of elf)), le_user_stack_top = sp \<rparr>, vm', s2)"
    and L: "vm_ok ?Q vm' s2" "address_space vm' = ?n" "\<forall>x < stack_bottom. view ?n s2 x = elf_image elf (elf_segments elf) x"
      "\<forall>q \<in> ?Q - {?n}. \<forall>x<USER_SPACE_END. view q s2 x = view q s1 x"
      "\<forall>x. stack_bottom \<le> x \<and> x < USER_STACK_TOP \<longrightarrow> (\<exists>b. view ?n s2 x = Some (b, user_data))"
      "\<forall>x. USER_STACK_TOP \<le> x \<and> x < USER_SPACE_END \<longrightarrow> view ?n s2 x = None"
      "start_stack ?n s2 sp (elf_auxv elf) argv envp" "conserved ?Q s1 s2" by blast
  show ?thesis
  proof (rule that [OF new ld])
    show "view q s2 x = view q s x" if "q \<in> R" "x < USER_SPACE_END" for q x
    proof -
      have "q \<in> ?Q - {?n}" using that(1) N root_frame [of R s] by auto
      then have "view q s2 x = view q s1 x" using L(4) that(2) by blast
      then show ?thesis using kept_view [OF K that] by simp
    qed
    show "vm_ok (insert (address_space vm') R) vm' s2" using L(1,2) by simp
    show "shows_program (address_space vm') s2 elf sp argv envp" unfolding shows_program_def L(2) using L(3,5-7) by blast
    show "pool s2 \<union> frames (insert (address_space vm') R) s2 = pool s \<union> frames R s"
      unfolding L(2) using L(8) VmSpace_new_frames [OF inv act new] by (simp add: conserved_def)
  qed (use L N in simp_all)
qed

text \<open>The frames of the address spaces that exist already are not touched.\<close>

lemma load_program_frames:
  assumes inv: "pt_inv R s" "pt_user R s" and act: "PAGE_SIZE dvd active" "active \<notin> pool s"
    and elf: "elf_ok elf" "frame_fits argv envp" "4 * all_pages (elf_segments elf) + 129 \<le> card (pool s)"
    and run: "VmSpace_new active s = (Some n, s1)" "load_elf elf n argv envp s1 = (res, new, s2)"
    and new: "pt_inv (insert (address_space new) R) s2" "address_space new \<notin> frames R s"
      "pool s2 \<union> frames (insert (address_space new) R) s2 = pool s \<union> frames R s" and r: "r \<in> R"
  shows "frames {r} s2 = frames {r} s"
proof (rule frames_kept [OF inv(1) new(1) r])
  show "address_space new \<noteq> r" using new(2) r root_frame [of R s] by auto
  have "pt_inv (R - {r}) s" "pt_user (R - {r}) s" using inv pt_inv_subset [OF inv(1)] by (auto simp: pt_user_def)
  then show "pool s2 \<union> frames (insert (address_space new) (R - {r})) s2 = pool s \<union> frames (R - {r}) s"
  proof (rule load_program_spec [OF _ _ act elf])
    fix n' s1' sp' new' s2'
    assume "VmSpace_new active s = (Some n', s1')"
      "load_elf elf n' argv envp s1' = (LOk \<lparr> le_entry_point = unat (e_entry (Elf64Header_of elf)), le_user_stack_top = sp' \<rparr>, new', s2')"
      and eq: "pool s2' \<union> frames (insert (address_space new') (R - {r})) s2' = pool s \<union> frames (R - {r}) s"
    then have "new' = new" "s2' = s2" using run by simp_all
    then show ?thesis using eq by simp
  qed
qed (rule new(3))

lemma exec_load_spec:
  assumes vm: "p_vm_space (k_procs k r) = Some vm" "vm_inv R (address_space vm) (k_mm k)" "k_cr3 k = address_space vm"
    and ks: "TRAP_FRAME_SIZE \<le> length (ks_bytes (p_kernel_stack (k_procs k r)))"
    and elf: "elf_ok elf" "frame_fits argv envp" "4 * all_pages (elf_segments elf) + 129 \<le> card (pool (k_mm k))"
  obtains new s loaded krs krsp where
    "exec_load r argv envp st elf k =
       (Ok (), (upd_proc r (\<lambda>p. exec_process p st loaded new krs krsp) k)\<lparr> k_cr3 := address_space new, k_mm := s \<rparr>)"
    "le_entry_point loaded = unat (e_entry (Elf64Header_of elf))" "frame_at krs krsp = user_frame loaded"
    "address_space new \<in> pool (k_mm k)" "pt_inv (insert (address_space new) R - {address_space vm}) s"
    "shows_program (address_space new) s elf (le_user_stack_top loaded) argv envp"
    "\<And>q x. q \<in> R - {address_space vm} \<Longrightarrow> x < USER_SPACE_END \<Longrightarrow> view q s x = view q (k_mm k) x"
    "frames {address_space vm} (k_mm k) \<subseteq> pool s"
    "pool s \<union> frames (insert (address_space new) R - {address_space vm}) s = pool (k_mm k) \<union> frames R (k_mm k)"
proof -
  let ?s = "k_mm k" and ?old = "address_space vm" and ?p = "k_procs k r"
  have inv: "pt_inv R ?s" "pt_user R ?s" "?old \<in> R" using vm(2) by (simp_all add: vm_inv_def)
  have fr: "?old \<in> frames R ?s" using root_frame inv(3) by auto
  have act: "PAGE_SIZE dvd k_cr3 k" "k_cr3 k \<notin> pool ?s"
    using frames_page [OF inv(1) fr] fr inv(1) by (auto simp: vm(3) pt_inv_def)
  obtain n s1 sp vm' s2 where new: "VmSpace_new (k_cr3 k) ?s = (Some n, s1)"
    and ld: "load_elf elf n argv envp s1 = (LOk \<lparr> le_entry_point = unat (e_entry (Elf64Header_of elf)), le_user_stack_top = sp \<rparr>, vm', s2)"
    and L: "address_space vm' \<in> pool ?s" "address_space vm' \<notin> frames R ?s" "vm_ok (insert (address_space vm') R) vm' s2"
      "\<And>x. x < stack_bottom \<Longrightarrow> view (address_space vm') s2 x = elf_image elf (elf_segments elf) x"
      "\<And>q x. q \<in> R \<Longrightarrow> x < USER_SPACE_END \<Longrightarrow> view q s2 x = view q ?s x"
      "shows_program (address_space vm') s2 elf sp argv envp"
      "pool s2 \<union> frames (insert (address_space vm') R) s2 = pool ?s \<union> frames R ?s"
    by (rule load_program_spec [OF inv(1,2) act elf]) (rule that)
  let ?l = "\<lparr> le_entry_point = unat (e_entry (Elf64Header_of elf)), le_user_stack_top = sp \<rparr>"
  obtain krs krsp where ap: "apply_exec ?p ?l vm' (st_mode st) (st_uid st) (st_gid st) = Some (exec_process ?p st ?l vm' krs krsp, Some vm)"
    and fa: "frame_at krs krsp = user_frame ?l" using apply_exec_spec [OF ks] unfolding vm(1) by blast
  have ne: "address_space vm' \<noteq> ?old" using L(2) fr by auto
  let ?s3 = "free_page_table_hierarchy ?old s2" and ?Q = "insert (address_space vm') R"
  have inv2: "pt_inv ?Q s2" and old: "?old \<in> ?Q" using L(3) inv(3) by (simp_all add: vm_ok_def vm_inv_def)
  note F = free_hierarchy_mem [OF inv2 old] and D = frames_disjoint(2) [OF inv2 old]
  have kp: "frames {?old} s2 = frames {?old} ?s" by (rule load_program_frames [OF inv(1,2) act elf new ld inv2 L(2,7) inv(3)])
  have pl: "pool ?s3 = pool s2 \<union> frames {?old} s2" using free_page_table_hierarchy_rest [OF inv2 old] by simp
  have fs: "frames X ?s3 = frames X s2" for X using F(1) by (simp add: frames_def)
  show ?thesis
  proof (rule that [where s = ?s3 and new = vm' and loaded = ?l and krs = krs and krsp = krsp])
    show "exec_load r argv envp st elf k =
       (Ok (), (upd_proc r (\<lambda>p. exec_process p st ?l vm' krs krsp) k)\<lparr> k_cr3 := address_space vm', k_mm := ?s3 \<rparr>)"
      using new ld ap ne
      by (simp add: exec_load_def exec_commit_def vm_drop_def VmSpace_drop_def upd_proc_def)
    show "view q ?s3 x = view q ?s x" if "q \<in> R - {?old}" "x < USER_SPACE_END" for q x
      using mapped_view_cong [OF F(1)] L(5) [of q x] that by simp
    show "shows_program (address_space vm') ?s3 elf (le_user_stack_top ?l) argv envp"
      using shows_program_cong [OF F(1)] L(6) by simp
    show "frames {?old} ?s \<subseteq> pool ?s3" by (simp add: pl kp)
    show "pool ?s3 \<union> frames (?Q - {?old}) ?s3 = pool ?s \<union> frames R ?s" unfolding pl fs L(7) [symmetric] D by blast
  qed (use L(1) F(2) fa in simp_all)
qed

text \<open>
  C8: \<open>execve\<close> of a loadable file succeeds when enough frames are free, and it does so whatever the mode of the file. The caller
  gets a new address space, which is active afterwards: below the stack it shows exactly the image of the file, the stack is readable
  and writable and holds the arguments, the environment and the auxiliary vector from the new stack pointer on, and nothing lies
  above it. The next return to user mode starts at the entry point with that stack pointer. The effective and saved
  identifiers follow the set-user-ID and set-group-ID bits of the file; nothing else of the process changes, in particular
  its descriptors, and no other process or address space changes. Every page and page table of the old
  address space is in the pool of free frames afterwards, and no frame is lost: the frames that were free or in use are those that are
  free or in use by the remaining address spaces and the new one.
\<close>

theorem execve_correct:
  assumes cur: "get_current_process k = Some r" and path: "copy_user_path (k_cr3 k) path_ptr (k_mm k) = Ok path"
    and argv: "copy_user_str_array (k_cr3 k) argv_ptr 256 (k_mm k) = Ok argv"
    and envp: "copy_user_str_array (k_cr3 k) envp_ptr 256 (k_mm k) = Ok envp"
    and ino: "resolve_path (p_cwd (k_procs k r)) path k = Ok i" "k_inodes k i = RamFile f"
    and vm: "p_vm_space (k_procs k r) = Some vm" "vm_inv R (address_space vm) (k_mm k)" "k_cr3 k = address_space vm"
    and ks: "TRAP_FRAME_SIZE \<le> length (ks_bytes (p_kernel_stack (k_procs k r)))"
    and elf: "elf_ok (rf_data f)" "frame_fits argv envp"
    and frames: "4 * all_pages (elf_segments (rf_data f)) + 129 \<le> card (pool (k_mm k))"
  shows "\<exists>new s loaded krs krsp. sys_execve path_ptr argv_ptr envp_ptr rsp k = Done (Ok 0)
      ((upd_proc r (\<lambda>p. exec_process p (RamFsFile_stat f) loaded new krs krsp) k)\<lparr> k_cr3 := address_space new, k_mm := s \<rparr>)
    \<and> le_entry_point loaded = unat (e_entry (Elf64Header_of (rf_data f))) \<and> frame_at krs krsp = user_frame loaded
    \<and> address_space new \<in> pool (k_mm k) \<and> pt_inv (insert (address_space new) R - {address_space vm}) s
    \<and> shows_program (address_space new) s (rf_data f) (le_user_stack_top loaded) argv envp
    \<and> (\<forall>q \<in> R - {address_space vm}. \<forall>x<USER_SPACE_END. view q s x = view q (k_mm k) x)
    \<and> frames {address_space vm} (k_mm k) \<subseteq> pool s
    \<and> pool s \<union> frames (insert (address_space new) R - {address_space vm}) s = pool (k_mm k) \<union> frames R (k_mm k)"
proof -
  let ?st = "RamFsFile_stat f" and ?elf = "rf_data f"
  have len: "length ?elf < USIZE_LIMIT" "0 < length ?elf" using elf(1) by (auto simp: elf_ok_def)
  then have sz: "usize_of_i64 (st_size ?st) = length ?elf"
    by (simp add: usize_of_i64_def RamFsFile_stat_def USIZE_LIMIT_def)
  have rd: "inode_read_with_flags i 0 (length ?elf) 0 0 rsp k = Done (Ok ?elf) k"
    using len ino(2) by (simp add: inode_read_with_flags_def RamFsFile_read_def Let_def)
  have st: "inode_stat i k = (Ok ?st, k)" using ino(2) by (simp add: inode_stat_def)
  show ?thesis
  proof (rule exec_load_spec [OF vm ks elf frames])
    fix new s loaded krs krsp
    assume ex: "exec_load r argv envp ?st ?elf k =
       (Ok (), (upd_proc r (\<lambda>p. exec_process p ?st loaded new krs krsp) k)\<lparr> k_cr3 := address_space new, k_mm := s \<rparr>)"
    have "sys_execve path_ptr argv_ptr envp_ptr rsp k = Done (Ok 0)
      ((upd_proc r (\<lambda>p. exec_process p ?st loaded new krs krsp) k)\<lparr> k_cr3 := address_space new, k_mm := s \<rparr>)"
      using cur path argv envp ino(1) ex by (simp add: sys_execve_def Process_exec_def st sz rd exec_read_def)
    moreover assume "le_entry_point loaded = unat (e_entry (Elf64Header_of ?elf))" "frame_at krs krsp = user_frame loaded"
      "address_space new \<in> pool (k_mm k)" "pt_inv (insert (address_space new) R - {address_space vm}) s"
      "shows_program (address_space new) s ?elf (le_user_stack_top loaded) argv envp"
      "\<And>q x. q \<in> R - {address_space vm} \<Longrightarrow> x < USER_SPACE_END \<Longrightarrow> view q s x = view q (k_mm k) x"
      "frames {address_space vm} (k_mm k) \<subseteq> pool s"
      "pool s \<union> frames (insert (address_space new) R - {address_space vm}) s = pool (k_mm k) \<union> frames R (k_mm k)"
    ultimately show ?thesis by blast
  qed
qed

lemma copy_user_path_at:
  assumes "vm_inv R r s" "cstr_at r s addr bs" "addr \<noteq> 0" "length bs < USER_STR_MAX" "from_utf8_ok bs"
  shows "copy_user_path r addr s = Ok (str_of bs)"
proof -
  obtain res where "copy_cstr_from_user r addr USER_STR_MAX s = Some res" "res = Inr bs"
    using copy_cstr_spec [OF assms(1), of addr USER_STR_MAX] assms(2-4) by blast
  then show ?thesis using assms(5) by (simp add: copy_user_path_def)
qed

lemma cstr_at_view:
  assumes "addr + length bs < USER_SPACE_END" "0 \<notin> set bs" "\<And>i. i \<le> length bs \<Longrightarrow> view r s (addr + i) = Some ((bs @ [0]) ! i, user_data)"
  shows "cstr_at r s addr bs"
  unfolding cstr_at_def
proof (intro conjI allI impI)
  fix i assume "i \<le> length bs"
  note v = assms(3) [OF this]
  then show "user_ok r s False (addr + i)" by (auto simp: view_def user_ok_def access_check_def user_data_simps split: option.splits)
  show "user_get r s (addr + i) = Some ((bs @ [0]) ! i)"
    using v assms(1) \<open>i \<le> length bs\<close> by (auto simp: view_def user_get_frame split: option.splits)
qed (use assms in auto)

text \<open>For the witness: the machine of 256 frames with the string \<open>/a\<close> at \<open>0x400000\<close>.\<close>

lemma demo_exec_mem:
  "\<exists>(vm :: VmSpace) s. vm_inv {8192} 8192 s \<and> address_space vm = 8192 \<and> 249 \<le> card (pool s) \<and> copy_user_path 8192 0x400000 s = Ok ''/a''"
proof -
  let ?vm = "\<lparr> address_space = 8192, vmas = [] \<rparr>"
  have b: "0x400000 + 4096 \<le> USER_SPACE_END" "(0 :: nat) < 4096" "0x400000 = align_down 0x400000 PAGE_SIZE"
    "0x401000 = align_down (0x400000 + 4096 + PAGE_SIZE - 1) PAGE_SIZE" "{0x400000..<0x401000} \<inter> dom (vlook (vmas ?vm)) = {}"
    "4 * ((0x401000 - 0x400000) div PAGE_SIZE) \<le> card (pool demo_big)"
    by (auto simp: USER_SPACE_END_def align_down_def PAGE_SIZE_def demo_big_pool)
  show ?thesis
  proof (rule map_range_view [OF demo_big_ok b(1,2) user_data_simps(2,1) b(3-6)])
    fix vm s p assume "vm_ok {8192} vm s" "address_space vm = address_space ?vm"
      and c: "card (pool demo_big) \<le> card (pool s) + 4 * ((0x401000 - 0x400000) div PAGE_SIZE)"
      and "\<And>r' x. r' \<in> {8192} \<Longrightarrow> x < USER_SPACE_END \<Longrightarrow>
       view r' s x = (if r' = address_space ?vm \<and> 0x400000 \<le> x \<and> x < 0x401000 then Some (0, user_data) else view r' demo_big x)"
    then have vm: "vm_inv {8192} 8192 s" "address_space vm = 8192"
      and v: "\<And>x. 0x400000 \<le> x \<Longrightarrow> x < 0x401000 \<Longrightarrow> view 8192 s x = Some (0, user_data)" by (auto simp: vm_ok_def USER_SPACE_END_def)
    have tr: "translate (mem s) 8192 (0x400000 + i) \<noteq> None" if "i < 3" for i
      using v [of "0x400000 + i"] that by (auto simp: view_def translate_mapped USER_SPACE_END_def split: option.splits)
    obtain res s' where wr: "write_bytes_to_space vm 0x400000 [47, 97, 0] s = (res, s')" by fastforce
    then have st: "stored {8192} 8192 0x400000 [47, 97, 0] s s'"
      using write_bytes_to_space_correct [OF _ _ wr, of "{8192}"] vm tr by (auto simp: USER_SPACE_END_def split: if_splits)
    have "view 8192 s' (0x400000 + i) = Some (([47, 97] @ [0]) ! i, user_data)" if "i \<le> length [47, 97 :: u8]" for i
      using stored_view [OF vm(1) st, of 8192 "0x400000 + i"] v [of "0x400000 + i"] that by (auto simp: USER_SPACE_END_def)
    then have "cstr_at 8192 s' 0x400000 [47, 97]" by (intro cstr_at_view) (simp_all add: USER_SPACE_END_def)
    moreover have inv: "vm_inv {8192} 8192 s'" "pool s' = pool s" using st by (simp_all add: stored_def)
    ultimately have "copy_user_path 8192 0x400000 s' = Ok ''/a''"
      using copy_user_path_at [of "{8192}" 8192 s' "0x400000" "[47, 97]"] demo_str_a by (simp add: USER_STR_MAX_def)
    then show ?thesis using inv vm(2) c by (intro exI [of _ vm] exI [of _ s']) (simp add: demo_big_pool PAGE_SIZE_def)
  qed
qed

theorem execve_correct_witness:
  "\<exists>k k'. sys_execve 0x400000 0 0 0 k = Done (Ok 0) k' \<and> p_entry_point (k_procs k' 1) = 0x400078
    \<and> view (k_cr3 k') (k_mm k') 0x400078 = Some (0x90, segment_flags 5) \<and> 8192 \<notin> pool (k_mm k) \<and> 8192 \<in> pool (k_mm k')"
proof -
  obtain vm :: VmSpace and s where m: "vm_inv {8192} 8192 s" "address_space vm = 8192" "249 \<le> card (pool s)" "copy_user_path 8192 0x400000 s = Ok ''/a''"
    using demo_exec_mem by blast
  let ?f = "RamFsFile_new demo_elf"
  define k where "k = demo_fs\<lparr> k_cr3 := 8192, k_mm := s, k_inodes := (k_inodes demo_fs)(1 := RamFile ?f),
    k_procs := (\<lambda>r. (k_procs demo_fs r)\<lparr> p_vm_space := Some vm \<rparr>) \<rparr>"
  have k: "get_current_process k = Some 1" "k_cr3 k = 8192" "k_mm k = s" "k_inodes k 1 = RamFile ?f" "k_root k = Some 0"
    "p_cwd (k_procs k 1) = ''/''" "p_vm_space (k_procs k 1) = Some vm" "TRAP_FRAME_SIZE \<le> length (ks_bytes (p_kernel_stack (k_procs k 1)))"
    by (simp_all add: k_def demo_fs_def get_current_process_def demo_kernel_def demo_procs_def Process_new_def TRAP_FRAME_SIZE_def KERNEL_STACK_SIZE_def)
  have "path_parts (normalize_path ''/'' ''/a'') = [''a'']" by code_simp
  moreover have "entry k 0 ''a'' = Some 1" by (simp add: k_def entry_def demo_fs_simps demo_root_get)
  ultimately have ex: "resolve_path (p_cwd (k_procs k 1)) ''/a'' k = Ok 1"
    unfolding k(6) by (simp add: resolve_path_walk [OF k(5)] inode_lookup_entry)
  have data: "rf_data ?f = demo_elf" by (simp add: RamFsFile_new_def RamFsFile_new_with_creds_def)
  have "frame_fits [] []" by (simp add: frame_fits_def frame_sp_def USER_STACK_TOP_def USER_STACK_SIZE_def align_down_def)
  then obtain new s' loaded krs krsp where r: "sys_execve 0x400000 0 0 0 k = Done (Ok 0)
      ((upd_proc 1 (\<lambda>p. exec_process p (RamFsFile_stat ?f) loaded new krs krsp) k)\<lparr> k_cr3 := address_space new, k_mm := s' \<rparr>)"
    "le_entry_point loaded = 0x400078" "shows_program (address_space new) s' demo_elf (le_user_stack_top loaded) [] []"
    "frames {8192} s \<subseteq> pool s'"
    using execve_correct [OF k(1) _ _ _ ex k(4,7), of "0x400000" 0 "[]" 0 "[]" "{8192}" 0] m k demo_elf_ok
    by (auto simp: data copy_user_str_array_def demo_all_pages demo_elf_header)
  moreover have "elf_image demo_elf (elf_segments demo_elf) 0x400078 = Some (0x90, segment_flags 5)"
  proof -
    have "demo_elf ! 120 = 0x90" by code_simp
    then show ?thesis
      by (simp add: elf_image_def demo_elf_segments in_seg_def seg_lo_def seg_hi_def seg_byte_def align_down_def PAGE_SIZE_def)
  qed
  ultimately have "p_entry_point (exec_process (k_procs k 1) (RamFsFile_stat ?f) loaded new krs krsp) = 0x400078"
    "view (address_space new) s' 0x400078 = Some (0x90, segment_flags 5)"
    by (simp_all add: exec_process_def shows_program_def Let_def USER_STACK_TOP_def USER_STACK_SIZE_def)
  moreover have "8192 \<notin> pool s" "8192 \<in> pool s'" using root_frame [of "{8192}" s] m(1) r(4) by (auto simp: vm_inv_def pt_inv_def)
  ultimately show ?thesis using k(3) by - (intro exI conjI, rule r(1), simp_all add: upd_proc_def)
qed

end
