(* ===== verification/Dispatch.thy ===== *)
theory Dispatch
  imports Exec Posix_Process Credentials Telemetry Fs_Calls Descriptors Posix_Mem Epoll
begin

text \<open>
  The dispatcher of the system calls (\<^verbatim>\<open>services/posix/mod.rs\<close>) over the numbers of
  \<^verbatim>\<open>libs/posix-abi/src/syscalls.rs\<close>: the decoding of the registers, the call, the return value and the
  delivery of signals on the way back to user mode.
\<close>

subsection \<open>System call numbers\<close>

datatype Syscall =
    SYS_READ | SYS_WRITE | SYS_OPEN | SYS_CLOSE | SYS_STAT | SYS_FSTAT | SYS_LSEEK | SYS_MMAP | SYS_MPROTECT
  | SYS_MUNMAP | SYS_BRK | SYS_RT_SIGACTION | SYS_RT_SIGPROCMASK | SYS_RT_SIGRETURN | SYS_IOCTL | SYS_PIPE
  | SYS_DUP | SYS_DUP2 | SYS_NANOSLEEP | SYS_GETPID | SYS_FORK | SYS_EXECVE | SYS_EXIT | SYS_WAIT4 | SYS_KILL
  | SYS_UNAME | SYS_GETCWD | SYS_CHDIR | SYS_RENAME | SYS_MKDIR | SYS_RMDIR | SYS_UNLINK | SYS_UMASK
  | SYS_SYSINFO | SYS_GETUID | SYS_GETGID | SYS_SETUID | SYS_SETGID | SYS_GETEUID | SYS_GETEGID | SYS_GETPPID
  | SYS_GETGROUPS | SYS_SETGROUPS | SYS_SETRESUID | SYS_GETRESUID | SYS_SETRESGID | SYS_GETRESGID
  | SYS_EPOLL_CREATE | SYS_GETDENTS64 | SYS_CLOCK_GETTIME | SYS_EPOLL_WAIT | SYS_EPOLL_CTL
  | SYS_EPOLL_CREATE1 | SYS_PIPE2 | SYS_AUDIT_LOG | SYS_AUDIT_SNAPSHOT

definition syscall_table :: "(usize \<times> Syscall) list" where
  "syscall_table =
    [(0, SYS_READ), (1, SYS_WRITE), (2, SYS_OPEN), (3, SYS_CLOSE), (4, SYS_STAT), (5, SYS_FSTAT),
     (8, SYS_LSEEK), (9, SYS_MMAP), (10, SYS_MPROTECT), (11, SYS_MUNMAP), (12, SYS_BRK),
     (13, SYS_RT_SIGACTION), (14, SYS_RT_SIGPROCMASK), (15, SYS_RT_SIGRETURN), (16, SYS_IOCTL), (22, SYS_PIPE),
     (32, SYS_DUP), (33, SYS_DUP2), (35, SYS_NANOSLEEP), (39, SYS_GETPID), (57, SYS_FORK), (59, SYS_EXECVE),
     (60, SYS_EXIT), (61, SYS_WAIT4), (62, SYS_KILL), (63, SYS_UNAME), (79, SYS_GETCWD), (80, SYS_CHDIR),
     (82, SYS_RENAME), (83, SYS_MKDIR), (84, SYS_RMDIR), (87, SYS_UNLINK), (95, SYS_UMASK), (99, SYS_SYSINFO),
     (102, SYS_GETUID), (104, SYS_GETGID), (105, SYS_SETUID), (106, SYS_SETGID), (107, SYS_GETEUID),
     (108, SYS_GETEGID), (110, SYS_GETPPID), (115, SYS_GETGROUPS), (116, SYS_SETGROUPS), (117, SYS_SETRESUID),
     (118, SYS_GETRESUID), (119, SYS_SETRESGID), (120, SYS_GETRESGID), (213, SYS_EPOLL_CREATE),
     (217, SYS_GETDENTS64), (228, SYS_CLOCK_GETTIME), (232, SYS_EPOLL_WAIT), (233, SYS_EPOLL_CTL),
     (291, SYS_EPOLL_CREATE1), (293, SYS_PIPE2), (301, SYS_AUDIT_LOG), (302, SYS_AUDIT_SNAPSHOT)]"

subsection \<open>Arguments\<close>

text \<open>The casts of the register arguments.\<close>

definition as_i32 :: "u64 \<Rightarrow> i32" where
  "as_i32 w = sint (ucast w :: u32)"

definition as_u32 :: "u64 \<Rightarrow> u32" where
  "as_u32 w = ucast w"

subsection \<open>Dispatch\<close>

text \<open>
  A call gives a result, never comes back, waits until it is switched in again, or has yielded and repeats. The
  continuations of a waiting call are \<open>sys_read_resume\<close>, \<open>sys_write_resume\<close> and \<open>wait_resume\<close>;
  what follows them is \<open>finish_syscall\<close>.
\<close>

datatype 'a outcome = Result 'a | Ended | Suspended | Retry

definition plain :: "SyscallRegisters \<Rightarrow> int \<times> kernel \<Rightarrow> ((int \<times> SyscallRegisters) outcome \<times> kernel) option" where
  "plain r = (\<lambda>(ret, k). Some (Result (ret, r), k))"

definition fallible :: "SyscallRegisters \<Rightarrow> (int \<times> kernel) option \<Rightarrow> ((int \<times> SyscallRegisters) outcome \<times> kernel) option" where
  "fallible r res = (case res of None \<Rightarrow> None | Some x \<Rightarrow> plain r x)"

definition blocking :: "SyscallRegisters \<Rightarrow> int io \<Rightarrow> ((int \<times> SyscallRegisters) outcome \<times> kernel) option" where
  "blocking r res = (case res of
     Done (Ok ret) k \<Rightarrow> plain r (ret, k)
   | Done (Err e) k \<Rightarrow> plain r (- e, k)
   | Done Panic k \<Rightarrow> None
   | Sleep k \<Rightarrow> Some (Suspended, k)
   | Again k \<Rightarrow> Some (Retry, k))"

text \<open>After a successful \<open>execve\<close> the registers lead to the new program.\<close>

definition enter_program :: "SyscallRegisters \<Rightarrow> int io \<Rightarrow> ((int \<times> SyscallRegisters) outcome \<times> kernel) option" where
  "enter_program r res =
    (case blocking r res of
       Some (Result (ret, r), k) \<Rightarrow>
         (case get_current_proc k of
            Some p \<Rightarrow>
              if ret = 0
              then Some (Result (ret, r\<lparr> sr_rcx := of_nat (p_entry_point p), sr_rsp := of_nat (p_user_stack_top p) \<rparr>),
                         case p_vm_space p of Some vm \<Rightarrow> activate vm k | None \<Rightarrow> k)
              else Some (Result (ret, r), k)
          | None \<Rightarrow> Some (Result (ret, r), k))
     | x \<Rightarrow> x)"

text \<open>\<open>krsp\<close> is the kernel stack pointer of the caller, \<open>stack_ptr\<close> the address of a kernel stack that \<open>fork\<close> allocates.\<close>

definition call_handler :: "SyscallRegisters \<Rightarrow> usize \<Rightarrow> usize \<Rightarrow> kernel \<Rightarrow> ((int \<times> SyscallRegisters) outcome \<times> kernel) option" where
  "call_handler r krsp stack_ptr k =
    (let a1 = sr_rdi r; a2 = sr_rsi r; a3 = sr_rdx r; a4 = sr_r10 r in
     case map_of syscall_table (unat (sr_rax r)) of
       Some SYS_READ \<Rightarrow> blocking r (sys_read (as_i32 a1) (unat a2) (unat a3) krsp k)
     | Some SYS_WRITE \<Rightarrow> blocking r (sys_write (as_i32 a1) (unat a2) (unat a3) krsp k)
     | Some SYS_OPEN \<Rightarrow> fallible r (sys_open (unat a1) (as_i32 a2) (as_u32 a3) k)
     | Some SYS_CLOSE \<Rightarrow> plain r (sys_close (as_i32 a1) k)
     | Some SYS_STAT \<Rightarrow> fallible r (sys_stat (unat a1) (unat a2) k)
     | Some SYS_FSTAT \<Rightarrow> fallible r (sys_fstat (as_i32 a1) (unat a2) k)
     | Some SYS_LSEEK \<Rightarrow> fallible r (sys_lseek (as_i32 a1) (sint a2) (as_i32 a3) k)
     | Some SYS_MMAP \<Rightarrow> fallible r (sys_mmap (unat a1) (unat a2) (as_i32 a3) (as_i32 a4) k)
     | Some SYS_MPROTECT \<Rightarrow> fallible r (sys_mprotect (unat a1) (unat a2) (as_i32 a3) k)
     | Some SYS_MUNMAP \<Rightarrow> fallible r (sys_munmap (unat a1) (unat a2) k)
     | Some SYS_RT_SIGACTION \<Rightarrow> fallible r (sys_rt_sigaction (as_i32 a1) (unat a2) (unat a3) (unat a4) k)
     | Some SYS_RT_SIGPROCMASK \<Rightarrow> fallible r (sys_rt_sigprocmask (as_i32 a1) (unat a2) (unat a3) (unat a4) k)
     | Some SYS_RT_SIGRETURN \<Rightarrow> map_option (\<lambda>(ret, r, k). (Result (ret, r), k)) (sys_rt_sigreturn r k)
     | Some SYS_PIPE \<Rightarrow> fallible r (sys_pipe (unat a1) k)
     | Some SYS_DUP \<Rightarrow> plain r (sys_dup (as_i32 a1) k)
     | Some SYS_DUP2 \<Rightarrow> plain r (sys_dup2 (as_i32 a1) (as_i32 a2) k)
     | Some SYS_FORK \<Rightarrow> fallible r (sys_fork r stack_ptr k)
     | Some SYS_EXECVE \<Rightarrow> enter_program r (sys_execve (unat a1) (unat a2) (unat a3) krsp k)
     | Some SYS_EXIT \<Rightarrow> Some (Ended, sys_exit (as_i32 a1) krsp k)
     | Some SYS_WAIT4 \<Rightarrow>
         map_option (\<lambda>(w, k). (case w of Return ret \<Rightarrow> Result (ret, r) | Suspend _ \<Rightarrow> Suspended, k))
           (sys_wait4 (as_i32 a1) (unat a2) (as_i32 a3) krsp k)
     | Some SYS_KILL \<Rightarrow> plain r (sys_kill (as_i32 a1) (as_i32 a2) k)
     | Some SYS_GETPID \<Rightarrow> plain r (sys_getpid k, k)
     | Some SYS_GETPPID \<Rightarrow> plain r (sys_getppid k, k)
     | Some SYS_GETUID \<Rightarrow> plain r (sys_getuid k, k)
     | Some SYS_GETGID \<Rightarrow> plain r (sys_getgid k, k)
     | Some SYS_GETEUID \<Rightarrow> plain r (sys_geteuid k, k)
     | Some SYS_GETEGID \<Rightarrow> plain r (sys_getegid k, k)
     | Some SYS_SETUID \<Rightarrow> plain r (sys_setuid (as_u32 a1) k)
     | Some SYS_SETGID \<Rightarrow> plain r (sys_setgid (as_u32 a1) k)
     | Some SYS_SETRESUID \<Rightarrow> plain r (sys_setresuid (as_u32 a1) (as_u32 a2) (as_u32 a3) k)
     | Some SYS_GETRESUID \<Rightarrow> fallible r (sys_getresuid (unat a1) (unat a2) (unat a3) k)
     | Some SYS_SETRESGID \<Rightarrow> plain r (sys_setresgid (as_u32 a1) (as_u32 a2) (as_u32 a3) k)
     | Some SYS_GETRESGID \<Rightarrow> fallible r (sys_getresgid (unat a1) (unat a2) (unat a3) k)
     | Some SYS_UMASK \<Rightarrow> plain r (sys_umask (as_u32 a1) k)
     | Some SYS_UNAME \<Rightarrow> fallible r (sys_uname (unat a1) k)
     | Some SYS_GETCWD \<Rightarrow> fallible r (sys_getcwd (unat a1) (unat a2) k)
     | Some SYS_CHDIR \<Rightarrow> fallible r (sys_chdir (unat a1) k)
     | Some SYS_MKDIR \<Rightarrow> fallible r (sys_mkdir (unat a1) (as_u32 a2) k)
     | Some SYS_UNLINK \<Rightarrow> fallible r (sys_unlink (unat a1) k)
     | Some SYS_RENAME \<Rightarrow> fallible r (sys_rename (unat a1) (unat a2) k)
     | Some SYS_GETDENTS64 \<Rightarrow> fallible r (sys_getdents64 (as_i32 a1) (unat a2) (unat a3) k)
     | Some SYS_NANOSLEEP \<Rightarrow> plain r (- ENOSYS, k)
     | Some SYS_SYSINFO \<Rightarrow> fallible r (sys_sysinfo (unat a1) k)
     | Some SYS_EPOLL_CREATE1 \<Rightarrow> plain r (sys_epoll_create1 (as_i32 a1) k)
     | Some SYS_EPOLL_CTL \<Rightarrow> fallible r (sys_epoll_ctl (as_i32 a1) (as_i32 a2) (as_i32 a3) (unat a4) k)
     | Some SYS_EPOLL_WAIT \<Rightarrow> fallible r (sys_epoll_wait (as_i32 a1) (unat a2) (as_i32 a3) (as_i32 a4) k)
     | Some SYS_AUDIT_LOG \<Rightarrow> fallible r (sys_audit_log (as_u32 a1) (unat a2) (unat a3) k)
     | Some SYS_AUDIT_SNAPSHOT \<Rightarrow> fallible r (sys_audit_snapshot (unat a1) (as_u32 a2) k)
     | _ \<Rightarrow> plain r (- ENOSYS, k))"

text \<open>The way back: the return value, unless \<open>rt_sigreturn\<close> has set the registers, and the pending signals.\<close>

definition finish_syscall :: "u64 \<Rightarrow> int \<Rightarrow> SyscallRegisters \<Rightarrow> usize \<Rightarrow> kernel \<Rightarrow> (SyscallRegisters outcome \<times> kernel) option" where
  "finish_syscall syscall_nr ret r krsp k =
    (if map_of syscall_table (unat syscall_nr) \<noteq> Some SYS_RT_SIGRETURN then
       map_option (\<lambda>(f, k). (case f of Continue r \<Rightarrow> Result r | Gone \<Rightarrow> Ended, k))
         (check_and_deliver_signals (r\<lparr> sr_rax := word_of_int ret \<rparr>) krsp k)
     else Some (Result r, k))"

definition dispatch_syscall :: "SyscallRegisters \<Rightarrow> usize \<Rightarrow> usize \<Rightarrow> kernel \<Rightarrow> (SyscallRegisters outcome \<times> kernel) option" where
  "dispatch_syscall r krsp stack_ptr k =
    (case call_handler r krsp stack_ptr k of
       None \<Rightarrow> None
     | Some (Result (ret, r'), k) \<Rightarrow> finish_syscall (sr_rax r) ret r' krsp k
     | Some (Ended, k) \<Rightarrow> Some (Ended, k)
     | Some (Suspended, k) \<Rightarrow> Some (Suspended, k)
     | Some (Retry, k) \<Rightarrow> Some (Retry, k))"

subsection \<open>Registers\<close>

lemma plain_Result [simp]: "plain r x = Some (Result (ret, r'), k') \<longleftrightarrow> x = (ret, k') \<and> r' = r"
  by (cases x) (auto simp: plain_def)

lemma fallible_Result [simp]: "fallible r res = Some (Result (ret, r'), k') \<longleftrightarrow> res = Some (ret, k') \<and> r' = r"
  by (cases res) (auto simp: fallible_def)

lemma blocking_registers: "blocking r res = Some (Result (ret, r'), k') \<Longrightarrow> r' = r"
  by (cases res) (auto simp: blocking_def split: kres.splits)

lemma enter_program_registers:
  assumes "enter_program r res = Some (Result (ret, r'), k')"
  shows "r' = r \<or> ret = 0 \<and> (\<exists>p. get_current_proc k' = Some p \<and> r' = r\<lparr> sr_rcx := of_nat (p_entry_point p), sr_rsp := of_nat (p_user_stack_top p) \<rparr>
           \<and> (\<forall>vm. p_vm_space p = Some vm \<longrightarrow> k_cr3 k' = address_space vm))"
proof (cases "blocking r res")
  case None
  then show ?thesis using assms by (simp add: enter_program_def)
next
  case (Some x)
  then obtain o1 k1 where b: "blocking r res = Some (o1, k1)" by (cases x) simp
  show ?thesis
  proof (cases o1)
    case (Result y)
    then obtain r1 ret1 where y: "blocking r res = Some (Result (ret1, r1), k1)" using b by (cases y) simp
    have "r1 = r" using blocking_registers [OF y] .
    then show ?thesis using assms y
      by (auto simp: enter_program_def activate_def get_current_proc_def get_current_process_def split: option.splits if_splits)
  qed (use assms b in \<open>simp_all add: enter_program_def\<close>)
qed

lemma wait_Result:
  "(case w of Return ret \<Rightarrow> Result (ret, r) | Suspend cs \<Rightarrow> Suspended) = Result (ret', r') \<longleftrightarrow> w = Return ret' \<and> r' = r"
  by (cases w) auto

lemma handler_registers:
  assumes c: "call_handler r krsp stack_ptr k = Some (Result (ret, r'), k')" and n: "map_of syscall_table (unat (sr_rax r)) \<noteq> Some SYS_RT_SIGRETURN"
  shows "r' = r \<or> map_of syscall_table (unat (sr_rax r)) = Some SYS_EXECVE \<and> ret = 0
    \<and> (\<exists>p. get_current_proc k' = Some p \<and> r' = r\<lparr> sr_rcx := of_nat (p_entry_point p), sr_rsp := of_nat (p_user_stack_top p) \<rparr>
           \<and> (\<forall>vm. p_vm_space p = Some vm \<longrightarrow> k_cr3 k' = address_space vm))"
proof (cases "map_of syscall_table (unat (sr_rax r))")
  case None
  then show ?thesis using c by (simp add: call_handler_def)
next
  case (Some x)
  show ?thesis
  proof (cases "x = SYS_EXECVE")
    case True
    then show ?thesis using c Some enter_program_registers by (simp add: call_handler_def)
  next
    case False
    have "r' = r" using c n Some False
      by (cases x) (auto simp: call_handler_def blocking_registers wait_Result)
    then show ?thesis ..
  qed
qed


lemma table_sigreturn: "map_of syscall_table n = Some SYS_RT_SIGRETURN \<longleftrightarrow> n = 15"
  by (simp add: syscall_table_def)

lemma table_execve: "map_of syscall_table n = Some SYS_EXECVE \<longleftrightarrow> n = 59"
  by (simp add: syscall_table_def)

text \<open>A dispatched call that returns has run its handler and delivered at most one signal.\<close>

lemma dispatch_Result:
  assumes d: "dispatch_syscall r krsp stack_ptr k = Some (Result r', k')" and n: "sr_rax r \<noteq> 15"
  obtains ret r1 k1 where "call_handler r krsp stack_ptr k = Some (Result (ret, r1), k1)"
    "check_and_deliver_signals (r1\<lparr> sr_rax := word_of_int ret \<rparr>) krsp k1 = Some (Continue r', k')"
proof (cases "call_handler r krsp stack_ptr k")
  case None
  then show ?thesis using d by (simp add: dispatch_syscall_def)
next
  case (Some x)
  have "unat (sr_rax r) \<noteq> 15" using n by (simp add: word_unat_eq_iff)
  then show ?thesis using d Some that
    by (cases x) (auto simp: dispatch_syscall_def finish_syscall_def table_sigreturn split: outcome.splits flow.splits)
qed

text \<open>No signal is delivered, or the lowest deliverable one goes to its handler.\<close>

lemma deliver_cases:
  assumes c: "check_and_deliver_signals r krsp k = Some (Continue r', k')"
  obtains (none) "r' = r" "k' = k\<lparr> k_signals := k_signals k' \<rparr>"
      "k_current_pid k \<le> 0 \<or> (\<forall>sig. \<not> deliverable (k_signals k) (k_current_pid k) sig)"
    | (handler) sig sm where "0 < k_current_pid k" "deliverable (k_signals k) (k_current_pid k) sig"
      "\<forall>s. deliverable (k_signals k) (k_current_pid k) s \<longrightarrow> sig \<le> s"
      "sa_handler (get_action (k_signals k) (k_current_pid k) sig) \<noteq> SIG_DFL"
      "deliver_signal_to_user (k_current_pid k) sig (get_action (k_signals k) (k_current_pid k) sig)
         (get_procmask (k_signals k) (k_current_pid k)) r krsp (k\<lparr> k_signals := sm \<rparr>) = Some (Continue r', k')"
proof (cases "k_current_pid k \<le> 0")
  case True
  then show ?thesis using c none by (simp add: check_and_deliver_signals_def)
next
  case False
  obtain res sm where n: "next_unblocked_signal (k_current_pid k) (k_signals k) = (res, sm)" by fastforce
  show ?thesis
  proof (cases res)
    case None
    then show ?thesis using c none False n next_unblocked_signal_spec [OF n] by (auto simp: check_and_deliver_signals_def Let_def)
  next
    case (Some y)
    then obtain sig action blocked where y: "res = Some (sig, action, blocked)" by (cases y) simp
    then show ?thesis using c False n next_unblocked_signal_spec [OF n] handler [of sig sm]
      by (auto simp: check_and_deliver_signals_def Let_def split: if_splits)
  qed
qed

lemma deliver_Continue:
  assumes "deliver_signal_to_user pid sig action blocked r krsp k = Some (Continue r', k')"
  shows "r' = r\<lparr> sr_rsp := of_nat (signal_rsp (sr_rsp r)), sr_rcx := sa_handler action, sr_rdi := word_of_int sig, sr_rsi := 0,
    sr_rdx := of_nat (signal_rsp (sr_rsp r)) \<rparr>"
  using assms by (auto simp: deliver_signal_to_user_def Let_def split: option.splits kres.splits)

text \<open>
  C20: What a user program sees of a system call other than \<open>rt_sigreturn\<close>. The call changes no register but \<open>rax\<close>, which
  holds the value of the handler; only a successful \<open>execve\<close> also sets \<open>rcx\<close> and \<open>rsp\<close>, to the entry
  point and the stack of the new program, whose address space is then active. If a signal can be delivered when the
  handler has ended, the one with the lowest number is: the process continues in its signal handler, on
  a lower stack and with the number as argument, and all other registers are kept.
\<close>

theorem dispatch_contract:
  assumes "dispatch_syscall r krsp stack_ptr k = Some (Result r', k')" and "sr_rax r \<noteq> 15"
  shows "\<exists>ret r1 k1. call_handler r krsp stack_ptr k = Some (Result (ret, r1), k1)
    \<and> (r1 = r \<or> sr_rax r = 59 \<and> ret = 0 \<and>
        (\<exists>p. get_current_proc k1 = Some p \<and> r1 = r\<lparr> sr_rcx := of_nat (p_entry_point p), sr_rsp := of_nat (p_user_stack_top p) \<rparr>
           \<and> (\<forall>vm. p_vm_space p = Some vm \<longrightarrow> k_cr3 k1 = address_space vm)))
    \<and> (r' = r1\<lparr> sr_rax := word_of_int ret \<rparr> \<and> k' = k1\<lparr> k_signals := k_signals k' \<rparr>
         \<and> (k_current_pid k1 \<le> 0 \<or> (\<forall>sig. \<not> deliverable (k_signals k1) (k_current_pid k1) sig))
       \<or> (\<exists>sig. deliverable (k_signals k1) (k_current_pid k1) sig
           \<and> (\<forall>s. deliverable (k_signals k1) (k_current_pid k1) s \<longrightarrow> sig \<le> s)
           \<and> r' = r1\<lparr> sr_rax := word_of_int ret, sr_rsp := of_nat (signal_rsp (sr_rsp r1)),
                 sr_rcx := sa_handler (get_action (k_signals k1) (k_current_pid k1) sig),
                 sr_rdi := word_of_int sig, sr_rsi := 0, sr_rdx := of_nat (signal_rsp (sr_rsp r1)) \<rparr>))"
proof (rule dispatch_Result [OF assms])
  fix ret r1 k1 assume h: "call_handler r krsp stack_ptr k = Some (Result (ret, r1), k1)"
    and c: "check_and_deliver_signals (r1\<lparr> sr_rax := word_of_int ret \<rparr>) krsp k1 = Some (Continue r', k')"
  have n: "unat (sr_rax r) \<noteq> 15" "unat (sr_rax r) = 59 \<longleftrightarrow> sr_rax r = 59" using assms(2) by (simp_all add: word_unat_eq_iff)
  show ?thesis
  proof (intro exI [of _ ret] exI [of _ r1] exI [of _ k1] conjI)
    show "r1 = r \<or> sr_rax r = 59 \<and> ret = 0 \<and>
        (\<exists>p. get_current_proc k1 = Some p \<and> r1 = r\<lparr> sr_rcx := of_nat (p_entry_point p), sr_rsp := of_nat (p_user_stack_top p) \<rparr>
           \<and> (\<forall>vm. p_vm_space p = Some vm \<longrightarrow> k_cr3 k1 = address_space vm))"
      using handler_registers [OF h] n by (simp only: table_sigreturn table_execve) blast
  next
    from c show "r' = r1\<lparr> sr_rax := word_of_int ret \<rparr> \<and> k' = k1\<lparr> k_signals := k_signals k' \<rparr>
         \<and> (k_current_pid k1 \<le> 0 \<or> (\<forall>sig. \<not> deliverable (k_signals k1) (k_current_pid k1) sig))
       \<or> (\<exists>sig. deliverable (k_signals k1) (k_current_pid k1) sig
           \<and> (\<forall>s. deliverable (k_signals k1) (k_current_pid k1) s \<longrightarrow> sig \<le> s)
           \<and> r' = r1\<lparr> sr_rax := word_of_int ret, sr_rsp := of_nat (signal_rsp (sr_rsp r1)),
                 sr_rcx := sa_handler (get_action (k_signals k1) (k_current_pid k1) sig),
                 sr_rdi := word_of_int sig, sr_rsi := 0, sr_rdx := of_nat (signal_rsp (sr_rsp r1)) \<rparr>)"
    proof (cases rule: deliver_cases)
      case none
      then show ?thesis by blast
    next
      case (handler sig sm)
      then show ?thesis using deliver_Continue [OF handler(5)] by (intro disjI2 exI [of _ sig]) simp
    qed
  qed (fact h)
qed

lemma demo_no_signal: "next_unblocked_signal 1 (k_signals demo_user_kernel) = (None, k_signals demo_user_kernel)"
  by (simp add: demo_user_kernel_def demo_kernel_def kernel0_def next_unblocked_signal_def get_pending_def get_procmask_def
      bt_get_or_def bt_get_def Let_def)

theorem dispatch_contract_witness:
  "\<exists>ret r1 k1. call_handler (demo_regs\<lparr> sr_rax := 39 \<rparr>) 0 0 demo_user_kernel = Some (Result (ret, r1), k1)
    \<and> r1 = demo_regs\<lparr> sr_rax := 39 \<rparr> \<and> ret = 1"
proof -
  let ?r = "demo_regs\<lparr> sr_rax := 39 \<rparr>"
  have h: "call_handler ?r 0 0 demo_user_kernel = Some (Result (1, ?r), demo_user_kernel)"
    by (simp add: call_handler_def syscall_table_def sys_getpid_def)
  then have "dispatch_syscall ?r 0 0 demo_user_kernel
      = Some (Result (?r\<lparr> sr_rax := 1 \<rparr>), demo_user_kernel\<lparr> k_signals := k_signals demo_user_kernel \<rparr>)"
    by (simp add: dispatch_syscall_def finish_syscall_def syscall_table_def check_and_deliver_signals_def demo_no_signal)
  from dispatch_contract [OF this] h show ?thesis by auto
qed

text \<open>
  C21: A signal handler is transparent to the call it interrupts. When a call ends with a signal
  delivered to a handler, and the handler returns through \<open>rt_sigreturn\<close> with the stack
  frame it was given, the process continues with the registers it would have had without the signal, the
  flags reduced to those a user may set, with the result of the call in \<open>rax\<close>, and with the signal mask it had.
\<close>

theorem handler_transparent:
  assumes d: "dispatch_syscall r krsp stack_ptr k = Some (Result r1, k1)" "sr_rax r \<noteq> 15"
    and h: "call_handler r krsp stack_ptr k = Some (Result (ret, r0), k0)"
    and p: "0 < k_current_pid k0" "deliverable (k_signals k0) (k_current_pid k0) sig"
    and inv: "sig_inv (k_signals k0)" "vm_inv R (k_cr3 k0) (k_mm k0)"
    and k2: "vm_inv R (k_cr3 k0) (k_mm k2)" "k_cr3 k2 = k_cr3 k0" "k_current_pid k2 = k_current_pid k0"
    and frame: "range_ok (k_cr3 k0) (k_mm k2) False (unat (sr_rsp r1)) SIGNAL_FRAME_SIZE"
      "\<forall>i < SIGNAL_FRAME_SIZE. user_get (k_cr3 k0) (k_mm k2) (unat (sr_rsp r1) + i) = user_get (k_cr3 k0) (k_mm k1) (unat (sr_rsp r1) + i)"
    and r2: "sr_rax r2 = 15" "sr_rsp r2 = sr_rsp r1 + 8"
  shows "\<exists>k3. dispatch_syscall r2 krsp' stack_ptr' k2 =
      Some (Result (r0\<lparr> sr_rax := word_of_int ret, sr_r11 := (sr_r11 r0 AND USER_RFLAGS_MASK) OR USER_RFLAGS_RESERVED \<rparr>), k3)
    \<and> get_procmask (k_signals k3) (k_current_pid k0) = get_procmask (k_signals k0) (k_current_pid k0)"
proof (rule dispatch_Result [OF d])
  fix ret' r0' k0' assume h': "call_handler r krsp stack_ptr k = Some (Result (ret', r0'), k0')"
    and c': "check_and_deliver_signals (r0'\<lparr> sr_rax := word_of_int ret' \<rparr>) krsp k0' = Some (Continue r1, k1)"
  then have c: "check_and_deliver_signals (r0\<lparr> sr_rax := word_of_int ret \<rparr>) krsp k0 = Some (Continue r1, k1)" using h by simp
  from c show ?thesis
  proof (cases rule: deliver_cases)
    case none
    then show ?thesis using p by auto
  next
    case (handler s sm)
    have blk: "\<not> bit (get_procmask (k_signals k0) (k_current_pid k0)) 8" "\<not> bit (get_procmask (k_signals k0) (k_current_pid k0)) 18"
      using inv(1) by (auto simp: sig_inv_def)
    obtain k3 where "sys_rt_sigreturn r2 k2 = Some (sint (word_of_int ret :: u64), r0\<lparr> sr_rax := word_of_int ret,
          sr_r11 := (sr_r11 r0 AND USER_RFLAGS_MASK) OR USER_RFLAGS_RESERVED \<rparr>, k3)"
      "get_procmask (k_signals k3) (k_current_pid k0) = get_procmask (k_signals k0) (k_current_pid k0)"
      using sigreturn_spec [OF _ blk handler(5), of R k2 r2] inv(2) k2 frame r2(2) by auto
    moreover from this(1) have "call_handler r2 krsp' stack_ptr' k2 = Some (Result (sint (word_of_int ret :: u64), r0\<lparr> sr_rax := word_of_int ret,
          sr_r11 := (sr_r11 r0 AND USER_RFLAGS_MASK) OR USER_RFLAGS_RESERVED \<rparr>), k3)"
      by (simp add: call_handler_def r2(1) table_sigreturn [THEN iffD2])
    ultimately show ?thesis
      by (simp add: dispatch_syscall_def finish_syscall_def r2(1) table_sigreturn [THEN iffD2])
  qed
qed

definition demo_term_signals :: SignalManager where
  "demo_term_signals = \<lparr> pending_signals = [(1, sig_bit SIGTERM)], blocked_masks = [],
     signal_actions = [(1, (replicate 32 SigAction_default)[15 := demo_action])] \<rparr>"

definition demo_term_kernel :: kernel where
  "demo_term_kernel = demo_user_kernel\<lparr> k_signals := demo_term_signals \<rparr>"

lemma demo_term_simps [simp]:
  "k_cr3 demo_term_kernel = 8192" "k_mm demo_term_kernel = demo_mapped" "k_current_pid demo_term_kernel = 1"
  "k_signals demo_term_kernel = demo_term_signals" "get_procmask demo_term_signals 1 = 0"
  "get_action demo_term_signals 1 15 = demo_action"
  by (simp_all add: demo_term_kernel_def demo_term_signals_def get_procmask_def get_action_def bt_get_or_def bt_get_def posix_consts
      sig_valid_def)

lemma demo_term_deliverable: "deliverable demo_term_signals 1 s \<longleftrightarrow> s = 15"
proof -
  have "waiting demo_term_signals 1 s \<longleftrightarrow> s = 15"
    by (auto simp: waiting_def demo_term_signals_def get_pending_def get_procmask_def bt_get_or_def bt_get_def bit_sig_bit
        sig_valid_def posix_consts)
  then show ?thesis
    by (auto simp: deliverable_def ignored_def demo_action_def posix_consts)
qed

lemma demo_term_inv: "sig_inv demo_term_signals"
  by (auto simp: sig_inv_def demo_term_signals_def get_procmask_def bt_get_or_def bt_get_def split: if_splits)

lemma demo_term_next: "\<exists>sm. next_unblocked_signal 1 demo_term_signals = (Some (15, demo_action, 0), sm)"
proof -
  obtain res sm where n: "next_unblocked_signal 1 demo_term_signals = (res, sm)" by fastforce
  note c = next_unblocked_signal_spec [OF n, THEN conjunct1, unfolded demo_term_deliverable]
  have "res = Some (15, demo_action, 0)"
  proof (cases res)
    case None
    then show ?thesis using c by simp
  next
    case (Some y)
    then show ?thesis using c by (cases y) simp
  qed
  then show ?thesis using n by blast
qed

theorem handler_transparent_witness:
  "\<exists>r1 k1 k3. dispatch_syscall (demo_regs\<lparr> sr_rax := 39 \<rparr>) 0 0 demo_term_kernel = Some (Result r1, k1) \<and> sr_rcx r1 = 0x400100
    \<and> dispatch_syscall (r1\<lparr> sr_rax := 15, sr_rsp := sr_rsp r1 + 8 \<rparr>) 0 0 k1 = Some (Result (demo_regs\<lparr> sr_rax := 1 \<rparr>), k3)"
proof -
  let ?k = demo_term_kernel and ?r = "demo_regs\<lparr> sr_rax := 39 \<rparr>"
  obtain sm where n: "next_unblocked_signal 1 demo_term_signals = (Some (15, demo_action, 0), sm)" using demo_term_next by blast
  let ?bs = "SignalFrame_bytes (signal_frame_of 15 demo_action 0 (demo_regs\<lparr> sr_rax := 1 \<rparr>))"
  have inv: "vm_inv {8192} (k_cr3 (?k\<lparr> k_signals := sm \<rparr>)) (k_mm (?k\<lparr> k_signals := sm \<rparr>))" using demo_mapped(1) by simp
  have ok: "range_ok 8192 demo_mapped w 4196064 152" for w
    using demo_mapped_ok(1) by (simp add: range_ok_def USER_SPACE_END_def)
  then obtain k' s where w: "write_user 4196064 ?bs (?k\<lparr> k_signals := sm \<rparr>) = Some (Ok (), k')"
    "k' = ?k\<lparr> k_signals := sm, k_mm := s \<rparr>" "stored {8192} 8192 4196064 ?bs demo_mapped s"
    using write_user_spec [OF inv, of 4196064 ?bs] by (auto simp: USER_SPACE_END_def split: if_splits)
  have h: "call_handler ?r 0 0 ?k = Some (Result (1, ?r), ?k)"
    by (simp add: call_handler_def syscall_table_def sys_getpid_def)
  obtain r1 k1 where del: "deliver_signal_to_user 1 15 demo_action 0 (demo_regs\<lparr> sr_rax := 1 \<rparr>) 0 (?k\<lparr> k_signals := sm \<rparr>) = Some (Continue r1, k1)"
    and k1: "k_mm k1 = s" "k_cr3 k1 = 8192" "k_current_pid k1 = 1" and r1: "sr_rsp r1 = 4196064" "sr_rcx r1 = 0x400100"
    using w(1,2) by (auto simp: deliver_signal_to_user_def demo_signal_rsp demo_action_def Let_def)
  have d: "dispatch_syscall ?r 0 0 ?k = Some (Result r1, k1)"
    using h n del by (simp add: dispatch_syscall_def finish_syscall_def syscall_table_def check_and_deliver_signals_def demo_action_def posix_consts)
  have inv1: "vm_inv {8192} 8192 (k_mm k1)" and m: "mapped 8192 s = mapped 8192 demo_mapped"
    using w(3) by (auto simp: stored_def k1)
  have "range_ok (k_cr3 ?k) (k_mm k1) False (unat (sr_rsp r1)) SIGNAL_FRAME_SIZE"
    using ok [of False] unfolding range_ok_def user_ok_def by (simp add: k1 m r1 posix_consts)
  from handler_transparent [OF d _ h, of 15 "{8192}" k1 "r1\<lparr> sr_rax := 15, sr_rsp := sr_rsp r1 + 8 \<rparr>" 0 0] this
  show ?thesis using d r1 k1 inv1 demo_mapped(1) demo_term_inv
    by (auto simp: demo_term_deliverable demo_regs_def posix_consts)
qed

text \<open>A call that leaves no signal to deliver.\<close>

lemma dispatch_quiet:
  assumes "call_handler r krsp stack_ptr k = Some (Result (ret, r), k)" "map_of syscall_table (unat (sr_rax r)) \<noteq> Some SYS_RT_SIGRETURN"
    and "next_unblocked_signal (k_current_pid k) (k_signals k) = (None, sm)"
  shows "dispatch_syscall r krsp stack_ptr k = Some (Result (r\<lparr> sr_rax := word_of_int ret \<rparr>), if k_current_pid k \<le> 0 then k else k\<lparr> k_signals := sm \<rparr>)"
  using assms by (simp add: dispatch_syscall_def finish_syscall_def check_and_deliver_signals_def Let_def)

text \<open>
  C40: A number that names no call gives \<open>ENOSYS\<close>, and so do nine numbers that the interface defines: \<open>brk\<close>, \<open>ioctl\<close>,
  \<open>nanosleep\<close>, \<open>rmdir\<close>, \<open>getgroups\<close>, \<open>setgroups\<close>, \<open>epoll_create\<close>, \<open>clock_gettime\<close> and \<open>pipe2\<close>. The handler changes neither
  registers nor state. If no signal of the caller is pending and unblocked, the whole call changes only \<open>rax\<close>; if there are such
  signals but none of them is to be delivered, it discards those the caller ignores, as every call does on its way back, and
  changes nothing else. The numbers of the interface are distinct.
\<close>

theorem missing_calls:
  fixes r :: SyscallRegisters and k :: kernel
  assumes "case map_of syscall_table (unat (sr_rax r)) of
      None \<Rightarrow> True
    | Some c \<Rightarrow> c \<in> {SYS_BRK, SYS_IOCTL, SYS_NANOSLEEP, SYS_RMDIR, SYS_GETGROUPS, SYS_SETGROUPS, SYS_EPOLL_CREATE,
                     SYS_CLOCK_GETTIME, SYS_PIPE2}"
  defines "pid \<equiv> k_current_pid k" and "sigs \<equiv> k_signals k" and "r' \<equiv> r\<lparr> sr_rax := word_of_int (- ENOSYS) \<rparr>"
  shows "distinct (map fst syscall_table) \<and> call_handler r krsp stack_ptr k = Some (Result (- ENOSYS, r), k)
    \<and> ((\<forall>sig. \<not> waiting sigs pid sig) \<longrightarrow> dispatch_syscall r krsp stack_ptr k = Some (Result r', k))
    \<and> ((\<forall>sig. \<not> deliverable sigs pid sig) \<longrightarrow>
        (\<exists>sm. dispatch_syscall r krsp stack_ptr k = Some (Result r', k\<lparr> k_signals := sm \<rparr>)
          \<and> get_procmask sm = get_procmask sigs \<and> get_action sm = get_action sigs
          \<and> (\<forall>p sig. sig_valid sig \<longrightarrow> bit (get_pending sm p) (nat (sig - 1)) =
               (bit (get_pending sigs p) (nat (sig - 1)) \<and> \<not> (p = pid \<and> 0 < pid \<and> waiting sigs p sig \<and> ignored sigs p sig)))))"
proof (intro conjI impI)
  show "distinct (map fst syscall_table)" by (simp add: syscall_table_def)
  show h: "call_handler r krsp stack_ptr k = Some (Result (- ENOSYS, r), k)"
    using assms(1) by (cases "map_of syscall_table (unat (sr_rax r))") (auto simp: call_handler_def)
  have "map_of syscall_table (unat (sr_rax r)) \<noteq> Some SYS_RT_SIGRETURN" using assms(1) by auto
  note d = dispatch_quiet [OF h this, folded pid_def sigs_def r'_def]
  show "dispatch_syscall r krsp stack_ptr k = Some (Result r', k)" if "\<forall>sig. \<not> waiting sigs pid sig"
    using d [OF next_unblocked_quiet [OF that]] by (simp add: sigs_def)
  assume "\<forall>sig. \<not> deliverable sigs pid sig"
  then show "\<exists>sm. dispatch_syscall r krsp stack_ptr k = Some (Result r', k\<lparr> k_signals := sm \<rparr>)
      \<and> get_procmask sm = get_procmask sigs \<and> get_action sm = get_action sigs
      \<and> (\<forall>p sig. sig_valid sig \<longrightarrow> bit (get_pending sm p) (nat (sig - 1)) =
           (bit (get_pending sigs p) (nat (sig - 1)) \<and> \<not> (p = pid \<and> 0 < pid \<and> waiting sigs p sig \<and> ignored sigs p sig)))"
  proof (rule next_unblocked_discards)
    fix sm assume n: "next_unblocked_signal pid sigs = (None, sm)" "get_procmask sm = get_procmask sigs" "get_action sm = get_action sigs"
      and b: "\<And>p sig. sig_valid sig \<Longrightarrow> bit (get_pending sm p) (nat (sig - 1)) \<longleftrightarrow>
        bit (get_pending sigs p) (nat (sig - 1)) \<and> \<not> (p = pid \<and> waiting sigs p sig \<and> ignored sigs p sig)"
    show ?thesis
    proof (cases "pid \<le> 0")
      case True
      then show ?thesis using d [OF n(1)] by (intro exI [of _ sigs]) (simp add: sigs_def)
    qed (use d [OF n(1)] n(2,3) b in \<open>intro exI [of _ sm], simp\<close>)
  qed
qed

theorem missing_calls_witness:
  "dispatch_syscall (demo_regs\<lparr> sr_rax := 12 \<rparr>) 0 0 demo_user_kernel = Some (Result (demo_regs\<lparr> sr_rax := - 38 \<rparr>), demo_user_kernel)"
proof -
  have "\<not> waiting (k_signals demo_user_kernel) (k_current_pid demo_user_kernel) sig" for sig
    by (simp add: demo_user_kernel_def demo_kernel_def kernel0_def waiting_def get_pending_def bt_get_or_def bt_get_def)
  then show ?thesis using missing_calls [of "demo_regs\<lparr> sr_rax := 12 \<rparr>" 0 0 demo_user_kernel]
    by (simp add: syscall_table_def ENOSYS_def)
qed

end
