(* ===== verification/Tar.thy ===== *)
theory Tar
  imports Elf Vfs
begin

text \<open>
  The initial file system: the unpacking of a tar archive (\<^verbatim>\<open>services/vfs/tar.rs\<close>) into the in-memory
  file system, and the packer that writes the archive when the system is built
  (\<^verbatim>\<open>tools/xtask/src/initramfs.rs\<close>).
\<close>

subsection \<open>Unpacking\<close>

text \<open>The fields of the header that are read.\<close>

record TarHeader =
  th_name :: bytes
  th_size :: bytes
  th_typeflag :: u8

definition TarHeader_of :: "bytes \<Rightarrow> TarHeader" where
  "TarHeader_of bs = \<lparr> th_name = take 100 bs, th_size = take 12 (drop 124 bs), th_typeflag = bs ! 156 \<rparr>"

text \<open>The loop of \<open>parse_octal\<close>: bytes that are neither digits nor terminators are skipped.\<close>

fun octal_loop :: "u64 \<Rightarrow> bytes \<Rightarrow> u64" where
  "octal_loop val [] = val"
| "octal_loop val (b # bs) =
    (if 0x30 \<le> b \<and> b \<le> 0x37 then octal_loop (push_bit 3 val OR ucast (b - 0x30)) bs
     else if b = 0 \<or> b = 0x20 then val
     else octal_loop val bs)"

definition parse_octal :: "bytes \<Rightarrow> usize" where
  "parse_octal bs = unat (octal_loop 0 bs)"

text \<open>\<open>path.trim_matches('/')\<close>\<close>

definition trim_slashes :: "string \<Rightarrow> string" where
  "trim_slashes s = rev (dropWhile (\<lambda>c. c = SLASH) (rev (dropWhile (\<lambda>c. c = SLASH) s)))"

text \<open>The loop over the components of a path; the result counts the files.\<close>

fun unpack_components :: "bool \<Rightarrow> bytes \<Rightarrow> nat \<Rightarrow> string list \<Rightarrow> kernel \<Rightarrow> nat \<times> kernel" where
  "unpack_components is_dir file_data current [] k = (0, k)"
| "unpack_components is_dir file_data current (component # components) k =
    (if components = [] \<and> \<not> is_dir then
       let (f, k) = inode_alloc (RamFile (RamFsFile_new file_data)) k
       in (1, set_inode current (RamDir (add_child component f (the_dir k current))) k)
     else
       let (current, k) = get_or_create_subdir current component k
       in unpack_components is_dir file_data current components k)"

definition unpack_entry :: "nat \<Rightarrow> string \<Rightarrow> u8 \<Rightarrow> bytes \<Rightarrow> kernel \<Rightarrow> nat \<times> kernel" where
  "unpack_entry root path typeflag file_data k =
    (let is_dir = (typeflag = 0x35 \<or> (path \<noteq> [] \<and> last path = SLASH));
         trimmed_path = trim_slashes path
     in if trimmed_path \<noteq> [] then unpack_components is_dir file_data root (split_on SLASH trimmed_path) k else (0, k))"

text \<open>The loop over the archive. Not returning would be \<open>None\<close>.\<close>

partial_function (option) unpack_loop :: "bytes \<Rightarrow> nat \<Rightarrow> usize \<Rightarrow> usize \<Rightarrow> kernel \<Rightarrow> (usize elf_result \<times> kernel) option" where
  "unpack_loop tar_data root offset files_unpacked k =
    (case checked_add offset 512 of
       None \<Rightarrow> Some (LPanic, k)
     | Some offset' \<Rightarrow>
        if offset' \<le> length tar_data then
          let header_slice = take 512 (drop offset tar_data) in
          if list_all (\<lambda>b. b = 0) header_slice then Some (LOk files_unpacked, k)
          else (case read_pod 512 header_slice 0 of
             None \<Rightarrow> Some (LErr ''Tar header truncated'', k)
           | Some bs \<Rightarrow>
              let header = TarHeader_of bs;
                  name = takeWhile (\<lambda>b. b \<noteq> 0) (th_name header)
              in if \<not> from_utf8_ok name then Some (LErr ''Invalid UTF-8 filename in tar'', k)
                 else
                   let size = parse_octal (th_size header) in
                   case checked_add offset' size of
                     None \<Rightarrow> Some (LPanic, k)
                   | Some payload_end \<Rightarrow>
                      if payload_end > length tar_data then Some (LErr ''Tar file entry payload truncated'', k)
                      else
                        let (n, k) = unpack_entry root (str_of name) (th_typeflag header) (take size (drop offset' tar_data)) k;
                            data_blocks = (size + 511) div 512
                        in case checked_add offset' (data_blocks * 512) of
                             None \<Rightarrow> Some (LPanic, k)
                           | Some next \<Rightarrow> unpack_loop tar_data root next (files_unpacked + n) k)
        else Some (LOk files_unpacked, k))"

definition unpack_tar_archive :: "bytes \<Rightarrow> nat \<Rightarrow> kernel \<Rightarrow> (usize elf_result \<times> kernel) option" where
  "unpack_tar_archive tar_data root_dir k = unpack_loop tar_data root_dir 0 0 k"

subsection \<open>Packing\<close>

text \<open>\<open>{:o}\<close>, with a minimal width.\<close>

fun oct_digits :: "nat \<Rightarrow> bytes" where
  "oct_digits n = (if n < 8 then [of_nat (0x30 + n)] else oct_digits (n div 8) @ [of_nat (0x30 + n mod 8)])"

definition oct_padded :: "nat \<Rightarrow> nat \<Rightarrow> bytes" where
  "oct_padded w n = replicate (w - length (oct_digits n)) 0x30 @ oct_digits n"

text \<open>\<open>header[a..b].copy_from_slice(src)\<close> where \<open>src\<close> has the length of the range.\<close>

definition put_at :: "nat \<Rightarrow> bytes \<Rightarrow> bytes \<Rightarrow> bytes" where
  "put_at a src header = take a header @ src @ drop (a + length src) header"

text \<open>The bytes written; \<open>None\<close> is the panic of \<open>copy_from_slice\<close> on a string of another length.\<close>

definition write_tar_entry :: "string \<Rightarrow> bytes \<Rightarrow> bool \<Rightarrow> bytes option" where
  "write_tar_entry name data is_dir =
    (let name_bytes = str_bytes name;
         name_len = min (length name_bytes) 99;
         header = put_at 0 (take name_len name_bytes) (replicate 512 0);
         header = put_at 100 (str_bytes ''0000755'' @ [0]) header;
         header = put_at 108 (str_bytes ''0000000'' @ [0]) header;
         header = put_at 116 (str_bytes ''0000000'' @ [0]) header;
         size_str = oct_padded 11 (length data) @ [0]
     in if length size_str \<noteq> 12 then None
        else
     let header = put_at 124 size_str header;
         header = put_at 136 (str_bytes ''00000000000'' @ [0]) header;
         header = header[156 := if is_dir then 0x35 else 0x30];
         header = put_at 257 (str_bytes ''ustar'' @ [0]) header;
         header = put_at 263 (str_bytes ''00'') header;
         header = put_at 148 (replicate 8 0x20) header;
         chksum = sum_list (map unat header);
         chksum_str = oct_padded 6 chksum @ [0, 0x20]
     in if length chksum_str \<noteq> 8 then None
        else
     let header = put_at 148 chksum_str header;
         rem = length data mod 512
     in Some (header @ data @ (if data \<noteq> [] \<and> rem \<noteq> 0 then replicate (512 - rem) 0 else [])))"

subsection \<open>Octal numbers\<close>

lemma octal_digit:
  fixes val :: u64 and d :: u8
  assumes v: "unat val < 2 ^ 61" and d: "unat d < 8"
  shows "unat (push_bit 3 val OR ucast d) = 8 * unat val + unat d"
proof -
  have "take_bit 3 d = d" using d by (simp add: word_unat_eq_iff unsigned_take_bit_eq take_bit_nat_eq_self)
  then have hi: "\<not> bit d i" if "3 \<le> i" for i using that by (metis bit_take_bit_iff not_le)
  have "push_bit 3 val AND ucast d = (0 :: u64)"
    by (rule bit_eqI) (use hi in \<open>auto simp: bit_simps\<close>)
  then have "push_bit 3 val OR ucast d = push_bit 3 val + (ucast d :: u64)"
    by (simp add: disjunctive_add_eq_or)
  moreover have "unat (push_bit 3 val) = 8 * unat val"
    using v by (simp add: unat_word_ariths push_bit_eq_mult)
  moreover have "unat (ucast d :: u64) = unat d" using d by (simp add: unsigned_ucast_eq take_bit_nat_eq_self)
  ultimately show ?thesis using v d by (simp add: unat_word_ariths)
qed

lemma octal_char: "0x30 \<le> b \<Longrightarrow> b \<le> 0x37 \<Longrightarrow> unat (b - 0x30 :: u8) = unat b - 48 \<and> unat b - 48 < 8 \<and> 48 \<le> unat b"
  by (auto simp: unat_sub word_le_nat_alt)

lemma octal_loop_bound: "unat val < 8 ^ j \<Longrightarrow> j + length bs \<le> 20 \<Longrightarrow> unat (octal_loop val bs) < 8 ^ (j + length bs)"
proof (induction bs arbitrary: val j)
  case (Cons b bs)
  have le: "(8::nat) ^ i \<le> 8 ^ 20" if "i \<le> 20" for i using that by (intro power_increasing) auto
  show ?case
  proof (cases "0x30 \<le> b \<and> b \<le> 0x37")
    case True
    have "unat val < 2 ^ 61" using Cons.prems le [of j] by simp
    then have "unat (push_bit 3 val OR ucast (b - 0x30)) < 8 ^ Suc j"
      using Cons.prems(1) octal_char [of b] True by (simp add: octal_digit) linarith
    then show ?thesis using Cons.IH [of _ "Suc j"] Cons.prems(2) True by simp
  next
    case False
    have up: "(8::nat) ^ i \<le> 8 ^ (j + length (b # bs))" if "i \<le> j + length (b # bs)" for i
      using that by (intro power_increasing) auto
    show ?thesis
    proof (cases "b = 0 \<or> b = 0x20")
      case True
      then show ?thesis using False Cons.prems(1) up [of j] by auto
    next
      case f: False
      have "unat (octal_loop val bs) < 8 ^ (j + length bs)" using Cons.IH [of val j] Cons.prems by simp
      then show ?thesis using False f up [of "j + length bs"] by auto
    qed
  qed
qed simp

lemma parse_octal_bound: "length bs \<le> 12 \<Longrightarrow> parse_octal bs < 8 ^ 12"
  using octal_loop_bound [of 0 0 bs] power_increasing [of "length bs" 12 "8::nat"] by (simp add: parse_octal_def)

text \<open>The parser reads back what the packer prints.\<close>

lemma octal_loop_digits:
  assumes "\<forall>b \<in> set ds. 0x30 \<le> b \<and> b \<le> 0x37" "unat val < 8 ^ j" "j + length ds \<le> 20"
  shows "unat (octal_loop val (ds @ [0])) = fold (\<lambda>b v. 8 * v + (unat b - 48)) ds (unat val)"
  using assms
proof (induction ds arbitrary: val j)
  case (Cons b ds)
  have "(8::nat) ^ j \<le> 8 ^ 20" using Cons.prems(3) by (intro power_increasing) auto
  then have "unat val < 2 ^ 61" using Cons.prems(2) by simp
  then have u: "unat (push_bit 3 val OR ucast (b - 0x30)) = 8 * unat val + (unat b - 48)"
    using octal_char [of b] Cons.prems(1) by (simp add: octal_digit)
  then have "unat (push_bit 3 val OR ucast (b - 0x30)) < 8 ^ Suc j"
    using Cons.prems(2) octal_char [of b] Cons.prems(1) by simp linarith
  then show ?case using Cons.IH [of _ "Suc j"] Cons.prems u by simp
qed simp

declare oct_digits.simps [simp del]

lemma unat_digit: "d < 8 \<Longrightarrow> unat (0x30 + of_nat d :: u8) = 48 + d"
  by (simp add: unat_word_ariths unat_of_nat)

lemma oct_digits_chars: "b \<in> set (oct_digits n) \<Longrightarrow> 0x30 \<le> b \<and> b \<le> 0x37"
proof (induction n rule: oct_digits.induct)
  case (1 n)
  have c: "(0x30 :: u8) \<le> of_nat (0x30 + d) \<and> of_nat (0x30 + d) \<le> (0x37 :: u8)" if "d < 8" for d
    using that by (auto simp: word_le_nat_alt unat_digit)
  show ?case using 1 c [of n] c [of "n mod 8"] by (auto simp: oct_digits.simps [of n] split: if_splits)
qed

lemma oct_digits_value: "fold (\<lambda>b v. 8 * v + (unat b - 48)) (oct_digits n) 0 = n"
proof (induction n rule: oct_digits.induct)
  case (1 n)
  have c: "unat (of_nat (0x30 + d) :: u8) - 48 = d" if "d < 8" for d using that by (simp add: unat_digit)
  show ?case using 1 c [of n] c [of "n mod 8"] by (subst oct_digits.simps) auto
qed

lemma oct_digits_length: "0 < w \<Longrightarrow> length (oct_digits n) \<le> w \<longleftrightarrow> n < 8 ^ w"
proof (induction n arbitrary: w rule: oct_digits.induct)
  case (1 n)
  show ?case
  proof (cases "n < 8")
    case True
    moreover have "(8::nat) ^ 1 \<le> 8 ^ w" using 1(2) by (intro power_increasing) auto
    ultimately show ?thesis using 1(2) by (simp add: oct_digits.simps [of n])
  next
    case False
    show ?thesis
    proof (cases "w = 1")
      case True
      have "oct_digits (n div 8) \<noteq> []" by (subst oct_digits.simps) simp
      then show ?thesis using True False by (simp add: oct_digits.simps [of n])
    next
      case w: False
      then obtain v where v: "w = Suc v" "0 < v" using 1(2) by (cases w) auto
      have "n div 8 < 8 ^ v \<longleftrightarrow> n < 8 ^ w" using v by (simp add: less_mult_imp_div_less div_less_iff_less_mult mult.commute)
      then show ?thesis using 1(1) [OF False v(2)] v False by (simp add: oct_digits.simps [of n])
    qed
  qed
qed

lemma oct_padded_length: "0 < w \<Longrightarrow> length (oct_padded w n) = w \<longleftrightarrow> n < 8 ^ w"
  using oct_digits_length [of w n] by (auto simp: oct_padded_def)

lemma shift_zero: "((*) 8 ^^ m) (0 :: nat) = 0"
  by (induction m) simp_all

lemma parse_oct_padded: "0 < w \<Longrightarrow> w \<le> 20 \<Longrightarrow> n < 8 ^ w \<Longrightarrow> parse_octal (oct_padded w n @ [0]) = n"
  unfolding parse_octal_def
  by (subst octal_loop_digits [of _ _ 0])
    (auto simp: oct_padded_def shift_zero oct_digits_value oct_digits_length dest: oct_digits_chars)

subsection \<open>The loop ends\<close>

lemma unpack_components_count: "fst (unpack_components is_dir bs cur cs k) \<le> 1"
  by (induction is_dir bs cur cs k rule: unpack_components.induct) (auto simp: Let_def split: prod.splits)

lemma unpack_entry_count: "fst (unpack_entry root path flag bs k) \<le> 1"
  using unpack_components_count by (auto simp: unpack_entry_def Let_def)

text \<open>One iteration: the loop ends, or goes on behind the entry.\<close>

lemma unpack_loop_step:
  assumes len: "length tar < 2 ^ 63" and off: "offset \<le> length tar + 512"
  shows "(\<exists>res k'. unpack_loop tar root offset n k = Some (res, k') \<and> res \<noteq> LPanic \<and> (\<forall>m. res = LOk m \<longrightarrow> m = n))
    \<or> (\<exists>offset' n' k'. unpack_loop tar root offset n k = unpack_loop tar root offset' n' k' \<and> offset + 512 \<le> offset'
        \<and> offset + 512 \<le> length tar \<and> offset' \<le> length tar + 512 \<and> n' \<le> n + 1)" (is "?stop \<or> ?next")
proof (cases "offset + 512 \<le> length tar")
  case False
  then have "unpack_loop tar root offset n k = Some (LOk n, k)"
    using len off by (subst unpack_loop.simps) (simp add: checked_add_def USIZE_LIMIT_def)
  then show ?thesis by blast
next
  case True
  let ?hs = "take 512 (drop offset tar)"
  let ?h = "TarHeader_of ?hs" and ?e = "offset + 512"
  let ?name = "takeWhile (\<lambda>b. b \<noteq> 0) (th_name ?h)" and ?size = "parse_octal (th_size ?h)"
  have e: "checked_add offset 512 = Some ?e" using len True by (simp add: checked_add_def USIZE_LIMIT_def)
  have rp: "read_pod 512 ?hs 0 = Some ?hs" using True by (simp add: read_pod_def checked_add_def USIZE_LIMIT_def)
  have sz: "?size < 8 ^ 12" by (intro parse_octal_bound) (simp add: TarHeader_of_def)
  have pe: "checked_add ?e ?size = Some (?e + ?size)" using len True sz by (simp add: checked_add_def USIZE_LIMIT_def)
  note unfold = unpack_loop.simps [of tar root offset n k] e rp pe
  consider "list_all (\<lambda>b. b = 0) ?hs" | "\<not> list_all (\<lambda>b. b = 0) ?hs" "\<not> from_utf8_ok ?name"
    | "\<not> list_all (\<lambda>b. b = 0) ?hs" "from_utf8_ok ?name" "?e + ?size > length tar"
    | "\<not> list_all (\<lambda>b. b = 0) ?hs" "from_utf8_ok ?name" "\<not> ?e + ?size > length tar" by blast
  then show ?thesis
  proof cases
    case 4
    obtain c k' where u: "unpack_entry root (str_of ?name) (th_typeflag ?h) (take ?size (drop ?e tar)) k = (c, k')" by fastforce
    let ?off = "?e + (?size + 511) div 512 * 512"
    have o: "?off \<le> length tar + 512" using 4(3) by linarith
    then have "checked_add ?e ((?size + 511) div 512 * 512) = Some ?off" using len by (simp add: checked_add_def USIZE_LIMIT_def)
    then have "unpack_loop tar root offset n k = unpack_loop tar root ?off (n + c) k'"
      using 4 True u by (simp add: unfold Let_def)
    moreover have "c \<le> 1" using unpack_entry_count [of root "str_of ?name" "th_typeflag ?h" "take ?size (drop ?e tar)" k] u by simp
    ultimately have ?next using o True by (intro exI [of _ ?off] exI [of _ "n + c"] exI [of _ k']) simp
    then show ?thesis ..
  qed (use True in \<open>simp_all add: unfold Let_def\<close>)
qed

lemma unpack_loop_returns:
  assumes "length tar < 2 ^ 63" "offset \<le> length tar + 512" "512 * n \<le> offset" "512 * n \<le> length tar"
  shows "\<exists>res k'. unpack_loop tar root offset n k = Some (res, k') \<and> res \<noteq> LPanic \<and> (\<forall>m. res = LOk m \<longrightarrow> 512 * m \<le> length tar)"
  using assms(2-)
proof (induction "length tar + 512 - offset" arbitrary: offset n k rule: less_induct)
  case less
  from unpack_loop_step [OF assms(1) less.prems(1), of root n k] show ?case
  proof (elim disjE exE conjE)
    fix res k' assume "unpack_loop tar root offset n k = Some (res, k')" "res \<noteq> LPanic" "\<forall>m. res = LOk m \<longrightarrow> m = n"
    then show ?case using less.prems(3) by blast
  next
    fix offset' n' k' assume u: "unpack_loop tar root offset n k = unpack_loop tar root offset' n' k'"
      and o: "offset + 512 \<le> offset'" "offset + 512 \<le> length tar" "offset' \<le> length tar + 512" "n' \<le> n + 1"
    have "length tar + 512 - offset' < length tar + 512 - offset" "512 * n' \<le> offset'" "512 * n' \<le> length tar"
      using o less.prems(2) by linarith+
    from less.hyps [OF this(1) o(3) this(2,3)] show ?case unfolding u .
  qed
qed

text \<open>
  C18: Unpacking ends for every archive, of any content, and never panics: it returns an error string or the
  number of files, which is at most the number of blocks of the archive. The length of a Rust slice is below \<open>2 ^ 63\<close>.
\<close>

theorem unpack_terminates:
  assumes "length tar_data < 2 ^ 63"
  shows "\<exists>res k'. unpack_tar_archive tar_data root k = Some (res, k') \<and> res \<noteq> LPanic
    \<and> (\<forall>n. res = LOk n \<longrightarrow> 512 * n \<le> length tar_data)"
  unfolding unpack_tar_archive_def using unpack_loop_returns [OF assms, of 0 0] by simp

theorem unpack_terminates_witness:
  "\<exists>res k'. unpack_tar_archive (replicate 700 0xFF) 0 demo_fs = Some (res, k') \<and> res \<noteq> LPanic"
  using unpack_terminates [of "replicate 700 0xFF" 0 demo_fs] by auto

subsection \<open>Headers\<close>

lemma length_put_at: "a + length src \<le> length h \<Longrightarrow> length (put_at a src h) = length h"
  by (simp add: put_at_def)

lemma field_put_same: "a + n \<le> length h \<Longrightarrow> length src = n \<Longrightarrow> take n (drop a (put_at a src h)) = src"
  by (simp add: put_at_def)

lemma field_put_before: "m + n \<le> a \<Longrightarrow> a \<le> length h \<Longrightarrow> take n (drop m (put_at a src h)) = take n (drop m h)"
  by (simp add: put_at_def min_def take_drop)

lemma field_put_after: "a + length src \<le> m \<Longrightarrow> a + length src \<le> length h \<Longrightarrow> drop m (put_at a src h) = drop m h"
  by (simp add: put_at_def)

lemma nth_put_at: "i < a \<or> a + length src \<le> i \<Longrightarrow> a + length src \<le> length h \<Longrightarrow> i < length h \<Longrightarrow> put_at a src h ! i = h ! i"
  by (auto simp: put_at_def nth_append)

lemma field_update: "m + n \<le> i \<Longrightarrow> take n (drop m (h[i := x])) = take n (drop m h)"
  by (simp add: drop_update_swap take_update_cancel)

definition tar_pad :: "nat \<Rightarrow> nat" where
  "tar_pad n = (n + 511) div 512 * 512 - n"

lemma tar_pad_rem: "(if (0::nat) < n \<and> n mod 512 \<noteq> 0 then 512 - n mod 512 else 0) = tar_pad n"
proof -
  define q r where "q = n div 512" and "r = n mod 512"
  have n: "n = 512 * q + r" "r < 512" by (simp_all add: q_def r_def)
  have "(n + 511) div 512 = q + (r + 511) div 512" unfolding n(1) add.assoc by (simp only: div_mult_self4)
  moreover have "(r + 511) div 512 = (if r = 0 then 0 else 1)" using n(2) by (auto intro!: div_nat_eqI)
  ultimately show ?thesis unfolding tar_pad_def r_def [symmetric] using n by auto
qed

lemma str_bytes_literals:
  "length (str_bytes s) = length s"
  by (simp add: str_bytes_def)

lemma checksum_fits:
  assumes "length (h :: bytes) = 512"
  shows "length (oct_padded 6 (sum_list (map unat h))) = 6"
proof -
  have "sum_list (map unat h) \<le> length h * 255"
  proof (induction h)
    case (Cons b h)
    have "unat b \<le> 255" using unsigned_less [where 'a = nat, of b] by simp
    then show ?case using Cons by simp
  qed simp
  then have "sum_list (map unat h) < 8 ^ 6" using assms by simp
  then show ?thesis using oct_padded_length [of 6] by simp
qed

lemma write_tar_entry_spec:
  assumes name: "length name \<le> 99" and data: "length data < 8 ^ 11"
  obtains h where "write_tar_entry name data is_dir = Some (h @ data @ replicate (tar_pad (length data)) 0)" "length h = 512"
    "take 100 h = str_bytes name @ replicate (100 - length name) 0" "take 12 (drop 124 h) = oct_padded 11 (length data) @ [0]"
    "h ! 156 = (if is_dir then 0x35 else 0x30)"
proof -
  define h1 where "h1 = put_at 0 (str_bytes name) (replicate 512 0)"
  define h2 where "h2 = put_at 116 (str_bytes ''0000000'' @ [0]) (put_at 108 (str_bytes ''0000000'' @ [0]) (put_at 100 (str_bytes ''0000755'' @ [0]) h1))"
  define h3 where "h3 = put_at 136 (str_bytes ''00000000000'' @ [0]) (put_at 124 (oct_padded 11 (length data) @ [0]) h2)"
  define h4 where "h4 = put_at 263 (str_bytes ''00'') (put_at 257 (str_bytes ''ustar'' @ [0]) (h3[156 := if is_dir then 0x35 else 0x30]))"
  define h5 where "h5 = put_at 148 (replicate 8 0x20) h4"
  define c where "c = oct_padded 6 (sum_list (map unat h5)) @ [0, 0x20]"
  have sz: "length (oct_padded 11 (length data)) = 11" using oct_padded_length [of 11 "length data"] data by simp
  have l: "length h1 = 512" "length h2 = 512" "length h3 = 512" "length h4 = 512" "length h5 = 512"
    using name by (simp_all add: h1_def h2_def h3_def h4_def h5_def length_put_at str_bytes_literals sz)
  have c: "length c = 8" using checksum_fits [OF l(5)] by (simp add: c_def)
  have nm: "take (min (length (str_bytes name)) 99) (str_bytes name) = str_bytes name" using name by (simp add: str_bytes_literals)
  have w: "write_tar_entry name data is_dir = Some (put_at 148 c h5 @ data @ replicate (tar_pad (length data)) 0)"
    using sz c tar_pad_rem [of "length data"] unfolding write_tar_entry_def Let_def nm
    by (auto simp flip: h1_def h2_def h3_def h4_def h5_def c_def split: if_splits)
  show ?thesis
  proof (rule that [OF w])
    show "length (put_at 148 c h5) = 512" using l c by (simp add: length_put_at)
    have "take 100 (put_at 148 c h5) = take 100 h1"
      using field_put_before [of 0 100] field_update [of 0 100] l c
      by (simp add: h5_def h4_def h3_def h2_def length_put_at str_bytes_literals sz)
    then show "take 100 (put_at 148 c h5) = str_bytes name @ replicate (100 - length name) 0"
      using name by (simp add: h1_def put_at_def str_bytes_literals min_def)
    have "take 12 (drop 124 (put_at 148 c h5)) = take 12 (drop 124 (put_at 124 (oct_padded 11 (length data) @ [0]) h2))"
      using l c by (simp add: h5_def h4_def h3_def length_put_at str_bytes_literals sz field_put_before field_update)
    then show "take 12 (drop 124 (put_at 148 c h5)) = oct_padded 11 (length data) @ [0]"
      using l by (simp add: field_put_same sz)
    show "put_at 148 c h5 ! 156 = (if is_dir then 0x35 else 0x30)"
      using l c by (simp add: h5_def h4_def length_put_at str_bytes_literals nth_put_at)
  qed
qed

subsection \<open>Unpacking what was packed\<close>

type_synonym tar_entry = "string \<times> bytes \<times> bool"

definition entry_ok :: "tar_entry \<Rightarrow> bool" where
  "entry_ok = (\<lambda>(name, data, is_dir). length name \<le> 99 \<and> CHR 0x00 \<notin> set name \<and> from_utf8_ok (str_bytes name) \<and> length data < 8 ^ 11)"

definition tar_body :: "tar_entry list \<Rightarrow> bytes" where
  "tar_body es = concat (map (\<lambda>(name, data, is_dir). the (write_tar_entry name data is_dir)) es)"

definition install :: "nat \<Rightarrow> tar_entry \<Rightarrow> nat \<times> kernel \<Rightarrow> nat \<times> kernel" where
  "install root = (\<lambda>(name, data, is_dir) (n, k).
     let (c, k) = unpack_entry root name (if is_dir then 0x35 else 0x30) data k in (n + c, k))"

lemma byte_char: "char_of (unat (of_char c :: u8)) = c"
proof -
  have "(of_char c :: u8) = of_nat (of_char c)" by (cases c) (simp add: of_char_Char)
  then have "unat (of_char c :: u8) = of_char c mod 256" by (simp only: unat_of_nat) simp
  then show ?thesis by simp
qed

lemma str_of_str_bytes: "str_of (str_bytes s) = s"
  by (simp add: str_of_def str_bytes_def comp_def byte_char)

lemma str_bytes_no_nul: "CHR 0x00 \<notin> set s \<Longrightarrow> 0 \<notin> set (str_bytes s)"
proof -
  have "c = CHR 0x00" if "(of_char c :: u8) = 0" for c using byte_char [of c] that by (simp add: char_of_def)
  then show "CHR 0x00 \<notin> set s \<Longrightarrow> ?thesis" by (auto simp: str_bytes_def dest!: sym [of 0])
qed

lemma unpack_one:
  assumes ok: "entry_ok (name, data, is_dir)"
    and tar: "tar = pre @ the (write_tar_entry name data is_dir) @ post" and len: "length tar < 2 ^ 63"
  shows "unpack_loop tar root (length pre) n k =
    (let (n', k') = install root (name, data, is_dir) (n, k)
     in unpack_loop tar root (length pre + length (the (write_tar_entry name data is_dir))) n' k')"
proof -
  obtain h where w: "write_tar_entry name data is_dir = Some (h @ data @ replicate (tar_pad (length data)) 0)" "length h = 512"
    and f: "take 100 h = str_bytes name @ replicate (100 - length name) 0" "take 12 (drop 124 h) = oct_padded 11 (length data) @ [0]"
    "h ! 156 = (if is_dir then 0x35 else 0x30)"
    using write_tar_entry_spec [of name data is_dir] ok by (auto simp: entry_ok_def)
  have nul: "0 \<notin> set (str_bytes name)" using ok by (auto simp: entry_ok_def intro!: str_bytes_no_nul)
  have nz: "\<not> list_all (\<lambda>b. b = 0) h" using w(2) f(3) by (auto simp: list_all_length intro!: exI [of _ 156] split: if_splits)
  have hs: "take 512 (drop (length pre) tar) = h" using w by (simp add: tar)
  have rp: "read_pod 512 h 0 = Some h" using w(2) by (simp add: read_pod_def checked_add_def USIZE_LIMIT_def)
  have H: "TarHeader_of h = \<lparr> th_name = str_bytes name @ replicate (100 - length name) 0, th_size = oct_padded 11 (length data) @ [0],
      th_typeflag = if is_dir then 0x35 else 0x30 \<rparr>"
    using f by (simp add: TarHeader_of_def)
  have name: "takeWhile (\<lambda>b. b \<noteq> 0) (str_bytes name @ replicate (100 - length name) 0) = str_bytes name"
    using nul by (subst takeWhile_append2) auto
  have size: "parse_octal (oct_padded 11 (length data) @ [0]) = length data"
    using ok by (intro parse_oct_padded) (auto simp: entry_ok_def)
  have dat: "take (length data) (drop (length pre + 512) tar) = data" using w by (simp add: tar)
  have blocks: "(length data + 511) div 512 * 512 = length data + tar_pad (length data)"
    by (simp add: tar_pad_def)
  have e: "checked_add (length pre) 512 = Some (length pre + 512)" "length pre + 512 \<le> length tar"
    "checked_add (length pre + 512) (length data) = Some (length pre + 512 + length data)" "length pre + 512 + length data \<le> length tar"
    "checked_add (length pre + 512) ((length data + 511) div 512 * 512) = Some (length pre + length (the (write_tar_entry name data is_dir)))"
    using w len by (simp_all add: tar checked_add_def USIZE_LIMIT_def blocks)
  obtain c k' where u: "unpack_entry root name (if is_dir then 0x35 else 0x30) data k = (c, k')" by fastforce
  have "from_utf8_ok (str_bytes name)" using ok by (simp add: entry_ok_def)
  then show ?thesis using e(2,4) u
    by (simp add: unpack_loop.simps [of tar root "length pre" n k] e(1,3,5) hs nz rp H name size dat install_def str_of_str_bytes Let_def)
qed

lemma tar_body_Cons: "tar_body ((name, data, is_dir) # es) = the (write_tar_entry name data is_dir) @ tar_body es"
  by (simp add: tar_body_def)

lemma unpack_entries:
  assumes "list_all entry_ok es" "tar = pre @ tar_body es @ post" "length tar < 2 ^ 63"
  shows "unpack_loop tar root (length pre) n k =
    (let (n', k') = fold (install root) es (n, k) in unpack_loop tar root (length pre + length (tar_body es)) n' k')"
  using assms
proof (induction es arbitrary: pre n k)
  case Nil
  then show ?case by (simp add: tar_body_def)
next
  case (Cons x es)
  obtain name data is_dir where x: "x = (name, data, is_dir)" by (cases x) auto
  let ?e = "the (write_tar_entry name data is_dir)"
  obtain n1 k1 where i: "install root x (n, k) = (n1, k1)" by fastforce
  have "unpack_loop tar root (length pre) n k = unpack_loop tar root (length (pre @ ?e)) n1 k1"
    using unpack_one [of name data is_dir tar pre "tar_body es @ post" root n k] Cons.prems i by (simp add: x tar_body_Cons)
  also have "\<dots> = (let (n', k') = fold (install root) es (n1, k1) in unpack_loop tar root (length (pre @ ?e) + length (tar_body es)) n' k')"
    using Cons.IH [of "pre @ ?e" n1 k1] Cons.prems by (simp add: x tar_body_Cons)
  finally show ?case using i by (simp add: x tar_body_Cons add.assoc)
qed

lemma unpack_packed:
  assumes es: "list_all entry_ok es" and len: "length (tar_body es) + 1024 < 2 ^ 63"
  shows "unpack_tar_archive (tar_body es @ replicate 1024 0) root k =
    (let (n, k') = fold (install root) es (0, k) in Some (LOk n, k'))"
proof -
  let ?tar = "tar_body es @ replicate 1024 0"
  have stop: "unpack_loop ?tar root (length (tar_body es)) n k = Some (LOk n, k)" for n k
    using len by (subst unpack_loop.simps) (simp add: checked_add_def USIZE_LIMIT_def list_all_length Let_def)
  show ?thesis
    using unpack_entries [of es ?tar "[]" "replicate 1024 0" root 0 k] es len stop
    by (simp add: unpack_tar_archive_def split: prod.split)
qed

text \<open>\<open>create_initramfs\<close> packs the binaries that could be read, in this order, and the message of the day.\<close>

definition pack_bin :: "bytes option \<Rightarrow> string \<Rightarrow> bytes option" where
  "pack_bin src dest = (case src of Some data \<Rightarrow> write_tar_entry dest data False | None \<Rightarrow> Some [])"

definition initramfs_motd :: bytes where
  "initramfs_motd = str_bytes (''Welcome to Rust POSIX OS'' @ NL @ ''POSIX.1-2024 Compliant Framekernel'' @ NL @ NL)"

definition create_initramfs :: "bytes option \<Rightarrow> bytes option \<Rightarrow> bytes option \<Rightarrow> bytes option" where
  "create_initramfs init shell coreutils =
    (case pack_bin init ''bin/init'' of None \<Rightarrow> None | Some a \<Rightarrow>
     case pack_bin shell ''bin/sh'' of None \<Rightarrow> None | Some b \<Rightarrow>
     case pack_bin coreutils ''bin/coreutils'' of None \<Rightarrow> None | Some c \<Rightarrow>
     case write_tar_entry ''etc/motd'' initramfs_motd False of None \<Rightarrow> None | Some d \<Rightarrow>
       Some (a @ b @ c @ d @ replicate 512 0 @ replicate 512 0))"

end
