(* ===== verification/Initramfs.thy ===== *)
theory Initramfs
  imports Tar "HOL-Library.Sublist"
begin

text \<open>
  What unpacking an archive does to the file system: a refinement of the abstract tree of the directories and
  files of the archive.
\<close>

subsection \<open>The abstract tree\<close>

text \<open>
  \<open>N\<close> gives the inode of each directory path that the archive has created, \<open>F\<close> the content of each
  file path; everything else below the root is as it was in \<open>k0\<close>.
\<close>

definition slot_ok :: "kernel \<Rightarrow> nat \<Rightarrow> (string list \<Rightarrow> nat option) \<Rightarrow> (string list \<Rightarrow> bytes option) \<Rightarrow> kernel \<Rightarrow> string list \<Rightarrow> RamFsDir \<Rightarrow> string \<Rightarrow> bool" where
  "slot_ok k0 root N F k ps d c \<longleftrightarrow> bt_get (rd_subdirs d) c = N (ps @ [c]) \<and>
    (case F (ps @ [c]) of
       Some bs \<Rightarrow> (\<exists>x < k_ninodes k. bt_get (rd_entries d) c = Some x \<and> k_inodes k x = RamFile (RamFsFile_new bs))
     | None \<Rightarrow> bt_get (rd_entries d) c = (case N (ps @ [c]) of Some z \<Rightarrow> Some z | None \<Rightarrow> if ps = [] then entry k0 root c else None))"

definition node_ok :: "kernel \<Rightarrow> nat \<Rightarrow> (string list \<Rightarrow> nat option) \<Rightarrow> (string list \<Rightarrow> bytes option) \<Rightarrow> kernel \<Rightarrow> string list \<Rightarrow> nat \<Rightarrow> bool" where
  "node_ok k0 root N F k ps y \<longleftrightarrow> y < k_ninodes k \<and> (\<exists>d. k_inodes k y = RamDir d \<and> (\<forall>c. slot_ok k0 root N F k ps d c))"

definition unpacked :: "kernel \<Rightarrow> nat \<Rightarrow> (string list \<Rightarrow> nat option) \<Rightarrow> (string list \<Rightarrow> bytes option) \<Rightarrow> kernel \<Rightarrow> bool" where
  "unpacked k0 root N F k \<longleftrightarrow> N [] = Some root \<and> F [] = None \<and> inj_on N (dom N) \<and> k_ninodes k0 \<le> k_ninodes k
    \<and> (\<forall>r < k_ninodes k0. r \<noteq> root \<longrightarrow> k_inodes k r = k_inodes k0 r)
    \<and> (\<forall>ps c. ps @ [c] \<in> dom N \<union> dom F \<longrightarrow> ps \<in> dom N)
    \<and> (\<forall>ps y. N ps = Some y \<longrightarrow> node_ok k0 root N F k ps y \<and> (ps = [] \<or> k_ninodes k0 \<le> y))"

lemma unpackedD:
  assumes "unpacked k0 root N F k"
  shows "N [] = Some root" "F [] = None" "inj_on N (dom N)" "k_ninodes k0 \<le> k_ninodes k"
    "\<And>r. r < k_ninodes k0 \<Longrightarrow> r \<noteq> root \<Longrightarrow> k_inodes k r = k_inodes k0 r"
    "\<And>ps c. ps @ [c] \<in> dom N \<union> dom F \<Longrightarrow> ps \<in> dom N"
    "\<And>ps y. N ps = Some y \<Longrightarrow> node_ok k0 root N F k ps y"
    "\<And>ps y. N ps = Some y \<Longrightarrow> ps \<noteq> [] \<Longrightarrow> k_ninodes k0 \<le> y"
  using assms unfolding unpacked_def by blast+

lemma unpacked_inj: "unpacked k0 root N F k \<Longrightarrow> N ps = Some y \<Longrightarrow> N qs = Some y \<Longrightarrow> ps = qs"
  using unpackedD(3) [of k0 root N F k] by (metis domI inj_onD)

text \<open>A change that keeps the other nodes and all files.\<close>

lemma slot_ok_keep:
  assumes "slot_ok k0 root N F k ps d c" "N' (ps @ [c]) = N (ps @ [c])" "F' (ps @ [c]) = F (ps @ [c])" "k_ninodes k \<le> k_ninodes k'"
    "\<And>x f. x < k_ninodes k \<Longrightarrow> k_inodes k x = RamFile f \<Longrightarrow> k_inodes k' x = RamFile f"
  shows "slot_ok k0 root N' F' k' ps d c"
  using assms(1) unfolding slot_ok_def assms(2,3) by (auto split: option.splits dest: assms(5) intro: less_le_trans [OF _ assms(4)])

lemma slot_ok_cong:
  "slot_ok k0 root N F k ps d c \<Longrightarrow> bt_get (rd_subdirs d') c = bt_get (rd_subdirs d) c \<Longrightarrow> bt_get (rd_entries d') c = bt_get (rd_entries d) c
    \<Longrightarrow> slot_ok k0 root N F k ps d' c"
  by (simp only: slot_ok_def)

lemma new_dir_step:
  assumes u: "unpacked k0 root N F k" and y: "N ps = Some y" and new: "N (ps @ [c]) = None" "F (ps @ [c]) = None"
  obtains k' where "get_or_create_subdir y c k = (k_ninodes k, k')" "unpacked k0 root (N(ps @ [c] \<mapsto> k_ninodes k)) F k'"
proof -
  let ?z = "k_ninodes k" and ?N = "N(ps @ [c] \<mapsto> k_ninodes k)"
  obtain d where d: "k_inodes k y = RamDir d" "y < ?z" and slot: "\<And>c. slot_ok k0 root N F k ps d c"
    using unpackedD(7) [OF u y] by (auto simp: node_ok_def)
  define d' where "d' = add_child c ?z (d\<lparr> rd_subdirs := bt_insert c ?z (rd_subdirs d) \<rparr>)"
  define k' where "k' = set_inode y (RamDir d') (snd (inode_alloc (RamDir RamFsDir_new) k))"
  have sub: "bt_get (rd_subdirs d) c = None" using slot [of c] new by (simp add: slot_ok_def)
  have g: "get_or_create_subdir y c k = (?z, k')"
    using d sub by (simp add: get_or_create_subdir_def the_dir_def inode_alloc_def k'_def d'_def Let_def)
  have k': "k_inodes k' = (k_inodes k)(?z := RamDir RamFsDir_new, y := RamDir d')" "k_ninodes k' = Suc ?z"
    by (simp_all add: k'_def inode_alloc_def)
  have files: "k_inodes k' x = RamFile f" if "x < ?z" "k_inodes k x = RamFile f" for x f
    using that d by (auto simp: k')
  have fresh: "N qs \<noteq> Some ?z" for qs using unpackedD(7) [OF u, of qs ?z] by (auto simp: node_ok_def)
  have node: "node_ok k0 root ?N F k' qs x" if q: "?N qs = Some x" for qs x
  proof (cases "qs = ps @ [c]")
    case True
    have none: "N ((ps @ [c]) @ [c']) = None" "F ((ps @ [c]) @ [c']) = None" for c'
      using unpackedD(6) [OF u, of "ps @ [c]" c'] new by auto
    have "slot_ok k0 root ?N F k' (ps @ [c]) RamFsDir_new c'" for c'
      using none [of c'] by (simp add: slot_ok_def RamFsDir_new_def RamFsDir_new_with_creds_def)
    then show ?thesis using q True d by (auto simp: node_ok_def k')
  next
    case False
    then have q: "N qs = Some x" using q by simp
    obtain dx where dx: "k_inodes k x = RamDir dx" "x < ?z" and s: "\<And>c. slot_ok k0 root N F k qs dx c"
      using unpackedD(7) [OF u q] by (auto simp: node_ok_def)
    show ?thesis
    proof (cases "qs = ps")
      case True
      then have x: "x = y" "dx = d" using q y dx d by auto
      have "slot_ok k0 root ?N F k' ps d' c'" for c'
      proof (cases "c' = c")
        case True
        then show ?thesis using new by (simp add: slot_ok_def d'_def add_child_def)
      next
        case False
        then have "slot_ok k0 root ?N F k' ps d c'" by (intro slot_ok_keep [OF slot [of c'] _ _ _ files]) (simp_all add: k')
        then show ?thesis by (rule slot_ok_cong) (use False in \<open>simp_all add: d'_def add_child_def\<close>)
      qed
      then show ?thesis using x d True by (auto simp: node_ok_def k')
    next
      case other: False
      then have "x \<noteq> y" using unpacked_inj [OF u q] y by blast
      moreover have "slot_ok k0 root ?N F k' qs dx c'" for c'
        by (rule slot_ok_keep [OF s [of c'] _ _ _ files]) (use other in \<open>simp_all add: k'\<close>)
      ultimately show ?thesis using dx by (auto simp: node_ok_def k')
    qed
  qed
  have inj: "inj_on ?N (dom ?N)" using unpackedD(3) [OF u] fresh new by (auto simp: inj_on_def dom_def split: if_splits)
  have "unpacked k0 root ?N F k'" unfolding unpacked_def
  proof (intro conjI allI impI)
    fix qs c' assume "qs @ [c'] \<in> dom ?N \<union> dom F"
    then show "qs \<in> dom ?N" using unpackedD(6) [OF u, of qs c'] y by (auto split: if_splits)
  next
    fix qs x assume q: "?N qs = Some x"
    show "node_ok k0 root ?N F k' qs x" using node [OF q] .
    show "qs = [] \<or> k_ninodes k0 \<le> x" using q unpackedD(4,8) [OF u] by (auto split: if_splits)
  next
    fix r assume r: "r < k_ninodes k0" "r \<noteq> root"
    then have "r \<noteq> y" using unpackedD(1,8) [OF u] y by (cases "ps = []") fastforce+
    then show "k_inodes k' r = k_inodes k0 r" using r unpackedD(4,5) [OF u] by (simp add: k')
  qed (use unpackedD [OF u] inj in \<open>simp_all add: k'\<close>)
  then show ?thesis using g that by blast
qed

lemma new_file_step:
  assumes u: "unpacked k0 root N F k" and y: "N ps = Some y" and new: "N (ps @ [c]) = None"
  obtains k' where "unpack_components False bs y [c] k = (1, k')" "unpacked k0 root N (F(ps @ [c] \<mapsto> bs)) k'"
proof -
  let ?z = "k_ninodes k" and ?F = "F(ps @ [c] \<mapsto> bs)"
  obtain d where d: "k_inodes k y = RamDir d" "y < ?z" and slot: "\<And>c. slot_ok k0 root N F k ps d c"
    using unpackedD(7) [OF u y] by (auto simp: node_ok_def)
  define d' where "d' = add_child c ?z d"
  define k' where "k' = set_inode y (RamDir d') (snd (inode_alloc (RamFile (RamFsFile_new bs)) k))"
  have g: "unpack_components False bs y [c] k = (1, k')"
    using d by (simp add: the_dir_def inode_alloc_def k'_def d'_def Let_def)
  have k': "k_inodes k' = (k_inodes k)(?z := RamFile (RamFsFile_new bs), y := RamDir d')" "k_ninodes k' = Suc ?z"
    by (simp_all add: k'_def inode_alloc_def)
  have files: "k_inodes k' x = RamFile f" if "x < ?z" "k_inodes k x = RamFile f" for x f
    using that d by (auto simp: k')
  have node: "node_ok k0 root N ?F k' qs x" if q: "N qs = Some x" for qs x
  proof -
    obtain dx where dx: "k_inodes k x = RamDir dx" "x < ?z" and s: "\<And>c. slot_ok k0 root N F k qs dx c"
      using unpackedD(7) [OF u q] by (auto simp: node_ok_def)
    show ?thesis
    proof (cases "qs = ps")
      case True
      then have x: "x = y" "dx = d" using q y dx d by auto
      have "slot_ok k0 root N ?F k' ps d' c'" for c'
      proof (cases "c' = c")
        case True
        have "bt_get (rd_subdirs d) c = None" using slot [of c] new by (simp add: slot_ok_def)
        then show ?thesis using True new d by (simp add: slot_ok_def d'_def add_child_def k')
      next
        case False
        then have "slot_ok k0 root N ?F k' ps d c'" by (intro slot_ok_keep [OF slot [of c'] _ _ _ files]) (simp_all add: k')
        then show ?thesis by (rule slot_ok_cong) (use False in \<open>simp_all add: d'_def add_child_def\<close>)
      qed
      then show ?thesis using x d True by (auto simp: node_ok_def k')
    next
      case other: False
      then have "x \<noteq> y" using unpacked_inj [OF u q] y by blast
      moreover have "slot_ok k0 root N ?F k' qs dx c'" for c'
        by (rule slot_ok_keep [OF s [of c'] _ _ _ files]) (use other in \<open>simp_all add: k'\<close>)
      ultimately show ?thesis using dx by (auto simp: node_ok_def k')
    qed
  qed
  have "unpacked k0 root N ?F k'" unfolding unpacked_def
  proof (intro conjI allI impI)
    fix qs c' assume "qs @ [c'] \<in> dom N \<union> dom ?F"
    then show "qs \<in> dom N" using unpackedD(6) [OF u, of qs c'] y by (auto split: if_splits)
  next
    fix qs x assume q: "N qs = Some x"
    show "node_ok k0 root N ?F k' qs x" using node [OF q] .
    show "qs = [] \<or> k_ninodes k0 \<le> x" using q unpackedD(8) [OF u] by auto
  next
    fix r assume r: "r < k_ninodes k0" "r \<noteq> root"
    then have "r \<noteq> y" using unpackedD(1,8) [OF u] y by (cases "ps = []") fastforce+
    then show "k_inodes k' r = k_inodes k0 r" using r unpackedD(4,5) [OF u] by (simp add: k')
  qed (use unpackedD [OF u] in \<open>simp_all add: k'\<close>)
  then show ?thesis using g that by blast
qed

subsection \<open>One path\<close>

lemma existing_dir:
  assumes u: "unpacked k0 root N F k" and y: "N ps = Some y" and z: "N (ps @ [c]) = Some z"
  shows "get_or_create_subdir y c k = (z, k)"
  using unpackedD(7) [OF u y] z by (auto simp: node_ok_def slot_ok_def get_or_create_subdir_def)

lemma unpack_path:
  assumes "unpacked k0 root N F k" "N ps = Some y" "cs \<noteq> []" "N (ps @ cs) = None"
    "\<And>q. q \<noteq> [] \<Longrightarrow> strict_prefix q cs \<Longrightarrow> F (ps @ q) = None"
  shows "\<exists>N' k'. unpack_components False bs y cs k = (1, k') \<and> unpacked k0 root N' (F(ps @ cs \<mapsto> bs)) k'
    \<and> dom N' = dom N \<union> {ps @ q |q. strict_prefix q cs}"
  using assms
proof (induction cs arbitrary: N k ps y)
  case (Cons c cs)
  show ?case
  proof (cases "cs = []")
    case True
    obtain k' where k': "unpack_components False bs y [c] k = (1, k')" "unpacked k0 root N (F(ps @ [c] \<mapsto> bs)) k'"
      using new_file_step [OF Cons.prems(1,2)] Cons.prems(4) True by blast
    have "{ps @ q |q. strict_prefix q [c]} = {ps}" by (auto simp: strict_prefix_def prefix_Cons)
    then have "dom N = dom N \<union> {ps @ q |q. strict_prefix q [c]}" using Cons.prems(2) by auto
    then show ?thesis using k' unfolding True by blast
  next
    case False
    have f: "F (ps @ [c]) = None" using Cons.prems(5) [of "[c]"] False by (simp add: strict_prefix_def)
    obtain N1 z k1 where s: "get_or_create_subdir y c k = (z, k1)" "unpacked k0 root N1 F k1" "N1 (ps @ [c]) = Some z"
      "dom N1 = insert (ps @ [c]) (dom N)"
    proof (cases "N (ps @ [c])")
      case None
      show ?thesis using new_dir_step [OF Cons.prems(1,2) None f] that by (metis dom_fun_upd fun_upd_same option.distinct(1))
    next
      case (Some z)
      show ?thesis using existing_dir [OF Cons.prems(1,2) Some] that Cons.prems(1) Some by auto
    qed
    have n: "N1 ((ps @ [c]) @ cs) = None" using s(4) Cons.prems(4) False by (auto simp: dom_def set_eq_iff)
    have q: "F ((ps @ [c]) @ q) = None" if "q \<noteq> []" "strict_prefix q cs" for q
      using Cons.prems(5) [of "c # q"] that by simp
    obtain N' k' where r: "unpack_components False bs z cs k1 = (1, k')" "unpacked k0 root N' (F((ps @ [c]) @ cs \<mapsto> bs)) k'"
      "dom N' = dom N1 \<union> {(ps @ [c]) @ q |q. strict_prefix q cs}"
      using Cons.IH [OF s(2,3) False n q] by blast
    have "{ps @ q |q. strict_prefix q (c # cs)} = insert ps {(ps @ [c]) @ q |q. strict_prefix q cs}"
      by (auto simp: strict_prefix_def prefix_Cons)
    moreover have "ps @ [c] \<in> {(ps @ [c]) @ q |q. strict_prefix q cs}" using False by (auto simp: strict_prefix_def)
    ultimately have "dom N' = dom N \<union> {ps @ q |q. strict_prefix q (c # cs)}" using r(3) s(4) Cons.prems(2) by auto
    moreover have "unpacked k0 root N' (F(ps @ c # cs \<mapsto> bs)) k'" using r(2) by (simp only: append_assoc append.simps)
    moreover have "unpack_components False bs y (c # cs) k = (1, k')" using r(1) s(1) False by simp
    ultimately show ?thesis by blast
  qed
qed simp

subsection \<open>Whole archives\<close>

definition comps :: "string \<Rightarrow> string list" where
  "comps name = split_on SLASH (trim_slashes name)"

definition file_entry :: "tar_entry \<Rightarrow> bool" where
  "file_entry = (\<lambda>(name, data, is_dir). \<not> is_dir \<and> trim_slashes name \<noteq> [] \<and> last name \<noteq> SLASH)"

text \<open>The files of an archive; a later entry replaces an earlier one of the same path.\<close>

definition archive_files :: "tar_entry list \<Rightarrow> string list \<Rightarrow> bytes option" where
  "archive_files es = map_of (rev (map (\<lambda>(name, data, is_dir). (comps name, data)) es))"

text \<open>No path of an archive runs through a file of the archive.\<close>

definition conflict_free :: "string list set \<Rightarrow> bool" where
  "conflict_free P \<longleftrightarrow> (\<forall>p \<in> P. \<forall>q \<in> P. \<not> strict_prefix p q)"

definition tree_is :: "kernel \<Rightarrow> nat \<Rightarrow> (string list \<Rightarrow> bytes option) \<Rightarrow> kernel \<Rightarrow> bool" where
  "tree_is k0 root F k \<longleftrightarrow> (\<exists>N. unpacked k0 root N F k \<and> dom N = insert [] {q. \<exists>p \<in> dom F. strict_prefix q p})"

lemma install_file:
  assumes t: "tree_is k0 root F k" and f: "file_entry (name, bs, is_dir)"
    and c: "\<And>q. q \<in> dom F \<Longrightarrow> \<not> strict_prefix q (comps name) \<and> \<not> strict_prefix (comps name) q"
  shows "\<exists>k'. install root (name, bs, is_dir) (n, k) = (Suc n, k') \<and> tree_is k0 root (F(comps name \<mapsto> bs)) k'"
proof -
  obtain N where u: "unpacked k0 root N F k" and N: "dom N = insert [] {q. \<exists>p \<in> dom F. strict_prefix q p}"
    using t by (auto simp: tree_is_def)
  have ne: "comps name \<noteq> []" by (simp add: comps_def)
  have "comps name \<notin> dom N" using N ne c by auto
  then have "N ([] @ comps name) = None" by (simp add: domIff)
  moreover have "F ([] @ q) = None" if "strict_prefix q (comps name)" for q using c [of q] that by (cases "F q") auto
  ultimately obtain N' k' where r: "unpack_components False bs root (comps name) k = (1, k')"
    "unpacked k0 root N' (F([] @ comps name \<mapsto> bs)) k'" "dom N' = dom N \<union> {[] @ q |q. strict_prefix q (comps name)}"
    using unpack_path [OF u unpackedD(1) [OF u] ne] by blast
  have "unpack_entry root name 0x30 bs k = (1, k')"
    using f r(1) by (auto simp: unpack_entry_def file_entry_def comps_def Let_def)
  then have "install root (name, bs, is_dir) (n, k) = (Suc n, k')" using f by (simp add: install_def file_entry_def)
  moreover have "dom N' = insert [] {q. \<exists>p \<in> dom (F(comps name \<mapsto> bs)). strict_prefix q p}" using r(3) N by auto
  moreover have "unpacked k0 root N' (F(comps name \<mapsto> bs)) k'" using r(2) by (simp only: append.simps)
  ultimately show ?thesis unfolding tree_is_def by blast
qed

lemma archive_files_snoc: "archive_files (es @ [(name, bs, is_dir)]) = (archive_files es)(comps name \<mapsto> bs)"
  by (simp add: archive_files_def fun_eq_iff)

lemma dom_archive_files: "dom (archive_files es) = (comps \<circ> fst) ` set es"
  by (auto simp: archive_files_def dom_map_of_conv_image_fst image_image) (force simp: image_iff)+

lemma install_files:
  assumes "tree_is k0 root Map.empty k" "list_all file_entry es" "conflict_free (dom (archive_files es))"
  shows "\<exists>k'. fold (install root) es (0, k) = (length es, k') \<and> tree_is k0 root (archive_files es) k'"
  using assms(2,3)
proof (induction es rule: rev_induct)
  case Nil
  then show ?case using assms(1) by (simp add: archive_files_def)
next
  case (snoc e es)
  obtain name bs is_dir where e: "e = (name, bs, is_dir)" by (cases e) auto
  have sub: "dom (archive_files (es @ [e])) = insert (comps name) (dom (archive_files es))" by (simp add: e archive_files_snoc)
  have "conflict_free (dom (archive_files es))" using snoc.prems(2) sub by (simp add: conflict_free_def)
  then obtain k1 where k1: "fold (install root) es (0, k) = (length es, k1)" "tree_is k0 root (archive_files es) k1"
    using snoc by auto
  have c: "\<not> strict_prefix q (comps name) \<and> \<not> strict_prefix (comps name) q" if "q \<in> dom (archive_files es)" for q
    using snoc.prems(2) that unfolding sub conflict_free_def by blast
  obtain k' where i: "install root (name, bs, is_dir) (length es, k1) = (Suc (length es), k')"
    and t: "tree_is k0 root ((archive_files es)(comps name \<mapsto> bs)) k'"
    using install_file [OF k1(2) _ c, of bs is_dir "length es"] snoc.prems(1) e by auto
  have "fold (install root) (es @ [e]) (0, k) = (length (es @ [e]), k')" using k1(1) i by (simp add: e)
  then show ?case using t unfolding e archive_files_snoc by blast
qed

lemma tree_is_empty:
  assumes "k_inodes k root = RamDir d" "rd_subdirs d = []" "root < k_ninodes k"
  shows "tree_is k root Map.empty k"
  unfolding tree_is_def
proof (intro exI conjI)
  show "unpacked k root [[] \<mapsto> root] Map.empty k"
    using assms by (auto simp: unpacked_def node_ok_def slot_ok_def entry_def)
qed auto

subsection \<open>Looking up what was unpacked\<close>

lemma follow_snoc: "follow k r (ps @ [c]) = (case follow k r ps of Some i \<Rightarrow> entry k i c | None \<Rightarrow> None)"
  by (induction k r ps rule: follow.induct) (simp_all split: option.split)

lemma node_entry:
  assumes "node_ok k0 root N F k ps y"
  shows "F (ps @ [c]) = Some bs \<Longrightarrow> \<exists>x. entry k y c = Some x \<and> k_inodes k x = RamFile (RamFsFile_new bs)"
    and "F (ps @ [c]) = None \<Longrightarrow> entry k y c = (case N (ps @ [c]) of Some z \<Rightarrow> Some z | None \<Rightarrow> if ps = [] then entry k0 root c else None)"
proof -
  obtain d where d: "k_inodes k y = RamDir d" and s: "slot_ok k0 root N F k ps d c" using assms by (auto simp: node_ok_def)
  show "\<exists>x. entry k y c = Some x \<and> k_inodes k x = RamFile (RamFsFile_new bs)" if "F (ps @ [c]) = Some bs"
    using s that d by (auto simp: slot_ok_def entry_def)
  show "entry k y c = (case N (ps @ [c]) of Some z \<Rightarrow> Some z | None \<Rightarrow> if ps = [] then entry k0 root c else None)" if "F (ps @ [c]) = None"
    using s that d by (simp add: slot_ok_def entry_def [of k y])
qed

lemma follow_dir:
  assumes u: "unpacked k0 root N F k" and dis: "dom N \<inter> dom F = {}"
  shows "N ps = Some y \<Longrightarrow> follow k root ps = Some y"
proof (induction ps arbitrary: y rule: rev_induct)
  case Nil
  then show ?case using unpackedD(1) [OF u] by simp
next
  case (snoc c ps)
  obtain z where z: "N ps = Some z" using unpackedD(6) [OF u, of ps c] snoc.prems by auto
  have "F (ps @ [c]) = None" using dis snoc.prems by (cases "F (ps @ [c])") auto
  then have "entry k z c = Some y" using node_entry(2) [OF unpackedD(7) [OF u z]] snoc.prems by simp
  then show ?case using snoc.IH [OF z] by (simp add: follow_snoc)
qed

lemma tree_result:
  assumes t: "tree_is k0 root F k" and c: "conflict_free (dom F)"
  shows tree_file: "F p = Some bs \<Longrightarrow> \<exists>x. follow k root p = Some x \<and> k_inodes k x = RamFile (RamFsFile_new bs)"
    and tree_dir: "p \<in> dom F \<Longrightarrow> strict_prefix q p \<Longrightarrow> q \<noteq> [] \<Longrightarrow>
      \<exists>y d. follow k root q = Some y \<and> k_inodes k y = RamDir d \<and> (\<forall>c. entry k y c \<noteq> None \<longleftrightarrow> (\<exists>p \<in> dom F. prefix (q @ [c]) p))"
    and tree_root: "(\<And>p. p \<in> dom F \<Longrightarrow> hd p \<noteq> e) \<Longrightarrow> entry k root e = entry k0 root e"
    and tree_rest: "r < k_ninodes k0 \<Longrightarrow> r \<noteq> root \<Longrightarrow> k_inodes k r = k_inodes k0 r"
proof -
  obtain N where u: "unpacked k0 root N F k" and N: "dom N = insert [] {q. \<exists>p \<in> dom F. strict_prefix q p}"
    using t by (auto simp: tree_is_def)
  have dis: "dom N \<inter> dom F = {}" using N c unpackedD(2) [OF u] by (auto simp: conflict_free_def)
  note dir = follow_dir [OF u dis]
  show "\<exists>x. follow k root p = Some x \<and> k_inodes k x = RamFile (RamFsFile_new bs)" if f: "F p = Some bs" for p bs
  proof -
    have "p \<noteq> []" using f unpackedD(2) [OF u] by auto
    then obtain qs e where p: "p = qs @ [e]" by (metis rev_exhaust)
    obtain y where y: "N qs = Some y" using unpackedD(6) [OF u, of qs e] f p by auto
    obtain x where "entry k y e = Some x" "k_inodes k x = RamFile (RamFsFile_new bs)"
      using node_entry(1) [OF unpackedD(7) [OF u y]] f p by blast
    then show ?thesis using dir [OF y] by (simp add: p follow_snoc)
  qed
  show "\<exists>y d. follow k root q = Some y \<and> k_inodes k y = RamDir d \<and> (\<forall>c. entry k y c \<noteq> None \<longleftrightarrow> (\<exists>p \<in> dom F. prefix (q @ [c]) p))"
    if q: "p \<in> dom F" "strict_prefix q p" "q \<noteq> []"
  proof -
    obtain y where y: "N q = Some y" using N q by (auto simp: dom_def set_eq_iff)
    obtain d where d: "k_inodes k y = RamDir d" using unpackedD(7) [OF u y] by (auto simp: node_ok_def)
    have "entry k y c \<noteq> None \<longleftrightarrow> (\<exists>p \<in> dom F. prefix (q @ [c]) p)" for c
    proof -
      have "entry k y c \<noteq> None \<longleftrightarrow> q @ [c] \<in> dom N \<union> dom F"
        using node_entry [OF unpackedD(7) [OF u y], of c] q(3) by (cases "F (q @ [c])") (auto split: option.splits)
      also have "\<dots> \<longleftrightarrow> (\<exists>p \<in> dom F. prefix (q @ [c]) p)" using N by (auto simp: strict_prefix_def)
      finally show ?thesis .
    qed
    then show ?thesis using dir [OF y] d by blast
  qed
  show "entry k root e = entry k0 root e" if "\<And>p. p \<in> dom F \<Longrightarrow> hd p \<noteq> e"
  proof -
    have "[e] \<notin> dom N" using N that by (force simp: strict_prefix_def prefix_def)
    moreover have "[e] \<notin> dom F" using that by force
    ultimately have "N ([] @ [e]) = None" "F ([] @ [e]) = None" by (simp_all add: domIff)
    then show ?thesis using node_entry(2) [OF unpackedD(7) [OF u unpackedD(1) [OF u]], of e] by simp
  qed
  show "k_inodes k r = k_inodes k0 r" if "r < k_ninodes k0" "r \<noteq> root" using unpackedD(5) [OF u] that by blast
qed

lemma unpack_archive:
  assumes "list_all entry_ok es" "list_all file_entry es" "conflict_free (dom (archive_files es))"
    "length (tar_body es) + 1024 < 2 ^ 63" "k_inodes k root = RamDir d" "rd_subdirs d = []" "root < k_ninodes k"
  obtains k' where "unpack_tar_archive (tar_body es @ replicate 1024 0) root k = Some (LOk (length es), k')"
    "tree_is k root (archive_files es) k'"
  using install_files [OF tree_is_empty [OF assms(5-7)] assms(2,3)] unpack_packed [OF assms(1,4), of root k] by auto

lemma entry_written: "entry_ok (name, data, is_dir) \<Longrightarrow>
    \<exists>bs. write_tar_entry name data is_dir = Some bs \<and> length bs = 512 + length data + tar_pad (length data)"
  using write_tar_entry_spec [of name data is_dir] by (fastforce simp: entry_ok_def)

lemma tar_body_length:
  "list_all entry_ok es \<Longrightarrow> length (tar_body es) = sum_list (map (\<lambda>(name, data, is_dir). 512 + length data + tar_pad (length data)) es)"
proof (induction es)
  case (Cons e es)
  obtain name data is_dir where e: "e = (name, data, is_dir)" by (cases e) auto
  show ?case using Cons entry_written [of name data is_dir] by (auto simp: e tar_body_Cons)
qed (simp add: tar_body_def)

text \<open>
  C17: Unpacking refines the tree of the archive. An archive of files that the packer writes without conflicting paths is
  unpacked completely: every path of the archive leads to a file with the data packed last for it, in directories that
  contain exactly what the archive lists for them, while the other entries of the root and all other inodes stay as
  they were. So whatever a directory named by the archive contained before is no longer reachable below the root.
\<close>

theorem archive_unpacks:
  assumes "list_all entry_ok es" "list_all file_entry es" "conflict_free (dom (archive_files es))"
    "length (tar_body es) + 1024 < 2 ^ 63" "k_inodes k root = RamDir d" "rd_subdirs d = []" "root < k_ninodes k"
  shows "\<exists>k'. unpack_tar_archive (tar_body es @ replicate 1024 0) root k = Some (LOk (length es), k')
    \<and> (\<forall>p bs. archive_files es p = Some bs \<longrightarrow> (\<exists>x. follow k' root p = Some x \<and> k_inodes k' x = RamFile (RamFsFile_new bs)))
    \<and> (\<forall>p \<in> dom (archive_files es). \<forall>q. strict_prefix q p \<and> q \<noteq> [] \<longrightarrow> (\<exists>y d. follow k' root q = Some y \<and> k_inodes k' y = RamDir d
         \<and> (\<forall>c. entry k' y c \<noteq> None \<longleftrightarrow> (\<exists>p \<in> dom (archive_files es). prefix (q @ [c]) p))))
    \<and> (\<forall>c. (\<forall>p \<in> dom (archive_files es). hd p \<noteq> c) \<longrightarrow> entry k' root c = entry k root c)
    \<and> (\<forall>r < k_ninodes k. r \<noteq> root \<longrightarrow> k_inodes k' r = k_inodes k r)"
proof (rule unpack_archive [OF assms])
  fix k' assume u: "unpack_tar_archive (tar_body es @ replicate 1024 0) root k = Some (LOk (length es), k')"
    and t: "tree_is k root (archive_files es) k'"
  note r = tree_result [OF t assms(3)]
  show ?thesis
  proof (intro exI [of _ k'] conjI allI ballI impI)
    fix p q assume "p \<in> dom (archive_files es)" "strict_prefix q p \<and> q \<noteq> []"
    then show "\<exists>y d. follow k' root q = Some y \<and> k_inodes k' y = RamDir d
         \<and> (\<forall>c. entry k' y c \<noteq> None \<longleftrightarrow> (\<exists>p \<in> dom (archive_files es). prefix (q @ [c]) p))" using r(2) by blast
  next
    fix c assume "\<forall>p \<in> dom (archive_files es). hd p \<noteq> c"
    then show "entry k' root c = entry k root c" using r(3) by blast
  qed (use u r(1,4) in blast)+
qed

definition demo_archive :: "tar_entry list" where
  "demo_archive = [(''bin/init'', [1, 2], False), (''etc/motd'', [3], False), (''bin/init'', [4], False)]"

lemma demo_archive_files:
  "archive_files demo_archive = [[''bin'', ''init''] \<mapsto> [4], [''etc'', ''motd''] \<mapsto> [3]]" "list_all entry_ok demo_archive" "list_all file_entry demo_archive"
proof -
  have c: "comps ''bin/init'' = [''bin'', ''init'']" "comps ''etc/motd'' = [''etc'', ''motd'']" by code_simp+
  show "archive_files demo_archive = [[''bin'', ''init''] \<mapsto> [4], [''etc'', ''motd''] \<mapsto> [3]]"
    by (auto simp: archive_files_def demo_archive_def c fun_eq_iff)
  have "from_utf8_ok (str_bytes ''bin/init'')" "from_utf8_ok (str_bytes ''etc/motd'')" by code_simp+
  then show "list_all entry_ok demo_archive" by (simp add: demo_archive_def entry_ok_def)
  have "trim_slashes ''bin/init'' \<noteq> []" "trim_slashes ''etc/motd'' \<noteq> []" by code_simp+
  then show "list_all file_entry demo_archive" by (simp add: demo_archive_def file_entry_def SLASH_def)
qed

theorem archive_unpacks_witness:
  "\<exists>k' x. unpack_tar_archive (tar_body demo_archive @ replicate 1024 0) 0 demo_fs = Some (LOk 3, k')
    \<and> follow k' 0 [''bin'', ''init''] = Some x \<and> k_inodes k' x = RamFile (RamFsFile_new [4])"
proof -
  have cf: "conflict_free (dom (archive_files demo_archive))"
    by (auto simp: demo_archive_files(1) conflict_free_def strict_prefix_def)
  have len: "length (tar_body demo_archive) + 1024 < 2 ^ 63" "length demo_archive = 3"
    by (simp_all add: tar_body_length demo_archive_files(2)) (simp_all add: demo_archive_def tar_pad_def)
  have "rd_subdirs demo_root = []" by (simp add: demo_root_def add_child_def RamFsDir_new_def RamFsDir_new_with_creds_def)
  moreover have "0 < k_ninodes demo_fs" by (simp add: demo_fs_simps)
  ultimately obtain k' where "unpack_tar_archive (tar_body demo_archive @ replicate 1024 0) 0 demo_fs = Some (LOk 3, k')"
    and "\<forall>p bs. archive_files demo_archive p = Some bs \<longrightarrow> (\<exists>x. follow k' 0 p = Some x \<and> k_inodes k' x = RamFile (RamFsFile_new bs))"
    using archive_unpacks [OF demo_archive_files(2,3) cf len(1) demo_fs_simps(1)] unfolding len(2) by blast
  moreover have "archive_files demo_archive [''bin'', ''init''] = Some [4]" by (simp add: demo_archive_files(1))
  ultimately show ?thesis by blast
qed

end
