(* ===== verification/Boot.thy ===== *)
theory Boot
  imports Initramfs Exec Posix_Process
begin

text \<open>
  The start of the services (\<^verbatim>\<open>services/mod.rs\<close>): the first file system, the boot modules, the first
  process and the idle task.
\<close>

subsection \<open>The first file system\<close>

text \<open>\<open>dir.add_child(name, inode)\<close> on a shared inode and on a new one.\<close>

definition link_child :: "nat \<Rightarrow> string \<Rightarrow> nat \<Rightarrow> kernel \<Rightarrow> kernel" where
  "link_child dir name inode k = set_inode dir (RamDir (add_child name inode (the_dir k dir))) k"

definition new_child :: "nat \<Rightarrow> string \<Rightarrow> Inode \<Rightarrow> kernel \<Rightarrow> kernel" where
  "new_child dir name i k = (let (inode, k) = inode_alloc i k in link_child dir name inode k)"

definition os_release :: bytes where
  "os_release = str_bytes (''NAME='' @ [CHR 0x22] @ ''RustPOSIX'' @ [CHR 0x22] @ NL @ ''VERSION='' @ [CHR 0x22] @ ''1.0.0'' @ [CHR 0x22] @ NL @
     ''ID=rustposix'' @ NL @ ''PRETTY_NAME='' @ [CHR 0x22] @ ''Rust POSIX OS'' @ [CHR 0x22] @ NL)"

definition motd :: bytes where
  "motd = str_bytes (''Welcome to Rust POSIX OS (Framekernel Model)'' @ NL @
     ''Status: VFS, fork, preemptive scheduler, signals active.'' @ NL @ ''Next: userland networking / SMP.'' @ NL @
     ''Type '' @ [CHR 0x27] @ ''help'' @ [CHR 0x27] @ '' for available commands.'' @ NL @ NL)"

text \<open>The root directory, the console device and the state after the creation of the tree.\<close>

definition boot_tree :: "kernel \<Rightarrow> nat \<times> nat \<times> kernel" where
  "boot_tree k =
    (let (root_dir, k) = inode_alloc (RamDir RamFsDir_new) k;
         (dev_dir, k) = inode_alloc (RamDir RamFsDir_new) k;
         (proc_dir, k) = inode_alloc (RamDir RamFsDir_new) k;
         (tmp_dir, k) = inode_alloc (RamDir RamFsDir_new) k;
         (bin_dir, k) = inode_alloc (RamDir RamFsDir_new) k;
         (etc_dir, k) = inode_alloc (RamDir RamFsDir_new) k;
         k = new_child dev_dir ''null'' DevNull k;
         k = new_child dev_dir ''zero'' DevZero k;
         (console, k) = inode_alloc DevConsole k;
         k = link_child dev_dir ''console'' console k;
         k = link_child dev_dir ''tty'' console k;
         k = new_child proc_dir ''meminfo'' (ProcDynamicFile Meminfo) k;
         k = new_child proc_dir ''stat'' (ProcDynamicFile StatKind) k;
         k = new_child proc_dir ''uptime'' (ProcDynamicFile Uptime) k;
         k = new_child proc_dir ''processes'' (ProcDynamicFile Processes) k;
         k = new_child proc_dir ''audit_journal'' (ProcDynamicFile AuditJournalKind) k;
         k = new_child proc_dir ''snapshots'' (ProcDynamicFile AuditSnapshots) k;
         k = new_child etc_dir ''os-release'' (RamFile (RamFsFile_new os_release)) k;
         k = new_child etc_dir ''motd'' (RamFile (RamFsFile_new motd)) k;
         k = link_child root_dir ''dev'' dev_dir k;
         k = link_child root_dir ''proc'' proc_dir k;
         k = link_child root_dir ''tmp'' tmp_dir k;
         k = link_child root_dir ''bin'' bin_dir k;
         k = link_child root_dir ''etc'' etc_dir k
     in (root_dir, console, k))"

text \<open>The boot modules; an archive that cannot be unpacked is only reported.\<close>

fun unpack_blobs :: "nat \<Rightarrow> bytes list \<Rightarrow> kernel \<Rightarrow> kernel option" where
  "unpack_blobs root_dir [] k = Some k"
| "unpack_blobs root_dir (blob # blobs) k =
    (case unpack_tar_archive blob root_dir k of
       None \<Rightarrow> None
     | Some (LPanic, k) \<Rightarrow> None
     | Some (_, k) \<Rightarrow> unpack_blobs root_dir blobs k)"

subsection \<open>The first process and the idle task\<close>

text \<open>
  The process is built in place: \<open>Arc::new\<close> only moves it. Its program is a file of the in-memory file
  system, so reading it does not wait. A failure of \<open>exec\<close> is only reported.
\<close>

definition start_init :: "nat \<Rightarrow> usize \<Rightarrow> usize \<Rightarrow> kernel \<Rightarrow> kernel option" where
  "start_init console stack_ptr rsp k =
    (let (stdin_h, k) = handle_alloc (FileHandle_new console O_RDWR) k;
         (stdout_h, k) = handle_alloc (FileHandle_new console O_RDWR) k;
         (stderr_h, k) = handle_alloc (FileHandle_new console O_RDWR) k;
         (init_arc, k) = proc_alloc ((Process_new stack_ptr 1 0 ''/'')\<lparr> p_fds := [Some stdin_h, Some stdout_h, Some stderr_h] \<rparr>) k
     in case Process_exec init_arc ''/bin/init'' [''/bin/init''] [] rsp k of
          Done Panic k \<Rightarrow> None
        | Sleep k \<Rightarrow> None
        | Again k \<Rightarrow> None
        | Done _ k \<Rightarrow>
           (case table_insert 1 init_arc (proc_clone init_arc k) of
              None \<Rightarrow> None
            | Some k \<Rightarrow> set_current_process init_arc k))"

definition start_idle :: "usize \<Rightarrow> usize \<Rightarrow> kernel \<Rightarrow> kernel option" where
  "start_idle stack_ptr kernel_idle_loop k =
    (let idle_proc = Process_new stack_ptr 0 0 ''/'' in
     case init_kernel_task_stack (p_kernel_stack idle_proc) kernel_idle_loop of
       None \<Rightarrow> None
     | Some (st, idle_rsp) \<Rightarrow>
        let (idle_arc, k) = proc_alloc (idle_proc\<lparr> p_kernel_stack := st, p_saved_kernel_rsp := idle_rsp \<rparr>) k
        in case table_insert 0 idle_arc (proc_clone idle_arc k) of
             None \<Rightarrow> None
           | Some k \<Rightarrow> set_idle_task idle_arc k)"

definition services_init :: "bytes list \<Rightarrow> usize \<Rightarrow> usize \<Rightarrow> usize \<Rightarrow> usize \<Rightarrow> kernel \<Rightarrow> kernel option" where
  "services_init blobs init_stack idle_stack kernel_idle_loop rsp k =
    (let (root_dir, console, k) = boot_tree k in
     case unpack_blobs root_dir blobs k of
       None \<Rightarrow> None
     | Some k \<Rightarrow>
    (case start_init console init_stack rsp (vfs_init root_dir k) of
       None \<Rightarrow> None
     | Some k \<Rightarrow> map_option audit_init (start_idle idle_stack kernel_idle_loop k)))"

subsection \<open>The tree before unpacking\<close>

text \<open>The children of the root, of \<^verbatim>\<open>/dev\<close> and of \<^verbatim>\<open>/etc\<close> in the state after the creation of the tree.\<close>

definition st :: "kernel \<Rightarrow> (nat \<Rightarrow> Inode) \<Rightarrow> nat \<Rightarrow> kernel" where
  "st k I n = k\<lparr> k_inodes := I, k_ninodes := n \<rparr>"

lemma st_steps:
  "inode_alloc i (st k I n) = (n, st k (I(n := i)) (Suc n))"
  "I dir = RamDir d \<Longrightarrow> link_child dir name r (st k I n) = st k (I(dir := RamDir (add_child name r d))) n"
  "I dir = RamDir d \<Longrightarrow> dir \<noteq> n \<Longrightarrow> new_child dir name i (st k I n) = st k (I(n := i, dir := RamDir (add_child name n d))) (Suc n)"
  by (simp_all add: st_def inode_alloc_def new_child_def link_child_def set_inode_def the_dir_def)

lemma st_get [simp]: "k_inodes (st k I n) = I" "k_ninodes (st k I n) = n"
  by (simp_all add: st_def)

lemma boot_tree_result:
  assumes "k_ninodes k = 0"
  obtains k' where "boot_tree k = (0, 8, k')" "\<exists>I. k' = st k I 17"
    "k_inodes k' 0 = RamDir (add_child ''etc'' 5 (add_child ''bin'' 4 (add_child ''tmp'' 3 (add_child ''proc'' 2 (add_child ''dev'' 1 RamFsDir_new)))))"
    "k_inodes k' 1 = RamDir (add_child ''tty'' 8 (add_child ''console'' 8 (add_child ''zero'' 7 (add_child ''null'' 6 RamFsDir_new))))"
    "k_inodes k' 5 = RamDir (add_child ''motd'' 16 (add_child ''os-release'' 15 RamFsDir_new))"
    "k_inodes k' 8 = DevConsole" "k_inodes k' 15 = RamFile (RamFsFile_new os_release)"
proof -
  have k: "k = st k (k_inodes k) 0" using assms by (simp add: st_def)
  define x where "x = boot_tree (st k (k_inodes k) 0)"
  note eval = x_def boot_tree_def st_steps Let_def
  have "fst x = 0 \<and> fst (snd x) = 8 \<and> (\<exists>I. snd (snd x) = st k I (k_ninodes (snd (snd x)))) \<and> k_ninodes (snd (snd x)) = 17
    \<and> k_inodes (snd (snd x)) 0 = RamDir (add_child ''etc'' 5 (add_child ''bin'' 4 (add_child ''tmp'' 3 (add_child ''proc'' 2 (add_child ''dev'' 1 RamFsDir_new)))))
    \<and> k_inodes (snd (snd x)) 1 = RamDir (add_child ''tty'' 8 (add_child ''console'' 8 (add_child ''zero'' 7 (add_child ''null'' 6 RamFsDir_new))))
    \<and> k_inodes (snd (snd x)) 5 = RamDir (add_child ''motd'' 16 (add_child ''os-release'' 15 RamFsDir_new))
    \<and> k_inodes (snd (snd x)) 8 = DevConsole \<and> k_inodes (snd (snd x)) 15 = RamFile (RamFsFile_new os_release)"
    by (simp add: eval eval_nat_numeral cong: let_weak_cong) blast
  moreover have "boot_tree k = x" unfolding x_def using k by metis
  ultimately show ?thesis using that [of "snd (snd x)"] by (metis prod.collapse)
qed

text \<open>Unpacking touches only the inodes.\<close>

definition only_inodes :: "kernel \<Rightarrow> kernel \<Rightarrow> bool" where
  "only_inodes k k' \<longleftrightarrow> (\<exists>I n. k' = st k I n)"

lemma st_st [simp]: "st (st k I n) J m = st k J m"
  by (simp add: st_def)

lemma only_inodesI: "only_inodes k (k\<lparr> k_inodes := I, k_ninodes := n \<rparr>)" "only_inodes k (k\<lparr> k_inodes := I \<rparr>)" "only_inodes k k"
  "only_inodes k (k\<lparr> k_ninodes := n, k_inodes := I \<rparr>)"
proof -
  show st: "only_inodes k (k\<lparr> k_inodes := I, k_ninodes := n \<rparr>)" unfolding only_inodes_def st_def by blast
  have "k\<lparr> k_inodes := I \<rparr> = st k I (k_ninodes k)" "k = st k (k_inodes k) (k_ninodes k)" "k\<lparr> k_ninodes := n, k_inodes := I \<rparr> = st k I n"
    by (simp_all add: st_def)
  then show "only_inodes k (k\<lparr> k_inodes := I \<rparr>)" "only_inodes k k" "only_inodes k (k\<lparr> k_ninodes := n, k_inodes := I \<rparr>)" unfolding only_inodes_def by blast+
qed

lemma only_inodes_trans: "only_inodes k k1 \<Longrightarrow> only_inodes k1 k2 \<Longrightarrow> only_inodes k k2"
  unfolding only_inodes_def by (metis st_st)

lemma get_or_create_only: "only_inodes k (snd (get_or_create_subdir y c k))"
  by (auto simp: get_or_create_subdir_def inode_alloc_def set_inode_def Let_def intro: only_inodesI split: option.split)

lemma unpack_components_only: "only_inodes k (snd (unpack_components is_dir bs y cs k))"
proof (induction is_dir bs y cs k rule: unpack_components.induct)
  case (2 is_dir bs y c cs k)
  obtain z k1 where g: "get_or_create_subdir y c k = (z, k1)" by fastforce
  show ?case
  proof (cases "cs = [] \<and> \<not> is_dir")
    case True
    then show ?thesis by (simp add: inode_alloc_def set_inode_def only_inodesI)
  next
    case False
    have "only_inodes k1 (snd (unpack_components is_dir bs z cs k1))" using 2 False g by simp
    moreover have "only_inodes k k1" using get_or_create_only [of k y c] g by simp
    ultimately have "only_inodes k (snd (unpack_components is_dir bs z cs k1))" by (rule only_inodes_trans [rotated])
    then show ?thesis using False g by auto
  qed
qed (simp add: only_inodesI)

lemma unpack_entry_only: "only_inodes k (snd (unpack_entry root path flag bs k))"
  by (simp add: unpack_entry_def Let_def unpack_components_only only_inodesI)

lemma install_only: "only_inodes (snd x) (snd (install root e x))"
proof -
  obtain n k name data is_dir where x: "x = (n, k)" "e = (name, data, is_dir)" by (metis surj_pair)
  show ?thesis using unpack_entry_only [of k root name "if is_dir then 0x35 else 0x30" data]
    by (simp only: x install_def prod.case snd_conv Let_def split: prod.split) auto
qed

lemma installs_only: "only_inodes (snd x) (snd (fold (install root) es x))"
proof (induction es arbitrary: x)
  case (Cons e es)
  show ?case using only_inodes_trans [OF install_only Cons.IH] by simp
qed (simp add: only_inodesI)

subsection \<open>The archive of the build\<close>

definition initramfs_entries :: "bytes \<Rightarrow> bytes \<Rightarrow> bytes \<Rightarrow> tar_entry list" where
  "initramfs_entries init shell coreutils =
    [(''bin/init'', init, False), (''bin/sh'', shell, False), (''bin/coreutils'', coreutils, False), (''etc/motd'', initramfs_motd, False)]"

lemma initramfs_comps:
  "comps ''bin/init'' = [''bin'', ''init'']" "comps ''bin/sh'' = [''bin'', ''sh'']" "comps ''bin/coreutils'' = [''bin'', ''coreutils'']"
  "comps ''etc/motd'' = [''etc'', ''motd'']"
  by code_simp+

lemma initramfs_names:
  "list_all (\<lambda>name. from_utf8_ok (str_bytes name) \<and> trim_slashes name \<noteq> []) [''bin/init'', ''bin/sh'', ''bin/coreutils'', ''etc/motd'']"
  by code_simp

lemma initramfs_motd_length: "length initramfs_motd = 61"
  by (simp add: initramfs_motd_def str_bytes_literals NL_def)

lemma initramfs_entries_ok:
  assumes "length init < 8 ^ 11" "length shell < 8 ^ 11" "length coreutils < 8 ^ 11"
  shows "list_all entry_ok (initramfs_entries init shell coreutils)" "list_all file_entry (initramfs_entries init shell coreutils)"
  using initramfs_names assms
  by (simp_all add: initramfs_entries_def entry_ok_def file_entry_def SLASH_def initramfs_motd_length)

lemma create_initramfs_entries:
  assumes "length init < 8 ^ 11" "length shell < 8 ^ 11" "length coreutils < 8 ^ 11"
  shows "create_initramfs (Some init) (Some shell) (Some coreutils) = Some (tar_body (initramfs_entries init shell coreutils) @ replicate 1024 0)"
proof -
  have w: "\<exists>bs. write_tar_entry name data is_dir = Some bs" if "(name, data, is_dir) \<in> set (initramfs_entries init shell coreutils)" for name data is_dir
    using initramfs_entries_ok(1) [OF assms] that entry_written [of name data is_dir] by (auto simp: list_all_iff)
  have z: "replicate 512 (0 :: u8) @ replicate 512 0 = replicate 1024 0" by (simp add: replicate_add [symmetric])
  obtain a b c d where "write_tar_entry ''bin/init'' init False = Some a" "write_tar_entry ''bin/sh'' shell False = Some b"
    "write_tar_entry ''bin/coreutils'' coreutils False = Some c" "write_tar_entry ''etc/motd'' initramfs_motd False = Some d"
    using w by (fastforce simp: initramfs_entries_def)
  then show ?thesis by (simp add: create_initramfs_def pack_bin_def tar_body_def initramfs_entries_def z)
qed

lemma initramfs_files:
  "archive_files (initramfs_entries init shell coreutils) =
    [[''bin'', ''init''] \<mapsto> init, [''bin'', ''sh''] \<mapsto> shell, [''bin'', ''coreutils''] \<mapsto> coreutils, [''etc'', ''motd''] \<mapsto> initramfs_motd]"
  by (auto simp: archive_files_def initramfs_entries_def initramfs_comps fun_eq_iff)

lemma initramfs_conflict_free: "conflict_free (dom (archive_files (initramfs_entries init shell coreutils)))"
  by (auto simp: initramfs_files conflict_free_def strict_prefix_def)

lemma initramfs_length:
  assumes "length init < 8 ^ 11" "length shell < 8 ^ 11" "length coreutils < 8 ^ 11"
  shows "length (tar_body (initramfs_entries init shell coreutils)) + 1024 < 2 ^ 63"
proof -
  have pad: "tar_pad n \<le> 511" for n by (simp add: tar_pad_def)
  have p: "512 + length bs + tar_pad (length bs) < 2 ^ 35" if "length bs < 8 ^ 11" for bs :: bytes
    using that pad [of "length bs"] by simp
  show ?thesis
    using p [OF assms(1)] p [OF assms(2)] p [OF assms(3)] p [of initramfs_motd] tar_body_length [OF initramfs_entries_ok(1) [OF assms]]
    by (simp add: initramfs_entries_def initramfs_motd_length)
qed

subsection \<open>The first program\<close>

lemma first_exec:
  assumes p: "p_vm_space (k_procs k r) = None" "p_cwd (k_procs k r) = cwd"
    and ks: "TRAP_FRAME_SIZE \<le> length (ks_bytes (p_kernel_stack (k_procs k r)))"
    and ino: "resolve_path cwd path k = Ok i" "k_inodes k i = RamFile f"
    and mm: "pt_inv R (k_mm k)" "pt_user R (k_mm k)" "PAGE_SIZE dvd k_cr3 k" "k_cr3 k \<notin> pool (k_mm k)"
    and elf: "elf_ok (rf_data f)" "frame_fits argv envp" "4 * all_pages (elf_segments (rf_data f)) + 129 \<le> card (pool (k_mm k))"
  obtains new s loaded krs krsp where
    "Process_exec r path argv envp rsp k = Done (Ok ())
       ((upd_proc r (\<lambda>p. exec_process p (RamFsFile_stat f) loaded new krs krsp) k)\<lparr> k_cr3 := address_space new, k_mm := s \<rparr>)"
    "le_entry_point loaded = unat (e_entry (Elf64Header_of (rf_data f)))" "frame_at krs krsp = user_frame loaded"
    "address_space new \<in> pool (k_mm k)" "vm_ok (insert (address_space new) R) new s"
    "\<And>x. x < stack_bottom \<Longrightarrow> view (address_space new) s x = elf_image (rf_data f) (elf_segments (rf_data f)) x"
proof -
  let ?st = "RamFsFile_stat f" and ?elf = "rf_data f"
  have len: "length ?elf < USIZE_LIMIT" "0 < length ?elf" using elf(1) by (auto simp: elf_ok_def)
  then have sz: "usize_of_i64 (st_size ?st) = length ?elf" by (simp add: usize_of_i64_def RamFsFile_stat_def USIZE_LIMIT_def)
  have rd: "inode_read_with_flags i 0 (length ?elf) 0 0 rsp k = Done (Ok ?elf) k"
    using len ino(2) by (simp add: inode_read_with_flags_def RamFsFile_read_def Let_def)
  have st: "inode_stat i k = (Ok ?st, k)" using ino(2) by (simp add: inode_stat_def)
  show ?thesis
  proof (rule load_program_spec [OF mm elf])
    fix n s1 sp new s2 assume vn: "VmSpace_new (k_cr3 k) (k_mm k) = (Some n, s1)"
      and ld: "load_elf ?elf n argv envp s1 = (LOk \<lparr> le_entry_point = unat (e_entry (Elf64Header_of ?elf)), le_user_stack_top = sp \<rparr>, new, s2)"
      and L: "address_space new \<in> pool (k_mm k)" "vm_ok (insert (address_space new) R) new s2"
        "\<And>x. x < stack_bottom \<Longrightarrow> view (address_space new) s2 x = elf_image ?elf (elf_segments ?elf) x"
    let ?l = "\<lparr> le_entry_point = unat (e_entry (Elf64Header_of ?elf)), le_user_stack_top = sp \<rparr>"
    obtain krs krsp where ap: "apply_exec (k_procs k r) ?l new (st_mode ?st) (st_uid ?st) (st_gid ?st)
        = Some (exec_process (k_procs k r) ?st ?l new krs krsp, None)" and fa: "frame_at krs krsp = user_frame ?l"
      using apply_exec_spec [OF ks] unfolding p(1) by blast
    have "exec_load r argv envp ?st ?elf k
        = (Ok (), (upd_proc r (\<lambda>p. exec_process p ?st ?l new krs krsp) k)\<lparr> k_cr3 := address_space new, k_mm := s2 \<rparr>)"
      using vn ld ap by (simp add: exec_load_def exec_commit_def upd_proc_def)
    then have "Process_exec r path argv envp rsp k = Done (Ok ())
        ((upd_proc r (\<lambda>p. exec_process p ?st ?l new krs krsp) k)\<lparr> k_cr3 := address_space new, k_mm := s2 \<rparr>)"
      using ino(1) p(2) by (simp add: Process_exec_def st sz rd exec_read_def)
    from that [OF this _ fa L] show ?thesis by simp
  qed
qed

subsection \<open>After the boot\<close>

lemma audit_init_keeps [simp]:
  "k_mm (audit_init k) = k_mm k" "k_cr3 (audit_init k) = k_cr3 k" "k_procs (audit_init k) = k_procs k" "k_nprocs (audit_init k) = k_nprocs k"
  "k_proc_rc (audit_init k) = k_proc_rc k" "k_table (audit_init k) = k_table k" "k_next_pid (audit_init k) = k_next_pid k"
  "k_queue (audit_init k) = k_queue k" "k_current (audit_init k) = k_current k" "k_idle (audit_init k) = k_idle k"
  "k_current_pid (audit_init k) = k_current_pid k"
  "k_inodes (audit_init k) = k_inodes k" "k_root (audit_init k) = k_root k" "k_handles (audit_init k) = k_handles k"
  by (simp_all add: audit_init_def create_audit_snapshot_def create_audit_snapshot_with_creds_def log_audit_event_def Let_def split: prod.split)

text \<open>The process that \<open>start_init\<close> builds, and the state in which it runs \<open>exec\<close>.\<close>

definition init_proc :: "usize \<Rightarrow> Process" where
  "init_proc stack_ptr = (Process_new stack_ptr 1 0 ''/'')\<lparr> p_fds := [Some 0, Some 1, Some 2] \<rparr>"

definition pre_exec :: "usize \<Rightarrow> mmu \<Rightarrow> usize \<Rightarrow> (nat \<Rightarrow> Inode) \<Rightarrow> nat \<Rightarrow> kernel" where
  "pre_exec stack_ptr s c I n = ((st ((kernel0 s)\<lparr> k_cr3 := c \<rparr>) I n)\<lparr> k_root := Some 0 \<rparr>)\<lparr>
     k_handles := (k_handles (kernel0 s))(0 := FileHandle_new 8 O_RDWR, 1 := FileHandle_new 8 O_RDWR, 2 := FileHandle_new 8 O_RDWR),
     k_handle_rc := (k_handle_rc (kernel0 s))(0 := 1, 1 := 1, 2 := 1), k_nhandles := 3,
     k_procs := (k_procs (kernel0 s))(0 := init_proc stack_ptr), k_proc_rc := (k_proc_rc (kernel0 s))(0 := 1), k_nprocs := 1 \<rparr>"

lemma start_init_eq:
  assumes "Process_exec 0 ''/bin/init'' [''/bin/init''] [] rsp (pre_exec stack_ptr s c I n) = Done (Ok ()) k'"
    "k_table k' = []" "k_current k' = None"
  shows "start_init 8 stack_ptr rsp (vfs_init 0 (st ((kernel0 s)\<lparr> k_cr3 := c \<rparr>) I n))
    = Some (k'\<lparr> k_proc_rc := (k_proc_rc k')(0 := Suc (k_proc_rc k' 0)), k_table := [(1, 0)], k_current := Some 0 \<rparr>)"
proof -
  have "(let (stdin_h, k) = handle_alloc (FileHandle_new 8 O_RDWR) (vfs_init 0 (st ((kernel0 s)\<lparr> k_cr3 := c \<rparr>) I n));
         (stdout_h, k) = handle_alloc (FileHandle_new 8 O_RDWR) k;
         (stderr_h, k) = handle_alloc (FileHandle_new 8 O_RDWR) k
     in proc_alloc ((Process_new stack_ptr 1 0 ''/'')\<lparr> p_fds := [Some stdin_h, Some stdout_h, Some stderr_h] \<rparr>) k)
     = (0, pre_exec stack_ptr s c I n)"
    by (simp add: handle_alloc_def proc_alloc_def vfs_init_def pre_exec_def st_def kernel0_def init_proc_def numeral_2_eq_2 numeral_3_eq_3)
  then show ?thesis using assms
    by (simp add: start_init_def Let_def table_insert_def proc_clone_def set_current_process_def split: prod.splits)
qed

subsection \<open>The file system after the boot\<close>

lemma follow_cong: "k_inodes k = k_inodes k' \<Longrightarrow> follow k r cs = follow k' r cs"
  by (induction k r cs rule: follow.induct) (simp_all add: entry_def split: option.split)

lemma resolve_follow:
  "k_root k = Some root \<Longrightarrow> path_parts (normalize_path cwd path) = ps \<Longrightarrow> follow k root ps = Some i \<Longrightarrow> resolve_path cwd path k = Ok i"
  using resolve_path_walk walk_follow by metis

lemma boot_paths:
  "path_parts (normalize_path ''/'' ''/bin/init'') = [''bin'', ''init'']" "path_parts (normalize_path ''/'' ''/bin/sh'') = [''bin'', ''sh'']"
  "path_parts (normalize_path ''/'' ''/bin/coreutils'') = [''bin'', ''coreutils'']" "path_parts (normalize_path ''/'' ''/etc/motd'') = [''etc'', ''motd'']"
  "path_parts (normalize_path ''/'' ''/dev/console'') = [''dev'', ''console'']" "path_parts (normalize_path ''/'' ''/etc/os-release'') = [''etc'', ''os-release'']"
  by code_simp+

definition has_file :: "kernel \<Rightarrow> string \<Rightarrow> bytes \<Rightarrow> bool" where
  "has_file k path bs \<longleftrightarrow> (\<exists>x. resolve_path ''/'' path k = Ok x \<and> k_inodes k x = RamFile (RamFsFile_new bs))"

lemma initramfs_tree:
  assumes t: "tree_is kb 0 (archive_files (initramfs_entries init shell coreutils)) k1"
    and k: "k_root k = Some 0" "k_inodes k = k_inodes k1"
    and kb: "entry kb 0 ''dev'' = Some 1" "entry kb 1 ''console'' = Some 8" "k_inodes kb 8 = DevConsole" "k_ninodes kb = 17"
  shows "has_file k ''/bin/init'' init" "has_file k ''/bin/sh'' shell" "has_file k ''/bin/coreutils'' coreutils"
    "has_file k ''/etc/motd'' initramfs_motd" "resolve_path ''/'' ''/dev/console'' k = Ok 8" "k_inodes k 8 = DevConsole"
    "resolve_path ''/'' ''/etc/os-release'' k = Err ENOENT"
proof -
  let ?F = "archive_files (initramfs_entries init shell coreutils)"
  note r = tree_result [OF t initramfs_conflict_free]
  have fl: "has_file k path bs" if p: "path_parts (normalize_path ''/'' path) = ps" "?F ps = Some bs" for path ps bs
  proof -
    obtain x where x: "follow k1 0 ps = Some x" "k_inodes k1 x = RamFile (RamFsFile_new bs)" using r(1) [OF p(2)] by blast
    then have "resolve_path ''/'' path k = Ok x" using follow_cong [OF k(2)] by (intro resolve_follow [OF k(1) p(1)]) simp
    then show ?thesis using x(2) k(2) by (auto simp: has_file_def)
  qed
  show "has_file k ''/bin/init'' init" "has_file k ''/bin/sh'' shell" "has_file k ''/bin/coreutils'' coreutils"
    "has_file k ''/etc/motd'' initramfs_motd"
    by (rule fl [OF boot_paths(1)] fl [OF boot_paths(2)] fl [OF boot_paths(3)] fl [OF boot_paths(4)]; simp add: initramfs_files)+
  have old: "k_inodes k1 y = k_inodes kb y" if "y < 17" "y \<noteq> 0" for y using r(4) [of y] that kb(4) by simp
  show c: "k_inodes k 8 = DevConsole" using old [of 8] kb(3) k(2) by simp
  have "entry k1 0 ''dev'' = entry kb 0 ''dev''" by (rule r(3)) (auto simp: initramfs_files)
  then have "entry k1 0 ''dev'' = Some 1" using kb(1) by simp
  moreover have "entry k1 1 ''console'' = Some 8" using old [of 1] kb(2) by (simp add: entry_def)
  ultimately have "follow k 0 [''dev'', ''console''] = Some 8" unfolding follow_cong [OF k(2)] by simp
  then show "resolve_path ''/'' ''/dev/console'' k = Ok 8" by (rule resolve_follow [OF k(1) boot_paths(5)])
  have "strict_prefix [''etc''] [''etc'', ''motd'']" "[''etc'', ''motd''] \<in> dom ?F" by (auto simp: strict_prefix_def initramfs_files)
  from r(2) [OF this(2,1)] obtain y d where y: "follow k1 0 [''etc''] = Some y" "k_inodes k1 y = RamDir d"
    and e: "\<forall>c. entry k1 y c \<noteq> None \<longleftrightarrow> (\<exists>p \<in> dom ?F. prefix ([''etc''] @ [c]) p)" by auto
  have "entry k1 y ''os-release'' = None" using e [THEN spec, of "''os-release''"] by (simp add: initramfs_files)
  then have n: "entry k y ''os-release'' = None" using k(2) by (simp add: entry_def)
  have "walk 0 [''etc''] k = Ok y" using y(1) follow_cong [OF k(2)] walk_follow by metis
  then have "walk 0 ([''etc''] @ [''os-release'']) k = Err ENOENT" using n y(2) k(2) by (simp only: walk_append) (simp add: inode_lookup_entry)
  then show "resolve_path ''/'' ''/etc/os-release'' k = Err ENOENT"
    using resolve_path_walk [OF k(1), of "''/''" "''/etc/os-release''"] boot_paths(6) by simp
qed

lemma add_child_get [simp]: "bt_get (rd_entries (add_child name i d)) c = (if c = name then Some i else bt_get (rd_entries d) c)"
    "rd_subdirs (add_child name i d) = rd_subdirs d"
  by (simp_all add: add_child_def)

lemma new_dir_get [simp]: "rd_subdirs RamFsDir_new = []"
  by (simp add: RamFsDir_new_def RamFsDir_new_with_creds_def)

lemma boot_unpack:
  assumes sizes: "length init < 8 ^ 11" "length shell < 8 ^ 11" "length coreutils < 8 ^ 11" and k: "k_ninodes k = 0"
  obtains tar kb I n where "create_initramfs (Some init) (Some shell) (Some coreutils) = Some tar"
    "boot_tree k = (0, 8, kb)" "unpack_blobs 0 [tar] kb = Some (st k I n)"
    "\<And>k'. k_root k' = Some 0 \<Longrightarrow> k_inodes k' = I \<Longrightarrow>
      has_file k' ''/bin/init'' init \<and> has_file k' ''/bin/sh'' shell \<and> has_file k' ''/bin/coreutils'' coreutils
      \<and> has_file k' ''/etc/motd'' initramfs_motd \<and> resolve_path ''/'' ''/dev/console'' k' = Ok 8 \<and> k_inodes k' 8 = DevConsole
      \<and> resolve_path ''/'' ''/etc/os-release'' k' = Err ENOENT"
proof (rule boot_tree_result [OF k])
  let ?es = "initramfs_entries init shell coreutils"
  fix kb assume b: "boot_tree k = (0, 8, kb)" "\<exists>I. kb = st k I 17"
    and d: "k_inodes kb 0 = RamDir (add_child ''etc'' 5 (add_child ''bin'' 4 (add_child ''tmp'' 3 (add_child ''proc'' 2 (add_child ''dev'' 1 RamFsDir_new)))))"
      "k_inodes kb 1 = RamDir (add_child ''tty'' 8 (add_child ''console'' 8 (add_child ''zero'' 7 (add_child ''null'' 6 RamFsDir_new))))"
      "k_inodes kb 8 = DevConsole"
  note es = initramfs_entries_ok [OF sizes] and len = initramfs_length [OF sizes]
  have nb: "k_ninodes kb = 17" using b(2) by auto
  have t0: "tree_is kb 0 Map.empty kb" by (rule tree_is_empty [OF d(1)]) (simp_all add: nb)
  obtain k1 where k1: "fold (install 0) ?es (0, kb) = (length ?es, k1)" "tree_is kb 0 (archive_files ?es) k1"
    using install_files [OF t0 es(2) initramfs_conflict_free] by blast
  have u: "unpack_tar_archive (tar_body ?es @ replicate 1024 0) 0 kb = Some (LOk (length ?es), k1)"
    using unpack_packed [OF es(1) len, of 0 kb] k1(1) by simp
  have "only_inodes kb k1" using installs_only [of "(0, kb)" 0 ?es] k1(1) by simp
  then obtain I n where st: "k1 = st k I n" using b(2) by (auto simp: only_inodes_def)
  have e: "entry kb 0 ''dev'' = Some 1" "entry kb 1 ''console'' = Some 8" using d by (simp_all add: entry_def)
  show ?thesis
  proof (rule that [OF create_initramfs_entries [OF sizes] b(1)])
    show "unpack_blobs 0 [tar_body ?es @ replicate 1024 0] kb = Some (st k I n)" using u st by simp
    fix k' :: kernel assume k': "k_root k' = Some 0" "k_inodes k' = I"
    then have "k_inodes k' = k_inodes k1" using st by simp
    from initramfs_tree [OF k1(2) k'(1) this e d(3) nb]
    show "has_file k' ''/bin/init'' init \<and> has_file k' ''/bin/sh'' shell \<and> has_file k' ''/bin/coreutils'' coreutils
      \<and> has_file k' ''/etc/motd'' initramfs_motd \<and> resolve_path ''/'' ''/dev/console'' k' = Ok 8 \<and> k_inodes k' 8 = DevConsole
      \<and> resolve_path ''/'' ''/etc/os-release'' k' = Err ENOENT" by simp
  qed
qed

subsection \<open>The boot succeeds\<close>

definition idle_frame :: "usize \<Rightarrow> usize \<Rightarrow> TrapFrame" where
  "idle_frame stack_ptr entry_point = zero_frame\<lparr> tf_rip := of_nat entry_point, tf_cs := KERNEL_CODE_SEL, tf_rflags := 0x202,
     tf_rsp := of_nat (stack_ptr + KERNEL_STACK_SIZE), tf_ss := KERNEL_DATA_SEL \<rparr>"

lemma start_idle_eq:
  assumes "k_table k = [(1, 0)]" "k_idle k = None"
  obtains ks krsp where "start_idle stack_ptr entry_point k = Some (k\<lparr> k_procs := (k_procs k)(k_nprocs k :=
        (Process_new stack_ptr 0 0 ''/'')\<lparr> p_kernel_stack := ks, p_saved_kernel_rsp := krsp \<rparr>),
      k_proc_rc := (k_proc_rc k)(k_nprocs k := 2), k_nprocs := Suc (k_nprocs k), k_table := [(0, k_nprocs k), (1, 0)], k_idle := Some (k_nprocs k) \<rparr>)"
    "frame_at ks krsp = idle_frame stack_ptr entry_point"
proof -
  let ?ks = "p_kernel_stack (Process_new stack_ptr 0 0 ''/'')"
  have "TRAP_FRAME_SIZE \<le> length (ks_bytes ?ks)" by (simp add: Process_new_def posix_consts)
  from put_frame_spec [OF this, of "idle_frame stack_ptr entry_point"]
  obtain ks krsp where ks: "put_frame ?ks (idle_frame stack_ptr entry_point) = Some (ks, krsp)" "frame_at ks krsp = idle_frame stack_ptr entry_point"
    by blast
  then have "init_kernel_task_stack ?ks entry_point = Some (ks, krsp)"
    by (simp add: init_kernel_task_stack_def idle_frame_def Process_new_def)
  then show ?thesis using assms ks(2)
    by (intro that) (simp_all add: start_idle_def Let_def proc_alloc_def proc_clone_def table_insert_def set_idle_task_def numeral_2_eq_2 bt_get_def)
qed

lemma boot_spec:
  assumes sizes: "length init < 8 ^ 11" "length shell < 8 ^ 11" "length coreutils < 8 ^ 11"
    and elf: "elf_ok init" "4 * all_pages (elf_segments init) + 129 \<le> card (pool s)"
    and mm: "pt_inv R s" "pt_user R s" "PAGE_SIZE dvd c" "c \<notin> pool s"
  obtains tar k' vm loaded krs krsp where "create_initramfs (Some init) (Some shell) (Some coreutils) = Some tar"
    "services_init [tar] init_stack idle_stack idle_loop rsp ((kernel0 s)\<lparr> k_cr3 := c \<rparr>) = Some k'"
    "has_file k' ''/bin/init'' init \<and> has_file k' ''/bin/sh'' shell \<and> has_file k' ''/bin/coreutils'' coreutils
      \<and> has_file k' ''/etc/motd'' initramfs_motd \<and> resolve_path ''/'' ''/dev/console'' k' = Ok 8 \<and> k_inodes k' 8 = DevConsole
      \<and> resolve_path ''/'' ''/etc/os-release'' k' = Err ENOENT"
    "k_current k' = Some 0 \<and> k_idle k' = Some 1 \<and> k_table k' = [(0, 1), (1, 0)] \<and> k_queue k' = [] \<and> k_nprocs k' = 2
      \<and> k_next_pid k' = 1 \<and> k_current_pid k' = 1 \<and> k_proc_rc k' 0 = 2"
    "k_procs k' 0 = exec_process (init_proc init_stack) (RamFsFile_stat (RamFsFile_new init)) loaded vm krs krsp"
    "le_entry_point loaded = unat (e_entry (Elf64Header_of init))" "frame_at krs krsp = user_frame loaded"
    "k_cr3 k' = address_space vm" "vm_ok (insert (address_space vm) R) vm (k_mm k')"
    "\<And>x. x < stack_bottom \<Longrightarrow> view (address_space vm) (k_mm k') x = elf_image init (elf_segments init) x"
    "frame_at (p_kernel_stack (k_procs k' 1)) (p_saved_kernel_rsp (k_procs k' 1)) = idle_frame idle_stack idle_loop \<and> p_pid (k_procs k' 1) = 0"
    "\<And>h. h < 3 \<Longrightarrow> k_handles k' h = FileHandle_new 8 O_RDWR"
proof (rule boot_unpack [OF sizes, of "(kernel0 s)\<lparr> k_cr3 := c \<rparr>"])
  show "k_ninodes ((kernel0 s)\<lparr> k_cr3 := c \<rparr>) = 0" by (simp add: kernel0_def)
next
  fix tar kb I n assume t: "create_initramfs (Some init) (Some shell) (Some coreutils) = Some tar"
    and b: "boot_tree ((kernel0 s)\<lparr> k_cr3 := c \<rparr>) = (0, 8, kb)" "unpack_blobs 0 [tar] kb = Some (st ((kernel0 s)\<lparr> k_cr3 := c \<rparr>) I n)"
    and fs: "\<And>k'. k_root k' = Some 0 \<Longrightarrow> k_inodes k' = I \<Longrightarrow>
      has_file k' ''/bin/init'' init \<and> has_file k' ''/bin/sh'' shell \<and> has_file k' ''/bin/coreutils'' coreutils
      \<and> has_file k' ''/etc/motd'' initramfs_motd \<and> resolve_path ''/'' ''/dev/console'' k' = Ok 8 \<and> k_inodes k' 8 = DevConsole
      \<and> resolve_path ''/'' ''/etc/os-release'' k' = Err ENOENT"
  let ?k3 = "pre_exec init_stack s c I n"
  have k3: "k_procs ?k3 0 = init_proc init_stack" "k_mm ?k3 = s" "k_cr3 ?k3 = c" "k_root ?k3 = Some 0" "k_inodes ?k3 = I"
    by (simp_all add: pre_exec_def st_def kernel0_def)
  obtain x where x: "resolve_path ''/'' ''/bin/init'' ?k3 = Ok x" "k_inodes ?k3 x = RamFile (RamFsFile_new init)"
    using fs [OF k3(4,5)] by (auto simp: has_file_def)
  have d: "rf_data (RamFsFile_new init) = init" by (simp add: RamFsFile_new_def RamFsFile_new_with_creds_def)
  have pr: "p_vm_space (k_procs ?k3 0) = None" "p_cwd (k_procs ?k3 0) = ''/''" "TRAP_FRAME_SIZE \<le> length (ks_bytes (p_kernel_stack (k_procs ?k3 0)))"
    by (simp_all add: k3 init_proc_def Process_new_def posix_consts)
  have fits: "frame_fits [''/bin/init''] []"
    by (simp add: frame_fits_def frame_sp_def USER_STACK_TOP_def USER_STACK_SIZE_def align_down_def)
  show ?thesis
  proof (rule first_exec [OF pr x, of R "[''/bin/init'']" "[]" rsp, unfolded d k3(2,3), OF mm elf(1) fits elf(2)])
    fix vm s' loaded krs krsp
    let ?k4 = "(upd_proc 0 (\<lambda>p. exec_process p (RamFsFile_stat (RamFsFile_new init)) loaded vm krs krsp) ?k3)\<lparr> k_cr3 := address_space vm, k_mm := s' \<rparr>"
    assume ex: "Process_exec 0 ''/bin/init'' [''/bin/init''] [] rsp ?k3 = Done (Ok ()) ?k4"
      and le: "le_entry_point loaded = unat (e_entry (Elf64Header_of init))" "frame_at krs krsp = user_frame loaded"
      and m: "vm_ok (insert (address_space vm) R) vm s'"
        "\<And>x. x < stack_bottom \<Longrightarrow> view (address_space vm) s' x = elf_image init (elf_segments init) x"
    let ?k5 = "?k4\<lparr> k_proc_rc := (k_proc_rc ?k4)(0 := Suc (k_proc_rc ?k4 0)), k_table := [(1, 0)], k_current := Some 0 \<rparr>"
    have "k_table ?k4 = []" "k_current ?k4 = None" by (simp_all add: upd_proc_def pre_exec_def st_def kernel0_def)
    note si = start_init_eq [OF ex this]
    have "k_table ?k5 = [(1, 0)]" "k_idle ?k5 = None" by (simp_all add: upd_proc_def pre_exec_def st_def kernel0_def)
    then obtain ks krsp' where id: "start_idle idle_stack idle_loop ?k5 = Some (?k5\<lparr> k_procs := (k_procs ?k5)(k_nprocs ?k5 :=
        (Process_new idle_stack 0 0 ''/'')\<lparr> p_kernel_stack := ks, p_saved_kernel_rsp := krsp' \<rparr>),
      k_proc_rc := (k_proc_rc ?k5)(k_nprocs ?k5 := 2), k_nprocs := Suc (k_nprocs ?k5), k_table := [(0, k_nprocs ?k5), (1, 0)], k_idle := Some (k_nprocs ?k5) \<rparr>)"
      and fa: "frame_at ks krsp' = idle_frame idle_stack idle_loop"
      using start_idle_eq [of ?k5 idle_stack idle_loop] by blast
    define k6 where "k6 = ?k5\<lparr> k_procs := (k_procs ?k5)(k_nprocs ?k5 :=
        (Process_new idle_stack 0 0 ''/'')\<lparr> p_kernel_stack := ks, p_saved_kernel_rsp := krsp' \<rparr>),
      k_proc_rc := (k_proc_rc ?k5)(k_nprocs ?k5 := 2), k_nprocs := Suc (k_nprocs ?k5), k_table := [(0, k_nprocs ?k5), (1, 0)], k_idle := Some (k_nprocs ?k5) \<rparr>"
    have k6: "k_root k6 = Some 0" "k_inodes k6 = I" "k_current k6 = Some 0" "k_idle k6 = Some 1" "k_table k6 = [(0, 1), (1, 0)]" "k_queue k6 = []"
      "k_nprocs k6 = 2" "k_next_pid k6 = 1" "k_current_pid k6 = 1" "k_proc_rc k6 0 = 2"
      "k_procs k6 0 = exec_process (init_proc init_stack) (RamFsFile_stat (RamFsFile_new init)) loaded vm krs krsp"
      "k_procs k6 1 = (Process_new idle_stack 0 0 ''/'')\<lparr> p_kernel_stack := ks, p_saved_kernel_rsp := krsp' \<rparr>"
      "k_cr3 k6 = address_space vm" "k_mm k6 = s'" "h < 3 \<Longrightarrow> k_handles k6 h = FileHandle_new 8 O_RDWR" for h
      by (auto simp: k6_def upd_proc_def pre_exec_def st_def kernel0_def)
    have sv: "services_init [tar] init_stack idle_stack idle_loop rsp ((kernel0 s)\<lparr> k_cr3 := c \<rparr>) = Some (audit_init k6)"
      using b si id by (simp add: services_init_def k6_def)
    show ?thesis
      by (rule that [OF t sv fs, where vm = vm and loaded = loaded and krs = krs and krsp = krsp])
        (use le m fa k6 in \<open>simp_all add: Process_new_def\<close>)
  qed
qed

text \<open>
  C4: The boot from the archive of the build. If the first program is loadable and enough frames are free, the
  packer writes an archive with which \<open>services_init\<close> succeeds: the binaries and the message
  of the archive are found at their paths with their contents, and the console at its path. The current process has
  identifier 1, three descriptors on the console, an active address space that shows exactly the image of the
  first program, and is about to enter it at its entry point; the idle task has identifier 0 and is about to enter the idle
  loop. The file \<^verbatim>\<open>/etc/os-release\<close> that the kernel creates first does not survive: the archive has its own \<^verbatim>\<open>/etc\<close>.
\<close>

theorem boot_correct:
  assumes "length init < 8 ^ 11" "length shell < 8 ^ 11" "length coreutils < 8 ^ 11"
    and "elf_ok init" "4 * all_pages (elf_segments init) + 129 \<le> card (pool s)"
    and "pt_inv R s" "pt_user R s" "PAGE_SIZE dvd c" "c \<notin> pool s"
  shows "\<exists>tar k' vm loaded. create_initramfs (Some init) (Some shell) (Some coreutils) = Some tar
    \<and> services_init [tar] init_stack idle_stack idle_loop rsp ((kernel0 s)\<lparr> k_cr3 := c \<rparr>) = Some k'
    \<and> has_file k' ''/bin/init'' init \<and> has_file k' ''/bin/sh'' shell \<and> has_file k' ''/bin/coreutils'' coreutils
    \<and> has_file k' ''/etc/motd'' initramfs_motd \<and> resolve_path ''/'' ''/dev/console'' k' = Ok 8 \<and> k_inodes k' 8 = DevConsole
    \<and> resolve_path ''/'' ''/etc/os-release'' k' = Err ENOENT
    \<and> k_current k' = Some 0 \<and> k_idle k' = Some 1 \<and> k_table k' = [(0, 1), (1, 0)] \<and> k_queue k' = []
    \<and> p_pid (k_procs k' 0) = 1 \<and> p_fds (k_procs k' 0) = [Some 0, Some 1, Some 2] \<and> (\<forall>h < 3. k_handles k' h = FileHandle_new 8 O_RDWR)
    \<and> p_vm_space (k_procs k' 0) = Some vm \<and> k_cr3 k' = address_space vm \<and> vm_ok (insert (address_space vm) R) vm (k_mm k')
    \<and> (\<forall>x < stack_bottom. view (address_space vm) (k_mm k') x = elf_image init (elf_segments init) x)
    \<and> le_entry_point loaded = unat (e_entry (Elf64Header_of init))
    \<and> frame_at (p_kernel_stack (k_procs k' 0)) (p_saved_kernel_rsp (k_procs k' 0)) = user_frame loaded
    \<and> p_pid (k_procs k' 1) = 0
    \<and> frame_at (p_kernel_stack (k_procs k' 1)) (p_saved_kernel_rsp (k_procs k' 1)) = idle_frame idle_stack idle_loop"
proof (rule boot_spec [OF assms, where init_stack = init_stack and idle_stack = idle_stack and idle_loop = idle_loop and rsp = rsp])
  fix tar k' vm loaded krs krsp
  assume f: "create_initramfs (Some init) (Some shell) (Some coreutils) = Some tar"
    "services_init [tar] init_stack idle_stack idle_loop rsp ((kernel0 s)\<lparr> k_cr3 := c \<rparr>) = Some k'"
    and rest: "has_file k' ''/bin/init'' init \<and> has_file k' ''/bin/sh'' shell \<and> has_file k' ''/bin/coreutils'' coreutils
      \<and> has_file k' ''/etc/motd'' initramfs_motd \<and> resolve_path ''/'' ''/dev/console'' k' = Ok 8 \<and> k_inodes k' 8 = DevConsole
      \<and> resolve_path ''/'' ''/etc/os-release'' k' = Err ENOENT"
    "k_current k' = Some 0 \<and> k_idle k' = Some 1 \<and> k_table k' = [(0, 1), (1, 0)] \<and> k_queue k' = [] \<and> k_nprocs k' = 2
      \<and> k_next_pid k' = 1 \<and> k_current_pid k' = 1 \<and> k_proc_rc k' 0 = 2"
    "k_procs k' 0 = exec_process (init_proc init_stack) (RamFsFile_stat (RamFsFile_new init)) loaded vm krs krsp"
    "le_entry_point loaded = unat (e_entry (Elf64Header_of init))" "frame_at krs krsp = user_frame loaded"
    "k_cr3 k' = address_space vm" "vm_ok (insert (address_space vm) R) vm (k_mm k')"
    "\<And>x. x < stack_bottom \<Longrightarrow> view (address_space vm) (k_mm k') x = elf_image init (elf_segments init) x"
    "frame_at (p_kernel_stack (k_procs k' 1)) (p_saved_kernel_rsp (k_procs k' 1)) = idle_frame idle_stack idle_loop \<and> p_pid (k_procs k' 1) = 0"
    "\<And>h. h < 3 \<Longrightarrow> k_handles k' h = FileHandle_new 8 O_RDWR"
  have "p_pid (k_procs k' 0) = 1 \<and> p_fds (k_procs k' 0) = [Some 0, Some 1, Some 2] \<and> p_vm_space (k_procs k' 0) = Some vm
    \<and> frame_at (p_kernel_stack (k_procs k' 0)) (p_saved_kernel_rsp (k_procs k' 0)) = user_frame loaded"
    using rest(5) by (simp add: rest(3) exec_process_def init_proc_def Process_new_def Let_def)
  then show ?thesis using f rest by (intro exI [of _ tar] exI [of _ k'] exI [of _ vm] exI [of _ loaded]) simp
qed

lemma demo_boot: "pt_inv {8192} demo_big" "pt_user {8192} demo_big" "PAGE_SIZE dvd 8192" "8192 \<notin> pool demo_big"
  using demo_big_ok root_frame [of "{8192}" demo_big] by (auto simp: vm_ok_def vm_inv_def pt_inv_def PAGE_SIZE_def)

theorem boot_correct_witness:
  "\<exists>tar k'. create_initramfs (Some demo_elf) (Some [1, 2]) (Some []) = Some tar
    \<and> services_init [tar] 0 16384 4096 0 ((kernel0 demo_big)\<lparr> k_cr3 := 8192 \<rparr>) = Some k' \<and> has_file k' ''/bin/sh'' [1, 2]
    \<and> resolve_path ''/'' ''/etc/os-release'' k' = Err ENOENT \<and> p_pid (k_procs k' 0) = 1"
proof -
  have "length demo_elf < 8 ^ 11" "length [1, 2 :: u8] < 8 ^ 11" "length ([] :: bytes) < 8 ^ 11"
    "4 * all_pages (elf_segments demo_elf) + 129 \<le> card (pool demo_big)"
    by (simp_all add: demo_elf_header demo_all_pages demo_big_pool)
  from boot_correct [OF this(1-3) demo_elf_ok this(4) demo_boot, of 0 16384 4096 0] show ?thesis by blast
qed

subsection \<open>The first process does not survive its first child\<close>

lemma handles_drop_other:
  "proc_state k c \<noteq> Blocked \<Longrightarrow> k_proc_rc (fold handle_drop hs k) c = k_proc_rc k c \<and> k_cr3 (fold handle_drop hs k) = k_cr3 k"
proof (induction hs arbitrary: k)
  case (Cons h hs)
  obtain k' pids where w: "handle_drop h k = wake_tasks pids k'" "sched_view k = sched_view k'" using handle_drop_wakes by blast
  have st: "proc_state k' c = proc_state k c" "k_proc_rc k' c = k_proc_rc k c" using w(2) by (simp_all add: sched_view_def fun_eq_iff)
  have cr: "k_cr3 (wake_tasks ps x) = k_cr3 x" for ps x
  proof -
    have "k_cr3 (wake_one p x) = k_cr3 x" for p x by (simp add: wake_one_def add_task_def set_state_def upd_proc_def proc_clone_def split: option.split)
    then show ?thesis unfolding wake_tasks_def by (induction ps arbitrary: x) simp_all
  qed
  have "k_cr3 (handle_drop h k) = k_cr3 k"
    by (simp add: handle_drop_def Let_def PipeReadEnd_drop_def PipeWriteEnd_drop_def drain_all_def cr split: Inode.split)
  moreover have "k_proc_rc (handle_drop h k) c = k_proc_rc k c" "proc_state (handle_drop h k) c = proc_state k c"
    using wake_rc [of k' c pids] wake_tasks_proc [of k' c pids] st Cons.prems unfolding w(1) by simp_all
  ultimately show ?case using Cons.IH [of "handle_drop h k"] Cons.prems by simp
qed simp

text \<open>The child replaces its parent in the process table, because the first identifier given out is 1.\<close>

lemma first_fork:
  assumes k: "k_current k = Some 0" "k_idle k = Some 1" "k_table k = [(0, 1), (1, 0)]" "k_queue k = []" "k_nprocs k = 2" "k_next_pid k = 1"
      "k_proc_rc k 0 = 2"
    and vm: "p_vm_space (k_procs k 0) = Some vm" "vm_ok R vm (k_mm k)" "k_cr3 k = address_space vm" "address_space vm \<in> R"
  obtains (nomem) k1 where "sys_fork regs sp k = Some (- ENOMEM, k1)"
    | (child) k1 ch cvm where "sys_fork regs sp k = Some (1, k1)" "k_current k1 = Some 0" "k_idle k1 = Some 1" "k_table k1 = [(0, 1), (1, 2)]"
      "k_queue k1 = [2]" "k_nprocs k1 = 3" "k_proc_rc k1 0 = 1" "k_procs k1 0 = k_procs k 0" "p_vm_space (k_procs k1 2) = Some cvm"
      "address_space cvm \<noteq> address_space vm"
proof -
  have fr: "address_space vm \<in> frames R (k_mm k)" using root_frame vm(4) by auto
  have inv: "pt_inv R (k_mm k)" using vm(2) by (simp add: vm_ok_def vm_inv_def)
  have act: "PAGE_SIZE dvd k_cr3 k" "k_cr3 k \<notin> pool (k_mm k)"
    using frames_page [OF inv fr] fr inv by (auto simp: vm(3) pt_inv_def)
  obtain res s where cl: "clone_from (k_cr3 k) vm (k_mm k) = (res, s)" by fastforce
  obtain child where c: "res = Ok child" "case child of None \<Rightarrow> True | Some ch \<Rightarrow> address_space ch \<in> pool (k_mm k)"
    using clone_from_spec [OF vm(2) act cl] by (auto split: option.splits)
  show ?thesis
  proof (cases child)
    case None
    have "sys_fork regs sp k = Some (- ENOMEM, k\<lparr> k_mm := s \<rparr>)"
      using cl c(1) None vm(1) k(1) by (simp add: sys_fork_def get_current_process_def clone_vm_def Let_def)
    then show ?thesis by (rule nomem)
  next
    case (Some cvm)
    have cv: "clone_vm (k_procs k 0) k = (Ok (Some cvm), k\<lparr> k_mm := s \<rparr>)" using cl c(1) Some vm(1) by (simp add: clone_vm_def)
    obtain st rsp where st: "init_fork_child_stack (p_kernel_stack (fork_child sp (k_next_pid k) (k_procs k 0) (Some cvm))) regs = Some (st, rsp)"
      using fork_stack by blast
    define ch where "ch = (fork_child sp (k_next_pid k) (k_procs k 0) (Some cvm))\<lparr> p_kernel_stack := st, p_saved_kernel_rsp := rsp \<rparr>"
    obtain k2 where k2: "sys_fork regs sp k = map_option (Pair 1) (spawn_task 1 ch k2)" "sched_view k2 = sched_view k" "k_procs k2 = k_procs k"
      using fork_prepared [OF cv k(1) _ st] k(6) unfolding ch_def by auto
    note vf = view_fields [OF k2(2)]
    let ?k3 = "proc_clone 2 (snd (proc_alloc ch k2))"
    let ?k4 = "?k3\<lparr> k_table := [(0, 1), (1, 2)] \<rparr>"
    have "1 < k_proc_rc ?k4 0" using k vf by (simp add: proc_clone_def proc_alloc_def)
    from proc_drop_shared [OF this] have "table_insert 1 2 ?k3 = Some (?k4\<lparr> k_proc_rc := (k_proc_rc ?k4)(0 := k_proc_rc ?k4 0 - 1) \<rparr>)"
      using k vf by (simp add: table_insert_def bt_get_def proc_clone_def proc_alloc_def)
    then have sp: "spawn_task 1 ch k2 = Some (add_task 2 (?k4\<lparr> k_proc_rc := (k_proc_rc ?k4)(0 := k_proc_rc ?k4 0 - 1) \<rparr>))"
      using k vf by (simp add: spawn_task_def proc_alloc_def)
    have "address_space cvm \<noteq> address_space vm" using c(2) Some act(2) vm(3) by auto
    then show ?thesis using sp k2 k vf
      by (intro child [of "add_task 2 (?k4\<lparr> k_proc_rc := (k_proc_rc ?k4)(0 := k_proc_rc ?k4 0 - 1) \<rparr>)" cvm])
        (simp_all add: add_task_def proc_clone_def proc_alloc_def ch_def fork_child_def)
  qed
qed

text \<open>The next timer tick then drops the last reference to the parent.\<close>

lemma first_tick:
  assumes k: "k_current k = Some 0" "k_idle k = Some 1" "k_queue k = [2]" "k_nprocs k = 3" "k_proc_rc k 0 = 1"
    and p: "proc_state k 0 = Ready" "p_vm_space (k_procs k 0) = Some vm" "p_vm_space (k_procs k 2) = Some cvm" "address_space cvm \<noteq> address_space vm"
  obtains rsp' k' where "timer_tick_schedule rsp k = Some (rsp', k')" "k_proc_rc k' 0 = 0" "lost k' 0"
proof -
  define k1 where "k1 = (dispatch_to 2 (upd_proc 0 (p_saved_kernel_rsp_update (\<lambda>_. rsp)) (k\<lparr> k_queue := [] \<rparr>)))\<lparr> k_current := Some 2 \<rparr>"
  define k2 where "k2 = fold handle_drop (map the (filter (\<lambda>s. s \<noteq> None) (p_fds (k_procs k1 0)))) (k1\<lparr> k_proc_rc := (k_proc_rc k1)(0 := 0) \<rparr>)"
  have k1: "k_current k1 = Some 2" "k_idle k1 = Some 1" "k_queue k1 = []" "k_nprocs k1 = 3" "k_proc_rc k1 0 = 1" "proc_state k1 0 = Ready"
    "k_cr3 k1 = address_space cvm" "p_vm_space (k_procs k1 0) = Some vm"
    using k p by (simp_all add: k1_def upd_proc_def) (simp add: dispatch_to_def Let_def activate_def set_state_def upd_proc_def)
  have k2: "k_proc_rc k2 0 = 0" "k_cr3 k2 = address_space cvm"
    using handles_drop_other [of "k1\<lparr> k_proc_rc := (k_proc_rc k1)(0 := 0) \<rparr>" 0] k1 by (simp_all add: k2_def)
  let ?k' = "k2\<lparr> k_mm := free_page_table_hierarchy (address_space vm) (k_mm k2) \<rparr>"
  have "proc_drop 0 k1 = vm_drop vm k2" unfolding k2_def using k1 by (simp add: proc_drop_last Let_def)
  then have dr: "proc_drop 0 k1 = Some ?k'" using k2 p(4) by (simp add: vm_drop_def VmSpace_drop_def)
  have "timer_tick_schedule rsp k = Some (p_saved_kernel_rsp (k_procs (dispatch_to 2 (upd_proc 0 (p_saved_kernel_rsp_update (\<lambda>_. rsp)) (k\<lparr> k_queue := [] \<rparr>))) 2), ?k')"
    using k p dr by (simp add: timer_tick_schedule_def preempt_def Let_def upd_proc_def k1_def)
  moreover have "lost k1 0" using k1 by (simp add: lost_def)
  then have "lost ?k' 0" by (rule lost_proc_drop [OF dr])
  ultimately show ?thesis using that k2(1) by simp
qed

text \<open>
  C19: The first process is lost with its first child. After the boot, the first \<open>fork\<close> of process 1 either finds no memory or
  returns 1, the identifier of the caller, and enters the child into the process table in place of the
  caller. The first process was never marked as running, so the next timer tick does not queue it again but
  drops its last reference, and it is dispatched in no later run of the scheduler.
\<close>

theorem first_child_destroys_init:
  assumes "length init < 8 ^ 11" "length shell < 8 ^ 11" "length coreutils < 8 ^ 11"
    and "elf_ok init" "4 * all_pages (elf_segments init) + 129 \<le> card (pool s)"
    and "pt_inv R s" "pt_user R s" "PAGE_SIZE dvd c" "c \<notin> pool s"
  shows "\<exists>tar k ret k1. create_initramfs (Some init) (Some shell) (Some coreutils) = Some tar
    \<and> services_init [tar] init_stack idle_stack idle_loop rsp ((kernel0 s)\<lparr> k_cr3 := c \<rparr>) = Some k
    \<and> k_current k = Some 0 \<and> sys_fork regs sp k = Some (ret, k1)
    \<and> (ret = - ENOMEM \<or> ret = 1 \<and> bt_get (k_table k1) 1 = Some 2
        \<and> (\<exists>next_rsp k2. timer_tick_schedule tick_rsp k1 = Some (next_rsp, k2) \<and> k_proc_rc k2 0 = 0
            \<and> (\<forall>ds k3. sched_run k2 ds k3 \<longrightarrow> 0 \<notin> set ds)))"
proof (rule boot_spec [OF assms, where init_stack = init_stack and idle_stack = idle_stack and idle_loop = idle_loop and rsp = rsp])
  fix tar k vm loaded krs krsp
  assume f: "create_initramfs (Some init) (Some shell) (Some coreutils) = Some tar"
    "services_init [tar] init_stack idle_stack idle_loop rsp ((kernel0 s)\<lparr> k_cr3 := c \<rparr>) = Some k"
    and b: "k_current k = Some 0 \<and> k_idle k = Some 1 \<and> k_table k = [(0, 1), (1, 0)] \<and> k_queue k = [] \<and> k_nprocs k = 2
      \<and> k_next_pid k = 1 \<and> k_current_pid k = 1 \<and> k_proc_rc k 0 = 2"
    and p: "k_procs k 0 = exec_process (init_proc init_stack) (RamFsFile_stat (RamFsFile_new init)) loaded vm krs krsp"
    and vm: "k_cr3 k = address_space vm" "vm_ok (insert (address_space vm) R) vm (k_mm k)"
  have pv: "p_vm_space (k_procs k 0) = Some vm" "proc_state k 0 = Ready"
    by (simp_all add: p exec_process_def init_proc_def Process_new_def Let_def)
  have g: "k_current k = Some 0" "k_idle k = Some 1" "k_table k = [(0, 1), (1, 0)]" "k_queue k = []" "k_nprocs k = 2" "k_next_pid k = 1"
      "k_proc_rc k 0 = 2" using b by simp_all
  show ?thesis
  proof (rule first_fork [OF g pv(1) vm(2,1) insertI1, of regs sp])
    fix k1 assume "sys_fork regs sp k = Some (- ENOMEM, k1)"
    then show ?thesis using f g(1) by blast
  next
    fix k1 cvm assume fk: "sys_fork regs sp k = Some (1, k1)" and t: "k_table k1 = [(0, 1), (1, 2)]"
      and q: "k_current k1 = Some 0" "k_idle k1 = Some 1" "k_queue k1 = [2]" "k_nprocs k1 = 3" "k_proc_rc k1 0 = 1"
      and c: "k_procs k1 0 = k_procs k 0" "p_vm_space (k_procs k1 2) = Some cvm" "address_space cvm \<noteq> address_space vm"
    have "proc_state k1 0 = Ready" "p_vm_space (k_procs k1 0) = Some vm" using pv c(1) by simp_all
    from first_tick [OF q this c(2,3), of tick_rsp]
    obtain next_rsp k2 where "timer_tick_schedule tick_rsp k1 = Some (next_rsp, k2)" "k_proc_rc k2 0 = 0" "lost k2 0" by blast
    moreover have "bt_get (k_table k1) 1 = Some 2" by (simp add: t bt_get_def)
    moreover have "\<forall>ds k3. sched_run k2 ds k3 \<longrightarrow> 0 \<notin> set ds" using lost_run [OF _ \<open>lost k2 0\<close>] by blast
    ultimately show ?thesis using f g(1) fk by blast
  qed
qed

theorem first_child_destroys_init_witness:
  "\<exists>tar k ret k1. create_initramfs (Some demo_elf) (Some [1, 2]) (Some []) = Some tar
    \<and> services_init [tar] 0 16384 4096 0 ((kernel0 demo_big)\<lparr> k_cr3 := 8192 \<rparr>) = Some k \<and> sys_fork demo_regs 32768 k = Some (ret, k1)
    \<and> (ret = - ENOMEM \<or> ret = 1 \<and> bt_get (k_table k1) 1 = Some 2)"
proof -
  have "length demo_elf < 8 ^ 11" "length [1, 2 :: u8] < 8 ^ 11" "length ([] :: bytes) < 8 ^ 11"
    "4 * all_pages (elf_segments demo_elf) + 129 \<le> card (pool demo_big)"
    by (simp_all add: demo_elf_header demo_all_pages demo_big_pool)
  from first_child_destroys_init [OF this(1-3) demo_elf_ok this(4) demo_boot, of 0 16384 4096 0 demo_regs 32768 0] show ?thesis by blast
qed

end
