(* ===== verification/Spec2Isabelle.thy ===== *)
theory Spec2Isabelle
  imports Prelude Posix_Abi Pmm Mm_Core Paging Vma Vmm User_Mem Vm_Clone Vm_Fresh Vm_Account
    Layout Ordered_Map Process Kernel Scheduler Signals Credentials Posix_Process
    Path Pipe Terminal Telemetry Ramfs Vfs Posix_Fs Descriptors Fs_Calls Posix_Mem Epoll Posix_System
    Elf Elf_Load Exec Dispatch Tar Initramfs Boot
begin

text \<open>
  Verification of rust-posix-os, a single-CPU kernel for x86-64 with POSIX system calls. Paths below are relative to
  \<^verbatim>\<open>kernel/src\<close> unless they start with \<open>libs\<close> or \<open>tools\<close>.

  The program. \<^verbatim>\<open>ostd\<close> is the privileged part: physical frames, page tables, address spaces, access to user memory, the
  serial port and context switches. \<^verbatim>\<open>services\<close> is the rest of the kernel: processes, the scheduler, signals, the file system,
  terminals, the audit trail and the system calls. \<open>services_init\<close> builds the first file system from the archive that
  \<^verbatim>\<open>tools/xtask\<close> packs, loads the first program into process 1 and registers the idle task. From then on the kernel runs when a
  process makes a system call (the dispatcher decodes the registers, calls a handler, stores the result in \<open>rax\<close> and
  delivers a signal) and when the timer ticks (the scheduler preempts).

  The model. There is one record \<open>kernel\<close> with the statics of all services, among them the memory state (frame bitmap and
  physical memory). An operation takes the state and returns it updated. Objects behind \<open>Arc\<close> live in stores indexed by
  references; processes and open file descriptions carry their strong counts, since dropping the last
  reference frees page tables and closes pipe ends. An error number is \<open>Err\<close>, a panic is \<open>Panic\<close> or \<open>None\<close>, and a
  blocking operation returns one of \<open>Done\<close>, \<open>Sleep\<close> (context switch) and \<open>Again\<close>. Sections that the code runs with
  interrupts masked, and the iterations of the blocking loops, are single steps, and interleavings are sequences of steps.

  Theories and sources.
   - Prelude, Layout, Ordered_Map: machine types and checked arithmetic, little-endian layout of structures, and \<open>BTreeMap\<close>
     with the contract \<open>name_map\<close> of a finite map.
   - Posix_Abi: \<^verbatim>\<open>libs/posix-abi/src\<close>, the constants, structures and the timer arithmetic.
   - Pmm: \<^verbatim>\<open>ostd/mm/pmm.rs\<close>. The contract \<open>frame_allocator\<close> is interpreted by the bitmap allocator; allocated frames are distinct and
     come back when freed.
   - Mm_Core: \<^verbatim>\<open>libs/mm-core/src/lib.rs\<close>, the mapping loop with roll back, verified over the contract \<open>mm_backend\<close>, which
     extends \<open>frame_allocator\<close> and is interpreted by the page tables.
   - Paging: \<^verbatim>\<open>ostd/arch/x86_64/paging.rs\<close>, \<^verbatim>\<open>ostd/mm/flags.rs\<close>. The tables form a forest; each operation changes the
     translation of exactly the given pages.
   - Vma, Vmm, Vm_Fresh, Vm_Clone, Vm_Account: \<^verbatim>\<open>ostd/mm/vmm.rs\<close>. Areas and page tables stay consistent; clones are private
     copies; no frame is lost when address spaces are created and filled.
   - User_Mem: \<^verbatim>\<open>ostd/mm/user.rs\<close>, \<^verbatim>\<open>services/posix/user_access.rs\<close>. Accesses never fault and touch exactly the buffer.
   - Process, Kernel: \<^verbatim>\<open>services/process/mod.rs\<close>, \<^verbatim>\<open>ostd/arch/x86_64/task.rs\<close>, and the state of the kernel.
   - Scheduler: \<^verbatim>\<open>services/scheduler/mod.rs\<close>, \<^verbatim>\<open>services/vfs/wait_queue.rs\<close>; refinement of an abstract round-robin scheduler, fairness.
   - Signals, Credentials, Posix_Process: \<^verbatim>\<open>services/ipc/mod.rs\<close>, \<^verbatim>\<open>services/posix/process.rs\<close>; masks, delivery and return from
     handlers, identities over all sequences of calls, \<open>fork\<close> and \<open>wait4\<close>.
   - Pipe: \<^verbatim>\<open>services/vfs/pipe.rs\<close>; first-in first-out order over all runs, and the result of every branch.
   - Terminal, Telemetry: \<^verbatim>\<open>ostd/drivers/serial.rs\<close>, \<^verbatim>\<open>services/tty/mod.rs\<close>, \<^verbatim>\<open>services/vfs/devfs.rs\<close>, \<^verbatim>\<open>services/monitor.rs\<close>,
     \<^verbatim>\<open>services/audit/mod.rs\<close>, \<^verbatim>\<open>services/posix/audit.rs\<close>, \<^verbatim>\<open>services/vfs/procfs.rs\<close>.
   - Path, Ramfs, Vfs: \<^verbatim>\<open>services/vfs/mod.rs\<close>, \<^verbatim>\<open>services/vfs/ramfs.rs\<close>; canonical paths, resolution, renaming, byte streams.
   - Posix_Fs, Fs_Calls, Descriptors: \<^verbatim>\<open>services/posix/fs.rs\<close>; permission checks, and exact reference counts over all runs of
     the calls that create, copy and close descriptors.
   - Posix_Mem, Epoll, Posix_System: \<^verbatim>\<open>services/posix/mem.rs\<close>, \<^verbatim>\<open>services/posix/epoll.rs\<close>, \<^verbatim>\<open>services/vfs/epoll.rs\<close>, \<^verbatim>\<open>services/posix/system.rs\<close>.
   - Elf, Elf_Load, Exec: \<^verbatim>\<open>services/process/elf.rs\<close>, \<^verbatim>\<open>ostd/mm/pod.rs\<close>, and program execution; the loaded address space is the image
     that the program headers describe with the arguments on its stack, and the frames of the old one are released.
   - Dispatch: \<^verbatim>\<open>services/posix/mod.rs\<close>; the registers a system call may change, and signal handlers are transparent.
   - Tar, Initramfs: \<^verbatim>\<open>services/vfs/tar.rs\<close>, \<^verbatim>\<open>tools/xtask/src/initramfs.rs\<close>; unpacking ends, and yields the tree that was packed.
   - Boot: \<^verbatim>\<open>services/mod.rs\<close>; the state after the boot, and what the first \<open>fork\<close> and timer tick do to process 1.

  Termination and bounds. Loops are structural recursion or functions with a termination proof. The page table walk
  takes the level, at most 4, as its fuel. The loop over an archive is a partial function whose undefined value would be
  \<open>None\<close>; it is shown to return for every archive of less than 2 ^ 63 bytes, the limit of a Rust slice. Addresses and sizes are natural
  numbers with the checked operations of the source; an unchecked operation that can overflow panics, as it does in the
  development profile that the build uses. The counters of events, samples and snapshots are words of 64 bits and wrap around, while reference counts and the
  indices of the stores are natural numbers without a bound.

  Not modelled. The kernel heap (\<^verbatim>\<open>ostd/mm/heap.rs\<close>): allocations of kernel objects succeed. Locks and the interrupt flag
  (\<^verbatim>\<open>ostd/sync.rs\<close>, \<^verbatim>\<open>ostd/irq/mod.rs\<close>): the model has one CPU and atomic steps. The TLB. Assembly and
  device registers: descriptor tables, interrupt controller, timer, system call entry, the fault handlers, which halt, and the
  framebuffer. The structures of the bootloader: the payloads of the boot modules are an argument of \<open>services_init\<close>. Log output. The
  user programs and the C library (\<^verbatim>\<open>userland\<close>, \<^verbatim>\<open>libs/libc\<close>), and the remaining build and test tools, which are host programs.
\<close>

end
